(* ===== verification/Prelude.thy ===== *)
theory Prelude
  imports Main "HOL-Library.Word" "HOL-Library.Monad_Syntax"
begin

text \<open>
  What every component of the development shares: names for the machine types of the C code, the
  reading of bytes from a buffer (a read outside the buffer is the value \<open>None\<close>), the C
  conditions on words as facts on natural numbers, and the collections of simplification rules
  that the component theories fill.
\<close>

unbundle bit_operations_syntax

section \<open>Machine types\<close>

type_synonym u8 = "8 word"
type_synonym u16 = "16 word"
type_synonym u32 = "32 word"
type_synonym u64 = "64 word"
type_synonym bytes = "u8 list"

text \<open>
  The collections: \<open>fifo_simps\<close> holds the effect of the ring buffer operations on the list they
  represent, \<open>mem_simps\<close> the reads of a buffer, \<open>dlist_simps\<close> the effect of pointer updates on
  doubly linked lists.
\<close>

named_theorems fifo_simps
named_theorems mem_simps
named_theorems dlist_simps

section \<open>Reading memory\<close>

text \<open>
  A pointer into a buffer is the list of the bytes from that address to the end of the buffer, so
  \<open>pkt + n\<close> is \<open>drop n pkt\<close>. A load beyond the last byte is undefined behaviour in C and
  \<open>None\<close> here.
\<close>

definition rd8 :: "bytes \<Rightarrow> nat \<Rightarrow> u8 option" where
  "rd8 b i = (if i < length b then Some (b ! i) else None)"

definition rd16be :: "bytes \<Rightarrow> nat \<Rightarrow> u16 option" where
  "rd16be b i = do {
     h \<leftarrow> rd8 b i;
     l \<leftarrow> rd8 b (i + 1);
     Some (push_bit 8 (ucast h) OR ucast l)
   }"

lemma rd8_Some [mem_simps]: "i < length b \<Longrightarrow> rd8 b i = Some (b ! i)"
  by (simp add: rd8_def)

lemma rd8_None [mem_simps]: "length b \<le> i \<Longrightarrow> rd8 b i = None"
  by (simp add: rd8_def)

lemma rd8_eq_Some [mem_simps]: "rd8 b i = Some x \<longleftrightarrow> i < length b \<and> x = b ! i"
  by (auto simp: rd8_def)

lemma rd8_drop [mem_simps]: "rd8 (drop n b) i = rd8 b (n + i)"
  by (auto simp: rd8_def)

lemma rd16be_Some [mem_simps]:
  "i + 1 < length b \<Longrightarrow> rd16be b i = Some (push_bit 8 (ucast (b ! i)) OR ucast (b ! (i + 1)))"
  by (simp add: rd16be_def rd8_def)

section \<open>Counters modulo a power of two\<close>

text \<open>
  The ring buffers and the sequence counters use indexes that just wrap around: two counters that
  are less than one lap apart are equal exactly when their words are.
\<close>

lemma of_nat_word_eq_iff_lap:
  assumes "n \<le> m" "m - n < 2 ^ LENGTH('l::len)"
  shows "(of_nat m :: 'l word) = of_nat n \<longleftrightarrow> m = n"
proof
  assume eq: "(of_nat m :: 'l word) = of_nat n"
  have "(of_nat (m - n) :: 'l word) = of_nat m - of_nat n"
    using assms(1) by (simp add: of_nat_diff)
  then have "(of_nat (m - n) :: 'l word) = 0" using eq by simp
  then have "unat (of_nat (m - n) :: 'l word) = 0" by simp
  then have "m - n = 0" using assms(2) by (simp add: unat_of_nat)
  then show "m = n" using assms(1) by simp
qed simp

lemma unat_of_nat_diff_lap:
  assumes "n \<le> m" "m - n < 2 ^ LENGTH('l::len)"
  shows "unat ((of_nat m :: 'l word) - of_nat n) = m - n"
proof -
  have "(of_nat m :: 'l word) - of_nat n = of_nat (m - n)"
    using assms(1) by (simp add: of_nat_diff)
  then show ?thesis using assms(2) by (simp add: unat_of_nat)
qed

lemma of_nat_eq_small:
  assumes "n < 2 ^ LENGTH('l)" "k < 2 ^ LENGTH('l)"
  shows "(of_nat n :: 'l::len word) = of_nat k \<longleftrightarrow> n = k"
proof
  assume "(of_nat n :: 'l word) = of_nat k"
  then have "unat (of_nat n :: 'l word) = unat (of_nat k :: 'l word)" by simp
  then show "n = k" using assms by (simp add: unat_of_nat)
qed simp

lemma unat_eq_iff: "unat (a :: 'l::len word) = unat b \<longleftrightarrow> a = b"
  by (auto intro: unsigned_word_eqI)

lemma word_mod_lt: "n \<noteq> 0 \<Longrightarrow> (a :: 'l::len word) mod n < n"
  by (simp add: word_less_nat_alt unat_mod_distrib unat_gt_0)

lemma unat_bound: "unat (w :: 'l::len word) < 2 ^ LENGTH('l)"
  by (rule unsigned_less)

lemma unat_ucast_up:
  assumes "LENGTH('a::len) \<le> LENGTH('b::len)"
  shows "unat (ucast (w :: 'a word) :: 'b word) = unat w"
proof -
  have "unat w < 2 ^ LENGTH('b)"
    using unat_bound[of w] power_increasing[OF assms, of "2 :: nat"] by linarith
  then show ?thesis by (simp add: unsigned_ucast_eq take_bit_nat_eq_self)
qed

lemma unat_add_1_if: "unat ((w :: 'l::len word) + 1) =
    (if w = - 1 then 0 else unat w + 1)"
  by (metis unatSuc unat_0 Suc_eq_plus1 add.commute eq_neg_iff_add_eq_0)

lemma unat_add_1_le: "unat ((w :: 'l::len word) + 1) \<le> unat w + 1"
  unfolding unat_add_1_if by simp

lemma unat_max_word: "unat (- 1 :: 'l::len word) = 2 ^ LENGTH('l) - 1"
  by (simp add: unsigned_minus_1_eq_mask mask_eq_exp_minus_1)

lemma unat_nonzero_Suc: "(w :: 'l::len word) \<noteq> 0 \<Longrightarrow> unat w = Suc (unat (w - 1))"
  using unat_minus_one[of w] unat_gt_0[of w] by linarith

lemma unat_nonwrap_Suc: "(w :: 'l::len word) + 1 \<noteq> 0 \<Longrightarrow> unat (w + 1) = Suc (unat w)"
  using unatSuc[of w] by (simp add: add.commute)

lemma unat_Suc_less: "(u :: 'l::len word) < v \<Longrightarrow> unat (u + 1) = Suc (unat u)"
  by (metis unat_add_1_if Suc_eq_plus1 word_order.extremum_strict)

section \<open>Lists\<close>

lemma map_upt_shift: "map f [1..<Suc n] = map (\<lambda>i. f (Suc i)) [0..<n]"
  by (induction n) auto

section \<open>Loops over an index range\<close>

text \<open>
  \<open>for (i = a; i < b; i++) body\<close> is \<open>for_each body s [a..<b]\<close>; a body that fails ends the loop.
\<close>

fun for_each :: "('s \<Rightarrow> 'i \<Rightarrow> 's option) \<Rightarrow> 's \<Rightarrow> 'i list \<Rightarrow> 's option" where
  "for_each f s [] = Some s"
| "for_each f s (i # is) = Option.bind (f s i) (\<lambda>s'. for_each f s' is)"

lemma for_each_append: "for_each f s (xs @ ys) = Option.bind (for_each f s xs) (\<lambda>s'. for_each f s' ys)"
  by (induction xs arbitrary: s) (auto split: bind_splits)

text \<open>The invariant rule: \<open>I done s\<close> holds after the indexes \<open>done\<close>.\<close>

lemma for_each_inv:
  assumes "I [] s"
    and "\<And>pre i post s'. is = pre @ i # post \<Longrightarrow> I pre s' \<Longrightarrow> \<exists>s''. f s' i = Some s'' \<and> I (pre @ [i]) s''"
  shows "\<exists>s'. for_each f s is = Some s' \<and> I is s'"
proof -
  have "\<exists>s'. for_each f s pre = Some s' \<and> I pre s'" if "is = pre @ post" for pre post
    using that
  proof (induction pre arbitrary: post rule: rev_induct)
    case (snoc i pre)
    then obtain s1 where "for_each f s pre = Some s1" "I pre s1" by fastforce
    moreover obtain s2 where "f s1 i = Some s2" "I (pre @ [i]) s2"
      using assms(2)[of pre i post s1] snoc.prems calculation(2) by auto
    ultimately show ?case by (auto simp: for_each_append)
  qed (use assms(1) in simp)
  from this[of "is" "[]"] show ?thesis by simp
qed

end
