(* ===== verification/RingBuffer.thy ===== *)
theory RingBuffer
  imports Prelude
begin

text \<open>
  The ring buffers of \<open>src/util-ringbuffer.c\<close>, one operation at a time: no other thread runs
  while an operation does. The interleaving of several readers and writers is in
  \<open>RingBufferConc\<close>. The 8-bit and the 16-bit buffers have the same code at two widths, so the
  bodies are written once over the width \<open>'l\<close> of the index and each C function is the body at its width.
  \<open>RINGBUFFER_MUTEX_WAIT\<close> is not defined (the header leaves it commented out), so waiting is
  \<open>usleep\<close> and the condition signals are not compiled.
\<close>

section \<open>State\<close>

text \<open>
  \<open>void *\<close> values are \<open>'v option\<close> with \<open>None\<close> for \<open>NULL\<close>. The array has exactly as many slots
  as the index type has values, so it is a function of the index word.
\<close>

record ('i, 'v) ring =
  rb_write :: 'i
  rb_read :: 'i
  rb_shutdown :: u8
  rb_array :: "'i \<Rightarrow> 'v option"

type_synonym 'v RingBuffer8 = "(u8, 'v) ring"
type_synonym 'v RingBuffer16 = "(u16, 'v) ring"

text \<open>
  The result of an operation: it returns a value, or it stays in its waiting loop, which only
  another thread can end.
\<close>

datatype 'r outcome = Returns 'r | Waits

section \<open>The bodies, over the width\<close>

definition ring_init :: "('l::len word, 'v) ring" where
  "ring_init = \<lparr>rb_write = 0, rb_read = 0, rb_shutdown = 0, rb_array = (\<lambda>_. None)\<rparr>"

definition ring_shutdown :: "('l::len word, 'v) ring \<Rightarrow> ('l word, 'v) ring" where
  "ring_shutdown rb = rb\<lparr>rb_shutdown := 1\<rparr>"

definition ring_is_empty :: "('l::len word, 'v) ring \<Rightarrow> bool" where
  "ring_is_empty rb = (rb_write rb = rb_read rb)"

definition ring_is_full :: "('l::len word, 'v) ring \<Rightarrow> bool" where
  "ring_is_full rb = (rb_write rb + 1 = rb_read rb)"

text \<open>The waiting loop ends at once when the shutdown flag is up: \<open>Get\<close> gives \<open>NULL\<close>, \<open>Put\<close> -1.\<close>

definition get_waiting :: "('l::len word, 'v) ring \<Rightarrow> 'v option outcome" where
  "get_waiting rb = (if rb_shutdown rb \<noteq> 0 then Returns None else Waits)"

definition put_waiting :: "('l::len word, 'v) ring \<Rightarrow> int outcome" where
  "put_waiting rb = (if rb_shutdown rb \<noteq> 0 then Returns (- 1) else Waits)"

text \<open>Single reader: load the slot at the read index, then advance the index.\<close>

definition sr_get :: "('l::len word, 'v) ring \<Rightarrow> 'v option outcome \<times> ('l word, 'v) ring" where
  "sr_get rb =
     (if rb_write rb = rb_read rb then (get_waiting rb, rb)
      else (Returns (rb_array rb (rb_read rb)), rb\<lparr>rb_read := rb_read rb + 1\<rparr>))"

text \<open>Single writer: store at the write index, then advance the index.\<close>

definition sw_put :: "('l::len word, 'v) ring \<Rightarrow> 'v option \<Rightarrow> int outcome \<times> ('l word, 'v) ring" where
  "sw_put rb ptr =
     (if rb_write rb + 1 = rb_read rb then (put_waiting rb, rb)
      else (Returns 0, rb\<lparr>rb_array := (rb_array rb)(rb_write rb := ptr),
                          rb_write := rb_write rb + 1\<rparr>))"

text \<open>
  Multiple writers: the full test is repeated once the spin lock is held; if the buffer filled
  meanwhile the lock is dropped and the operation starts again, which on an unchanged buffer is
  the waiting loop.
\<close>

definition mw_put :: "('l::len word, 'v) ring \<Rightarrow> 'v option \<Rightarrow> int outcome \<times> ('l word, 'v) ring" where
  "mw_put rb ptr =
     (if rb_write rb + 1 = rb_read rb then (put_waiting rb, rb)
      else if rb_write rb + 1 = rb_read rb then (put_waiting rb, rb)
      else (Returns 0, rb\<lparr>rb_array := (rb_array rb)(rb_write rb := ptr),
                          rb_write := rb_write rb + 1\<rparr>))"

text \<open>
  Multiple readers: the \<open>do \<dots> while\<close> loop tries the slots from \<open>readp + 1\<close> on until the
  compare-and-swap of the read index succeeds. \<open>None\<close> is the jump to \<open>retry\<close>.
\<close>

function mr_cas_loop :: "('l::len word, 'v) ring \<Rightarrow> 'l word \<Rightarrow> 'v option option \<times> ('l word, 'v) ring" where
  "mr_cas_loop rb readp =
     (if rb_write rb = rb_read rb then (None, rb)
      else
        let readp' = readp + 1;
            ptr = rb_array rb readp'
        in if rb_read rb = readp' then (Some ptr, rb\<lparr>rb_read := readp' + 1\<rparr>)
           else mr_cas_loop rb readp')"
  by pat_completeness auto
termination
proof (relation "measure (\<lambda>(rb, readp). unat (rb_read rb - (readp + 1)))", goal_cases)
  case 1
  then show ?case by simp
next
  case (2 rb readp readp' ptr)
  then have "rb_read rb - (readp + 1) \<noteq> 0" by simp
  then have "unat (rb_read rb - (readp + 1) - 1) < unat (rb_read rb - (readp + 1))"
    by (metis diff_less less_numeral_extra(1) unat_gt_0 unat_minus_one)
  then show ?case using 2 by (simp add: diff_diff_eq add.assoc)
qed

declare mr_cas_loop.simps [simp del]

definition mr_get :: "('l::len word, 'v) ring \<Rightarrow> 'v option outcome \<times> ('l word, 'v) ring" where
  "mr_get rb =
     (if rb_write rb = rb_read rb then (get_waiting rb, rb)
      else case mr_cas_loop rb (rb_read rb - 1) of
             (Some ptr, rb') \<Rightarrow> (Returns ptr, rb')
           | (None, rb') \<Rightarrow> (get_waiting rb', rb'))"

text \<open>The variant that does not wait gives \<open>NULL\<close> on an empty buffer.\<close>

definition mr_get_nowait :: "('l::len word, 'v) ring \<Rightarrow> 'v option outcome \<times> ('l word, 'v) ring" where
  "mr_get_nowait rb =
     (if rb_write rb = rb_read rb then (Returns None, rb)
      else case mr_cas_loop rb (rb_read rb - 1) of
             (Some ptr, rb') \<Rightarrow> (Returns ptr, rb')
           | (None, rb') \<Rightarrow> (Returns None, rb'))"

section \<open>The functions of the file\<close>

text \<open>\<open>SCMalloc\<close> may fail: \<open>alloc\<close> says whether it gave memory.\<close>

definition RingBuffer8Init :: "bool \<Rightarrow> 'v RingBuffer8 option" where
  "RingBuffer8Init alloc = (if \<not> alloc then None else Some ring_init)"

definition RingBufferInit :: "bool \<Rightarrow> 'v RingBuffer16 option" where
  "RingBufferInit alloc = (if \<not> alloc then None else Some ring_init)"

definition RingBuffer8Shutdown :: "'v RingBuffer8 \<Rightarrow> 'v RingBuffer8" where
  "RingBuffer8Shutdown rb = ring_shutdown rb"

definition RingBufferShutdown :: "'v RingBuffer16 \<Rightarrow> 'v RingBuffer16" where
  "RingBufferShutdown rb = ring_shutdown rb"

definition RingBuffer8IsEmpty :: "'v RingBuffer8 \<Rightarrow> int" where
  "RingBuffer8IsEmpty rb = (if ring_is_empty rb then 1 else 0)"

definition RingBuffer8IsFull :: "'v RingBuffer8 \<Rightarrow> int" where
  "RingBuffer8IsFull rb = (if ring_is_full rb then 1 else 0)"

definition RingBufferIsEmpty :: "'v RingBuffer16 \<Rightarrow> int" where
  "RingBufferIsEmpty rb = (if ring_is_empty rb then 1 else 0)"

definition RingBufferIsFull :: "'v RingBuffer16 \<Rightarrow> int" where
  "RingBufferIsFull rb = (if ring_is_full rb then 1 else 0)"

definition RingBufferSize :: "'v RingBuffer16 \<Rightarrow> u16" where
  "RingBufferSize rb = rb_write rb - rb_read rb"

definition RingBufferSrSw8Get :: "'v RingBuffer8 \<Rightarrow> 'v option outcome \<times> 'v RingBuffer8" where
  "RingBufferSrSw8Get rb = sr_get rb"

definition RingBufferSrSw8Put :: "'v RingBuffer8 \<Rightarrow> 'v option \<Rightarrow> int outcome \<times> 'v RingBuffer8" where
  "RingBufferSrSw8Put rb ptr = sw_put rb ptr"

definition RingBufferSrMw8Get :: "'v RingBuffer8 \<Rightarrow> 'v option outcome \<times> 'v RingBuffer8" where
  "RingBufferSrMw8Get rb = sr_get rb"

definition RingBufferSrMw8Put :: "'v RingBuffer8 \<Rightarrow> 'v option \<Rightarrow> int outcome \<times> 'v RingBuffer8" where
  "RingBufferSrMw8Put rb ptr = mw_put rb ptr"

definition RingBufferMrSw8Get :: "'v RingBuffer8 \<Rightarrow> 'v option outcome \<times> 'v RingBuffer8" where
  "RingBufferMrSw8Get rb = mr_get rb"

definition RingBufferMrSw8Put :: "'v RingBuffer8 \<Rightarrow> 'v option \<Rightarrow> int outcome \<times> 'v RingBuffer8" where
  "RingBufferMrSw8Put rb ptr = sw_put rb ptr"

definition RingBufferMrSwGet :: "'v RingBuffer16 \<Rightarrow> 'v option outcome \<times> 'v RingBuffer16" where
  "RingBufferMrSwGet rb = mr_get rb"

definition RingBufferMrSwPut :: "'v RingBuffer16 \<Rightarrow> 'v option \<Rightarrow> int outcome \<times> 'v RingBuffer16" where
  "RingBufferMrSwPut rb ptr = sw_put rb ptr"

definition RingBufferSrSwGet :: "'v RingBuffer16 \<Rightarrow> 'v option outcome \<times> 'v RingBuffer16" where
  "RingBufferSrSwGet rb = sr_get rb"

definition RingBufferSrSwPut :: "'v RingBuffer16 \<Rightarrow> 'v option \<Rightarrow> int outcome \<times> 'v RingBuffer16" where
  "RingBufferSrSwPut rb ptr = sw_put rb ptr"

definition RingBufferMrMw8Get :: "'v RingBuffer8 \<Rightarrow> 'v option outcome \<times> 'v RingBuffer8" where
  "RingBufferMrMw8Get rb = mr_get rb"

definition RingBufferMrMw8Put :: "'v RingBuffer8 \<Rightarrow> 'v option \<Rightarrow> int outcome \<times> 'v RingBuffer8" where
  "RingBufferMrMw8Put rb ptr = mw_put rb ptr"

definition RingBufferMrMwGet :: "'v RingBuffer16 \<Rightarrow> 'v option outcome \<times> 'v RingBuffer16" where
  "RingBufferMrMwGet rb = mr_get rb"

definition RingBufferMrMwGetNoWait :: "'v RingBuffer16 \<Rightarrow> 'v option outcome \<times> 'v RingBuffer16" where
  "RingBufferMrMwGetNoWait rb = mr_get_nowait rb"

definition RingBufferMrMwPut :: "'v RingBuffer16 \<Rightarrow> 'v option \<Rightarrow> int outcome \<times> 'v RingBuffer16" where
  "RingBufferMrMwPut rb ptr = mw_put rb ptr"

section \<open>The list a buffer represents\<close>

text \<open>The items between the read and the write index, oldest first.\<close>

definition ring_list :: "('l::len word, 'v) ring \<Rightarrow> 'v option list" where
  "ring_list rb = map (\<lambda>i. rb_array rb (rb_read rb + of_nat i)) [0..<unat (rb_write rb - rb_read rb)]"

text \<open>One slot stays free: a full buffer of width \<open>l\<close> holds \<open>2 ^ l - 1\<close> items.\<close>

definition ring_cap :: "'l::len itself \<Rightarrow> nat" where
  "ring_cap _ = 2 ^ LENGTH('l) - 1"

lemma ring_cap_8 [simp]: "ring_cap TYPE(8) = 255"
  by (simp add: ring_cap_def)

lemma ring_cap_16 [simp]: "ring_cap TYPE(16) = 65535"
  by (simp add: ring_cap_def)

lemma length_ring_list: "length (ring_list rb) = unat (rb_write rb - rb_read rb)"
  by (simp add: ring_list_def)

lemma ring_list_init [fifo_simps]: "ring_list ring_init = []"
  by (simp add: ring_list_def ring_init_def)

lemma ring_list_empty_iff: "rb_write rb = rb_read rb \<longleftrightarrow> ring_list rb = []"
  by (simp add: ring_list_def unat_eq_0)

lemma ring_list_full_iff:
  "rb_write rb + 1 = rb_read rb \<longleftrightarrow> length (ring_list (rb :: ('l::len word, 'v) ring)) = ring_cap TYPE('l)"
proof -
  have "rb_write rb + 1 = rb_read rb \<longleftrightarrow> rb_write rb - rb_read rb = - 1"
    by (simp add: algebra_simps)
  also have "\<dots> \<longleftrightarrow> unat (rb_write rb - rb_read rb) = ring_cap TYPE('l)"
    by (metis ring_cap_def unat_max_word unsigned_word_eqI)
  finally show ?thesis by (simp add: length_ring_list)
qed

lemma length_ring_list_le: "length (ring_list (rb :: ('l::len word, 'v) ring)) \<le> ring_cap TYPE('l)"
  using unat_bound[of "rb_write rb - rb_read rb"] unfolding length_ring_list ring_cap_def by arith

lemma ring_list_advance:
  assumes "rb_write rb \<noteq> rb_read rb"
  shows "ring_list rb = rb_array rb (rb_read rb) # ring_list (rb\<lparr>rb_read := rb_read rb + 1\<rparr>)"
proof -
  let ?n = "unat (rb_write rb - (rb_read rb + 1))"
  have "rb_write rb - rb_read rb \<noteq> 0" using assms by simp
  then have n: "unat (rb_write rb - rb_read rb) = Suc ?n"
    by (subst unat_nonzero_Suc) (auto simp: diff_diff_eq)
  have split: "[0..<Suc ?n] = 0 # [1..<Suc ?n]" by (simp add: upt_conv_Cons)
  have shift: "rb_read rb + of_nat (Suc i) = rb_read rb + 1 + of_nat i" for i
    by simp
  show ?thesis
    unfolding ring_list_def n split list.map map_upt_shift shift by simp
qed

lemma ring_list_store:
  assumes "rb_write rb + 1 \<noteq> rb_read rb"
  shows "ring_list (rb\<lparr>rb_array := (rb_array rb)(rb_write rb := ptr), rb_write := rb_write rb + 1\<rparr>)
       = ring_list rb @ [ptr]"
proof -
  let ?d = "rb_write rb - rb_read rb" and ?n = "unat (rb_write rb - rb_read rb)"
  have d1: "rb_write rb + 1 - rb_read rb = ?d + 1" by simp
  have "?d + 1 \<noteq> 0" using assms by (simp flip: d1)
  then have n: "unat (rb_write rb + 1 - rb_read rb) = Suc ?n"
    unfolding d1 by (rule unat_nonwrap_Suc)
  have "rb_read rb + of_nat i \<noteq> rb_write rb" if "i < ?n" for i
  proof
    assume "rb_read rb + of_nat i = rb_write rb"
    then have "?d = of_nat i" by (metis add_diff_cancel_left')
    then have "?n \<le> i" by (simp add: unat_of_nat)
    then show False using that by simp
  qed
  moreover have "rb_read rb + of_nat ?n = rb_write rb" by simp
  ultimately show ?thesis by (auto simp: ring_list_def n)
qed

section \<open>Every variant is the same bounded queue\<close>

text \<open>The compare-and-swap of a lone reader succeeds at the first attempt.\<close>

lemma mr_get_eq_sr_get: "mr_get rb = sr_get rb"
  by (simp add: mr_get_def sr_get_def mr_cas_loop.simps[of rb "rb_read rb - 1"] Let_def)

lemma mw_put_eq_sw_put: "mw_put rb ptr = sw_put rb ptr"
  by (simp add: mw_put_def sw_put_def)

text \<open>The single step of each body on the list it represents.\<close>

lemma sr_get_item: "ring_list rb = x # xs \<Longrightarrow>
    fst (sr_get rb) = Returns x \<and> ring_list (snd (sr_get rb)) = xs"
  using ring_list_advance[of rb] by (auto simp: sr_get_def ring_list_empty_iff)

lemma sr_get_empty: "ring_list rb = [] \<Longrightarrow> sr_get rb = (get_waiting rb, rb)"
  by (simp add: sr_get_def ring_list_empty_iff)

lemma sw_put_room:
  "length (ring_list (rb :: ('l::len word, 'v) ring)) < ring_cap TYPE('l) \<Longrightarrow>
    fst (sw_put rb x) = Returns 0 \<and> ring_list (snd (sw_put rb x)) = ring_list rb @ [x]"
  by (auto simp: sw_put_def ring_list_store ring_list_full_iff)

lemma sw_put_full:
  "length (ring_list (rb :: ('l::len word, 'v) ring)) = ring_cap TYPE('l) \<Longrightarrow> sw_put rb x = (put_waiting rb, rb)"
  by (simp add: sw_put_def ring_list_full_iff)

lemma shutdown_flag [fifo_simps]:
  "rb_shutdown (snd (sr_get rb)) = rb_shutdown rb"
  "rb_shutdown (snd (sw_put rb x)) = rb_shutdown rb"
  "rb_shutdown (ring_shutdown rb) \<noteq> 0"
  by (simp_all add: sr_get_def sw_put_def ring_shutdown_def)

lemma ring_list_shutdown [fifo_simps]: "ring_list (ring_shutdown rb) = ring_list rb"
  by (simp add: ring_list_def ring_shutdown_def)

section \<open>The contract: a bounded queue with a shutdown flag\<close>

text \<open>
  The abstract machine holds the queued items and the shutdown flag. \<open>Put\<close> on a full and \<open>Get\<close> on
  an empty queue wait, or give up when the flag is up.
\<close>

datatype 'x qop = QPut 'x | QGet | QShutdown

datatype 'x qres = PutRes "int outcome" | GetRes "'x outcome" | NoRes

fun spec_step :: "nat \<Rightarrow> 'x \<Rightarrow> 'x list \<times> bool \<Rightarrow> 'x qop \<Rightarrow> 'x qres \<times> 'x list \<times> bool" where
  "spec_step cap nul (xs, down) (QPut x) =
     (if length xs < cap then (PutRes (Returns 0), xs @ [x], down)
      else (PutRes (if down then Returns (- 1) else Waits), xs, down))"
| "spec_step cap nul (xs, down) QGet =
     (case xs of
        [] \<Rightarrow> (GetRes (if down then Returns nul else Waits), xs, down)
      | y # ys \<Rightarrow> (GetRes (Returns y), ys, down))"
| "spec_step cap nul (xs, down) QShutdown = (NoRes, xs, True)"

fun queue_step :: "('q \<Rightarrow> 'x \<Rightarrow> int outcome \<times> 'q) \<Rightarrow> ('q \<Rightarrow> 'x outcome \<times> 'q) \<Rightarrow> ('q \<Rightarrow> 'q) \<Rightarrow>
    'q \<Rightarrow> 'x qop \<Rightarrow> 'x qres \<times> 'q" where
  "queue_step put get shut q (QPut x) = (case put q x of (r, q') \<Rightarrow> (PutRes r, q'))"
| "queue_step put get shut q QGet = (case get q of (r, q') \<Rightarrow> (GetRes r, q'))"
| "queue_step put get shut q QShutdown = (NoRes, shut q)"

fun run_ops :: "('s \<Rightarrow> 'o \<Rightarrow> 'r \<times> 's) \<Rightarrow> 's \<Rightarrow> 'o list \<Rightarrow> 'r list \<times> 's" where
  "run_ops step s [] = ([], s)"
| "run_ops step s (x # xs) =
     (fst (step s x) # fst (run_ops step (snd (step s x)) xs),
      snd (run_ops step (snd (step s x)) xs))"

locale bounded_fifo =
  fixes put :: "'q \<Rightarrow> 'x \<Rightarrow> int outcome \<times> 'q"
    and get :: "'q \<Rightarrow> 'x outcome \<times> 'q"
    and shut :: "'q \<Rightarrow> 'q"
    and items :: "'q \<Rightarrow> 'x list"
    and down :: "'q \<Rightarrow> bool"
    and cap :: nat
    and nul :: 'x
  assumes items_le: "length (items q) \<le> cap"
    and put_room: "length (items q) < cap \<Longrightarrow>
          fst (put q x) = Returns 0 \<and> items (snd (put q x)) = items q @ [x]"
    and put_full: "length (items q) = cap \<Longrightarrow>
          put q x = (if down q then Returns (- 1) else Waits, q)"
    and get_item: "items q = x # xs \<Longrightarrow>
          fst (get q) = Returns x \<and> items (snd (get q)) = xs"
    and get_empty: "items q = [] \<Longrightarrow> get q = (if down q then Returns nul else Waits, q)"
    and down_put: "down (snd (put q x)) = down q"
    and down_get: "down (snd (get q)) = down q"
    and down_shut: "down (shut q)"
    and items_shut: "items (shut q) = items q"
begin

lemma step_refines:
  "fst (queue_step put get shut q opn) = fst (spec_step cap nul (items q, down q) opn)"
  "(items (snd (queue_step put get shut q opn)), down (snd (queue_step put get shut q opn)))
     = snd (spec_step cap nul (items q, down q) opn)"
proof (atomize(full), cases opn)
  case (QPut x)
  consider "length (items q) < cap" | "length (items q) = cap"
    using items_le[of q] by linarith
  then show "fst (queue_step put get shut q opn) = fst (spec_step cap nul (items q, down q) opn) \<and>
      (items (snd (queue_step put get shut q opn)), down (snd (queue_step put get shut q opn)))
     = snd (spec_step cap nul (items q, down q) opn)"
    using put_room[of q x] put_full[of q x] down_put[of q x] QPut
    by cases (auto split: prod.split)
next
  case QGet
  then show "fst (queue_step put get shut q opn) = fst (spec_step cap nul (items q, down q) opn) \<and>
      (items (snd (queue_step put get shut q opn)), down (snd (queue_step put get shut q opn)))
     = snd (spec_step cap nul (items q, down q) opn)"
    using get_item[of q] get_empty[of q] down_get[of q]
    by (cases "items q") (auto split: prod.split)
next
  case QShutdown
  then show "fst (queue_step put get shut q opn) = fst (spec_step cap nul (items q, down q) opn) \<and>
      (items (snd (queue_step put get shut q opn)), down (snd (queue_step put get shut q opn)))
     = snd (spec_step cap nul (items q, down q) opn)"
    using down_shut items_shut by simp
qed

lemma run_refines:
  "fst (run_ops (queue_step put get shut) q ops) =
     fst (run_ops (spec_step cap nul) (items q, down q) ops)"
proof (induction ops arbitrary: q)
  case Nil
  then show ?case by simp
next
  case (Cons opn ops)
  then show ?case by (simp add: step_refines)
qed

end

text \<open>Every pair of functions of the file keeps the contract.\<close>

lemmas ring_functions =
  RingBufferSrSw8Get_def RingBufferSrSw8Put_def RingBufferSrMw8Get_def RingBufferSrMw8Put_def
  RingBufferMrSw8Get_def RingBufferMrSw8Put_def RingBufferMrSwGet_def RingBufferMrSwPut_def
  RingBufferSrSwGet_def RingBufferSrSwPut_def RingBufferMrMw8Get_def RingBufferMrMw8Put_def
  RingBufferMrMwGet_def RingBufferMrMwPut_def RingBuffer8Shutdown_def RingBufferShutdown_def
  mr_get_eq_sr_get mw_put_eq_sw_put

lemma ring_is_bounded_fifo:
  "bounded_fifo (sw_put :: ('l::len word, 'v) ring \<Rightarrow> _) sr_get ring_shutdown ring_list
     (\<lambda>rb. rb_shutdown rb \<noteq> 0) (ring_cap TYPE('l)) None"
  by unfold_locales
    (auto simp: fifo_simps length_ring_list_le sw_put_room sw_put_full sr_get_item sr_get_empty
       put_waiting_def get_waiting_def)

interpretation srsw8: bounded_fifo RingBufferSrSw8Put RingBufferSrSw8Get RingBuffer8Shutdown
    ring_list "\<lambda>rb. rb_shutdown rb \<noteq> 0" 255 None
  using ring_is_bounded_fifo[where 'l = 8] by (simp add: ring_functions[abs_def])

interpretation srmw8: bounded_fifo RingBufferSrMw8Put RingBufferSrMw8Get RingBuffer8Shutdown
    ring_list "\<lambda>rb. rb_shutdown rb \<noteq> 0" 255 None
  using ring_is_bounded_fifo[where 'l = 8] by (simp add: ring_functions[abs_def])

interpretation mrsw8: bounded_fifo RingBufferMrSw8Put RingBufferMrSw8Get RingBuffer8Shutdown
    ring_list "\<lambda>rb. rb_shutdown rb \<noteq> 0" 255 None
  using ring_is_bounded_fifo[where 'l = 8] by (simp add: ring_functions[abs_def])

interpretation mrmw8: bounded_fifo RingBufferMrMw8Put RingBufferMrMw8Get RingBuffer8Shutdown
    ring_list "\<lambda>rb. rb_shutdown rb \<noteq> 0" 255 None
  using ring_is_bounded_fifo[where 'l = 8] by (simp add: ring_functions[abs_def])

interpretation srsw16: bounded_fifo RingBufferSrSwPut RingBufferSrSwGet RingBufferShutdown
    ring_list "\<lambda>rb. rb_shutdown rb \<noteq> 0" 65535 None
  using ring_is_bounded_fifo[where 'l = 16] by (simp add: ring_functions[abs_def])

interpretation mrsw16: bounded_fifo RingBufferMrSwPut RingBufferMrSwGet RingBufferShutdown
    ring_list "\<lambda>rb. rb_shutdown rb \<noteq> 0" 65535 None
  using ring_is_bounded_fifo[where 'l = 16] by (simp add: ring_functions[abs_def])

interpretation mrmw16: bounded_fifo RingBufferMrMwPut RingBufferMrMwGet RingBufferShutdown
    ring_list "\<lambda>rb. rb_shutdown rb \<noteq> 0" 65535 None
  using ring_is_bounded_fifo[where 'l = 16] by (simp add: ring_functions[abs_def])

lemma ring_init_abs:
  "(ring_list ring_init, rb_shutdown ring_init \<noteq> 0) = ([], False)"
  by (simp add: fifo_simps) (simp add: ring_init_def)

text \<open>Claim C14: every run of \<open>Put\<close>, \<open>Get\<close> and \<open>Shutdown\<close> calls on a fresh 8-bit ring buffer returns, in
  each of the four reader/writer variants, exactly what a first-in first-out queue of capacity 255
  with a shutdown flag returns: items come out in the order they went in, none is lost or
  repeated, a call on a full or empty buffer waits, and after the shutdown it gives -1 or NULL.\<close>

theorem ring8_refines_queue:
  "fst (run_ops (queue_step RingBufferSrSw8Put RingBufferSrSw8Get RingBuffer8Shutdown) ring_init ops)
     = fst (run_ops (spec_step 255 None) ([], False) ops) \<and>
   fst (run_ops (queue_step RingBufferSrMw8Put RingBufferSrMw8Get RingBuffer8Shutdown) ring_init ops)
     = fst (run_ops (spec_step 255 None) ([], False) ops) \<and>
   fst (run_ops (queue_step RingBufferMrSw8Put RingBufferMrSw8Get RingBuffer8Shutdown) ring_init ops)
     = fst (run_ops (spec_step 255 None) ([], False) ops) \<and>
   fst (run_ops (queue_step RingBufferMrMw8Put RingBufferMrMw8Get RingBuffer8Shutdown) ring_init ops)
     = fst (run_ops (spec_step 255 None) ([], False) ops)"
  using srsw8.run_refines[of ring_init ops] srmw8.run_refines[of ring_init ops]
    mrsw8.run_refines[of ring_init ops] mrmw8.run_refines[of ring_init ops]
  unfolding ring_init_abs by blast

text \<open>Claim C15: the same for the three 16-bit variants, with a capacity of 65535.\<close>

theorem ring16_refines_queue:
  "fst (run_ops (queue_step RingBufferSrSwPut RingBufferSrSwGet RingBufferShutdown) ring_init ops)
     = fst (run_ops (spec_step 65535 None) ([], False) ops) \<and>
   fst (run_ops (queue_step RingBufferMrSwPut RingBufferMrSwGet RingBufferShutdown) ring_init ops)
     = fst (run_ops (spec_step 65535 None) ([], False) ops) \<and>
   fst (run_ops (queue_step RingBufferMrMwPut RingBufferMrMwGet RingBufferShutdown) ring_init ops)
     = fst (run_ops (spec_step 65535 None) ([], False) ops)"
  using srsw16.run_refines[of ring_init ops] mrsw16.run_refines[of ring_init ops]
    mrmw16.run_refines[of ring_init ops]
  unfolding ring_init_abs by blast

text \<open>the size of a 16-bit buffer is the number of items it holds, whatever the position of the
  wrapping indexes; the empty and the full tests say 1 exactly at 0 and at 65535 items.\<close>

theorem ring16_size_counts:
  "(unat (RingBufferSize rb) = length (ring_list rb)) \<and>
   (RingBufferIsEmpty rb = 1 \<longleftrightarrow> ring_list rb = []) \<and>
   (RingBufferIsFull rb = 1 \<longleftrightarrow> length (ring_list rb) = 65535)"
  using ring_list_empty_iff[of rb] ring_list_full_iff[of rb]
  by (simp add: RingBufferSize_def RingBufferIsEmpty_def RingBufferIsFull_def ring_is_empty_def
      ring_is_full_def length_ring_list)

end
