(* ===== verification/RingBufferConc.thy ===== *)
theory RingBufferConc
  imports RingBuffer
begin

text \<open>
  The multi-reader multi-writer operations of \<open>src/util-ringbuffer.c\<close> (\<open>RingBufferMrMwGet\<close> and
  \<open>RingBufferMrMwPut\<close>, and their 8-bit copies) run by any number of threads. Every atomic access to
  the shared buffer is one step and the threads' steps interleave in any order.

  The history variables \<open>puts\<close> and \<open>gots\<close> (what was stored and what was handed out, in order) and
  the natural numbers carried by the program counters are not in the code: no step reads them to
  decide what it does.
\<close>

section \<open>Program counters\<close>

text \<open>
  \<open>RingBufferMrMwGet\<close>: \<open>RWait1\<close> and \<open>RWait2\<close> evaluate the condition of the waiting loop (load
  \<open>write\<close>, then \<open>read\<close>), \<open>RShut\<close> tests the shutdown flag and sleeps, \<open>RLoad\<close> sets \<open>readp\<close>,
  \<open>RChk1\<close> and \<open>RChk2\<close> are the test in the \<open>do\<close> loop, \<open>RFetch\<close> loads the slot and \<open>RCas\<close> is the
  compare-and-swap.
\<close>

datatype ('i, 'v) rpc =
    RIdle
  | RWait1
  | RWait2 'i
  | RShut
  | RLoad
  | RChk1 'i nat
  | RChk2 'i nat 'i nat
  | RFetch 'i nat
  | RCas 'i "'v option" nat
  | RDone "'v option"

text \<open>
  \<open>RingBufferMrMwPut\<close>: the waiting loop, the spin lock (\<open>WLock\<close>), the repeated test under the
  lock (\<open>WRe1\<close>, \<open>WRe2\<close>, and \<open>WGiveUp\<close> before \<open>goto retry\<close>), the store, the increment of \<open>write\<close>
  and the unlock. The store's own load of \<open>write\<close> is one step with it: only the holder of the lock
  changes \<open>write\<close>.
\<close>

datatype ('i, 'v) wpc =
    WIdle
  | WWait1 "'v option"
  | WWait2 "'v option" 'i
  | WShut "'v option"
  | WLock "'v option"
  | WRe1 "'v option"
  | WRe2 "'v option" 'i
  | WGiveUp "'v option"
  | WStore "'v option"
  | WIncr "'v option"
  | WUnlock
  | WDone int

record ('i, 'v) sys =
  shared :: "('i, 'v) ring"
  spin :: "nat option"
  rpcs :: "nat \<Rightarrow> ('i, 'v) rpc"
  wpcs :: "nat \<Rightarrow> ('i, 'v) wpc"
  puts :: "'v option list"
  gots :: "'v option list"

definition sys_init :: "('l::len word, 'v) sys" where
  "sys_init = \<lparr>shared = ring_init, spin = None, rpcs = (\<lambda>_. RIdle), wpcs = (\<lambda>_. WIdle),
     puts = [], gots = []\<rparr>"

section \<open>Steps\<close>

definition set_rpc :: "nat \<Rightarrow> ('i, 'v) rpc \<Rightarrow> ('i, 'v) sys \<Rightarrow> ('i, 'v) sys" where
  "set_rpc t pc s = s\<lparr>rpcs := (rpcs s)(t := pc)\<rparr>"

definition set_wpc :: "nat \<Rightarrow> ('i, 'v) wpc \<Rightarrow> ('i, 'v) sys \<Rightarrow> ('i, 'v) sys" where
  "set_wpc t pc s = s\<lparr>wpcs := (wpcs s)(t := pc)\<rparr>"

definition mrmw_get_step :: "nat \<Rightarrow> ('l::len word, 'v) sys \<Rightarrow> ('l word, 'v) sys" where
  "mrmw_get_step t s =
     (case rpcs s t of
        RIdle \<Rightarrow> set_rpc t RWait1 s
      | RWait1 \<Rightarrow> set_rpc t (RWait2 (rb_write (shared s))) s
      | RWait2 w \<Rightarrow> set_rpc t (if w = rb_read (shared s) then RShut else RLoad) s
      | RShut \<Rightarrow> set_rpc t (if rb_shutdown (shared s) \<noteq> 0 then RDone None else RWait1) s
      | RLoad \<Rightarrow> set_rpc t (RChk1 (rb_read (shared s) - 1) (length (gots s))) s
      | RChk1 rp n \<Rightarrow> set_rpc t (RChk2 rp n (rb_write (shared s)) (length (puts s))) s
      | RChk2 rp n w g \<Rightarrow>
          set_rpc t (if w = rb_read (shared s) then RWait1 else RFetch (rp + 1) n) s
      | RFetch rp n \<Rightarrow> set_rpc t (RCas rp (rb_array (shared s) rp) n) s
      | RCas rp ptr n \<Rightarrow>
          (if rb_read (shared s) = rp
           then set_rpc t (RDone ptr)
                  (s\<lparr>shared := (shared s)\<lparr>rb_read := rp + 1\<rparr>, gots := gots s @ [ptr]\<rparr>)
           else set_rpc t (RChk1 rp (Suc n)) s)
      | RDone r \<Rightarrow> set_rpc t RIdle s)"

definition mrmw_put_step :: "nat \<Rightarrow> ('l::len word, 'v) sys \<Rightarrow> ('l word, 'v) sys" where
  "mrmw_put_step t s =
     (case wpcs s t of
        WIdle \<Rightarrow> s
      | WWait1 v \<Rightarrow> set_wpc t (WWait2 v (rb_write (shared s))) s
      | WWait2 v w \<Rightarrow> set_wpc t (if w + 1 = rb_read (shared s) then WShut v else WLock v) s
      | WShut v \<Rightarrow> set_wpc t (if rb_shutdown (shared s) \<noteq> 0 then WDone (- 1) else WWait1 v) s
      | WLock v \<Rightarrow> (if spin s = None then set_wpc t (WRe1 v) (s\<lparr>spin := Some t\<rparr>) else s)
      | WRe1 v \<Rightarrow> set_wpc t (WRe2 v (rb_write (shared s))) s
      | WRe2 v w \<Rightarrow> set_wpc t (if w + 1 = rb_read (shared s) then WGiveUp v else WStore v) s
      | WGiveUp v \<Rightarrow> set_wpc t (WWait1 v) (s\<lparr>spin := None\<rparr>)
      | WStore v \<Rightarrow>
          set_wpc t (WIncr v)
            (s\<lparr>shared := (shared s)\<lparr>rb_array := (rb_array (shared s))(rb_write (shared s) := v)\<rparr>\<rparr>)
      | WIncr v \<Rightarrow>
          set_wpc t WUnlock
            (s\<lparr>shared := (shared s)\<lparr>rb_write := rb_write (shared s) + 1\<rparr>, puts := puts s @ [v]\<rparr>)
      | WUnlock \<Rightarrow> set_wpc t (WDone 0) (s\<lparr>spin := None\<rparr>)
      | WDone r \<Rightarrow> set_wpc t WIdle s)"

text \<open>
  A step of the system: some reader moves, some writer moves, an idle thread calls \<open>Put\<close>, or the
  engine sets the shutdown flag.
\<close>

inductive sys_step :: "('l::len word, 'v) sys \<Rightarrow> ('l word, 'v) sys \<Rightarrow> bool" where
  reader: "sys_step s (mrmw_get_step t s)"
| writer: "sys_step s (mrmw_put_step t s)"
| call_put: "wpcs s t = WIdle \<Longrightarrow> sys_step s (set_wpc t (WWait1 v) s)"
| shutdown: "sys_step s (s\<lparr>shared := ring_shutdown (shared s)\<rparr>)"

text \<open>
  The index of a reader is a word, so a reader that sleeps between the load of the slot and the
  compare-and-swap while the others complete a whole lap sees the same word again. \<open>no_lap\<close> says
  that no such reader is about to swap: fewer than \<open>2 ^ l\<close> items were handed out since its attempt
  began.
\<close>

definition no_lap :: "('l::len word, 'v) sys \<Rightarrow> bool" where
  "no_lap s = (\<forall>t rp ptr n. rpcs s t = RCas rp ptr n \<longrightarrow> length (gots s) < n + 2 ^ LENGTH('l))"

inductive reachable :: "('l::len word, 'v) sys \<Rightarrow> bool" where
  start: "reachable sys_init"
| step: "reachable s \<Longrightarrow> no_lap s \<Longrightarrow> sys_step s s' \<Longrightarrow> reachable s'"

section \<open>The invariant\<close>

definition reader_ok :: "('l::len word, 'v) sys \<Rightarrow> ('l word, 'v) rpc \<Rightarrow> bool" where
  "reader_ok s pc =
     (case pc of
        RChk1 rp n \<Rightarrow> rp + 1 = of_nat n \<and> n \<le> length (gots s)
      | RChk2 rp n w g \<Rightarrow> rp + 1 = of_nat n \<and> n \<le> length (gots s) \<and> w = of_nat g \<and> n \<le> g
          \<and> g \<le> length (puts s)
      | RFetch rp n \<Rightarrow> rp = of_nat n \<and> n \<le> length (gots s)
          \<and> (n = length (gots s) \<longrightarrow> n < length (puts s))
      | RCas rp ptr n \<Rightarrow> rp = of_nat n \<and> n \<le> length (gots s)
          \<and> (n = length (gots s) \<longrightarrow> n < length (puts s) \<and> ptr = puts s ! n)
      | _ \<Rightarrow> True)"

fun holds_lock :: "('i, 'v) wpc \<Rightarrow> bool" where
  "holds_lock (WRe1 v) = True"
| "holds_lock (WRe2 v w) = True"
| "holds_lock (WGiveUp v) = True"
| "holds_lock (WStore v) = True"
| "holds_lock (WIncr v) = True"
| "holds_lock WUnlock = True"
| "holds_lock _ = False"

definition writer_ok :: "('l::len word, 'v) sys \<Rightarrow> ('l word, 'v) wpc \<Rightarrow> bool" where
  "writer_ok s pc =
     (case pc of
        WRe2 v w \<Rightarrow> w = of_nat (length (puts s))
      | WStore v \<Rightarrow> length (puts s) + 1 < length (gots s) + 2 ^ LENGTH('l)
      | WIncr v \<Rightarrow> length (puts s) + 1 < length (gots s) + 2 ^ LENGTH('l)
          \<and> rb_array (shared s) (of_nat (length (puts s))) = v
      | _ \<Rightarrow> True)"

definition buffer_ok :: "('l::len word, 'v) sys \<Rightarrow> bool" where
  "buffer_ok s \<longleftrightarrow>
     rb_read (shared s) = of_nat (length (gots s)) \<and>
     rb_write (shared s) = of_nat (length (puts s)) \<and>
     length (gots s) \<le> length (puts s) \<and>
     length (puts s) < length (gots s) + 2 ^ LENGTH('l) \<and>
     (\<forall>i. length (gots s) \<le> i \<longrightarrow> i < length (puts s) \<longrightarrow>
        rb_array (shared s) (of_nat i) = puts s ! i) \<and>
     gots s = take (length (gots s)) (puts s)"

definition sys_inv :: "('l::len word, 'v) sys \<Rightarrow> bool" where
  "sys_inv s \<longleftrightarrow> buffer_ok s \<and> (\<forall>t. reader_ok s (rpcs s t)) \<and> (\<forall>t. writer_ok s (wpcs s t)) \<and>
     (\<forall>t. holds_lock (wpcs s t) \<longleftrightarrow> spin s = Some t)"

lemma sys_inv_init: "sys_inv sys_init"
  by (simp add: sys_inv_def sys_init_def buffer_ok_def reader_ok_def writer_ok_def ring_init_def)

text \<open>What a thread knows is unaffected by the program counters of the others.\<close>

lemma buffer_ok_cong:
  "buffer_ok (set_rpc t pc s) = buffer_ok s" "buffer_ok (set_wpc t pc' s) = buffer_ok s"
  "reader_ok (set_rpc t pc s) = reader_ok s" "reader_ok (set_wpc t pc' s) = reader_ok s"
  "writer_ok (set_rpc t pc s) = writer_ok s" "writer_ok (set_wpc t pc' s) = writer_ok s"
  by (auto simp: buffer_ok_def reader_ok_def writer_ok_def set_rpc_def set_wpc_def fun_eq_iff
      split: rpc.splits wpc.splits)

lemma pcs_set [simp]:
  "rpcs (set_rpc t pc s) = (rpcs s)(t := pc)" "wpcs (set_rpc t pc s) = wpcs s"
  "rpcs (set_wpc t pc' s) = rpcs s" "wpcs (set_wpc t pc' s) = (wpcs s)(t := pc')"
  "spin (set_rpc t pc s) = spin s" "spin (set_wpc t pc' s) = spin s"
  by (simp_all add: set_rpc_def set_wpc_def)

lemma inv_set_rpc: "sys_inv s \<Longrightarrow> reader_ok s pc \<Longrightarrow> sys_inv (set_rpc t pc s)"
  by (auto simp: sys_inv_def buffer_ok_cong)

lemma inv_set_wpc:
  "sys_inv s \<Longrightarrow> writer_ok s pc \<Longrightarrow> holds_lock pc = holds_lock (wpcs s t) \<Longrightarrow>
   sys_inv (set_wpc t pc s)"
  by (auto simp: sys_inv_def buffer_ok_cong)

section \<open>Every step keeps the invariant\<close>

lemma sys_invD:
  assumes "sys_inv s"
  shows "buffer_ok s" "reader_ok s (rpcs s t)" "writer_ok s (wpcs s t)"
    "holds_lock (wpcs s t) \<longleftrightarrow> spin s = Some t"
  using assms by (auto simp: sys_inv_def)

text \<open>An item handed out: the readers and the writers keep what they know.\<close>

lemma reader_ok_got:
  "reader_ok s pc \<Longrightarrow> puts s' = puts s \<Longrightarrow> length (gots s') = Suc (length (gots s)) \<Longrightarrow>
   reader_ok s' pc"
  by (auto simp: reader_ok_def split: rpc.splits)

lemma writer_ok_got:
  "writer_ok s pc \<Longrightarrow> puts s' = puts s \<Longrightarrow> length (gots s') = Suc (length (gots s)) \<Longrightarrow>
   rb_array (shared s') = rb_array (shared s) \<Longrightarrow> writer_ok s' pc"
  by (auto simp: writer_ok_def split: wpc.splits)

text \<open>An item stored: likewise for the readers, and for the writers outside the lock.\<close>

lemma reader_ok_put:
  "reader_ok s pc \<Longrightarrow> puts s' = puts s @ [v] \<Longrightarrow> gots s' = gots s \<Longrightarrow> reader_ok s' pc"
  by (auto simp: reader_ok_def nth_append split: rpc.splits)

lemma writer_ok_free: "\<not> holds_lock pc \<Longrightarrow> writer_ok s pc"
  by (cases pc) (auto simp: writer_ok_def)

lemma buffer_ok_got:
  fixes s :: "('l::len word, 'v) sys"
  assumes "buffer_ok s" "length (gots s) < length (puts s)"
  shows "buffer_ok (s\<lparr>shared := (shared s)\<lparr>rb_read := rb_read (shared s) + 1\<rparr>,
           gots := gots s @ [puts s ! length (gots s)]\<rparr>)"
proof -
  have "gots s = take (length (gots s)) (puts s)"
    using assms(1) by (simp add: buffer_ok_def)
  then have "gots s @ [puts s ! length (gots s)] = take (Suc (length (gots s))) (puts s)"
    using assms(2) by (metis take_Suc_conv_app_nth)
  then show ?thesis using assms by (auto simp: buffer_ok_def add.commute)
qed

lemma cas_wins:
  fixes s :: "('l::len word, 'v) sys"
  assumes "sys_inv s" "no_lap s" "rpcs s t = RCas rp ptr n" "rb_read (shared s) = rp"
  shows "n = length (gots s)" "length (gots s) < length (puts s)" "ptr = puts s ! length (gots s)"
proof -
  have ok: "reader_ok s (RCas rp ptr n)" using sys_invD(2)[OF assms(1), of t] assms(3) by simp
  have "rb_read (shared s) = of_nat (length (gots s))"
    using sys_invD(1)[OF assms(1)] by (simp add: buffer_ok_def)
  moreover have "n \<le> length (gots s)" "rp = of_nat n" using ok by (auto simp: reader_ok_def)
  moreover have "length (gots s) < n + 2 ^ LENGTH('l)"
    using assms(2,3) unfolding no_lap_def by blast
  then have "length (gots s) - n < 2 ^ LENGTH('l)"
    using calculation(2) by linarith
  ultimately show n: "n = length (gots s)"
    using assms(4) of_nat_word_eq_iff_lap[of n "length (gots s)", where 'l = 'l] by metis
  show "length (gots s) < length (puts s)" "ptr = puts s ! length (gots s)"
    using ok n by (auto simp: reader_ok_def)
qed

lemma cas_step_inv:
  fixes s :: "('l::len word, 'v) sys"
  assumes "sys_inv s" "no_lap s" "rpcs s t = RCas rp ptr n" "rb_read (shared s) = rp"
  shows "sys_inv (set_rpc t (RDone ptr)
           (s\<lparr>shared := (shared s)\<lparr>rb_read := rp + 1\<rparr>, gots := gots s @ [ptr]\<rparr>))"
proof -
  let ?s' = "s\<lparr>shared := (shared s)\<lparr>rb_read := rp + 1\<rparr>, gots := gots s @ [ptr]\<rparr>"
  note wins = cas_wins[OF assms]
  have "buffer_ok ?s'"
    using buffer_ok_got[OF sys_invD(1)[OF assms(1)] wins(2)] wins(3) assms(4) by simp
  moreover have "reader_ok ?s' (rpcs ?s' u)" for u
    using sys_invD(2)[OF assms(1), of u] by (auto intro: reader_ok_got)
  moreover have "writer_ok ?s' (wpcs ?s' u)" for u
    using sys_invD(3)[OF assms(1), of u] by (auto intro: writer_ok_got)
  ultimately have "sys_inv ?s'" using assms(1) by (auto simp: sys_inv_def)
  then show ?thesis by (rule inv_set_rpc) (simp add: reader_ok_def)
qed

lemma chk2_passes:
  fixes s :: "('l::len word, 'v) sys"
  assumes "sys_inv s" "rpcs s t = RChk2 rp n w g" "w \<noteq> rb_read (shared s)"
  shows "reader_ok s (RFetch (rp + 1) n)"
proof -
  have ok: "reader_ok s (RChk2 rp n w g)" using sys_invD(2)[OF assms(1), of t] assms(2) by simp
  have rd: "rb_read (shared s) = of_nat (length (gots s))"
    using sys_invD(1)[OF assms(1)] by (simp add: buffer_ok_def)
  have "n < length (puts s)" if "n = length (gots s)"
  proof -
    have "g \<noteq> n" using ok assms(3) rd that by (auto simp: reader_ok_def)
    then show ?thesis using ok by (auto simp: reader_ok_def)
  qed
  then show ?thesis using ok by (auto simp: reader_ok_def)
qed

lemma get_step_inv:
  assumes inv: "sys_inv s" and lap: "no_lap s"
  shows "sys_inv (mrmw_get_step t s)"
proof -
  note b = sys_invD(1)[OF inv, unfolded buffer_ok_def] and r = sys_invD(2)[OF inv, of t]
  show ?thesis
  proof (cases "rpcs s t")
    case (RChk2 rp n w g)
    then show ?thesis
      using chk2_passes[OF inv RChk2]
      by (auto simp: mrmw_get_step_def reader_ok_def[of _ RWait1] intro!: inv_set_rpc inv)
  next
    case (RFetch rp n)
    with r b show ?thesis
      by (auto simp: mrmw_get_step_def reader_ok_def intro!: inv_set_rpc inv)
  next
    case (RCas rp ptr n)
    with r b have "n \<noteq> length (gots s)" if "rb_read (shared s) \<noteq> rp"
      using that by (auto simp: reader_ok_def)
    with r RCas have "reader_ok s (RChk1 rp (Suc n))" if "rb_read (shared s) \<noteq> rp"
      using that by (auto simp: reader_ok_def)
    with RCas show ?thesis
      using cas_step_inv[OF inv lap RCas] by (auto simp: mrmw_get_step_def intro!: inv_set_rpc inv)
  qed (use r b in \<open>auto simp: mrmw_get_step_def reader_ok_def intro!: inv_set_rpc inv\<close>)
qed

lemma lock_owner_unique: "sys_inv s \<Longrightarrow> holds_lock (wpcs s t) \<Longrightarrow> holds_lock (wpcs s u) \<Longrightarrow> t = u"
  by (simp add: sys_inv_def)

lemma store_inv:
  fixes s :: "('l::len word, 'v) sys"
  assumes inv: "sys_inv s" and pc: "wpcs s t = WStore v"
  shows "sys_inv (set_wpc t (WIncr v)
           (s\<lparr>shared := (shared s)\<lparr>rb_array := (rb_array (shared s))(rb_write (shared s) := v)\<rparr>\<rparr>))"
    (is "sys_inv (set_wpc t _ ?s')")
proof -
  note b = sys_invD(1)[OF inv, unfolded buffer_ok_def]
  have room: "length (puts s) + 1 < length (gots s) + 2 ^ LENGTH('l)"
    using sys_invD(3)[OF inv, of t] pc by (simp add: writer_ok_def)
  have "(of_nat i :: 'l word) \<noteq> of_nat (length (puts s))"
    if "length (gots s) \<le> i" "i < length (puts s)" for i
  proof -
    have "length (puts s) - i < 2 ^ LENGTH('l)" using that room by linarith
    then show ?thesis
      using that of_nat_word_eq_iff_lap[of i "length (puts s)", where 'l = 'l] by auto
  qed
  then have "buffer_ok ?s'" using b by (auto simp: buffer_ok_def)
  moreover have "reader_ok ?s' pc" if "reader_ok s pc" for pc
    using that by (auto simp: reader_ok_def split: rpc.splits)
  moreover have "writer_ok ?s' (WIncr v)" using room b by (simp add: writer_ok_def)
  moreover have "writer_ok ?s' (wpcs s u)" if "u \<noteq> t" for u
    using lock_owner_unique[OF inv, of t u] pc that by (auto intro: writer_ok_free)
  ultimately show ?thesis
    using inv sys_invD(4)[OF inv, of t] pc by (auto simp: sys_inv_def buffer_ok_cong)
qed

lemma incr_inv:
  fixes s :: "('l::len word, 'v) sys"
  assumes inv: "sys_inv s" and pc: "wpcs s t = WIncr v"
  shows "sys_inv (set_wpc t WUnlock
           (s\<lparr>shared := (shared s)\<lparr>rb_write := rb_write (shared s) + 1\<rparr>, puts := puts s @ [v]\<rparr>))"
    (is "sys_inv (set_wpc t _ ?s')")
proof -
  note b = sys_invD(1)[OF inv, unfolded buffer_ok_def]
  have w: "length (puts s) + 1 < length (gots s) + 2 ^ LENGTH('l)"
    "rb_array (shared s) (of_nat (length (puts s))) = v"
    using sys_invD(3)[OF inv, of t] pc by (simp_all add: writer_ok_def)
  have "buffer_ok ?s'" using b w by (auto simp: buffer_ok_def nth_append less_Suc_eq)
  moreover have "reader_ok ?s' pc" if "reader_ok s pc" for pc
    using that by (auto intro: reader_ok_put)
  moreover have "writer_ok ?s' WUnlock" by (simp add: writer_ok_def)
  moreover have "writer_ok ?s' (wpcs s u)" if "u \<noteq> t" for u
    using lock_owner_unique[OF inv, of t u] pc that by (auto intro: writer_ok_free)
  ultimately show ?thesis
    using inv sys_invD(4)[OF inv, of t] pc by (auto simp: sys_inv_def buffer_ok_cong)
qed

text \<open>Taking and dropping the lock changes nothing but the lock.\<close>

lemma ok_spin [simp]:
  "buffer_ok (s\<lparr>spin := x\<rparr>) = buffer_ok s" "reader_ok (s\<lparr>spin := x\<rparr>) = reader_ok s"
  "writer_ok (s\<lparr>spin := x\<rparr>) = writer_ok s"
  by (auto simp: buffer_ok_def reader_ok_def writer_ok_def fun_eq_iff split: rpc.splits wpc.splits)

lemma lock_inv:
  "sys_inv s \<Longrightarrow> spin s = None \<Longrightarrow> sys_inv (set_wpc t (WRe1 v) (s\<lparr>spin := Some t\<rparr>))"
  by (auto simp: sys_inv_def buffer_ok_cong writer_ok_def)

lemma unlock_inv:
  "sys_inv s \<Longrightarrow> holds_lock (wpcs s t) \<Longrightarrow> \<not> holds_lock pc \<Longrightarrow>
   sys_inv (set_wpc t pc (s\<lparr>spin := None\<rparr>))"
  by (auto simp: sys_inv_def buffer_ok_cong writer_ok_free)

lemma recheck_passes:
  fixes s :: "('l::len word, 'v) sys"
  assumes inv: "sys_inv s" and pc: "wpcs s t = WRe2 v w" and "w + 1 \<noteq> rb_read (shared s)"
  shows "writer_ok s (WStore v)"
proof -
  note b = sys_invD(1)[OF inv, unfolded buffer_ok_def]
  have "w = of_nat (length (puts s))"
    using sys_invD(3)[OF inv, of t] pc by (simp add: writer_ok_def)
  then have ne: "(of_nat (length (puts s) + 1) :: 'l word) \<noteq> of_nat (length (gots s))"
    using assms(3) b by (simp add: add.commute)
  have "length (puts s) + 1 \<noteq> length (gots s) + 2 ^ LENGTH('l)"
  proof
    assume "length (puts s) + 1 = length (gots s) + 2 ^ LENGTH('l)"
    then have "(of_nat (length (puts s) + 1) :: 'l word) = of_nat (length (gots s) + 2 ^ LENGTH('l))"
      by (rule arg_cong)
    then show False using ne by simp
  qed
  then show ?thesis using b by (simp add: writer_ok_def)
qed

lemma put_step_inv:
  assumes inv: "sys_inv s"
  shows "sys_inv (mrmw_put_step t s)"
proof -
  note b = sys_invD(1)[OF inv, unfolded buffer_ok_def] and w = sys_invD(3)[OF inv, of t]
  show ?thesis
  proof (cases "wpcs s t")
    case (WLock v)
    then show ?thesis using inv by (simp add: mrmw_put_step_def lock_inv)
  next
    case (WRe2 v w)
    then show ?thesis
      using recheck_passes[OF inv WRe2]
      by (auto simp: mrmw_put_step_def writer_ok_free intro!: inv_set_wpc inv)
        (simp add: writer_ok_def)
  next
    case (WGiveUp v)
    then show ?thesis using unlock_inv[OF inv, of t] by (simp add: mrmw_put_step_def)
  next
    case (WStore v)
    then show ?thesis using store_inv[OF inv] by (simp add: mrmw_put_step_def)
  next
    case (WIncr v)
    then show ?thesis using incr_inv[OF inv] by (simp add: mrmw_put_step_def)
  next
    case WUnlock
    then show ?thesis using unlock_inv[OF inv, of t] by (simp add: mrmw_put_step_def)
  qed (use inv b in \<open>auto simp: mrmw_put_step_def writer_ok_def intro!: inv_set_wpc\<close>)
qed

lemma ok_shutdown:
  "buffer_ok (s\<lparr>shared := ring_shutdown (shared s)\<rparr>) = buffer_ok s"
  "reader_ok (s\<lparr>shared := ring_shutdown (shared s)\<rparr>) = reader_ok s"
  "writer_ok (s\<lparr>shared := ring_shutdown (shared s)\<rparr>) = writer_ok s"
  by (auto simp: buffer_ok_def reader_ok_def writer_ok_def ring_shutdown_def fun_eq_iff
      split: rpc.splits wpc.splits)

lemma shutdown_inv: "sys_inv s \<Longrightarrow> sys_inv (s\<lparr>shared := ring_shutdown (shared s)\<rparr>)"
  by (simp add: sys_inv_def ok_shutdown)

lemma sys_step_inv: "sys_step s s' \<Longrightarrow> sys_inv s \<Longrightarrow> no_lap s \<Longrightarrow> sys_inv s'"
  by (induction rule: sys_step.induct)
    (auto intro: get_step_inv put_step_inv shutdown_inv inv_set_wpc simp: writer_ok_def)

lemma reachable_inv: "reachable s \<Longrightarrow> sys_inv s"
  by (induction rule: reachable.induct) (auto intro: sys_inv_init sys_step_inv)

section \<open>What the callers see\<close>

lemma buffer_ok_list:
  fixes s :: "('l::len word, 'v) sys"
  assumes "buffer_ok s"
  shows "puts s = gots s @ ring_list (shared s)"
proof -
  let ?R = "length (gots s)" and ?W = "length (puts s)"
  note b = assms[unfolded buffer_ok_def]
  have lap: "?W - ?R < 2 ^ LENGTH('l)" using b by linarith
  have len: "unat (rb_write (shared s) - rb_read (shared s)) = ?W - ?R"
    using b lap by (simp add: unat_of_nat_diff_lap)
  have "ring_list (shared s) = drop ?R (puts s)"
  proof (rule nth_equalityI)
    fix i assume "i < length (ring_list (shared s))"
    then have i: "i < ?W - ?R" by (simp add: length_ring_list len)
    have "\<forall>j. ?R \<le> j \<longrightarrow> j < ?W \<longrightarrow> rb_array (shared s) (of_nat j) = puts s ! j"
      using b by blast
    from this[rule_format, of "?R + i"]
    have "rb_array (shared s) (of_nat (?R + i)) = puts s ! (?R + i)" using i by linarith
    moreover have "ring_list (shared s) ! i = rb_array (shared s) (rb_read (shared s) + of_nat i)"
      using i by (simp add: ring_list_def len)
    ultimately show "ring_list (shared s) ! i = drop ?R (puts s) ! i"
      using i b by simp
  qed (simp add: length_ring_list len)
  then show ?thesis using b by (metis append_take_drop_id)
qed

text \<open>Claim C1: however the steps of any number of readers and writers interleave, the items that were
  stored are, in the order they were stored, the items handed out followed by the items in the
  buffer: no item is lost, duplicated, reordered or made up.\<close>

theorem mrmw_fifo: "reachable s \<Longrightarrow> puts s = gots s @ ring_list (shared s)"
  by (rule buffer_ok_list) (rule sys_invD(1)[OF reachable_inv])

text \<open>Claim C22: at most one writer is between taking and dropping the spin lock, and a writer that stores
  finds a free slot: the buffer holds fewer than \<open>2 ^ l - 1\<close> items.\<close>

theorem mrmw_writers_exclusive:
  fixes s :: "('l::len word, 'v) sys"
  assumes "reachable s" "holds_lock (wpcs s t)"
  shows "(holds_lock (wpcs s u) \<longleftrightarrow> u = t) \<and>
    (wpcs s t = WStore v \<longrightarrow> length (ring_list (shared s)) < ring_cap TYPE('l))"
proof (intro conjI impI)
  have inv: "sys_inv s" using assms(1) by (rule reachable_inv)
  show "holds_lock (wpcs s u) \<longleftrightarrow> u = t" using inv assms(2) by (auto simp: sys_inv_def)
  assume "wpcs s t = WStore v"
  then have "length (puts s) + 1 < length (gots s) + 2 ^ LENGTH('l)"
    using sys_invD(3)[OF inv, of t] by (simp add: writer_ok_def)
  then show "length (ring_list (shared s)) < ring_cap TYPE('l)"
    using arg_cong[OF buffer_ok_list[OF sys_invD(1)[OF inv]], of length]
    by (simp add: ring_cap_def)
qed

text \<open>What a step does to the history, and where the operations end.\<close>

definition swaps :: "nat \<Rightarrow> ('l::len word, 'v) sys \<Rightarrow> bool" where
  "swaps t s \<longleftrightarrow> (case rpcs s t of RCas rp ptr n \<Rightarrow> rb_read (shared s) = rp | _ \<Rightarrow> False)"

lemma get_step_history:
  "puts (mrmw_get_step t s) = puts s"
  "\<not> swaps t s \<Longrightarrow> gots (mrmw_get_step t s) = gots s"
  "rpcs s t = RCas rp ptr n \<Longrightarrow> rb_read (shared s) = rp \<Longrightarrow>
     gots (mrmw_get_step t s) = gots s @ [ptr] \<and> rpcs (mrmw_get_step t s) t = RDone ptr"
  "rpcs (mrmw_get_step t s) t = RDone r \<Longrightarrow>
     (\<exists>rp n. rpcs s t = RCas rp r n \<and> rb_read (shared s) = rp) \<or>
     rpcs s t = RShut \<and> rb_shutdown (shared s) \<noteq> 0 \<and> r = None"
  by (auto simp: mrmw_get_step_def set_rpc_def swaps_def split: rpc.splits if_splits)

lemma put_step_history:
  "gots (mrmw_put_step t s) = gots s"
  "(\<And>v. wpcs s t \<noteq> WIncr v) \<Longrightarrow> puts (mrmw_put_step t s) = puts s"
  "wpcs s t = WIncr v \<Longrightarrow> puts (mrmw_put_step t s) = puts s @ [v] \<and> wpcs (mrmw_put_step t s) t = WUnlock"
  "wpcs (mrmw_put_step t s) t = WDone q \<Longrightarrow>
     wpcs s t = WUnlock \<and> q = 0 \<or> (\<exists>v. wpcs s t = WShut v) \<and> rb_shutdown (shared s) \<noteq> 0 \<and> q = - 1"
  by (auto simp: mrmw_put_step_def set_wpc_def split: wpc.splits if_splits)

text \<open>Claim C16: The compare-and-swap and the increment of the write index are the points where the operations
  take effect, in every reachable state in which no reader sleeps through a lap. A successful swap takes the
  oldest item out of the buffer and the call of the reader ends with this item as its result; no other step
  of a reader changes the content of the buffer, and a reader ends otherwise only with \<open>NULL\<close>, from the
  waiting loop after a shutdown. The increment appends the item of the writer, no other step of a writer
  changes the content, and a writer ends with 0 only after the increment and with -1 only from the waiting
  loop after a shutdown.\<close>

theorem mrmw_linearisation:
  fixes s :: "('l::len word, 'v) sys"
  assumes "reachable s" "no_lap s"
  shows "(rpcs s t = RCas rp ptr n \<and> rb_read (shared s) = rp \<longrightarrow>
           ring_list (shared s) = ptr # ring_list (shared (mrmw_get_step t s)) \<and>
           rpcs (mrmw_get_step t s) t = RDone ptr) \<and>
         (\<not> swaps t s \<longrightarrow> ring_list (shared (mrmw_get_step t s)) = ring_list (shared s)) \<and>
         (rpcs (mrmw_get_step t s) t = RDone r \<longrightarrow>
           (\<exists>rp n. rpcs s t = RCas rp r n \<and> rb_read (shared s) = rp) \<or>
           rpcs s t = RShut \<and> rb_shutdown (shared s) \<noteq> 0 \<and> r = None) \<and>
         (wpcs s u = WIncr v \<longrightarrow>
           ring_list (shared (mrmw_put_step u s)) = ring_list (shared s) @ [v] \<and>
           wpcs (mrmw_put_step u s) u = WUnlock) \<and>
         ((\<forall>v. wpcs s u \<noteq> WIncr v) \<longrightarrow> ring_list (shared (mrmw_put_step u s)) = ring_list (shared s)) \<and>
         (wpcs (mrmw_put_step u s) u = WDone q \<longrightarrow>
           wpcs s u = WUnlock \<and> q = 0 \<or> (\<exists>v. wpcs s u = WShut v) \<and> rb_shutdown (shared s) \<noteq> 0 \<and> q = - 1)"
proof -
  have inv: "sys_inv s" using assms(1) by (rule reachable_inv)
  note now = buffer_ok_list[OF sys_invD(1)[OF inv]]
  note get = buffer_ok_list[OF sys_invD(1)[OF get_step_inv[OF inv assms(2), of t]]]
  note put = buffer_ok_list[OF sys_invD(1)[OF put_step_inv[OF inv, of u]]]
  have "ring_list (shared s) = ptr # ring_list (shared (mrmw_get_step t s)) \<and> rpcs (mrmw_get_step t s) t = RDone ptr"
    if "rpcs s t = RCas rp ptr n" "rb_read (shared s) = rp"
    using get_step_history(1)[of t s] get_step_history(3)[OF that] now get by simp
  moreover have "ring_list (shared (mrmw_get_step t s)) = ring_list (shared s)" if "\<not> swaps t s"
    using get_step_history(1)[of t s] get_step_history(2)[OF that] now get by simp
  moreover have "ring_list (shared (mrmw_put_step u s)) = ring_list (shared s) @ [v] \<and> wpcs (mrmw_put_step u s) u = WUnlock"
    if "wpcs s u = WIncr v"
    using put_step_history(1)[of u s] put_step_history(3)[OF that] now put by simp
  moreover have "ring_list (shared (mrmw_put_step u s)) = ring_list (shared s)" if "\<forall>v. wpcs s u \<noteq> WIncr v"
    using put_step_history(1)[of u s] put_step_history(2)[of s u] that now put by simp
  ultimately show ?thesis using get_step_history(4)[of t s r] put_step_history(4)[of u s q] by blast
qed

section \<open>Why the lap hypothesis is needed\<close>

text \<open>
  Without \<open>no_lap\<close> the guarantee fails for the real 8-bit buffer: a reader that loaded slot 0 and
  was preempted before its swap returns that item a second time when exactly 256 items passed
  meanwhile, and leaves the read index one ahead of the write index.
\<close>

inductive any_step_reachable :: "('l::len word, 'v) sys \<Rightarrow> bool" where
  any_start: "any_step_reachable sys_init"
| any_step: "any_step_reachable s \<Longrightarrow> sys_step s s' \<Longrightarrow> any_step_reachable s'"

fun steps_of :: "nat \<Rightarrow> ('s \<Rightarrow> 's) \<Rightarrow> 's \<Rightarrow> 's" where
  "steps_of 0 f s = s"
| "steps_of (Suc n) f s = steps_of n f (f s)"

lemma any_get_steps: "any_step_reachable s \<Longrightarrow> any_step_reachable (steps_of n (mrmw_get_step t) s)"
  by (induction n arbitrary: s) (auto intro: any_step reader)

lemma any_put_steps: "any_step_reachable s \<Longrightarrow> any_step_reachable (steps_of n (mrmw_put_step t) s)"
  by (induction n arbitrary: s) (auto intro: any_step writer)

text \<open>One undisturbed \<open>Put\<close> by writer 0, and one undisturbed \<open>Get\<close> by reader 1.\<close>

definition put_round :: "'v option \<Rightarrow> ('l::len word, 'v) sys \<Rightarrow> ('l word, 'v) sys" where
  "put_round v s = steps_of 9 (mrmw_put_step 0) (set_wpc 0 (WWait1 v) s)"

definition get_round :: "('l::len word, 'v) sys \<Rightarrow> ('l word, 'v) sys" where
  "get_round s = steps_of 9 (mrmw_get_step 1) s"

lemma put_round_eq:
  assumes "wpcs s 0 = WIdle" "spin s = None" "rb_write (shared s) + 1 \<noteq> rb_read (shared s)"
  shows "put_round v s = s\<lparr>shared := (shared s)\<lparr>
      rb_array := (rb_array (shared s))(rb_write (shared s) := v),
      rb_write := rb_write (shared s) + 1\<rparr>, puts := puts s @ [v]\<rparr>"
  using assms
  by (simp add: put_round_def eval_nat_numeral mrmw_put_step_def set_wpc_def fun_upd_idem)

lemma get_round_eq:
  assumes "rpcs s 1 = RIdle" "rb_write (shared s) \<noteq> rb_read (shared s)"
  shows "get_round s = s\<lparr>shared := (shared s)\<lparr>rb_read := rb_read (shared s) + 1\<rparr>,
      gots := gots s @ [rb_array (shared s) (rb_read (shared s))]\<rparr>"
  using assms
  by (simp add: get_round_def eval_nat_numeral mrmw_get_step_def set_rpc_def fun_upd_idem)

lemma any_put_round:
  "any_step_reachable s \<Longrightarrow> wpcs s 0 = WIdle \<Longrightarrow> any_step_reachable (put_round v s)"
  unfolding put_round_def by (intro any_put_steps any_step[OF _ call_put])

lemma any_get_round: "any_step_reachable s \<Longrightarrow> any_step_reachable (get_round s)"
  unfolding get_round_def by (rule any_get_steps)

text \<open>
  \<open>n\<close> items \<open>v\<close> pass through an empty buffer. Both indexes advance by \<open>n\<close>, and reader 0 does
  not move.
\<close>

definition quiet :: "('l::len word, 'v) sys \<Rightarrow> bool" where
  "quiet s \<longleftrightarrow> any_step_reachable s \<and> rpcs s 1 = RIdle \<and> wpcs s 0 = WIdle \<and> spin s = None \<and>
     rb_write (shared s) = rb_read (shared s)"

lemma quiet_pass:
  fixes s :: "(8 word, 'v) sys"
  assumes "quiet s"
  obtains s' where "quiet s'" "rpcs s' 0 = rpcs s 0"
    "rb_read (shared s') = rb_read (shared s) + 1" "gots s' = gots s @ [v]" "puts s' = puts s @ [v]"
proof
  let ?p = "put_round v s" and ?s' = "get_round (put_round v s)"
  have ne: "(x :: 8 word) + 1 \<noteq> x" for x by simp
  have p: "?p = s\<lparr>shared := (shared s)\<lparr>
      rb_array := (rb_array (shared s))(rb_write (shared s) := v),
      rb_write := rb_write (shared s) + 1\<rparr>, puts := puts s @ [v]\<rparr>"
    using assms ne by (intro put_round_eq) (auto simp: quiet_def)
  have g: "?s' = ?p\<lparr>shared := (shared ?p)\<lparr>rb_read := rb_read (shared ?p) + 1\<rparr>,
      gots := gots ?p @ [rb_array (shared ?p) (rb_read (shared ?p))]\<rparr>"
    using assms ne by (intro get_round_eq) (auto simp: quiet_def p)
  have fin: "?s' = s\<lparr>shared := (shared s)\<lparr>
      rb_array := (rb_array (shared s))(rb_write (shared s) := v),
      rb_write := rb_write (shared s) + 1, rb_read := rb_read (shared s) + 1\<rparr>,
      puts := puts s @ [v], gots := gots s @ [v]\<rparr>"
    using assms by (subst g) (simp add: p quiet_def)
  have "any_step_reachable ?s'"
    using assms by (auto simp: quiet_def intro: any_get_round any_put_round)
  then show "quiet ?s'" using assms unfolding quiet_def fin by simp
  show "rpcs ?s' 0 = rpcs s 0" "rb_read (shared ?s') = rb_read (shared s) + 1"
    "gots ?s' = gots s @ [v]" "puts ?s' = puts s @ [v]"
    unfolding fin by simp_all
qed

lemma quiet_passes:
  fixes s :: "(8 word, 'v) sys"
  assumes "quiet s"
  shows "\<exists>s'. quiet s' \<and> rpcs s' 0 = rpcs s 0 \<and> rb_read (shared s') = rb_read (shared s) + of_nat n \<and>
    gots s' = gots s @ replicate n v \<and> puts s' = puts s @ replicate n v"
proof (induction n)
  case 0
  show ?case using assms by auto
next
  case (Suc n)
  then obtain s1 where s1: "quiet s1" "rpcs s1 0 = rpcs s 0"
    "rb_read (shared s1) = rb_read (shared s) + of_nat n"
    "gots s1 = gots s @ replicate n v" "puts s1 = puts s @ replicate n v" by blast
  from quiet_pass[OF s1(1), of v] obtain s2 where "quiet s2" "rpcs s2 0 = rpcs s1 0"
    "rb_read (shared s2) = rb_read (shared s1) + 1" "gots s2 = gots s1 @ [v]"
    "puts s2 = puts s1 @ [v]" by blast
  then show ?case
    using s1 by (intro exI[of _ s2]) (simp add: replicate_append_same add_ac)
qed

text \<open>The state in which reader 0 has loaded the first item and reader 1 has then taken it.\<close>

definition stalled :: "(8 word, nat) sys" where
  "stalled = get_round (steps_of 7 (mrmw_get_step 0) (put_round (Some 0) sys_init))"

lemma stalled_quiet:
  "quiet stalled" "rpcs stalled 0 = RCas 0 (Some 0) 0" "rb_read (shared stalled) = 1"
  "gots stalled = [Some 0]" "puts stalled = [Some 0]"
proof -
  have p: "put_round (Some 0) sys_init = sys_init\<lparr>shared := ring_init\<lparr>
      rb_array := (\<lambda>_. None)(0 := Some 0), rb_write := 1\<rparr>, puts := [Some (0::nat)]\<rparr>"
    by (subst put_round_eq) (simp_all add: sys_init_def ring_init_def)
  have a: "any_step_reachable stalled"
    unfolding stalled_def
    by (intro any_get_round any_get_steps any_put_round any_start) (simp add: sys_init_def)
  have s: "stalled = (put_round (Some 0) sys_init)\<lparr>
      shared := (shared (put_round (Some 0) sys_init))\<lparr>rb_read := 1\<rparr>, gots := [Some 0],
      rpcs := (rpcs (put_round (Some 0) sys_init))(0 := RCas 0 (Some 0) 0)\<rparr>"
    unfolding stalled_def p
    by (subst get_round_eq)
      (simp_all add: eval_nat_numeral mrmw_get_step_def set_rpc_def sys_init_def ring_init_def)
  show "rpcs stalled 0 = RCas 0 (Some 0) 0" "rb_read (shared stalled) = 1"
    "gots stalled = [Some 0]" "puts stalled = [Some 0]"
    by (simp_all add: s p)
  show "quiet stalled"
    unfolding quiet_def using a by (simp add: s p) (simp add: sys_init_def)
qed

text \<open>Claim C23: without the lap hypothesis the 8-bit buffer can hand one item out twice: there is an
  interleaving of two readers and a writer after which the first item stored has been returned
  both first and last, 257 items were handed out though 256 were stored, and the empty buffer
  looks as if it held 255 items.\<close>

theorem mrmw8_aba_duplicates:
  "\<exists>s :: (8 word, nat) sys. any_step_reachable s \<and>
     puts s = Some 0 # replicate 255 (Some 1) \<and>
     gots s = (Some 0 # replicate 255 (Some 1)) @ [Some 0] \<and>
     length (ring_list (shared s)) = 255"
proof -
  have wrap: "(1 :: 8 word) + of_nat 255 = 0" by simp
  from quiet_passes[OF stalled_quiet(1), of 255 "Some 1"] obtain s :: "(8 word, nat) sys" where s: "quiet s"
    "rpcs s 0 = RCas 0 (Some 0) 0" "rb_read (shared s) = 0"
    "gots s = [Some 0] @ replicate 255 (Some 1)" "puts s = [Some 0] @ replicate 255 (Some 1)"
    unfolding stalled_quiet wrap by blast
  let ?s' = "mrmw_get_step 0 s"
  have s': "?s' = set_rpc 0 (RDone (Some 0))
      (s\<lparr>shared := (shared s)\<lparr>rb_read := 1\<rparr>, gots := gots s @ [Some 0]\<rparr>)"
    using s(2,3) by (simp add: mrmw_get_step_def)
  have "rb_write (shared s) = 0" using s(1,3) by (simp add: quiet_def)
  then have "length (ring_list (shared ?s')) = 255"
    by (simp add: s' set_rpc_def length_ring_list unat_max_word)
  moreover have "any_step_reachable ?s'"
    using s(1) by (auto simp: quiet_def intro: any_step reader)
  moreover have "gots ?s' = (Some 0 # replicate 255 (Some 1)) @ [Some 0]"
    "puts ?s' = Some 0 # replicate 255 (Some 1)"
    using s(4,5) by (simp_all add: s' set_rpc_def)
  ultimately show ?thesis by blast
qed

section \<open>Concrete runs\<close>

text \<open>A writer alone, and a reader alone, stay within the guarded runs.\<close>

lemma rpcs_put_step: "rpcs (mrmw_put_step t s) = rpcs s"
  by (auto simp: mrmw_put_step_def set_wpc_def split: wpc.split)

lemma reach_put_steps:
  "reachable s \<Longrightarrow> no_lap s \<Longrightarrow> rpcs s = (\<lambda>_. RIdle) \<Longrightarrow> reachable (steps_of n (mrmw_put_step t) s)"
proof (induction n arbitrary: s)
  case (Suc n)
  have "reachable (mrmw_put_step t s)" by (rule step[OF Suc.prems(1,2) writer])
  then show ?case using Suc.prems(3) by (simp add: Suc.IH rpcs_put_step no_lap_def)
qed simp

definition lone_reader :: "nat \<Rightarrow> nat \<Rightarrow> ('l::len word, 'v) sys \<Rightarrow> bool" where
  "lone_reader t k s \<longleftrightarrow> (\<forall>u. u \<noteq> t \<longrightarrow> rpcs s u = RIdle) \<and> length (gots s) + k < 2 ^ LENGTH('l)"

lemma lone_reader_no_lap: "lone_reader t k s \<Longrightarrow> no_lap s"
  by (force simp: lone_reader_def no_lap_def)

lemma lone_reader_step: "lone_reader t (Suc k) s \<Longrightarrow> lone_reader t k (mrmw_get_step t s)"
  by (auto simp: lone_reader_def mrmw_get_step_def set_rpc_def split: rpc.split)

lemma reach_get_steps:
  "reachable s \<Longrightarrow> lone_reader t n s \<Longrightarrow> reachable (steps_of n (mrmw_get_step t) s)"
proof (induction n arbitrary: s)
  case (Suc n)
  have "reachable (mrmw_get_step t s)"
    by (rule step[OF Suc.prems(1) lone_reader_no_lap[OF Suc.prems(2)] reader])
  then show ?case using Suc.prems(2) by (simp add: Suc.IH lone_reader_step)
qed simp

text \<open>One writer has stored 7 in the 8-bit buffer, and then is about to store 9 under the lock.\<close>

definition demo_put :: "(8 word, nat) sys" where
  "demo_put = steps_of 9 (mrmw_put_step 0) (set_wpc 0 (WWait1 (Some 7)) sys_init)"

definition demo_lock :: "(8 word, nat) sys" where
  "demo_lock = steps_of 5 (mrmw_put_step 0) (set_wpc 0 (WWait1 (Some 9)) demo_put)"

definition demo_cas :: "(8 word, nat) sys" where
  "demo_cas = steps_of 7 (mrmw_get_step 3) (steps_of 1 (mrmw_put_step 0) demo_lock)"

lemmas demo_simps = steps_of.simps eval_nat_numeral mrmw_put_step_def mrmw_get_step_def
  set_wpc_def set_rpc_def sys_init_def ring_init_def

lemma demo_put_eq: "demo_put = sys_init\<lparr>shared := ring_init\<lparr>
    rb_array := (\<lambda>_. None)(0 := Some 7), rb_write := 1\<rparr>, puts := [Some 7]\<rparr>"
  by (simp add: demo_put_def demo_simps fun_upd_idem)

lemma demo_lock_eq: "demo_lock = demo_put\<lparr>spin := Some 0, wpcs := (\<lambda>_. WIdle)(0 := WStore (Some 9))\<rparr>"
  by (simp add: demo_lock_def demo_put_eq demo_simps)

lemma demo_reachable: "reachable demo_put" "reachable demo_lock" "reachable demo_cas"
proof -
  have call: "reachable (set_wpc 0 (WWait1 v) s)"
    if "reachable s" "rpcs s = (\<lambda>_. RIdle)" "wpcs s 0 = WIdle" for v and s :: "(8 word, nat) sys"
    using that by (intro step[OF _ _ call_put]) (auto simp: no_lap_def)
  show p: "reachable demo_put"
    unfolding demo_put_def
    by (intro reach_put_steps call start) (simp_all add: sys_init_def no_lap_def)
  show l: "reachable demo_lock"
    unfolding demo_lock_def
    by (intro reach_put_steps call p) (simp_all add: demo_put_eq sys_init_def no_lap_def)
  have "reachable (steps_of 1 (mrmw_put_step 0) demo_lock)"
    by (intro reach_put_steps l) (simp_all add: demo_lock_eq demo_put_eq sys_init_def no_lap_def)
  then show "reachable demo_cas"
    unfolding demo_cas_def
    by (rule reach_get_steps)
      (simp add: lone_reader_def demo_lock_eq demo_put_eq mrmw_put_step_def set_wpc_def sys_init_def)
qed

lemma mrmw_fifo_witness: "puts demo_put = gots demo_put @ ring_list (shared demo_put)"
  by (rule mrmw_fifo) (rule demo_reachable)

lemma mrmw_writers_exclusive_witness:
  "(holds_lock (wpcs demo_lock 5) \<longleftrightarrow> (5::nat) = 0) \<and> length (ring_list (shared demo_lock)) < 255"
proof -
  have h: "holds_lock (wpcs demo_lock 0)" "wpcs demo_lock 0 = WStore (Some 9)"
    by (simp_all add: demo_lock_eq)
  show ?thesis
    using mrmw_writers_exclusive[OF demo_reachable(2) h(1), of 5 "Some 9"] h(2) by simp
qed

lemma demo_cas_eq: "rpcs demo_cas 3 = RCas 0 (Some 7) 0" "rb_read (shared demo_cas) = 0"
  "wpcs demo_cas 0 = WIncr (Some 9)" "no_lap demo_cas"
proof -
  have eq: "demo_cas = (steps_of 1 (mrmw_put_step 0) demo_lock)\<lparr>
      rpcs := (\<lambda>_. RIdle)(3 := RCas 0 (Some 7) 0)\<rparr>"
    by (simp add: demo_cas_def demo_lock_eq demo_put_eq demo_simps)
  show "rpcs demo_cas 3 = RCas 0 (Some 7) 0" "rb_read (shared demo_cas) = 0"
    "wpcs demo_cas 0 = WIncr (Some 9)" "no_lap demo_cas"
    by (simp_all add: eq demo_lock_eq demo_put_eq demo_simps no_lap_def)
qed

lemma mrmw_linearisation_witness:
  "ring_list (shared demo_cas) = Some 7 # ring_list (shared (mrmw_get_step 3 demo_cas)) \<and>
   rpcs (mrmw_get_step 3 demo_cas) 3 = RDone (Some 7) \<and>
   ring_list (shared (mrmw_put_step 0 demo_cas)) = ring_list (shared demo_cas) @ [Some 9]"
  using mrmw_linearisation[OF demo_reachable(3) demo_cas_eq(4)] demo_cas_eq by blast

end
