(* ===== verification/LinkedQueues.thy ===== *)
theory LinkedQueues
  imports Prelude
begin

text \<open>
  The doubly linked queues: packets (\<open>src/packet-queue.c\<close>), flows (\<open>src/flow-queue.c\<close>) and generic
  data (\<open>src/data-queue.c\<close>). Nodes live in a store from addresses to their link fields, so that
  the aliasing of the C pointers is kept; \<open>NULL\<close> is \<open>None\<close>. The functions run under the queue's
  mutex (taken by the caller or in the function), so they are atomic here and the mutex operations
  have no further effect. \<open>DBG_PERF\<close> is not defined.
\<close>

section \<open>Nodes, queues and the store\<close>

type_synonym addr = nat

record node =
  n_next :: "addr option"
  n_prev :: "addr option"

type_synonym store = "addr \<Rightarrow> node"

record 'n queue =
  q_top :: "addr option"
  q_bot :: "addr option"
  q_len :: 'n

definition set_next :: "addr \<Rightarrow> addr option \<Rightarrow> store \<Rightarrow> store" where
  "set_next a v \<sigma> = \<sigma>(a := (\<sigma> a)\<lparr>n_next := v\<rparr>)"

definition set_prev :: "addr \<Rightarrow> addr option \<Rightarrow> store \<Rightarrow> store" where
  "set_prev a v \<sigma> = \<sigma>(a := (\<sigma> a)\<lparr>n_prev := v\<rparr>)"

text \<open>\<open>if (p) p->next = v;\<close>\<close>

definition set_next_opt :: "addr option \<Rightarrow> addr option \<Rightarrow> store \<Rightarrow> store" where
  "set_next_opt p v \<sigma> = (case p of None \<Rightarrow> \<sigma> | Some a \<Rightarrow> set_next a v \<sigma>)"

definition set_prev_opt :: "addr option \<Rightarrow> addr option \<Rightarrow> store \<Rightarrow> store" where
  "set_prev_opt p v \<sigma> = (case p of None \<Rightarrow> \<sigma> | Some a \<Rightarrow> set_prev a v \<sigma>)"

section \<open>Packet queue\<close>

type_synonym PacketQueue = "u16 queue"

definition PacketEnqueue :: "addr option \<Rightarrow> store \<times> PacketQueue \<Rightarrow> store \<times> PacketQueue" where
  "PacketEnqueue p s =
     (case p of
        None \<Rightarrow> s
      | Some a \<Rightarrow>
          (case s of (\<sigma>, q) \<Rightarrow>
             (case q_top q of
                Some t \<Rightarrow>
                  (set_prev t (Some a) (set_next a (Some t) (set_prev a None \<sigma>)),
                   q\<lparr>q_top := Some a, q_len := q_len q + 1\<rparr>)
              | None \<Rightarrow>
                  (set_next a None (set_prev a None \<sigma>),
                   q\<lparr>q_top := Some a, q_bot := Some a, q_len := q_len q + 1\<rparr>))))"

definition PacketDequeue :: "store \<times> PacketQueue \<Rightarrow> addr option \<times> store \<times> PacketQueue" where
  "PacketDequeue s =
     (case s of (\<sigma>, q) \<Rightarrow>
        if q_len q = 0 then (None, \<sigma>, q)
        else
          let q1 = q\<lparr>q_len := q_len q - 1\<rparr> in
          (case q_bot q1 of
             None \<Rightarrow> (None, \<sigma>, q1)
           | Some p \<Rightarrow>
               (case n_prev (\<sigma> p) of
                  Some b \<Rightarrow> (Some p, set_next b None \<sigma>, q1\<lparr>q_bot := Some b\<rparr>)
                | None \<Rightarrow> (Some p, \<sigma>, q1\<lparr>q_top := None, q_bot := None\<rparr>))))"

text \<open>
  The consistency check of the debug build: \<open>Some True\<close> when no \<open>BUG_ON\<close> fires, \<open>Some False\<close> when
  one does, \<open>None\<close> when it dereferences \<open>NULL\<close> or walks a cyclic list for ever.
\<close>

partial_function (option) validate_walk :: "store \<Rightarrow> addr option \<Rightarrow> addr option \<Rightarrow> bool option" where
  "validate_walk \<sigma> p pp =
     (case p of
        None \<Rightarrow> Some True
      | Some a \<Rightarrow>
          if pp \<noteq> n_prev (\<sigma> a) then Some False
          else validate_walk \<sigma> (n_next (\<sigma> a)) (Some a))"

definition PacketQueueValidateDebug :: "store \<times> PacketQueue \<Rightarrow> bool option" where
  "PacketQueueValidateDebug s =
     (case s of (\<sigma>, q) \<Rightarrow>
        if q_len q = 0 then Some (q_top q = None \<and> q_bot q = None)
        else if q_len q = 1 then
          (if q_top q \<noteq> q_bot q then Some False
           else do {
             t \<leftarrow> q_top q;
             b \<leftarrow> q_bot q;
             Some (n_next (\<sigma> t) = None \<and> n_next (\<sigma> b) = None \<and>
                   n_prev (\<sigma> t) = None \<and> n_prev (\<sigma> b) = None)
           })
        else if q_len q = 2 then
          (if q_top q = None \<or> q_bot q = None \<or> q_top q = q_bot q then Some False
           else do {
             t \<leftarrow> q_top q;
             b \<leftarrow> q_bot q;
             Some (n_prev (\<sigma> t) = None \<and> n_next (\<sigma> t) = Some b \<and>
                   n_prev (\<sigma> b) = Some t \<and> n_next (\<sigma> b) = None)
           })
        else
          (if q_top q = None \<or> q_bot q = None \<or> q_top q = q_bot q then Some False
           else do {
             t \<leftarrow> q_top q;
             b \<leftarrow> q_bot q;
             if n_prev (\<sigma> t) \<noteq> None \<or> n_next (\<sigma> b) \<noteq> None \<or> n_next (\<sigma> t) = Some b
                \<or> n_prev (\<sigma> b) = Some t
             then Some False
             else validate_walk \<sigma> (Some t) (n_prev (\<sigma> t))
           }))"

section \<open>Flow queue\<close>

type_synonym FlowQueue = "u32 queue"

definition FlowQueueInit :: "FlowQueue \<Rightarrow> FlowQueue" where
  "FlowQueueInit q = \<lparr>q_top = None, q_bot = None, q_len = 0\<rparr>"

definition FlowEnqueue :: "addr \<Rightarrow> store \<times> FlowQueue \<Rightarrow> store \<times> FlowQueue" where
  "FlowEnqueue f s =
     (case s of (\<sigma>, q) \<Rightarrow>
        (case q_top q of
           Some t \<Rightarrow>
             (set_prev t (Some f) (set_next f (Some t) \<sigma>),
              q\<lparr>q_top := Some f, q_len := q_len q + 1\<rparr>)
         | None \<Rightarrow> (\<sigma>, q\<lparr>q_top := Some f, q_bot := Some f, q_len := q_len q + 1\<rparr>)))"

definition FlowDequeue :: "store \<times> FlowQueue \<Rightarrow> addr option \<times> store \<times> FlowQueue" where
  "FlowDequeue s =
     (case s of (\<sigma>, q) \<Rightarrow>
        (case q_bot q of
           None \<Rightarrow> (None, \<sigma>, q)
         | Some f \<Rightarrow>
             let (\<sigma>1, q1) =
               (case n_prev (\<sigma> f) of
                  Some b \<Rightarrow> (set_next b None \<sigma>, q\<lparr>q_bot := Some b\<rparr>)
                | None \<Rightarrow> (\<sigma>, q\<lparr>q_top := None, q_bot := None\<rparr>))
             in (Some f, set_prev f None (set_next f None \<sigma>1), q1\<lparr>q_len := q_len q1 - 1\<rparr>)))"

text \<open>
  \<open>FlowRequeue\<close> works on two queues that may be the same one, so the queues are addressed too:
  \<open>qs\<close> is the memory holding them and \<open>srcq\<close> may be \<open>NULL\<close>. Every field is read when the code
  reads it.
\<close>

definition flow_unlink :: "addr \<Rightarrow> addr \<Rightarrow> store \<times> (addr \<Rightarrow> FlowQueue) \<Rightarrow> store \<times> (addr \<Rightarrow> FlowQueue)" where
  "flow_unlink f srcq s =
     (case s of (\<sigma>, qs) \<Rightarrow>
        let q0 = qs srcq;
            q1 = (if q_top q0 = Some f then q0\<lparr>q_top := n_next (\<sigma> f)\<rparr> else q0);
            q2 = (if q_bot q1 = Some f then q1\<lparr>q_bot := n_prev (\<sigma> f)\<rparr> else q1);
            \<sigma>1 = set_next_opt (n_prev (\<sigma> f)) (n_next (\<sigma> f)) \<sigma>;
            \<sigma>2 = set_prev_opt (n_next (\<sigma>1 f)) (n_prev (\<sigma>1 f)) \<sigma>1;
            q3 = q2\<lparr>q_len := q_len q2 - 1\<rparr>
        in (set_prev f None (set_next f None \<sigma>2), qs(srcq := q3)))"

definition flow_append :: "addr \<Rightarrow> addr \<Rightarrow> store \<times> (addr \<Rightarrow> FlowQueue) \<Rightarrow> store \<times> (addr \<Rightarrow> FlowQueue)" where
  "flow_append f dstq s =
     (case s of (\<sigma>, qs) \<Rightarrow>
        let q0 = qs dstq;
            \<sigma>1 = set_prev f (q_bot q0) \<sigma>;
            \<sigma>2 = set_next_opt (n_prev (\<sigma>1 f)) (Some f) \<sigma>1;
            \<sigma>3 = set_next f None \<sigma>2;
            q1 = q0\<lparr>q_bot := Some f\<rparr>;
            q2 = (if q_top q1 = None then q1\<lparr>q_top := Some f\<rparr> else q1);
            q3 = q2\<lparr>q_len := q_len q2 + 1\<rparr>
        in (\<sigma>3, qs(dstq := q3)))"

definition FlowRequeue :: "addr \<Rightarrow> addr option \<Rightarrow> addr \<Rightarrow> store \<times> (addr \<Rightarrow> FlowQueue)
    \<Rightarrow> store \<times> (addr \<Rightarrow> FlowQueue)" where
  "FlowRequeue f srcq dstq s =
     flow_append f dstq (case srcq of None \<Rightarrow> s | Some sq \<Rightarrow> flow_unlink f sq s)"

section \<open>Data queue\<close>

type_synonym SCDQDataQueue = "u16 queue"

definition SCDQDataEnqueue :: "addr \<Rightarrow> store \<times> SCDQDataQueue \<Rightarrow> store \<times> SCDQDataQueue" where
  "SCDQDataEnqueue d s =
     (case s of (\<sigma>, q) \<Rightarrow>
        (case q_top q of
           Some t \<Rightarrow>
             (set_prev t (Some d) (set_next d (Some t) \<sigma>),
              q\<lparr>q_top := Some d, q_len := q_len q + 1\<rparr>)
         | None \<Rightarrow> (\<sigma>, q\<lparr>q_top := Some d, q_bot := Some d, q_len := q_len q + 1\<rparr>)))"

text \<open>Only the Darwin build tests \<open>bot\<close>: elsewhere an inconsistent queue is a \<open>NULL\<close> dereference.\<close>

definition SCDQDataDequeue :: "store \<times> SCDQDataQueue \<Rightarrow> (addr option \<times> store \<times> SCDQDataQueue) option" where
  "SCDQDataDequeue s =
     (case s of (\<sigma>, q) \<Rightarrow>
        if q_len q = 0 then Some (None, \<sigma>, q)
        else
          let q1 = q\<lparr>q_len := q_len q - 1\<rparr> in
          (case q_bot q1 of
             None \<Rightarrow> None
           | Some d \<Rightarrow>
               let (\<sigma>1, q2) =
                 (case n_prev (\<sigma> d) of
                    Some b \<Rightarrow> (set_next b None \<sigma>, q1\<lparr>q_bot := Some b\<rparr>)
                  | None \<Rightarrow> (\<sigma>, q1\<lparr>q_top := None, q_bot := None\<rparr>))
               in Some (Some d, set_prev d None (set_next d None \<sigma>1), q2)))"

section \<open>Doubly linked segments\<close>

text \<open>
  \<open>dseg \<sigma> p xs n\<close>: the nodes \<open>xs\<close> are linked in both directions, the first one's \<open>prev\<close> is \<open>p\<close> and
  the last one's \<open>next\<close> is \<open>n\<close>.
\<close>

definition first_or :: "addr list \<Rightarrow> addr option \<Rightarrow> addr option" where
  "first_or xs n = (case xs of [] \<Rightarrow> n | x # _ \<Rightarrow> Some x)"

definition last_or :: "addr option \<Rightarrow> addr list \<Rightarrow> addr option" where
  "last_or p xs = (if xs = [] then p else Some (last xs))"

fun dseg :: "store \<Rightarrow> addr option \<Rightarrow> addr list \<Rightarrow> addr option \<Rightarrow> bool" where
  "dseg \<sigma> p [] n = True"
| "dseg \<sigma> p (x # xs) n =
     (n_prev (\<sigma> x) = p \<and> n_next (\<sigma> x) = first_or xs n \<and> dseg \<sigma> (Some x) xs n)"

definition queue_repr :: "store \<Rightarrow> ('l::len word) queue \<Rightarrow> addr list \<Rightarrow> bool" where
  "queue_repr \<sigma> q xs \<longleftrightarrow> dseg \<sigma> None xs None \<and> distinct xs \<and> q_top q = first_or xs None \<and>
     q_bot q = last_or None xs \<and> q_len q = of_nat (length xs)"

lemma first_or_simps [dlist_simps, simp]:
  "first_or [] n = n" "first_or (x # xs) n = Some x"
  "first_or (xs @ ys) n = first_or xs (first_or ys n)"
  by (simp_all add: first_or_def split: list.split)

lemma last_or_simps [dlist_simps, simp]:
  "last_or p [] = p" "last_or p (xs @ [x]) = Some x"
  "last_or p (x # xs) = last_or (Some x) xs"
  "last_or p (xs @ ys) = last_or (last_or p xs) ys"
  by (simp_all add: last_or_def)

lemma first_or_None [simp]: "first_or xs None = None \<longleftrightarrow> xs = []"
  by (simp add: first_or_def split: list.split)

lemma last_or_None [simp]: "last_or None xs = None \<longleftrightarrow> xs = []"
  by (simp add: last_or_def)

lemma store_upd [dlist_simps, simp]:
  "n_next (set_next a v \<sigma> b) = (if b = a then v else n_next (\<sigma> b))"
  "n_prev (set_next a v \<sigma> b) = n_prev (\<sigma> b)"
  "n_prev (set_prev a v \<sigma> b) = (if b = a then v else n_prev (\<sigma> b))"
  "n_next (set_prev a v \<sigma> b) = n_next (\<sigma> b)"
  by (simp_all add: set_next_def set_prev_def)

lemma dseg_append [dlist_simps]:
  "dseg \<sigma> p (xs @ ys) n \<longleftrightarrow> dseg \<sigma> p xs (first_or ys n) \<and> dseg \<sigma> (last_or p xs) ys n"
  by (induction xs arbitrary: p) auto

lemma dseg_cong:
  "(\<And>x. x \<in> set xs \<Longrightarrow> n_next (\<sigma> x) = n_next (\<tau> x) \<and> n_prev (\<sigma> x) = n_prev (\<tau> x)) \<Longrightarrow>
   dseg \<sigma> p xs n = dseg \<tau> p xs n"
  by (induction xs arbitrary: p) auto

lemma dseg_frame [dlist_simps]:
  "a \<notin> set xs \<Longrightarrow> dseg (set_next a v \<sigma>) p xs n = dseg \<sigma> p xs n"
  "a \<notin> set xs \<Longrightarrow> dseg (set_prev a v \<sigma>) p xs n = dseg \<sigma> p xs n"
  by (auto intro!: dseg_cong)

text \<open>Relinking one end of a segment.\<close>

lemma dseg_set_prev_first [dlist_simps]:
  "distinct (x # xs) \<Longrightarrow> dseg (set_prev x v \<sigma>) p (x # xs) n \<longleftrightarrow>
     p = v \<and> (\<exists>p'. dseg \<sigma> p' (x # xs) n)"
  by (auto simp: dseg_frame)

lemma dseg_set_next_last [dlist_simps]:
  "distinct (xs @ [x]) \<Longrightarrow> dseg (set_next x v \<sigma>) p (xs @ [x]) n \<longleftrightarrow>
     n = v \<and> (\<exists>n'. dseg \<sigma> p (xs @ [x]) n')"
  by (auto simp: dseg_append dseg_frame)


section \<open>Each queue operation on the represented list\<close>

text \<open>
  A list is represented newest first: \<open>top\<close> is its head, \<open>bot\<close> its last element. \<open>push_front\<close> is the
  state every enqueue reaches, \<open>pop_back\<close> the one of every dequeue, \<open>null_links\<close> the state of a node
  that is on no queue.
\<close>

definition null_links :: "store \<Rightarrow> addr \<Rightarrow> bool" where
  "null_links \<sigma> a \<longleftrightarrow> n_next (\<sigma> a) = None \<and> n_prev (\<sigma> a) = None"

lemma queue_repr_Nil: "queue_repr \<sigma> q [] \<longleftrightarrow> q_top q = None \<and> q_bot q = None \<and> q_len q = 0"
  by (simp add: queue_repr_def)

lemma queue_repr_top: "queue_repr \<sigma> q xs \<Longrightarrow> q_top q = first_or xs None"
  and queue_repr_bot: "queue_repr \<sigma> q xs \<Longrightarrow> q_bot q = last_or None xs"
  and queue_repr_len: "queue_repr \<sigma> q xs \<Longrightarrow> q_len q = of_nat (length xs)"
  and queue_repr_distinct: "queue_repr \<sigma> q xs \<Longrightarrow> distinct xs"
  and queue_repr_dseg: "queue_repr \<sigma> q xs \<Longrightarrow> dseg \<sigma> None xs None"
  by (simp_all add: queue_repr_def)

lemma push_front_dseg:
  assumes "dseg \<sigma> None (t # ts) None" "distinct (t # ts)" "a \<notin> set (t # ts)"
    and "n_prev (\<sigma>' a) = None" "n_next (\<sigma>' a) = Some t" "n_prev (\<sigma>' t) = Some a"
    and "n_next (\<sigma>' t) = n_next (\<sigma> t)" "\<And>b. b \<in> set ts \<Longrightarrow> \<sigma>' b = \<sigma> b"
  shows "dseg \<sigma>' None (a # t # ts) None"
proof -
  have "dseg \<sigma>' (Some t) ts None = dseg \<sigma> (Some t) ts None"
    by (rule dseg_cong) (simp add: assms(8))
  then show ?thesis using assms by simp
qed

lemma pop_back_dseg:
  assumes "dseg \<sigma> p (xs @ [b, x]) n" "distinct (xs @ [b, x])"
    and "\<And>c. c \<in> set xs \<Longrightarrow> \<sigma>' c = \<sigma> c" "n_prev (\<sigma>' b) = n_prev (\<sigma> b)" "n_next (\<sigma>' b) = None"
  shows "dseg \<sigma>' p (xs @ [b]) None"
proof -
  have "dseg \<sigma>' p xs (Some b) = dseg \<sigma> p xs (Some b)"
    by (rule dseg_cong) (simp add: assms(3))
  then show ?thesis using assms by (simp add: dseg_append)
qed

lemma set_next_other [simp]: "b \<noteq> a \<Longrightarrow> set_next a v \<sigma> b = \<sigma> b"
  and set_prev_other [simp]: "b \<noteq> a \<Longrightarrow> set_prev a v \<sigma> b = \<sigma> b"
  by (simp_all add: set_next_def set_prev_def)


definition repr :: "store \<times> 'l::len word queue \<Rightarrow> addr list \<Rightarrow> bool" where
  "repr s xs = queue_repr (fst s) (snd s) xs"

lemma repr_pair: "repr (\<sigma>, q) xs = queue_repr \<sigma> q xs"
  by (simp add: repr_def)

lemma of_nat_len_Suc: "n + 1 < 2 ^ LENGTH('l) \<Longrightarrow> (1 + of_nat n :: 'l::len word) \<noteq> 0"
  using of_nat_word_eq_iff_lap[where 'l='l, of 0 "Suc n"] by simp

lemma push_front_repr:
  assumes "repr (\<sigma>, q) xs" "a \<notin> set xs"
    and "n_prev (\<sigma>' a) = None" "n_next (\<sigma>' a) = first_or xs None"
    and "xs \<noteq> [] \<Longrightarrow> n_prev (\<sigma>' (hd xs)) = Some a"
    and "xs \<noteq> [] \<Longrightarrow> n_next (\<sigma>' (hd xs)) = n_next (\<sigma> (hd xs))"
    and "\<And>b. b \<in> set (tl xs) \<Longrightarrow> b \<noteq> hd xs \<Longrightarrow> \<sigma>' b = \<sigma> b"
    and "q_top q' = Some a" "q_bot q' = (if xs = [] then Some a else q_bot q)"
    and "q_len q' = q_len q + 1"
  shows "repr (\<sigma>', q') (a # xs)"
proof (cases xs)
  case Nil
  then show ?thesis using assms by (simp add: repr_def queue_repr_def)
next
  case (Cons t ts)
  have "dseg \<sigma>' None (a # t # ts) None"
    by (rule push_front_dseg[of \<sigma>]) (use assms Cons in \<open>auto simp: repr_def queue_repr_def\<close>)
  then show ?thesis using assms Cons by (simp add: repr_def queue_repr_def)
qed

lemma pop_back_repr:
  assumes "repr (\<sigma>, q) (xs @ [x])"
    and "\<And>b. b \<in> set (butlast xs) \<Longrightarrow> \<sigma>' b = \<sigma> b"
    and "xs \<noteq> [] \<Longrightarrow> n_prev (\<sigma>' (last xs)) = n_prev (\<sigma> (last xs)) \<and> n_next (\<sigma>' (last xs)) = None"
    and "q_top q' = (if xs = [] then None else q_top q)" "q_bot q' = last_or None xs"
    and "q_len q' = q_len q - 1"
  shows "repr (\<sigma>', q') xs"
proof (cases xs rule: rev_cases)
  case Nil
  then show ?thesis using assms by (simp add: repr_def queue_repr_def)
next
  case (snoc ys b)
  have "dseg \<sigma>' None (ys @ [b]) None"
    by (rule pop_back_dseg[of \<sigma> _ _ _ x None]) (use assms snoc in \<open>auto simp: repr_def queue_repr_def\<close>)
  then show ?thesis using assms snoc by (cases ys) (simp_all add: repr_def queue_repr_def)
qed

lemma repr_back:
  assumes "repr (\<sigma>, q) (xs @ [x])"
  shows "q_bot q = Some x" "n_prev (\<sigma> x) = last_or None xs"
  using assms by (auto simp: repr_def queue_repr_def dseg_append)

lemma repr_len_nonzero:
  fixes q :: "'l::len word queue"
  assumes "repr (\<sigma>, q) (xs @ [x])" "length (xs @ [x]) < 2 ^ LENGTH('l)"
  shows "q_len q \<noteq> 0"
  using assms of_nat_len_Suc[where 'l='l and n="length xs"] by (simp add: repr_def queue_repr_def)

lemma repr_top_cases:
  assumes "repr (\<sigma>, q) xs"
  shows "q_top q = (case xs of [] \<Rightarrow> None | t # _ \<Rightarrow> Some t)"
  using assms by (simp add: repr_def queue_repr_def first_or_def)

lemma repr_distinct: "repr s xs \<Longrightarrow> distinct xs"
  by (simp add: repr_def queue_repr_def)

lemma last_or_cases: "last_or None xs = (case rev xs of [] \<Rightarrow> None | x # _ \<Rightarrow> Some x)"
  by (cases xs rule: rev_cases) simp_all

lemma butlast_last_distinct: "distinct xs \<Longrightarrow> b \<in> set (butlast xs) \<Longrightarrow> b \<noteq> last xs"
  by (cases xs rule: rev_cases) auto

section \<open>The interface of a linked queue\<close>

text \<open>
  What a client relies on: a \<open>ready\<close> node that is not on the queue can be enqueued, the oldest node
  comes out, and a node that came out is ready again. \<open>cap\<close> is the number of distinct values of the
  length field.
\<close>

datatype qop = Enq addr | Deq

fun list_step :: "addr list \<Rightarrow> qop \<Rightarrow> addr option \<times> addr list" where
  "list_step xs (Enq a) = (None, a # xs)"
| "list_step xs Deq = (if xs = [] then (None, []) else (Some (last xs), butlast xs))"

fun list_run :: "addr list \<Rightarrow> qop list \<Rightarrow> addr option list" where
  "list_run xs [] = []"
| "list_run xs (op # ops) = fst (list_step xs op) # list_run (snd (list_step xs op)) ops"

text \<open>Only nodes not on the queue are enqueued, and never \<open>cap\<close> of them.\<close>

fun good_ops :: "nat \<Rightarrow> addr list \<Rightarrow> qop list \<Rightarrow> bool" where
  "good_ops cap xs [] = True"
| "good_ops cap xs (op # ops) =
     ((case op of Enq a \<Rightarrow> a \<notin> set xs \<and> Suc (length xs) < cap | Deq \<Rightarrow> True) \<and>
      good_ops cap (snd (list_step xs op)) ops)"

fun queue_run :: "(addr \<Rightarrow> 's \<Rightarrow> 's) \<Rightarrow> ('s \<Rightarrow> (addr option \<times> 's) option) \<Rightarrow> 's \<Rightarrow> qop list \<Rightarrow>
    addr option list option" where
  "queue_run enq deq s [] = Some []"
| "queue_run enq deq s (Enq a # ops) =
     map_option ((#) None) (queue_run enq deq (enq a s) ops)"
| "queue_run enq deq s (Deq # ops) =
     do { (r, s') \<leftarrow> deq s; rs \<leftarrow> queue_run enq deq s' ops; Some (r # rs) }"

locale linked_fifo =
  fixes enq :: "addr \<Rightarrow> store \<times> 'l::len word queue \<Rightarrow> store \<times> 'l word queue"
    and deq :: "store \<times> 'l word queue \<Rightarrow> (addr option \<times> store \<times> 'l word queue) option"
    and ready :: "store \<Rightarrow> addr \<Rightarrow> bool"
  assumes enq_repr: "repr s xs \<Longrightarrow> a \<notin> set xs \<Longrightarrow> ready (fst s) a \<Longrightarrow> repr (enq a s) (a # xs)"
    and enq_frame: "repr s xs \<Longrightarrow> b \<noteq> a \<Longrightarrow> b \<notin> set xs \<Longrightarrow> fst (enq a s) b = fst s b"
    and deq_repr: "repr s (xs @ [x]) \<Longrightarrow> length (xs @ [x]) < 2 ^ LENGTH('l) \<Longrightarrow>
          \<exists>s'. deq s = Some (Some x, s') \<and> repr s' xs \<and> ready (fst s') x \<and>
               (\<forall>b. b \<notin> set (xs @ [x]) \<longrightarrow> fst s' b = fst s b)"
    and deq_empty: "repr s [] \<Longrightarrow> deq s = Some (None, s)"
    and ready_cong: "\<sigma> b = \<tau> b \<Longrightarrow> ready \<sigma> b = ready \<tau> b"
begin

definition rel :: "store \<times> 'l word queue \<Rightarrow> addr list \<Rightarrow> bool" where
  "rel s xs \<longleftrightarrow> repr s xs \<and> length xs < 2 ^ LENGTH('l) \<and> (\<forall>b. b \<notin> set xs \<longrightarrow> ready (fst s) b)"

lemma enq_rel: "rel s xs \<Longrightarrow> a \<notin> set xs \<Longrightarrow> Suc (length xs) < 2 ^ LENGTH('l) \<Longrightarrow> rel (enq a s) (a # xs)"
  using enq_repr[of s xs a] enq_frame[of s xs _ a] ready_cong[of "fst (enq a s)" _ "fst s"]
  by (auto simp: rel_def)

lemma deq_rel:
  assumes "rel s xs"
  shows "\<exists>s'. deq s = Some (fst (list_step xs Deq), s') \<and> rel s' (snd (list_step xs Deq))"
proof (cases xs rule: rev_cases)
  case Nil
  then show ?thesis using assms deq_empty[of s] by (auto simp: rel_def)
next
  case (snoc ys x)
  from assms snoc deq_repr[of s ys x] obtain s' where
    s': "deq s = Some (Some x, s')" "repr s' ys" "ready (fst s') x"
      "\<forall>b. b \<notin> set (ys @ [x]) \<longrightarrow> fst s' b = fst s b"
    unfolding rel_def by auto
  have "ready (fst s') b" if "b \<notin> set ys" for b
    using that s'(3,4) assms snoc ready_cong[of "fst s'" b "fst s"] by (cases "b = x") (auto simp: rel_def)
  then show ?thesis using s' snoc assms by (auto simp: rel_def)
qed

lemma run_refines:
  "rel s xs \<Longrightarrow> good_ops (2 ^ LENGTH('l)) xs ops \<Longrightarrow> queue_run enq deq s ops = Some (list_run xs ops)"
proof (induction ops arbitrary: s xs)
  case Nil
  then show ?case by simp
next
  case (Cons op ops)
  show ?case
  proof (cases op)
    case (Enq a)
    then show ?thesis using Cons enq_rel[of s xs a] by simp
  next
    case Deq
    from deq_rel[OF Cons.prems(1)] obtain s' where
      "deq s = Some (fst (list_step xs Deq), s')" "rel s' (snd (list_step xs Deq))" by blast
    then show ?thesis using Cons.IH[of s' "snd (list_step xs Deq)"] Cons.prems Deq by simp
  qed
qed

end

section \<open>The three queues provide it\<close>

lemma PacketEnqueue_repr:
  assumes "repr s xs" "a \<notin> set xs"
  shows "repr (PacketEnqueue (Some a) s) (a # xs)"
proof (cases s)
  case (Pair \<sigma> q)
  note r = assms(1)[unfolded Pair]
  show ?thesis
  proof (cases xs)
    case Nil
    then show ?thesis using assms(2-) Pair repr_top_cases[OF r] repr_distinct[OF r]
      by (auto simp: PacketEnqueue_def intro!: push_front_repr[OF r[unfolded Nil]])
  next
    case (Cons t ts)
    then show ?thesis using assms(2-) Pair repr_top_cases[OF r] repr_distinct[OF r]
      by (auto simp: PacketEnqueue_def set_next_def set_prev_def intro!: push_front_repr[OF r[unfolded Cons]])
  qed
qed


lemma SCDQDataEnqueue_repr:
  assumes "repr s xs" "a \<notin> set xs" "null_links (fst s) a"
  shows "repr (SCDQDataEnqueue a s) (a # xs)"
proof (cases s)
  case (Pair \<sigma> q)
  note r = assms(1)[unfolded Pair]
  show ?thesis
  proof (cases xs)
    case Nil
    then show ?thesis using assms(2-) Pair repr_top_cases[OF r] repr_distinct[OF r]
      by (auto simp: SCDQDataEnqueue_def null_links_def intro!: push_front_repr[OF r[unfolded Nil]])
  next
    case (Cons t ts)
    then show ?thesis using assms(2-) Pair repr_top_cases[OF r] repr_distinct[OF r]
      by (auto simp: SCDQDataEnqueue_def null_links_def set_next_def set_prev_def intro!: push_front_repr[OF r[unfolded Cons]])
  qed
qed

lemma enqueue_frame:
  "repr s xs \<Longrightarrow> b \<noteq> a \<Longrightarrow> b \<notin> set xs \<Longrightarrow> fst (PacketEnqueue (Some a) s) b = fst s b"
  "repr t xs \<Longrightarrow> b \<noteq> a \<Longrightarrow> b \<notin> set xs \<Longrightarrow> fst (FlowEnqueue a t) b = fst t b"
  "repr u xs \<Longrightarrow> b \<noteq> a \<Longrightarrow> b \<notin> set xs \<Longrightarrow> fst (SCDQDataEnqueue a u) b = fst u b"
  by (cases s; cases t; cases u; cases xs;
      auto simp: PacketEnqueue_def FlowEnqueue_def SCDQDataEnqueue_def dest: repr_top_cases)+

lemma PacketDequeue_repr:
  fixes s :: "store \<times> PacketQueue"
  assumes "repr s (xs @ [x])" "length (xs @ [x]) < 2 ^ LENGTH(16)"
  shows "\<exists>s'. PacketDequeue s = (Some x, s') \<and> repr s' xs \<and>
      (\<forall>b. b \<notin> set (xs @ [x]) \<longrightarrow> fst s' b = fst s b)"
proof (cases s)
  case (Pair \<sigma> q)
  note r = assms(1)[unfolded Pair] and d = repr_distinct[OF assms(1)]
  show ?thesis
  proof (cases xs rule: rev_cases)
    case Nil
    then show ?thesis using repr_back[OF r] repr_len_nonzero[OF r assms(2)] Pair d
      by (auto simp: PacketDequeue_def intro!: pop_back_repr[OF r[unfolded Nil]])
  next
    case (snoc ys b)
    then show ?thesis using repr_back[OF r] repr_len_nonzero[OF r assms(2)] Pair d
      by (auto simp: PacketDequeue_def set_next_def set_prev_def intro!: pop_back_repr[OF r[unfolded snoc]])
  qed
qed


lemma SCDQDataDequeue_repr:
  fixes s :: "store \<times> SCDQDataQueue"
  assumes "repr s (xs @ [x])" "length (xs @ [x]) < 2 ^ LENGTH(16)"
  shows "\<exists>s'. SCDQDataDequeue s = Some (Some x, s') \<and> repr s' xs \<and> null_links (fst s') x \<and>
      (\<forall>b. b \<notin> set (xs @ [x]) \<longrightarrow> fst s' b = fst s b)"
proof (cases s)
  case (Pair \<sigma> q)
  note r = assms(1)[unfolded Pair] and d = repr_distinct[OF assms(1)]
  show ?thesis
  proof (cases xs rule: rev_cases)
    case Nil
    then show ?thesis using repr_back[OF r] repr_len_nonzero[OF r assms(2)] Pair d
      by (auto simp: SCDQDataDequeue_def null_links_def intro!: pop_back_repr[OF r[unfolded Nil]])
  next
    case (snoc ys b)
    then show ?thesis using repr_back[OF r] repr_len_nonzero[OF r assms(2)] Pair d
      by (auto simp: SCDQDataDequeue_def null_links_def set_next_def set_prev_def intro!: pop_back_repr[OF r[unfolded snoc]])
  qed
qed

lemma dequeue_empty:
  "repr s [] \<Longrightarrow> PacketDequeue s = (None, s)"
  "repr t [] \<Longrightarrow> FlowDequeue t = (None, t)"
  "repr u [] \<Longrightarrow> SCDQDataDequeue u = Some (None, u)"
  by (auto simp: repr_def queue_repr_Nil PacketDequeue_def FlowDequeue_def SCDQDataDequeue_def
           split: prod.split)

interpretation pq: linked_fifo "\<lambda>a. PacketEnqueue (Some a)" "\<lambda>s. Some (PacketDequeue s)" "\<lambda>_ _. True"
  by unfold_locales
     (auto simp: PacketEnqueue_repr enqueue_frame dequeue_empty dest: PacketDequeue_repr)


interpretation dq: linked_fifo SCDQDataEnqueue SCDQDataDequeue null_links
  by unfold_locales
     (auto simp: SCDQDataEnqueue_repr enqueue_frame dequeue_empty null_links_def[of _ b for b]
        dest: SCDQDataDequeue_repr)

section \<open>Moving a flow between queues\<close>

text \<open>Relinking the last node of a segment and the first one, when there is one.\<close>

lemma opt_upd [simp]:
  "set_next_opt None v \<sigma> = \<sigma>" "set_next_opt (Some a) v \<sigma> = set_next a v \<sigma>"
  "set_prev_opt None v \<sigma> = \<sigma>" "set_prev_opt (Some a) v \<sigma> = set_prev a v \<sigma>"
  by (simp_all add: set_next_opt_def set_prev_opt_def)

lemma dseg_relink_last:
  "dseg \<sigma> p xs n \<Longrightarrow> distinct xs \<Longrightarrow> dseg (set_next_opt (last_or None xs) m \<sigma>) p xs m"
  by (cases xs rule: rev_cases) (auto simp: dseg_append dseg_frame)

lemma dseg_relink_first:
  "dseg \<sigma> p xs n \<Longrightarrow> distinct xs \<Longrightarrow> dseg (set_prev_opt (first_or xs None) m \<sigma>) m xs n"
  by (cases xs) (auto simp: dseg_frame)

lemma dseg_frame_opt:
  "set_option v \<inter> set xs = {} \<Longrightarrow> dseg (set_next_opt v w \<sigma>) p xs n = dseg \<sigma> p xs n"
  "set_option v \<inter> set xs = {} \<Longrightarrow> dseg (set_prev_opt v w \<sigma>) p xs n = dseg \<sigma> p xs n"
  by (cases v; simp add: dseg_frame)+

lemma set_last_or [simp]: "set_option (last_or None xs) = (if xs = [] then {} else {last xs})"
  by (simp add: last_or_def)

lemma set_first_or [simp]: "set_option (first_or xs None) = (if xs = [] then {} else {hd xs})"
  by (cases xs) simp_all

lemma opt_other:
  "x \<notin> set_option v \<Longrightarrow> set_next_opt v w \<sigma> x = \<sigma> x"
  "x \<notin> set_option v \<Longrightarrow> set_prev_opt v w \<sigma> x = \<sigma> x"
  by (cases v; simp)+

lemma disjoint_ends:
  "set xs \<inter> set ys = {} \<Longrightarrow> xs \<noteq> [] \<Longrightarrow> last xs \<notin> set ys"
  "set xs \<inter> set ys = {} \<Longrightarrow> ys \<noteq> [] \<Longrightarrow> hd ys \<notin> set xs"
  by (meson disjoint_iff last_in_set) (meson disjoint_iff hd_in_set)

lemma relink_dseg:
  assumes "dseg \<sigma> None ys n" "dseg \<sigma> p zs None" "distinct (ys @ zs)"
  shows "dseg (set_prev_opt (first_or zs None) (last_or None ys)
           (set_next_opt (last_or None ys) (first_or zs None) \<sigma>)) None (ys @ zs) None"
proof -
  have d: "set ys \<inter> set zs = {}" using assms(3) by simp
  have "dseg (set_next_opt (last_or None ys) (first_or zs None) \<sigma>) p zs None"
    using assms(2) disjoint_ends(1)[OF d] by (simp add: dseg_frame_opt)
  moreover have "dseg (set_next_opt (last_or None ys) (first_or zs None) \<sigma>) None ys (first_or zs None)"
    using assms by (simp add: dseg_relink_last)
  ultimately show ?thesis
    using assms(3) disjoint_ends(2)[OF d] by (simp add: dseg_append dseg_frame_opt dseg_relink_first)
qed

lemma append_dseg:
  assumes "dseg \<sigma> None ds None" "distinct ds" "f \<notin> set ds"
    and "\<And>b. b \<in> set ds \<Longrightarrow> \<tau> b = \<sigma> b" "n_prev (\<tau> f) = last_or None ds" "n_next (\<tau> f) = None"
  shows "dseg (set_next_opt (last_or None ds) (Some f) \<tau>) None (ds @ [f]) None"
proof -
  have "dseg \<tau> None ds None" using assms(1,4) dseg_cong[of ds \<tau> \<sigma>] by simp
  then have "dseg (set_next_opt (last_or None ds) (Some f) \<tau>) None ds (Some f)"
    using assms(2) by (rule dseg_relink_last)
  then show ?thesis using assms(3,5,6) by (cases ds rule: rev_cases) (auto simp: dseg_append)
qed

lemma repr_middle:
  assumes "repr (\<sigma>, q) (ys @ f # zs)"
  shows "n_prev (\<sigma> f) = last_or None ys" "n_next (\<sigma> f) = first_or zs None"
    "q_top q = Some f \<longleftrightarrow> ys = []" "q_bot q = Some f \<longleftrightarrow> zs = []"
    "q_top q = first_or ys (Some f)" "q_bot q = last_or (Some f) zs"
    "dseg \<sigma> None ys (Some f)" "dseg \<sigma> (Some f) zs None" "distinct (ys @ zs)"
    "f \<notin> set ys" "f \<notin> set zs"
  using assms by (cases ys; cases zs rule: rev_cases;
     auto simp: repr_def queue_repr_def dseg_append)+

lemma flow_unlink_repr:
  assumes r: "repr (\<sigma>, qs srcq) (ys @ f # zs)"
    and s': "flow_unlink f srcq (\<sigma>, qs) = (\<sigma>', qs')"
  shows "repr (\<sigma>', qs' srcq) (ys @ zs)" "null_links \<sigma>' f"
    "\<And>b. b \<notin> set (ys @ f # zs) \<Longrightarrow> \<sigma>' b = \<sigma> b" "\<And>c. c \<noteq> srcq \<Longrightarrow> qs' c = qs c"
proof -
  note m = repr_middle[OF r]
  let ?t = "set_prev_opt (first_or zs None) (last_or None ys)
              (set_next_opt (last_or None ys) (first_or zs None) \<sigma>)"
  have f_out: "f \<notin> set_option (last_or None ys)" "f \<notin> set_option (first_or zs None)"
    using m(10,11) by auto
  have sig: "\<sigma>' = set_prev f None (set_next f None ?t)"
    using s' m(1,2) f_out by (auto simp: flow_unlink_def Let_def opt_other)
  have "dseg ?t None (ys @ zs) None"
    by (rule relink_dseg[OF m(7,8,9)])
  then have "dseg \<sigma>' None (ys @ zs) None"
    unfolding sig using m(10,11) by (simp add: dseg_frame)
  moreover have "q_top (qs' srcq) = first_or (ys @ zs) None" "q_bot (qs' srcq) = last_or None (ys @ zs)"
    "q_len (qs' srcq) = of_nat (length (ys @ zs))"
    using s' m(1-6) r
    by (cases ys; cases zs rule: rev_cases; auto simp: flow_unlink_def Let_def repr_def queue_repr_def)+
  ultimately show "repr (\<sigma>', qs' srcq) (ys @ zs)"
    using m(9) by (simp add: repr_def queue_repr_def)
  show "null_links \<sigma>' f" unfolding sig by (simp add: null_links_def)
  show "\<sigma>' b = \<sigma> b" if "b \<notin> set (ys @ f # zs)" for b
    unfolding sig using that by (cases ys rule: rev_cases; cases zs) auto
  show "qs' c = qs c" if "c \<noteq> srcq" for c
    using s' that by (auto simp: flow_unlink_def Let_def)
qed

lemma flow_append_repr:
  assumes r: "repr (\<sigma>, qs dstq) ds" and f: "f \<notin> set ds"
    and s': "flow_append f dstq (\<sigma>, qs) = (\<sigma>', qs')"
  shows "repr (\<sigma>', qs' dstq) (ds @ [f])"
    "\<And>b. b \<notin> set (ds @ [f]) \<Longrightarrow> \<sigma>' b = \<sigma> b" "\<And>c. c \<noteq> dstq \<Longrightarrow> qs' c = qs c"
proof -
  let ?t = "set_next_opt (last_or None ds) (Some f) (set_prev f (last_or None ds) \<sigma>)"
  have q: "q_bot (qs dstq) = last_or None ds" "dseg \<sigma> None ds None"
    "q_top (qs dstq) = first_or ds None" "distinct ds"
    using r by (simp_all add: repr_def queue_repr_def)
  have sig: "\<sigma>' = set_next f None ?t"
    using s' q by (auto simp: flow_append_def Let_def)
  have "dseg ?t None ds (Some f)"
    using q f by (intro dseg_relink_last[where n=None]) (simp_all add: dseg_frame)
  moreover have "n_prev (?t f) = last_or None ds"
    using f by (cases ds rule: rev_cases) auto
  ultimately have "dseg \<sigma>' None (ds @ [f]) None"
    unfolding sig using f by (simp add: dseg_append dseg_frame)
  moreover have "q_top (qs' dstq) = first_or (ds @ [f]) None" "q_bot (qs' dstq) = Some f"
    "q_len (qs' dstq) = of_nat (length (ds @ [f]))"
    using s' q r by (cases ds; auto simp: flow_append_def Let_def repr_def queue_repr_def)+
  ultimately show "repr (\<sigma>', qs' dstq) (ds @ [f])"
    using q f by (simp add: repr_def queue_repr_def)
  show "\<sigma>' b = \<sigma> b" if "b \<notin> set (ds @ [f])" for b
    unfolding sig using that by (cases ds rule: rev_cases) auto
  show "qs' c = qs c" if "c \<noteq> dstq" for c
    using s' that by (auto simp: flow_append_def Let_def)
qed

lemma repr_cong:
  assumes "repr (\<sigma>, q) xs" "\<And>b. b \<in> set xs \<Longrightarrow> \<sigma>' b = \<sigma> b"
  shows "repr (\<sigma>', q) xs"
proof -
  have "dseg \<sigma>' None xs None = dseg \<sigma> None xs None"
    by (rule dseg_cong) (simp add: assms(2))
  then show ?thesis using assms(1) by (simp add: repr_def queue_repr_def)
qed

text \<open>
  The flow engine's queues as a whole: \<open>L c\<close> is the list of the queue at address \<open>c\<close>, and no flow is
  on two queues.
\<close>

definition queues_ok :: "store \<times> (addr \<Rightarrow> FlowQueue) \<Rightarrow> (addr \<Rightarrow> addr list) \<Rightarrow> bool" where
  "queues_ok s L \<longleftrightarrow> (\<forall>c. repr (fst s, snd s c) (L c)) \<and>
     (\<forall>c d. c \<noteq> d \<longrightarrow> set (L c) \<inter> set (L d) = {})"

definition move_flow :: "addr \<Rightarrow> addr option \<Rightarrow> addr \<Rightarrow> (addr \<Rightarrow> addr list) \<Rightarrow> addr \<Rightarrow> addr list" where
  "move_flow f srcq dstq L =
     (let L1 = (case srcq of None \<Rightarrow> L | Some sq \<Rightarrow> L(sq := remove1 f (L sq)))
      in L1(dstq := L1 dstq @ [f]))"

lemma queues_ok_unlink:
  assumes ok: "queues_ok s L" and f: "f \<in> set (L sq)"
  shows "queues_ok (flow_unlink f sq s) (L(sq := remove1 f (L sq)))"
    "\<And>c. f \<notin> set ((L(sq := remove1 f (L sq))) c)"
proof -
  obtain \<sigma> qs \<sigma>' qs' where s: "s = (\<sigma>, qs)" and s': "flow_unlink f sq (\<sigma>, qs) = (\<sigma>', qs')"
    by (metis prod.exhaust)
  have r: "repr (\<sigma>, qs c) (L c)" and disj: "c \<noteq> d \<Longrightarrow> set (L c) \<inter> set (L d) = {}" for c d
    using ok s unfolding queues_ok_def by auto
  obtain ys zs where split: "L sq = ys @ f # zs" using f by (meson split_list)
  have d: "distinct (L sq)" using repr_distinct[OF r] .
  have rem: "remove1 f (L sq) = ys @ zs" using d split by (simp add: remove1_append)
  note u = flow_unlink_repr[OF r[of sq, unfolded split] s']
  have "repr (\<sigma>', qs' c) ((L(sq := ys @ zs)) c)" for c
  proof (cases "c = sq")
    case True
    then show ?thesis using u(1) by simp
  next
    case False
    have "repr (\<sigma>', qs c) (L c)"
      using r[of c] disj[OF False] split by (intro repr_cong[OF r] u(3)) auto
    then show ?thesis using u(4)[OF False] False by simp
  qed
  moreover have "set ((L(sq := ys @ zs)) c) \<subseteq> set (L c)" for c using split by auto
  ultimately show "queues_ok (flow_unlink f sq s) (L(sq := remove1 f (L sq)))"
    unfolding s s' rem queues_ok_def using disj by (auto simp del: fun_upd_apply) blast+
  show "f \<notin> set ((L(sq := remove1 f (L sq))) c)" for c
    using d disj[of c sq] f by (auto simp: rem split)
qed

lemma queues_ok_append:
  assumes ok: "queues_ok s L" and f: "\<And>c. f \<notin> set (L c)"
  shows "queues_ok (flow_append f dq s) (L(dq := L dq @ [f]))"
proof -
  obtain \<sigma> qs \<sigma>' qs' where s: "s = (\<sigma>, qs)" and s': "flow_append f dq (\<sigma>, qs) = (\<sigma>', qs')"
    by (metis prod.exhaust)
  have r: "repr (\<sigma>, qs c) (L c)" and disj: "c \<noteq> d \<Longrightarrow> set (L c) \<inter> set (L d) = {}" for c d
    using ok s unfolding queues_ok_def by auto
  note a = flow_append_repr[OF r f s']
  have "repr (\<sigma>', qs' c) ((L(dq := L dq @ [f])) c)" for c
  proof (cases "c = dq")
    case True
    then show ?thesis using a(1) by simp
  next
    case False
    have "repr (\<sigma>', qs c) (L c)"
      using disj[OF False] f[of c] by (intro repr_cong[OF r] a(2)) auto
    then show ?thesis using a(3)[OF False] False by simp
  qed
  then show ?thesis
    unfolding s s' queues_ok_def using disj f by (auto simp: disjoint_iff)
qed

section \<open>Properties\<close>

text \<open>Claim C24: Any sequence of enqueue and dequeue calls on the packet queue, started in a state that
  represents the list \<open>xs\<close>, returns what the list returns: packets come out oldest first, each one
  once, and \<open>NULL\<close> exactly when the queue is empty. A packet may be enqueued when it is not on the
  queue, whatever its link fields hold, and fewer than 65536 packets may be queued at once.\<close>

theorem packet_queue_fifo:
  assumes "repr s xs" "length xs < 65536" "good_ops 65536 xs ops"
  shows "queue_run (\<lambda>a. PacketEnqueue (Some a)) (\<lambda>s. Some (PacketDequeue s)) s ops = Some (list_run xs ops)"
  by (rule pq.run_refines) (use assms in \<open>simp_all add: pq.rel_def\<close>)

definition fresh_store :: store where
  "fresh_store a = \<lparr>n_next = None, n_prev = None\<rparr>"

lemma repr_fresh: "repr (\<sigma>, \<lparr>q_top = None, q_bot = None, q_len = 0\<rparr>) []"
  by (simp add: repr_def queue_repr_Nil)

lemma packet_queue_fifo_witness:
  "queue_run (\<lambda>a. PacketEnqueue (Some a)) (\<lambda>s. Some (PacketDequeue s))
     (fresh_store, \<lparr>q_top = None, q_bot = None, q_len = 0\<rparr>)
     [Enq 1, Enq 2, Deq, Enq 1, Deq, Deq, Deq] =
   Some [None, None, Some 1, None, Some 2, Some 1, None]"
  using packet_queue_fifo[OF repr_fresh[of fresh_store], of "[Enq 1, Enq 2, Deq, Enq 1, Deq, Deq, Deq]"]
  by simp



text \<open>Claim C17: \<open>FlowRequeue\<close> keeps the flow queues consistent, whether the source and the destination
  are different queues, the same queue, or the source is \<open>NULL\<close> (a flow that is on no queue): every
  queue stays a well-linked list with an exact length, no flow is on two queues, and the flow has
  moved from its place in the source to the bottom of the destination while all else stays put.\<close>

theorem flow_requeue_moves:
  assumes "queues_ok s L"
    and "case srcq of Some sq \<Rightarrow> f \<in> set (L sq) | None \<Rightarrow> \<forall>c. f \<notin> set (L c)"
  shows "queues_ok (FlowRequeue f srcq dstq s) (move_flow f srcq dstq L)"
proof (cases srcq)
  case None
  then show ?thesis using queues_ok_append[OF assms(1), of f dstq] assms(2)
    by (simp add: FlowRequeue_def move_flow_def)
next
  case (Some sq)
  then have f: "f \<in> set (L sq)" using assms(2) by simp
  show ?thesis using queues_ok_append[OF queues_ok_unlink[OF assms(1) f], of dstq] Some
    by (simp add: FlowRequeue_def move_flow_def Let_def del: fun_upd_apply)
qed

definition example_store :: store where
  "example_store = set_next 2 (Some 3) (set_prev 2 (Some 1) (set_next 1 (Some 2) (set_prev 3 (Some 2) fresh_store)))"

definition example_queues :: "addr \<Rightarrow> FlowQueue" where
  "example_queues c = (if c = 0 then \<lparr>q_top = Some 1, q_bot = Some 3, q_len = 3\<rparr>
                       else \<lparr>q_top = None, q_bot = None, q_len = 0\<rparr>)"

lemma example_queues_ok: "queues_ok (example_store, example_queues) (\<lambda>c. if c = 0 then [1, 2, 3] else [])"
  by (auto simp: queues_ok_def example_store_def example_queues_def fresh_store_def repr_def queue_repr_def)

lemma flow_requeue_moves_witness:
  "queues_ok (FlowRequeue 2 (Some 0) 5 (example_store, example_queues))
     (move_flow 2 (Some 0) 5 (\<lambda>c. if c = 0 then [1, 2, 3] else []))"
  by (rule flow_requeue_moves[OF example_queues_ok]) simp

lemma validate_walk_dseg: "dseg \<sigma> p xs None \<Longrightarrow> validate_walk \<sigma> (first_or xs None) p = Some True"
proof (induction xs arbitrary: p)
  case Nil
  then show ?case by (simp add: validate_walk.simps)
next
  case (Cons x xs)
  then show ?case by (subst validate_walk.simps) simp
qed

lemma last_or_in: "last_or (Some b) ys = Some a \<Longrightarrow> a = b \<or> a \<in> set ys"
  by (cases ys rule: rev_cases) auto

lemma len_tests:
  assumes "n < 65536"
  shows "(of_nat n :: u16) = 0 \<longleftrightarrow> n = 0" "(of_nat n :: u16) = 1 \<longleftrightarrow> n = 1"
    "(of_nat n :: u16) = 2 \<longleftrightarrow> n = 2"
  using assms of_nat_eq_small[of n 0, where 'l=16] of_nat_eq_small[of n 1, where 'l=16]
    of_nat_eq_small[of n 2, where 'l=16] by simp_all

text \<open>The consistency check of the debug build accepts every packet queue the operations can
  reach: no \<open>BUG_ON\<close> fires, nothing is dereferenced through \<open>NULL\<close> and the walk ends.\<close>

theorem validate_debug_accepts:
  assumes r: "repr s xs" and n: "length xs < 65536"
  shows "PacketQueueValidateDebug s = Some True"
proof -
  obtain \<sigma> q where s: "s = (\<sigma>, q)" by (cases s)
  have q: "dseg \<sigma> None xs None" "distinct xs" "q_top q = first_or xs None" "q_bot q = last_or None xs"
    "q_len q = of_nat (length xs)"
    using r s by (simp_all add: repr_def queue_repr_def)
  note len = len_tests[OF n]
  consider "xs = []" | a where "xs = [a]" | a b where "xs = [a, b]"
    | a b c ys where "xs = a # b # ys @ [c]"
    by (metis list.exhaust rev_exhaust append_Cons append_Nil)
  then show ?thesis
  proof cases
    case 4
    have w: "validate_walk \<sigma> (Some a) None = Some True"
      using validate_walk_dseg[OF q(1)] 4 by simp
    have "n_prev (\<sigma> a) = None" "n_next (\<sigma> c) = None" "n_next (\<sigma> a) = Some b" "n_prev (\<sigma> c) \<noteq> Some a"
      "a \<noteq> c" "b \<noteq> c"
      using q(1,2) 4 by (auto simp: dseg_append dest: last_or_in)
    then show ?thesis using q len w 4
      by (simp add: PacketQueueValidateDebug_def s del: of_nat_Suc length_append length_Cons)
  qed (use q len in \<open>simp_all add: PacketQueueValidateDebug_def s\<close>)
qed

lemma validate_debug_accepts_witness:
  "PacketQueueValidateDebug (example_store, \<lparr>q_top = Some 1, q_bot = Some 3, q_len = 3\<rparr>) = Some True"
  by (rule validate_debug_accepts[of _ "[1, 2, 3]"])
     (simp_all add: repr_def queue_repr_def example_store_def fresh_store_def)

lemma packet_enqueue_many:
  "repr (fold (\<lambda>a. PacketEnqueue (Some a)) [0..<n] (\<sigma>, \<lparr>q_top = None, q_bot = None, q_len = 0\<rparr>)) (rev [0..<n])"
  by (induction n) (simp_all add: repr_fresh PacketEnqueue_repr)

lemma ends_of_upt:
  "0 < n \<Longrightarrow> first_or (rev [0..<n]) None = Some (n - 1)"
  "0 < n \<Longrightarrow> last_or None (rev [0..<n]) = Some 0"
  by (cases n; simp) (simp add: upt_conv_Cons)

text \<open>The 16-bit length of the packet queue wraps: after 65536 packets have been enqueued on an
  empty queue, \<open>PacketDequeue\<close> returns \<open>NULL\<close> and leaves the queue as it is, although every packet
  is still linked.\<close>

theorem packet_queue_len_wraps:
  "let s = fold (\<lambda>a. PacketEnqueue (Some a)) [0..<65536] (\<sigma>, \<lparr>q_top = None, q_bot = None, q_len = 0\<rparr>)
   in PacketDequeue s = (None, s) \<and> q_top (snd s) = Some 65535 \<and> q_bot (snd s) = Some 0"
proof -
  define s where "s = fold (\<lambda>a. PacketEnqueue (Some a)) [0..<65536] (\<sigma>, \<lparr>q_top = None, q_bot = None, q_len = 0\<rparr>)"
  define xs where "xs = rev [0..<65536::nat]"
  have "repr s xs" unfolding s_def xs_def by (rule packet_enqueue_many)
  then have q: "q_top (snd s) = first_or xs None" "q_bot (snd s) = last_or None xs"
    "q_len (snd s) = of_nat (length xs)"
    by (simp_all add: repr_def queue_repr_def)
  have "q_len (snd s) = 0" using q(3) by (simp add: xs_def)
  moreover have "q_top (snd s) = Some 65535" "q_bot (snd s) = Some 0"
    using q(1,2) ends_of_upt[of 65536] by (simp_all add: xs_def)
  ultimately have "PacketDequeue s = (None, s) \<and> q_top (snd s) = Some 65535 \<and> q_bot (snd s) = Some 0"
    by (cases s) (simp add: PacketDequeue_def)
  then show ?thesis unfolding s_def[symmetric] Let_def .
qed

end
