(* ===== verification/Pool.thy ===== *)
theory Pool
  imports Prelude
begin

text \<open>
  The object pool (\<open>src/util-pool.c\<close>): a fixed number of buckets (or none, when the size is 0) on a
  list of filled buckets and a list of empty ones, with counters. The buckets never leave the pool,
  so a list of buckets is the list of their data pointers, \<open>NULL\<close> being \<open>None\<close>. The callbacks
  \<open>Alloc\<close> and \<open>Free\<close> are functions on a state \<open>'s\<close> of the client.
\<close>

section \<open>The pool and its operations\<close>

record ('a, 'd, 's) Pool =
  max_buckets :: u32
  allocated :: u32
  alloc_list :: "'d option list"
  alloc_list_size :: u32
  empty_list :: "'d option list"
  empty_list_size :: u32
  Alloc :: "'a \<Rightarrow> 's \<Rightarrow> 'd option \<times> 's"
  AllocData :: 'a
  Free :: "('d option \<Rightarrow> 's \<Rightarrow> 's) option"
  outstanding :: u32
  max_outstanding :: u32

text \<open>
  \<open>PoolInit\<close>: \<open>mok n\<close> says whether the \<open>n\<close>-th call of \<open>SCMalloc\<close> succeeds; the first one is for the
  pool itself. The two loops are recursions on the iterations left.
\<close>

fun pool_fill_empty :: "(nat \<Rightarrow> bool) \<Rightarrow> nat \<Rightarrow> nat \<Rightarrow> ('a, 'd, 's) Pool \<Rightarrow> ('a, 'd, 's) Pool option" where
  "pool_fill_empty mok m 0 p = Some p"
| "pool_fill_empty mok m (Suc n) p =
     (if \<not> mok m then None
      else pool_fill_empty mok (m + 1) n
             (p\<lparr>empty_list := None # empty_list p, empty_list_size := empty_list_size p + 1\<rparr>))"

fun pool_prealloc :: "(nat \<Rightarrow> bool) \<Rightarrow> nat \<Rightarrow> u32 \<Rightarrow> nat \<Rightarrow> ('a, 'd, 's) Pool \<times> 's
    \<Rightarrow> (('a, 'd, 's) Pool \<times> 's) option" where
  "pool_prealloc mok m sz 0 ps = Some ps"
| "pool_prealloc mok m sz (Suc n) (p, s) =
     (if sz = 0 then
        (if \<not> mok m then None
         else (case Alloc p (AllocData p) s of (d, s') \<Rightarrow>
           pool_prealloc mok (m + 1) sz n
             (p\<lparr>allocated := allocated p + 1, alloc_list := d # alloc_list p,
                alloc_list_size := alloc_list_size p + 1\<rparr>, s')))
      else
        (case empty_list p of
           [] \<Rightarrow> None
         | _ # es \<Rightarrow> (case Alloc p (AllocData p) s of (d, s') \<Rightarrow>
             pool_prealloc mok m sz n
               (p\<lparr>empty_list := es, empty_list_size := empty_list_size p - 1,
                  allocated := allocated p + 1, alloc_list := d # alloc_list p,
                  alloc_list_size := alloc_list_size p + 1\<rparr>, s'))))"

definition PoolInit :: "(nat \<Rightarrow> bool) \<Rightarrow> u32 \<Rightarrow> u32 \<Rightarrow> ('a \<Rightarrow> 's \<Rightarrow> 'd option \<times> 's) option \<Rightarrow> 'a
    \<Rightarrow> ('d option \<Rightarrow> 's \<Rightarrow> 's) option \<Rightarrow> 's \<Rightarrow> (('a, 'd, 's) Pool \<times> 's) option" where
  "PoolInit mok sz prealloc_size al adata fr s =
     (case al of
        None \<Rightarrow> None
      | Some f \<Rightarrow>
          if sz \<noteq> 0 \<and> prealloc_size > sz then None
          else if \<not> mok 0 then None
          else do {
            p \<leftarrow> pool_fill_empty mok 1 (unat sz)
                   \<lparr>max_buckets = sz, allocated = 0, alloc_list = [], alloc_list_size = 0,
                    empty_list = [], empty_list_size = 0, Alloc = f, AllocData = adata, Free = fr,
                    outstanding = 0, max_outstanding = 0\<rparr>;
            pool_prealloc mok (1 + unat sz) sz (unat prealloc_size) (p, s)
          })"

lemma pool_loops_numeral [simp]:
  "pool_fill_empty mok m (numeral k) p =
     (if \<not> mok m then None
      else pool_fill_empty mok (m + 1) (pred_numeral k)
             (p\<lparr>empty_list := None # empty_list p, empty_list_size := empty_list_size p + 1\<rparr>))"
  by (simp add: numeral_eq_Suc)

definition note_outstanding :: "('a, 'd, 's) Pool \<Rightarrow> ('a, 'd, 's) Pool" where
  "note_outstanding p =
     (let o' = outstanding p + 1 in
      p\<lparr>outstanding := o',
        max_outstanding := (if o' > max_outstanding p then o' else max_outstanding p)\<rparr>)"

definition PoolGet :: "('a, 'd, 's) Pool \<times> 's \<Rightarrow> 'd option \<times> ('a, 'd, 's) Pool \<times> 's" where
  "PoolGet ps =
     (case ps of (p, s) \<Rightarrow>
        (case alloc_list p of
           d # ds \<Rightarrow>
             (d, note_outstanding
                  (p\<lparr>alloc_list := ds, alloc_list_size := alloc_list_size p - 1,
                     empty_list := None # empty_list p, empty_list_size := empty_list_size p + 1\<rparr>), s)
         | [] \<Rightarrow>
             if max_buckets p = 0 \<or> allocated p < max_buckets p then
               (let p1 = note_outstanding (p\<lparr>allocated := allocated p + 1\<rparr>) in
                case Alloc p1 (AllocData p1) s of (d, s') \<Rightarrow> (d, p1, s'))
             else (None, p, s)))"

definition PoolReturn :: "'d option \<Rightarrow> ('a, 'd, 's) Pool \<times> 's \<Rightarrow> ('a, 'd, 's) Pool \<times> 's" where
  "PoolReturn d ps =
     (case ps of (p, s) \<Rightarrow>
        (case empty_list p of
           [] \<Rightarrow>
             (p\<lparr>allocated := allocated p - 1, outstanding := outstanding p - 1\<rparr>,
              (case Free p of None \<Rightarrow> s | Some fr \<Rightarrow> fr d s))
         | _ # es \<Rightarrow>
             (p\<lparr>empty_list := es, empty_list_size := empty_list_size p - 1,
                alloc_list := d # alloc_list p, alloc_list_size := alloc_list_size p + 1,
                outstanding := outstanding p - 1\<rparr>, s)))"

text \<open>
  \<open>PoolFree\<close> frees the data of every filled bucket; it calls \<open>Free\<close> without a test, so with no
  \<open>Free\<close> callback the first call jumps through \<open>NULL\<close>: the result \<open>None\<close>.
\<close>

fun pool_free_alloc :: "('d option \<Rightarrow> 's \<Rightarrow> 's) option \<Rightarrow> 'd option list \<Rightarrow> 's \<Rightarrow> 's option" where
  "pool_free_alloc fr [] s = Some s"
| "pool_free_alloc fr (d # ds) s =
     (case fr of None \<Rightarrow> None | Some f \<Rightarrow> pool_free_alloc fr ds (f d s))"

fun pool_free_empty :: "('d option \<Rightarrow> 's \<Rightarrow> 's) option \<Rightarrow> 'd option list \<Rightarrow> 's \<Rightarrow> 's option" where
  "pool_free_empty fr [] s = Some s"
| "pool_free_empty fr (d # ds) s =
     (if d \<noteq> None then (case fr of None \<Rightarrow> None | Some f \<Rightarrow> pool_free_empty fr ds (f d s))
      else pool_free_empty fr ds s)"

definition PoolFree :: "('a, 'd, 's) Pool option \<Rightarrow> 's \<Rightarrow> 's option" where
  "PoolFree p s =
     (case p of
        None \<Rightarrow> Some s
      | Some p \<Rightarrow> do { s1 \<leftarrow> pool_free_alloc (Free p) (alloc_list p) s;
                         pool_free_empty (Free p) (empty_list p) s1 })"

section \<open>The counters\<close>

text \<open>
  What the counters say, as words: \<open>allocated\<close> may wrap in an unlimited pool, but the relation
  between them never breaks. The empty buckets hold no data.
\<close>

definition counters_ok :: "('a, 'd, 's) Pool \<Rightarrow> bool" where
  "counters_ok p \<longleftrightarrow> alloc_list_size p = of_nat (length (alloc_list p)) \<and>
     empty_list_size p = of_nat (length (empty_list p)) \<and>
     allocated p = outstanding p + alloc_list_size p \<and> set (empty_list p) \<subseteq> {None}"

lemma note_outstanding_simps [simp]:
  "outstanding (note_outstanding p) = outstanding p + 1"
  "allocated (note_outstanding p) = allocated p" "alloc_list (note_outstanding p) = alloc_list p"
  "alloc_list_size (note_outstanding p) = alloc_list_size p"
  "empty_list (note_outstanding p) = empty_list p"
  "empty_list_size (note_outstanding p) = empty_list_size p"
  "max_buckets (note_outstanding p) = max_buckets p" "Alloc (note_outstanding p) = Alloc p"
  "AllocData (note_outstanding p) = AllocData p" "Free (note_outstanding p) = Free p"
  "max_outstanding (note_outstanding p) = max (outstanding p + 1) (max_outstanding p)"
  by (auto simp: note_outstanding_def Let_def max_def)

lemma counters_get: "counters_ok p \<Longrightarrow> PoolGet (p, s) = (d, p', s') \<Longrightarrow> counters_ok p'"
  by (auto simp: PoolGet_def counters_ok_def Let_def split: list.splits if_splits prod.splits)

lemma counters_return: "counters_ok p \<Longrightarrow> PoolReturn d (p, s) = (p', s') \<Longrightarrow> counters_ok p'"
  by (auto simp: PoolReturn_def counters_ok_def split: list.splits)

section \<open>Ownership of the data\<close>

text \<open>
  The contract of the callbacks: \<open>live s\<close> is the set of the objects that exist in the client's state
  \<open>s\<close>; \<open>Alloc\<close> makes a new one, or fails and makes none; \<open>Free\<close>, when there is one, removes it. With
  \<open>callbacks_ok\<close> the allocator also never fails.
\<close>

definition callbacks_fresh :: "('s \<Rightarrow> 'd set) \<Rightarrow> ('a \<Rightarrow> 's \<Rightarrow> 'd option \<times> 's) \<Rightarrow> 'a
    \<Rightarrow> ('d option \<Rightarrow> 's \<Rightarrow> 's) option \<Rightarrow> bool" where
  "callbacks_fresh live al ad fr \<longleftrightarrow>
     (\<forall>s. (\<exists>d s'. al ad s = (Some d, s') \<and> d \<notin> live s \<and> live s' = insert d (live s)) \<or>
          (\<exists>s'. al ad s = (None, s') \<and> live s' = live s)) \<and>
     (\<forall>f d s. fr = Some f \<longrightarrow> live (f (Some d) s) = live s - {d})"

definition never_fails :: "('a \<Rightarrow> 's \<Rightarrow> 'd option \<times> 's) \<Rightarrow> 'a \<Rightarrow> bool" where
  "never_fails al ad \<longleftrightarrow> (\<forall>s. fst (al ad s) \<noteq> None)"

definition callbacks_ok :: "('s \<Rightarrow> 'd set) \<Rightarrow> ('a \<Rightarrow> 's \<Rightarrow> 'd option \<times> 's) \<Rightarrow> 'a
    \<Rightarrow> ('d option \<Rightarrow> 's \<Rightarrow> 's) option \<Rightarrow> bool" where
  "callbacks_ok live al ad fr \<longleftrightarrow>
     (\<forall>s. \<exists>d s'. al ad s = (Some d, s') \<and> d \<notin> live s \<and> live s' = insert d (live s)) \<and>
     (\<forall>f d s. fr = Some f \<longrightarrow> live (f (Some d) s) = live s - {d})"

lemma callbacks_ok_fresh: "callbacks_ok live al ad fr \<Longrightarrow> callbacks_fresh live al ad fr \<and> never_fails al ad"
  unfolding callbacks_ok_def callbacks_fresh_def never_fails_def by (metis fst_conv option.distinct(1))

definition fresh_alloc :: "('s \<Rightarrow> 'd set) \<Rightarrow> ('a, 'd, 's) Pool \<Rightarrow> bool" where
  "fresh_alloc live p = callbacks_fresh live (Alloc p) (AllocData p) (Free p)"

lemma fresh_alloc_cases:
  assumes "fresh_alloc live p"
  obtains (made) d t where "Alloc p (AllocData p) s = (Some d, t)" "d \<notin> live s" "live t = insert d (live s)"
  | (failed) t where "Alloc p (AllocData p) s = (None, t)" "live t = live s" "\<not> never_fails (Alloc p) (AllocData p)"
  using assms unfolding fresh_alloc_def callbacks_fresh_def never_fails_def by (metis fst_conv)

text \<open>
  The objects in the filled buckets; after a failed \<open>Alloc\<close> a filled bucket holds \<open>NULL\<close>. \<open>lost\<close> counts
  the calls of \<open>PoolGet\<close> that were counted as outstanding though they returned \<open>NULL\<close>.
\<close>

fun objects :: "'d option list \<Rightarrow> 'd list" where
  "objects [] = []"
| "objects (None # xs) = objects xs"
| "objects (Some d # xs) = d # objects xs"

lemma length_objects: "None \<notin> set xs \<Longrightarrow> length (objects xs) = length xs"
  by (induction xs rule: objects.induct) auto

definition held :: "('a, 'd, 's) Pool \<Rightarrow> 'd list" where
  "held p = objects (alloc_list p)"

definition own :: "('s \<Rightarrow> 'd set) \<Rightarrow> ('a, 'd, 's) Pool \<times> 's \<Rightarrow> 'd list \<Rightarrow> nat \<Rightarrow> bool" where
  "own live ps out lost \<longleftrightarrow>
     counters_ok (fst ps) \<and> outstanding (fst ps) = of_nat (length out + lost) \<and>
     distinct (held (fst ps) @ out) \<and> set (held (fst ps) @ out) \<subseteq> live (snd ps) \<and>
     (max_buckets (fst ps) \<noteq> 0 \<longrightarrow>
        length (alloc_list (fst ps)) + length (empty_list (fst ps)) = unat (max_buckets (fst ps)) \<and>
        length (alloc_list (fst ps)) + length out + lost \<le> unat (max_buckets (fst ps))) \<and>
     (never_fails (Alloc (fst ps)) (AllocData (fst ps)) \<longrightarrow> lost = 0 \<and> None \<notin> set (alloc_list (fst ps)))"

text \<open>
  The runs of a pool: what \<open>PoolInit\<close> returns, then any \<open>PoolGet\<close>, and \<open>PoolReturn\<close> of data that is
  outstanding. \<open>out\<close> is the data the clients hold; \<open>lost\<close> counts the calls of \<open>PoolGet\<close> that returned \<open>NULL\<close>
  although the pool was not full, because the allocator had failed.
\<close>

definition pool_full :: "('a, 'd, 's) Pool \<Rightarrow> bool" where
  "pool_full p \<longleftrightarrow> alloc_list p = [] \<and> max_buckets p \<noteq> 0 \<and> max_buckets p \<le> allocated p"

inductive pool_run :: "(nat \<Rightarrow> bool) \<Rightarrow> u32 \<Rightarrow> u32 \<Rightarrow> ('a \<Rightarrow> 's \<Rightarrow> 'd option \<times> 's) \<Rightarrow> 'a
    \<Rightarrow> ('d option \<Rightarrow> 's \<Rightarrow> 's) option \<Rightarrow> 's \<Rightarrow> ('a, 'd, 's) Pool \<times> 's \<Rightarrow> 'd list \<Rightarrow> nat \<Rightarrow> bool"
  for mok sz pre al ad fr s0 where
  init: "PoolInit mok sz pre (Some al) ad fr s0 = Some ps \<Longrightarrow> pool_run mok sz pre al ad fr s0 ps [] 0"
| get: "pool_run mok sz pre al ad fr s0 ps out lost \<Longrightarrow> PoolGet ps = (Some d, ps') \<Longrightarrow>
     pool_run mok sz pre al ad fr s0 ps' (d # out) lost"
| get_null: "pool_run mok sz pre al ad fr s0 ps out lost \<Longrightarrow> PoolGet ps = (None, ps') \<Longrightarrow>
     pool_run mok sz pre al ad fr s0 ps' out (if pool_full (fst ps) then lost else Suc lost)"
| ret: "pool_run mok sz pre al ad fr s0 ps out lost \<Longrightarrow> d \<in> set out \<Longrightarrow>
     pool_run mok sz pre al ad fr s0 (PoolReturn (Some d) ps) (remove1 d out) lost"

definition pool_reach :: "(nat \<Rightarrow> bool) \<Rightarrow> u32 \<Rightarrow> u32 \<Rightarrow> ('a \<Rightarrow> 's \<Rightarrow> 'd option \<times> 's) \<Rightarrow> 'a
    \<Rightarrow> ('d option \<Rightarrow> 's \<Rightarrow> 's) option \<Rightarrow> 's \<Rightarrow> ('a, 'd, 's) Pool \<times> 's \<Rightarrow> 'd list \<Rightarrow> bool" where
  "pool_reach mok sz pre al ad fr s0 ps out \<longleftrightarrow> (\<exists>lost. pool_run mok sz pre al ad fr s0 ps out lost)"

lemma fill_empty:
  "pool_fill_empty mok m n p = Some p' \<Longrightarrow>
     p' = p\<lparr>empty_list := replicate n None @ empty_list p, empty_list_size := empty_list_size p + of_nat n\<rparr>"
proof (induction n arbitrary: m p)
  case 0
  then show ?case by simp
next
  case (Suc n)
  then have "p' = p\<lparr>empty_list := replicate n None @ None # empty_list p,
      empty_list_size := empty_list_size p + 1 + of_nat n\<rparr>"
    by (simp split: if_splits) (drule Suc.IH, simp)
  then show ?case by (simp add: replicate_app_Cons_same add.assoc)
qed

text \<open>What stays the same in every run.\<close>

definition same_conf :: "('a, 'd, 's) Pool \<Rightarrow> ('a, 'd, 's) Pool \<Rightarrow> bool" where
  "same_conf p q \<longleftrightarrow> max_buckets p = max_buckets q \<and> Alloc p = Alloc q \<and> AllocData p = AllocData q \<and>
     Free p = Free q"

lemma fresh_alloc_cong: "same_conf p q \<Longrightarrow> fresh_alloc live p = fresh_alloc live q"
  by (simp add: same_conf_def fresh_alloc_def)

lemma own_empty: "own live ps out k \<Longrightarrow> x \<in> set (empty_list (fst ps)) \<Longrightarrow> x = None"
  by (auto simp: own_def counters_ok_def)

lemma prealloc_own:
  "pool_prealloc mok m sz n (p, s) = Some (p', s') \<Longrightarrow> own live (p, s) [] 0 \<Longrightarrow> fresh_alloc live p \<Longrightarrow>
   max_buckets p = sz \<Longrightarrow> own live (p', s') [] 0 \<and> same_conf p p'"
proof (induction n arbitrary: m p s)
  case 0
  then show ?case by (simp add: same_conf_def)
next
  case (Suc n)
  obtain d t where al: "Alloc p (AllocData p) s = (d, t)" by fastforce
  have d: "case d of Some x \<Rightarrow> x \<notin> live s \<and> live t = insert x (live s)
      | None \<Rightarrow> live t = live s \<and> \<not> never_fails (Alloc p) (AllocData p)"
    using al by (cases rule: fresh_alloc_cases[OF Suc.prems(3), of s]) auto
  show ?case
  proof (cases "sz = 0")
    case True
    let ?q = "p\<lparr>allocated := allocated p + 1, alloc_list := d # alloc_list p,
                alloc_list_size := alloc_list_size p + 1\<rparr>"
    have "own live (?q, t) [] 0"
      using Suc.prems(2,4) d True by (cases d) (auto simp: own_def held_def counters_ok_def)
    moreover have "same_conf p ?q" by (simp add: same_conf_def)
    ultimately show ?thesis
      using Suc.IH[of "m + 1" ?q t] Suc.prems True al fresh_alloc_cong[of p ?q live]
      by (auto simp: same_conf_def split: if_splits)
  next
    case False
    then obtain es where es: "empty_list p = None # es"
      using Suc.prems(1) own_empty[OF Suc.prems(2)] by (cases "empty_list p") auto
    let ?q = "p\<lparr>empty_list := es, empty_list_size := empty_list_size p - 1,
                allocated := allocated p + 1, alloc_list := d # alloc_list p,
                alloc_list_size := alloc_list_size p + 1\<rparr>"
    have "own live (?q, t) [] 0"
      using Suc.prems(2,4) d False es by (cases d) (auto simp: own_def held_def counters_ok_def)
    moreover have "same_conf p ?q" by (simp add: same_conf_def)
    ultimately show ?thesis
      using Suc.IH[of m ?q t] Suc.prems False al es fresh_alloc_cong[of p ?q live]
      by (auto simp: same_conf_def)
  qed
qed

lemma init_own:
  assumes "PoolInit mok sz pre (Some al) ad fr s0 = Some (p, s)"
    and "callbacks_fresh live al ad fr"
  shows "own live (p, s) [] 0 \<and> max_buckets p = sz \<and> Alloc p = al \<and> AllocData p = ad \<and> Free p = fr"
proof -
  define e where "e = \<lparr>max_buckets = sz, allocated = 0, alloc_list = [], alloc_list_size = 0,
                    empty_list = replicate (unat sz) None, empty_list_size = sz, Alloc = al,
                    AllocData = ad, Free = fr, outstanding = 0, max_outstanding = 0\<rparr>"
  have pre: "pool_prealloc mok (1 + unat sz) sz (unat pre) (e, s0) = Some (p, s)"
    using assms(1) unfolding PoolInit_def e_def
    by (auto split: if_splits bind_splits dest!: fill_empty)
  have "own live (e, s0) [] 0" by (simp add: own_def held_def e_def counters_ok_def set_replicate_conv_if)
  then have "own live (p, s) [] 0 \<and> same_conf e p"
    using prealloc_own[OF pre] assms(2) by (simp add: e_def fresh_alloc_def)
  then show ?thesis by (simp add: same_conf_def e_def)
qed

text \<open>\<open>PoolGet\<close> gives an object away, refuses and changes nothing, or counts a \<open>NULL\<close>.\<close>

lemma get_own:
  assumes "own live (p, s) out k" "fresh_alloc live p" "PoolGet (p, s) = (r, p', s')"
  shows "same_conf p p' \<and> (case r of Some d \<Rightarrow> own live (p', s') (d # out) k
     | None \<Rightarrow> pool_full p \<and> p' = p \<and> s' = s \<and> max_buckets p \<noteq> 0 \<and> length out + k = unat (max_buckets p) \<or>
         \<not> pool_full p \<and> own live (p', s') out (Suc k) \<and> \<not> never_fails (Alloc p) (AllocData p))"
proof (cases "alloc_list p")
  case Nil
  have out: "allocated p = of_nat (length out + k)" "max_buckets p \<noteq> 0 \<Longrightarrow> length out + k \<le> unat (max_buckets p)"
    "distinct out" "set out \<subseteq> live s"
    using assms(1) Nil by (auto simp: own_def held_def counters_ok_def)
  have "length out + k < 4294967296" if "max_buckets p \<noteq> 0"
    using out(2)[OF that] unat_bound[of "max_buckets p"] by simp
  then have bound: "max_buckets p \<noteq> 0 \<Longrightarrow> unat (allocated p) = length out + k"
    unfolding out(1) by (simp only: unat_of_nat) simp
  show ?thesis
  proof (cases "max_buckets p = 0 \<or> allocated p < max_buckets p")
    case True
    then have lt: "max_buckets p \<noteq> 0 \<Longrightarrow> Suc (length out + k) \<le> unat (max_buckets p)"
      using bound by (simp add: word_less_nat_alt)
    let ?p = "note_outstanding (p\<lparr>allocated := allocated p + 1\<rparr>)"
    consider (made) d t where "Alloc p (AllocData p) s = (Some d, t)" "d \<notin> live s" "live t = insert d (live s)"
      | (failed) t where "Alloc p (AllocData p) s = (None, t)" "live t = live s" "\<not> never_fails (Alloc p) (AllocData p)"
      by (rule fresh_alloc_cases[OF assms(2)])
    then show ?thesis
    proof cases
      case made
      then have r: "r = Some d" "p' = ?p" "s' = t"
        using assms(3) Nil True by (simp_all add: PoolGet_def Let_def)
      have "own live (p', s') (d # out) k"
        using assms(1) Nil made(2,3) out(3,4) lt
        by (simp add: own_def held_def counters_ok_def r subset_insertI2 add.assoc) blast
      then show ?thesis using r by (simp add: same_conf_def)
    next
      case failed
      then have r: "r = None" "p' = ?p" "s' = t"
        using assms(3) Nil True by (simp_all add: PoolGet_def Let_def)
      have "own live (p', s') out (Suc k)"
        using assms(1) Nil failed(2,3) out(3,4) lt
        by (simp add: own_def held_def counters_ok_def r)
      moreover have "\<not> pool_full p" using True by (auto simp: pool_full_def)
      ultimately show ?thesis using r failed(3) by (simp add: same_conf_def)
    qed
  next
    case False
    then have "length out + k = unat (max_buckets p)" using out bound by (simp add: word_less_nat_alt)
    then show ?thesis using assms(3) Nil False by (auto simp: PoolGet_def same_conf_def pool_full_def)
  qed
next
  case (Cons x xs)
  let ?q = "p\<lparr>alloc_list := xs, alloc_list_size := alloc_list_size p - 1,
              empty_list := None # empty_list p, empty_list_size := empty_list_size p + 1\<rparr>"
  have r: "r = x" "p' = note_outstanding ?q" "s' = s"
    using assms(3) Cons by (simp_all add: PoolGet_def)
  show ?thesis
  proof (cases x)
    case None
    then have "own live (p', s') out (Suc k) \<and> \<not> never_fails (Alloc p) (AllocData p)"
      using assms(1) Cons r unfolding own_def by (auto simp: held_def counters_ok_def)
    then show ?thesis using r None Cons by (simp add: same_conf_def pool_full_def)
  next
    case (Some d)
    then have "own live (p', s') (d # out) k"
      using assms(1) Cons r unfolding own_def by (auto simp: held_def counters_ok_def)
    then show ?thesis using r Some by (simp add: same_conf_def)
  qed
qed

lemma return_own:
  assumes "own live (p, s) out k" "fresh_alloc live p" "d \<in> set out" "PoolReturn (Some d) (p, s) = (p', s')"
  shows "same_conf p p' \<and> own live (p', s') (remove1 d out) k"
proof -
  have d: "distinct out" "d \<notin> set (held p)" "d \<notin> set (remove1 d out)"
    "length out = Suc (length (remove1 d out))" "set (remove1 d out) \<subseteq> set out"
    using assms(1,3) length_pos_if_in_set[OF assms(3)]
    by (auto simp: own_def length_remove1 dest: notin_set_remove1)
  have disj: "set (held p) \<inter> set out = {}" "d \<in> live s" "set (held p) \<subseteq> live s"
    using assms(1,3) by (auto simp: own_def)
  show ?thesis
  proof (cases "empty_list p")
    case Nil
    then have "max_buckets p = 0" using assms(1) d(4) by (auto simp: own_def)
    moreover have "Free p = Some f \<Longrightarrow> live (f (Some d) s) = live s - {d}" for f
      using assms(2) by (simp add: fresh_alloc_def callbacks_fresh_def)
    ultimately show ?thesis using assms(1,4) d disj Nil
      by (cases "Free p") (auto simp: PoolReturn_def own_def counters_ok_def same_conf_def held_def)
  next
    case (Cons e es)
    then show ?thesis using assms(1,3,4) d disj
      by (auto simp: PoolReturn_def own_def counters_ok_def same_conf_def held_def)
  qed
qed

lemma run_own:
  assumes "pool_run mok sz pre al ad fr s0 ps out lost" "callbacks_fresh live al ad fr"
  shows "own live ps out lost \<and> fresh_alloc live (fst ps) \<and> max_buckets (fst ps) = sz \<and>
    Alloc (fst ps) = al \<and> AllocData (fst ps) = ad"
  using assms(1)
proof induction
  case (init ps)
  then show ?case using init_own[of mok sz pre al ad fr s0 "fst ps" "snd ps" live] assms(2)
    by (auto simp: fresh_alloc_def)
next
  case (get ps out lost d ps')
  obtain p s p' s' where "ps = (p, s)" "ps' = (p', s')" by fastforce
  then show ?case using get get_own[of live p s out lost "Some d" p' s'] fresh_alloc_cong[of p p' live]
    by (auto simp: same_conf_def)
next
  case (get_null ps out lost ps')
  obtain p s p' s' where p: "ps = (p, s)" "ps' = (p', s')" by fastforce
  then show ?case using p get_null get_own[of live p s out lost None p' s'] fresh_alloc_cong[of p p' live]
    by (auto simp: same_conf_def)
next
  case (ret ps out lost d)
  obtain p s p' s' where "ps = (p, s)" "PoolReturn (Some d) ps = (p', s')" by fastforce
  then show ?case using ret return_own[of live p s out lost d p' s'] fresh_alloc_cong[of p p' live]
    by (auto simp: same_conf_def)
qed

section \<open>Properties\<close>

text \<open>Claim C19: A pool never has one object twice. In every run of \<open>PoolGet\<close> and \<open>PoolReturn\<close> with callbacks that
  make fresh objects or fail (\<open>callbacks_fresh\<close>), where data is returned only while it is outstanding, the
  objects the clients hold and the ones in the pool are all different and exist, the counters count them
  and the \<open>lost\<close> calls that got \<open>NULL\<close> from a failed \<open>Alloc\<close> (none if it never fails), and a pool of size
  \<open>sz\<close> never has more than \<open>sz\<close> buckets in use, those included.\<close>

theorem pool_ownership:
  assumes "pool_run mok sz pre al ad fr s0 (p, s) out lost" "callbacks_fresh live al ad fr"
  shows "distinct (held p @ out) \<and> set (held p @ out) \<subseteq> live s \<and>
    outstanding p = of_nat (length out + lost) \<and>
    allocated p = of_nat (length (alloc_list p) + length out + lost) \<and>
    (sz = 0 \<or> length (alloc_list p) + length out + lost \<le> unat sz \<and>
       length (alloc_list p) + length (empty_list p) = unat sz) \<and>
    (never_fails al ad \<longrightarrow> lost = 0 \<and> length (held p) = length (alloc_list p))"
proof -
  have o: "own live (p, s) out lost" "max_buckets p = sz" "Alloc p = al" "AllocData p = ad"
    using run_own[OF assms] by auto
  show ?thesis
    using o length_objects[of "alloc_list p"] unfolding own_def
    by (auto simp: counters_ok_def held_def algebra_simps)
qed

definition count_alloc :: "unit \<Rightarrow> nat \<Rightarrow> nat option \<times> nat" where
  "count_alloc u n = (Some n, n + 1)"

lemma count_alloc_ok: "callbacks_ok (\<lambda>n. {..<n}) count_alloc () None"
  by (auto simp: callbacks_ok_def count_alloc_def)

definition count_pool :: "(unit, nat, nat) Pool" where
  "count_pool = \<lparr>max_buckets = 2, allocated = 1, alloc_list = [], alloc_list_size = 0,
     empty_list = [None, None], empty_list_size = 2, Alloc = count_alloc, AllocData = (), Free = None,
     outstanding = 1, max_outstanding = 1\<rparr>"

lemma count_pool_run: "pool_run (\<lambda>_. True) 2 1 count_alloc () None 0 (count_pool, 1) [0] 0"
proof -
  obtain p where p: "PoolInit (\<lambda>_. True) 2 1 (Some count_alloc) () None 0 = Some (p, 1)"
    "PoolGet (p, 1) = (Some 0, count_pool, 1)"
    by (simp add: PoolInit_def PoolGet_def note_outstanding_def Let_def count_alloc_def count_pool_def)
  show ?thesis by (rule pool_run.get[OF pool_run.init[OF p(1)] p(2)])
qed


lemma pool_ownership_witness:
  "distinct (held count_pool @ [0]) \<and> set (held count_pool @ [0]) \<subseteq> {..<1} \<and>
   outstanding count_pool = of_nat (length [0 :: nat])"
  using pool_ownership[OF count_pool_run conjunct1[OF callbacks_ok_fresh[OF count_alloc_ok]]] by simp

lemma count_pool_reach: "pool_reach (\<lambda>_. True) 2 1 count_alloc () None 0 (count_pool, 1) [0]"
  using count_pool_run by (auto simp: pool_reach_def)

text \<open>Claim C29: A pool of size \<open>sz\<close> serves exactly \<open>sz\<close> objects: as long as the allocator does not fail,
  \<open>PoolGet\<close> returns \<open>NULL\<close> only when the clients hold \<open>sz\<close> objects, and then it changes nothing; an
  unlimited pool (\<open>sz = 0\<close>) never returns \<open>NULL\<close>.\<close>

theorem pool_get_serves:
  assumes "pool_reach mok sz pre al ad fr s0 (p, s) out" "callbacks_ok live al ad fr"
  shows "(fst (PoolGet (p, s)) = None \<longleftrightarrow> sz \<noteq> 0 \<and> length out = unat sz) \<and>
    (fst (PoolGet (p, s)) = None \<longrightarrow> snd (PoolGet (p, s)) = (p, s))"
proof -
  have nf: "never_fails al ad" and fr: "callbacks_fresh live al ad fr" using callbacks_ok_fresh[OF assms(2)] by simp_all
  obtain k where o: "own live (p, s) out k" "fresh_alloc live p" "max_buckets p = sz" "Alloc p = al" "AllocData p = ad"
    using run_own[OF _ fr] assms(1) unfolding pool_reach_def by fastforce
  have k: "k = 0" using o nf by (simp add: own_def)
  obtain r p' s' where g: "PoolGet (p, s) = (r, p', s')" by (metis prod.exhaust)
  note go = get_own[OF o(1,2) g]
  show ?thesis
  proof (cases r)
    case None
    then show ?thesis using go o g nf k by auto
  next
    case (Some d)
    then have "own live (p', s') (d # out) k" "max_buckets p' = sz"
      using go o by (auto simp: same_conf_def)
    then have "sz \<noteq> 0 \<longrightarrow> length out < unat sz" by (auto simp: own_def)
    then show ?thesis using g Some by auto
  qed
qed

lemma pool_get_serves_witness:
  "fst (PoolGet (count_pool, 1)) \<noteq> None"
  using pool_get_serves[OF count_pool_reach count_alloc_ok] by simp

text \<open>An allocator that fails on its first \<open>n\<close> calls.\<close>

definition failing_alloc :: "nat \<Rightarrow> unit \<Rightarrow> nat \<Rightarrow> nat option \<times> nat" where
  "failing_alloc n u k = (if k < n then None else Some k, k + 1)"

fun gets :: "nat \<Rightarrow> ('a, 'd, 's) Pool \<times> 's \<Rightarrow> 'd option list \<times> ('a, 'd, 's) Pool \<times> 's" where
  "gets 0 ps = ([], ps)"
| "gets (Suc k) ps = (let (r, ps1) = PoolGet ps; (rs, ps2) = gets k ps1 in (r # rs, ps2))"

lemma gets_failing:
  assumes "alloc_list p = []" "Alloc p = failing_alloc n" "max_buckets p \<noteq> 0"
    "unat (allocated p) = k" "n = unat (max_buckets p)" "k \<le> n"
  shows "fst (gets j (p, k)) = replicate j None"
  using assms
proof (induction j arbitrary: p k)
  case 0
  then show ?case by simp
next
  case (Suc j)
  show ?case
  proof (cases "k < n")
    case True
    then have lt: "allocated p < max_buckets p" using Suc.prems by (simp add: word_less_nat_alt)
    let ?q = "note_outstanding (p\<lparr>allocated := allocated p + 1\<rparr>)"
    have "PoolGet (p, k) = (None, ?q, Suc k)"
      using Suc.prems True lt by (simp add: PoolGet_def Let_def failing_alloc_def)
    moreover have "unat (allocated ?q) = Suc k"
      using Suc.prems True lt word_n1_ge[of "max_buckets p"] by (auto simp: unat_add_1_if)
    ultimately show ?thesis
      using Suc.IH[of ?q "Suc k"] Suc.prems True by (simp add: case_prod_beta)
  next
    case False
    then have "\<not> allocated p < max_buckets p" using Suc.prems by (simp add: word_less_nat_alt)
    then have "PoolGet (p, k) = (None, p, k)" using Suc.prems by (simp add: PoolGet_def)
    then show ?thesis using Suc.IH[of p k] Suc.prems by (simp add: case_prod_beta)
  qed
qed

text \<open>\<open>PoolGet\<close> counts an allocation that failed as allocated and outstanding. A pool of size
  \<open>sz\<close> whose allocator fails on its first \<open>sz\<close> calls and would succeed ever after returns \<open>NULL\<close> for
  ever, although no client holds anything.\<close>

theorem pool_alloc_failure_exhausts:
  assumes "sz \<noteq> 0"
  shows "\<exists>p. PoolInit (\<lambda>_. True) sz 0 (Some (failing_alloc (unat sz))) () None 0 = Some (p, 0) \<and>
    (\<forall>j. fst (gets j (p, 0)) = replicate j None)"
proof -
  have ok: "\<exists>p'. pool_fill_empty (\<lambda>_. True) m n p = Some p'" for m n and p :: "(unit, nat, nat) Pool"
    by (induction n arbitrary: m p) auto
  let ?e = "\<lparr>max_buckets = sz, allocated = 0, alloc_list = [], alloc_list_size = 0, empty_list = [],
      empty_list_size = 0, Alloc = failing_alloc (unat sz), AllocData = (), Free = None,
      outstanding = 0, max_outstanding = 0\<rparr> :: (unit, nat, nat) Pool"
  obtain p where p: "pool_fill_empty (\<lambda>_. True) (Suc 0) (unat sz) ?e = Some p" using ok by blast
  have "fst (gets j (p, 0)) = replicate j None" for j
    by (rule gets_failing[of _ "unat sz"]) (use fill_empty[OF p] assms in simp_all)
  then show ?thesis using p by (auto simp: PoolInit_def)
qed

lemma pool_alloc_failure_exhausts_witness:
  "\<exists>p. PoolInit (\<lambda>_. True) 3 0 (Some (failing_alloc (unat (3 :: u32)))) () None 0 = Some (p, 0) \<and>
    (\<forall>j. fst (gets j (p, 0)) = replicate j None)"
  by (rule pool_alloc_failure_exhausts) simp

end
