(* ===== verification/HashTable.thy ===== *)
theory HashTable
  imports Prelude
begin

text \<open>
  The chained hash table (\<open>src/util-hash.c\<close>) with the client's callbacks, the generic hash and compare
  functions, and the interface that it shares with the hash list table. A bucket never leaves the
  table, so a chain of buckets is the list of their data pointers and sizes. The callbacks of the
  program read nothing of the table but its size, which is what they get here. The memory the
  generic functions read is a function from a pointer and an offset to a byte.
\<close>

section \<open>The interface of a hash table\<close>

text \<open>
  A keyed multimap: entries with the same key are found newest first. \<open>ent t k\<close> is the data stored
  under \<open>k\<close>; \<open>remove\<close> is only promised to work for a key that is present.
\<close>

datatype 'd hop = HAdd 'd u16 | HLookup 'd u16 | HRemove 'd u16

locale keyed_multimap =
  fixes inv :: "'t \<Rightarrow> bool"
    and ent :: "'t \<Rightarrow> 'k \<Rightarrow> 'd list"
    and key :: "'d \<Rightarrow> u16 \<Rightarrow> 'k"
    and add :: "'d \<Rightarrow> u16 \<Rightarrow> 't \<Rightarrow> (int \<times> 't) option"
    and lookup :: "'d \<Rightarrow> u16 \<Rightarrow> 't \<Rightarrow> 'd option option"
    and remove :: "'d \<Rightarrow> u16 \<Rightarrow> 't \<Rightarrow> (int \<times> 't) option"
  assumes add_ent: "inv t \<Longrightarrow> \<exists>t'. add d l t = Some (0, t') \<and> inv t' \<and>
        ent t' = (ent t)(key d l := d # ent t (key d l))"
    and lookup_ent: "inv t \<Longrightarrow> lookup d l t =
        Some (case ent t (key d l) of [] \<Rightarrow> None | x # _ \<Rightarrow> Some x)"
    and remove_ent: "inv t \<Longrightarrow> ent t (key d l) \<noteq> [] \<Longrightarrow> \<exists>t'. remove d l t = Some (0, t') \<and> inv t' \<and>
        ent t' = (ent t)(key d l := tl (ent t (key d l)))"
begin

text \<open>Any run of operations that removes only present keys behaves like the multimap.\<close>

fun map_step :: "('k \<Rightarrow> 'd list) \<Rightarrow> 'd hop \<Rightarrow> ('k \<Rightarrow> 'd list) \<times> int \<times> 'd option" where
  "map_step m (HAdd d l) = (m(key d l := d # m (key d l)), 0, None)"
| "map_step m (HLookup d l) = (m, 0, case m (key d l) of [] \<Rightarrow> None | x # _ \<Rightarrow> Some x)"
| "map_step m (HRemove d l) = (m(key d l := tl (m (key d l))), 0, None)"

fun table_step :: "'t \<Rightarrow> 'd hop \<Rightarrow> ('t \<times> int \<times> 'd option) option" where
  "table_step t (HAdd d l) = map_option (\<lambda>(r, t'). (t', r, None)) (add d l t)"
| "table_step t (HLookup d l) = map_option (\<lambda>r. (t, 0, r)) (lookup d l t)"
| "table_step t (HRemove d l) = map_option (\<lambda>(r, t'). (t', r, None)) (remove d l t)"

fun present :: "('k \<Rightarrow> 'd list) \<Rightarrow> 'd hop \<Rightarrow> bool" where
  "present m (HRemove d l) = (m (key d l) \<noteq> [])"
| "present m _ = True"

lemma step_ent:
  assumes "inv t" "present (ent t) opn"
  shows "\<exists>t' r x. table_step t opn = Some (t', r, x) \<and> inv t' \<and> map_step (ent t) opn = (ent t', r, x)"
  using assms
proof (cases opn)
  case (HAdd d l)
  then show ?thesis using add_ent[OF assms(1), of d l] by force
next
  case (HLookup d l)
  then show ?thesis using lookup_ent[OF assms(1), of d l] assms(1) by simp
next
  case (HRemove d l)
  then show ?thesis using remove_ent[OF assms(1), of d l] assms(2) by force
qed

lemma lookup_after_add:
  assumes "inv t" "add d l t = Some (0, t')"
  shows "lookup e m t' = (if key e m = key d l then Some (Some d) else lookup e m t)"
proof -
  obtain u where "add d l t = Some (0, u)" "inv u" "ent u = (ent t)(key d l := d # ent t (key d l))"
    using add_ent[OF assms(1)] by blast
  then show ?thesis using assms lookup_ent[of u e m] lookup_ent[OF assms(1), of e m] by auto
qed

lemma lookup_after_remove:
  assumes "inv t" "lookup d l t \<noteq> Some None" "remove d l t = Some (r, t')"
  shows "r = 0 \<and> (key e m \<noteq> key d l \<longrightarrow> lookup e m t' = lookup e m t)"
proof -
  have "ent t (key d l) \<noteq> []" using assms(2) lookup_ent[OF assms(1), of d l] by auto
  then obtain u where u: "remove d l t = Some (0, u)" "inv u"
    "ent u = (ent t)(key d l := tl (ent t (key d l)))"
    using remove_ent[OF assms(1)] by blast
  then show ?thesis using assms lookup_ent[OF u(2), of e m] lookup_ent[OF assms(1), of e m] by auto
qed

lemma remove_undoes_add:
  assumes "inv t" "add d l t = Some (0, t')" "remove d l t' = Some (r, t'')"
  shows "r = 0 \<and> ent t'' = ent t \<and> inv t''"
proof -
  have t': "inv t'" "ent t' = (ent t)(key d l := d # ent t (key d l))"
    using add_ent[OF assms(1), of d l] assms(2) by auto
  then show ?thesis using remove_ent[OF t'(1), of d l] assms(3) by auto
qed

end

section \<open>The hash table\<close>

record ('d, 's) HashTable =
  array :: "('d \<times> u16) list list"
  array_size :: u32
  Hash :: "u32 \<Rightarrow> 'd \<Rightarrow> u16 \<Rightarrow> u32"
  Compare :: "'d \<Rightarrow> u16 \<Rightarrow> 'd \<Rightarrow> u16 \<Rightarrow> u8"
  Free :: "('d \<Rightarrow> 's \<Rightarrow> 's) option"

definition HashTableDefaultCompare :: "('d \<Rightarrow> nat \<Rightarrow> u8) \<Rightarrow> 'd \<Rightarrow> u16 \<Rightarrow> 'd \<Rightarrow> u16 \<Rightarrow> u8" where
  "HashTableDefaultCompare mem data1 len1 data2 len2 =
     (if len1 \<noteq> len2 then 0
      else if map (mem data1) [0..<unat len1] \<noteq> map (mem data2) [0..<unat len1] then 0
      else 1)"

text \<open>The loop of the generic hash; all arithmetic is on \<open>uint32_t\<close>, \<open>datalen\<close> being converted.\<close>

definition generic_hash_step :: "(nat \<Rightarrow> u8) \<Rightarrow> u16 \<Rightarrow> u32 \<Rightarrow> nat \<Rightarrow> u32" where
  "generic_hash_step d datalen hash i =
     (if i = 0 then hash + ucast (d i)
      else if i = 1 then hash + ucast (d i) * ucast datalen
      else hash * (ucast (d i) * of_nat i + ucast datalen + of_nat i))"

definition HashTableGenericHash :: "('d \<Rightarrow> nat \<Rightarrow> u8) \<Rightarrow> u32 \<Rightarrow> 'd \<Rightarrow> u16 \<Rightarrow> u32" where
  "HashTableGenericHash mem asize p datalen =
     (foldl (generic_hash_step (mem p) datalen) 0 [0..<unat datalen] * ucast datalen) mod asize"

text \<open>\<open>mok\<close> says whether the two \<open>SCMalloc\<close> calls succeed.\<close>

definition HashTableInit :: "bool \<times> bool \<Rightarrow> ('d \<Rightarrow> nat \<Rightarrow> u8) \<Rightarrow> u32 \<Rightarrow> (u32 \<Rightarrow> 'd \<Rightarrow> u16 \<Rightarrow> u32) option
    \<Rightarrow> ('d \<Rightarrow> u16 \<Rightarrow> 'd \<Rightarrow> u16 \<Rightarrow> u8) option \<Rightarrow> ('d \<Rightarrow> 's \<Rightarrow> 's) option \<Rightarrow> ('d, 's) HashTable option" where
  "HashTableInit mok mem sz hsh cmp fr =
     (if sz = 0 then None
      else (case hsh of
        None \<Rightarrow> None
      | Some h \<Rightarrow>
          if \<not> fst mok \<or> \<not> snd mok then None
          else Some \<lparr>array = replicate (unat sz) [], array_size = sz, Hash = h,
                     Compare = (case cmp of None \<Rightarrow> HashTableDefaultCompare mem | Some c \<Rightarrow> c),
                     Free = fr\<rparr>))"

text \<open>\<open>ht->array[hash]\<close>; an index outside the array is undefined behaviour, \<open>None\<close>.\<close>

definition chain :: "('d, 's) HashTable \<Rightarrow> u32 \<Rightarrow> ('d \<times> u16) list option" where
  "chain ht h = (if unat h < length (array ht) then Some (array ht ! unat h) else None)"

definition set_chain :: "u32 \<Rightarrow> ('d \<times> u16) list \<Rightarrow> ('d, 's) HashTable \<Rightarrow> ('d, 's) HashTable" where
  "set_chain h c ht = ht\<lparr>array := (array ht)[unat h := c]\<rparr>"

definition HashTableAdd :: "bool \<Rightarrow> ('d, 's) HashTable option \<Rightarrow> 'd option \<Rightarrow> u16
    \<Rightarrow> (int \<times> ('d, 's) HashTable option) option" where
  "HashTableAdd mok ht p datalen =
     (case (ht, p) of
        (Some t, Some d) \<Rightarrow>
          let h = Hash t (array_size t) d datalen in
          if \<not> mok then Some (- 1, ht)
          else do { c \<leftarrow> chain t h; Some (0, Some (set_chain h ((d, datalen) # c) t)) }
      | _ \<Rightarrow> Some (- 1, ht))"

definition free_data :: "('d, 's) HashTable \<Rightarrow> 'd \<Rightarrow> 's \<Rightarrow> 's" where
  "free_data ht d s = (case Free ht of None \<Rightarrow> s | Some f \<Rightarrow> f d s)"

text \<open>
  The walk of \<open>HashTableRemove\<close>: \<open>prev\<close> holds the buckets passed, newest first. It ends with the
  chain without the bucket found and that bucket's data.
\<close>

fun remove_walk :: "('d \<Rightarrow> u16 \<Rightarrow> bool) \<Rightarrow> ('d \<times> u16) list \<Rightarrow> ('d \<times> u16) list
    \<Rightarrow> (('d \<times> u16) list \<times> 'd) option" where
  "remove_walk eq prev [] = None"
| "remove_walk eq prev ((d, l) # bs) =
     (if eq d l then Some (rev prev @ bs, d) else remove_walk eq ((d, l) # prev) bs)"

definition HashTableRemove :: "'d \<Rightarrow> u16 \<Rightarrow> ('d, 's) HashTable \<times> 's
    \<Rightarrow> (int \<times> ('d, 's) HashTable \<times> 's) option" where
  "HashTableRemove d datalen ts =
     (case ts of (t, s) \<Rightarrow>
        let h = Hash t (array_size t) d datalen in
        do {
          c \<leftarrow> chain t h;
          case c of
            [] \<Rightarrow> Some (- 1, t, s)
          | [b] \<Rightarrow> Some (0, set_chain h [] t, free_data t (fst b) s)
          | _ \<Rightarrow>
              (case remove_walk (\<lambda>e m. Compare t e m d datalen = 1) [] c of
                 None \<Rightarrow> Some (- 1, t, s)
               | Some (c', e) \<Rightarrow> Some (0, set_chain h c' t, free_data t e s))
        })"

fun lookup_walk :: "('d \<Rightarrow> u16 \<Rightarrow> bool) \<Rightarrow> ('d \<times> u16) list \<Rightarrow> 'd option" where
  "lookup_walk eq [] = None"
| "lookup_walk eq ((d, l) # bs) = (if eq d l then Some d else lookup_walk eq bs)"

definition HashTableLookup :: "('d, 's) HashTable option \<Rightarrow> 'd \<Rightarrow> u16 \<Rightarrow> 'd option option" where
  "HashTableLookup ht d datalen =
     (case ht of
        None \<Rightarrow> Some None
      | Some t \<Rightarrow> do { c \<leftarrow> chain t (Hash t (array_size t) d datalen);
                        Some (lookup_walk (\<lambda>e m. Compare t e m d datalen = 1) c) })"

text \<open>\<open>HashTableFree\<close> calls \<open>Free\<close> on the data of every bucket, chain by chain.\<close>

definition HashTableFree :: "('d, 's) HashTable option \<Rightarrow> 's \<Rightarrow> 's" where
  "HashTableFree ht s =
     (case ht of None \<Rightarrow> s | Some t \<Rightarrow> foldl (\<lambda>s b. free_data t (fst b) s) s (concat (array t)))"

section \<open>The hash table is a keyed multimap\<close>

text \<open>
  The contract of the callbacks: \<open>Hash\<close> depends only on the key of the data and stays inside the array,
  \<open>Compare\<close> returns 1 exactly for data with the same key.
\<close>

definition ht_inv :: "('d \<Rightarrow> u16 \<Rightarrow> 'k) \<Rightarrow> ('k \<Rightarrow> u32) \<Rightarrow> ('d, 's) HashTable \<times> 's \<Rightarrow> bool" where
  "ht_inv key h ts \<longleftrightarrow>
     (\<forall>d l. Hash (fst ts) (array_size (fst ts)) d l = h (key d l)) \<and>
     (\<forall>k. unat (h k) < length (array (fst ts))) \<and>
     (\<forall>e m d l. Compare (fst ts) e m d l = 1 \<longleftrightarrow> key e m = key d l)"

definition ht_ent :: "('d \<Rightarrow> u16 \<Rightarrow> 'k) \<Rightarrow> ('k \<Rightarrow> u32) \<Rightarrow> ('d, 's) HashTable \<times> 's \<Rightarrow> 'k \<Rightarrow> 'd list" where
  "ht_ent key h ts k = map fst (filter (\<lambda>(d, l). key d l = k) (array (fst ts) ! unat (h k)))"

text \<open>The operations with all pointers non-null and memory available.\<close>

definition ht_add :: "'d \<Rightarrow> u16 \<Rightarrow> ('d, 's) HashTable \<times> 's \<Rightarrow> (int \<times> ('d, 's) HashTable \<times> 's) option" where
  "ht_add d l ts =
     (case HashTableAdd True (Some (fst ts)) (Some d) l of
        Some (r, Some t') \<Rightarrow> Some (r, t', snd ts) | _ \<Rightarrow> None)"

definition ht_lookup :: "'d \<Rightarrow> u16 \<Rightarrow> ('d, 's) HashTable \<times> 's \<Rightarrow> 'd option option" where
  "ht_lookup d l ts = HashTableLookup (Some (fst ts)) d l"

lemma chain_inv: "ht_inv key h (t, s) \<Longrightarrow> chain t (h k) = Some (array t ! unat (h k))"
  by (simp add: ht_inv_def chain_def)

lemma set_chain_inv: "ht_inv key h (t, s) \<Longrightarrow> ht_inv key h (set_chain k c t, s')"
  by (simp add: ht_inv_def set_chain_def)

lemma ht_ent_set_chain:
  assumes "ht_inv key h (t, s)"
    and "\<And>k'. k' \<noteq> k \<Longrightarrow> filter (\<lambda>(d, l). key d l = k') c = filter (\<lambda>(d, l). key d l = k') (array t ! unat (h k))"
  shows "ht_ent key h (set_chain (h k) c t, s') =
    (ht_ent key h (t, s))(k := map fst (filter (\<lambda>(d, l). key d l = k) c))"
proof
  fix k'
  have len: "unat (h k) < length (array t)" using assms(1) by (simp add: ht_inv_def)
  show "ht_ent key h (set_chain (h k) c t, s') k' =
    ((ht_ent key h (t, s))(k := map fst (filter (\<lambda>(d, l). key d l = k) c))) k'"
    using len assms(2)[of k'] unat_eq_iff[of "h k'" "h k"] by (cases "h k' = h k") (auto simp: ht_ent_def set_chain_def)
qed

lemma lookup_walk_filter:
  "lookup_walk (\<lambda>e m. key e m = k) c = (case filter (\<lambda>(d, l). key d l = k) c of [] \<Rightarrow> None | b # _ \<Rightarrow> Some (fst b))"
  by (induction c) (auto split: prod.split)

lemma remove_walk_None:
  "remove_walk eq prev c = None \<longleftrightarrow> (\<forall>(d, l) \<in> set c. \<not> eq d l)"
  by (induction c arbitrary: prev) (auto split: if_splits)

lemma remove_walk_Some:
  "remove_walk eq prev c = Some (c', e) \<Longrightarrow>
     \<exists>xs l ys. c = xs @ (e, l) # ys \<and> c' = rev prev @ xs @ ys \<and> eq e l \<and> (\<forall>(d, m) \<in> set xs. \<not> eq d m)"
proof (induction c arbitrary: prev)
  case Nil
  then show ?case by simp
next
  case (Cons b bs)
  obtain d l where b: "b = (d, l)" by fastforce
  show ?case
  proof (cases "eq d l")
    case True
    then show ?thesis using Cons.prems b by (intro exI[of _ "[]"]) auto
  next
    case False
    from Cons.IH[of "b # prev"] Cons.prems b False obtain xs m ys where
      "bs = xs @ (e, m) # ys" "c' = rev (b # prev) @ xs @ ys" "eq e m" "\<forall>(d, m) \<in> set xs. \<not> eq d m"
      by auto
    then show ?thesis using b False by (intro exI[of _ "b # xs"] exI[of _ m] exI[of _ ys]) auto
  qed
qed

lemma remove_walk_filter:
  assumes "filter (\<lambda>(d, l). key d l = k) c \<noteq> []"
  obtains c' e where "remove_walk (\<lambda>e m. key e m = k) [] c = Some (c', e)"
    "filter (\<lambda>(d, l). key d l = k) c' = tl (filter (\<lambda>(d, l). key d l = k) c)"
    "\<And>k'. k' \<noteq> k \<Longrightarrow> filter (\<lambda>(d, l). key d l = k') c' = filter (\<lambda>(d, l). key d l = k') c"
proof -
  have "remove_walk (\<lambda>e m. key e m = k) [] c \<noteq> None"
    using assms by (auto simp: remove_walk_None filter_empty_conv)
  then obtain c' e where r: "remove_walk (\<lambda>e m. key e m = k) [] c = Some (c', e)" by auto
  from remove_walk_Some[OF r] obtain xs l ys where
    c: "c = xs @ (e, l) # ys" "c' = xs @ ys" "key e l = k" "\<forall>(d, m) \<in> set xs. key d m \<noteq> k" by auto
  then have "filter (\<lambda>(d, l). key d l = k) xs = []" by (auto simp: filter_empty_conv)
  then show thesis using that[OF r] c by auto
qed

lemma remove_chain:
  assumes "ht_inv key h (t, s)" "ht_ent key h (t, s) (key d l) \<noteq> []"
  obtains c' s' where "HashTableRemove d l (t, s) = Some (0, set_chain (h (key d l)) c' t, s')"
    "filter (\<lambda>(d', m). key d' m = key d l) c' =
       tl (filter (\<lambda>(d', m). key d' m = key d l) (array t ! unat (h (key d l))))"
    "\<And>k'. k' \<noteq> key d l \<Longrightarrow> filter (\<lambda>(d, l). key d l = k') c' =
       filter (\<lambda>(d, l). key d l = k') (array t ! unat (h (key d l)))"
proof -
  let ?c = "array t ! unat (h (key d l))"
  have ne: "filter (\<lambda>(d', m). key d' m = key d l) ?c \<noteq> []" using assms(2) by (simp add: ht_ent_def)
  have cmp: "(\<lambda>e m. Compare t e m d l = 1) = (\<lambda>e m. key e m = key d l)"
    and hsh: "Hash t (array_size t) d l = h (key d l)" and ch: "chain t (h (key d l)) = Some ?c"
    using assms(1) chain_inv[OF assms(1)] by (auto simp: ht_inv_def)
  consider b where "?c = [b]" | b b' bs where "?c = b # b' # bs"
    using ne by (metis filter.simps(1) list.exhaust)
  then show thesis
  proof cases
    case 1
    then have "key (fst b) (snd b) = key d l" using ne by (auto split: if_splits prod.splits)
    then show thesis using 1 hsh ch
      by (intro that[of "[]" "free_data t (fst b) s"]) (auto simp: HashTableRemove_def split: prod.splits)
  next
    case 2
    obtain c' e where r: "remove_walk (\<lambda>e m. key e m = key d l) [] ?c = Some (c', e)"
      "filter (\<lambda>(d', m). key d' m = key d l) c' = tl (filter (\<lambda>(d', m). key d' m = key d l) ?c)"
      "\<And>k'. k' \<noteq> key d l \<Longrightarrow> filter (\<lambda>(d, l). key d l = k') c' = filter (\<lambda>(d, l). key d l = k') ?c"
      using remove_walk_filter[OF ne] by blast
    have "HashTableRemove d l (t, s) = Some (0, set_chain (h (key d l)) c' t, free_data t e s)"
      using r(1) 2 hsh ch by (simp add: HashTableRemove_def cmp)
    then show thesis using r(2,3) by (rule that)
  qed
qed

interpretation ht: keyed_multimap "ht_inv key h" "ht_ent key h" key ht_add ht_lookup HashTableRemove
  for key :: "'d \<Rightarrow> u16 \<Rightarrow> 'k" and h
proof
  fix ts :: "('d, 's) HashTable \<times> 's" and d l
  assume inv: "ht_inv key h ts"
  obtain t s where ts: "ts = (t, s)" by fastforce
  note inv' = inv[unfolded ts]
  have hc: "Hash t (array_size t) d l = h (key d l)" "chain t (h (key d l)) = Some (array t ! unat (h (key d l)))"
    "(\<lambda>e m. Compare t e m d l = 1) = (\<lambda>e m. key e m = key d l)"
    using inv' chain_inv[OF inv'] by (auto simp: ht_inv_def)
  let ?c = "(d, l) # array t ! unat (h (key d l))"
  have "ht_ent key h (set_chain (h (key d l)) ?c t, s) =
     (ht_ent key h ts)(key d l := d # ht_ent key h ts (key d l))"
    using ht_ent_set_chain[OF inv', of "key d l" ?c s] by (simp add: ts ht_ent_def)
  then show "\<exists>t'. ht_add d l ts = Some (0, t') \<and> ht_inv key h t' \<and>
       ht_ent key h t' = (ht_ent key h ts)(key d l := d # ht_ent key h ts (key d l))"
    using hc set_chain_inv[OF inv'] by (auto simp: ht_add_def HashTableAdd_def ts Let_def)
  show "ht_lookup d l ts = Some (case ht_ent key h ts (key d l) of [] \<Rightarrow> None | x # _ \<Rightarrow> Some x)"
    using hc by (simp add: ht_lookup_def HashTableLookup_def ts lookup_walk_filter ht_ent_def split: list.split)
  assume "ht_ent key h ts (key d l) \<noteq> []"
  then obtain c' s' where r: "HashTableRemove d l (t, s) = Some (0, set_chain (h (key d l)) c' t, s')"
    "filter (\<lambda>(d', m). key d' m = key d l) c' =
       tl (filter (\<lambda>(d', m). key d' m = key d l) (array t ! unat (h (key d l))))"
    "\<And>k'. k' \<noteq> key d l \<Longrightarrow> filter (\<lambda>(d, l). key d l = k') c' =
       filter (\<lambda>(d, l). key d l = k') (array t ! unat (h (key d l)))"
    using remove_chain[OF inv', of d l] ts by blast
  have "ht_ent key h (set_chain (h (key d l)) c' t, s') =
     (ht_ent key h ts)(key d l := tl (ht_ent key h ts (key d l)))"
    using ht_ent_set_chain[OF inv' r(3), of s'] r(2) by (simp add: ts ht_ent_def map_tl)
  then show "\<exists>t'. HashTableRemove d l ts = Some (0, t') \<and> ht_inv key h t' \<and>
       ht_ent key h t' = (ht_ent key h ts)(key d l := tl (ht_ent key h ts (key d l)))"
    using r(1) set_chain_inv[OF inv'] by (auto simp: ts)
qed

section \<open>The generic hash and compare functions\<close>

text \<open>The key they implement: the bytes of the data.\<close>

definition content :: "('d \<Rightarrow> nat \<Rightarrow> u8) \<Rightarrow> 'd \<Rightarrow> u16 \<Rightarrow> u8 list" where
  "content mem d l = map (mem d) [0..<unat l]"

definition generic_hash_of :: "u32 \<Rightarrow> u8 list \<Rightarrow> u32" where
  "generic_hash_of asize k =
     (foldl (generic_hash_step (\<lambda>i. k ! i) (of_nat (length k))) 0 [0..<length k] *
      ucast (of_nat (length k) :: u16)) mod asize"

lemma content_length: "length (content mem d l) = unat l"
  by (simp add: content_def)

lemma content_eq_len: "content mem e m = content mem d l \<Longrightarrow> m = l"
  by (metis content_length unat_eq_iff)

lemma foldl_hash_cong:
  "(\<And>i. i \<in> set xs \<Longrightarrow> f i = g i) \<Longrightarrow>
   foldl (generic_hash_step f l) a xs = foldl (generic_hash_step g l) a xs"
proof (induction xs arbitrary: a)
  case Nil
  then show ?case by simp
next
  case (Cons x xs)
  have "generic_hash_step f l a x = generic_hash_step g l a x"
    using Cons.prems[of x] by (auto simp: generic_hash_step_def)
  then show ?case using Cons by simp
qed

lemma generic_hash_content:
  "HashTableGenericHash mem asize d l = generic_hash_of asize (content mem d l)"
proof -
  have "foldl (generic_hash_step (mem d) l) 0 [0..<unat l] =
        foldl (generic_hash_step (\<lambda>i. content mem d l ! i) l) 0 [0..<unat l]"
    by (rule foldl_hash_cong) (simp add: content_def)
  then show ?thesis
    by (simp add: HashTableGenericHash_def generic_hash_of_def content_length)
qed

lemma generic_hash_bound: "asize \<noteq> 0 \<Longrightarrow> unat (generic_hash_of asize k) < unat asize"
  by (simp add: generic_hash_of_def unat_mod_distrib unat_gt_0)

lemma default_compare_content:
  "HashTableDefaultCompare mem e m d l = 1 \<longleftrightarrow> content mem e m = content mem d l"
  using content_eq_len[of mem e m d l] by (auto simp: HashTableDefaultCompare_def content_def)

section \<open>Properties\<close>

text \<open>Claim C26: With callbacks that agree on a key, adding data makes lookups of its key return it and
  leaves lookups of every other key alone; removing the key then succeeds and restores every lookup,
  so older data of the same key is visible again.\<close>

theorem hash_table_map_laws:
  assumes "ht_inv key h (t, s)"
  shows "\<exists>t' t'' s''. HashTableAdd True (Some t) (Some d) l = Some (0, Some t') \<and>
     (\<forall>e m. HashTableLookup (Some t') e m =
        (if key e m = key d l then Some (Some d) else HashTableLookup (Some t) e m)) \<and>
     HashTableRemove d l (t', s) = Some (0, t'', s'') \<and> ht_inv key h (t'', s'') \<and>
     (\<forall>e m. HashTableLookup (Some t'') e m = HashTableLookup (Some t) e m)"
proof -
  obtain u where u: "ht_add d l (t, s) = Some (0, u)" "ht_inv key h u"
    "ht_ent key h u = (ht_ent key h (t, s))(key d l := d # ht_ent key h (t, s) (key d l))"
    using ht.add_ent[OF assms] by blast
  obtain t' where t': "u = (t', s)" "HashTableAdd True (Some t) (Some d) l = Some (0, Some t')"
    using u(1) by (auto simp: ht_add_def split: option.splits prod.splits)
  obtain t'' s'' where r: "HashTableRemove d l u = Some (0, t'', s'')" "ht_inv key h (t'', s'')"
    "ht_ent key h (t'', s'') = ht_ent key h (t, s)"
    using ht.remove_ent[OF u(2), of d l] u(3) by fastforce
  have "HashTableLookup (Some t') e m =
     (if key e m = key d l then Some (Some d) else HashTableLookup (Some t) e m)" for e m
    using ht.lookup_after_add[OF assms u(1), of e m] t'(1) by (simp add: ht_lookup_def)
  moreover have "HashTableLookup (Some t'') e m = HashTableLookup (Some t) e m" for e m
    using ht.lookup_ent[OF r(2), of e m] ht.lookup_ent[OF assms, of e m] r(3) by (simp add: ht_lookup_def)
  ultimately show ?thesis using t' r(1,2) by auto
qed

definition table2 :: "(nat, unit) HashTable" where
  "table2 = \<lparr>array = [[], []], array_size = 2, Hash = (\<lambda>n d l. of_nat (d mod 2)),
     Compare = (\<lambda>e m d l. if e = d then 1 else 0), Free = None\<rparr>"

lemma table2_inv: "ht_inv (\<lambda>d l. d) (\<lambda>k. of_nat (k mod 2)) (table2, ())"
proof -
  have "unat (of_nat (k mod 2) :: u32) < 2" for k :: nat
    by (cases "even k") (auto simp: even_iff_mod_2_eq_zero odd_iff_mod_2_eq_one)
  then show ?thesis by (simp add: ht_inv_def table2_def numeral_2_eq_2)
qed

lemma hash_table_map_laws_witness:
  "\<exists>t' t'' s''. HashTableAdd True (Some table2) (Some 5) 0 = Some (0, Some t') \<and>
     (\<forall>e m. HashTableLookup (Some t') e m =
        (if e = 5 then Some (Some 5) else HashTableLookup (Some table2) e m)) \<and>
     HashTableRemove 5 0 (t', ()) = Some (0, t'', s'') \<and>
     ht_inv (\<lambda>d l. d) (\<lambda>k. of_nat (k mod 2)) (t'', s'') \<and>
     (\<forall>e m. HashTableLookup (Some t'') e m = HashTableLookup (Some table2) e m)"
  by (rule hash_table_map_laws[OF table2_inv])

text \<open>A table made by \<open>HashTableInit\<close> with the generic hash and no compare function satisfies
  the contract of the callbacks, the key being the bytes of the data: equal contents hash alike, the
  hash is inside the array and the default compare accepts exactly equal contents.\<close>

theorem hash_table_generic_contract:
  assumes "asize \<noteq> 0"
  shows "case HashTableInit (True, True) mem asize (Some (HashTableGenericHash mem)) None fr of
      None \<Rightarrow> False
    | Some t \<Rightarrow> ht_inv (content mem) (generic_hash_of asize) (t, s) \<and>
        (\<forall>d l. HashTableLookup (Some t) d l = Some None)"
proof -
  have "unat (generic_hash_of asize k) < unat asize" for k
    using generic_hash_bound[OF assms] .
  then show ?thesis using assms
    by (simp add: HashTableInit_def ht_inv_def generic_hash_content default_compare_content
        HashTableLookup_def chain_def)
qed

lemma hash_table_generic_contract_witness:
  "case HashTableInit (True, True) (\<lambda>p i. of_nat (p + i)) 16 (Some (HashTableGenericHash (\<lambda>p i. of_nat (p + i))))
        None None of
      None \<Rightarrow> False
    | Some t \<Rightarrow> ht_inv (content (\<lambda>p i. of_nat (p + i))) (generic_hash_of 16) (t, ()) \<and>
        (\<forall>d l. HashTableLookup (Some t) d l = Some None)"
  by (rule hash_table_generic_contract) simp

text \<open>\<open>HashTableRemove\<close> does not compare when the bucket holds a single entry: removing a key
  that is not in the table (its lookup finds nothing) succeeds and takes a different entry out, here
  with the generic hash, the default compare and one-byte keys 1 and 17 in a table of 16 buckets.\<close>

theorem hash_table_remove_wrong_entry:
  "\<exists>mem t t'. HashTableInit (True, True) mem 16 (Some (HashTableGenericHash mem)) None None = Some t \<and>
     HashTableAdd True (Some t) (Some (0 :: nat)) 1 = Some (0, Some t') \<and>
     HashTableLookup (Some t') 0 1 = Some (Some 0) \<and> HashTableLookup (Some t') 1 1 = Some None \<and>
     (\<exists>t''. HashTableRemove 1 1 (t', ()) = Some (0, t'', ()) \<and> HashTableLookup (Some t'') 0 1 = Some None)"
proof -
  define mem :: "nat \<Rightarrow> nat \<Rightarrow> u8" where "mem p i = (if p = 0 then 1 else 17)" for p i
  have h: "HashTableGenericHash mem 16 0 1 = 1" "HashTableGenericHash mem 16 (Suc 0) 1 = 1"
    by (simp_all add: HashTableGenericHash_def generic_hash_step_def mem_def)
  show ?thesis
    by (rule exI[of _ mem])
       (simp add: HashTableInit_def HashTableAdd_def HashTableLookup_def HashTableRemove_def h chain_def
         set_chain_def Let_def HashTableDefaultCompare_def mem_def nth_list_update)
qed

end
