(* ===== verification/HashListTable.thy ===== *)
theory HashListTable
  imports HashTable LinkedQueues
begin

text \<open>
  The hash table whose entries are also on a doubly linked list in insertion order
  (\<open>src/util-hashlist.c\<close>). Buckets live in a heap: \<open>bk\<close> maps the address of a live bucket to its data,
  its size and its chain pointer (\<open>None\<close> for a bucket that is not allocated, so that reading a freed
  one is \<open>None\<close>), \<open>links\<close> holds the two list pointers of every address. The table has the interface
  of a keyed multimap of theory HashTable and the order of insertion besides.
\<close>

section \<open>Table, heap and operations\<close>

record 'd hlb =
  hb_data :: 'd
  hb_size :: u16
  hb_bucknext :: "addr option"

record 'd hl_heap =
  links :: store
  bk :: "addr \<Rightarrow> 'd hlb option"

record ('d, 's) HashListTable =
  hl_array :: "addr option list"
  listhead :: "addr option"
  listtail :: "addr option"
  hl_array_size :: u32
  hl_Hash :: "u32 \<Rightarrow> 'd \<Rightarrow> u16 \<Rightarrow> u32"
  hl_Compare :: "'d \<Rightarrow> u16 \<Rightarrow> 'd \<Rightarrow> u16 \<Rightarrow> u8"
  hl_Free :: "('d \<Rightarrow> 's \<Rightarrow> 's) option"

definition HashListTableDefaultCompare :: "('d \<Rightarrow> nat \<Rightarrow> u8) \<Rightarrow> 'd \<Rightarrow> u16 \<Rightarrow> 'd \<Rightarrow> u16 \<Rightarrow> u8" where
  "HashListTableDefaultCompare mem data1 len1 data2 len2 =
     (if len1 \<noteq> len2 then 0
      else if map (mem data1) [0..<unat len1] \<noteq> map (mem data2) [0..<unat len1] then 0
      else 1)"

definition HashListTableGenericHash :: "('d \<Rightarrow> nat \<Rightarrow> u8) \<Rightarrow> u32 \<Rightarrow> 'd \<Rightarrow> u16 \<Rightarrow> u32" where
  "HashListTableGenericHash mem asize p datalen =
     (foldl (generic_hash_step (mem p) datalen) 0 [0..<unat datalen] * ucast datalen) mod asize"

definition HashListTableInit :: "bool \<times> bool \<Rightarrow> ('d \<Rightarrow> nat \<Rightarrow> u8) \<Rightarrow> u32 \<Rightarrow> (u32 \<Rightarrow> 'd \<Rightarrow> u16 \<Rightarrow> u32) option
    \<Rightarrow> ('d \<Rightarrow> u16 \<Rightarrow> 'd \<Rightarrow> u16 \<Rightarrow> u8) option \<Rightarrow> ('d \<Rightarrow> 's \<Rightarrow> 's) option \<Rightarrow> ('d, 's) HashListTable option" where
  "HashListTableInit mok mem sz hsh cmp fr =
     (if sz = 0 then None
      else (case hsh of
        None \<Rightarrow> None
      | Some h \<Rightarrow>
          if \<not> fst mok \<or> \<not> snd mok then None
          else Some \<lparr>hl_array = replicate (unat sz) None, listhead = None, listtail = None,
                     hl_array_size = sz, hl_Hash = h,
                     hl_Compare = (case cmp of None \<Rightarrow> HashListTableDefaultCompare mem | Some c \<Rightarrow> c),
                     hl_Free = fr\<rparr>))"

definition hl_root :: "('d, 's) HashListTable \<Rightarrow> u32 \<Rightarrow> addr option option" where
  "hl_root t h = (if unat h < length (hl_array t) then Some (hl_array t ! unat h) else None)"

definition set_root :: "u32 \<Rightarrow> addr option \<Rightarrow> ('d, 's) HashListTable \<Rightarrow> ('d, 's) HashListTable" where
  "set_root h a t = t\<lparr>hl_array := (hl_array t)[unat h := a]\<rparr>"

text \<open>\<open>m\<close> is what \<open>SCMalloc\<close> returns for the new bucket.\<close>

definition HashListTableAdd :: "addr option \<Rightarrow> ('d, 's) HashListTable option \<Rightarrow> 'd option \<Rightarrow> u16 \<Rightarrow> 'd hl_heap
    \<Rightarrow> (int \<times> ('d, 's) HashListTable option \<times> 'd hl_heap) option" where
  "HashListTableAdd m ht p datalen hp =
     (case (ht, p) of
        (Some t, Some d) \<Rightarrow>
          let h = hl_Hash t (hl_array_size t) d datalen in
          (case m of
             None \<Rightarrow> Some (- 1, ht, hp)
           | Some hb \<Rightarrow> do {
               root \<leftarrow> hl_root t h;
               let bk1 = (bk hp)(hb \<mapsto> \<lparr>hb_data = d, hb_size = datalen, hb_bucknext = root\<rparr>);
                   lk1 = set_prev hb None (set_next hb None (links hp));
                   t1 = set_root h (Some hb) t
               in (case listtail t1 of
                     None \<Rightarrow> Some (0, Some (t1\<lparr>listhead := Some hb, listtail := Some hb\<rparr>),
                                   hp\<lparr>links := lk1, bk := bk1\<rparr>)
                   | Some tail \<Rightarrow> Some (0, Some (t1\<lparr>listtail := Some hb\<rparr>),
                                   hp\<lparr>links := set_next tail (Some hb) (set_prev hb (Some tail) lk1),
                                      bk := bk1\<rparr>))
             })
      | _ \<Rightarrow> Some (- 1, ht, hp))"

text \<open>The removal of a bucket from the list; it is written out twice in the code.\<close>

definition list_unlink :: "addr \<Rightarrow> ('d, 's) HashListTable \<Rightarrow> store \<Rightarrow> ('d, 's) HashListTable \<times> store" where
  "list_unlink hb t lk =
     (let (t1, lk1) = (case n_prev (lk hb) of
                         None \<Rightarrow> (t\<lparr>listhead := n_next (lk hb)\<rparr>, lk)
                       | Some p \<Rightarrow> (t, set_next p (n_next (lk hb)) lk))
      in (case n_next (lk1 hb) of
            None \<Rightarrow> (t1\<lparr>listtail := n_prev (lk1 hb)\<rparr>, lk1)
          | Some n \<Rightarrow> (t1, set_prev n (n_prev (lk1 hb)) lk1)))"

definition hl_free_data :: "('d, 's) HashListTable \<Rightarrow> 'd \<Rightarrow> 's \<Rightarrow> 's" where
  "hl_free_data t d s = (case hl_Free t of None \<Rightarrow> s | Some f \<Rightarrow> f d s)"

text \<open>
  The loop over the chain of a bucket: the previous bucket and the one found. A dangling chain is
  \<open>None\<close>, and so is a cyclic one, on which the loop does not end.
\<close>

partial_function (option) hl_find :: "(addr \<Rightarrow> 'd hlb option) \<Rightarrow> ('d \<Rightarrow> u16 \<Rightarrow> bool) \<Rightarrow> addr option \<Rightarrow> addr
    \<Rightarrow> (addr option \<times> addr) option option" where
  "hl_find k eq prev a = do {
     b \<leftarrow> k a;
     if eq (hb_data b) (hb_size b) then Some (Some (prev, a))
     else (case hb_bucknext b of None \<Rightarrow> Some None | Some n \<Rightarrow> hl_find k eq (Some a) n)
   }"

definition HashListTableRemove :: "'d \<Rightarrow> u16 \<Rightarrow> ('d, 's) HashListTable \<times> 'd hl_heap \<times> 's
    \<Rightarrow> (int \<times> ('d, 's) HashListTable \<times> 'd hl_heap \<times> 's) option" where
  "HashListTableRemove d datalen ths =
     (case ths of (t, hp, s) \<Rightarrow>
        let h = hl_Hash t (hl_array_size t) d datalen;
            eq = (\<lambda>e m. hl_Compare t e m d datalen = 1)
        in do {
          root \<leftarrow> hl_root t h;
          case root of
            None \<Rightarrow> Some (- 1, t, hp, s)
          | Some r \<Rightarrow> do {
              b \<leftarrow> bk hp r;
              if hb_bucknext b = None then
                (if eq (hb_data b) (hb_size b) then
                   (let (t1, lk1) = list_unlink r t (links hp)
                    in Some (0, set_root h None t1, hp\<lparr>links := lk1, bk := (bk hp)(r := None)\<rparr>,
                             hl_free_data t (hb_data b) s))
                 else Some (- 1, t, hp, s))
              else do {
                found \<leftarrow> hl_find (bk hp) eq None r;
                case found of
                  None \<Rightarrow> Some (- 1, t, hp, s)
                | Some (prev, hb) \<Rightarrow> do {
                    b \<leftarrow> bk hp hb;
                    let (t1, lk1) = list_unlink hb t (links hp)
                    in (case prev of
                          None \<Rightarrow> Some (0, set_root h (hb_bucknext b) t1,
                                       hp\<lparr>links := lk1, bk := (bk hp)(hb := None)\<rparr>,
                                       hl_free_data t (hb_data b) s)
                        | Some p \<Rightarrow> do {
                            pb \<leftarrow> bk hp p;
                            Some (0, t1,
                              hp\<lparr>links := lk1,
                                 bk := ((bk hp)(p \<mapsto> pb\<lparr>hb_bucknext := hb_bucknext b\<rparr>))(hb := None)\<rparr>,
                              hl_free_data t (hb_data b) s)
                          })
                  }
              }
            }
        })"

definition HashListTableLookup :: "('d, 's) HashListTable option \<Rightarrow> 'd \<Rightarrow> u16 \<Rightarrow> 'd hl_heap \<Rightarrow> 'd option option" where
  "HashListTableLookup ht d datalen hp =
     (case ht of
        None \<Rightarrow> Some None
      | Some t \<Rightarrow> do {
          root \<leftarrow> hl_root t (hl_Hash t (hl_array_size t) d datalen);
          case root of
            None \<Rightarrow> Some None
          | Some r \<Rightarrow> do {
              found \<leftarrow> hl_find (bk hp) (\<lambda>e m. hl_Compare t e m d datalen = 1) None r;
              case found of
                None \<Rightarrow> Some None
              | Some (prev, hb) \<Rightarrow> do { b \<leftarrow> bk hp hb; Some (Some (hb_data b)) }
            }
        })"

definition HashListTableGetListHead :: "('d, 's) HashListTable \<Rightarrow> addr option" where
  "HashListTableGetListHead t = listhead t"

partial_function (option) hl_free_chain :: "('d, 's) HashListTable \<Rightarrow> addr option
    \<Rightarrow> (addr \<Rightarrow> 'd hlb option) \<times> 's \<Rightarrow> ((addr \<Rightarrow> 'd hlb option) \<times> 's) option" where
  "hl_free_chain t p ks =
     (case p of
        None \<Rightarrow> Some ks
      | Some a \<Rightarrow> do {
          b \<leftarrow> fst ks a;
          hl_free_chain t (hb_bucknext b) ((fst ks)(a := None), hl_free_data t (hb_data b) (snd ks))
        })"

fun hl_free_roots :: "('d, 's) HashListTable \<Rightarrow> addr option list
    \<Rightarrow> (addr \<Rightarrow> 'd hlb option) \<times> 's \<Rightarrow> ((addr \<Rightarrow> 'd hlb option) \<times> 's) option" where
  "hl_free_roots t [] ks = Some ks"
| "hl_free_roots t (r # rs) ks = do { ks' \<leftarrow> hl_free_chain t r ks; hl_free_roots t rs ks' }"

definition HashListTableFree :: "('d, 's) HashListTable option \<Rightarrow> 'd hl_heap \<times> 's \<Rightarrow> ('d hl_heap \<times> 's) option" where
  "HashListTableFree ht hs =
     (case ht of
        None \<Rightarrow> Some hs
      | Some t \<Rightarrow> do {
          (k, s) \<leftarrow> hl_free_roots t (hl_array t) (bk (fst hs), snd hs);
          Some ((fst hs)\<lparr>bk := k\<rparr>, s)
        })"

section \<open>Chains, list and table\<close>

fun bseg :: "(addr \<Rightarrow> 'd hlb option) \<Rightarrow> addr option \<Rightarrow> addr list \<Rightarrow> bool" where
  "bseg k p [] = (p = None)"
| "bseg k p (x # xs) = (p = Some x \<and> (\<exists>b. k x = Some b \<and> bseg k (hb_bucknext b) xs))"

definition hl_repr :: "('d, 's) HashListTable \<Rightarrow> 'd hl_heap \<Rightarrow> addr list list \<Rightarrow> addr list \<Rightarrow> bool" where
  "hl_repr t hp cs L \<longleftrightarrow>
     length cs = length (hl_array t) \<and>
     (\<forall>i < length cs. bseg (bk hp) (hl_array t ! i) (cs ! i) \<and> distinct (cs ! i) \<and> set (cs ! i) \<subseteq> set L) \<and>
     (\<forall>i < length cs. \<forall>j < length cs. i \<noteq> j \<longrightarrow> set (cs ! i) \<inter> set (cs ! j) = {}) \<and>
     dseg (links hp) None L None \<and> distinct L \<and> listhead t = first_or L None \<and>
     listtail t = last_or None L \<and> dom (bk hp) = set L"

lemma bseg_cong:
  "(\<And>x. x \<in> set xs \<Longrightarrow> k' x = k x) \<Longrightarrow> bseg k' p xs = bseg k p xs"
  by (induction xs arbitrary: p) auto

lemma bseg_fun: "bseg k p xs \<Longrightarrow> bseg k p ys \<Longrightarrow> xs = ys"
proof (induction xs arbitrary: p ys)
  case Nil
  then show ?case by (cases ys) auto
next
  case (Cons x xs)
  then show ?case by (cases ys) auto
qed

lemma bseg_mid: "bseg k p (us @ x # vs) \<Longrightarrow> \<exists>b. k x = Some b \<and> bseg k (hb_bucknext b) vs"
  by (induction us arbitrary: p) auto

text \<open>Cutting a bucket out of a chain: at the root, or after the bucket \<open>u\<close>.\<close>

lemma bseg_cut:
  assumes "bseg k p (us @ u # x # vs)" "distinct (us @ u # x # vs)" "k u = Some ub" "k x = Some xb"
  shows "bseg ((k(u \<mapsto> ub\<lparr>hb_bucknext := hb_bucknext xb\<rparr>))(x := None)) p (us @ u # vs)"
  using assms
proof (induction us arbitrary: p)
  case Nil
  have "bseg ((k(u \<mapsto> ub\<lparr>hb_bucknext := hb_bucknext xb\<rparr>))(x := None)) (hb_bucknext xb) vs =
        bseg k (hb_bucknext xb) vs"
    by (rule bseg_cong) (use Nil.prems in auto)
  then show ?case using Nil.prems by (auto simp: fun_upd_def)
next
  case (Cons a us)
  then show ?case by auto
qed

lemma hl_find_hit:
  "bseg k (Some a) (us @ x # vs) \<Longrightarrow> k x = Some b \<Longrightarrow> eq (hb_data b) (hb_size b) \<Longrightarrow>
   (\<And>u c. u \<in> set us \<Longrightarrow> k u = Some c \<Longrightarrow> \<not> eq (hb_data c) (hb_size c)) \<Longrightarrow>
   hl_find k eq prev a = Some (Some (last_or prev us, x))"
proof (induction us arbitrary: a prev)
  case Nil
  then show ?case by (subst hl_find.simps) auto
next
  case (Cons u us)
  obtain c where c: "a = u" "k u = Some c" "bseg k (hb_bucknext c) (us @ x # vs)"
    "\<not> eq (hb_data c) (hb_size c)"
    using Cons.prems(1) Cons.prems(4)[of u] by auto
  obtain n where n: "hb_bucknext c = Some n" using c(3) by (cases us) auto
  have "hl_find k eq (Some a) n = Some (Some (last_or (Some a) us, x))"
    using Cons.IH[of n "Some a"] c n Cons.prems(2,3,4) by auto
  then show ?case using c n by (subst hl_find.simps) simp
qed

lemma hl_find_miss:
  "bseg k (Some a) us \<Longrightarrow> (\<And>u c. u \<in> set us \<Longrightarrow> k u = Some c \<Longrightarrow> \<not> eq (hb_data c) (hb_size c)) \<Longrightarrow>
   hl_find k eq prev a = Some None"
proof (induction us arbitrary: a prev)
  case Nil
  then show ?case by simp
next
  case (Cons u us)
  obtain c where c: "a = u" "k u = Some c" "bseg k (hb_bucknext c) us" "\<not> eq (hb_data c) (hb_size c)"
    using Cons.prems(1) Cons.prems(2)[of u] by auto
  show ?case
  proof (cases "hb_bucknext c")
    case None
    then show ?thesis using c by (subst hl_find.simps) simp
  next
    case (Some n)
    then have "hl_find k eq (Some a) n = Some None" using Cons.IH[of n "Some a"] c Cons.prems(2) by auto
    then show ?thesis using c Some by (subst hl_find.simps) simp
  qed
qed

lemma list_unlink_repr:
  assumes "dseg lk None (ys @ hb # zs) None" "distinct (ys @ hb # zs)"
    and "listhead t = first_or (ys @ hb # zs) None" "listtail t = last_or None (ys @ hb # zs)"
  shows "\<exists>t1 lk1. list_unlink hb t lk = (t1, lk1) \<and> dseg lk1 None (ys @ zs) None \<and>
     t1 = t\<lparr>listhead := first_or (ys @ zs) None, listtail := last_or None (ys @ zs)\<rparr>"
proof -
  have seg: "dseg lk None ys (Some hb)" "dseg lk (Some hb) zs None" "n_prev (lk hb) = last_or None ys"
    "n_next (lk hb) = first_or zs None"
    using assms(1) by (auto simp: dseg_append)
  let ?t = "set_prev_opt (first_or zs None) (last_or None ys)
              (set_next_opt (last_or None ys) (first_or zs None) lk)"
  have d: "dseg ?t None (ys @ zs) None"
    by (rule relink_dseg[OF seg(1,2)]) (use assms(2) in auto)
  have "list_unlink hb t lk = (t\<lparr>listhead := first_or (ys @ zs) None, listtail := last_or None (ys @ zs)\<rparr>, ?t)"
    using assms(2-4) seg(3,4)
    by (cases ys rule: rev_cases; cases zs) (auto simp: list_unlink_def Let_def)
  then show ?thesis using d by blast
qed

section \<open>The table is a keyed multimap with an insertion order\<close>

definition hl_callbacks :: "('d \<Rightarrow> u16 \<Rightarrow> 'k) \<Rightarrow> ('k \<Rightarrow> u32) \<Rightarrow> ('d, 's) HashListTable \<Rightarrow> bool" where
  "hl_callbacks key h t \<longleftrightarrow>
     (\<forall>d l. hl_Hash t (hl_array_size t) d l = h (key d l)) \<and>
     (\<forall>k. unat (h k) < length (hl_array t)) \<and>
     (\<forall>e m d l. hl_Compare t e m d l = 1 \<longleftrightarrow> key e m = key d l)"

definition has_key :: "('d \<Rightarrow> u16 \<Rightarrow> 'k) \<Rightarrow> (addr \<Rightarrow> 'd hlb option) \<Rightarrow> 'k \<Rightarrow> addr \<Rightarrow> bool" where
  "has_key key k kk a = (case k a of None \<Rightarrow> False | Some b \<Rightarrow> key (hb_data b) (hb_size b) = kk)"

definition data_at :: "(addr \<Rightarrow> 'd hlb option) \<Rightarrow> addr \<Rightarrow> 'd" where
  "data_at k a = hb_data (the (k a))"

definition size_at :: "(addr \<Rightarrow> 'd hlb option) \<Rightarrow> addr \<Rightarrow> u16" where
  "size_at k a = hb_size (the (k a))"

text \<open>The entries of a key, given the chains \<open>cs\<close>.\<close>

definition ent_of :: "('d \<Rightarrow> u16 \<Rightarrow> 'k) \<Rightarrow> ('k \<Rightarrow> u32) \<Rightarrow> (addr \<Rightarrow> 'd hlb option) \<Rightarrow> addr list list \<Rightarrow> 'k \<Rightarrow> 'd list" where
  "ent_of key h k cs kk = map (data_at k) (filter (has_key key k kk) (cs ! unat (h kk)))"

lemma ent_of_cong:
  assumes "\<And>kk. kk \<noteq> k0 \<Longrightarrow> map (data_at k') (filter (has_key key k' kk) (cs' ! unat (h kk))) =
      map (data_at k) (filter (has_key key k kk) (cs ! unat (h kk)))"
  shows "ent_of key h k' cs' = (ent_of key h k cs)(k0 := ent_of key h k' cs' k0)"
  using assms by (auto simp: ent_of_def)

lemma key_view_cong:
  assumes "\<And>x. x \<in> set xs \<Longrightarrow> map_option (\<lambda>b. (hb_data b, hb_size b)) (k' x) = map_option (\<lambda>b. (hb_data b, hb_size b)) (k x)"
    and "\<And>x. x \<in> set xs \<Longrightarrow> k x \<noteq> None"
  shows "map (data_at k') (filter (has_key key k' kk) xs) = map (data_at k) (filter (has_key key k kk) xs)"
proof -
  have "has_key key k' kk x = has_key key k kk x \<and> data_at k' x = data_at k x" if "x \<in> set xs" for x
    using assms(1)[OF that] assms(2)[OF that] by (auto simp: has_key_def data_at_def)
  then show ?thesis by (intro map_cong filter_cong) auto
qed

lemma hl_root_inv:
  assumes "hl_callbacks key h t"
  shows "hl_Hash t (hl_array_size t) d l = h (key d l)"
    "hl_root t (h k) = Some (hl_array t ! unat (h k))"
    "(\<lambda>e m. hl_Compare t e m d l = 1) = (\<lambda>e m. key e m = key d l)"
    "unat (h k) < length (hl_array t)"
  using assms by (auto simp: hl_callbacks_def hl_root_def)

lemma hl_lookup_repr:
  assumes r: "hl_repr t hp cs L" and c: "hl_callbacks key h t"
  shows "HashListTableLookup (Some t) d l hp =
    Some (case ent_of key h (bk hp) cs (key d l) of [] \<Rightarrow> None | x # _ \<Rightarrow> Some x)"
proof -
  let ?xs = "cs ! unat (h (key d l))" and ?k = "bk hp"
  have len: "unat (h (key d l)) < length cs" using hl_root_inv(4)[OF c] r by (simp add: hl_repr_def)
  have b: "bseg ?k (hl_array t ! unat (h (key d l))) ?xs" and live: "set ?xs \<subseteq> dom ?k"
    using r len by (auto simp: hl_repr_def)
  show ?thesis
  proof (cases "filter (has_key key ?k (key d l)) ?xs")
    case Nil
    then have "hl_find ?k (\<lambda>e m. key e m = key d l) None a = Some None"
      if "hl_array t ! unat (h (key d l)) = Some a" for a
      using that b by (intro hl_find_miss[of _ _ ?xs]) (auto simp: filter_empty_conv has_key_def split: option.splits)
    then show ?thesis using Nil hl_root_inv[OF c]
      by (auto simp: HashListTableLookup_def ent_of_def split: option.split)
  next
    case (Cons x ys)
    then obtain us vs where us: "?xs = us @ x # vs" "\<forall>u \<in> set us. \<not> has_key key ?k (key d l) u"
      "has_key key ?k (key d l) x"
      by (auto simp: filter_eq_Cons_iff)
    obtain y where y: "?k x = Some y" "key (hb_data y) (hb_size y) = key d l"
      using us(3) by (auto simp: has_key_def split: option.splits)
    obtain a where a: "hl_array t ! unat (h (key d l)) = Some a" using b us(1) by (cases us) auto
    have "hl_find ?k (\<lambda>e m. key e m = key d l) None a = Some (Some (last_or None us, x))"
      by (rule hl_find_hit[of _ _ us x vs y]) (use a b us y in \<open>auto simp: has_key_def\<close>)
    then show ?thesis using Cons a y hl_root_inv[OF c]
      by (auto simp: HashListTableLookup_def ent_of_def data_at_def)
  qed
qed

lemma hl_add_repr:
  assumes r: "hl_repr t hp cs L" and c: "hl_callbacks key h t" and a: "a \<notin> set L"
  shows "\<exists>t' hp'. HashListTableAdd (Some a) (Some t) (Some d) l hp = Some (0, Some t', hp') \<and>
    hl_repr t' hp' (cs[unat (h (key d l)) := a # cs ! unat (h (key d l))]) (L @ [a]) \<and> hl_callbacks key h t' \<and>
    data_at (bk hp') a = d \<and> size_at (bk hp') a = l \<and> (\<forall>x. x \<noteq> a \<longrightarrow> bk hp' x = bk hp x) \<and>
    ent_of key h (bk hp') (cs[unat (h (key d l)) := a # cs ! unat (h (key d l))]) =
      (ent_of key h (bk hp) cs)(key d l := d # ent_of key h (bk hp) cs (key d l))"
proof -
  define i where "i = unat (h (key d l))"
  define b where "b = \<lparr>hb_data = d, hb_size = l, hb_bucknext = hl_array t ! i\<rparr>"
  let ?k = "(bk hp)(a \<mapsto> b)" and ?cs = "cs[i := a # cs ! i]"
  let ?lk = "set_next_opt (last_or None L) (Some a) (set_prev a (last_or None L) (set_next a None (links hp)))"
  define t' where "t' = (set_root (h (key d l)) (Some a) t)\<lparr>listhead := first_or (L @ [a]) None, listtail := Some a\<rparr>"
  define hp' where "hp' = hp\<lparr>links := ?lk, bk := ?k\<rparr>"
  note rr = r[unfolded hl_repr_def] and ri = hl_root_inv[OF c]
  have i: "i < length cs" using ri(4) rr by (simp add: i_def)
  have "HashListTableAdd (Some a) (Some t) (Some d) l hp = Some (0, Some t', hp')"
  proof (cases L rule: rev_cases)
    case Nil
    then show ?thesis using rr ri by (simp add: HashListTableAdd_def Let_def set_root_def t'_def hp'_def b_def i_def
        set_prev_def set_next_def)
  next
    case (snoc M z)
    then show ?thesis using rr ri a
      by (cases M) (auto simp: HashListTableAdd_def Let_def set_root_def t'_def hp'_def b_def i_def
        set_prev_def set_next_def)
  qed
  moreover have "hl_repr t' hp' ?cs (L @ [a])"
  proof -
    have "bseg ?k (hl_array t' ! j) (?cs ! j)" if "j < length cs" for j
    proof -
      have "bseg ?k (hl_array t ! j) (cs ! j) = bseg (bk hp) (hl_array t ! j) (cs ! j)"
        by (rule bseg_cong) (use rr that a in auto)
      then show ?thesis using rr that i
        by (cases "j = i") (auto simp: t'_def set_root_def b_def i_def[symmetric])
    qed
    moreover have "dseg ?lk None (L @ [a]) None"
      by (rule append_dseg[of "links hp"]) (use rr a in \<open>auto simp: set_next_def set_prev_def\<close>)
    moreover have "distinct (?cs ! j) \<and> set (?cs ! j) \<subseteq> set (L @ [a])" if "j < length cs" for j
      using rr that i a by (cases "j = i") auto
    moreover have "set (?cs ! j) \<inter> set (?cs ! m) = {}" if "j < length cs" "m < length cs" "j \<noteq> m" for j m
      using rr that i a by (cases "j = i"; cases "m = i") auto
    ultimately show ?thesis using rr a
      by (auto simp: hl_repr_def t'_def hp'_def set_root_def)
  qed
  moreover have "hl_callbacks key h t'" using c by (simp add: hl_callbacks_def t'_def set_root_def)
  moreover have "ent_of key h ?k ?cs = (ent_of key h (bk hp) cs)(key d l := d # ent_of key h (bk hp) cs (key d l))"
  proof
    fix kk
    have live1: "x \<in> set L" if "x \<in> set (cs ! unat (h kk))" for x
      using rr ri(4)[of kk] that by auto
    then have live: "x \<in> set L" "\<exists>y. bk hp x = Some y" if "x \<in> set (cs ! unat (h kk))" for x
      using rr that by (blast, metis domD)
    have same: "map (data_at ?k) (filter (has_key key ?k kk) (cs ! unat (h kk))) =
        map (data_at (bk hp)) (filter (has_key key (bk hp) kk) (cs ! unat (h kk)))"
      by (rule key_view_cong) (use live a in \<open>auto split: if_splits\<close>)
    show "ent_of key h ?k ?cs kk =
      ((ent_of key h (bk hp) cs)(key d l := d # ent_of key h (bk hp) cs (key d l))) kk"
      using same i by (cases "unat (h kk) = i") (auto simp: ent_of_def i_def has_key_def data_at_def b_def)
  qed
  moreover have "data_at (bk hp') a = d" "size_at (bk hp') a = l" by (simp_all add: data_at_def size_at_def hp'_def b_def)
  ultimately show ?thesis by (auto simp: hp'_def i_def)
qed

text \<open>Removing the first bucket with the key.\<close>

lemma cs_update:
  assumes "hl_repr t hp cs L" "i < length cs" "cs ! i = us @ x # vs"
  shows "length (cs[i := us @ vs]) = length (hl_array t)"
    "\<And>j. j < length cs \<Longrightarrow> distinct (cs[i := us @ vs] ! j) \<and> set (cs[i := us @ vs] ! j) \<subseteq> set (remove1 x L)"
    "\<And>j m. j < length cs \<Longrightarrow> m < length cs \<Longrightarrow> j \<noteq> m \<Longrightarrow> set (cs[i := us @ vs] ! j) \<inter> set (cs[i := us @ vs] ! m) = {}"
proof -
  note r = assms(1)[unfolded hl_repr_def]
  have x: "x \<in> set L" "distinct L" using r assms(2,3) by auto
  show "length (cs[i := us @ vs]) = length (hl_array t)" using r by simp
  have di: "distinct (us @ x # vs)" "set (us @ x # vs) \<subseteq> set L" using r assms(2,3) by metis+
  show "distinct (cs[i := us @ vs] ! j) \<and> set (cs[i := us @ vs] ! j) \<subseteq> set (remove1 x L)"
    if "j < length cs" for j
  proof (cases "j = i")
    case True
    then show ?thesis using di x assms(2) by (auto simp: set_remove1_eq)
  next
    case False
    then have "set (cs ! j) \<inter> set (us @ x # vs) = {}" "distinct (cs ! j)" "set (cs ! j) \<subseteq> set L"
      using r that assms(2,3) by metis+
    then show ?thesis using False x by (auto simp: set_remove1_eq)
  qed
  have disj: "set (cs ! j) \<inter> set (us @ vs) = {}" if "j < length cs" "j \<noteq> i" for j
  proof -
    have "set (cs ! j) \<inter> set (cs ! i) = {}" using r that assms(2) by auto
    then show ?thesis unfolding assms(3) by auto
  qed
  show "set (cs[i := us @ vs] ! j) \<inter> set (cs[i := us @ vs] ! m) = {}"
    if "j < length cs" "m < length cs" "j \<noteq> m" for j m
    using r that disj[of j] disj[of m] assms(2)
    by (cases "j = i"; cases "m = i") (auto simp: Int_commute)
qed

lemma bseg_other:
  assumes "hl_repr t hp cs L" "i < length cs" "j < length cs" "j \<noteq> i"
    "\<And>x. x \<notin> set (cs ! i) \<Longrightarrow> k' x = bk hp x"
  shows "bseg k' (hl_array t ! j) (cs ! j)"
proof -
  have "bseg k' (hl_array t ! j) (cs ! j) = bseg (bk hp) (hl_array t ! j) (cs ! j)"
    by (rule bseg_cong) (use assms in \<open>auto simp: hl_repr_def disjoint_iff\<close>)
  then show ?thesis using assms(1,3) by (auto simp: hl_repr_def)
qed

lemma remove_finish:
  assumes r: "hl_repr t hp cs L" and i: "i < length cs" "cs ! i = us @ x # vs" and L: "L = L1 @ x # L2"
    and a: "length (hl_array t') = length (hl_array t)" "\<And>j. j \<noteq> i \<Longrightarrow> j < length cs \<Longrightarrow> hl_array t' ! j = hl_array t ! j"
    and k: "bseg (bk hp') (hl_array t' ! i) (us @ vs)" "\<And>y. y \<notin> set (cs ! i) \<Longrightarrow> bk hp' y = bk hp y"
      "dom (bk hp') = dom (bk hp) - {x}"
    and l: "dseg (links hp') None (L1 @ L2) None" "listhead t' = first_or (L1 @ L2) None"
      "listtail t' = last_or None (L1 @ L2)"
  shows "hl_repr t' hp' (cs[i := us @ vs]) (L1 @ L2)"
proof -
  note cu = cs_update[OF r i]
  have d: "distinct L" "dom (bk hp) = set L" using r by (simp_all add: hl_repr_def)
  then have rm: "remove1 x L = L1 @ L2" "set L - {x} = set (L1 @ L2)" using L by (auto simp: remove1_append)
  have "bseg (bk hp') (hl_array t' ! j) (cs[i := us @ vs] ! j)" if "j < length cs" for j
    using that a(2)[of j] bseg_other[OF r i(1) that _ k(2)] k(1) i(1) by (cases "j = i") auto
  then show ?thesis using cu a(1) d k(3) l rm r L by (auto simp: hl_repr_def)
qed

lemma hl_remove_repr:
  assumes r: "hl_repr t hp cs L" and c: "hl_callbacks key h t"
    and i: "cs ! unat (h (key d l)) = us @ x # vs" "\<forall>u \<in> set us. \<not> has_key key (bk hp) (key d l) u"
      "has_key key (bk hp) (key d l) x"
    and L: "L = L1 @ x # L2"
  shows "\<exists>t' hp'. HashListTableRemove d l (t, hp, s) =
      Some (0, t', hp', hl_free_data t (data_at (bk hp) x) s) \<and>
    hl_repr t' hp' (cs[unat (h (key d l)) := us @ vs]) (L1 @ L2) \<and> hl_callbacks key h t' \<and>
    (\<forall>y. y \<noteq> x \<longrightarrow> map_option (\<lambda>b. (hb_data b, hb_size b)) (bk hp' y) =
                    map_option (\<lambda>b. (hb_data b, hb_size b)) (bk hp y))"
proof -
  define n where "n = unat (h (key d l))"
  note rr = r[unfolded hl_repr_def] and ri = hl_root_inv[OF c]
  have n: "n < length cs" "n < length (hl_array t)" "cs ! n = us @ x # vs"
    using ri(4) rr i(1) by (simp_all add: n_def)
  have b: "bseg (bk hp) (hl_array t ! n) (us @ x # vs)" and dist: "distinct (us @ x # vs)"
    using rr n(1,3) by metis+
  obtain xb where xb: "bk hp x = Some xb" "key (hb_data xb) (hb_size xb) = key d l"
    using i(3) by (auto simp: has_key_def split: option.splits)
  have cmp: "hl_Compare t e m d l = 1 \<longleftrightarrow> key e m = key d l" for e m
    using c by (simp add: hl_callbacks_def)
  obtain r0 where r0: "hl_array t ! n = Some r0" using b by (cases us) auto
  have find: "hl_find (bk hp) (\<lambda>e m. key e m = key d l) None r0 = Some (Some (last_or None us, x))"
    by (rule hl_find_hit[of _ _ us x vs xb]) (use b r0 i(2) xb in \<open>auto simp: has_key_def\<close>)
  obtain t1 lk1 where u: "list_unlink x t (links hp) = (t1, lk1)" "dseg lk1 None (L1 @ L2) None"
    "t1 = t\<lparr>listhead := first_or (L1 @ L2) None, listtail := last_or None (L1 @ L2)\<rparr>"
    using list_unlink_repr[of "links hp" L1 x L2 t] rr L by auto
  let ?s = "hl_free_data t (data_at (bk hp) x) s"
  show ?thesis
  proof (cases us rule: rev_cases)
    case Nil
    let ?hp = "hp\<lparr>links := lk1, bk := (bk hp)(x := None)\<rparr>" and ?t = "set_root (h (key d l)) (hb_bucknext xb) t1"
    have x0: "r0 = x" "bseg (bk hp) (hb_bucknext xb) vs" using b Nil r0 xb by auto
    have run: "HashListTableRemove d l (t, hp, s) = Some (0, ?t, ?hp, ?s)"
      using find r0 xb u(1) ri x0(1) Nil cmp
      by (auto simp: HashListTableRemove_def n_def data_at_def Let_def)
    have "bseg ((bk hp)(x := None)) (hb_bucknext xb) vs = bseg (bk hp) (hb_bucknext xb) vs"
      by (rule bseg_cong) (use dist in auto)
    then have "hl_repr ?t ?hp (cs[n := us @ vs]) (L1 @ L2)"
      using n(2) x0(2) Nil u(2) n(3)
      by (intro remove_finish[OF r n(1,3) L]) (auto simp: set_root_def u(3) n_def)
    moreover have "hl_callbacks key h ?t" using c by (simp add: hl_callbacks_def u(3) set_root_def)
    ultimately show ?thesis using run by (auto simp: n_def)
  next
    case (snoc us' w)
    obtain wb where wb: "bk hp w = Some wb" "hb_bucknext wb = Some x"
      using bseg_mid[of "bk hp" "hl_array t ! n" us' w "x # vs"] b snoc by auto
    let ?k = "((bk hp)(w \<mapsto> wb\<lparr>hb_bucknext := hb_bucknext xb\<rparr>))(x := None)"
    let ?hp = "hp\<lparr>links := lk1, bk := ?k\<rparr>"
    obtain rb where rb: "bk hp r0 = Some rb" "hb_bucknext rb \<noteq> None"
      using b r0 snoc by (cases us') (auto simp: neq_Nil_conv elim: bseg.elims(2))
    have run: "HashListTableRemove d l (t, hp, s) = Some (0, t1, ?hp, ?s)"
      using find r0 xb u(1) ri snoc wb rb
      by (auto simp: HashListTableRemove_def n_def data_at_def Let_def)
    have "bseg ?k (hl_array t ! n) (us' @ w # vs)"
      by (rule bseg_cut) (use b snoc dist wb xb in auto)
    then have "hl_repr t1 ?hp (cs[n := us @ vs]) (L1 @ L2)"
      using snoc u(2) n(3) wb by (intro remove_finish[OF r n(1,3) L]) (auto simp: u(3))
    moreover have "hl_callbacks key h t1" using c by (simp add: hl_callbacks_def u(3))
    ultimately show ?thesis using run wb by (auto simp: n_def)
  qed
qed

lemma ent_of_remove:
  assumes r: "hl_repr t hp cs L" and c: "hl_callbacks key h t"
    and i: "cs ! unat (h (key d l)) = us @ x # vs" "\<forall>u \<in> set us. \<not> has_key key (bk hp) (key d l) u"
      "has_key key (bk hp) (key d l) x"
    and k': "\<forall>y. y \<noteq> x \<longrightarrow> map_option (\<lambda>b. (hb_data b, hb_size b)) (k' y) =
                    map_option (\<lambda>b. (hb_data b, hb_size b)) (bk hp y)"
  shows "ent_of key h k' (cs[unat (h (key d l)) := us @ vs]) =
    (ent_of key h (bk hp) cs)(key d l := tl (ent_of key h (bk hp) cs (key d l)))"
proof
  fix kk
  define n where "n = unat (h (key d l))"
  note ri = hl_root_inv[OF c]
  have len: "n < length cs" "unat (h kk) < length cs" using ri(4) r by (simp_all add: hl_repr_def n_def)
  have dist: "distinct (us @ x # vs)" using r len(1) i(1) unfolding hl_repr_def n_def by metis
  have dom: "set (cs ! unat (h kk)) \<subseteq> dom (bk hp)" using r len(2) by (simp add: hl_repr_def)
  have other: "unat (h kk) \<noteq> n \<Longrightarrow> x \<notin> set (cs ! unat (h kk))"
    using r len i(1) by (auto simp: hl_repr_def n_def disjoint_iff)
  have view: "x \<notin> set xs \<Longrightarrow> set xs \<subseteq> dom (bk hp) \<Longrightarrow>
      map (data_at k') (filter (has_key key k' kk) xs) =
      map (data_at (bk hp)) (filter (has_key key (bk hp) kk) xs)" for xs
    using k' by (intro key_view_cong) auto
  have us0: "filter (has_key key (bk hp) (key d l)) us = []" using i(2) by (simp add: filter_empty_conv)
  have kx: "has_key key (bk hp) kk x \<longleftrightarrow> kk = key d l"
    using i(3) by (auto simp: has_key_def split: option.splits)
  show "ent_of key h k' (cs[unat (h (key d l)) := us @ vs]) kk =
    ((ent_of key h (bk hp) cs)(key d l := tl (ent_of key h (bk hp) cs (key d l)))) kk"
  proof (cases "unat (h kk) = n")
    case True
    then have s: "cs ! unat (h kk) = us @ x # vs" using i(1) by (simp add: n_def)
    then have "set (us @ vs) \<subseteq> dom (bk hp)" "x \<notin> set (us @ vs)" using dom dist by auto
    then show ?thesis
      using view[of "us @ vs"] True i(1) len(1) kx us0 by (auto simp: ent_of_def n_def)
  next
    case False
    then show ?thesis using view[of "cs ! unat (h kk)"] other[OF False] dom len(1)
      by (auto simp: ent_of_def n_def)
  qed
qed

partial_function (option) hl_chain :: "(addr \<Rightarrow> 'd hlb option) \<Rightarrow> addr option \<Rightarrow> addr list option" where
  "hl_chain k p = (case p of None \<Rightarrow> Some []
     | Some a \<Rightarrow> do { b \<leftarrow> k a; xs \<leftarrow> hl_chain k (hb_bucknext b); Some (a # xs) })"

lemma hl_chain_bseg: "bseg k p xs \<Longrightarrow> hl_chain k p = Some xs"
  by (induction xs arbitrary: p) (subst hl_chain.simps; force)+

definition hl_ent :: "('d \<Rightarrow> u16 \<Rightarrow> 'k) \<Rightarrow> ('k \<Rightarrow> u32) \<Rightarrow> ('d, 's) HashListTable \<times> 'd hl_heap \<times> 's \<Rightarrow> 'k \<Rightarrow> 'd list" where
  "hl_ent key h ths kk = (case ths of (t, hp, s) \<Rightarrow>
     map (data_at (bk hp)) (filter (has_key key (bk hp) kk) (the (hl_chain (bk hp) (hl_array t ! unat (h kk))))))"

text \<open>\<open>mal\<close> is the allocator: on a heap with finitely many live buckets it finds a new address.\<close>

definition hl_inv :: "('d \<Rightarrow> u16 \<Rightarrow> 'k) \<Rightarrow> ('k \<Rightarrow> u32) \<Rightarrow> ('d hl_heap \<Rightarrow> addr)
    \<Rightarrow> ('d, 's) HashListTable \<times> 'd hl_heap \<times> 's \<Rightarrow> bool" where
  "hl_inv key h mal ths \<longleftrightarrow> (case ths of (t, hp, s) \<Rightarrow>
     hl_callbacks key h t \<and> (\<exists>cs L. hl_repr t hp cs L) \<and>
     (\<forall>hp. finite (dom (bk hp)) \<longrightarrow> mal hp \<notin> dom (bk hp)))"

definition hl_add :: "('d hl_heap \<Rightarrow> addr) \<Rightarrow> 'd \<Rightarrow> u16 \<Rightarrow> ('d, 's) HashListTable \<times> 'd hl_heap \<times> 's
    \<Rightarrow> (int \<times> ('d, 's) HashListTable \<times> 'd hl_heap \<times> 's) option" where
  "hl_add mal d l ths = (case ths of (t, hp, s) \<Rightarrow>
     (case HashListTableAdd (Some (mal hp)) (Some t) (Some d) l hp of
        Some (r, Some t', hp') \<Rightarrow> Some (r, t', hp', s) | _ \<Rightarrow> None))"

definition hl_lookup :: "'d \<Rightarrow> u16 \<Rightarrow> ('d, 's) HashListTable \<times> 'd hl_heap \<times> 's \<Rightarrow> 'd option option" where
  "hl_lookup d l ths = (case ths of (t, hp, s) \<Rightarrow> HashListTableLookup (Some t) d l hp)"

lemma hl_ent_repr:
  assumes "hl_repr t hp cs L" "hl_callbacks key h t"
  shows "hl_ent key h (t, hp, s) = ent_of key h (bk hp) cs"
proof
  fix kk
  have "bseg (bk hp) (hl_array t ! unat (h kk)) (cs ! unat (h kk))"
    using assms hl_root_inv(4)[OF assms(2), of kk] by (auto simp: hl_repr_def)
  then show "hl_ent key h (t, hp, s) kk = ent_of key h (bk hp) cs kk"
    by (simp add: hl_ent_def ent_of_def hl_chain_bseg)
qed

lemma ent_split:
  assumes "ent_of key h (bk hp) cs kk \<noteq> []"
  obtains us x vs where "cs ! unat (h kk) = us @ x # vs" "\<forall>u \<in> set us. \<not> has_key key (bk hp) kk u"
    "has_key key (bk hp) kk x" "ent_of key h (bk hp) cs kk = data_at (bk hp) x # tl (ent_of key h (bk hp) cs kk)"
proof -
  obtain x ys where "filter (has_key key (bk hp) kk) (cs ! unat (h kk)) = x # ys"
    using assms by (cases "filter (has_key key (bk hp) kk) (cs ! unat (h kk))") (auto simp: ent_of_def)
  then show thesis using that by (auto simp: filter_eq_Cons_iff ent_of_def)
qed

interpretation hlt: keyed_multimap "hl_inv key h mal" "hl_ent key h" key "hl_add mal" hl_lookup HashListTableRemove
  for key :: "'d \<Rightarrow> u16 \<Rightarrow> 'k" and h and mal
proof
  fix ths :: "('d, 's) HashListTable \<times> 'd hl_heap \<times> 's" and d l
  assume inv: "hl_inv key h mal ths"
  obtain t hp s where ths: "ths = (t, hp, s)" by (metis prod.exhaust)
  obtain cs L where r: "hl_repr t hp cs L" and c: "hl_callbacks key h t"
    and m: "\<forall>hp. finite (dom (bk hp)) \<longrightarrow> mal hp \<notin> dom (bk hp)"
    using inv ths by (auto simp: hl_inv_def)
  note e = hl_ent_repr[OF r c, of s]
  have "mal hp \<notin> set L" using m r by (metis hl_repr_def finite_set)
  from hl_add_repr[OF r c this, of d l] obtain t' hp' cs' L' where a:
    "HashListTableAdd (Some (mal hp)) (Some t) (Some d) l hp = Some (0, Some t', hp')"
    "hl_repr t' hp' cs' L'" "hl_callbacks key h t'"
    "ent_of key h (bk hp') cs' = (ent_of key h (bk hp) cs)(key d l := d # ent_of key h (bk hp) cs (key d l))"
    by blast
  show "\<exists>t'. hl_add mal d l ths = Some (0, t') \<and> hl_inv key h mal t' \<and>
       hl_ent key h t' = (hl_ent key h ths)(key d l := d # hl_ent key h ths (key d l))"
    using a hl_ent_repr[OF a(2,3), of s] e m
    by (intro exI[of _ "(t', hp', s)"]) (auto simp: hl_add_def hl_inv_def ths)
  show "hl_lookup d l ths = Some (case hl_ent key h ths (key d l) of [] \<Rightarrow> None | x # _ \<Rightarrow> Some x)"
    using hl_lookup_repr[OF r c, of d l] e by (simp add: hl_lookup_def ths)
  assume "hl_ent key h ths (key d l) \<noteq> []"
  then have "ent_of key h (bk hp) cs (key d l) \<noteq> []" using e ths by simp
  then obtain us x vs where sp: "cs ! unat (h (key d l)) = us @ x # vs"
    "\<forall>u \<in> set us. \<not> has_key key (bk hp) (key d l) u" "has_key key (bk hp) (key d l) x"
    by (rule ent_split)
  have "x \<in> set L" using r sp(3) by (auto simp: has_key_def hl_repr_def split: option.splits)
  then obtain L1 L2 where L: "L = L1 @ x # L2" by (meson split_list)
  obtain t2 hp2 where q: "HashListTableRemove d l (t, hp, s) =
        Some (0, t2, hp2, hl_free_data t (data_at (bk hp) x) s)"
    "hl_repr t2 hp2 (cs[unat (h (key d l)) := us @ vs]) (L1 @ L2)" "hl_callbacks key h t2"
    "\<forall>y. y \<noteq> x \<longrightarrow> map_option (\<lambda>b. (hb_data b, hb_size b)) (bk hp2 y) =
                    map_option (\<lambda>b. (hb_data b, hb_size b)) (bk hp y)"
    using hl_remove_repr[OF r c sp L, of s] by blast
  show "\<exists>t'. HashListTableRemove d l ths = Some (0, t') \<and> hl_inv key h mal t' \<and>
       hl_ent key h t' = (hl_ent key h ths)(key d l := tl (hl_ent key h ths (key d l)))"
    using q(1-3) hl_ent_repr[OF q(2,3)] e ent_of_remove[OF r c sp q(4)] m
    by (auto simp: hl_inv_def ths)
qed

section \<open>Properties\<close>

text \<open>Claim C25: The hash list table satisfies the laws of the keyed multimap: with callbacks that agree on a
  key and an allocator that returns unused addresses, adding data makes lookups of its key return it
  and leaves the other keys alone, and removing the key again restores every lookup; no chain walk
  reads a bucket that is not allocated.\<close>

theorem hash_list_map_laws:
  assumes "hl_inv key h mal (t, hp, s)"
  shows "\<exists>t1 hp1 t2 hp2 s2. HashListTableAdd (Some (mal hp)) (Some t) (Some d) l hp = Some (0, Some t1, hp1) \<and>
     (\<forall>e m. HashListTableLookup (Some t1) e m hp1 =
        (if key e m = key d l then Some (Some d) else HashListTableLookup (Some t) e m hp)) \<and>
     HashListTableRemove d l (t1, hp1, s) = Some (0, t2, hp2, s2) \<and> hl_inv key h mal (t2, hp2, s2) \<and>
     (\<forall>e m. HashListTableLookup (Some t2) e m hp2 = HashListTableLookup (Some t) e m hp)"
proof -
  obtain u where u: "hl_add mal d l (t, hp, s) = Some (0, u)" "hl_inv key h mal u"
    "hl_ent key h u = (hl_ent key h (t, hp, s))(key d l := d # hl_ent key h (t, hp, s) (key d l))"
    using hlt.add_ent[OF assms] by blast
  obtain t1 hp1 where t1: "u = (t1, hp1, s)"
    "HashListTableAdd (Some (mal hp)) (Some t) (Some d) l hp = Some (0, Some t1, hp1)"
    using u(1) by (auto simp: hl_add_def split: option.splits prod.splits)
  obtain t2 hp2 s2 where r: "HashListTableRemove d l u = Some (0, t2, hp2, s2)" "hl_inv key h mal (t2, hp2, s2)"
    "hl_ent key h (t2, hp2, s2) = hl_ent key h (t, hp, s)"
    using hlt.remove_ent[OF u(2), of d l] u(3) by fastforce
  have "HashListTableLookup (Some t1) e m hp1 =
     (if key e m = key d l then Some (Some d) else HashListTableLookup (Some t) e m hp)" for e m
    using hlt.lookup_after_add[OF assms u(1), of e m] t1(1) by (simp add: hl_lookup_def)
  moreover have "HashListTableLookup (Some t2) e m hp2 = HashListTableLookup (Some t) e m hp" for e m
    using hlt.lookup_ent[OF r(2), of e m] hlt.lookup_ent[OF assms, of e m] r(3) by (simp add: hl_lookup_def)
  ultimately show ?thesis using t1 r(1,2) by auto
qed

text \<open>Removing a key that is not in the hash list table fails with -1 and changes nothing, also
  when its bucket holds a single entry of another key.\<close>

theorem hash_list_remove_absent:
  assumes "hl_inv key h mal (t, hp, s)" "HashListTableLookup (Some t) d l hp = Some None"
  shows "HashListTableRemove d l (t, hp, s) = Some (- 1, t, hp, s)"
proof -
  obtain cs L where r: "hl_repr t hp cs L" and c: "hl_callbacks key h t"
    using assms by (auto simp: hl_inv_def)
  let ?xs = "cs ! unat (h (key d l))"
  note ri = hl_root_inv[OF c]
  have b: "bseg (bk hp) (hl_array t ! unat (h (key d l))) ?xs" using r ri(4) by (simp add: hl_repr_def)
  have "ent_of key h (bk hp) cs (key d l) = []"
    using assms(2) hl_lookup_repr[OF r c, of d l] by (auto split: list.splits)
  then have no: "\<And>u c. u \<in> set ?xs \<Longrightarrow> bk hp u = Some c \<Longrightarrow> key (hb_data c) (hb_size c) \<noteq> key d l"
    by (auto simp: ent_of_def filter_empty_conv has_key_def)
  show ?thesis
  proof (cases "hl_array t ! unat (h (key d l))")
    case None
    then show ?thesis using ri by (simp add: HashListTableRemove_def Let_def)
  next
    case (Some a)
    then obtain ys where xs: "?xs = a # ys" using b by (cases ?xs) auto
    then obtain ab where ab: "bk hp a = Some ab" using b by auto
    have f: "hl_find (bk hp) (\<lambda>e m. key e m = key d l) None a = Some None"
      by (rule hl_find_miss[of _ _ ?xs]) (use b Some no in auto)
    have "hl_Compare t (hb_data ab) (hb_size ab) d l \<noteq> 1"
      using c no[of a ab] ab xs by (simp add: hl_callbacks_def)
    then show ?thesis using Some ri ab xs f
      by (simp add: HashListTableRemove_def Let_def)
  qed
qed

section \<open>The order of the list\<close>

text \<open>The data on the list with their sizes, from the head on.\<close>

partial_function (option) hl_walk :: "store \<Rightarrow> addr option \<Rightarrow> addr list option" where
  "hl_walk lk p = (case p of None \<Rightarrow> Some []
     | Some a \<Rightarrow> do { xs \<leftarrow> hl_walk lk (n_next (lk a)); Some (a # xs) })"

definition entry_at :: "(addr \<Rightarrow> 'd hlb option) \<Rightarrow> addr \<Rightarrow> 'd \<times> u16" where
  "entry_at k a = (data_at k a, size_at k a)"

definition hl_entries :: "('d, 's) HashListTable \<Rightarrow> 'd hl_heap \<Rightarrow> ('d \<times> u16) list option" where
  "hl_entries t hp = map_option (map (entry_at (bk hp))) (hl_walk (links hp) (HashListTableGetListHead t))"

lemma hl_walk_dseg: "dseg lk p xs None \<Longrightarrow> hl_walk lk (first_or xs None) = Some xs"
proof (induction xs arbitrary: p)
  case Nil
  then show ?case by (subst hl_walk.simps) simp
next
  case (Cons x xs)
  then show ?case by (subst hl_walk.simps) (auto simp: Cons.IH)
qed

lemma hl_entries_repr: "hl_repr t hp cs L \<Longrightarrow> hl_entries t hp = Some (map (entry_at (bk hp)) L)"
  using hl_walk_dseg[of "links hp" None L] by (simp add: hl_entries_def hl_repr_def HashListTableGetListHead_def)

text \<open>Every chain holds the buckets of its hash value, and in the reverse of the order of the list.\<close>

definition bucket_of :: "('d \<Rightarrow> u16 \<Rightarrow> 'k) \<Rightarrow> ('k \<Rightarrow> u32) \<Rightarrow> (addr \<Rightarrow> 'd hlb option) \<Rightarrow> addr \<Rightarrow> nat" where
  "bucket_of key h k a = unat (h (key (data_at k a) (size_at k a)))"

definition hl_ordered :: "('d \<Rightarrow> u16 \<Rightarrow> 'k) \<Rightarrow> ('k \<Rightarrow> u32) \<Rightarrow> (addr \<Rightarrow> 'd hlb option) \<Rightarrow> addr list list
    \<Rightarrow> addr list \<Rightarrow> bool" where
  "hl_ordered key h k cs L \<longleftrightarrow> (\<forall>i < length cs. cs ! i = rev (filter (\<lambda>a. bucket_of key h k a = i) L))"

definition hl_order_inv :: "('d \<Rightarrow> u16 \<Rightarrow> 'k) \<Rightarrow> ('k \<Rightarrow> u32) \<Rightarrow> ('d hl_heap \<Rightarrow> addr)
    \<Rightarrow> ('d, 's) HashListTable \<times> 'd hl_heap \<times> 's \<Rightarrow> bool" where
  "hl_order_inv key h mal ths \<longleftrightarrow> (case ths of (t, hp, s) \<Rightarrow>
     hl_callbacks key h t \<and> (\<exists>cs L. hl_repr t hp cs L \<and> hl_ordered key h (bk hp) cs L) \<and>
     (\<forall>hp. finite (dom (bk hp)) \<longrightarrow> mal hp \<notin> dom (bk hp)))"

lemma hl_order_inv_inv: "hl_order_inv key h mal ths \<Longrightarrow> hl_inv key h mal ths"
  by (auto simp: hl_order_inv_def hl_inv_def)

lemma hash_list_init_order:
  assumes "HashListTableInit mok mem sz hsh cmp fr = Some t" "hl_callbacks key h t" "dom (bk hp) = {}"
    "\<forall>hp. finite (dom (bk hp)) \<longrightarrow> mal hp \<notin> dom (bk hp)"
  shows "hl_order_inv key h mal (t, hp, s) \<and> hl_entries t hp = Some []"
proof -
  have "hl_repr t hp (replicate (unat sz) []) []"
    using assms(1,3) by (auto simp: HashListTableInit_def hl_repr_def split: if_splits option.splits)
  moreover have "hl_ordered key h (bk hp) (replicate (unat sz) []) []" by (simp add: hl_ordered_def)
  ultimately show ?thesis using assms(2,4) hl_entries_repr by (fastforce simp: hl_order_inv_def)
qed

lemma entry_cong:
  assumes "\<And>a. a \<in> set L \<Longrightarrow> map_option (\<lambda>b. (hb_data b, hb_size b)) (k' a) = map_option (\<lambda>b. (hb_data b, hb_size b)) (k a)"
    "set L \<subseteq> dom k"
  shows "map (entry_at k') L = map (entry_at k) L"
    "filter (\<lambda>a. bucket_of key h k' a = i) L = filter (\<lambda>a. bucket_of key h k a = i) L"
proof -
  have "data_at k' a = data_at k a \<and> size_at k' a = size_at k a" if a: "a \<in> set L" for a
  proof -
    obtain b where "k a = Some b" using assms(2) a by blast
    then show ?thesis using assms(1)[OF a] by (auto simp: data_at_def size_at_def)
  qed
  then show "map (entry_at k') L = map (entry_at k) L"
    "filter (\<lambda>a. bucket_of key h k' a = i) L = filter (\<lambda>a. bucket_of key h k a = i) L"
    by (auto simp: entry_at_def bucket_of_def intro: filter_cong)
qed

lemma hl_ordered_add:
  assumes o: "hl_ordered key h (bk hp) cs L" and a: "a \<notin> set L" "set L = dom (bk hp)"
    and k: "data_at k' a = d" "size_at k' a = l" "\<forall>x. x \<noteq> a \<longrightarrow> k' x = bk hp x"
  shows "hl_ordered key h k' (cs[unat (h (key d l)) := a # cs ! unat (h (key d l))]) (L @ [a])"
    "map (entry_at k') (L @ [a]) = map (entry_at (bk hp)) L @ [(d, l)]"
proof -
  have same: "map_option (\<lambda>b. (hb_data b, hb_size b)) (k' x) = map_option (\<lambda>b. (hb_data b, hb_size b)) (bk hp x)"
    if "x \<in> set L" for x
  proof -
    have "x \<noteq> a" using that a(1) by auto
    then show ?thesis using k(3) by simp
  qed
  have "set L \<subseteq> dom (bk hp)" using a(2) by simp
  note e = entry_cong[OF same this]
  show "map (entry_at k') (L @ [a]) = map (entry_at (bk hp)) L @ [(d, l)]"
    using e(1) k by (simp add: entry_at_def)
  show "hl_ordered key h k' (cs[unat (h (key d l)) := a # cs ! unat (h (key d l))]) (L @ [a])"
    unfolding hl_ordered_def
  proof (intro allI impI)
    fix i assume i: "i < length (cs[unat (h (key d l)) := a # cs ! unat (h (key d l))])"
    have "cs ! i = rev (filter (\<lambda>x. bucket_of key h k' x = i) L)" using o i e(2)[where key = key and h = h] by (simp add: hl_ordered_def)
    moreover have "bucket_of key h k' a = unat (h (key d l))" using k by (simp add: bucket_of_def)
    ultimately show "cs[unat (h (key d l)) := a # cs ! unat (h (key d l))] ! i =
        rev (filter (\<lambda>x. bucket_of key h k' x = i) (L @ [a]))"
      using i by (cases "i = unat (h (key d l))") simp_all
  qed
qed

text \<open>The first bucket of a chain with a key is the last one with this key on the list.\<close>

lemma hl_ordered_remove:
  assumes r: "hl_repr t hp cs L" and c: "hl_callbacks key h t" and o: "hl_ordered key h (bk hp) cs L"
    and i: "cs ! unat (h kk) = us @ x # vs" "\<forall>u \<in> set us. \<not> has_key key (bk hp) kk u" "has_key key (bk hp) kk x"
    and L: "L = L1 @ x # L2"
    and k': "\<forall>y. y \<noteq> x \<longrightarrow> map_option (\<lambda>b. (hb_data b, hb_size b)) (k' y) =
                    map_option (\<lambda>b. (hb_data b, hb_size b)) (bk hp y)"
  shows "\<forall>y \<in> set L2. \<not> has_key key (bk hp) kk y"
    "hl_ordered key h k' (cs[unat (h kk) := us @ vs]) (L1 @ L2)"
    "map (entry_at k') (L1 @ L2) = map (entry_at (bk hp)) L1 @ map (entry_at (bk hp)) L2"
proof -
  define n where "n = unat (h kk)"
  define F where "F = filter (\<lambda>a. bucket_of key h (bk hp) a = n)"
  have n: "n < length cs" using hl_root_inv(4)[OF c] r by (simp add: hl_repr_def n_def)
  have dist: "distinct L" "set L = dom (bk hp)" using r by (simp_all add: hl_repr_def)
  have key_bucket: "bucket_of key h (bk hp) y = n" if "has_key key (bk hp) kk y" for y
    using that by (auto simp: has_key_def bucket_of_def data_at_def size_at_def n_def split: option.splits)
  have x: "bucket_of key h (bk hp) x = n" using key_bucket i(3) .
  have chain: "us @ x # vs = rev (F L2) @ x # rev (F L1)"
    using o n i(1) x L by (simp add: hl_ordered_def F_def n_def)
  have nx: "x \<notin> set (rev (F L2))" "x \<notin> set (rev (F L1))" using dist(1) L by (auto simp: F_def)
  then have uv: "us = rev (F L2)" "vs = rev (F L1)"
    using chain append_Cons_eq_iff[of x "rev (F L2)" "rev (F L1)" us vs] by metis+
  show "\<forall>y \<in> set L2. \<not> has_key key (bk hp) kk y"
    using i(2) key_bucket by (auto simp: uv(1) F_def)
  have "x \<notin> set (L1 @ L2)" using dist(1) L by simp
  then have same: "map_option (\<lambda>b. (hb_data b, hb_size b)) (k' y) = map_option (\<lambda>b. (hb_data b, hb_size b)) (bk hp y)"
    if "y \<in> set (L1 @ L2)" for y
  proof -
    have "y \<noteq> x" using that \<open>x \<notin> set (L1 @ L2)\<close> by auto
    then show ?thesis using k' by simp
  qed
  have "set (L1 @ L2) \<subseteq> dom (bk hp)" using dist(2) L by auto
  note e = entry_cong[OF same this]
  show "map (entry_at k') (L1 @ L2) = map (entry_at (bk hp)) L1 @ map (entry_at (bk hp)) L2"
    using e(1) by simp
  show "hl_ordered key h k' (cs[unat (h kk) := us @ vs]) (L1 @ L2)"
    unfolding hl_ordered_def n_def[symmetric]
  proof (intro allI impI)
    fix j assume j: "j < length (cs[n := us @ vs])"
    show "cs[n := us @ vs] ! j = rev (filter (\<lambda>a. bucket_of key h k' a = j) (L1 @ L2))"
    proof (cases "j = n")
      case True
      then show ?thesis using n e(2)[where key = key and h = h] by (simp add: uv F_def)
    next
      case False
      then have "cs ! j = rev (filter (\<lambda>a. bucket_of key h (bk hp) a = j) (L1 @ x # L2))"
        using o j L by (simp add: hl_ordered_def)
      then show ?thesis using False x e(2)[where key = key and h = h] by simp
    qed
  qed
qed

lemma entry_key: "a \<in> dom k \<Longrightarrow> has_key key k kk a \<longleftrightarrow> (case entry_at k a of (e, m) \<Rightarrow> key e m = kk)"
  by (auto simp: has_key_def entry_at_def data_at_def size_at_def)

text \<open>Claim C18: The list from \<open>HashListTableGetListHead\<close> on holds the data in the order of insertion. The walk
  along \<open>listnext\<close> ends; \<open>HashListTableAdd\<close> appends the new data; if the list has data of a key, then
  \<open>HashListTableLookup\<close> returns the newest of it, the last one on the list, and \<open>HashListTableRemove\<close> takes
  out and frees just that one and keeps the others in order; otherwise the lookup finds nothing and the
  removal fails with -1 and changes nothing. The callbacks agree on a key and the allocator returns unused
  addresses (\<open>hl_order_inv\<close>, which \<open>HashListTableInit\<close> establishes: \<open>hash_list_init_order\<close>).\<close>

theorem hash_list_order:
  assumes "hl_order_inv key h mal (t, hp, s)"
  shows "\<exists>xs. hl_entries t hp = Some xs \<and>
     (\<exists>t' hp'. HashListTableAdd (Some (mal hp)) (Some t) (Some d) l hp = Some (0, Some t', hp') \<and>
        hl_entries t' hp' = Some (xs @ [(d, l)]) \<and> hl_order_inv key h mal (t', hp', s)) \<and>
     (if \<exists>(e, m) \<in> set xs. key e m = key d l
      then \<exists>ys e m zs t' hp'. xs = ys @ (e, m) # zs \<and> key e m = key d l \<and>
        (\<forall>(e', m') \<in> set zs. key e' m' \<noteq> key d l) \<and>
        HashListTableLookup (Some t) d l hp = Some (Some e) \<and>
        HashListTableRemove d l (t, hp, s) = Some (0, t', hp', hl_free_data t e s) \<and>
        hl_entries t' hp' = Some (ys @ zs) \<and> hl_order_inv key h mal (t', hp', hl_free_data t e s)
      else HashListTableLookup (Some t) d l hp = Some None \<and>
        HashListTableRemove d l (t, hp, s) = Some (- 1, t, hp, s))"
proof -
  obtain cs L where r: "hl_repr t hp cs L" and c: "hl_callbacks key h t" and o: "hl_ordered key h (bk hp) cs L"
    and m: "\<forall>hp. finite (dom (bk hp)) \<longrightarrow> mal hp \<notin> dom (bk hp)"
    using assms by (auto simp: hl_order_inv_def)
  let ?xs = "map (entry_at (bk hp)) L"
  have dom: "set L = dom (bk hp)" using r by (simp add: hl_repr_def)
  have fresh: "mal hp \<notin> set L" using m dom by (metis finite_set)
  have keys: "(case entry_at (bk hp) a of (e, m) \<Rightarrow> key e m = key d l) \<longleftrightarrow> has_key key (bk hp) (key d l) a"
    if "a \<in> set L" for a
    using that dom by (simp add: entry_key)
  have add: "\<exists>t' hp'. HashListTableAdd (Some (mal hp)) (Some t) (Some d) l hp = Some (0, Some t', hp') \<and>
      hl_entries t' hp' = Some (?xs @ [(d, l)]) \<and> hl_order_inv key h mal (t', hp', s)"
  proof -
    obtain t' hp' where a: "HashListTableAdd (Some (mal hp)) (Some t) (Some d) l hp = Some (0, Some t', hp')"
      "hl_repr t' hp' (cs[unat (h (key d l)) := mal hp # cs ! unat (h (key d l))]) (L @ [mal hp])"
      "hl_callbacks key h t'" "data_at (bk hp') (mal hp) = d" "size_at (bk hp') (mal hp) = l"
      "\<forall>x. x \<noteq> mal hp \<longrightarrow> bk hp' x = bk hp x"
      using hl_add_repr[OF r c fresh, of d l] by blast
    note oa = hl_ordered_add[OF o fresh dom a(4-6)]
    have "hl_order_inv key h mal (t', hp', s)"
      unfolding hl_order_inv_def prod.case using a(2,3) oa(1) m by blast
    then show ?thesis using a(1) hl_entries_repr[OF a(2)] oa(2) by simp
  qed
  show ?thesis
  proof (cases "\<exists>a \<in> set L. has_key key (bk hp) (key d l) a")
    case True
    then obtain a where a: "a \<in> set L" "has_key key (bk hp) (key d l) a" by blast
    then have "a \<in> set (cs ! unat (h (key d l)))"
      using o hl_root_inv(4)[OF c, of "key d l"] r
      by (auto simp: hl_ordered_def hl_repr_def has_key_def bucket_of_def data_at_def size_at_def split: option.splits)
    then have "ent_of key h (bk hp) cs (key d l) \<noteq> []" using a(2) by (auto simp: ent_of_def filter_empty_conv)
    then obtain us x vs where sp: "cs ! unat (h (key d l)) = us @ x # vs"
      "\<forall>u \<in> set us. \<not> has_key key (bk hp) (key d l) u" "has_key key (bk hp) (key d l) x"
      "ent_of key h (bk hp) cs (key d l) = data_at (bk hp) x # tl (ent_of key h (bk hp) cs (key d l))"
      by (rule ent_split)
    have "x \<in> set L" using dom sp(3) by (auto simp: has_key_def split: option.splits)
    then obtain L1 L2 where L: "L = L1 @ x # L2" by (meson split_list)
    obtain t2 hp2 where q: "HashListTableRemove d l (t, hp, s) =
          Some (0, t2, hp2, hl_free_data t (data_at (bk hp) x) s)"
      "hl_repr t2 hp2 (cs[unat (h (key d l)) := us @ vs]) (L1 @ L2)" "hl_callbacks key h t2"
      "\<forall>y. y \<noteq> x \<longrightarrow> map_option (\<lambda>b. (hb_data b, hb_size b)) (bk hp2 y) =
                    map_option (\<lambda>b. (hb_data b, hb_size b)) (bk hp y)"
      using hl_remove_repr[OF r c sp(1-3) L, of s] by blast
    note rm = hl_ordered_remove[OF r c o sp(1-3) L q(4)]
    have "HashListTableLookup (Some t) d l hp = Some (Some (data_at (bk hp) x))"
      using hl_lookup_repr[OF r c, of d l] sp(4) by (metis list.simps(5))
    moreover have "?xs = map (entry_at (bk hp)) L1 @ (data_at (bk hp) x, size_at (bk hp) x) # map (entry_at (bk hp)) L2"
      by (simp add: L entry_at_def)
    moreover have "\<forall>(e', m') \<in> set (map (entry_at (bk hp)) L2). key e' m' \<noteq> key d l"
      using rm(1) keys L by fastforce
    moreover have "key (data_at (bk hp) x) (size_at (bk hp) x) = key d l"
      using keys[of x] sp(3) L by (simp add: entry_at_def)
    moreover have "hl_order_inv key h mal (t2, hp2, hl_free_data t (data_at (bk hp) x) s)"
      using q(2,3) rm(2) m by (auto simp: hl_order_inv_def)
    moreover have "hl_entries t2 hp2 = Some (map (entry_at (bk hp)) L1 @ map (entry_at (bk hp)) L2)"
      using hl_entries_repr[OF q(2)] rm(3) by simp
    ultimately have "\<exists>ys e m zs t' hp'. ?xs = ys @ (e, m) # zs \<and> key e m = key d l \<and>
        (\<forall>(e', m') \<in> set zs. key e' m' \<noteq> key d l) \<and>
        HashListTableLookup (Some t) d l hp = Some (Some e) \<and>
        HashListTableRemove d l (t, hp, s) = Some (0, t', hp', hl_free_data t e s) \<and>
        hl_entries t' hp' = Some (ys @ zs) \<and> hl_order_inv key h mal (t', hp', hl_free_data t e s)"
      using q(1) by blast
    moreover have "\<exists>(e, m) \<in> set ?xs. key e m = key d l" 
      using keys[OF a(1)] a by (intro bexI[of _ "entry_at (bk hp) a"]) simp_all
    ultimately show ?thesis using add hl_entries_repr[OF r] by (intro exI[of _ ?xs]) (simp only: if_True simp_thms)
  next
    case False
    then have no: "\<not> (\<exists>(e, m) \<in> set ?xs. key e m = key d l)" using keys by fastforce
    have "set (cs ! unat (h (key d l))) \<subseteq> set L" using hl_root_inv(4)[OF c] r by (simp add: hl_repr_def)
    then have "ent_of key h (bk hp) cs (key d l) = []" using False by (auto simp: ent_of_def filter_empty_conv)
    then have look: "HashListTableLookup (Some t) d l hp = Some None" using hl_lookup_repr[OF r c] by simp
    then show ?thesis
      using no add hl_entries_repr[OF r] hash_list_remove_absent[OF hl_order_inv_inv[OF assms] look] by auto
  qed
qed

definition table1 :: "(nat, unit) HashListTable" where
  "table1 = \<lparr>hl_array = [Some 7], listhead = Some 7, listtail = Some 7, hl_array_size = 1,
     hl_Hash = (\<lambda>n d l. 0), hl_Compare = (\<lambda>e m d l. if e = d then 1 else 0), hl_Free = None\<rparr>"

definition heap1 :: "nat hl_heap" where
  "heap1 = \<lparr>links = fresh_store, bk = [7 \<mapsto> \<lparr>hb_data = 5, hb_size = 0, hb_bucknext = None\<rparr>]\<rparr>"

definition next_addr :: "'d hl_heap \<Rightarrow> addr" where
  "next_addr hp = Suc (Max (insert 0 (dom (bk hp))))"

lemma table1_inv: "hl_inv (\<lambda>d l. d) (\<lambda>k. 0) next_addr (table1, heap1, ())"
proof -
  have "Suc (Max (insert 0 A)) \<notin> A" if "finite A" for A :: "nat set"
    using that by (metis Max_ge Suc_n_not_le_n finite_insert insertCI)
  moreover have "hl_repr table1 heap1 [[7]] [7]"
    by (simp add: hl_repr_def table1_def heap1_def fresh_store_def)
  ultimately show ?thesis
    unfolding hl_inv_def by (auto simp: hl_callbacks_def table1_def next_addr_def)
qed

lemma hash_list_map_laws_witness:
  "\<exists>t1 hp1 t2 hp2 s2. HashListTableAdd (Some (next_addr heap1)) (Some table1) (Some 6) 0 heap1 = Some (0, Some t1, hp1) \<and>
     (\<forall>e m. HashListTableLookup (Some t1) e m hp1 =
        (if e = 6 then Some (Some 6) else HashListTableLookup (Some table1) e m heap1)) \<and>
     HashListTableRemove 6 0 (t1, hp1, ()) = Some (0, t2, hp2, s2) \<and>
     hl_inv (\<lambda>d l. d) (\<lambda>k. 0) next_addr (t2, hp2, s2) \<and>
     (\<forall>e m. HashListTableLookup (Some t2) e m hp2 = HashListTableLookup (Some table1) e m heap1)"
  by (rule hash_list_map_laws[OF table1_inv])

lemma table1_lookup: "HashListTableLookup (Some table1) 5 0 heap1 = Some (Some 5)"
  "HashListTableLookup (Some table1) 4 0 heap1 = Some None"
  by (simp_all add: HashListTableLookup_def hl_root_def table1_def heap1_def hl_find.simps)

lemma table1_order: "hl_order_inv (\<lambda>d l. d) (\<lambda>k. 0) next_addr (table1, heap1, ())"
  "hl_entries table1 heap1 = Some [(5, 0)]"
proof -
  have r: "hl_repr table1 heap1 [[7]] [7]" "hl_ordered (\<lambda>d l. d) (\<lambda>k. 0) (bk heap1) [[7]] [7]"
    by (simp_all add: hl_repr_def table1_def heap1_def fresh_store_def hl_ordered_def bucket_of_def)
  then show "hl_order_inv (\<lambda>d l. d) (\<lambda>k. 0) next_addr (table1, heap1, ())"
    using table1_inv by (auto simp: hl_order_inv_def hl_inv_def)
  show "hl_entries table1 heap1 = Some [(5, 0)]"
    using hl_entries_repr[OF r(1)] by (simp add: entry_at_def data_at_def size_at_def heap1_def)
qed

lemma hash_list_order_witness:
  "\<exists>t' hp'. HashListTableRemove 5 0 (table1, heap1, ()) = Some (0, t', hp', ()) \<and> hl_entries t' hp' = Some []"
proof -
  have "(\<exists>(e, m) \<in> set [(5 :: nat, 0 :: u16)]. e = 5)" by simp
  then show ?thesis
    using hash_list_order[OF table1_order(1), of 5 0] unfolding table1_order(2)
    by (auto simp: Cons_eq_append_conv)
qed

lemma hash_list_remove_absent_witness:
  "HashListTableRemove 4 0 (table1, heap1, ()) = Some (- 1, table1, heap1, ())"
  by (rule hash_list_remove_absent[OF table1_inv table1_lookup(2)])

end
