(* ===== verification/BloomFilter.thy ===== *)
theory BloomFilter
  imports Prelude
begin

text \<open>
  The Bloom filter (\<open>src/util-bloomfilter.c\<close>, \<open>src/util-bloomfilter.h\<close>) and the counting Bloom filter
  (\<open>src/util-bloomfilter-counting.c\<close>) over arrays of bytes: an access outside the array is \<open>None\<close>. The
  counters of 2 and 4 bytes are laid out in little endian order. The loop over the hash iterations is
  a recursion over the list of iteration numbers.
\<close>

definition wr8 :: "bytes \<Rightarrow> nat \<Rightarrow> u8 \<Rightarrow> bytes option" where
  "wr8 b i v = (if i < length b then Some (b[i := v]) else None)"

definition iterations :: "u8 \<Rightarrow> u8 list" where
  "iterations n = map of_nat [0..<unat n]"

section \<open>The Bloom filter\<close>

record 'd BloomFilter =
  bitarray :: bytes
  bitarray_size :: u32
  hash_iterations :: u8
  Hash :: "'d \<Rightarrow> u16 \<Rightarrow> u8 \<Rightarrow> u32 \<Rightarrow> u32"

definition BloomFilterInit :: "bool \<times> bool \<Rightarrow> u32 \<Rightarrow> u8 \<Rightarrow> ('d \<Rightarrow> u16 \<Rightarrow> u8 \<Rightarrow> u32 \<Rightarrow> u32) option
    \<Rightarrow> 'd BloomFilter option" where
  "BloomFilterInit mok sz itr hsh =
     (if sz = 0 \<or> itr = 0 then None
      else (case hsh of
        None \<Rightarrow> None
      | Some h \<Rightarrow>
          if \<not> fst mok \<or> \<not> snd mok then None
          else Some \<lparr>bitarray = replicate (unat (sz div 8 + 1)) 0, bitarray_size = sz,
                     hash_iterations = itr, Hash = h\<rparr>))"

definition bit_mask :: "u32 \<Rightarrow> u8" where
  "bit_mask hash = push_bit (unat (hash mod 8)) 1"

fun bloom_set :: "(u8 \<Rightarrow> u32) \<Rightarrow> u8 list \<Rightarrow> bytes \<Rightarrow> bytes option" where
  "bloom_set f [] b = Some b"
| "bloom_set f (i # is) b = do {
     x \<leftarrow> rd8 b (unat (f i div 8));
     b' \<leftarrow> wr8 b (unat (f i div 8)) (x OR bit_mask (f i));
     bloom_set f is b'
   }"

definition BloomFilterAdd :: "'d BloomFilter option \<Rightarrow> 'd option \<Rightarrow> u16 \<Rightarrow> (int \<times> 'd BloomFilter option) option" where
  "BloomFilterAdd bf data datalen =
     (case (bf, data) of
        (Some b, Some d) \<Rightarrow>
          if datalen = 0 then Some (- 1, bf)
          else do {
            a \<leftarrow> bloom_set (\<lambda>i. Hash b d datalen i (bitarray_size b)) (iterations (hash_iterations b)) (bitarray b);
            Some (0, Some (b\<lparr>bitarray := a\<rparr>))
          }
      | _ \<Rightarrow> Some (- 1, bf))"

fun bloom_hit :: "(u8 \<Rightarrow> u32) \<Rightarrow> u8 list \<Rightarrow> bytes \<Rightarrow> int option" where
  "bloom_hit f [] b = Some 1"
| "bloom_hit f (i # is) b = do {
     x \<leftarrow> rd8 b (unat (f i div 8));
     if x AND bit_mask (f i) = 0 then Some 0 else bloom_hit f is b
   }"

definition BloomFilterTest :: "'d BloomFilter \<Rightarrow> 'd \<Rightarrow> u16 \<Rightarrow> int option" where
  "BloomFilterTest bf d datalen =
     bloom_hit (\<lambda>i. Hash bf d datalen i (bitarray_size bf)) (iterations (hash_iterations bf)) (bitarray bf)"

definition BloomFilterMemoryCnt :: "'d BloomFilter option \<Rightarrow> u32" where
  "BloomFilterMemoryCnt bf = (case bf of None \<Rightarrow> 0 | Some _ \<Rightarrow> 2)"

text \<open>\<open>sz\<close> is \<open>sizeof(BloomFilter)\<close>.\<close>

definition BloomFilterMemorySize :: "u64 \<Rightarrow> 'd BloomFilter option \<Rightarrow> u32" where
  "BloomFilterMemorySize sz bf =
     (case bf of None \<Rightarrow> 0 | Some b \<Rightarrow> ucast (sz + ucast (bitarray_size b div 8) + 1))"

section \<open>The counting Bloom filter\<close>

record 'd BloomFilterCounting =
  c_array :: bytes
  c_array_size :: u32
  c_type :: u8
  c_hash_iterations :: u8
  c_Hash :: "'d \<Rightarrow> u16 \<Rightarrow> u8 \<Rightarrow> u32 \<Rightarrow> u32"

definition BloomFilterCountingInit :: "bool \<times> bool \<Rightarrow> u32 \<Rightarrow> u8 \<Rightarrow> u8 \<Rightarrow> ('d \<Rightarrow> u16 \<Rightarrow> u8 \<Rightarrow> u32 \<Rightarrow> u32) option
    \<Rightarrow> 'd BloomFilterCounting option" where
  "BloomFilterCountingInit mok sz type itr hsh =
     (if itr = 0 then None
      else (case hsh of
        None \<Rightarrow> None
      | Some h \<Rightarrow>
          if sz = 0 then None
          else if type \<noteq> 1 \<and> type \<noteq> 2 \<and> type \<noteq> 4 then None
          else if \<not> fst mok \<or> \<not> snd mok then None
          else Some \<lparr>c_array = replicate (unat (sz * ucast type)) 0, c_array_size = sz, c_type = type,
                     c_hash_iterations = itr, c_Hash = h\<rparr>))"

text \<open>A counter of \<open>n\<close> bytes in little endian order, as a number.\<close>

fun le_val :: "bytes \<Rightarrow> nat" where
  "le_val [] = 0"
| "le_val (b # bs) = unat b + 256 * le_val bs"

fun le_bytes :: "nat \<Rightarrow> nat \<Rightarrow> bytes" where
  "le_bytes 0 v = []"
| "le_bytes (Suc n) v = of_nat (v mod 256) # le_bytes n (v div 256)"

definition rd_le :: "nat \<Rightarrow> bytes \<Rightarrow> nat \<Rightarrow> nat option" where
  "rd_le n b i = (if i + n \<le> length b then Some (le_val (take n (drop i b))) else None)"

definition wr_le :: "nat \<Rightarrow> bytes \<Rightarrow> nat \<Rightarrow> nat \<Rightarrow> bytes option" where
  "wr_le n b i v = (if i + n \<le> length b then Some (take i b @ le_bytes n v @ drop (i + n) b) else None)"

text \<open>\<open>if (*u != max) ( *u)++;\<close>\<close>

definition ctr_incr :: "nat \<Rightarrow> nat \<Rightarrow> bytes \<Rightarrow> nat \<Rightarrow> bytes option" where
  "ctr_incr n mx b i = do { v \<leftarrow> rd_le n b i; if v \<noteq> mx then wr_le n b i (v + 1) else Some b }"

text \<open>\<open>if (*u > 0) ( *u)--; else return -1;\<close> the result \<open>Inl\<close> is the array at the failing return.\<close>

definition ctr_decr :: "nat \<Rightarrow> bytes \<Rightarrow> nat \<Rightarrow> (bytes + bytes) option" where
  "ctr_decr n b i = do {
     v \<leftarrow> rd_le n b i;
     if v > 0 then do { b' \<leftarrow> wr_le n b i (v - 1); Some (Inr b') } else Some (Inl b)
   }"

fun counting_add :: "u8 \<Rightarrow> (u8 \<Rightarrow> u32) \<Rightarrow> u8 list \<Rightarrow> bytes \<Rightarrow> bytes option" where
  "counting_add type f [] b = Some b"
| "counting_add type f (i # is) b = do {
     b' \<leftarrow> (let hash = unat (f i * ucast type) in
            if type = 1 then ctr_incr 1 255 b hash
            else if type = 2 then ctr_incr 2 65535 b hash
            else if type = 4 then ctr_incr 4 4294967295 b hash
            else Some b);
     counting_add type f is b'
   }"

definition BloomFilterCountingAdd :: "'d BloomFilterCounting option \<Rightarrow> 'd option \<Rightarrow> u16
    \<Rightarrow> (int \<times> 'd BloomFilterCounting option) option" where
  "BloomFilterCountingAdd bf data datalen =
     (case (bf, data) of
        (Some b, Some d) \<Rightarrow>
          if datalen = 0 then Some (- 1, bf)
          else do {
            a \<leftarrow> counting_add (c_type b) (\<lambda>i. c_Hash b d datalen i (c_array_size b))
                   (iterations (c_hash_iterations b)) (c_array b);
            Some (0, Some (b\<lparr>c_array := a\<rparr>))
          }
      | _ \<Rightarrow> Some (- 1, bf))"

fun counting_hit :: "u8 \<Rightarrow> (u8 \<Rightarrow> u32) \<Rightarrow> u8 list \<Rightarrow> bytes \<Rightarrow> int option" where
  "counting_hit type f [] b = Some 1"
| "counting_hit type f (i # is) b = do {
     x \<leftarrow> rd8 b (unat (f i * ucast type));
     if x = 0 then Some 0 else counting_hit type f is b
   }"

definition BloomFilterCountingTest :: "'d BloomFilterCounting \<Rightarrow> 'd \<Rightarrow> u16 \<Rightarrow> int option" where
  "BloomFilterCountingTest b d datalen =
     counting_hit (c_type b) (\<lambda>i. c_Hash b d datalen i (c_array_size b)) (iterations (c_hash_iterations b)) (c_array b)"

fun counting_remove :: "u8 \<Rightarrow> (u8 \<Rightarrow> u32) \<Rightarrow> u8 list \<Rightarrow> bytes \<Rightarrow> (int \<times> bytes) option" where
  "counting_remove type f [] b = Some (0, b)"
| "counting_remove type f (i # is) b = do {
     r \<leftarrow> (let hash = unat (f i * ucast type) in
           if type = 1 then ctr_decr 1 b hash
           else if type = 2 then ctr_decr 2 b hash
           else if type = 4 then ctr_decr 4 b hash
           else Some (Inr b));
     (case r of Inl b' \<Rightarrow> Some (- 1, b') | Inr b' \<Rightarrow> counting_remove type f is b')
   }"

definition BloomFilterCountingRemove :: "'d BloomFilterCounting option \<Rightarrow> 'd option \<Rightarrow> u16
    \<Rightarrow> (int \<times> 'd BloomFilterCounting option) option" where
  "BloomFilterCountingRemove bf data datalen =
     (case (bf, data) of
        (Some b, Some d) \<Rightarrow>
          if datalen = 0 then Some (- 1, bf)
          else do {
            hit \<leftarrow> BloomFilterCountingTest b d datalen;
            if hit = 0 then Some (- 1, bf)
            else do {
              (r, a) \<leftarrow> counting_remove (c_type b) (\<lambda>i. c_Hash b d datalen i (c_array_size b))
                          (iterations (c_hash_iterations b)) (c_array b);
              Some (r, Some (b\<lparr>c_array := a\<rparr>))
            }
          }
      | _ \<Rightarrow> Some (- 1, bf))"

section \<open>The bits of the filter\<close>

definition bit_on :: "bytes \<Rightarrow> u32 \<Rightarrow> bool" where
  "bit_on b hash \<longleftrightarrow> b ! unat (hash div 8) AND bit_mask hash \<noteq> 0"

lemma unat_mod8: "unat (hash mod 8 :: u32) < 8"
  by (simp add: unat_mod_distrib)

lemma bit_mask_nonzero: "bit_mask hash \<noteq> 0"
proof -
  have "bit (bit_mask hash) (unat (hash mod 8))"
    using unat_mod8[of hash] by (simp add: bit_mask_def bit_simps)
  then show ?thesis by auto
qed

lemma or_mask: "(x OR y) AND m = 0 \<longleftrightarrow> x AND m = 0 \<and> y AND m = (0 :: u8)"
  by (simp add: bit.conj_disj_distrib2 or_eq_0_iff)

lemma bit_on_set:
  "unat (hash div 8) < length b \<Longrightarrow> bit_on (b[unat (hash div 8) := b ! unat (hash div 8) OR bit_mask hash]) hash"
  using bit_mask_nonzero[of hash] by (simp add: bit_on_def or_mask)

lemma bit_on_mono:
  "bit_on b k \<Longrightarrow> bit_on (b[i := b ! i OR m]) k"
  by (cases "i < length b"; cases "i = unat (k div 8)") (auto simp: bit_on_def or_mask list_update_beyond)

lemma index_bound:
  "(hash :: u32) < sz \<Longrightarrow> length b = unat (sz div 8 + 1) \<Longrightarrow> unat (hash div 8) < length b"
proof -
  assume a: "hash < sz" "length b = unat (sz div 8 + 1)"
  have "unat (sz div 8) = unat sz div 8" "unat (hash div 8) = unat hash div 8"
    by (simp_all add: unat_div_distrib)
  moreover have "sz div 8 \<noteq> - 1"
  proof
    assume "sz div 8 = - 1"
    then have "unat sz div 8 = 4294967295" using unat_max_word[where 'l=32] calculation(1) by simp
    then show False using unat_bound[of sz] by simp
  qed
  ultimately show ?thesis using a
    by (simp add: unat_add_1_if word_less_nat_alt div_le_mono less_Suc_eq_le)
qed

lemma bloom_set_spec:
  assumes "\<And>i. f i < sz" "length b = unat (sz div 8 + 1)"
  shows "\<exists>b'. bloom_set f is b = Some b' \<and> length b' = length b \<and>
    (\<forall>k. bit_on b k \<longrightarrow> bit_on b' k) \<and> (\<forall>i \<in> set is. bit_on b' (f i))"
  using assms(2)
proof (induction "is" arbitrary: b)
  case Nil
  then show ?case by simp
next
  case (Cons i js)
  let ?n = "unat (f i div 8)"
  let ?b = "b[?n := b ! ?n OR bit_mask (f i)]"
  have n: "?n < length b" using index_bound[OF assms(1) Cons.prems] .
  obtain b' where b': "bloom_set f js ?b = Some b'" "length b' = length b"
    "\<forall>k. bit_on ?b k \<longrightarrow> bit_on b' k" "\<forall>i \<in> set js. bit_on b' (f i)"
    using Cons.IH[of ?b] Cons.prems by auto
  have "bit_on b' (f i)" using b'(3) bit_on_set[OF n] by blast
  moreover have "\<forall>k. bit_on b k \<longrightarrow> bit_on b' k" using b'(3) bit_on_mono by blast
  ultimately show ?case using b' n by (simp add: rd8_def wr8_def)
qed

lemma bloom_hit_spec:
  assumes "\<And>i. f i < sz" "length b = unat (sz div 8 + 1)"
  shows "bloom_hit f is b = Some (if \<forall>i \<in> set is. bit_on b (f i) then 1 else 0)"
  using index_bound[OF assms] by (induction "is") (auto simp: rd8_def bit_on_def)

text \<open>The invariant of a filter: the array has room for every hash the callback returns.\<close>

definition bloom_ok :: "'d BloomFilter \<Rightarrow> bool" where
  "bloom_ok b \<longleftrightarrow> length (bitarray b) = unat (bitarray_size b div 8 + 1) \<and>
     (\<forall>d l i. Hash b d l i (bitarray_size b) < bitarray_size b)"

lemma bloom_test_spec:
  "bloom_ok b \<Longrightarrow> BloomFilterTest b d l =
     Some (if \<forall>i \<in> set (iterations (hash_iterations b)). bit_on (bitarray b) (Hash b d l i (bitarray_size b)) then 1 else 0)"
  unfolding BloomFilterTest_def by (rule bloom_hit_spec) (auto simp: bloom_ok_def)

lemma bloom_add_spec:
  assumes "bloom_ok b" "l \<noteq> 0"
  shows "\<exists>b'. BloomFilterAdd (Some b) (Some d) l = Some (0, Some b') \<and> bloom_ok b' \<and>
    BloomFilterTest b' d l = Some 1 \<and> (\<forall>e m. BloomFilterTest b e m = Some 1 \<longrightarrow> BloomFilterTest b' e m = Some 1)"
proof -
  obtain a where a: "bloom_set (\<lambda>i. Hash b d l i (bitarray_size b)) (iterations (hash_iterations b)) (bitarray b) = Some a"
    "length a = length (bitarray b)" "\<forall>k. bit_on (bitarray b) k \<longrightarrow> bit_on a k"
    "\<forall>i \<in> set (iterations (hash_iterations b)). bit_on a (Hash b d l i (bitarray_size b))"
    using bloom_set_spec[of "\<lambda>i. Hash b d l i (bitarray_size b)" "bitarray_size b" "bitarray b"
        "iterations (hash_iterations b)"] assms(1) by (auto simp: bloom_ok_def)
  let ?b = "b\<lparr>bitarray := a\<rparr>"
  have ok: "bloom_ok ?b" using assms(1) a(2) by (simp add: bloom_ok_def)
  have "BloomFilterAdd (Some b) (Some d) l = Some (0, Some ?b)"
    using a(1) assms(2) by (simp add: BloomFilterAdd_def)
  moreover have "BloomFilterTest ?b e m = Some 1" if "BloomFilterTest b e m = Some 1" for e m
    using that a(3) by (auto simp: bloom_test_spec[OF ok] bloom_test_spec[OF assms(1)] split: if_splits)
  ultimately show ?thesis using ok a(4) by (auto simp: bloom_test_spec[OF ok])
qed

lemma bloom_init_ok:
  assumes "BloomFilterInit mok sz itr (Some h) = Some b" "\<forall>d l i. h d l i sz < sz"
  shows "bloom_ok b \<and> (\<forall>d l. BloomFilterTest b d l = Some 0)"
proof -
  have b: "b = \<lparr>bitarray = replicate (unat (sz div 8 + 1)) 0, bitarray_size = sz,
      hash_iterations = itr, Hash = h\<rparr>" "itr \<noteq> 0"
    using assms(1) by (auto simp: BloomFilterInit_def split: if_splits)
  then have ok: "bloom_ok b" using assms(2) by (simp add: bloom_ok_def)
  have "0 \<in> set (iterations itr)" using b(2) by (auto simp: iterations_def image_iff unat_gt_0 intro!: bexI[of _ 0])
  moreover have "\<not> bit_on (bitarray b) (h d l i sz)" for d l i
    using index_bound[of "h d l i sz" sz "bitarray b"] assms(2) b by (simp add: bit_on_def)
  ultimately show ?thesis using ok b(1) by (auto simp: bloom_test_spec)
qed

section \<open>Properties of the Bloom filter\<close>

fun bloom_adds :: "('d \<times> u16) list \<Rightarrow> 'd BloomFilter \<Rightarrow> 'd BloomFilter option" where
  "bloom_adds [] b = Some b"
| "bloom_adds ((d, l) # xs) b =
     (case BloomFilterAdd (Some b) (Some d) l of
        Some (r, Some b') \<Rightarrow> bloom_adds xs b' | _ \<Rightarrow> None)"

lemma bloom_adds_spec:
  "bloom_ok b \<Longrightarrow> \<exists>b'. bloom_adds xs b = Some b' \<and> bloom_ok b' \<and>
     (\<forall>e m. BloomFilterTest b e m = Some 1 \<longrightarrow> BloomFilterTest b' e m = Some 1) \<and>
     (\<forall>(d, l) \<in> set xs. l \<noteq> 0 \<longrightarrow> BloomFilterTest b' d l = Some 1)"
proof (induction xs arbitrary: b)
  case Nil
  then show ?case by simp
next
  case (Cons x xs)
  obtain d l where x: "x = (d, l)" by fastforce
  show ?case
  proof (cases "l = 0")
    case True
    then show ?thesis using Cons.IH[OF Cons.prems] x by (simp add: BloomFilterAdd_def)
  next
    case False
    from bloom_add_spec[OF Cons.prems this] obtain b1 where b1:
      "BloomFilterAdd (Some b) (Some d) l = Some (0, Some b1)" "bloom_ok b1" "BloomFilterTest b1 d l = Some 1"
      "\<forall>e m. BloomFilterTest b e m = Some 1 \<longrightarrow> BloomFilterTest b1 e m = Some 1" by blast
    then show ?thesis using Cons.IH[OF b1(2)] x by auto
  qed
qed

text \<open>Claim C27: The Bloom filter has no false negatives and starts empty: in a filter made by
  \<open>BloomFilterInit\<close> every test is negative, and after any sequence of additions (a datalen of 0 is
  refused) every datum added tests positive; no access leaves the bit array, whose size in bytes is
  enough for every hash value.\<close>

theorem bloom_no_false_negatives:
  assumes "BloomFilterInit mok sz itr (Some h) = Some b" "\<forall>d l i. h d l i sz < sz"
  shows "(\<forall>d l. BloomFilterTest b d l = Some 0) \<and>
    (\<exists>b'. bloom_adds xs b = Some b' \<and> (\<forall>(d, l) \<in> set xs. l \<noteq> 0 \<longrightarrow> BloomFilterTest b' d l = Some 1) \<and>
       (\<forall>e m. BloomFilterTest b' e m \<noteq> None))"
proof -
  note ok = bloom_init_ok[OF assms]
  obtain b' where b': "bloom_adds xs b = Some b'" "bloom_ok b'"
    "\<forall>(d, l) \<in> set xs. l \<noteq> 0 \<longrightarrow> BloomFilterTest b' d l = Some 1"
    using bloom_adds_spec[of b xs] ok by blast
  have "BloomFilterTest b' e m \<noteq> None" for e m by (simp add: bloom_test_spec[OF b'(2)])
  then show ?thesis using ok b'(1,3) by blast
qed

lemma bloom_no_false_negatives_witness:
  "let h = (\<lambda>d l i n. of_nat (d + unat i) mod n);
       b = \<lparr>bitarray = replicate (unat ((12 :: u32) div 8 + 1)) 0, bitarray_size = 12, hash_iterations = 2, Hash = h\<rparr>
   in (\<forall>d l. BloomFilterTest b d l = Some 0) \<and>
    (\<exists>b'. bloom_adds [(3, 1), (10, 4)] b = Some b' \<and>
       (\<forall>(d, l) \<in> set [(3, 1), (10, 4)]. l \<noteq> 0 \<longrightarrow> BloomFilterTest b' d l = Some 1) \<and>
       (\<forall>e m. BloomFilterTest b' e m \<noteq> None))"
  unfolding Let_def
  by (rule bloom_no_false_negatives[of "(True, True)" 12 2])
     (simp add: BloomFilterInit_def, intro allI word_mod_lt, simp)

section \<open>The counters of the counting filter\<close>

lemma le_bytes_length [simp]: "length (le_bytes n v) = n"
  by (induction n arbitrary: v) auto

lemma le_val_bytes: "v < 256 ^ n \<Longrightarrow> le_val (le_bytes n v) = v"
proof (induction n arbitrary: v)
  case 0
  then show ?case by simp
next
  case (Suc n)
  then have "le_val (le_bytes n (v div 256)) = v div 256"
    by (intro Suc.IH) (simp add: less_mult_imp_div_less mult.commute)
  moreover have "unat (of_nat (v mod 256) :: u8) = v mod 256" by (simp add: unat_of_nat)
  ultimately show ?case by simp
qed

lemma le_bytes_val: "length bs = n \<Longrightarrow> le_bytes n (le_val bs) = bs"
proof (induction n arbitrary: bs)
  case 0
  then show ?case by simp
next
  case (Suc n)
  then obtain b cs where bs: "bs = b # cs" "length cs = n" by (cases bs) auto
  have "(unat b + 256 * le_val cs) mod 256 = unat b" "(unat b + 256 * le_val cs) div 256 = le_val cs"
    using unat_bound[of b] by simp_all
  then show ?case using bs Suc.IH[of cs] by simp
qed

lemma le_val_bound: "le_val bs < 256 ^ length bs"
proof (induction bs)
  case Nil
  then show ?case by simp
next
  case (Cons b bs)
  then show ?case using unat_bound[of b] by simp
qed

text \<open>The array as a vector of counters, each at a multiple of the counter size.\<close>

definition ctr :: "nat \<Rightarrow> bytes \<Rightarrow> nat \<Rightarrow> nat" where
  "ctr n b k = le_val (take n (drop (k * n) b))"

lemma rd_le_ctr: "(k + 1) * n \<le> length b \<Longrightarrow> rd_le n b (k * n) = Some (ctr n b k)"
  by (simp add: rd_le_def ctr_def algebra_simps)

definition set_ctr :: "nat \<Rightarrow> bytes \<Rightarrow> nat \<Rightarrow> nat \<Rightarrow> bytes" where
  "set_ctr n b k v = take (k * n) b @ le_bytes n v @ drop (k * n + n) b"

lemma wr_le_ctr: "(k + 1) * n \<le> length b \<Longrightarrow> wr_le n b (k * n) v = Some (set_ctr n b k v)"
  by (simp add: wr_le_def set_ctr_def algebra_simps)

lemma set_ctr_length [simp]: "(k + 1) * n \<le> length b \<Longrightarrow> length (set_ctr n b k v) = length b"
  by (simp add: set_ctr_def algebra_simps)

lemma ctr_set_same: "(k + 1) * n \<le> length b \<Longrightarrow> v < 256 ^ n \<Longrightarrow> ctr n (set_ctr n b k v) k = v"
  by (simp add: ctr_def set_ctr_def algebra_simps le_val_bytes)

lemma ctr_set_other:
  assumes "(k + 1) * n \<le> length b" "(j + 1) * n \<le> length b" "j \<noteq> k"
  shows "ctr n (set_ctr n b k v) j = ctr n b j"
proof (cases "j < k")
  case True
  then have "j * n + n \<le> k * n" by (metis Suc_leI add.commute mult_Suc mult_le_mono1)
  then show ?thesis using assms by (simp add: ctr_def set_ctr_def take_drop min_def)
next
  case False
  then have "k * n + n \<le> j * n" using assms(3) by (metis Suc_leI add.commute linorder_neqE_nat mult_Suc mult_le_mono1)
  then obtain r where r: "j * n = k * n + n + r" using le_Suc_ex by blast
  have "drop (j * n) (set_ctr n b k v) = drop (j * n) b"
    using assms(1) by (simp add: set_ctr_def r algebra_simps)
  then show ?thesis by (simp add: ctr_def)
qed

lemma set_ctr_ctr: "(k + 1) * n \<le> length b \<Longrightarrow> set_ctr n b k (ctr n b k) = b"
proof -
  assume a: "(k + 1) * n \<le> length b"
  then have "le_bytes n (ctr n b k) = take n (drop (k * n) b)"
    by (simp add: ctr_def le_bytes_val algebra_simps)
  then show ?thesis
    by (simp add: set_ctr_def) (metis add.commute append_take_drop_id drop_drop)
qed

lemma set_ctr_set: "(k + 1) * n \<le> length b \<Longrightarrow> set_ctr n (set_ctr n b k v) k w = set_ctr n b k w"
  by (simp add: set_ctr_def algebra_simps)

text \<open>Two arrays of whole counters are equal when all counters are.\<close>

lemma ctr_ext:
  assumes "length b = s * n" "length b' = s * n" "0 < n" "\<And>j. j < s \<Longrightarrow> ctr n b j = ctr n b' j"
  shows "b = b'"
proof (rule nth_equalityI)
  show "length b = length b'" using assms by simp
  fix i assume i: "i < length b"
  define j r where "j = i div n" and "r = i mod n"
  have "i div n < s" by (rule less_mult_imp_div_less) (use i assms(1) in simp)
  then have jr: "i = j * n + r" "r < n" "j < s"
    using assms(3) unfolding j_def r_def by (simp_all only: div_mult_mod_eq mod_less_divisor)
  then have "j * n + n \<le> s * n" by (metis Suc_leI add.commute mult_Suc mult_le_mono1)
  then have "length (take n (drop (j * n) c)) = n" if "length c = s * n" for c :: bytes
    using that by simp
  then have "take n (drop (j * n) b) = take n (drop (j * n) b')"
    using assms(1,2) assms(4)[OF jr(3)] le_bytes_val unfolding ctr_def by metis
  then have "take n (drop (j * n) b) ! r = take n (drop (j * n) b') ! r" by simp
  then show "b ! i = b' ! i" using jr i assms(1,2) by simp
qed

lemma ctr_max: "(k + 1) * n \<le> length b \<Longrightarrow> ctr n b k < 256 ^ n"
  using le_val_bound[of "take n (drop (k * n) b)"] by (simp add: ctr_def algebra_simps)

text \<open>The width of the counters, and the address of a counter in the array.\<close>

definition width_ok :: "u8 \<Rightarrow> nat \<Rightarrow> bool" where
  "width_ok type s \<longleftrightarrow> type \<in> {1, 2, 4} \<and> s * unat type < 2 ^ 32"

lemma width_cases:
  assumes "width_ok type s"
  obtains "type = 1" "unat type = 1" | "type = 2" "unat type = 2" | "type = 4" "unat type = 4"
  using assms by (auto simp: width_ok_def)

lemma counter_address:
  fixes h :: u32
  assumes "width_ok type s" "unat h < s"
  shows "unat (h * ucast type :: u32) = unat h * unat type" "(unat h + 1) * unat type \<le> s * unat type"
proof -
  have "unat (ucast type :: u32) = unat type" by (rule width_cases[OF assms(1)]) auto
  moreover show le: "(unat h + 1) * unat type \<le> s * unat type" using assms(2) by (intro mult_le_mono1) simp
  ultimately show "unat (h * ucast type :: u32) = unat h * unat type"
  proof -
    have "unat h * unat type < 2 ^ 32"
      using le assms(1) unfolding width_ok_def by (metis add_mult_distrib le_add1 le_less_trans)
    moreover assume "unat (ucast type :: u32) = unat type"
    ultimately show ?thesis using unat_mult_lem[of h "ucast type"] by simp
  qed
qed

lemma ctr_incr_ctr:
  assumes "(k + 1) * n \<le> length b" "mx < 256 ^ n" "ctr n b k \<le> mx"
  shows "ctr_incr n mx b (k * n) = Some (set_ctr n b k (min mx (ctr n b k + 1)))"
  using assms rd_le_ctr[OF assms(1)] wr_le_ctr[OF assms(1)] set_ctr_ctr[OF assms(1)]
  by (auto simp: ctr_incr_def min_def le_Suc_eq)

lemma ctr_decr_ctr:
  assumes "(k + 1) * n \<le> length b" "0 < ctr n b k"
  shows "ctr_decr n b (k * n) = Some (Inr (set_ctr n b k (ctr n b k - 1)))"
  using assms rd_le_ctr[OF assms(1)] wr_le_ctr[OF assms(1)] by (auto simp: ctr_decr_def)

lemma counting_step:
  fixes h :: u32
  assumes w: "width_ok type s" and h: "unat h < s" and len: "length b = s * unat type"
  defines "n \<equiv> unat type" and "k \<equiv> unat h" and "mx \<equiv> 256 ^ unat type - (1 :: nat)"
  shows "(let hash = unat (h * ucast type) in
            if type = 1 then ctr_incr 1 255 b hash
            else if type = 2 then ctr_incr 2 65535 b hash
            else if type = 4 then ctr_incr 4 4294967295 b hash
            else Some b) = Some (set_ctr n b k (min mx (ctr n b k + 1)))"
    "0 < ctr n b k \<Longrightarrow> (let hash = unat (h * ucast type) in
           if type = 1 then ctr_decr 1 b hash
           else if type = 2 then ctr_decr 2 b hash
           else if type = 4 then ctr_decr 4 b hash
           else Some (Inr b)) = Some (Inr (set_ctr n b k (ctr n b k - 1)))"
proof -
  note a = counter_address[OF w h]
  have kn: "(k + 1) * n \<le> length b" using a(2) len by (simp add: k_def n_def)
  have "ctr n b k \<le> mx" using ctr_max[OF kn] by (simp add: mx_def n_def)
  then have i: "ctr_incr n mx b (k * n) = Some (set_ctr n b k (min mx (ctr n b k + 1)))"
    by (intro ctr_incr_ctr[OF kn]) (simp_all add: mx_def n_def)
  show "(let hash = unat (h * ucast type) in
            if type = 1 then ctr_incr 1 255 b hash
            else if type = 2 then ctr_incr 2 65535 b hash
            else if type = 4 then ctr_incr 4 4294967295 b hash
            else Some b) = Some (set_ctr n b k (min mx (ctr n b k + 1)))"
    using i unfolding Let_def a(1) by (rule_tac width_cases[OF w]) (simp_all add: k_def n_def mx_def)
  assume "0 < ctr n b k"
  from ctr_decr_ctr[OF kn this]
  show "(let hash = unat (h * ucast type) in
           if type = 1 then ctr_decr 1 b hash
           else if type = 2 then ctr_decr 2 b hash
           else if type = 4 then ctr_decr 4 b hash
           else Some (Inr b)) = Some (Inr (set_ctr n b k (ctr n b k - 1)))"
    unfolding Let_def a(1) by (rule_tac width_cases[OF w]) (simp_all add: k_def n_def)
qed

lemma counting_add_spec:
  assumes w: "width_ok type s" and h: "\<And>i. unat (f i) < s" and len: "length b = s * unat type"
    and room: "\<And>j. j < s \<Longrightarrow> ctr (unat type) b j + count_list (map (\<lambda>i. unat (f i)) is) j < 256 ^ unat type"
  shows "\<exists>b'. counting_add type f is b = Some b' \<and> length b' = length b \<and>
    (\<forall>j < s. ctr (unat type) b' j = ctr (unat type) b j + count_list (map (\<lambda>i. unat (f i)) is) j)"
  using len room
proof (induction "is" arbitrary: b)
  case Nil
  then show ?case by simp
next
  case (Cons i js)
  let ?n = "unat type" and ?k = "unat (f i)"
  let ?b = "set_ctr ?n b ?k (ctr ?n b ?k + 1)"
  have kn: "(?k + 1) * ?n \<le> length b" using counter_address(2)[OF w h] Cons.prems(1) by simp
  have lt: "ctr ?n b ?k + 1 < 256 ^ ?n" using Cons.prems(2)[OF h, of i] by simp
  then have "min (256 ^ ?n - 1) (ctr ?n b ?k + 1) = ctr ?n b ?k + 1" by simp
  then have step: "counting_add type f (i # js) b = counting_add type f js ?b"
    using counting_step(1)[OF w h Cons.prems(1), of i] by simp
  have c: "ctr ?n ?b j = (if j = ?k then ctr ?n b j + 1 else ctr ?n b j)" if "j < s" for j
    using ctr_set_same[OF kn lt] ctr_set_other[OF kn, of j] that Cons.prems(1) mult_le_mono1[of "j + 1" s ?n]
    by (auto simp del: set_ctr_length)
  have "ctr ?n ?b j + count_list (map (\<lambda>i. unat (f i)) js) j < 256 ^ ?n" if "j < s" for j
    using Cons.prems(2)[OF that] c[OF that] by (auto split: if_splits)
  then obtain b' where "counting_add type f js ?b = Some b'" "length b' = length b"
    "\<forall>j < s. ctr ?n b' j = ctr ?n ?b j + count_list (map (\<lambda>i. unat (f i)) js) j"
    using Cons.IH[of ?b] Cons.prems(1) kn by auto
  then show ?case using step c by auto
qed

lemma counting_remove_spec:
  assumes w: "width_ok type s" and h: "\<And>i. unat (f i) < s" and len: "length b = s * unat type"
    and pos: "\<And>j. j < s \<Longrightarrow> count_list (map (\<lambda>i. unat (f i)) is) j \<le> ctr (unat type) b j"
  shows "\<exists>b'. counting_remove type f is b = Some (0, b') \<and> length b' = length b \<and>
    (\<forall>j < s. ctr (unat type) b' j = ctr (unat type) b j - count_list (map (\<lambda>i. unat (f i)) is) j)"
  using len pos
proof (induction "is" arbitrary: b)
  case Nil
  then show ?case by simp
next
  case (Cons i js)
  let ?n = "unat type" and ?k = "unat (f i)"
  let ?b = "set_ctr ?n b ?k (ctr ?n b ?k - 1)"
  have kn: "(?k + 1) * ?n \<le> length b" using counter_address(2)[OF w h] Cons.prems(1) by simp
  have "0 < ctr ?n b ?k" using Cons.prems(2)[OF h, of i] by simp
  then have step: "counting_remove type f (i # js) b = counting_remove type f js ?b"
    using counting_step(2)[OF w h Cons.prems(1), of i] by simp
  have lt: "ctr ?n b ?k - 1 < 256 ^ ?n" using ctr_max[OF kn] by simp
  have c: "ctr ?n ?b j = (if j = ?k then ctr ?n b j - 1 else ctr ?n b j)" if "j < s" for j
    using ctr_set_same[OF kn lt] ctr_set_other[OF kn, of j] that Cons.prems(1) mult_le_mono1[of "j + 1" s ?n]
    by (auto simp del: set_ctr_length)
  have "count_list (map (\<lambda>i. unat (f i)) js) j \<le> ctr ?n ?b j" if "j < s" for j
    using Cons.prems(2)[OF that] c[OF that] by (auto split: if_splits)
  then obtain b' where "counting_remove type f js ?b = Some (0, b')" "length b' = length b"
    "\<forall>j < s. ctr ?n b' j = ctr ?n ?b j - count_list (map (\<lambda>i. unat (f i)) js) j"
    using Cons.IH[of ?b] Cons.prems(1) kn by auto
  then show ?case using step c by auto
qed

lemma counting_hit_byte:
  assumes "width_ok 1 s" "\<And>i. unat (f i) < s" "length b = s"
    "\<And>i. i \<in> set is \<Longrightarrow> 0 < ctr 1 b (unat (f i))"
  shows "counting_hit 1 f is b = Some 1"
  using assms(4)
proof (induction "is")
  case Nil
  then show ?case by simp
next
  case (Cons i js)
  have k: "unat (f i) < length b" using assms(2,3) by simp
  then have "take 1 (drop (unat (f i)) b) = [b ! unat (f i)]" by (simp add: take_Suc hd_drop_conv_nth)
  then have "b ! unat (f i) \<noteq> 0" using Cons.prems[of i] by (auto simp: ctr_def)
  then show ?case using Cons k by (simp add: rd8_def)
qed

section \<open>Properties of the counting filter\<close>

text \<open>Claim C28: In a counting filter whose counters have room, \<open>BloomFilterCountingAdd\<close> never leaves the
  array and never saturates, with one-byte counters the added data tests positive, and whenever the
  test is positive \<open>BloomFilterCountingRemove\<close> undoes the addition exactly, hash collisions between the
  iterations included.\<close>

theorem counting_add_remove:
  assumes "width_ok (c_type b) (unat (c_array_size b))" "length (c_array b) = unat (c_array_size b) * unat (c_type b)"
    and "\<forall>d l i. c_Hash b d l i (c_array_size b) < c_array_size b" "l \<noteq> 0"
    and "\<forall>j < unat (c_array_size b).
           ctr (unat (c_type b)) (c_array b) j + unat (c_hash_iterations b) < 256 ^ unat (c_type b)"
  shows "\<exists>b'. BloomFilterCountingAdd (Some b) (Some d) l = Some (0, Some b') \<and>
    (c_type b = 1 \<longrightarrow> BloomFilterCountingTest b' d l = Some 1) \<and>
    (BloomFilterCountingTest b' d l = Some 1 \<longrightarrow>
       BloomFilterCountingRemove (Some b') (Some d) l = Some (0, Some b))"
proof -
  define s n where "s = unat (c_array_size b)" and "n = unat (c_type b)"
  define f where "f = (\<lambda>i. c_Hash b d l i (c_array_size b))"
  define js where "js = iterations (c_hash_iterations b)"
  define cnt where "cnt = count_list (map (\<lambda>i. unat (f i)) js)"
  have h: "unat (f i) < s" for i using assms(3) by (simp add: f_def s_def word_less_nat_alt)
  have cnt: "cnt j \<le> unat (c_hash_iterations b)" for j
    using count_le_length[of "map (\<lambda>i. unat (f i)) js" j] by (simp add: cnt_def js_def iterations_def)
  have room: "ctr n (c_array b) j + cnt j < 256 ^ n" if "j < s" for j
    using assms(5)[rule_format, of j] that cnt[of j] by (simp add: s_def n_def)
  obtain a where a: "counting_add (c_type b) f js (c_array b) = Some a" "length a = length (c_array b)"
    "\<forall>j < s. ctr n a j = ctr n (c_array b) j + cnt j"
    using counting_add_spec[of "c_type b" s f "c_array b" js] assms(1,2) h room
    unfolding s_def n_def cnt_def by blast
  let ?b = "b\<lparr>c_array := a\<rparr>"
  have add: "BloomFilterCountingAdd (Some b) (Some d) l = Some (0, Some ?b)"
    using a(1) assms(4) by (simp add: BloomFilterCountingAdd_def f_def js_def)
  have test: "BloomFilterCountingTest ?b d l = counting_hit (c_type b) f js a"
    by (simp add: BloomFilterCountingTest_def f_def js_def)
  have "BloomFilterCountingTest ?b d l = Some 1" if t1: "c_type b = 1"
  proof -
    have "0 < ctr 1 a (unat (f i))" if "i \<in> set js" for i
    proof -
      have "0 < cnt (unat (f i))" using that by (auto simp: cnt_def count_list_0_iff intro!: gr0I)
      then show ?thesis using a(3) h[of i] t1 by (simp add: n_def)
    qed
    then show ?thesis
      unfolding test t1 using assms(1,2) h a(2) t1
      by (intro counting_hit_byte[of s]) (simp_all add: s_def)
  qed
  moreover have "BloomFilterCountingRemove (Some ?b) (Some d) l = Some (0, Some b)"
    if "BloomFilterCountingTest ?b d l = Some 1"
  proof -
    obtain a' where r: "counting_remove (c_type b) f js a = Some (0, a')" "length a' = length a"
      "\<forall>j < s. ctr n a' j = ctr n a j - cnt j"
      using counting_remove_spec[of "c_type b" s f a js] assms(1,2) h a
      by (auto simp: s_def n_def cnt_def)
    have "0 < n" by (rule width_cases[OF assms(1)]) (simp_all add: n_def)
    then have "a' = c_array b"
      using r(2,3) a(2,3) assms(2) by (intro ctr_ext[of _ s n]) (simp_all add: s_def n_def)
    then show ?thesis using that r(1) assms(4) by (simp add: BloomFilterCountingRemove_def f_def js_def)
  qed
  ultimately show ?thesis using add by blast
qed

definition byte_filter :: "u8 \<Rightarrow> nat BloomFilterCounting" where
  "byte_filter type = \<lparr>c_array = replicate (3 * unat type) 0, c_array_size = 3, c_type = type,
     c_hash_iterations = 2, c_Hash = (\<lambda>d l i n. of_nat d mod n)\<rparr>"

lemma ctr_replicate: "(j + 1) * n \<le> m \<Longrightarrow> ctr n (replicate m 0) j = 0"
proof -
  have "le_val (replicate k 0) = 0" for k by (induction k) auto
  then show "(j + 1) * n \<le> m \<Longrightarrow> ctr n (replicate m 0) j = 0"
    by (simp add: ctr_def)
qed

lemma counting_add_remove_witness:
  "\<exists>b'. BloomFilterCountingAdd (Some (byte_filter 2)) (Some 5) 7 = Some (0, Some b') \<and>
    (c_type (byte_filter 2) = 1 \<longrightarrow> BloomFilterCountingTest b' 5 7 = Some 1) \<and>
    (BloomFilterCountingTest b' 5 7 = Some 1 \<longrightarrow>
       BloomFilterCountingRemove (Some b') (Some 5) 7 = Some (0, Some (byte_filter 2)))"
proof (rule counting_add_remove)
  show "\<forall>d l i. c_Hash (byte_filter 2) d l i (c_array_size (byte_filter 2)) < c_array_size (byte_filter 2)"
    by (simp add: byte_filter_def) (intro allI word_mod_lt, simp)
  show "\<forall>j < unat (c_array_size (byte_filter 2)). ctr (unat (c_type (byte_filter 2))) (c_array (byte_filter 2)) j +
      unat (c_hash_iterations (byte_filter 2)) < 256 ^ unat (c_type (byte_filter 2))"
    by (auto simp: byte_filter_def ctr_replicate)
qed (simp_all add: byte_filter_def width_ok_def)

fun count_adds :: "nat \<Rightarrow> 'd BloomFilterCounting \<Rightarrow> 'd \<Rightarrow> u16 \<Rightarrow> 'd BloomFilterCounting option" where
  "count_adds 0 b d l = Some b"
| "count_adds (Suc n) b d l =
     (case BloomFilterCountingAdd (Some b) (Some d) l of
        Some (r, Some b') \<Rightarrow> count_adds n b' d l | _ \<Rightarrow> None)"

definition wide_filter :: "nat \<Rightarrow> nat BloomFilterCounting" where
  "wide_filter n = \<lparr>c_array = le_bytes 2 n, c_array_size = 1, c_type = 2, c_hash_iterations = 1,
     c_Hash = (\<lambda>d l i m. 0)\<rparr>"

lemma wide_add: "n < 65535 \<Longrightarrow> BloomFilterCountingAdd (Some (wide_filter n)) (Some d) 1 = Some (0, Some (wide_filter (Suc n)))"
  using le_val_bytes[of n 2]
  by (simp add: BloomFilterCountingAdd_def wide_filter_def iterations_def ctr_incr_def rd_le_def wr_le_def Let_def)

lemma le_bytes_2: "le_bytes 2 n = [of_nat (n mod 256), of_nat (n div 256 mod 256)]"
  by (simp add: numeral_2_eq_2)

lemma wide_adds: "n + m < 65535 \<Longrightarrow> count_adds n (wide_filter m) d 1 = Some (wide_filter (m + n))"
  by (induction n arbitrary: m) (simp_all add: wide_add)

text \<open>With counters of two bytes \<open>BloomFilterCountingTest\<close> looks only at the first byte of the
  counter: in a filter of one two-byte bucket, a datum added 255 times tests positive, but after one
  more addition the test is negative and \<open>BloomFilterCountingRemove\<close> refuses to remove it.\<close>

theorem counting_wide_false_negative:
  "BloomFilterCountingInit (True, True) 1 2 1 (Some (\<lambda>d l i n. 0)) = Some (wide_filter 0) \<and>
   (\<exists>b b'. count_adds 255 (wide_filter 0) d 1 = Some b \<and> BloomFilterCountingTest b d 1 = Some 1 \<and>
     count_adds 256 (wide_filter 0) d 1 = Some b' \<and> BloomFilterCountingTest b' d 1 = Some 0 \<and>
     BloomFilterCountingRemove (Some b') (Some d) 1 = Some (- 1, Some b'))"
proof -
  have t: "BloomFilterCountingTest (wide_filter 255) d 1 = Some 1" "BloomFilterCountingTest (wide_filter 256) d 1 = Some 0"
    by (simp_all add: BloomFilterCountingTest_def wide_filter_def iterations_def rd8_def le_bytes_2)
  have "BloomFilterCountingRemove (Some (wide_filter 256)) (Some d) 1 = Some (- 1, Some (wide_filter 256))"
    by (simp add: BloomFilterCountingRemove_def t(2))
  moreover have "replicate 2 0 = [0, 0 :: u8]" by (simp add: numeral_2_eq_2)
  then have "BloomFilterCountingInit (True, True) 1 2 1 (Some (\<lambda>d l i n. 0)) = Some (wide_filter 0)"
    by (simp add: BloomFilterCountingInit_def wide_filter_def le_bytes_2)
  ultimately show ?thesis using t wide_adds[of 255 0 d] wide_adds[of 256 0 d] by simp
qed

end
