(* ===== verification/PacketEvents.thy ===== *)
theory PacketEvents
  imports Prelude
begin

text \<open>
  The decoder events of a packet (\<open>src/decode-events.h\<close>, \<open>src/decode.h\<close>): the numbering of the events, the
  bounded event buffer of a packet and its two macros. Every decoder imports this theory.
\<close>

section \<open>Event numbers\<close>

datatype decoder_event =
    LORAWAN_PKT_TOO_SMALL | LORAWAN_FRAME_HEADER_TOO_BIG | LORAWAN_FRAME_PKT_INVALID
  | LORAWAN_FRAME_CONTROL_INVALID | LORAWAN_HEADER_INVALID_LEN
  | IPV4_PKT_TOO_SMALL | IPV4_HLEN_TOO_SMALL | IPV4_IPLEN_SMALLER_THAN_HLEN | IPV4_TRUNC_PKT
  | IPV4_OPT_INVALID | IPV4_OPT_INVALID_LEN | IPV4_OPT_MALFORMED | IPV4_OPT_PAD_REQUIRED
  | IPV4_OPT_EOL_REQUIRED | IPV4_OPT_DUPLICATE | IPV4_OPT_UNKNOWN | IPV4_WRONG_IP_VER
  | IPV6_PKT_TOO_SMALL | IPV6_TRUNC_PKT | IPV6_TRUNC_EXTHDR | IPV6_EXTHDR_DUPL_FH
  | IPV6_EXTHDR_DUPL_RH | IPV6_EXTHDR_DUPL_HH | IPV6_EXTHDR_DUPL_DH | IPV6_EXTHDR_DUPL_AH
  | IPV6_EXTHDR_DUPL_EH | IPV6_EXTHDR_INVALID_OPTLEN | IPV6_WRONG_IP_VER
  | UDP_PKT_TOO_SMALL | UDP_HLEN_TOO_SMALL | UDP_HLEN_INVALID
  | ETHERNET_PKT_TOO_SMALL
  | IPRAW_INVALID_IPV

text \<open>The values of the C enumeration; \<open>IPV4_PKT_TOO_SMALL = 1\<close> restarts the count.\<close>

fun event_code :: "decoder_event \<Rightarrow> u8" where
  "event_code LORAWAN_PKT_TOO_SMALL = 0"
| "event_code LORAWAN_FRAME_HEADER_TOO_BIG = 1"
| "event_code LORAWAN_FRAME_PKT_INVALID = 2"
| "event_code LORAWAN_FRAME_CONTROL_INVALID = 3"
| "event_code LORAWAN_HEADER_INVALID_LEN = 4"
| "event_code IPV4_PKT_TOO_SMALL = 1"
| "event_code IPV4_HLEN_TOO_SMALL = 2"
| "event_code IPV4_IPLEN_SMALLER_THAN_HLEN = 3"
| "event_code IPV4_TRUNC_PKT = 4"
| "event_code IPV4_OPT_INVALID = 5"
| "event_code IPV4_OPT_INVALID_LEN = 6"
| "event_code IPV4_OPT_MALFORMED = 7"
| "event_code IPV4_OPT_PAD_REQUIRED = 8"
| "event_code IPV4_OPT_EOL_REQUIRED = 9"
| "event_code IPV4_OPT_DUPLICATE = 10"
| "event_code IPV4_OPT_UNKNOWN = 11"
| "event_code IPV4_WRONG_IP_VER = 12"
| "event_code IPV6_PKT_TOO_SMALL = 13"
| "event_code IPV6_TRUNC_PKT = 14"
| "event_code IPV6_TRUNC_EXTHDR = 15"
| "event_code IPV6_EXTHDR_DUPL_FH = 16"
| "event_code IPV6_EXTHDR_DUPL_RH = 17"
| "event_code IPV6_EXTHDR_DUPL_HH = 18"
| "event_code IPV6_EXTHDR_DUPL_DH = 19"
| "event_code IPV6_EXTHDR_DUPL_AH = 20"
| "event_code IPV6_EXTHDR_DUPL_EH = 21"
| "event_code IPV6_EXTHDR_INVALID_OPTLEN = 22"
| "event_code IPV6_WRONG_IP_VER = 23"
| "event_code UDP_PKT_TOO_SMALL = 24"
| "event_code UDP_HLEN_TOO_SMALL = 25"
| "event_code UDP_HLEN_INVALID = 26"
| "event_code ETHERNET_PKT_TOO_SMALL = 27"
| "event_code IPRAW_INVALID_IPV = 28"

definition DECODE_EVENT_MAX :: u8 where
  "DECODE_EVENT_MAX = 29"

section \<open>The event buffer of a packet\<close>

record PacketDecoderEvents =
  ev_cnt :: u8
  ev_codes :: "u8 list"

definition PACKET_DECODER_EVENT_MAX :: u8 where
  "PACKET_DECODER_EVENT_MAX = 16"

text \<open>\<open>PACKET_INITIALIZE\<close> sets the count only; the array keeps whatever it holds.\<close>

definition events_init :: "PacketDecoderEvents \<Rightarrow> PacketDecoderEvents" where
  "events_init v = v\<lparr>ev_cnt := 0\<rparr>"

text \<open>\<open>None\<close> is the write outside the array.\<close>

definition set_event_code :: "u8 \<Rightarrow> PacketDecoderEvents \<Rightarrow> PacketDecoderEvents option" where
  "set_event_code e v =
     (if ev_cnt v < PACKET_DECODER_EVENT_MAX then
        (if unat (ev_cnt v) < length (ev_codes v) then
           Some (v\<lparr>ev_codes := (ev_codes v)[unat (ev_cnt v) := e], ev_cnt := ev_cnt v + 1\<rparr>)
         else None)
      else Some v)"

text \<open>The loop of the test from the index \<open>u\<close> on; \<open>None\<close> is the read outside the array.\<close>

function isset_loop :: "u8 \<Rightarrow> PacketDecoderEvents \<Rightarrow> u8 \<Rightarrow> bool option" where
  "isset_loop e v u =
     (if u < ev_cnt v then
        (case rd8 (ev_codes v) (unat u) of
           None \<Rightarrow> None
         | Some x \<Rightarrow> if x = e then Some True else isset_loop e v (u + 1))
      else Some False)"
  by pat_completeness auto

termination isset_loop
proof (relation "measure (\<lambda>(e, v, u). unat (ev_cnt v) - unat u)", goal_cases)
  case (2 e v u x)
  then show ?case using unat_Suc_less[of u "ev_cnt v"] by (simp add: word_less_nat_alt)
qed simp

declare isset_loop.simps [simp del]

definition event_code_isset :: "u8 \<Rightarrow> PacketDecoderEvents \<Rightarrow> bool option" where
  "event_code_isset e v = isset_loop e v 0"

definition set_event :: "decoder_event \<Rightarrow> PacketDecoderEvents \<Rightarrow> PacketDecoderEvents option" where
  "set_event e = set_event_code (event_code e)"

definition event_isset :: "decoder_event \<Rightarrow> PacketDecoderEvents \<Rightarrow> bool option" where
  "event_isset e = event_code_isset (event_code e)"

text \<open>
  The events field of a packet in the decoders: \<open>None\<close> once an event was written outside the array, and
  from then on.
\<close>

type_synonym packet_events = "PacketDecoderEvents option"

definition add_event :: "u8 \<Rightarrow> packet_events \<Rightarrow> packet_events" where
  "add_event e x = Option.bind x (set_event_code e)"

section \<open>The buffer\<close>

definition events_ok :: "PacketDecoderEvents \<Rightarrow> bool" where
  "events_ok v \<longleftrightarrow> length (ev_codes v) = 16 \<and> ev_cnt v \<le> 16"

definition event_list :: "PacketDecoderEvents \<Rightarrow> u8 list" where
  "event_list v = take (unat (ev_cnt v)) (ev_codes v)"

definition fresh_events :: PacketDecoderEvents where
  "fresh_events = \<lparr>ev_cnt = 0, ev_codes = replicate 16 0\<rparr>"

lemma events_init_ok: "length (ev_codes v) = 16 \<Longrightarrow> events_ok (events_init v) \<and> event_list (events_init v) = []"
  by (simp add: events_ok_def events_init_def event_list_def)

lemma fresh_events_ok [simp]: "events_ok fresh_events" "event_list fresh_events = []"
  by (simp_all add: events_ok_def fresh_events_def event_list_def)

lemma event_list_length: "events_ok v \<Longrightarrow> length (event_list v) = unat (ev_cnt v) \<and> unat (ev_cnt v) \<le> 16"
  by (simp add: events_ok_def event_list_def word_le_nat_alt)

lemma set_event_code_spec:
  assumes "events_ok v"
  shows "\<exists>v'. set_event_code e v = Some v' \<and> events_ok v' \<and>
    event_list v' = (if length (event_list v) < 16 then event_list v @ [e] else event_list v)"
proof (cases "ev_cnt v < 16")
  case True
  then have lt: "unat (ev_cnt v) < 16" by (simp add: word_less_nat_alt)
  have u: "unat (ev_cnt v + 1) = Suc (unat (ev_cnt v))" using unat_Suc_less[OF True] .
  then have "ev_cnt v + 1 \<le> 16" using lt by (simp add: word_le_nat_alt)
  then show ?thesis using assms lt u True
    by (simp add: set_event_code_def events_ok_def event_list_def PACKET_DECODER_EVENT_MAX_def take_Suc_conv_app_nth)
next
  case False
  then have "\<not> length (event_list v) < 16" using event_list_length[OF assms] by (simp add: word_less_nat_alt)
  then show ?thesis using assms False by (simp add: set_event_code_def PACKET_DECODER_EVENT_MAX_def)
qed

definition packet_events_ok :: "packet_events \<Rightarrow> bool" where
  "packet_events_ok x \<longleftrightarrow> (\<exists>v. x = Some v \<and> events_ok v)"

lemma packet_events_Some [simp]: "packet_events_ok (Some v) = events_ok v"
  by (simp add: packet_events_ok_def)

lemma add_event_ok [simp]: "packet_events_ok x \<Longrightarrow> packet_events_ok (add_event e x)"
  using set_event_code_spec by (fastforce simp: packet_events_ok_def add_event_def)

lemma isset_loop_spec:
  "events_ok v \<Longrightarrow> isset_loop e v u = Some (e \<in> set (drop (unat u) (event_list v)))"
proof (induction e v u rule: isset_loop.induct)
  case (1 e v u)
  note len = event_list_length[OF "1.prems"]
  show ?case
  proof (cases "u < ev_cnt v")
    case True
    then have lt: "unat u < unat (ev_cnt v)" by (simp add: word_less_nat_alt)
    then have rd: "rd8 (ev_codes v) (unat u) = Some (event_list v ! unat u)"
      using "1.prems" len by (simp add: rd8_def events_ok_def event_list_def)
    have "drop (unat u) (event_list v) = event_list v ! unat u # drop (unat (u + 1)) (event_list v)"
      using lt len by (simp add: unat_Suc_less[OF True] Cons_nth_drop_Suc)
    then show ?thesis using True rd "1.IH"[OF True rd _ "1.prems"] by (subst isset_loop.simps) auto
  next
    case False
    then show ?thesis using len by (subst isset_loop.simps) (simp add: word_less_nat_alt)
  qed
qed

section \<open>Properties\<close>

text \<open>Claim C33: The event buffer keeps the first 16 events in order and never writes or reads outside its array
  of 16 entries, where an access outside is an error of the model: after any sequence of events set on an
  initialised packet, whatever its array holds, the recorded codes are the first 16 of the sequence, and
  the test of an event answers whether its code is one of them.\<close>

theorem event_buffer_keeps_first:
  assumes "length (ev_codes v) = 16"
  shows "\<exists>v'. for_each (\<lambda>v e. set_event e v) (events_init v) es = Some v' \<and> length (ev_codes v') = 16 \<and>
    event_list v' = take 16 (map event_code es) \<and>
    (\<forall>e. event_isset e v' = Some (event_code e \<in> set (take 16 (map event_code es))))"
proof -
  have "\<exists>v'. for_each (\<lambda>v e. set_event e v) v es = Some v' \<and> events_ok v' \<and>
      event_list v' = take 16 (event_list v @ map event_code es)" if "events_ok v" for v
    using that
  proof (induction es arbitrary: v)
    case Nil
    then show ?case using event_list_length[OF Nil] by simp
  next
    case (Cons e es)
    obtain w where w: "set_event e v = Some w" "events_ok w"
      "event_list w = (if length (event_list v) < 16 then event_list v @ [event_code e] else event_list v)"
      using set_event_code_spec[OF Cons.prems, of "event_code e"] by (auto simp: set_event_def)
    have "take 16 (event_list w @ map event_code es) = take 16 (event_list v @ map event_code (e # es))"
      using event_list_length[OF Cons.prems] by (simp add: w(3) take_Cons')
    then show ?case using Cons.IH[OF w(2)] w(1) by simp
  qed
  from this[of "events_init v"] events_init_ok[OF assms] obtain v' where v':
    "for_each (\<lambda>v e. set_event e v) (events_init v) es = Some v'" "events_ok v'"
    "event_list v' = take 16 (map event_code es)" by auto
  then show ?thesis
    using isset_loop_spec[of v' _ 0] by (auto simp: event_isset_def event_code_isset_def events_ok_def)
qed

lemma event_buffer_keeps_first_witness:
  "\<exists>v'. for_each (\<lambda>v e. set_event e v) (events_init \<lparr>ev_cnt = 9, ev_codes = replicate 16 3\<rparr>)
      (IPV4_OPT_UNKNOWN # replicate 17 UDP_HLEN_INVALID) = Some v' \<and>
    event_list v' = 11 # replicate 15 26 \<and> event_isset IPV4_OPT_UNKNOWN v' = Some True \<and>
    event_isset IPV4_TRUNC_PKT v' = Some False"
proof -
  have c: "take 16 (map event_code (IPV4_OPT_UNKNOWN # replicate 17 UDP_HLEN_INVALID)) = 11 # replicate 15 26"
    by (simp add: numeral_eq_Suc)
  have "length (ev_codes \<lparr>ev_cnt = 9, ev_codes = replicate 16 3\<rparr>) = 16" by simp
  from event_buffer_keeps_first[OF this, of "IPV4_OPT_UNKNOWN # replicate 17 UDP_HLEN_INVALID"]
  show ?thesis unfolding c by (elim exE conjE) (rule exI, auto)
qed

text \<open>The event numbers do not identify events: the enumeration restarts at 1 after the LoRaWAN
  events, so that recording any of four LoRaWAN events on a fresh packet also reports an IPv4 event
  as set, the two sharing one number; all other pairs of events have different numbers.\<close>

theorem event_codes_collide:
  "Option.bind (set_event LORAWAN_FRAME_HEADER_TOO_BIG fresh_events) (event_isset IPV4_PKT_TOO_SMALL) = Some True \<and>
   Option.bind (set_event LORAWAN_FRAME_PKT_INVALID fresh_events) (event_isset IPV4_HLEN_TOO_SMALL) = Some True \<and>
   Option.bind (set_event LORAWAN_FRAME_CONTROL_INVALID fresh_events) (event_isset IPV4_IPLEN_SMALLER_THAN_HLEN) = Some True \<and>
   Option.bind (set_event LORAWAN_HEADER_INVALID_LEN fresh_events) (event_isset IPV4_TRUNC_PKT) = Some True \<and>
   (event_code a = event_code b \<longleftrightarrow> a = b \<or>
      {a, b} \<in> {{LORAWAN_FRAME_HEADER_TOO_BIG, IPV4_PKT_TOO_SMALL}, {LORAWAN_FRAME_PKT_INVALID, IPV4_HLEN_TOO_SMALL},
       {LORAWAN_FRAME_CONTROL_INVALID, IPV4_IPLEN_SMALLER_THAN_HLEN}, {LORAWAN_HEADER_INVALID_LEN, IPV4_TRUNC_PKT}})"
proof -
  have codes: "event_code a = event_code b \<longleftrightarrow> a = b \<or>
      {a, b} \<in> {{LORAWAN_FRAME_HEADER_TOO_BIG, IPV4_PKT_TOO_SMALL}, {LORAWAN_FRAME_PKT_INVALID, IPV4_HLEN_TOO_SMALL},
       {LORAWAN_FRAME_CONTROL_INVALID, IPV4_IPLEN_SMALLER_THAN_HLEN}, {LORAWAN_HEADER_INVALID_LEN, IPV4_TRUNC_PKT}}"
    by (cases a; cases b; simp add: insert_commute doubleton_eq_iff)
  have "Option.bind (set_event a fresh_events) (event_isset b) = Some (event_code b = event_code a)" for a b
    using set_event_code_spec[OF fresh_events_ok(1), of "event_code a"] isset_loop_spec[of _ "event_code b" 0]
    by (auto simp: set_event_def event_isset_def event_code_isset_def)
  then show ?thesis using codes by simp
qed

end
