(* ===== verification/DecodeIPV4.thy ===== *)
theory DecodeIPV4
  imports PacketEvents
begin

text \<open>
  The IPv4 header and option decoder (\<open>src/decode-ipv4.c\<close>, \<open>src/decode-ipv4.h\<close>): the cached header getters,
  the validators of the options, the option loop and \<open>DecodeIPV4Packet\<close>. A pointer into the packet
  buffer is the list of the bytes from there to the end of the buffer; a read beyond it makes the
  result \<open>None\<close>, and so does a write beyond the option array. A pointer to an element of the option
  array is its index.
\<close>

section \<open>Packet state\<close>

record IPV4Opt =
  opt_type :: u8
  opt_len :: u8
  opt_data :: "bytes option"

record IPV4Cache =
  c_flags :: u16
  c_ver :: u8
  c_hl :: u8
  c_ip_len :: u16
  c_ip_id :: u16
  c_ip_off :: u16
  c__ip_off :: u16
  c_rf :: u8
  c_df :: u8
  c_mf :: u8
  c_ip_proto :: u8

record IPV4Vars =
  ip_opt_len :: u8
  ip_opts :: "IPV4Opt list"
  ip_opt_cnt :: u8
  o_rr :: "nat option"
  o_qs :: "nat option"
  o_ts :: "nat option"
  o_sec :: "nat option"
  o_lsrr :: "nat option"
  o_cipso :: "nat option"
  o_sid :: "nat option"
  o_ssrr :: "nat option"
  o_rtralt :: "nat option"

record ip4_packet =
  events :: packet_events
  ip4h :: "bytes option"
  ip4c :: IPV4Cache
  ip4vars :: IPV4Vars

definition IPV4_OPTMAX :: nat where "IPV4_OPTMAX = 40"

definition ev :: "decoder_event \<Rightarrow> ip4_packet \<Rightarrow> ip4_packet" where
  "ev e p = p\<lparr>events := add_event (event_code e) (events p)\<rparr>"

definition CLEAR_IPV4_PACKET :: "ip4_packet \<Rightarrow> ip4_packet" where
  "CLEAR_IPV4_PACKET p =
     p\<lparr>ip4h := None,
       ip4vars := (ip4vars p)\<lparr>ip_opt_len := 0, ip_opt_cnt := 0, o_rr := None, o_qs := None, o_ts := None,
         o_sec := None, o_lsrr := None, o_cipso := None, o_sid := None, o_ssrr := None, o_rtralt := None\<rparr>,
       ip4c := \<lparr>c_flags = 0, c_ver = 0, c_hl = 0, c_ip_len = 0, c_ip_id = 0, c_ip_off = 0, c__ip_off = 0,
         c_rf = 0, c_df = 0, c_mf = 0, c_ip_proto = 0\<rparr>\<rparr>"

section \<open>The header getters\<close>

definition IPV4_CACHE_INIT :: "ip4_packet \<Rightarrow> ip4_packet" where
  "IPV4_CACHE_INIT p = p\<lparr>ip4c := (ip4c p)\<lparr>c_flags := 0\<rparr>\<rparr>"

definition hdr8 :: "ip4_packet \<Rightarrow> nat \<Rightarrow> u8 option" where
  "hdr8 p i = do { h \<leftarrow> ip4h p; rd8 h i }"

definition hdr16 :: "ip4_packet \<Rightarrow> nat \<Rightarrow> u16 option" where
  "hdr16 p i = do { h \<leftarrow> ip4h p; rd16be h i }"

text \<open>
  The common shape of the getters: the cached value if its flag is set, otherwise the raw value,
  which is stored with its flag.
\<close>

definition cached :: "u16 \<Rightarrow> (IPV4Cache \<Rightarrow> 'v) \<Rightarrow> ('v \<Rightarrow> IPV4Cache \<Rightarrow> IPV4Cache) \<Rightarrow> (ip4_packet \<Rightarrow> ('v \<times> ip4_packet) option)
    \<Rightarrow> ip4_packet \<Rightarrow> ('v \<times> ip4_packet) option" where
  "cached flag get put raw p =
     (if c_flags (ip4c p) AND flag \<noteq> 0 then Some (get (ip4c p), p)
      else do {
        (v, p1) \<leftarrow> raw (p\<lparr>ip4c := (ip4c p)\<lparr>c_flags := c_flags (ip4c p) OR flag\<rparr>\<rparr>);
        Some (v, p1\<lparr>ip4c := put v (ip4c p1)\<rparr>)
      })"

definition IPV4_GET_VER :: "ip4_packet \<Rightarrow> (u8 \<times> ip4_packet) option" where
  "IPV4_GET_VER = cached 0x0001 c_ver (\<lambda>v c. c\<lparr>c_ver := v\<rparr>)
     (\<lambda>p. do { b \<leftarrow> hdr8 p 0; Some (drop_bit 4 (b AND 0xf0), p) })"

definition IPV4_GET_HLEN :: "ip4_packet \<Rightarrow> (u8 \<times> ip4_packet) option" where
  "IPV4_GET_HLEN = cached 0x0002 c_hl (\<lambda>v c. c\<lparr>c_hl := v\<rparr>)
     (\<lambda>p. do { b \<leftarrow> hdr8 p 0; Some (push_bit 2 (b AND 0x0f), p) })"

definition IPV4_GET_IPLEN :: "ip4_packet \<Rightarrow> (u16 \<times> ip4_packet) option" where
  "IPV4_GET_IPLEN = cached 0x0008 c_ip_len (\<lambda>v c. c\<lparr>c_ip_len := v\<rparr>)
     (\<lambda>p. do { w \<leftarrow> hdr16 p 2; Some (w, p) })"

definition IPV4_GET_IPID :: "ip4_packet \<Rightarrow> (u16 \<times> ip4_packet) option" where
  "IPV4_GET_IPID = cached 0x0010 c_ip_id (\<lambda>v c. c\<lparr>c_ip_id := v\<rparr>)
     (\<lambda>p. do { w \<leftarrow> hdr16 p 4; Some (w, p) })"

definition IPV4_GET_IPOFFSET_raw :: "ip4_packet \<Rightarrow> (u16 \<times> ip4_packet) option" where
  "IPV4_GET_IPOFFSET_raw = cached 0x0040 c__ip_off (\<lambda>v c. c\<lparr>c__ip_off := v\<rparr>)
     (\<lambda>p. do { w \<leftarrow> hdr16 p 6; Some (w, p) })"

definition IPV4_GET_IPOFFSET :: "ip4_packet \<Rightarrow> (u16 \<times> ip4_packet) option" where
  "IPV4_GET_IPOFFSET = cached 0x0020 c_ip_off (\<lambda>v c. c\<lparr>c_ip_off := v\<rparr>)
     (\<lambda>p. do { (w, p1) \<leftarrow> IPV4_GET_IPOFFSET_raw p; Some (w AND 0x1fff, p1) })"

definition IPV4_GET_RF :: "ip4_packet \<Rightarrow> (u8 \<times> ip4_packet) option" where
  "IPV4_GET_RF = cached 0x0080 c_rf (\<lambda>v c. c\<lparr>c_rf := v\<rparr>)
     (\<lambda>p. do { (w, p1) \<leftarrow> IPV4_GET_IPOFFSET_raw p; Some (ucast (drop_bit 15 (w AND 0x8000)), p1) })"

definition IPV4_GET_DF :: "ip4_packet \<Rightarrow> (u8 \<times> ip4_packet) option" where
  "IPV4_GET_DF = cached 0x0100 c_df (\<lambda>v c. c\<lparr>c_df := v\<rparr>)
     (\<lambda>p. do { (w, p1) \<leftarrow> IPV4_GET_IPOFFSET_raw p; Some (ucast (drop_bit 14 (w AND 0x4000)), p1) })"

definition IPV4_GET_MF :: "ip4_packet \<Rightarrow> (u8 \<times> ip4_packet) option" where
  "IPV4_GET_MF = cached 0x0200 c_mf (\<lambda>v c. c\<lparr>c_mf := v\<rparr>)
     (\<lambda>p. do { (w, p1) \<leftarrow> IPV4_GET_IPOFFSET_raw p; Some (ucast (drop_bit 13 (w AND 0x2000)), p1) })"

definition IPV4_GET_IPPROTO :: "ip4_packet \<Rightarrow> (u8 \<times> ip4_packet) option" where
  "IPV4_GET_IPPROTO = cached 0x0800 c_ip_proto (\<lambda>v c. c\<lparr>c_ip_proto := v\<rparr>)
     (\<lambda>p. do { b \<leftarrow> hdr8 p 9; Some (b, p) })"

section \<open>The option validators\<close>

definition IPV4_OPT_EOL :: u8 where "IPV4_OPT_EOL = 0x00"
definition IPV4_OPT_NOP :: u8 where "IPV4_OPT_NOP = 0x01"
definition IPV4_OPT_RR :: u8 where "IPV4_OPT_RR = 0x07"
definition IPV4_OPT_QS :: u8 where "IPV4_OPT_QS = 0x19"
definition IPV4_OPT_TS :: u8 where "IPV4_OPT_TS = 0x44"
definition IPV4_OPT_SEC :: u8 where "IPV4_OPT_SEC = 0x82"
definition IPV4_OPT_LSRR :: u8 where "IPV4_OPT_LSRR = 0x83"
definition IPV4_OPT_CIPSO :: u8 where "IPV4_OPT_CIPSO = 0x86"
definition IPV4_OPT_SID :: u8 where "IPV4_OPT_SID = 0x88"
definition IPV4_OPT_SSRR :: u8 where "IPV4_OPT_SSRR = 0x89"
definition IPV4_OPT_RTRALT :: u8 where "IPV4_OPT_RTRALT = 0x94"

lemmas opt_codes = IPV4_OPT_EOL_def IPV4_OPT_NOP_def IPV4_OPT_RR_def IPV4_OPT_QS_def IPV4_OPT_TS_def
  IPV4_OPT_SEC_def IPV4_OPT_LSRR_def IPV4_OPT_CIPSO_def IPV4_OPT_SID_def IPV4_OPT_SSRR_def
  IPV4_OPT_RTRALT_def

definition cur_opt :: "ip4_packet \<Rightarrow> IPV4Opt" where
  "cur_opt p = ip_opts (ip4vars p) ! unat (ip_opt_cnt (ip4vars p))"

definition IPV4OptValidateGeneric :: "ip4_packet \<Rightarrow> IPV4Opt \<Rightarrow> (int \<times> ip4_packet) option" where
  "IPV4OptValidateGeneric p opt =
     Some (let len = opt_len (cur_opt p); t = opt_type opt; bad = (- 1, ev IPV4_OPT_INVALID_LEN p) in
       if t = IPV4_OPT_QS then (if len < 8 then bad else (0, p))
       else if t = IPV4_OPT_SEC then (if len \<noteq> 11 then bad else (0, p))
       else if t = IPV4_OPT_SID then (if len \<noteq> 4 then bad else (0, p))
       else if t = IPV4_OPT_RTRALT then (if len \<noteq> 4 then bad else (0, p))
       else (- 1, ev IPV4_OPT_UNKNOWN p))"

definition IPV4OptValidateRoute :: "ip4_packet \<Rightarrow> IPV4Opt \<Rightarrow> (int \<times> ip4_packet) option" where
  "IPV4OptValidateRoute p opt =
     (if opt_len opt < 3 then Some (- 1, ev IPV4_OPT_INVALID_LEN p)
      else (case opt_data opt of
        None \<Rightarrow> Some (- 1, ev IPV4_OPT_MALFORMED p)
      | Some d \<Rightarrow> do {
          ptr \<leftarrow> rd8 d 0;
          if ptr < 4 \<or> ptr mod 4 \<noteq> 0 \<or> unat ptr > unat (opt_len opt) + 1
          then Some (- 1, ev IPV4_OPT_MALFORMED p)
          else Some (0, p)
        }))"

definition IPV4OptValidateTimestamp :: "ip4_packet \<Rightarrow> IPV4Opt \<Rightarrow> (int \<times> ip4_packet) option" where
  "IPV4OptValidateTimestamp p opt =
     (if opt_len opt < 5 then Some (- 1, ev IPV4_OPT_INVALID_LEN p)
      else (case opt_data opt of
        None \<Rightarrow> Some (- 1, ev IPV4_OPT_MALFORMED p)
      | Some d \<Rightarrow> do {
          ptr \<leftarrow> rd8 d 0;
          if ptr < 5 then Some (- 1, ev IPV4_OPT_MALFORMED p)
          else do {
            flag \<leftarrow> rd8 d 3;
            let rec_size = (if flag = 1 \<or> flag = 3 then 8 else 4) in
            if (unat ptr - 5) mod rec_size \<noteq> 0 \<or> unat ptr > unat (opt_len opt) + 1
            then Some (- 1, ev IPV4_OPT_MALFORMED p)
            else Some (0, p)
          }
        }))"

text \<open>The loop over the CIPSO tags; \<open>tag\<close> points to the next tag header and \<open>len\<close> bytes are left.\<close>

function cipso_tags :: "ip4_packet \<Rightarrow> bytes \<Rightarrow> u16 \<Rightarrow> (int \<times> ip4_packet) option" where
  "cipso_tags p tag len =
     (if len = 0 then Some (0, p)
      else if len < 2 then Some (- 1, ev IPV4_OPT_MALFORMED p)
      else (case (rd8 tag 0, rd8 tag 1) of
        (Some ttype, Some tlen) \<Rightarrow>
          if ucast tlen > len then Some (- 1, ev IPV4_OPT_MALFORMED p)
          else if ttype = 0 then Some (- 1, ev IPV4_OPT_MALFORMED p)
          else if ttype = 1 \<or> ttype = 2 \<or> ttype = 5 \<or> ttype = 6 \<or> ttype = 7 then
            (if tlen < 4 \<or> ucast tlen > len then Some (- 1, ev IPV4_OPT_MALFORMED p)
             else if ttype \<noteq> 7 then
               (case rd8 tag 2 of
                  None \<Rightarrow> None
                | Some a \<Rightarrow>
                    if a \<noteq> 0 then Some (- 1, ev IPV4_OPT_MALFORMED p)
                    else cipso_tags p (drop (2 + (unat tlen - 2)) tag) (len - ucast tlen))
             else cipso_tags p (drop (2 + (unat tlen - 2)) tag) (len - ucast tlen))
          else Some (- 1, ev IPV4_OPT_MALFORMED p)
      | _ \<Rightarrow> None))"
  by pat_completeness auto

lemma sub_ucast_less:
  fixes len :: u16 and t :: u8
  assumes "\<not> ucast t > len" "0 < t"
  shows "unat (len - ucast t) < unat len" "unat (len - ucast t) = unat len - unat t" "unat t \<le> unat len"
proof -
  have u: "unat (ucast t :: u16) = unat t" by (rule unat_ucast_up) simp
  have le: "ucast t \<le> len" using assms(1) by (simp add: not_less)
  then show *: "unat (len - ucast t) = unat len - unat t" "unat t \<le> unat len"
    by (simp_all add: unat_sub u word_le_nat_alt)
  show "unat (len - ucast t) < unat len"
    using *(1,2) assms(2) by (simp add: word_less_nat_alt)
qed

termination cipso_tags
proof (relation "measure (\<lambda>(p, tag, len). unat len)", goal_cases)
  case 1
  then show ?case by simp
next
  case (2 p tag len x y ttype tlen a)
  then have "0 < tlen" by (auto simp: word_less_nat_alt)
  then show ?case using 2 sub_ucast_less(1)[of len tlen] by auto
next
  case (3 p tag len x y ttype tlen)
  then have "0 < tlen" by (auto simp: word_less_nat_alt)
  then show ?case using 3 sub_ucast_less(1)[of len tlen] by auto
qed

declare cipso_tags.simps [simp del]

definition IPV4OptValidateCIPSO :: "ip4_packet \<Rightarrow> IPV4Opt \<Rightarrow> (int \<times> ip4_packet) option" where
  "IPV4OptValidateCIPSO p opt =
     (if opt_len opt < 10 then Some (- 1, ev IPV4_OPT_INVALID_LEN p)
      else (case opt_data opt of
        None \<Rightarrow> Some (- 1, ev IPV4_OPT_MALFORMED p)
      | Some d \<Rightarrow> do {
          doi \<leftarrow> rd8 d 0;
          cipso_tags p (drop 4 d) (ucast (opt_len opt) - 1 - 1 - 4)
        }))"

section \<open>The option loop\<close>

text \<open>\<open>p->IPV4_OPTS[p->IPV4_OPTS_CNT] = ...\<close>, inside the array of \<open>IPV4_OPTMAX\<close> options.\<close>

definition store_opt :: "IPV4Opt \<Rightarrow> ip4_packet \<Rightarrow> ip4_packet option" where
  "store_opt opt p =
     (let v = ip4vars p in
      if unat (ip_opt_cnt v) < length (ip_opts v)
      then Some (p\<lparr>ip4vars := v\<lparr>ip_opts := (ip_opts v)[unat (ip_opt_cnt v) := opt]\<rparr>\<rparr>)
      else None)"

text \<open>
  One \<open>case\<close> of the switch: a second option of a type is only noted; otherwise the option is validated
  and remembered. The result \<open>-1\<close> is the \<open>return -1\<close> of \<open>DecodeIPV4Options\<close>.
\<close>

definition opt_case :: "(IPV4Vars \<Rightarrow> nat option) \<Rightarrow> (nat option \<Rightarrow> IPV4Vars \<Rightarrow> IPV4Vars)
    \<Rightarrow> (ip4_packet \<Rightarrow> IPV4Opt \<Rightarrow> (int \<times> ip4_packet) option) \<Rightarrow> ip4_packet \<Rightarrow> (int \<times> ip4_packet) option" where
  "opt_case get put validate p =
     (if get (ip4vars p) \<noteq> None then Some (0, ev IPV4_OPT_DUPLICATE p)
      else do {
        (r, p1) \<leftarrow> validate p (cur_opt p);
        if r \<noteq> 0 then Some (- 1, p1)
        else Some (0, p1\<lparr>ip4vars := put (Some (unat (ip_opt_cnt (ip4vars p1)))) (ip4vars p1)\<rparr>)
      })"

definition opt_switch :: "ip4_packet \<Rightarrow> (int \<times> ip4_packet) option" where
  "opt_switch p =
     (let t = opt_type (cur_opt p) in
      if t = IPV4_OPT_TS then opt_case o_ts (\<lambda>x v. v\<lparr>o_ts := x\<rparr>) IPV4OptValidateTimestamp p
      else if t = IPV4_OPT_RR then opt_case o_rr (\<lambda>x v. v\<lparr>o_rr := x\<rparr>) IPV4OptValidateRoute p
      else if t = IPV4_OPT_QS then opt_case o_qs (\<lambda>x v. v\<lparr>o_qs := x\<rparr>) IPV4OptValidateGeneric p
      else if t = IPV4_OPT_SEC then opt_case o_sec (\<lambda>x v. v\<lparr>o_sec := x\<rparr>) IPV4OptValidateGeneric p
      else if t = IPV4_OPT_LSRR then opt_case o_lsrr (\<lambda>x v. v\<lparr>o_lsrr := x\<rparr>) IPV4OptValidateRoute p
      else if t = IPV4_OPT_CIPSO then opt_case o_cipso (\<lambda>x v. v\<lparr>o_cipso := x\<rparr>) IPV4OptValidateCIPSO p
      else if t = IPV4_OPT_SID then opt_case o_sid (\<lambda>x v. v\<lparr>o_sid := x\<rparr>) IPV4OptValidateGeneric p
      else if t = IPV4_OPT_SSRR then opt_case o_ssrr (\<lambda>x v. v\<lparr>o_ssrr := x\<rparr>) IPV4OptValidateRoute p
      else if t = IPV4_OPT_RTRALT then opt_case o_rtralt (\<lambda>x v. v\<lparr>o_rtralt := x\<rparr>) IPV4OptValidateGeneric p
      else Some (0, ev IPV4_OPT_INVALID p))"

function opts_loop :: "ip4_packet \<Rightarrow> bytes \<Rightarrow> u16 \<Rightarrow> (int \<times> ip4_packet) option" where
  "opts_loop p pkt plen =
     (if plen = 0 then Some (0, p)
      else (case rd8 pkt 0 of
        None \<Rightarrow> None
      | Some b \<Rightarrow>
          if b = IPV4_OPT_EOL then Some (0, p)
          else if b = IPV4_OPT_NOP then opts_loop p (drop 1 pkt) (plen - 1)
          else if plen < 2 then Some (0, ev IPV4_OPT_EOL_REQUIRED p)
          else (case rd8 pkt 1 of
            None \<Rightarrow> None
          | Some l \<Rightarrow>
              if ucast l > plen then Some (- 1, ev IPV4_OPT_INVALID_LEN p)
              else (case store_opt \<lparr>opt_type = b, opt_len = l,
                      opt_data = (if plen > 2 then Some (drop 2 pkt) else None)\<rparr> p of
                None \<Rightarrow> None
              | Some p1 \<Rightarrow>
                  if ucast l > plen \<or> l < 2 then Some (- 1, ev IPV4_OPT_INVALID_LEN p1)
                  else (case opt_switch p1 of
                    None \<Rightarrow> None
                  | Some (r, p2) \<Rightarrow>
                      if r \<noteq> 0 then Some (- 1, p2)
                      else opts_loop (p2\<lparr>ip4vars := (ip4vars p2)\<lparr>ip_opt_cnt := ip_opt_cnt (ip4vars p2) + 1\<rparr>\<rparr>)
                             (drop (unat l) pkt) (plen - ucast l))))))"
  by pat_completeness auto

termination opts_loop
proof (relation "measure (\<lambda>(p, pkt, plen). unat plen)", goal_cases)
  case 1
  then show ?case by simp
next
  case (2 p pkt plen b)
  then show ?case using unat_nonzero_Suc[of plen] by simp
next
  case (3 p pkt plen b l p1 x r p2)
  then have "0 < l" "\<not> ucast l > plen" by (auto simp: word_less_nat_alt)
  then show ?case using sub_ucast_less(1)[of plen l] by simp
qed

declare opts_loop.simps [simp del]

definition DecodeIPV4Options :: "ip4_packet \<Rightarrow> bytes \<Rightarrow> u16 \<Rightarrow> (int \<times> ip4_packet) option" where
  "DecodeIPV4Options p pkt len =
     (let p1 = p\<lparr>ip4vars := (ip4vars p)\<lparr>ip_opt_cnt := 0\<rparr>\<rparr>;
          p2 = (if len mod 8 \<noteq> 0 then ev IPV4_OPT_PAD_REQUIRED p1 else p1)
      in opts_loop p2 pkt len)"

section \<open>The header\<close>

text \<open>
  \<open>IP_GET_RAW_VER\<close>, \<open>SET_IPV4_SRC_ADDR\<close> and \<open>SET_IPV4_DST_ADDR\<close> are macros that the repository uses without
  defining them; they are parameters here. The result of the option decoder is not looked at.
\<close>

definition DecodeIPV4Packet :: "(bytes \<Rightarrow> u8 option) \<Rightarrow> (ip4_packet \<Rightarrow> ip4_packet) \<Rightarrow> ip4_packet \<Rightarrow> bytes \<Rightarrow> u16
    \<Rightarrow> (int \<times> ip4_packet) option" where
  "DecodeIPV4Packet IP_GET_RAW_VER set_addrs p pkt len =
     (if len < 20 then Some (- 1, ev IPV4_PKT_TOO_SMALL p)
      else do {
        ver \<leftarrow> IP_GET_RAW_VER pkt;
        if ver \<noteq> 4 then Some (- 1, ev IPV4_WRONG_IP_VER p)
        else do {
          (hlen, p1) \<leftarrow> IPV4_GET_HLEN (p\<lparr>ip4h := Some pkt\<rparr>);
          if hlen < 20 then Some (- 1, ev IPV4_HLEN_TOO_SMALL p1)
          else do {
            (iplen, p2) \<leftarrow> IPV4_GET_IPLEN p1;
            (hlen, p3) \<leftarrow> IPV4_GET_HLEN p2;
            if iplen < ucast hlen then Some (- 1, ev IPV4_IPLEN_SMALLER_THAN_HLEN p3)
            else do {
              (iplen, p4) \<leftarrow> IPV4_GET_IPLEN p3;
              if len < iplen then Some (- 1, ev IPV4_TRUNC_PKT p4)
              else do {
                (hlen, p5) \<leftarrow> IPV4_GET_HLEN p4;
                let optlen = hlen - 20;
                    p6 = p5\<lparr>ip4vars := (ip4vars p5)\<lparr>ip_opt_len := optlen\<rparr>\<rparr>
                in if optlen > 0 then do {
                     (_, p7) \<leftarrow> DecodeIPV4Options p6 (drop 20 pkt) (ucast optlen);
                     Some (0, set_addrs p7)
                   }
                   else Some (0, set_addrs p6)
              }
            }
          }
        }
      })"

section \<open>The option decoder stays inside the packet\<close>

text \<open>What a validator may change: nothing but the events.\<close>

definition only_events :: "ip4_packet \<Rightarrow> ip4_packet \<Rightarrow> bool" where
  "only_events p q \<longleftrightarrow> ip4vars q = ip4vars p \<and> ip4h q = ip4h p \<and> ip4c q = ip4c p \<and>
     (packet_events_ok (events p) \<longrightarrow> packet_events_ok (events q))"

lemma only_events_refl [simp]: "only_events p p"
  and only_events_ev [simp]: "only_events p (ev e p)"
  by (simp_all add: only_events_def ev_def)

lemma cipso_tags_events: "cipso_tags p tag len = Some (r, q) \<Longrightarrow> only_events p q"
proof (induction p tag len rule: cipso_tags.induct)
  case (1 p tag len)
  note IH = "1.IH" and run = "1.prems"
  show ?case
    using run IH unfolding cipso_tags.simps[of p tag len]
    by (auto split: if_splits option.splits)
qed

lemma cipso_tags_total: "unat len \<le> length tag \<Longrightarrow> cipso_tags p tag len \<noteq> None"
proof (induction p tag len rule: cipso_tags.induct)
  case (1 p tag len)
  show ?case
  proof (cases "len < 2")
    case True
    then show ?thesis by (subst cipso_tags.simps) simp
  next
    case False
    then have l2: "2 \<le> unat len" by (simp add: word_less_nat_alt)
    then have "0 < length tag" "1 < length tag" using "1.prems" by linarith+
    then have rd: "rd8 tag 0 = Some (tag ! 0)" "rd8 tag 1 = Some (tag ! 1)"
      by (simp_all add: rd8_def)
    have step: "cipso_tags p (drop (2 + (unat (tag ! 1) - 2)) tag) (len - ucast (tag ! 1)) \<noteq> None"
      if a: "\<not> ucast (tag ! 1) > len" "\<not> tag ! 1 < 4" "tag ! 0 \<in> {1, 2, 5, 6, 7}"
        "tag ! 0 = 7 \<or> rd8 tag 2 = Some 0"
    proof -
      have pos: "0 < tag ! 1" "4 \<le> unat (tag ! 1)" using a(2) by (auto simp: word_less_nat_alt)
      have "unat (len - ucast (tag ! 1)) = unat len - unat (tag ! 1)" "unat (tag ! 1) \<le> unat len"
        using sub_ucast_less[OF a(1) pos(1)] by simp_all
      then have fits: "unat (len - ucast (tag ! 1)) \<le> length (drop (2 + (unat (tag ! 1) - 2)) tag)"
        using "1.prems" pos(2) by simp
      have "len \<noteq> 0" "tag ! 0 \<noteq> 0" using False a(3) by auto
      then show ?thesis
        using a False rd "1.IH"(1)[of "Some (tag ! 0)" "Some (tag ! 1)" "tag ! 0" "tag ! 1" 0] fits
          "1.IH"(2)[of "Some (tag ! 0)" "Some (tag ! 1)" "tag ! 0" "tag ! 1"] by (cases "tag ! 0 = 7") auto
    qed
    have rd2: "rd8 tag 2 \<noteq> None" if "\<not> ucast (tag ! 1) > len" "\<not> tag ! 1 < 4"
    proof -
      have "0 < tag ! 1" using that(2) by (auto simp: word_less_nat_alt)
      then have "unat (tag ! 1) \<le> unat len" using sub_ucast_less(3)[OF that(1)] by simp
      then show ?thesis using that(2) "1.prems" by (simp add: rd8_def word_less_nat_alt)
    qed
    show ?thesis using rd step rd2 False
      by (subst cipso_tags.simps) (auto split: option.split)
  qed
qed

text \<open>
  An option that fits: its data reach at least one byte beyond its length. The extra byte is needed
  by \<open>IPV4OptValidateTimestamp\<close>, which reads \<open>data + 3\<close> of an option of 5 bytes.
\<close>

definition opt_fits :: "IPV4Opt \<Rightarrow> bool" where
  "opt_fits opt \<longleftrightarrow> (\<forall>d. opt_data opt = Some d \<longrightarrow> unat (opt_len opt) \<le> length d + 1)"

lemma validators_total:
  assumes "opt_fits opt"
  shows "IPV4OptValidateGeneric p opt \<noteq> None" "IPV4OptValidateRoute p opt \<noteq> None"
    "IPV4OptValidateTimestamp p opt \<noteq> None" "IPV4OptValidateCIPSO p opt \<noteq> None"
proof -
  have d: "opt_data opt = Some d \<Longrightarrow> n \<le> unat (opt_len opt) \<Longrightarrow> 1 < n \<Longrightarrow> i < n - 1 \<Longrightarrow> rd8 d i \<noteq> None" for d n i
    using assms by (auto simp: opt_fits_def rd8_def)
  show "IPV4OptValidateGeneric p opt \<noteq> None" by (simp add: IPV4OptValidateGeneric_def)
  show "IPV4OptValidateRoute p opt \<noteq> None"
    using d[of _ 3 0] by (auto simp: IPV4OptValidateRoute_def word_less_nat_alt split: option.splits)
  show "IPV4OptValidateTimestamp p opt \<noteq> None"
    using d[of _ 5 0] d[of _ 5 3]
    by (auto simp: IPV4OptValidateTimestamp_def word_less_nat_alt Let_def split: option.splits)
  show "IPV4OptValidateCIPSO p opt \<noteq> None"
  proof (cases "opt_data opt")
    case None
    then show ?thesis by (simp add: IPV4OptValidateCIPSO_def)
  next
    case (Some x)
    show ?thesis
    proof (cases "opt_len opt < 10")
      case True
      then show ?thesis by (simp add: IPV4OptValidateCIPSO_def)
    next
      case False
      have u: "unat (ucast (opt_len opt) :: u16) = unat (opt_len opt)" by (rule unat_ucast_up) simp
      have le: "10 \<le> unat (opt_len opt)" using False by (simp add: word_less_nat_alt)
      have six: "ucast (opt_len opt) - 1 - 1 - 4 = ucast (opt_len opt) - (6 :: u16)" by simp
      have "(6 :: u16) \<le> ucast (opt_len opt)" using le by (simp add: word_le_nat_alt u)
      then have "unat (ucast (opt_len opt) - (6 :: u16)) = unat (opt_len opt) - 6"
        by (simp add: unat_sub u)
      moreover have "unat (opt_len opt) \<le> length x + 1" using assms Some by (simp add: opt_fits_def)
      ultimately have "cipso_tags p (drop 4 x) (ucast (opt_len opt) - 1 - 1 - 4) \<noteq> None"
        unfolding six by (intro cipso_tags_total) simp
      then show ?thesis using False Some d[of x 10 0] le by (auto simp: IPV4OptValidateCIPSO_def)
    qed
  qed
qed

lemma validators_events:
  "IPV4OptValidateGeneric p opt = Some (r, q) \<Longrightarrow> only_events p q"
  "IPV4OptValidateRoute p opt = Some (r, q) \<Longrightarrow> only_events p q"
  "IPV4OptValidateTimestamp p opt = Some (r, q) \<Longrightarrow> only_events p q"
  "IPV4OptValidateCIPSO p opt = Some (r, q) \<Longrightarrow> only_events p q"
  by (auto simp: IPV4OptValidateGeneric_def IPV4OptValidateRoute_def IPV4OptValidateTimestamp_def
      IPV4OptValidateCIPSO_def Let_def dest: cipso_tags_events split: if_splits option.splits bind_splits)

text \<open>What a turn of the switch leaves alone.\<close>

definition same_opts :: "ip4_packet \<Rightarrow> ip4_packet \<Rightarrow> bool" where
  "same_opts p q \<longleftrightarrow> ip_opts (ip4vars q) = ip_opts (ip4vars p) \<and> ip_opt_cnt (ip4vars q) = ip_opt_cnt (ip4vars p) \<and>
     ip_opt_len (ip4vars q) = ip_opt_len (ip4vars p) \<and> ip4h q = ip4h p \<and> ip4c q = ip4c p \<and>
     (packet_events_ok (events p) \<longrightarrow> packet_events_ok (events q))"

lemma opt_case_spec:
  assumes "validate p (cur_opt p) \<noteq> None"
    and "\<And>r q. validate p (cur_opt p) = Some (r, q) \<Longrightarrow> only_events p q"
    and "\<And>x v. ip_opts (put x v) = ip_opts v \<and> ip_opt_cnt (put x v) = ip_opt_cnt v \<and> ip_opt_len (put x v) = ip_opt_len v"
  shows "\<exists>r q. opt_case get put validate p = Some (r, q) \<and> (r = 0 \<or> r = - 1) \<and> same_opts p q"
proof -
  obtain r q where v: "validate p (cur_opt p) = Some (r, q)" using assms(1) by auto
  show ?thesis using assms(2)[OF v] v
    by (auto simp: opt_case_def same_opts_def only_events_def assms(3) ev_def)
qed

lemma same_opts_ev [simp]: "same_opts p (ev e p)"
  by (simp add: same_opts_def ev_def)

lemma opt_switch_spec:
  assumes "opt_fits (cur_opt p)"
  shows "\<exists>r q. opt_switch p = Some (r, q) \<and> (r = 0 \<or> r = - 1) \<and> same_opts p q"
proof -
  note v = validators_total[OF assms, of p]
  have c: "\<exists>r q. opt_case get put validate p = Some (r, q) \<and> (r = 0 \<or> r = - 1) \<and> same_opts p q"
    if "validate \<in> {IPV4OptValidateGeneric, IPV4OptValidateRoute, IPV4OptValidateTimestamp, IPV4OptValidateCIPSO}"
      "\<And>x v. ip_opts (put x v) = ip_opts v \<and> ip_opt_cnt (put x v) = ip_opt_cnt v \<and> ip_opt_len (put x v) = ip_opt_len v"
    for get put validate
    using that v validators_events by (intro opt_case_spec) auto
  show ?thesis
    unfolding opt_switch_def Let_def by (simp add: c)
qed

section \<open>What the options are\<close>

text \<open>
  The reference reading of an option list: type and length of every option up to the end marker, the
  single-byte no-operation skipped. It stops at a byte that cannot start an option.
\<close>

function tlvs :: "bytes \<Rightarrow> (u8 \<times> u8) list" where
  "tlvs [] = []"
| "tlvs (b # bs) =
     (if b = 0 then []
      else if b = 1 then tlvs bs
      else (case bs of
        [] \<Rightarrow> []
      | l # ds \<Rightarrow> if l < 2 \<or> unat l > length bs + 1 then [] else (b, l) # tlvs (drop (unat l - 1) bs)))"
  by pat_completeness auto

termination by (relation "measure length") auto

definition opt_heads :: "ip4_packet \<Rightarrow> (u8 \<times> u8) list" where
  "opt_heads p = map (\<lambda>x. (opt_type x, opt_len x)) (take (unat (ip_opt_cnt (ip4vars p))) (ip_opts (ip4vars p)))"

lemma opts_loop_spec:
  assumes "unat plen < length pkt" "length (ip_opts (ip4vars p)) = 40"
    "2 * unat (ip_opt_cnt (ip4vars p)) + unat plen \<le> 40" "packet_events_ok (events p)"
  shows "\<exists>r q. opts_loop p pkt plen = Some (r, q) \<and> (r = 0 \<or> r = - 1) \<and> length (ip_opts (ip4vars q)) = 40 \<and>
    2 * unat (ip_opt_cnt (ip4vars q)) \<le> 2 * unat (ip_opt_cnt (ip4vars p)) + unat plen \<and>
    packet_events_ok (events q) \<and> ip4h q = ip4h p \<and> ip4c q = ip4c p \<and> ip_opt_len (ip4vars q) = ip_opt_len (ip4vars p) \<and>
    (r = 0 \<longrightarrow> opt_heads q = opt_heads p @ tlvs (take (unat plen) pkt))"
  using assms
proof (induction p pkt plen rule: opts_loop.induct)
  case (1 p pkt plen)
  note len = "1.prems"(1) and arr = "1.prems"(2) and room = "1.prems"(3) and evs = "1.prems"(4)
  have evok [simp]: "packet_events_ok (events (ev e x)) = True" if "packet_events_ok (events x)" for e x
    using that by (simp add: ev_def)
  have evsame [simp]: "ip4vars (ev e x) = ip4vars x" "ip4h (ev e x) = ip4h x" "ip4c (ev e x) = ip4c x" for e x
    by (simp_all add: ev_def)
  have heads_ev [simp]: "opt_heads (ev e x) = opt_heads x" for e x by (simp add: opt_heads_def)
  show ?case
  proof (cases "plen = 0")
    case True
    then show ?thesis using arr evs by (subst opts_loop.simps) simp
  next
    case nz: False
    then obtain b bs where pkt: "pkt = b # bs" using len by (cases pkt) auto
    have rd0: "rd8 pkt 0 = Some b" by (simp add: pkt rd8_def)
    have pos: "0 < unat plen" using nz by (simp add: unat_gt_0)
    then have tk: "take (unat plen) pkt = b # take (unat plen - 1) bs" by (cases "unat plen") (auto simp: pkt)
    consider "b = 0" | "b = 1" | "b \<noteq> 0" "b \<noteq> 1" by blast
    then show ?thesis
    proof cases
      case 1
      then show ?thesis using arr evs rd0 nz tk by (subst opts_loop.simps) (simp add: opt_codes)
    next
      case 2
      have u: "unat (plen - 1) = unat plen - 1" using unat_nonzero_Suc[OF nz] by simp
      have run: "opts_loop p pkt plen = opts_loop p (drop 1 pkt) (plen - 1)"
        using 2 rd0 nz by (subst opts_loop.simps) (simp add: opt_codes)
      have tl: "tlvs (take (unat plen) pkt) = tlvs (take (unat (plen - 1)) (drop 1 pkt))"
        using 2 u by (simp add: tk) (simp add: pkt)
      have "unat (plen - 1) < length (drop 1 pkt)" using len u pos by simp
      then show ?thesis
        using "1.IH"(1)[OF nz rd0] 2 arr evs room u unfolding run tl by (fastforce simp: opt_codes)
    next
      case 3
      then have nb: "b \<noteq> IPV4_OPT_EOL" "b \<noteq> IPV4_OPT_NOP" by (simp_all add: opt_codes)
      show ?thesis
      proof (cases "plen < 2")
        case True
        then have "unat plen = 1" using pos by (simp add: word_less_nat_alt)
        then have "tlvs (take (unat plen) pkt) = []" using 3 tk by simp
        then show ?thesis using nb rd0 nz True arr evs
          by (subst opts_loop.simps) simp
      next
        case False
        then have two: "2 \<le> unat plen" by (simp add: word_less_nat_alt)
        then obtain l ds where bs: "bs = l # ds" using len pkt by (cases bs) auto
        have rd1: "rd8 pkt 1 = Some l" by (simp add: pkt bs rd8_def)
        show ?thesis
        proof (cases "ucast l > plen")
          case True
          then show ?thesis using nb rd0 rd1 nz False arr evs by (subst opts_loop.simps) simp
        next
          case fits: False
          define opt where "opt = \<lparr>opt_type = b, opt_len = l, opt_data = (if plen > 2 then Some (drop 2 pkt) else None)\<rparr>"
          define n where "n = unat (ip_opt_cnt (ip4vars p))"
          define p1 where "p1 = p\<lparr>ip4vars := (ip4vars p)\<lparr>ip_opts := (ip_opts (ip4vars p))[n := opt]\<rparr>\<rparr>"
          have n: "n < 40" using room two by (simp add: n_def)
          have st: "store_opt opt p = Some p1" using n arr by (simp add: store_opt_def p1_def n_def Let_def)
          have p1: "cur_opt p1 = opt" "length (ip_opts (ip4vars p1)) = 40" "packet_events_ok (events p1)"
            "ip_opt_cnt (ip4vars p1) = ip_opt_cnt (ip4vars p)" "opt_heads p1 = opt_heads p"
            using n arr evs by (simp_all add: cur_opt_def p1_def n_def[symmetric] opt_heads_def)
          show ?thesis
          proof (cases "l < 2")
            case True
            then show ?thesis using nb rd0 rd1 nz False fits st p1 evs unfolding opt_def
              by (subst opts_loop.simps) (simp add: p1_def)
          next
            case l2: False
            have ul: "2 \<le> unat l" using l2 by (simp add: word_less_nat_alt)
            then have "0 < l" by (auto simp: word_less_nat_alt)
            note sub = sub_ucast_less[OF fits this]
            have "opt_fits (cur_opt p1)"
              using sub(3) len by (auto simp: p1(1) opt_fits_def opt_def)
            from opt_switch_spec[OF this] obtain r p2 where sw: "opt_switch p1 = Some (r, p2)"
              "r = 0 \<or> r = - 1" "same_opts p1 p2" by blast
            have p2: "length (ip_opts (ip4vars p2)) = 40" "packet_events_ok (events p2)"
              "ip_opt_cnt (ip4vars p2) = ip_opt_cnt (ip4vars p)" "ip4h p2 = ip4h p" "ip4c p2 = ip4c p"
              "ip_opts (ip4vars p2) = (ip_opts (ip4vars p))[n := opt]"
              "ip_opt_len (ip4vars p2) = ip_opt_len (ip4vars p)"
              using sw(3) p1 by (simp_all add: same_opts_def) (simp_all add: p1_def)
            show ?thesis
            proof (cases "r = 0")
              case False
              then show ?thesis using nb rd0 rd1 nz \<open>\<not> plen < 2\<close> fits st l2 sw p2 unfolding opt_def
                by (subst opts_loop.simps) simp
            next
              case True
              let ?q = "p2\<lparr>ip4vars := (ip4vars p2)\<lparr>ip_opt_cnt := ip_opt_cnt (ip4vars p2) + 1\<rparr>\<rparr>"
              have run: "opts_loop p pkt plen = opts_loop ?q (drop (unat l) pkt) (plen - ucast l)"
                using nb rd0 rd1 nz \<open>\<not> plen < 2\<close> fits st l2 sw True unfolding opt_def
                by (subst opts_loop.simps) simp
              have cnt: "unat (ip_opt_cnt (ip4vars p) + 1) = n + 1"
              proof -
                have "unat (- 1 :: u8) = 255" by (simp add: unat_max_word)
                then have "ip_opt_cnt (ip4vars p) \<noteq> - 1" using n by (auto simp: n_def)
                then show ?thesis by (simp add: unat_add_1_if n_def)
              qed
              have heads: "opt_heads ?q = opt_heads p @ [(b, l)]"
                using n arr cnt p2 by (simp add: opt_heads_def n_def[symmetric] take_Suc_conv_app_nth opt_def)
              have tl: "tlvs (take (unat plen) pkt) = (b, l) # tlvs (take (unat (plen - ucast l)) (drop (unat l) pkt))"
              proof -
                have "take (unat plen - 1) bs = l # take (unat plen - 2) ds" using two by (simp add: bs take_Cons' numeral_2_eq_2)
                moreover have "length (take (unat plen - 1) bs) + 1 = unat plen" using len two pkt by simp
                moreover have "drop (unat l - 1) (take (unat plen - 1) bs) = take (unat (plen - ucast l)) (drop (unat l) pkt)"
                  using sub(2,3) ul by (simp add: drop_take pkt drop_Cons')
                ultimately show ?thesis using 3 l2 sub(3) unfolding tk by simp
              qed
              have pre: "unat (plen - ucast l) < length (drop (unat l) pkt)" "length (ip_opts (ip4vars ?q)) = 40"
                "2 * unat (ip_opt_cnt (ip4vars ?q)) + unat (plen - ucast l) \<le> 40" "packet_events_ok (events ?q)"
                using sub(2,3) len ul room cnt p2 by (simp_all add: n_def)
              obtain r' q' where q': "opts_loop ?q (drop (unat l) pkt) (plen - ucast l) = Some (r', q')" "r' = 0 \<or> r' = - 1"
                "length (ip_opts (ip4vars q')) = 40" "packet_events_ok (events q')" "ip4h q' = ip4h ?q" "ip4c q' = ip4c ?q"
                "2 * unat (ip_opt_cnt (ip4vars q')) \<le> 2 * unat (ip_opt_cnt (ip4vars ?q)) + unat (plen - ucast l)"
                "ip_opt_len (ip4vars q') = ip_opt_len (ip4vars ?q)"
                "r' = 0 \<longrightarrow> opt_heads q' = opt_heads ?q @ tlvs (take (unat (plen - ucast l)) (drop (unat l) pkt))"
                using "1.IH"(2)[OF nz rd0 nb \<open>\<not> plen < 2\<close> rd1 fits st[unfolded opt_def] _ sw(1) refl _ pre] fits l2 True
                by auto
              then show ?thesis unfolding run heads tl using p2 cnt sub(2,3) ul
                by (intro exI[of _ r'] exI[of _ q']) (simp add: n_def heads)
            qed
          qed
        qed
      qed
    qed
  qed
qed

section \<open>The cached getters\<close>

text \<open>The raw header fields.\<close>

definition raw_ver :: "bytes \<Rightarrow> u8 option" where
  "raw_ver h = do { b \<leftarrow> rd8 h 0; Some (drop_bit 4 (b AND 0xf0)) }"

definition raw_hlen :: "bytes \<Rightarrow> u8 option" where
  "raw_hlen h = do { b \<leftarrow> rd8 h 0; Some (push_bit 2 (b AND 0x0f)) }"

definition raw_iplen :: "bytes \<Rightarrow> u16 option" where
  "raw_iplen h = rd16be h 2"

definition raw_ipid :: "bytes \<Rightarrow> u16 option" where
  "raw_ipid h = rd16be h 4"

definition raw_off :: "bytes \<Rightarrow> u16 option" where
  "raw_off h = rd16be h 6"

definition raw_ipoffset :: "bytes \<Rightarrow> u16 option" where
  "raw_ipoffset h = do { w \<leftarrow> rd16be h 6; Some (w AND 0x1fff) }"

definition raw_rf :: "bytes \<Rightarrow> u8 option" where
  "raw_rf h = do { w \<leftarrow> rd16be h 6; Some (ucast (drop_bit 15 (w AND 0x8000))) }"

definition raw_df :: "bytes \<Rightarrow> u8 option" where
  "raw_df h = do { w \<leftarrow> rd16be h 6; Some (ucast (drop_bit 14 (w AND 0x4000))) }"

definition raw_mf :: "bytes \<Rightarrow> u8 option" where
  "raw_mf h = do { w \<leftarrow> rd16be h 6; Some (ucast (drop_bit 13 (w AND 0x2000))) }"

definition raw_proto :: "bytes \<Rightarrow> u8 option" where
  "raw_proto h = rd8 h 9"

text \<open>The invariant of the cache: a value whose flag is set is the raw one.\<close>

definition okf :: "u16 \<Rightarrow> u16 \<Rightarrow> 'v \<Rightarrow> 'v option \<Rightarrow> bool" where
  "okf f g x raw \<longleftrightarrow> f AND g = 0 \<or> raw = Some x"

definition cache_ok :: "ip4_packet \<Rightarrow> bytes \<Rightarrow> bool" where
  "cache_ok p h \<longleftrightarrow> ip4h p = Some h \<and>
     okf (c_flags (ip4c p)) 0x0001 (c_ver (ip4c p)) (raw_ver h) \<and>
     okf (c_flags (ip4c p)) 0x0002 (c_hl (ip4c p)) (raw_hlen h) \<and>
     okf (c_flags (ip4c p)) 0x0008 (c_ip_len (ip4c p)) (raw_iplen h) \<and>
     okf (c_flags (ip4c p)) 0x0010 (c_ip_id (ip4c p)) (raw_ipid h) \<and>
     okf (c_flags (ip4c p)) 0x0040 (c__ip_off (ip4c p)) (raw_off h) \<and>
     okf (c_flags (ip4c p)) 0x0020 (c_ip_off (ip4c p)) (raw_ipoffset h) \<and>
     okf (c_flags (ip4c p)) 0x0080 (c_rf (ip4c p)) (raw_rf h) \<and>
     okf (c_flags (ip4c p)) 0x0100 (c_df (ip4c p)) (raw_df h) \<and>
     okf (c_flags (ip4c p)) 0x0200 (c_mf (ip4c p)) (raw_mf h) \<and>
     okf (c_flags (ip4c p)) 0x0800 (c_ip_proto (ip4c p)) (raw_proto h)"

lemma okf_or: "g' AND g = 0 \<Longrightarrow> okf (f OR g') g x raw = okf f g x raw"
  by (simp add: okf_def bit.conj_disj_distrib2)

lemma okf_Some: "okf f g x (Some x)" by (simp add: okf_def)

definition reads :: "(ip4_packet \<Rightarrow> ('v \<times> ip4_packet) option) \<Rightarrow> ip4_packet \<Rightarrow> bytes \<Rightarrow> 'v option \<Rightarrow> bool" where
  "reads get p h v \<longleftrightarrow> v \<noteq> None \<and>
     (\<exists>q. get p = Some (the v, q) \<and> cache_ok q h \<and> ip4vars q = ip4vars p \<and> events q = events p)"

lemma reads_cached:
  assumes "cache_ok p h" "okf (c_flags (ip4c p)) flag (get (ip4c p)) (Some v)"
    and "raw (p\<lparr>ip4c := (ip4c p)\<lparr>c_flags := c_flags (ip4c p) OR flag\<rparr>\<rparr>) = Some (v, p1)"
    and "ip4vars p1 = ip4vars p" "events p1 = events p" "cache_ok (p1\<lparr>ip4c := put v (ip4c p1)\<rparr>) h"
  shows "reads (cached flag get put raw) p h (Some v)"
  using assms by (auto simp: reads_def cached_def okf_def)

lemma raw_fields_Some:
  assumes "20 \<le> length h"
  shows "raw_ver h \<noteq> None" "raw_hlen h \<noteq> None" "raw_iplen h \<noteq> None" "raw_ipid h \<noteq> None" "raw_off h \<noteq> None"
    "raw_proto h \<noteq> None"
  using assms by (cases h; simp add: raw_ver_def raw_hlen_def raw_iplen_def raw_ipid_def raw_off_def raw_proto_def
      rd8_def rd16be_Some)+

lemma raw_off_fields:
  "raw_off h = Some w \<Longrightarrow> raw_ipoffset h = Some (w AND 0x1fff) \<and>
     raw_rf h = Some (ucast (drop_bit 15 (w AND 0x8000))) \<and> raw_df h = Some (ucast (drop_bit 14 (w AND 0x4000))) \<and>
     raw_mf h = Some (ucast (drop_bit 13 (w AND 0x2000)))"
  by (simp add: raw_off_def raw_ipoffset_def raw_rf_def raw_df_def raw_mf_def)

text \<open>The nested getter of the offset field, with the flag of the outer one already set.\<close>

lemma off_nested:
  assumes "ip4h p = Some h" "okf (c_flags (ip4c p)) 0x0040 (c__ip_off (ip4c p)) (raw_off h)" "raw_off h = Some w"
  shows "IPV4_GET_IPOFFSET_raw p = Some (w, if c_flags (ip4c p) AND 0x0040 \<noteq> 0 then p
     else p\<lparr>ip4c := (ip4c p)\<lparr>c_flags := c_flags (ip4c p) OR 0x0040, c__ip_off := w\<rparr>\<rparr>)"
  using assms by (auto simp: IPV4_GET_IPOFFSET_raw_def cached_def okf_def hdr16_def raw_off_def)

lemma reads_VER:
  assumes "cache_ok p h" "raw_ver h = Some v"
  shows "reads IPV4_GET_VER p h (raw_ver h)"
  unfolding IPV4_GET_VER_def assms(2) using assms
  by (intro reads_cached[where ?p1.0 = "p\<lparr>ip4c := (ip4c p)\<lparr>c_flags := c_flags (ip4c p) OR 0x0001\<rparr>\<rparr>"])
     (simp_all add: cache_ok_def okf_or okf_Some hdr8_def raw_ver_def split: bind_splits)

lemma reads_HLEN:
  assumes "cache_ok p h" "raw_hlen h = Some v"
  shows "reads IPV4_GET_HLEN p h (raw_hlen h)"
  unfolding IPV4_GET_HLEN_def assms(2) using assms
  by (intro reads_cached[where ?p1.0 = "p\<lparr>ip4c := (ip4c p)\<lparr>c_flags := c_flags (ip4c p) OR 0x0002\<rparr>\<rparr>"])
     (simp_all add: cache_ok_def okf_or okf_Some hdr8_def raw_hlen_def split: bind_splits)

lemma reads_IPLEN:
  assumes "cache_ok p h" "raw_iplen h = Some v"
  shows "reads IPV4_GET_IPLEN p h (raw_iplen h)"
  unfolding IPV4_GET_IPLEN_def assms(2) using assms
  by (intro reads_cached[where ?p1.0 = "p\<lparr>ip4c := (ip4c p)\<lparr>c_flags := c_flags (ip4c p) OR 0x0008\<rparr>\<rparr>"])
     (simp_all add: cache_ok_def okf_or okf_Some hdr16_def raw_iplen_def split: bind_splits)

lemma reads_IPID:
  assumes "cache_ok p h" "raw_ipid h = Some v"
  shows "reads IPV4_GET_IPID p h (raw_ipid h)"
  unfolding IPV4_GET_IPID_def assms(2) using assms
  by (intro reads_cached[where ?p1.0 = "p\<lparr>ip4c := (ip4c p)\<lparr>c_flags := c_flags (ip4c p) OR 0x0010\<rparr>\<rparr>"])
     (simp_all add: cache_ok_def okf_or okf_Some hdr16_def raw_ipid_def split: bind_splits)

lemma reads_IPOFFSET_raw:
  assumes "cache_ok p h" "raw_off h = Some v"
  shows "reads IPV4_GET_IPOFFSET_raw p h (raw_off h)"
  unfolding IPV4_GET_IPOFFSET_raw_def assms(2) using assms
  by (intro reads_cached[where ?p1.0 = "p\<lparr>ip4c := (ip4c p)\<lparr>c_flags := c_flags (ip4c p) OR 0x0040\<rparr>\<rparr>"])
     (simp_all add: cache_ok_def okf_or okf_Some hdr16_def raw_off_def split: bind_splits)

lemma reads_IPPROTO:
  assumes "cache_ok p h" "raw_proto h = Some v"
  shows "reads IPV4_GET_IPPROTO p h (raw_proto h)"
  unfolding IPV4_GET_IPPROTO_def assms(2) using assms
  by (intro reads_cached[where ?p1.0 = "p\<lparr>ip4c := (ip4c p)\<lparr>c_flags := c_flags (ip4c p) OR 0x0800\<rparr>\<rparr>"])
     (simp_all add: cache_ok_def okf_or okf_Some hdr8_def raw_proto_def split: bind_splits)

lemma reads_IPOFFSET:
  assumes "cache_ok p h" "raw_off h = Some w"
  shows "reads IPV4_GET_IPOFFSET p h (raw_ipoffset h)"
proof -
  obtain v where v: "raw_ipoffset h = Some v" using raw_off_fields[OF assms(2)] by blast
  let ?p = "p\<lparr>ip4c := (ip4c p)\<lparr>c_flags := c_flags (ip4c p) OR 0x0020\<rparr>\<rparr>"
  have ok: "ip4h ?p = Some h" "okf (c_flags (ip4c ?p)) 0x0040 (c__ip_off (ip4c ?p)) (raw_off h)"
    using assms(1) by (simp_all add: cache_ok_def okf_or)
  show ?thesis
    unfolding IPV4_GET_IPOFFSET_def v using assms v raw_off_fields[OF assms(2)]
    by (intro reads_cached[where ?p1.0 = "if c_flags (ip4c ?p) AND 0x0040 \<noteq> 0 then ?p
         else ?p\<lparr>ip4c := (ip4c ?p)\<lparr>c_flags := c_flags (ip4c ?p) OR 0x0040, c__ip_off := w\<rparr>\<rparr>"])
       (simp_all add: off_nested[OF ok assms(2)] cache_ok_def okf_or okf_Some)
qed

lemma reads_RF:
  assumes "cache_ok p h" "raw_off h = Some w"
  shows "reads IPV4_GET_RF p h (raw_rf h)"
proof -
  obtain v where v: "raw_rf h = Some v" using raw_off_fields[OF assms(2)] by blast
  let ?p = "p\<lparr>ip4c := (ip4c p)\<lparr>c_flags := c_flags (ip4c p) OR 0x0080\<rparr>\<rparr>"
  have ok: "ip4h ?p = Some h" "okf (c_flags (ip4c ?p)) 0x0040 (c__ip_off (ip4c ?p)) (raw_off h)"
    using assms(1) by (simp_all add: cache_ok_def okf_or)
  show ?thesis
    unfolding IPV4_GET_RF_def v using assms v raw_off_fields[OF assms(2)]
    by (intro reads_cached[where ?p1.0 = "if c_flags (ip4c ?p) AND 0x0040 \<noteq> 0 then ?p
         else ?p\<lparr>ip4c := (ip4c ?p)\<lparr>c_flags := c_flags (ip4c ?p) OR 0x0040, c__ip_off := w\<rparr>\<rparr>"])
       (simp_all add: off_nested[OF ok assms(2)] cache_ok_def okf_or okf_Some)
qed

lemma reads_DF:
  assumes "cache_ok p h" "raw_off h = Some w"
  shows "reads IPV4_GET_DF p h (raw_df h)"
proof -
  obtain v where v: "raw_df h = Some v" using raw_off_fields[OF assms(2)] by blast
  let ?p = "p\<lparr>ip4c := (ip4c p)\<lparr>c_flags := c_flags (ip4c p) OR 0x0100\<rparr>\<rparr>"
  have ok: "ip4h ?p = Some h" "okf (c_flags (ip4c ?p)) 0x0040 (c__ip_off (ip4c ?p)) (raw_off h)"
    using assms(1) by (simp_all add: cache_ok_def okf_or)
  show ?thesis
    unfolding IPV4_GET_DF_def v using assms v raw_off_fields[OF assms(2)]
    by (intro reads_cached[where ?p1.0 = "if c_flags (ip4c ?p) AND 0x0040 \<noteq> 0 then ?p
         else ?p\<lparr>ip4c := (ip4c ?p)\<lparr>c_flags := c_flags (ip4c ?p) OR 0x0040, c__ip_off := w\<rparr>\<rparr>"])
       (simp_all add: off_nested[OF ok assms(2)] cache_ok_def okf_or okf_Some)
qed

lemma reads_MF:
  assumes "cache_ok p h" "raw_off h = Some w"
  shows "reads IPV4_GET_MF p h (raw_mf h)"
proof -
  obtain v where v: "raw_mf h = Some v" using raw_off_fields[OF assms(2)] by blast
  let ?p = "p\<lparr>ip4c := (ip4c p)\<lparr>c_flags := c_flags (ip4c p) OR 0x0200\<rparr>\<rparr>"
  have ok: "ip4h ?p = Some h" "okf (c_flags (ip4c ?p)) 0x0040 (c__ip_off (ip4c ?p)) (raw_off h)"
    using assms(1) by (simp_all add: cache_ok_def okf_or)
  show ?thesis
    unfolding IPV4_GET_MF_def v using assms v raw_off_fields[OF assms(2)]
    by (intro reads_cached[where ?p1.0 = "if c_flags (ip4c ?p) AND 0x0040 \<noteq> 0 then ?p
         else ?p\<lparr>ip4c := (ip4c ?p)\<lparr>c_flags := c_flags (ip4c ?p) OR 0x0040, c__ip_off := w\<rparr>\<rparr>"])
       (simp_all add: off_nested[OF ok assms(2)] cache_ok_def okf_or okf_Some)
qed

lemmas reads_getters = reads_VER reads_HLEN reads_IPLEN reads_IPID reads_IPOFFSET_raw reads_IPPROTO
  reads_IPOFFSET reads_RF reads_DF reads_MF

section \<open>Properties\<close>

text \<open>The header cache is transparent: after \<open>IPV4_CACHE_INIT\<close>, with the header in the buffer,
  every getter, in any order and any number of times, returns the field of the raw header and keeps
  the cache coherent.\<close>

theorem ipv4_cache_transparent:
  assumes "20 \<le> length h"
  shows "(ip4h p = Some h \<longrightarrow> cache_ok (IPV4_CACHE_INIT p) h) \<and>
    (cache_ok p h \<longrightarrow>
      reads IPV4_GET_VER p h (raw_ver h) \<and>
      reads IPV4_GET_HLEN p h (raw_hlen h) \<and>
      reads IPV4_GET_IPLEN p h (raw_iplen h) \<and>
      reads IPV4_GET_IPID p h (raw_ipid h) \<and>
      reads IPV4_GET_IPOFFSET_raw p h (raw_off h) \<and>
      reads IPV4_GET_IPOFFSET p h (raw_ipoffset h) \<and>
      reads IPV4_GET_RF p h (raw_rf h) \<and>
      reads IPV4_GET_DF p h (raw_df h) \<and>
      reads IPV4_GET_MF p h (raw_mf h) \<and>
      reads IPV4_GET_IPPROTO p h (raw_proto h))"
proof -
  have "cache_ok (IPV4_CACHE_INIT p) h" if "ip4h p = Some h"
    using that by (simp add: cache_ok_def IPV4_CACHE_INIT_def okf_def)
  moreover obtain a b c d e g where "raw_ver h = Some a" "raw_hlen h = Some b" "raw_iplen h = Some c"
    "raw_ipid h = Some d" "raw_off h = Some e" "raw_proto h = Some g"
    using raw_fields_Some[OF assms] by auto
  ultimately show ?thesis
    using reads_VER[of p h] reads_HLEN[of p h] reads_IPLEN[of p h] reads_IPID[of p h] reads_IPOFFSET_raw[of p h]
      reads_IPOFFSET[of p h] reads_RF[of p h] reads_DF[of p h] reads_MF[of p h] reads_IPPROTO[of p h]
    by auto
qed

text \<open>A fresh packet.\<close>

definition packet0 :: ip4_packet where
  "packet0 = \<lparr>events = Some fresh_events, ip4h = None,
     ip4c = \<lparr>c_flags = 0, c_ver = 0, c_hl = 0, c_ip_len = 0, c_ip_id = 0, c_ip_off = 0, c__ip_off = 0,
             c_rf = 0, c_df = 0, c_mf = 0, c_ip_proto = 0\<rparr>,
     ip4vars = \<lparr>ip_opt_len = 0, ip_opts = replicate IPV4_OPTMAX \<lparr>opt_type = 0, opt_len = 0, opt_data = None\<rparr>,
       ip_opt_cnt = 0, o_rr = None, o_qs = None, o_ts = None, o_sec = None, o_lsrr = None, o_cipso = None,
       o_sid = None, o_ssrr = None, o_rtralt = None\<rparr>\<rparr>"

definition header20 :: bytes where
  "header20 = [0x45, 0, 0, 28, 0, 7, 0x20, 3, 64, 17, 0, 0, 10, 0, 0, 1, 10, 0, 0, 2]"

lemma ipv4_cache_transparent_witness:
  "\<exists>p. ip4h p = Some header20 \<and> cache_ok (IPV4_CACHE_INIT p) header20 \<and>
     reads IPV4_GET_HLEN (IPV4_CACHE_INIT p) header20 (Some 20) \<and>
     reads IPV4_GET_IPLEN (IPV4_CACHE_INIT p) header20 (Some 28)"
proof (rule exI[of _ "packet0\<lparr>ip4h := Some header20\<rparr>"])
  let ?p = "packet0\<lparr>ip4h := Some header20\<rparr>"
  have len: "20 \<le> length header20" by (simp add: header20_def)
  have ok: "cache_ok (IPV4_CACHE_INIT ?p) header20"
    using ipv4_cache_transparent[OF len, of ?p] by simp
  moreover have "raw_hlen header20 = Some 20" "raw_iplen header20 = Some 28"
    by (simp_all add: header20_def raw_hlen_def raw_iplen_def rd16be_def rd8_def)
  ultimately show "ip4h ?p = Some header20 \<and> cache_ok (IPV4_CACHE_INIT ?p) header20 \<and>
     reads IPV4_GET_HLEN (IPV4_CACHE_INIT ?p) header20 (Some 20) \<and>
     reads IPV4_GET_IPLEN (IPV4_CACHE_INIT ?p) header20 (Some 28)"
    using ipv4_cache_transparent[OF len, of "IPV4_CACHE_INIT ?p"] by simp
qed

lemma opts_keep:
  assumes "unat len < length pkt" "unat len \<le> 40" "length (ip_opts (ip4vars p)) = 40" "packet_events_ok (events p)"
  shows "\<exists>r q. DecodeIPV4Options p pkt len = Some (r, q) \<and> (r = 0 \<or> r = - 1) \<and>
    unat (ip_opt_cnt (ip4vars q)) \<le> 20 \<and> packet_events_ok (events q) \<and> ip4h q = ip4h p \<and> ip4c q = ip4c p \<and>
    ip_opt_len (ip4vars q) = ip_opt_len (ip4vars p) \<and> (r = 0 \<longrightarrow> opt_heads q = tlvs (take (unat len) pkt))"
proof -
  define p1 where "p1 = p\<lparr>ip4vars := (ip4vars p)\<lparr>ip_opt_cnt := 0\<rparr>\<rparr>"
  define p2 where "p2 = (if len mod 8 \<noteq> 0 then ev IPV4_OPT_PAD_REQUIRED p1 else p1)"
  have p2: "length (ip_opts (ip4vars p2)) = 40" "ip_opt_cnt (ip4vars p2) = 0" "packet_events_ok (events p2)"
    "ip4h p2 = ip4h p" "ip4c p2 = ip4c p" "ip_opt_len (ip4vars p2) = ip_opt_len (ip4vars p)"
    using assms(3,4) by (simp_all add: p2_def p1_def ev_def)
  have run: "DecodeIPV4Options p pkt len = opts_loop p2 pkt len"
    by (simp add: DecodeIPV4Options_def p1_def p2_def Let_def)
  have "opt_heads p2 = []" using p2(2) by (simp add: opt_heads_def)
  moreover obtain r q where "opts_loop p2 pkt len = Some (r, q)" "r = 0 \<or> r = - 1"
    "2 * unat (ip_opt_cnt (ip4vars q)) \<le> unat len" "ip4h q = ip4h p2" "ip4c q = ip4c p2"
    "ip_opt_len (ip4vars q) = ip_opt_len (ip4vars p2)" "packet_events_ok (events q)"
    "r = 0 \<longrightarrow> opt_heads q = opt_heads p2 @ tlvs (take (unat len) pkt)"
    using opts_loop_spec[of len pkt p2] assms(1,2) p2(1-3) by auto
  ultimately show ?thesis unfolding run using p2(4-6) assms(2) by auto
qed



text \<open>The byte of slack is needed, and the byte read is not the flag: on an option list of 8 bytes
  that ends with a timestamp option of the minimal length 5 and ptr 5, with nothing behind it in the
  buffer, the decoder reads outside the buffer; and for a timestamp option of 12 bytes with ptr 9 the
  verdict depends on the fourth data byte, which belongs to the first timestamp, and not at all on the
  overflow and flag byte \<open>f\<close> behind ptr.\<close>

theorem ipv4_timestamp_reads_past_option:
  "DecodeIPV4Options packet0 [1, 1, 1, 0x44, 5, 5, 0, 0] 8 = None \<and>
   IPV4OptValidateTimestamp p \<lparr>opt_type = IPV4_OPT_TS, opt_len = 12, opt_data = Some (9 # f # a # b # ds)\<rparr> =
     Some (if b = 1 \<or> b = 3 then (- 1, ev IPV4_OPT_MALFORMED p) else (0, p))"
proof
  have "Option.is_none (DecodeIPV4Options packet0 [1, 1, 1, 0x44, 5, 5, 0, 0] 8)" by code_simp
  then show "DecodeIPV4Options packet0 [1, 1, 1, 0x44, 5, 5, 0, 0] 8 = None" by (simp add: Option.is_none_def)
qed (simp add: IPV4OptValidateTimestamp_def rd8_def Let_def)

text \<open>
  The checks of the header, in the order of the code: the event of the first one that fails.
\<close>

definition header_verdict :: "u8 \<Rightarrow> u8 \<Rightarrow> u16 \<Rightarrow> u16 \<Rightarrow> decoder_event option" where
  "header_verdict ver hlen iplen len =
     (if len < 20 then Some IPV4_PKT_TOO_SMALL
      else if ver \<noteq> 4 then Some IPV4_WRONG_IP_VER
      else if hlen < 20 then Some IPV4_HLEN_TOO_SMALL
      else if iplen < ucast hlen then Some IPV4_IPLEN_SMALLER_THAN_HLEN
      else if len < iplen then Some IPV4_TRUNC_PKT
      else None)"

lemma hlen_bound: "raw_hlen h = Some v \<Longrightarrow> unat v \<le> 60"
proof -
  assume "raw_hlen h = Some v"
  then obtain b where v: "v = push_bit 2 (b AND 0x0f)"
    by (auto simp: raw_hlen_def split: bind_splits)
  have "(b AND 0x0f) = take_bit 4 b" by (simp add: take_bit_eq_mask mask_eq_exp_minus_1)
  then have "unat (b AND 0x0f) < 16" using take_bit_nat_less_exp[of 4 "unat b"] by (simp add: unsigned_take_bit_eq)
  moreover have "unat (push_bit 2 (b AND 0x0f)) \<le> unat (b AND 0x0f) * 4"
    using mod_less_eq_dividend[of "unat (b AND 0x0f) * 4" 256]
    by (simp only: push_bit_eq_mult unat_word_ariths) simp
  ultimately show ?thesis unfolding v by linarith
qed

text \<open>One step of the decoder with a coherent cache.\<close>

lemma reads_run:
  "reads get p h (Some v) \<Longrightarrow> \<exists>q. get p = Some (v, q) \<and> cache_ok q h \<and> ip4vars q = ip4vars p \<and> events q = events p"
  by (simp add: reads_def)

text \<open>Claim C32: \<open>DecodeIPV4Packet\<close> checks the header in full, in its order. On a buffer of at least 20 bytes that
  holds the packet, and one more byte behind the options if there are any (a packet that ends with its
  options at the end of the buffer is the one case left out), it always returns; it accepts exactly the packets whose
  length is at least 20, whose version is 4, whose header length is at least 20, not above the total
  length, and whose total length is not above the captured length. Otherwise it returns -1 and
  records the event of the first check that fails. No event is written outside the event array. An accepted
  packet has its header pointer and its option length set.\<close>

theorem ipv4_packet_header_checks:
  assumes "unat len \<le> length pkt" "IP_GET_RAW_VER pkt = Some ver" "20 \<le> length pkt"
    and "raw_hlen pkt = Some hlen" "raw_iplen pkt = Some iplen" "unat hlen \<le> 20 \<or> unat hlen < length pkt"
    and "c_flags (ip4c p) = 0" "length (ip_opts (ip4vars p)) = IPV4_OPTMAX" "packet_events_ok (events p)"
  shows "case header_verdict ver hlen iplen len of
      Some e \<Rightarrow> (\<exists>q. DecodeIPV4Packet IP_GET_RAW_VER set_addrs p pkt len = Some (- 1, q) \<and>
        events q = add_event (event_code e) (events p) \<and> packet_events_ok (events q))
    | None \<Rightarrow> (\<exists>q. DecodeIPV4Packet IP_GET_RAW_VER set_addrs p pkt len = Some (0, set_addrs q) \<and>
        ip4h q = Some pkt \<and> ip_opt_len (ip4vars q) = hlen - 20 \<and> cache_ok q pkt \<and>
        packet_events_ok (events q))"
proof -
  let ?p = "p\<lparr>ip4h := Some pkt\<rparr>"
  have ok: "cache_ok ?p pkt" using assms(7) by (simp add: cache_ok_def okf_def)
  have hl: "cache_ok x pkt \<Longrightarrow> \<exists>q. IPV4_GET_HLEN x = Some (hlen, q) \<and> cache_ok q pkt \<and> ip4vars q = ip4vars x \<and> events q = events x" for x
    using reads_HLEN[of x pkt hlen] assms(4) by (intro reads_run) simp
  have il: "cache_ok x pkt \<Longrightarrow> \<exists>q. IPV4_GET_IPLEN x = Some (iplen, q) \<and> cache_ok q pkt \<and> ip4vars q = ip4vars x \<and> events q = events x" for x
    using reads_IPLEN[of x pkt iplen] assms(5) by (intro reads_run) simp
  obtain p1 where p1: "IPV4_GET_HLEN ?p = Some (hlen, p1)" "cache_ok p1 pkt" "ip4vars p1 = ip4vars p" "events p1 = events p"
    using hl[OF ok] by auto
  obtain p2 where p2: "IPV4_GET_IPLEN p1 = Some (iplen, p2)" "cache_ok p2 pkt" "ip4vars p2 = ip4vars p" "events p2 = events p"
    using il[OF p1(2)] p1 by auto
  obtain p3 where p3: "IPV4_GET_HLEN p2 = Some (hlen, p3)" "cache_ok p3 pkt" "ip4vars p3 = ip4vars p" "events p3 = events p"
    using hl[OF p2(2)] p2 by auto
  obtain p4 where p4: "IPV4_GET_IPLEN p3 = Some (iplen, p4)" "cache_ok p4 pkt" "ip4vars p4 = ip4vars p" "events p4 = events p"
    using il[OF p3(2)] p3 by auto
  obtain p5 where p5: "IPV4_GET_HLEN p4 = Some (hlen, p5)" "cache_ok p5 pkt" "ip4vars p5 = ip4vars p" "events p5 = events p"
    using hl[OF p4(2)] p4 by auto
  note steps = p1(1) p2(1) p3(1) p4(1) p5(1) assms(2)
  show ?thesis
  proof (cases "header_verdict ver hlen iplen len")
    case (Some e)
    then show ?thesis
      using steps p1(4) p3(4) p4(4) assms(9)
      by (auto simp: header_verdict_def DecodeIPV4Packet_def ev_def split: if_splits)
  next
    case None
    then have c: "\<not> len < 20" "ver = 4" "\<not> hlen < 20" "\<not> iplen < ucast hlen" "\<not> len < iplen"
      by (auto simp: header_verdict_def split: if_splits)
    have uh: "unat (ucast hlen :: u16) = unat hlen" by (rule unat_ucast_up) simp
    have le: "unat hlen \<le> unat len" "20 \<le> unat hlen"
      using c by (simp_all add: word_less_nat_alt not_less uh)
    let ?q = "p5\<lparr>ip4vars := (ip4vars p5)\<lparr>ip_opt_len := hlen - 20\<rparr>\<rparr>"
    have q: "cache_ok ?q pkt" "ip4h ?q = Some pkt" using p5(2) by (simp_all add: cache_ok_def)
    show ?thesis
    proof (cases "hlen - 20 > 0")
      case False
      then show ?thesis using None c steps q p5(4) assms(9) by (auto simp: DecodeIPV4Packet_def Let_def)
    next
      case True
      have "(20 :: u8) \<le> hlen" using c(3) by simp
      then have "unat (hlen - 20) = unat hlen - 20" by (simp add: unat_sub)
      moreover have "unat (ucast (hlen - 20) :: u16) = unat (hlen - 20)" by (rule unat_ucast_up) simp
      ultimately have ol: "unat (ucast (hlen - 20) :: u16) = unat hlen - 20" by simp
      have "unat hlen < length pkt"
        using True \<open>unat (hlen - 20) = unat hlen - 20\<close> assms(6) by (auto simp: word_less_nat_alt)
      then have pre: "unat (ucast (hlen - 20) :: u16) < length (drop 20 pkt)" "unat (ucast (hlen - 20) :: u16) \<le> 40"
        "length (ip_opts (ip4vars ?q)) = 40" "packet_events_ok (events ?q)"
        using ol True le hlen_bound[OF assms(4)] assms(1,6,8,9) p5 by (simp_all add: IPV4_OPTMAX_def)
      obtain r q' where o: "DecodeIPV4Options ?q (drop 20 pkt) (ucast (hlen - 20)) = Some (r, q')"
        "ip4h q' = ip4h ?q" "ip4c q' = ip4c ?q" "ip_opt_len (ip4vars q') = hlen - 20"
        "packet_events_ok (events q')"
        using opts_keep[OF pre] by auto
      have "cache_ok q' pkt" using q(1) o(2,3) by (simp add: cache_ok_def)
      then show ?thesis using None c steps o q(2) True by (auto simp: DecodeIPV4Packet_def Let_def)
    qed
  qed
qed

lemma ipv4_packet_header_checks_witness:
  "(\<exists>q. DecodeIPV4Packet raw_ver id packet0 (header20 @ replicate 9 0) 28 = Some (0, q) \<and>
      ip4h q = Some (header20 @ replicate 9 0)) \<and>
   (\<exists>q. DecodeIPV4Packet raw_ver id packet0 (header20 @ replicate 9 0) 27 = Some (- 1, q) \<and>
      events q = set_event IPV4_TRUNC_PKT fresh_events \<and> packet_events_ok (events q))"
proof -
  let ?b = "header20 @ replicate 9 0"
  have len: "length ?b = 29" by (simp add: header20_def)
  have f: "raw_ver ?b = Some 4" "raw_hlen ?b = Some 20" "raw_iplen ?b = Some 28"
    by (simp_all add: header20_def raw_ver_def raw_hlen_def raw_iplen_def rd16be_def rd8_def)
  have p0: "c_flags (ip4c packet0) = 0" "length (ip_opts (ip4vars packet0)) = IPV4_OPTMAX" "packet_events_ok (events packet0)"
    by (simp_all add: packet0_def)
  have "header_verdict 4 20 28 28 = None" "header_verdict 4 20 28 27 = Some IPV4_TRUNC_PKT"
    by (simp_all add: header_verdict_def)
  moreover have "add_event (event_code IPV4_TRUNC_PKT) (events packet0) = set_event IPV4_TRUNC_PKT fresh_events"
    by (simp add: add_event_def packet0_def set_event_def)
  ultimately show ?thesis
    using ipv4_packet_header_checks[where set_addrs = id and pkt = ?b and IP_GET_RAW_VER = raw_ver, OF _ f(1) _ f(2,3) _ p0, of 28]
      ipv4_packet_header_checks[where set_addrs = id and pkt = ?b and IP_GET_RAW_VER = raw_ver, OF _ f(1) _ f(2,3) _ p0, of 27] len
    by auto
qed

end
