(* ===== verification/DecodeTransport.thy ===== *)
theory DecodeTransport
  imports DecodeIPV4
begin

text \<open>
  The TCP and UDP decoders (\<open>src/decode-tcp.c\<close>, \<open>src/decode-udp.c\<close> and their headers): the TCP option
  loop, the header checks and the entry points. The numbers of the TCP events and the port macros are
  not defined in the sources, so they are arguments; so are the flow and application layers the entry
  points hand the packet to. A pointer to an option is its index in the option array.
\<close>

section \<open>TCP\<close>

record TCPOpt =
  topt_type :: u8
  topt_len :: u8
  topt_data :: "bytes option"

record TCPVars =
  tcp_hlen :: u8
  tcp_opt_len :: u8
  tcp_opts :: "TCPOpt list"
  tcp_opt_cnt :: u8
  sackok :: "nat option"
  ws :: "nat option"
  ts :: "nat option"
  mss :: "nat option"

record l4_packet =
  l4_events :: packet_events
  tcph :: "bytes option"
  udph :: "bytes option"
  tcpvars :: TCPVars
  udp_hlen :: u8
  sp :: u16
  dp :: u16
  payload :: "bytes option"
  payload_len :: u16
  l4_proto :: u8

text \<open>The event numbers that \<open>decode-tcp.c\<close> uses.\<close>

record tcp_event_codes =
  TCP_PKT_TOO_SMALL :: u8
  TCP_HLEN_TOO_SMALL :: u8
  TCP_INVALID_OPTLEN :: u8
  TCP_OPT_INVALID_LEN :: u8
  TCP_OPT_DUPLICATE :: u8

definition TCP_OPTMAX :: nat where "TCP_OPTMAX = 20"

definition ev_code :: "u8 \<Rightarrow> l4_packet \<Rightarrow> l4_packet" where
  "ev_code e p = p\<lparr>l4_events := add_event e (l4_events p)\<rparr>"

definition CLEAR_TCP_PACKET :: "l4_packet \<Rightarrow> l4_packet" where
  "CLEAR_TCP_PACKET p = p\<lparr>tcph := None,
     tcpvars := (tcpvars p)\<lparr>tcp_opt_cnt := 0, sackok := None, ts := None, ws := None, mss := None\<rparr>\<rparr>"

text \<open>
  One case of the switch on the type: the length of the option must be \<open>olen\<close>, and the first such
  option is remembered through its index.
\<close>

definition tcp_opt_case :: "tcp_event_codes \<Rightarrow> u8 \<Rightarrow> (TCPVars \<Rightarrow> nat option)
    \<Rightarrow> (nat option \<Rightarrow> TCPVars \<Rightarrow> TCPVars) \<Rightarrow> l4_packet \<Rightarrow> l4_packet" where
  "tcp_opt_case C olen get put p =
     (let n = unat (tcp_opt_cnt (tcpvars p)) in
      if topt_len (tcp_opts (tcpvars p) ! n) \<noteq> olen then ev_code (TCP_OPT_INVALID_LEN C) p
      else if get (tcpvars p) \<noteq> None then ev_code (TCP_OPT_DUPLICATE C) p
      else p\<lparr>tcpvars := put (Some n) (tcpvars p)\<rparr>)"

definition tcp_opt_switch :: "tcp_event_codes \<Rightarrow> l4_packet \<Rightarrow> l4_packet" where
  "tcp_opt_switch C p =
     (let t = topt_type (tcp_opts (tcpvars p) ! unat (tcp_opt_cnt (tcpvars p))) in
      if t = 0x03 then tcp_opt_case C 3 ws (\<lambda>x v. v\<lparr>ws := x\<rparr>) p
      else if t = 0x02 then tcp_opt_case C 4 mss (\<lambda>x v. v\<lparr>mss := x\<rparr>) p
      else if t = 0x04 then tcp_opt_case C 2 sackok (\<lambda>x v. v\<lparr>sackok := x\<rparr>) p
      else if t = 0x08 then tcp_opt_case C 10 ts (\<lambda>x v. v\<lparr>ts := x\<rparr>) p
      else p)"

text \<open>\<open>p->TCP_OPTS[p->TCP_OPTS_CNT] = ...\<close>, inside the array of \<open>TCP_OPTMAX\<close> options.\<close>

definition store_tcp_opt :: "TCPOpt \<Rightarrow> l4_packet \<Rightarrow> l4_packet option" where
  "store_tcp_opt x p =
     (let n = unat (tcp_opt_cnt (tcpvars p)) in
      if n < length (tcp_opts (tcpvars p)) then
        Some (p\<lparr>tcpvars := (tcpvars p)\<lparr>tcp_opts := (tcp_opts (tcpvars p))[n := x]\<rparr>\<rparr>)
      else None)"

definition next_tcp_opt :: "l4_packet \<Rightarrow> l4_packet" where
  "next_tcp_opt p = p\<lparr>tcpvars := (tcpvars p)\<lparr>tcp_opt_cnt := tcp_opt_cnt (tcpvars p) + 1\<rparr>\<rparr>"

function DecodeTCPOptions :: "tcp_event_codes \<Rightarrow> l4_packet \<Rightarrow> bytes \<Rightarrow> u16 \<Rightarrow> (int \<times> l4_packet) option" where
  "DecodeTCPOptions C p pkt plen =
     (if plen = 0 then Some (0, p)
      else (case rd8 pkt 0 of
        None \<Rightarrow> None
      | Some b \<Rightarrow>
          if b = 0x00 then Some (0, p)
          else if b = 0x01 then DecodeTCPOptions C p (drop 1 pkt) (plen - 1)
          else if plen < 2 then Some (0, p)
          else (case rd8 pkt 1 of
            None \<Rightarrow> None
          | Some l \<Rightarrow>
              if ucast l > plen \<or> l < 2 then Some (- 1, ev_code (TCP_OPT_INVALID_LEN C) p)
              else (case store_tcp_opt \<lparr>topt_type = b, topt_len = l,
                      topt_data = (if plen > 2 then Some (drop 2 pkt) else None)\<rparr> p of
                None \<Rightarrow> None
              | Some p1 \<Rightarrow> DecodeTCPOptions C (next_tcp_opt (tcp_opt_switch C p1))
                  (drop (unat l) pkt) (plen - ucast l)))))"
  by pat_completeness auto

termination DecodeTCPOptions
proof (relation "measure (\<lambda>(C, p, pkt, plen). unat plen)", goal_cases)
  case 1
  then show ?case by simp
next
  case (2 C p pkt plen b)
  then show ?case using unat_nonzero_Suc[of plen] by simp
next
  case (3 C p pkt plen b l p1)
  then have "0 < l" "\<not> ucast l > plen" by (auto simp: word_less_nat_alt)
  then show ?case using sub_ucast_less(1)[of plen l] by simp
qed

declare DecodeTCPOptions.simps [simp del]

definition TCP_GET_HLEN :: "bytes \<Rightarrow> u8 option" where
  "TCP_GET_HLEN h = do { b \<leftarrow> rd8 h 12; Some (push_bit 2 (drop_bit 4 (b AND 0xf0))) }"

text \<open>
  \<open>SET_TCP_SRC_PORT\<close> and \<open>SET_TCP_DST_PORT\<close> store the ports that \<open>src_port\<close> and \<open>dst_port\<close> find in the
  header. The comparison of \<open>tcp_opt_len\<close> with \<open>TCP_OPTLENMAX\<close> is made on the 8-bit value.
\<close>

definition DecodeTCPPacket :: "tcp_event_codes \<Rightarrow> (bytes \<Rightarrow> u16) \<Rightarrow> (bytes \<Rightarrow> u16) \<Rightarrow> l4_packet \<Rightarrow> bytes \<Rightarrow> u16
    \<Rightarrow> (int \<times> l4_packet) option" where
  "DecodeTCPPacket C src_port dst_port p pkt len =
     (if len < 20 then Some (- 1, ev_code (TCP_PKT_TOO_SMALL C) p)
      else do {
        let p = p\<lparr>tcph := Some pkt\<rparr>;
        hl \<leftarrow> TCP_GET_HLEN pkt;
        let p = p\<lparr>tcpvars := (tcpvars p)\<lparr>tcp_hlen := hl\<rparr>\<rparr>;
        if len < ucast hl then Some (- 1, ev_code (TCP_HLEN_TOO_SMALL C) p)
        else do {
          let p = p\<lparr>sp := src_port pkt, dp := dst_port pkt\<rparr>;
          let ol = hl - 20;
          let p = p\<lparr>tcpvars := (tcpvars p)\<lparr>tcp_opt_len := ol\<rparr>\<rparr>;
          if ol > 40 then Some (- 1, ev_code (TCP_INVALID_OPTLEN C) p)
          else do {
            p \<leftarrow> (if ol > 0 then map_option snd (DecodeTCPOptions C p (drop 20 pkt) (ucast ol)) else Some p);
            Some (0, p\<lparr>payload := Some (drop (unat (tcp_hlen (tcpvars p))) pkt),
              payload_len := len - ucast (tcp_hlen (tcpvars p)), l4_proto := 6\<rparr>)
          }
        }
      })"

definition DecodeTCP :: "tcp_event_codes \<Rightarrow> (bytes \<Rightarrow> u16) \<Rightarrow> (bytes \<Rightarrow> u16) \<Rightarrow> (l4_packet \<Rightarrow> l4_packet option)
    \<Rightarrow> l4_packet \<Rightarrow> bytes \<Rightarrow> u16 \<Rightarrow> l4_packet option" where
  "DecodeTCP C src_port dst_port flow_handle p pkt len = do {
     (r, p) \<leftarrow> DecodeTCPPacket C src_port dst_port p pkt len;
     if r < 0 then Some (p\<lparr>tcph := None\<rparr>)
     else flow_handle p
   }"

section \<open>UDP\<close>

definition UDP_GET_LEN :: "bytes \<Rightarrow> u16 option" where
  "UDP_GET_LEN h = rd16be h 4"

definition CLEAR_UDP_PACKET :: "l4_packet \<Rightarrow> l4_packet" where
  "CLEAR_UDP_PACKET p = p\<lparr>udp_hlen := 0, udph := None\<rparr>"

definition DecodeUDPPacket :: "(bytes \<Rightarrow> u16) \<Rightarrow> (bytes \<Rightarrow> u16) \<Rightarrow> l4_packet \<Rightarrow> bytes \<Rightarrow> u16
    \<Rightarrow> (int \<times> l4_packet) option" where
  "DecodeUDPPacket src_port dst_port p pkt len =
     (if len < 8 then Some (- 1, ev_code (event_code UDP_HLEN_TOO_SMALL) p)
      else do {
        let p = p\<lparr>udph := Some pkt\<rparr>;
        ul \<leftarrow> UDP_GET_LEN pkt;
        if len < ul then Some (- 1, ev_code (event_code UDP_PKT_TOO_SMALL) p)
        else if len \<noteq> ul then Some (- 1, ev_code (event_code UDP_HLEN_INVALID) p)
        else Some (0, p\<lparr>sp := src_port pkt, dp := dst_port pkt, udp_hlen := 8,
          payload := Some (drop 8 pkt), payload_len := len - 8, l4_proto := 17\<rparr>)
      })"

text \<open>\<open>flow_handle\<close> says whether the packet has a flow afterwards; \<open>app_layer\<close> is \<open>AppLayerHandleUdp\<close>.\<close>

definition DecodeUDP :: "(bytes \<Rightarrow> u16) \<Rightarrow> (bytes \<Rightarrow> u16) \<Rightarrow> (l4_packet \<Rightarrow> (bool \<times> l4_packet) option)
    \<Rightarrow> (l4_packet \<Rightarrow> l4_packet option) \<Rightarrow> l4_packet \<Rightarrow> bytes \<Rightarrow> u16 \<Rightarrow> l4_packet option" where
  "DecodeUDP src_port dst_port flow_handle app_layer p pkt len = do {
     (r, p) \<leftarrow> DecodeUDPPacket src_port dst_port p pkt len;
     if r < 0 then Some (p\<lparr>udph := None\<rparr>)
     else do {
       (has_flow, p) \<leftarrow> flow_handle p;
       if has_flow then app_layer p else Some p
     }
   }"

section \<open>The TCP option loop\<close>

text \<open>Type and length of the recorded options, and the index of the first option of a given kind.\<close>

definition tcp_heads :: "l4_packet \<Rightarrow> (u8 \<times> u8) list" where
  "tcp_heads p = map (\<lambda>x. (topt_type x, topt_len x)) (take (unat (tcp_opt_cnt (tcpvars p))) (tcp_opts (tcpvars p)))"

definition first_index :: "'a \<Rightarrow> 'a list \<Rightarrow> nat option" where
  "first_index x xs = (if x \<in> set xs then Some (length (takeWhile (\<lambda>y. y \<noteq> x) xs)) else None)"

lemma first_index_Nil [simp]: "first_index x [] = None"
  by (simp add: first_index_def)

lemma first_index_snoc:
  "first_index x (xs @ [y]) =
    (case first_index x xs of Some i \<Rightarrow> Some i | None \<Rightarrow> if y = x then Some (length xs) else None)"
  by (auto simp: first_index_def takeWhile_append)

text \<open>The four pointers refer to the first well-formed option of their kind.\<close>

definition tcp_ptrs :: "TCPVars \<Rightarrow> (u8 \<times> u8) list \<Rightarrow> bool" where
  "tcp_ptrs v hs \<longleftrightarrow> ws v = first_index (3, 3) hs \<and> mss v = first_index (2, 4) hs \<and>
     sackok v = first_index (4, 2) hs \<and> ts v = first_index (8, 10) hs"

definition l4_frame :: "l4_packet \<Rightarrow> l4_packet \<Rightarrow> bool" where
  "l4_frame p q \<longleftrightarrow> tcph q = tcph p \<and> udph q = udph p \<and> tcp_hlen (tcpvars q) = tcp_hlen (tcpvars p) \<and>
     tcp_opt_len (tcpvars q) = tcp_opt_len (tcpvars p) \<and> sp q = sp p \<and> dp q = dp p \<and>
     length (tcp_opts (tcpvars q)) = length (tcp_opts (tcpvars p)) \<and>
     (packet_events_ok (l4_events p) \<longrightarrow> packet_events_ok (l4_events q))"

lemma l4_frame_refl [simp]: "l4_frame p p" and l4_frame_ev [simp]: "l4_frame p (ev_code e p)"
  by (simp_all add: l4_frame_def ev_code_def)

lemma l4_frame_trans: "l4_frame p q \<Longrightarrow> l4_frame q r \<Longrightarrow> l4_frame p r"
  by (simp add: l4_frame_def)

lemma tcpvars_switch:
  "tcpvars (tcp_opt_switch C p) =
    (let v = tcpvars p; n = unat (tcp_opt_cnt v); t = topt_type (tcp_opts v ! n); l = topt_len (tcp_opts v ! n) in
     if ws v = None \<and> t = 3 \<and> l = 3 then v\<lparr>ws := Some n\<rparr>
     else if mss v = None \<and> t = 2 \<and> l = 4 then v\<lparr>mss := Some n\<rparr>
     else if sackok v = None \<and> t = 4 \<and> l = 2 then v\<lparr>sackok := Some n\<rparr>
     else if ts v = None \<and> t = 8 \<and> l = 10 then v\<lparr>ts := Some n\<rparr>
     else v)"
  by (auto simp: tcp_opt_switch_def tcp_opt_case_def ev_code_def Let_def)

lemma tcp_step:
  fixes C :: tcp_event_codes
  assumes "length (tcp_opts (tcpvars p)) = 20" "unat (tcp_opt_cnt (tcpvars p)) < 20"
    "tcp_ptrs (tcpvars p) (tcp_heads p)" "store_tcp_opt \<lparr>topt_type = b, topt_len = l, topt_data = d\<rparr> p = Some p1"
  defines "q \<equiv> next_tcp_opt (tcp_opt_switch C p1)"
  shows "tcp_heads q = tcp_heads p @ [(b, l)]" "tcp_ptrs (tcpvars q) (tcp_heads p @ [(b, l)])" "l4_frame p q"
    "unat (tcp_opt_cnt (tcpvars q)) = unat (tcp_opt_cnt (tcpvars p)) + 1"
proof -
  let ?n = "unat (tcp_opt_cnt (tcpvars p))" and ?x = "\<lparr>topt_type = b, topt_len = l, topt_data = d\<rparr>"
  have p1: "p1 = p\<lparr>tcpvars := (tcpvars p)\<lparr>tcp_opts := (tcp_opts (tcpvars p))[?n := ?x]\<rparr>\<rparr>"
    using assms(1,2,4) by (simp add: store_tcp_opt_def Let_def)
  then have at: "tcp_opts (tcpvars p1) ! ?n = ?x" using assms(1,2) by simp
  have max: "tcp_opt_cnt (tcpvars p) \<noteq> - 1"
    using assms(2) unat_max_word[where 'l=8] by auto
  have keep: "tcp_opts (tcpvars (tcp_opt_switch C p1)) = tcp_opts (tcpvars p1)"
    "tcp_opt_cnt (tcpvars (tcp_opt_switch C p1)) = tcp_opt_cnt (tcpvars p)"
    by (simp_all add: tcp_opt_switch_def tcp_opt_case_def ev_code_def Let_def p1)
  show cnt: "unat (tcp_opt_cnt (tcpvars q)) = ?n + 1"
    using max by (simp add: q_def next_tcp_opt_def keep unat_add_1_if)
  have tq: "tcp_opts (tcpvars q) = (tcp_opts (tcpvars p))[?n := ?x]"
    unfolding q_def next_tcp_opt_def by (simp add: keep(1)) (simp add: p1)
  show "tcp_heads q = tcp_heads p @ [(b, l)]"
    using assms(1,2) unfolding tcp_heads_def cnt tq by (simp add: take_Suc_conv_app_nth)
  have len: "length (tcp_heads p) = ?n" using assms(1,2) by (simp add: tcp_heads_def)
  show "tcp_ptrs (tcpvars q) (tcp_heads p @ [(b, l)])"
  proof -
    let ?v = "tcpvars (tcp_opt_switch C p1)" and ?old = "tcpvars p"
    have k: "ws (tcpvars p1) = ws ?old" "mss (tcpvars p1) = mss ?old" "sackok (tcpvars p1) = sackok ?old"
      "ts (tcpvars p1) = ts ?old" "tcp_opt_cnt (tcpvars p1) = tcp_opt_cnt ?old" by (simp_all add: p1)
    have at': "tcp_opts (tcpvars p1) ! unat (tcp_opt_cnt (tcpvars p1)) = ?x" unfolding k(5) by (rule at)
    have sel: "ws ?v = (if ws ?old = None \<and> b = 3 \<and> l = 3 then Some ?n else ws ?old)"
      "mss ?v = (if mss ?old = None \<and> b = 2 \<and> l = 4 then Some ?n else mss ?old)"
      "sackok ?v = (if sackok ?old = None \<and> b = 4 \<and> l = 2 then Some ?n else sackok ?old)"
      "ts ?v = (if ts ?old = None \<and> b = 8 \<and> l = 10 then Some ?n else ts ?old)"
      by (simp_all only: tcpvars_switch Let_def at' TCPOpt.simps) (auto simp: k)
    have pick: "(if x = None \<and> b = c \<and> l = e then Some ?n else x) = first_index (c, e) (tcp_heads p @ [(b, l)])"
      if "x = first_index (c, e) (tcp_heads p)" for x c e
      by (cases "first_index (c, e) (tcp_heads p)") (simp_all add: that first_index_snoc len)
    have q: "ws (tcpvars q) = ws ?v" "mss (tcpvars q) = mss ?v" "sackok (tcpvars q) = sackok ?v" "ts (tcpvars q) = ts ?v"
      by (simp_all add: q_def next_tcp_opt_def)
    show ?thesis using assms(3) unfolding tcp_ptrs_def q sel by (elim conjE) (intro conjI pick)
  qed
  show "l4_frame p q"
    by (simp add: l4_frame_def q_def next_tcp_opt_def tcp_opt_switch_def tcp_opt_case_def ev_code_def Let_def p1)
qed

lemma DecodeTCPOptions_spec:
  assumes "unat plen \<le> length pkt" "length (tcp_opts (tcpvars p)) = 20"
    "2 * unat (tcp_opt_cnt (tcpvars p)) + unat plen \<le> 40" "tcp_ptrs (tcpvars p) (tcp_heads p)"
  shows "\<exists>r q. DecodeTCPOptions C p pkt plen = Some (r, q) \<and> (r = 0 \<or> r = - 1) \<and> l4_frame p q \<and>
    2 * unat (tcp_opt_cnt (tcpvars q)) \<le> 2 * unat (tcp_opt_cnt (tcpvars p)) + unat plen \<and>
    tcp_heads q = tcp_heads p @ tlvs (take (unat plen) pkt) \<and> tcp_ptrs (tcpvars q) (tcp_heads q)"
  using assms
proof (induction C p pkt plen rule: DecodeTCPOptions.induct)
  case (1 C p pkt plen)
  note len = "1.prems"(1) and arr = "1.prems"(2) and room = "1.prems"(3) and ptrs = "1.prems"(4)
  have evsame [simp]: "tcpvars (ev_code e x) = tcpvars x" "tcp_heads (ev_code e x) = tcp_heads x" for e x
    by (simp_all add: ev_code_def tcp_heads_def)
  show ?case
  proof (cases "plen = 0")
    case True
    then show ?thesis using ptrs by (subst DecodeTCPOptions.simps) simp
  next
    case nz: False
    then obtain b bs where pkt: "pkt = b # bs" using len by (cases pkt) (auto simp: unat_eq_0)
    have rd0: "rd8 pkt 0 = Some b" by (simp add: pkt rd8_def)
    have pos: "0 < unat plen" using nz by (simp add: unat_gt_0)
    then have tk: "take (unat plen) pkt = b # take (unat plen - 1) bs" by (cases "unat plen") (auto simp: pkt)
    consider "b = 0" | "b = 1" | "b \<noteq> 0" "b \<noteq> 1" by blast
    then show ?thesis
    proof cases
      case 1
      then show ?thesis using ptrs rd0 nz tk by (subst DecodeTCPOptions.simps) simp
    next
      case 2
      have u: "unat (plen - 1) = unat plen - 1" using unat_nonzero_Suc[OF nz] by simp
      have run: "DecodeTCPOptions C p pkt plen = DecodeTCPOptions C p (drop 1 pkt) (plen - 1)"
        using 2 rd0 nz by (subst DecodeTCPOptions.simps) simp
      have tl: "tlvs (take (unat plen) pkt) = tlvs (take (unat (plen - 1)) (drop 1 pkt))"
        using 2 u by (simp add: tk) (simp add: pkt)
      have pre: "unat (plen - 1) \<le> length (drop 1 pkt)" "2 * unat (tcp_opt_cnt (tcpvars p)) + unat (plen - 1) \<le> 40"
        using len room u pos by simp_all
      show ?thesis
        using "1.IH"(1)[OF nz rd0 _ _ pre(1) arr pre(2) ptrs] 2 u unfolding run tl by fastforce
    next
      case 3
      show ?thesis
      proof (cases "plen < 2")
        case True
        then have "unat plen = 1" using pos by (simp add: word_less_nat_alt)
        then have "tlvs (take (unat plen) pkt) = []" using 3 tk by simp
        then show ?thesis using 3 rd0 nz True ptrs by (subst DecodeTCPOptions.simps) simp
      next
        case False
        then have two: "2 \<le> unat plen" by (simp add: word_less_nat_alt)
        then obtain l ds where bs: "bs = l # ds" using len pkt by (cases bs) auto
        have rd1: "rd8 pkt 1 = Some l" by (simp add: pkt bs rd8_def)
        have tk2: "take (unat plen - 1) bs = l # take (unat plen - 2) ds"
          using two by (simp add: bs take_Cons' numeral_2_eq_2)
        have lbs: "length (take (unat plen - 1) bs) + 1 = unat plen" using len two pkt by simp
        show ?thesis
        proof (cases "ucast l > plen \<or> l < 2")
          case True
          have "unat (ucast l :: u16) = unat l" by (rule unat_ucast_up) simp
          then have "tlvs (take (unat plen) pkt) = []"
            using 3 True lbs unfolding tk tk2 by (auto simp: word_less_nat_alt)
          then show ?thesis using 3 rd0 rd1 nz False True ptrs by (subst DecodeTCPOptions.simps) auto
        next
          case fits: False
          then have ul: "2 \<le> unat l" "0 < l" by (auto simp: word_less_nat_alt)
          note sub = sub_ucast_less[of plen l, OF _ ul(2)]
          define d where "d = (if plen > 2 then Some (drop 2 pkt) else None)"
          have cap: "unat (tcp_opt_cnt (tcpvars p)) < 20" using room two by simp
          then obtain p1 where st: "store_tcp_opt \<lparr>topt_type = b, topt_len = l, topt_data = d\<rparr> p = Some p1"
            using arr by (simp add: store_tcp_opt_def Let_def)
          let ?q = "next_tcp_opt (tcp_opt_switch C p1)"
          note step = tcp_step[OF arr cap ptrs st, of C]
          have run: "DecodeTCPOptions C p pkt plen = DecodeTCPOptions C ?q (drop (unat l) pkt) (plen - ucast l)"
            using 3 rd0 rd1 nz False fits st unfolding d_def by (subst DecodeTCPOptions.simps) simp
          have "drop (unat l - 1) (take (unat plen - 1) bs) = take (unat (plen - ucast l)) (drop (unat l) pkt)"
            using sub(2,3) fits ul by (simp add: drop_take pkt drop_Cons')
          moreover have head: "tlvs (b # xs) = (b, l) # tlvs (drop (unat l - 1) xs)"
            if "xs = l # ys" "unat l \<le> length xs + 1" for xs ys
            using that 3 fits by simp
          ultimately have tl: "tlvs (take (unat plen) pkt) = (b, l) # tlvs (take (unat (plen - ucast l)) (drop (unat l) pkt))"
            using head[OF tk2] lbs fits sub(3) unfolding tk by simp
          have pre: "unat (plen - ucast l) \<le> length (drop (unat l) pkt)" "length (tcp_opts (tcpvars ?q)) = 20"
            "2 * unat (tcp_opt_cnt (tcpvars ?q)) + unat (plen - ucast l) \<le> 40" "tcp_ptrs (tcpvars ?q) (tcp_heads ?q)"
            using sub(2,3) fits len ul room step arr by (simp_all add: l4_frame_def)
          from "1.IH"(2)[OF nz rd0 3 False rd1 fits st[unfolded d_def] pre]
          show ?thesis unfolding run tl step(1) using step(3,4) sub(2,3) fits ul
            by (fastforce dest: l4_frame_trans)
        qed
      qed
    qed
  qed
qed

section \<open>The TCP decoder\<close>

text \<open>A fresh packet.\<close>

definition l4_packet0 :: l4_packet where
  "l4_packet0 = \<lparr>l4_events = Some fresh_events, tcph = None, udph = None,
     tcpvars = \<lparr>tcp_hlen = 0, tcp_opt_len = 0, tcp_opts = replicate 20 \<lparr>topt_type = 0, topt_len = 0, topt_data = None\<rparr>,
       tcp_opt_cnt = 0, sackok = None, ws = None, ts = None, mss = None\<rparr>,
     udp_hlen = 0, sp = 0, dp = 0, payload = None, payload_len = 0, l4_proto = 0\<rparr>"

lemma tcp_fresh: "tcp_ptrs (tcpvars (CLEAR_TCP_PACKET p)) (tcp_heads (CLEAR_TCP_PACKET p))"
  "tcp_heads (CLEAR_TCP_PACKET p) = []" "unat (tcp_opt_cnt (tcpvars (CLEAR_TCP_PACKET p))) = 0"
  "tcp_opts (tcpvars (CLEAR_TCP_PACKET p)) = tcp_opts (tcpvars p)"
  "l4_events (CLEAR_TCP_PACKET p) = l4_events p"
  by (simp_all add: tcp_ptrs_def tcp_heads_def CLEAR_TCP_PACKET_def)

text \<open>Claim C36: The TCP option decoder, on a cleared packet and any option list of at most 40 bytes, well
  formed or not, returns without reading outside the list or writing outside its 20 option slots; the
  options it records are exactly the type and length pairs of the reference reading, and each of the
  pointers \<open>ws\<close>, \<open>mss\<close>, \<open>sackok\<close> and \<open>ts\<close> is the first of them with the right type and length.\<close>

theorem tcp_options_decode:
  assumes "unat len \<le> 40" "length (tcp_opts (tcpvars p)) = TCP_OPTMAX" "unat len = length pkt"
  shows "\<exists>r q. DecodeTCPOptions C (CLEAR_TCP_PACKET p) pkt len = Some (r, q) \<and> (r = 0 \<or> r = - 1) \<and>
    tcp_heads q = tlvs pkt \<and> unat (tcp_opt_cnt (tcpvars q)) \<le> 20 \<and>
    ws (tcpvars q) = first_index (3, 3) (tlvs pkt) \<and> mss (tcpvars q) = first_index (2, 4) (tlvs pkt) \<and>
    sackok (tcpvars q) = first_index (4, 2) (tlvs pkt) \<and> ts (tcpvars q) = first_index (8, 10) (tlvs pkt)"
proof -
  obtain r q where "DecodeTCPOptions C (CLEAR_TCP_PACKET p) pkt len = Some (r, q)" "r = 0 \<or> r = - 1"
    "2 * unat (tcp_opt_cnt (tcpvars q)) \<le> unat len" "tcp_heads q = tlvs (take (unat len) pkt)"
    "tcp_ptrs (tcpvars q) (tcp_heads q)"
    using DecodeTCPOptions_spec[of len pkt "CLEAR_TCP_PACKET p" C] assms tcp_fresh[of p]
    by (auto simp: TCP_OPTMAX_def)
  then show ?thesis using assms by (auto simp: tcp_ptrs_def)
qed

definition tcp_codes0 :: tcp_event_codes where
  "tcp_codes0 = \<lparr>TCP_PKT_TOO_SMALL = 40, TCP_HLEN_TOO_SMALL = 41, TCP_INVALID_OPTLEN = 42, TCP_OPT_INVALID_LEN = 43,
     TCP_OPT_DUPLICATE = 44\<rparr>"

lemma tcp_options_decode_witness:
  "\<exists>r q. DecodeTCPOptions tcp_codes0 (CLEAR_TCP_PACKET l4_packet0) [1, 3, 3, 7, 2, 4, 5, 0xb4, 4, 2, 0, 0] 12 = Some (r, q) \<and>
    (r = 0 \<or> r = - 1) \<and> tcp_heads q = [(3, 3), (2, 4), (4, 2)] \<and> unat (tcp_opt_cnt (tcpvars q)) \<le> 20 \<and>
    ws (tcpvars q) = Some 0 \<and> mss (tcpvars q) = Some 1 \<and> sackok (tcpvars q) = Some 2 \<and> ts (tcpvars q) = None"
proof -
  have t: "tlvs [1, 3, 3, 7, 2, 4, 5, 0xb4, 4, 2, 0, 0] = [(3, 3), (2, 4), (4, 2)]" by simp
  let ?hs = "[(3, 3), (2, 4), (4, 2)] :: (u8 \<times> u8) list"
  have fi: "first_index (3, 3) ?hs = Some 0" "first_index (2, 4) ?hs = Some 1"
    "first_index (4, 2) ?hs = Some 2" "first_index (8, 10) ?hs = None"
    by (simp_all add: first_index_def)
  have "length (tcp_opts (tcpvars l4_packet0)) = TCP_OPTMAX" by (simp add: l4_packet0_def TCP_OPTMAX_def)
  then show ?thesis
    using tcp_options_decode[of 12 l4_packet0 "[1, 3, 3, 7, 2, 4, 5, 0xb4, 4, 2, 0, 0]" tcp_codes0]
    unfolding t fi by simp
qed

text \<open>The checks of the two headers, in the order of the code: the event of the first that fails.\<close>

definition tcp_verdict :: "tcp_event_codes \<Rightarrow> u8 \<Rightarrow> u16 \<Rightarrow> u8 option" where
  "tcp_verdict C hl len =
     (if len < 20 then Some (TCP_PKT_TOO_SMALL C)
      else if unat len < unat hl then Some (TCP_HLEN_TOO_SMALL C)
      else if hl < 20 then Some (TCP_INVALID_OPTLEN C)
      else None)"

definition udp_verdict :: "u16 \<Rightarrow> u16 \<Rightarrow> u8 option" where
  "udp_verdict ul len =
     (if len < 8 then Some (event_code UDP_HLEN_TOO_SMALL)
      else if len < ul then Some (event_code UDP_PKT_TOO_SMALL)
      else if len \<noteq> ul then Some (event_code UDP_HLEN_INVALID)
      else None)"

lemma tcp_hlen_bound: "TCP_GET_HLEN h = Some hl \<Longrightarrow> unat hl \<le> 60"
proof -
  assume "TCP_GET_HLEN h = Some hl"
  then obtain b where hl: "hl = push_bit 2 (drop_bit 4 (b AND 0xf0))"
    by (auto simp: TCP_GET_HLEN_def split: bind_splits)
  have "unat (drop_bit 4 (b AND 0xf0)) < 16"
    using unat_bound[of "b AND 0xf0"] by (simp add: drop_bit_eq_div unat_div_distrib)
  moreover have "unat (push_bit 2 x) \<le> unat x * 4" for x :: u8
    using mod_less_eq_dividend[of "unat x * 4" 256] by (simp only: push_bit_eq_mult unat_word_ariths) simp
  ultimately show ?thesis unfolding hl using le_trans[of _ "unat (drop_bit 4 (b AND 0xf0)) * 4" 60] by fastforce
qed

lemma tcp_optlen:
  fixes hl :: u8
  assumes "unat hl \<le> 60"
  shows "hl - 20 > 40 \<longleftrightarrow> hl < 20" "\<not> hl < 20 \<Longrightarrow> unat (hl - 20) = unat hl - 20"
proof -
  have ge: "unat (hl - 20) = unat hl - 20" if "\<not> hl < 20"
    using that unat_sub[of 20 hl] by (simp add: word_le_nat_alt not_less)
  then show "\<not> hl < 20 \<Longrightarrow> unat (hl - 20) = unat hl - 20" .
  show "hl - 20 > 40 \<longleftrightarrow> hl < 20"
  proof (cases "hl < 20")
    case True
    then have "unat hl < 20" by (simp add: word_less_nat_alt)
    then have "unat (hl + 236) = unat hl + 236" using unat_word_ariths(1)[of hl 236] by simp
    moreover have "(236 :: u8) = - 20" by simp
    then have "hl + 236 = hl - 20" by (simp only: add_uminus_conv_diff)
    ultimately have "unat (hl - 20) = unat hl + 236" by (simp only:)
    then show ?thesis using True by (simp add: word_less_nat_alt)
  next
    case False
    then show ?thesis using ge assms by (simp add: word_less_nat_alt)
  qed
qed

text \<open>Claim C37: \<open>DecodeTCPPacket\<close> checks the header in full, and the wrap-around of the option length is
  harmless: on a cleared packet with the segment in the buffer it rejects exactly the segments shorter
  than 20 bytes, with a header length beyond the segment, or below 20 (where the 8-bit option length
  wraps to more than 40), each with its event; otherwise the options are those of the reference reading
  of the bytes between the fixed header and the payload, and payload and header make up the segment.\<close>

theorem tcp_packet_checks:
  assumes "unat len = length pkt" "length (tcp_opts (tcpvars p)) = TCP_OPTMAX" "20 \<le> length pkt \<longrightarrow> TCP_GET_HLEN pkt = Some hl"
  shows "case tcp_verdict C hl len of
      Some e \<Rightarrow> \<exists>q. DecodeTCPPacket C src_port dst_port (CLEAR_TCP_PACKET p) pkt len = Some (- 1, q) \<and>
        l4_events q = add_event e (l4_events p)
    | None \<Rightarrow> \<exists>q. DecodeTCPPacket C src_port dst_port (CLEAR_TCP_PACKET p) pkt len = Some (0, q) \<and>
        tcph q = Some pkt \<and> tcp_heads q = tlvs (take (unat hl - 20) (drop 20 pkt)) \<and>
        payload q = Some (drop (unat hl) pkt) \<and> unat (payload_len q) = length pkt - unat hl \<and>
        sp q = src_port pkt \<and> dp q = dst_port pkt \<and> l4_proto q = 6"
proof (cases "len < 20")
  case True
  then show ?thesis by (simp add: tcp_verdict_def DecodeTCPPacket_def ev_code_def tcp_fresh)
next
  case False
  then have hl: "TCP_GET_HLEN pkt = Some hl" using assms(1,3) by (simp add: word_less_nat_alt)
  have u: "unat (ucast hl :: u16) = unat hl" by (rule unat_ucast_up) simp
  note b = tcp_optlen[OF tcp_hlen_bound[OF hl]]
  consider "unat len < unat hl" | "unat hl \<le> unat len" "hl < 20" | "unat hl \<le> unat len" "\<not> hl < 20" by linarith
  then show ?thesis
  proof cases
    case 3
    let ?p = "(CLEAR_TCP_PACKET p)\<lparr>tcph := Some pkt, sp := src_port pkt, dp := dst_port pkt,
        tcpvars := (tcpvars (CLEAR_TCP_PACKET p))\<lparr>tcp_hlen := hl, tcp_opt_len := hl - 20\<rparr>\<rparr>"
    have uo: "unat (ucast (hl - 20) :: u16) = unat hl - 20"
      using b(2) 3 by (simp add: unat_ucast_up)
    have pay: "unat (len - ucast hl) = length pkt - unat hl"
      using 3(1) assms(1) u unat_sub[of "ucast hl" len] by (simp add: word_le_nat_alt)
    have fresh: "tcp_ptrs (tcpvars ?p) (tcp_heads ?p)" "tcp_heads ?p = []" "unat (tcp_opt_cnt (tcpvars ?p)) = 0"
      "length (tcp_opts (tcpvars ?p)) = 20"
      using tcp_fresh[of p] assms(2) by (simp_all add: tcp_ptrs_def tcp_heads_def TCP_OPTMAX_def)
    obtain r q where run: "DecodeTCPOptions C ?p (drop 20 pkt) (ucast (hl - 20)) = Some (r, q)" "l4_frame ?p q"
      "tcp_heads q = tlvs (take (unat hl - 20) (drop 20 pkt))"
    proof -
      have "unat (ucast (hl - 20) :: u16) \<le> length (drop 20 pkt)"
        "2 * unat (tcp_opt_cnt (tcpvars ?p)) + unat (ucast (hl - 20) :: u16) \<le> 40"
        unfolding uo fresh(3) using 3(1) assms(1) tcp_hlen_bound[OF hl] by simp_all
      from DecodeTCPOptions_spec[OF this(1) fresh(4) this(2) fresh(1), of C] show ?thesis
        unfolding fresh(2) uo using that by auto
    qed
    have q: "tcph q = Some pkt" "tcp_hlen (tcpvars q) = hl" "sp q = src_port pkt" "dp q = dst_port pkt"
      using run(2) by (simp_all add: l4_frame_def)
    have go: "\<not> len < ucast hl" "\<not> 40 < hl - 20" using 3 b(1) u by (simp_all add: word_less_nat_alt)
    have "DecodeTCPPacket C src_port dst_port (CLEAR_TCP_PACKET p) pkt len =
        (if hl - 20 > 0 then Some (0, q\<lparr>payload := Some (drop (unat hl) pkt), payload_len := len - ucast hl, l4_proto := 6\<rparr>)
         else Some (0, ?p\<lparr>payload := Some (drop (unat hl) pkt), payload_len := len - ucast hl, l4_proto := 6\<rparr>))"
      using False hl go run(1) q by (simp add: DecodeTCPPacket_def Let_def)
    moreover have "tcp_verdict C hl len = None" using False 3 by (simp add: tcp_verdict_def)
    moreover have "unat hl - 20 = 0" if "\<not> hl - 20 > 0" using that b(2) 3(2) by (simp add: word_less_nat_alt)
    moreover have "tcp_heads (x\<lparr>payload := a, payload_len := b, l4_proto := c\<rparr>) = tcp_heads x" for x a b c
      by (simp add: tcp_heads_def)
    ultimately show ?thesis using run(3) q pay fresh(2) by simp
  qed (use False hl u b in \<open>auto simp: tcp_verdict_def DecodeTCPPacket_def ev_code_def tcp_fresh word_less_nat_alt Let_def\<close>)
qed

lemma tcp_packet_checks_witness:
  "\<exists>q. DecodeTCPPacket tcp_codes0 (\<lambda>h. 80) (\<lambda>h. 1024) (CLEAR_TCP_PACKET l4_packet0)
      [0, 80, 4, 0, 0, 0, 0, 1, 0, 0, 0, 0, 0x60, 2, 1, 1, 0, 0, 0, 0, 2, 4, 5, 0xb4, 7, 7] 26 = Some (0, q) \<and>
    tcp_heads q = [(2, 4)] \<and> payload q = Some [7, 7] \<and> unat (payload_len q) = 2"
proof -
  let ?pkt = "[0, 80, 4, 0, 0, 0, 0, 1, 0, 0, 0, 0, 0x60, 2, 1, 1, 0, 0, 0, 0, 2, 4, 5, 0xb4, 7, 7] :: bytes"
  have hl: "TCP_GET_HLEN ?pkt = Some 24" by code_simp
  have arr: "length (tcp_opts (tcpvars l4_packet0)) = TCP_OPTMAX" by (simp add: l4_packet0_def TCP_OPTMAX_def)
  have len: "unat (26 :: u16) = length ?pkt" by simp
  have v: "tcp_verdict tcp_codes0 24 26 = None" by (simp add: tcp_verdict_def)
  have f: "tlvs (take (unat (24 :: u8) - 20) (drop 20 ?pkt)) = [(2, 4)]" "drop (unat (24 :: u8)) ?pkt = [7, 7]"
    "length ?pkt - unat (24 :: u8) = 2" by simp_all
  show ?thesis
    using tcp_packet_checks[OF len arr impI[OF hl], of tcp_codes0 "\<lambda>h. 80" "\<lambda>h. 1024"]
    unfolding v f option.case by blast
qed

text \<open>\<open>DecodeUDPPacket\<close> accepts a datagram in its buffer exactly when its length is at least 8
  and equal to the length field, and then the payload is the rest; it rejects every other one with the
  event of the first check that fails. \<open>DecodeUDP\<close> hands exactly the accepted ones to the flow layer.\<close>

theorem udp_packet_checks:
  assumes "unat len = length pkt" "8 \<le> length pkt \<longrightarrow> UDP_GET_LEN pkt = Some ul"
  shows "case udp_verdict ul len of
      Some e \<Rightarrow> \<exists>q. DecodeUDPPacket src_port dst_port p pkt len = Some (- 1, q) \<and>
        l4_events q = add_event e (l4_events p) \<and>
        DecodeUDP src_port dst_port flow app p pkt len = Some (q\<lparr>udph := None\<rparr>)
    | None \<Rightarrow> \<exists>q. DecodeUDPPacket src_port dst_port p pkt len = Some (0, q) \<and>
        payload q = Some (drop 8 pkt) \<and> unat (payload_len q) = length pkt - 8 \<and> udph q = Some pkt \<and>
        sp q = src_port pkt \<and> dp q = dst_port pkt \<and> l4_proto q = 17 \<and>
        DecodeUDP src_port dst_port flow app p pkt len =
          do { (f, r) \<leftarrow> flow q; if f then app r else Some r }"
proof -
  have l: "len < 8 \<longleftrightarrow> length pkt < 8" using assms(1) by (simp add: word_less_nat_alt)
  have "unat (len - 8) = length pkt - 8" if "\<not> len < 8"
    using that assms(1) unat_sub[of 8 len] by (simp add: word_le_nat_alt not_less)
  then show ?thesis using assms(2) l
    by (auto simp: udp_verdict_def DecodeUDPPacket_def DecodeUDP_def ev_code_def Let_def)
qed

lemma udp_packet_checks_witness:
  "\<exists>q. DecodeUDPPacket (\<lambda>h. 53) (\<lambda>h. 99) l4_packet0 [0, 53, 0, 99, 0, 9, 1, 1, 0xab] 9 = Some (0, q) \<and>
    payload q = Some [0xab] \<and> DecodeUDP (\<lambda>h. 53) (\<lambda>h. 99) (\<lambda>p. Some (True, p)) Some l4_packet0 [0, 53, 0, 99, 0, 9, 1, 1, 0xab] 9 = Some q"
proof -
  have "UDP_GET_LEN [0, 53, 0, 99, 0, 9, 1, 1, 0xab] = Some 9"
    by (simp add: UDP_GET_LEN_def rd16be_def rd8_def)
  moreover have "udp_verdict 9 9 = None" by (simp add: udp_verdict_def)
  ultimately show ?thesis
    using udp_packet_checks[of 9 "[0, 53, 0, 99, 0, 9, 1, 1, 0xab]" 9 "\<lambda>h. 53" "\<lambda>h. 99" l4_packet0 "\<lambda>p. Some (True, p)" Some]
    by auto
qed

end
