(* ===== verification/DecodeLorawan.thy ===== *)
theory DecodeLorawan
  imports PacketEvents
begin

text \<open>
  The LoRaWAN MAC decoder (\<open>src/decode-lorawan-Mac.c\<close>) and the guard in front of it in the two capture
  decoders (\<open>src/source-nfq.c\<close>, \<open>src/source-packetqueue.c\<close>). \<open>p->lorawanmvars\<close> is a pointer; the null
  pointer is \<open>None\<close>, and a write through it makes the result \<open>None\<close>. The frame decoder
  (\<open>DecodeLorawanFrame\<close>) and \<open>LORAWAN_MAC_TRIM_MIC\<close>, which shifts a pointer, are arguments.
\<close>

record lorawan_packet =
  lw_events :: packet_events
  lorawanmh :: "bytes option"
  lorawanmvars :: "u32 option"
  lorawanfh :: "bytes option"

definition lw_ev :: "decoder_event \<Rightarrow> lorawan_packet \<Rightarrow> lorawan_packet" where
  "lw_ev e p = p\<lparr>lw_events := add_event (event_code e) (lw_events p)\<rparr>"

definition LORAWAN_MAC_HEADER_LEN :: u16 where "LORAWAN_MAC_HEADER_LEN = 1"
definition LORAWAN_MAC_PAYLOAD_LEN_MIN :: u16 where "LORAWAN_MAC_PAYLOAD_LEN_MIN = 7"

text \<open>\<open>macpayload\<close> has the type \<open>unsigned int\<close>: \<open>addr\<close> gives the low 32 bits of a pointer.\<close>

definition DecodeLorawanMACPacket :: "(bytes \<Rightarrow> u32) \<Rightarrow> lorawan_packet \<Rightarrow> bytes \<Rightarrow> u16 \<Rightarrow> (int \<times> lorawan_packet) option" where
  "DecodeLorawanMACPacket addr p pkt len =
     (if len \<noteq> LORAWAN_MAC_HEADER_LEN then Some (- 1, lw_ev LORAWAN_HEADER_INVALID_LEN p)
      else (let p1 = p\<lparr>lorawanmh := Some pkt\<rparr> in
        case lorawanmvars p1 of
          None \<Rightarrow> None
        | Some _ \<Rightarrow> Some (0, p1\<lparr>lorawanmvars := Some (addr (drop 1 pkt))\<rparr>)))"

definition mtype :: "u8 \<Rightarrow> u8" where
  "mtype b = b AND 0x07"

text \<open>Case 0x05 falls through to 0x06, whose body is empty.\<close>

definition DecodeLorawanMAC :: "(bytes \<Rightarrow> u32) \<Rightarrow> (lorawan_packet \<Rightarrow> lorawan_packet)
    \<Rightarrow> (lorawan_packet \<Rightarrow> bytes \<Rightarrow> u16 \<Rightarrow> lorawan_packet option)
    \<Rightarrow> lorawan_packet \<Rightarrow> bytes \<Rightarrow> u16 \<Rightarrow> lorawan_packet option" where
  "DecodeLorawanMAC addr trim_mic frame p pkt len = do {
     (ret, p) \<leftarrow> DecodeLorawanMACPacket addr p pkt len;
     if ret < 0 then Some (p\<lparr>lorawanfh := None\<rparr>)
     else if len < LORAWAN_MAC_HEADER_LEN + LORAWAN_MAC_PAYLOAD_LEN_MIN then Some (lw_ev LORAWAN_PKT_TOO_SMALL p)
     else do {
       let p = trim_mic p;
       h \<leftarrow> lorawanmh p;
       b \<leftarrow> rd8 h 0;
       if mtype b = 0x05 then frame p pkt len else Some p
     }
   }"

definition PKT_IS_LORAWAN :: "lorawan_packet \<Rightarrow> bool" where
  "PKT_IS_LORAWAN p \<longleftrightarrow> lorawanmh p \<noteq> None"

text \<open>The dispatch of \<open>DecodeNFQ\<close> and \<open>DecodePacketQueue\<close>.\<close>

definition decode_dispatch :: "(lorawan_packet \<Rightarrow> bytes \<Rightarrow> u16 \<Rightarrow> lorawan_packet option)
    \<Rightarrow> lorawan_packet \<Rightarrow> bytes \<Rightarrow> u16 \<Rightarrow> lorawan_packet option" where
  "decode_dispatch mac p pkt len = (if PKT_IS_LORAWAN p then mac p pkt len else Some p)"

definition CLEAR_MAC_PACKET :: "lorawan_packet \<Rightarrow> lorawan_packet option" where
  "CLEAR_MAC_PACKET p = (case lorawanmvars p of None \<Rightarrow> None | Some _ \<Rightarrow> Some (p\<lparr>lorawanmvars := Some 0, lorawanmh := None\<rparr>))"

definition lorawan_packet0 :: lorawan_packet where
  "lorawan_packet0 = \<lparr>lw_events = Some fresh_events, lorawanmh = None, lorawanmvars = None, lorawanfh = None\<rparr>"

text \<open>The MAC decoder decodes nothing: whatever the frame decoder and the macro do, a packet
  whose length is not one byte is rejected with \<open>LORAWAN_HEADER_INVALID_LEN\<close>, and a packet of one byte
  is a write through the null pointer when \<open>lorawanmvars\<close> is not set (no code sets it) and
  \<open>LORAWAN_PKT_TOO_SMALL\<close> otherwise; and a fresh packet does not reach the decoder at all, because its
  guard asks for the header pointer that only the decoder sets.\<close>

theorem lorawan_mac_decodes_nothing:
  "DecodeLorawanMAC addr trim_mic frame p pkt len =
     (if len \<noteq> 1 then Some ((lw_ev LORAWAN_HEADER_INVALID_LEN p)\<lparr>lorawanfh := None\<rparr>)
      else map_option (\<lambda>_. lw_ev LORAWAN_PKT_TOO_SMALL
        (p\<lparr>lorawanmh := Some pkt, lorawanmvars := Some (addr (drop 1 pkt))\<rparr>)) (lorawanmvars p)) \<and>
   decode_dispatch mac lorawan_packet0 pkt len = Some lorawan_packet0"
  by (cases "lorawanmvars p")
    (simp_all add: DecodeLorawanMAC_def DecodeLorawanMACPacket_def LORAWAN_MAC_HEADER_LEN_def
      LORAWAN_MAC_PAYLOAD_LEN_MIN_def decode_dispatch_def PKT_IS_LORAWAN_def lorawan_packet0_def)

end
