(* ===== verification/Checksum.thy ===== *)
theory Checksum
  imports Prelude
begin

text \<open>
  The Internet checksums of \<open>decode-ipv4.h\<close>, \<open>decode-tcp.h\<close> and \<open>decode-udp.h\<close>:
  \<open>IPV4CalculateChecksum\<close>, \<open>TCPCalculateChecksum\<close>, \<open>TCPV6CalculateChecksum\<close>,
  \<open>UDPV4CalculateChecksum\<close> and \<open>UDPV6CalculateChecksum\<close>. The reference is RFC 1071: the
  complement of the one's complement sum of the 16-bit words. The C code adds the words into a 32-bit
  sum with unrolled loops and folds the carries back once; the theorems say exactly when one fold is
  enough and what the result is when it is not. Words are loaded in the order of a little endian machine.
\<close>

section \<open>The code\<close>

definition rd16 :: "bytes \<Rightarrow> nat \<Rightarrow> u16 option" where
  "rd16 b i = do {
     l \<leftarrow> rd8 b (2 * i);
     h \<leftarrow> rd8 b (2 * i + 1);
     Some (ucast l + 256 * ucast h)
   }"

text \<open>\<open>pkt[i] + pkt[j] + ...\<close>, added into the 32-bit sum.\<close>

fun add_words :: "bytes \<Rightarrow> nat list \<Rightarrow> u32 option" where
  "add_words b [] = Some 0"
| "add_words b (i # is) = do {
     w \<leftarrow> rd16 b i;
     s \<leftarrow> add_words b is;
     Some (ucast w + s)
   }"

definition htons :: "u16 \<Rightarrow> u16" where
  "htons w = push_bit 8 w OR drop_bit 8 w"

text \<open>\<open>csum = (csum >> 16) + (csum & 0x0000FFFF); return (uint16_t) ~csum;\<close>\<close>

definition fold_once :: "u32 \<Rightarrow> u16" where
  "fold_once csum = ucast (NOT (drop_bit 16 csum + (csum AND 0x0000FFFF)))"

definition IPV4CalculateChecksum :: "bytes \<Rightarrow> u16 \<Rightarrow> u16 option" where
  "IPV4CalculateChecksum pkt hlen = do {
     c0 \<leftarrow> add_words pkt [0];
     c1 \<leftarrow> add_words pkt [1, 2, 3, 4, 6, 7, 8, 9];
     let csum = c0 + c1;
     let hlen = hlen - 20;
     let pkt = drop 20 pkt;
     c2 \<leftarrow> (if hlen = 4 then add_words pkt [0, 1]
           else if hlen = 8 then add_words pkt [0, 1, 2, 3]
           else if hlen = 12 then add_words pkt [0, 1, 2, 3, 4, 5]
           else if hlen = 16 then add_words pkt [0, 1, 2, 3, 4, 5, 6, 7]
           else if hlen = 20 then add_words pkt [0, 1, 2, 3, 4, 5, 6, 7, 8, 9]
           else if hlen = 24 then add_words pkt [0, 1, 2, 3, 4, 5, 6, 7, 8, 9, 10, 11]
           else if hlen = 28 then add_words pkt [0, 1, 2, 3, 4, 5, 6, 7, 8, 9, 10, 11, 12, 13]
           else if hlen = 32 then add_words pkt [0, 1, 2, 3, 4, 5, 6, 7, 8, 9, 10, 11, 12, 13, 14, 15]
           else if hlen = 36 then add_words pkt [0, 1, 2, 3, 4, 5, 6, 7, 8, 9, 10, 11, 12, 13, 14, 15, 16, 17]
           else if hlen = 40 then add_words pkt [0, 1, 2, 3, 4, 5, 6, 7, 8, 9, 10, 11, 12, 13, 14, 15, 16, 17, 18, 19]
           else Some 0);
     Some (fold_once (csum + c2))
   }"

text \<open>
  The loop \<open>while (tlen >= 2 * k) { csum += pkt[0] + ... + pkt[k - 1]; tlen -= 2 * k; pkt += k; }\<close>,
  which the transport checksums run for \<open>k\<close> = 16, 4, 2 and 1.
\<close>

function words_loop :: "nat \<Rightarrow> u32 \<Rightarrow> bytes \<Rightarrow> u16 \<Rightarrow> (u32 \<times> bytes \<times> u16) option" where
  "words_loop k csum pkt tlen =
     (if k = 0 \<or> unat tlen < 2 * k then Some (csum, pkt, tlen)
      else (case add_words pkt [0..<k] of
        None \<Rightarrow> None
      | Some s \<Rightarrow> words_loop k (csum + s) (drop (2 * k) pkt) (tlen - of_nat (2 * k))))"
  by pat_completeness auto

lemma unat_minus_small: "n \<le> unat (w :: u16) \<Longrightarrow> unat (w - of_nat n) = unat w - n"
proof -
  assume n: "n \<le> unat w"
  then have "n < 65536" using unat_bound[of w] by simp
  then have "unat (of_nat n :: u16) = n" by (simp add: unat_of_nat)
  then show ?thesis using n by (simp add: unat_sub word_le_nat_alt)
qed

termination words_loop
proof (relation "measure (\<lambda>(k, csum, pkt, tlen). unat tlen)", goal_cases)
  case 1
  then show ?case by simp
next
  case (2 k csum pkt tlen s)
  then show ?case using unat_minus_small[of "2 * k" tlen] by simp
qed

declare words_loop.simps [simp del]

text \<open>The end of the four transport checksums: the loops, the odd byte, the fold.\<close>

definition csum_tail :: "u32 \<Rightarrow> bytes \<Rightarrow> u16 \<Rightarrow> u16 option" where
  "csum_tail csum pkt tlen = do {
     (csum, pkt, tlen) \<leftarrow> words_loop 16 csum pkt tlen;
     (csum, pkt, tlen) \<leftarrow> words_loop 4 csum pkt tlen;
     (csum, pkt, tlen) \<leftarrow> words_loop 2 csum pkt tlen;
     (csum, pkt, tlen) \<leftarrow> words_loop 1 csum pkt tlen;
     csum \<leftarrow> (if tlen = 1 then do { b \<leftarrow> rd8 pkt 0; Some (csum + ucast b) } else Some csum);
     Some (fold_once csum)
   }"

definition TCPCalculateChecksum :: "bytes \<Rightarrow> bytes \<Rightarrow> u16 \<Rightarrow> u16 option" where
  "TCPCalculateChecksum shdr pkt tlen = do {
     c0 \<leftarrow> add_words shdr [0];
     c1 \<leftarrow> add_words shdr [1, 2, 3];
     c2 \<leftarrow> add_words pkt [0, 1, 2, 3, 4, 5, 6, 7, 9];
     csum_tail (c0 + (c1 + ucast (htons (6 + tlen))) + c2) (drop 20 pkt) (tlen - 20)
   }"

definition TCPV6CalculateChecksum :: "bytes \<Rightarrow> bytes \<Rightarrow> u16 \<Rightarrow> u16 option" where
  "TCPV6CalculateChecksum shdr pkt tlen = do {
     c0 \<leftarrow> add_words shdr [0];
     c1 \<leftarrow> add_words shdr [1, 2, 3, 4, 5, 6, 7, 8, 9, 10, 11, 12, 13, 14, 15];
     c2 \<leftarrow> add_words pkt [0, 1, 2, 3, 4, 5, 6, 7, 9];
     csum_tail (c0 + (c1 + ucast (htons (6 + tlen))) + c2) (drop 20 pkt) (tlen - 20)
   }"

definition UDPV4CalculateChecksum :: "bytes \<Rightarrow> bytes \<Rightarrow> u16 \<Rightarrow> u16 option" where
  "UDPV4CalculateChecksum shdr pkt tlen = do {
     c0 \<leftarrow> add_words shdr [0];
     c1 \<leftarrow> add_words shdr [1, 2, 3];
     c2 \<leftarrow> add_words pkt [0, 1, 2];
     csum_tail (c0 + (c1 + ucast (htons (17 + tlen))) + c2) (drop 8 pkt) (tlen - 8)
   }"

definition UDPV6CalculateChecksum :: "bytes \<Rightarrow> bytes \<Rightarrow> u16 \<Rightarrow> u16 option" where
  "UDPV6CalculateChecksum shdr pkt tlen = do {
     c0 \<leftarrow> add_words shdr [0];
     c1 \<leftarrow> add_words shdr [1, 2, 3, 4, 5, 6, 7, 8, 9, 10, 11, 12, 13, 14, 15];
     c2 \<leftarrow> add_words pkt [0, 1, 2];
     csum_tail (c0 + (c1 + ucast (htons (17 + tlen))) + c2) (drop 8 pkt) (tlen - 8)
   }"

section \<open>The reference: RFC 1071\<close>

text \<open>The words of a buffer, an odd last byte padded with zero.\<close>

fun words_of :: "bytes \<Rightarrow> u16 list" where
  "words_of (l # h # r) = (ucast l + 256 * ucast h) # words_of r"
| "words_of [l] = [ucast l]"
| "words_of [] = []"

text \<open>Addition with end-around carry.\<close>

definition ones_add :: "u16 \<Rightarrow> u16 \<Rightarrow> u16" where
  "ones_add a b = (if unat a + unat b < 2 ^ 16 then a + b else a + b + 1)"

definition rfc1071 :: "u16 list \<Rightarrow> u16" where
  "rfc1071 ws = NOT (foldr ones_add ws 0)"

text \<open>The first \<open>n\<close> bytes of a packet with the checksum field at \<open>at\<close> taken as zero.\<close>

definition zeroed :: "nat \<Rightarrow> nat \<Rightarrow> bytes \<Rightarrow> bytes" where
  "zeroed at n pkt = take at pkt @ [0, 0] @ drop (at + 2) (take n pkt)"

text \<open>The pseudo header of the transport checksums: the addresses, the protocol and the length.\<close>

definition pseudo :: "nat \<Rightarrow> u8 \<Rightarrow> bytes \<Rightarrow> u16 \<Rightarrow> u16 list" where
  "pseudo n proto shdr tlen = words_of (take n shdr @ [0, proto, ucast (drop_bit 8 tlen), ucast tlen])"

text \<open>
  The carry that one fold leaves behind: the two halves of the 32-bit sum of the words add up to more
  than 16 bits.
\<close>

definition nsum :: "u16 list \<Rightarrow> nat" where
  "nsum ws = sum_list (map unat ws)"

definition lost_carry :: "u16 list \<Rightarrow> u16" where
  "lost_carry ws = (if nsum ws div 2 ^ 16 + nsum ws mod 2 ^ 16 < 2 ^ 16 then 0 else 1)"

section \<open>The sum of words\<close>

definition word_at :: "bytes \<Rightarrow> nat \<Rightarrow> u16" where
  "word_at b i = ucast (b ! (2 * i)) + 256 * ucast (b ! (2 * i + 1))"

definition wsum :: "u16 list \<Rightarrow> u32" where
  "wsum ws = sum_list (map ucast ws)"

lemma wsum_simps [simp]:
  "wsum [] = 0" "wsum (w # ws) = ucast w + wsum ws" "wsum (a @ b) = wsum a + wsum b"
  by (simp_all add: wsum_def)

lemma rd16_Some: "2 * i + 1 < length b \<Longrightarrow> rd16 b i = Some (word_at b i)"
  by (simp add: rd16_def rd8_def word_at_def)

lemma add_words_Some:
  "list_all (\<lambda>i. 2 * i + 1 < length b) is \<Longrightarrow> add_words b is = Some (wsum (map (word_at b) is))"
  by (induction "is") (simp_all add: rd16_Some)

lemma words_of_append: "even (length a) \<Longrightarrow> words_of (a @ b) = words_of a @ words_of b"
  by (induction a rule: words_of.induct) auto

lemma words_of_take: "2 * k \<le> length b \<Longrightarrow> words_of (take (2 * k) b) = map (word_at b) [0..<k]"
proof (induction k)
  case (Suc k)
  have "take (2 * Suc k) b = take (2 * k) b @ [b ! (2 * k), b ! (2 * k + 1)]"
    using Suc.prems by (simp add: take_Suc_conv_app_nth)
  then show ?case using Suc by (simp add: words_of_append word_at_def)
qed simp

lemma words_of_split: "2 * k \<le> n \<Longrightarrow> n \<le> length b \<Longrightarrow>
    words_of (take n b) = map (word_at b) [0..<k] @ words_of (take (n - 2 * k) (drop (2 * k) b))"
proof -
  assume le: "2 * k \<le> n" "n \<le> length b"
  have "take n b = take (2 * k) b @ take (n - 2 * k) (drop (2 * k) b)"
    using le(1) take_add[of "2 * k" "n - 2 * k" b] by simp
  then show ?thesis using le by (simp add: words_of_append words_of_take)
qed

lemma ucast_8_16_32: "(ucast (ucast (b :: u8) :: u16) :: u32) = ucast b"
  by (simp add: unat_ucast_up flip: unat_eq_iff)

section \<open>The unrolled loops\<close>

lemma words_loop_spec:
  assumes "0 < k" "unat tlen \<le> length pkt"
  shows "\<exists>c' p' t'. words_loop k csum pkt tlen = Some (c', p', t') \<and> unat t' \<le> length p' \<and> unat t' < 2 * k \<and>
    csum + wsum (words_of (take (unat tlen) pkt)) = c' + wsum (words_of (take (unat t') p'))"
  using assms
proof (induction k csum pkt tlen rule: words_loop.induct)
  case (1 k csum pkt tlen)
  show ?case
  proof (cases "unat tlen < 2 * k")
    case True
    then show ?thesis using 1(3) by (simp add: words_loop.simps)
  next
    case False
    let ?s = "wsum (map (word_at pkt) [0..<k])"
    have add: "add_words pkt [0..<k] = Some ?s"
      by (rule add_words_Some) (use False 1(3) in \<open>auto simp: list_all_iff\<close>)
    have u: "unat (tlen - of_nat (2 * k)) = unat tlen - 2 * k"
      by (rule unat_minus_small) (use False in simp)
    have "unat (tlen - of_nat (2 * k)) \<le> length (drop (2 * k) pkt)"
      unfolding u using 1(3) by simp
    moreover have "\<not> (k = 0 \<or> unat tlen < 2 * k)" using False 1(2) by simp
    ultimately obtain c' p' t' where IH:
      "words_loop k (csum + ?s) (drop (2 * k) pkt) (tlen - of_nat (2 * k)) = Some (c', p', t')"
      "unat t' \<le> length p'" "unat t' < 2 * k"
      "csum + ?s + wsum (words_of (take (unat tlen - 2 * k) (drop (2 * k) pkt))) = c' + wsum (words_of (take (unat t') p'))"
      using 1(1)[OF _ add] 1(2) unfolding u by blast
    have "words_loop k csum pkt tlen = Some (c', p', t')"
      using IH(1) False 1(2) add by (subst words_loop.simps) simp
    then show ?thesis using IH(2-4) False 1(3) words_of_split[of k "unat tlen" pkt]
      by (auto simp: algebra_simps)
  qed
qed

lemma csum_tail_Some:
  assumes "unat tlen \<le> length pkt"
  shows "csum_tail csum pkt tlen = Some (fold_once (csum + wsum (words_of (take (unat tlen) pkt))))"
proof -
  obtain c1 p1 t1 where 1: "words_loop 16 csum pkt tlen = Some (c1, p1, t1)" "unat t1 \<le> length p1"
    "csum + wsum (words_of (take (unat tlen) pkt)) = c1 + wsum (words_of (take (unat t1) p1))"
    using words_loop_spec[of 16 tlen pkt csum] assms by auto
  obtain c2 p2 t2 where 2: "words_loop 4 c1 p1 t1 = Some (c2, p2, t2)" "unat t2 \<le> length p2"
    "c1 + wsum (words_of (take (unat t1) p1)) = c2 + wsum (words_of (take (unat t2) p2))"
    using words_loop_spec[of 4 t1 p1 c1] 1(2) by auto
  obtain c3 p3 t3 where 3: "words_loop 2 c2 p2 t2 = Some (c3, p3, t3)" "unat t3 \<le> length p3"
    "c2 + wsum (words_of (take (unat t2) p2)) = c3 + wsum (words_of (take (unat t3) p3))"
    using words_loop_spec[of 2 t2 p2 c2] 2(2) by auto
  obtain c4 p4 t4 where 4: "words_loop 1 c3 p3 t3 = Some (c4, p4, t4)" "unat t4 \<le> length p4" "unat t4 < 2"
    "c3 + wsum (words_of (take (unat t3) p3)) = c4 + wsum (words_of (take (unat t4) p4))"
    using words_loop_spec[of 1 t3 p3 c3] 3(2) by auto
  have "csum_tail csum pkt tlen = Some (fold_once (c4 + wsum (words_of (take (unat t4) p4))))"
  proof (cases "t4 = 1")
    case True
    then obtain x r where "p4 = x # r" using 4(2) by (cases p4) auto
    then show ?thesis using True 1(1) 2(1) 3(1) 4(1)
      by (simp add: csum_tail_def rd8_def ucast_8_16_32)
  next
    case False
    then have "unat t4 = 0" using 4(3) unat_eq_iff[of t4 1] by simp
    then show ?thesis using False 1(1) 2(1) 3(1) 4(1) by (simp add: csum_tail_def)
  qed
  then show ?thesis using 1(3) 2(3) 3(3) 4(4) by simp
qed

section \<open>One fold against the end-around carry\<close>

definition rep :: "nat \<Rightarrow> nat" where
  "rep s = (if s = 0 then 0 else (s - 1) mod 65535 + 1)"

lemma rep_less: "rep s < 65536"
  using mod_less_divisor[of 65535 "s - 1"] unfolding rep_def by (simp only: split: if_splits) linarith

lemma rep_small: "s < 65536 \<Longrightarrow> rep s = s"
  by (simp add: rep_def)

lemma rep_shift: "0 < s \<Longrightarrow> rep (s + 65535 * q) = rep s"
proof -
  assume "0 < s"
  then obtain r where "s = Suc r" by (cases s) auto
  then show ?thesis by (simp add: rep_def)
qed

lemma rep_add: "rep (a + rep b) = rep (a + b)"
proof (cases "b = 0")
  case False
  then have "b = (b - 1) mod 65535 + 1 + 65535 * ((b - 1) div 65535)"
    using mod_mult_div_eq[of "b - 1" 65535] by linarith
  then have "a + b = a + rep b + 65535 * ((b - 1) div 65535)" using False by (simp add: rep_def)
  moreover have "0 < rep b" using False by (simp add: rep_def)
  ultimately show ?thesis using rep_shift[of "a + rep b" "(b - 1) div 65535"] by (simp only: add_gr_0) simp
qed (simp add: rep_def)

lemma unat_ones_add: "unat (ones_add a b) = rep (unat a + unat b)"
proof -
  have lt: "unat a < 65536" "unat b < 65536" using unat_bound[of a] unat_bound[of b] by simp_all
  show ?thesis
  proof (cases "unat a + unat b < 65536")
    case True
    then show ?thesis by (simp add: ones_add_def rep_small unat_add_lem[THEN iffD1])
  next
    case False
    have "unat (a + b + 1) = (unat a + unat b + 1) mod 65536"
      by (simp add: unat_word_ariths mod_simps)
    also have "\<dots> = unat a + unat b - 65535" using False lt by (simp add: mod_if)
    also have "\<dots> = rep (unat a + unat b)"
      using False lt rep_shift[of "unat a + unat b - 65535" 1] by (simp add: rep_small)
    finally show ?thesis using False by (simp add: ones_add_def)
  qed
qed

lemma unat_ones_sum: "unat (foldr ones_add ws 0) = rep (nsum ws)"
proof (induction ws)
  case Nil
  then show ?case by (simp add: nsum_def rep_def)
next
  case (Cons w ws)
  then show ?case by (simp add: nsum_def unat_ones_add rep_add)
qed

lemma rep_fold:
  assumes "q \<le> 65535" "r < 65536"
  shows "rep (65536 * q + r) = (if q + r < 65536 then q + r else q + r - 65535)"
proof -
  have low: "65536 * q + r = (q + r) + 65535 * q" by simp
  show ?thesis
  proof (cases "q + r < 65536")
    case True
    show ?thesis
    proof (cases "q + r = 0")
      case False
      then show ?thesis unfolding low using True rep_shift[of "q + r" q] rep_small[of "q + r"] by simp
    qed (simp add: rep_def)
  next
    case False
    then have "65536 * q + r = (q + r - 65535) + 65535 * Suc q" by simp
    moreover have "0 < q + r - 65535" "q + r - 65535 < 65536" using False assms by simp_all
    ultimately show ?thesis
      using False rep_shift[of "q + r - 65535" "Suc q"] rep_small[of "q + r - 65535"] by metis
  qed
qed

lemma ucast_of_nat_32_16: "(ucast (of_nat n :: u32) :: u16) = of_nat n"
  by (simp add: unat_of_nat unsigned_ucast_eq take_bit_eq_mod mod_mod_cancel flip: unat_eq_iff)

lemma ucast_NOT_32_16: "(ucast (NOT (c :: u32)) :: u16) = NOT (ucast c)"
  by (rule bit_word_eqI) (auto simp: bit_simps)

lemma fold_once_nat:
  "fold_once c = NOT (of_nat (unat c div 2 ^ 16 + unat c mod 2 ^ 16))"
proof -
  have "c AND 0x0000FFFF = take_bit 16 c" by (simp add: take_bit_eq_mask mask_eq_exp_minus_1)
  moreover have "take_bit 16 c = of_nat (unat c mod 2 ^ 16)"
    by (simp add: unat_of_nat take_bit_eq_mod unat_mod_distrib mod_simps flip: unat_eq_iff)
  moreover have "drop_bit 16 c = of_nat (unat c div 2 ^ 16)"
    using unat_bound[of c] by (simp add: unat_of_nat drop_bit_eq_div unat_div_distrib flip: unat_eq_iff)
  ultimately have "drop_bit 16 c + (c AND 0x0000FFFF) = of_nat (unat c div 2 ^ 16 + unat c mod 2 ^ 16)"
    by simp
  then show ?thesis by (simp only: fold_once_def ucast_NOT_32_16 ucast_of_nat_32_16)
qed

lemma nsum_bound: "nsum ws \<le> 65535 * length ws"
proof (induction ws)
  case (Cons w ws)
  then show ?case using unat_bound[of w] by (simp add: nsum_def)
qed (simp add: nsum_def)

lemma unat_wsum: "length ws \<le> 65536 \<Longrightarrow> unat (wsum ws) = nsum ws"
proof (induction ws)
  case (Cons w ws)
  have "unat w + nsum ws < 4294967296"
    using nsum_bound[of "w # ws"] Cons.prems by (simp add: nsum_def)
  then show ?case using Cons by (simp add: unat_word_ariths unat_ucast_up nsum_def)
qed (simp add: nsum_def)

text \<open>The whole point: a single fold is the one's complement sum, unless it leaves a carry behind.\<close>

lemma fold_once_rfc:
  assumes "length ws \<le> 65536"
  shows "fold_once (wsum ws) = rfc1071 ws + lost_carry ws"
proof -
  let ?S = "nsum ws" and ?F = "nsum ws div 2 ^ 16 + nsum ws mod 2 ^ 16"
  have code: "fold_once (wsum ws) = NOT (of_nat ?F)" by (simp add: fold_once_nat unat_wsum[OF assms])
  have ref: "rfc1071 ws = NOT (of_nat (rep ?S))"
    using unat_ones_sum[of ws] unfolding rfc1071_def by (metis of_nat_unat ucast_id)
  let ?q = "nsum ws div 2 ^ 16" and ?r = "nsum ws mod 2 ^ 16"
  have q: "?q \<le> 65535"
    using nsum_bound[of ws] assms by (simp add: less_Suc_eq_le[symmetric] div_less_iff_less_mult)
  then have rep: "rep ?S = (if ?q + ?r < 65536 then ?q + ?r else ?q + ?r - 65535)"
    using rep_fold[of ?q ?r] by simp
  show ?thesis
  proof (cases "?q + ?r < 65536")
    case True
    then show ?thesis using code ref rep by (simp add: lost_carry_def)
  next
    case False
    then have "?F = rep ?S + 65535" using rep by simp
    then have "(of_nat ?F :: u16) = of_nat (rep ?S) - 1" by (simp only: of_nat_add) simp
    then show ?thesis using False code ref by (simp add: lost_carry_def not_eq_complement)
  qed
qed

section \<open>The five checksums\<close>

lemma word_at_drop: "2 * j \<le> length b \<Longrightarrow> word_at (drop (2 * j) b) i = word_at b (j + i)"
  by (simp add: word_at_def algebra_simps)

lemma words_of_zeroed:
  assumes "a < b" "2 * b \<le> n" "n \<le> length pkt"
  shows "words_of (zeroed (2 * a) n pkt) =
    map (word_at pkt) [0..<a] @ 0 # map (word_at pkt) [Suc a..<b] @ words_of (take (n - 2 * b) (drop (2 * b) pkt))"
proof -
  let ?p = "drop (2 * a + 2) pkt"
  have "words_of (take (n - (2 * a + 2)) ?p) = map (word_at ?p) [0..<b - Suc a] @
      words_of (take (n - (2 * a + 2) - 2 * (b - Suc a)) (drop (2 * (b - Suc a)) ?p))"
    using assms by (intro words_of_split) auto
  moreover have "map (word_at ?p) [0..<b - Suc a] = map (word_at pkt) [Suc a..<b]"
    using assms word_at_drop[of "Suc a" pkt] by (intro nth_equalityI) auto
  moreover have "n - (2 * a + 2) - 2 * (b - Suc a) = n - 2 * b" "2 * (b - Suc a) + (2 * a + 2) = 2 * b"
    using assms by auto
  ultimately have "words_of (drop (2 * a + 2) (take n pkt)) =
      map (word_at pkt) [Suc a..<b] @ words_of (take (n - 2 * b) (drop (2 * b) pkt))"
    by (simp add: drop_take)
  then show ?thesis using assms by (simp add: zeroed_def words_of_append words_of_take)
qed

lemma nsum_simps [simp]:
  "nsum [] = 0" "nsum (w # ws) = unat w + nsum ws" "nsum (a @ b) = nsum a + nsum b"
  by (simp_all add: nsum_def)

lemma length_words_of: "length (words_of b) = (length b + 1) div 2"
  by (induction b rule: words_of.induct) auto

lemma length_zeroed: "at + 2 \<le> n \<Longrightarrow> n \<le> length pkt \<Longrightarrow> length (words_of (zeroed at n pkt)) = (n + 1) div 2"
  unfolding length_words_of by (simp add: zeroed_def)

lemma wsum_zero [simp]: "wsum (0 # ws) = wsum ws"
  by simp

lemma unat_htons: "unat (htons w) = 256 * (unat w mod 256) + unat w div 256"
proof -
  have "htons w = push_bit 8 w + drop_bit 8 w"
    unfolding htons_def by (rule disjunctive_add [symmetric]) (auto simp: bit_simps dest: bit_imp_le_length)
  moreover have "unat (push_bit 8 w) = 256 * (unat w mod 256)"
    using unat_word_ariths(2)[of w "256"] by (simp add: push_bit_eq_mult mult_mod_right mult.commute)
  moreover have "unat (drop_bit 8 w) = unat w div 256"
    by (simp add: drop_bit_eq_div unat_div_distrib)
  moreover have "unat w div 256 < 256" "unat w mod 256 < 256" using unat_bound[of w] by simp_all
  ultimately show ?thesis by (simp add: unat_add_lem[THEN iffD1])
qed

text \<open>Claim C35: The header checksum is RFC 1071 up to a lost carry: for every header length from 20 to 60
  in steps of four, with the header in the buffer, \<open>IPV4CalculateChecksum\<close> returns the complement of
  the one's complement sum of the header with its checksum field taken as zero, plus one exactly when
  the single fold leaves a carry.\<close>

theorem ipv4_checksum_rfc1071:
  assumes "unat hlen = 20 + 4 * k" "k \<le> 10" "unat hlen \<le> length pkt"
  shows "IPV4CalculateChecksum pkt hlen =
    Some (rfc1071 (words_of (zeroed 10 (unat hlen) pkt)) + lost_carry (words_of (zeroed 10 (unat hlen) pkt)))"
proof -
  let ?W = "words_of (zeroed 10 (unat hlen) pkt)" and ?p = "drop 20 pkt"
  have "[0..<5] = [0, 1, 2, 3, 4]" "[Suc 5..<10] = [6, 7, 8, 9]" by (simp_all add: upt_rec)
  then have "?W = map (word_at pkt) [0, 1, 2, 3, 4] @ 0 # map (word_at pkt) [6, 7, 8, 9] @
      words_of (take (2 * (2 * k)) ?p)"
    using words_of_zeroed[of 5 10 "unat hlen" pkt] assms by simp
  moreover have "words_of (take (2 * (2 * k)) ?p) = map (word_at ?p) [0..<2 * k]"
    by (rule words_of_take) (use assms in simp)
  ultimately have W: "wsum ?W = wsum (map (word_at pkt) [0, 1, 2, 3, 4, 6, 7, 8, 9]) + wsum (map (word_at ?p) [0..<2 * k])"
    by simp
  have add: "add_words ?p js = Some (wsum (map (word_at ?p) js))" if "list_all (\<lambda>i. i < 2 * k) js" for js
    by (rule add_words_Some) (use that assms in \<open>auto simp: list_all_iff\<close>)
  have heads: "add_words pkt [0] = Some (wsum (map (word_at pkt) [0]))"
    "add_words pkt [1, 2, 3, 4, 6, 7, 8, 9] = Some (wsum (map (word_at pkt) [1, 2, 3, 4, 6, 7, 8, 9]))"
    by (rule add_words_Some; use assms in simp)+
  have "unat (hlen - 20) = 4 * k" using unat_minus_small[of 20 hlen] assms(1) by simp
  then have hl: "hlen - 20 = of_nat (4 * k)" by (metis of_nat_unat ucast_id)
  have "k = 0 \<or> k = 1 \<or> k = 2 \<or> k = 3 \<or> k = 4 \<or> k = 5 \<or> k = 6 \<or> k = 7 \<or> k = 8 \<or> k = 9 \<or> k = 10"
    using assms(2) by presburger
  then have "IPV4CalculateChecksum pkt hlen = Some (fold_once (wsum (map (word_at pkt) [0]) +
      wsum (map (word_at pkt) [1, 2, 3, 4, 6, 7, 8, 9]) + wsum (map (word_at ?p) [0..<2 * k])))"
    unfolding IPV4CalculateChecksum_def heads hl
    by (elim disjE) (simp_all add: add upt_rec Let_def numeral_2_eq_2[symmetric] del: add_words.simps)
  then have "IPV4CalculateChecksum pkt hlen = Some (fold_once (wsum ?W))"
    unfolding W by (simp add: add.assoc)
  moreover have "length ?W \<le> 65536" using assms by (simp add: length_zeroed)
  ultimately show ?thesis by (simp add: fold_once_rfc)
qed


lemma ipv4_checksum_rfc1071_witness:
  "IPV4CalculateChecksum [0x45, 0, 0, 20, 0, 1, 0x40, 0, 64, 6, 0xab, 0xcd, 10, 0, 0, 1, 10, 0, 0, 2] 20 =
    Some (rfc1071 [0x45, 0x1400, 0x100, 0x40, 0x640, 0, 0xa, 0x100, 0xa, 0x200])"
proof -
  have "words_of (zeroed 10 20 [0x45, 0, 0, 20, 0, 1, 0x40, 0, 64, 6, 0xab, 0xcd, 10, 0, 0, 1, 10, 0, 0, 2]) =
      [0x45, 0x1400, 0x100, 0x40, 0x640, 0, 0xa, 0x100, 0xa, 0x200]"
    by (simp add: zeroed_def)
  moreover have "lost_carry [0x45, 0x1400, 0x100, 0x40, 0x640, 0, 0xa, 0x100, 0xa, 0x200] = 0"
    by (simp add: lost_carry_def)
  ultimately show ?thesis
    using ipv4_checksum_rfc1071[of 20 0 "[0x45, 0, 0, 20, 0, 1, 0x40, 0, 64, 6, 0xab, 0xcd, 10, 0, 0, 1, 10, 0, 0, 2]"]
    by simp
qed

lemma unat_le_word: "unat (ucast (l :: u8) + 256 * ucast (h :: u8) :: u16) = unat l + 256 * unat h"
proof -
  have "unat l < 256" "unat h < 256" using unat_bound[of l] unat_bound[of h] by simp_all
  then show ?thesis by (simp add: unat_word_ariths unat_ucast_up)
qed

lemma rfc1071_cong: "rep (nsum a) = rep (nsum b) \<Longrightarrow> rfc1071 a = rfc1071 b"
  using unat_ones_sum[of a] unat_ones_sum[of b] by (metis rfc1071_def unat_eq_iff)

text \<open>
  The code adds protocol and length before it swaps the bytes, RFC 1071 after: the two words differ by
  a multiple of 65535.
\<close>

lemma pseudo_rfc:
  assumes "even n" "n \<le> length shdr" "unat proto + unat tlen < 65536" "0 < proto"
  shows "rfc1071 (words_of (take n shdr) @ htons (ucast proto + tlen) # ws) = rfc1071 (pseudo n proto shdr tlen @ ws)"
proof (rule rfc1071_cong)
  let ?t = "unat tlen" and ?p = "unat proto" and ?m = "nsum (words_of (take n shdr)) + nsum ws"
  have p: "0 < ?p" "?p < 256" using assms(4) unat_bound[of proto] unat_gt_0[of proto] by auto
  have sum: "unat (ucast proto + tlen) = ?p + ?t"
    using assms(3) by (simp add: unat_add_lem[THEN iffD1] unat_ucast_up)
  have code: "unat (htons (ucast proto + tlen)) = 256 * ((?p + ?t) mod 256) + (?p + ?t) div 256"
    by (simp add: unat_htons sum)
  have ref: "nsum (words_of [0, proto, ucast (drop_bit 8 tlen), ucast tlen]) = 256 * ?p + 256 * (?t mod 256) + ?t div 256"
  proof -
    have "unat (ucast (drop_bit 8 tlen) :: u8) = ?t div 256" "unat (ucast tlen :: u8) = ?t mod 256"
      using unat_bound[of tlen]
      by (simp_all add: unsigned_ucast_eq take_bit_eq_mod drop_bit_eq_div unat_div_distrib)
    then show ?thesis by (simp only: words_of.simps nsum_simps unat_le_word) simp
  qed
  have "nsum (pseudo n proto shdr tlen @ ws) = ?m + (256 * ?p + 256 * (?t mod 256) + ?t div 256)"
    using assms(1,2) ref by (simp add: pseudo_def words_of_append)
  moreover have "nsum (words_of (take n shdr) @ htons (ucast proto + tlen) # ws)
      = ?m + (256 * ((?p + ?t) mod 256) + (?p + ?t) div 256)"
    by (simp add: code)
  moreover have "256 * ((p + t) mod 256) + (p + t) div 256 + 65535 * ((p + t) div 256 - t div 256)
      = 256 * p + 256 * (t mod 256) + t div 256" if "p < 256" for p t :: nat
  proof -
    define h l where "h = t div 256" and "l = t mod 256"
    have t: "t = 256 * h + l" "l < 256" by (simp_all add: h_def l_def)
    have dm: "(256 * h + n) div 256 = h \<and> (256 * h + n) mod 256 = n" if "n < 256" for h n :: nat
      using that by simp
    show ?thesis
    proof (cases "p + l < 256")
      case True
      moreover have "p + t = 256 * h + (p + l)" using t by simp
      ultimately have "(p + t) div 256 = h" "(p + t) mod 256 = p + l" using dm by metis+
      then show ?thesis by (simp add: h_def[symmetric] l_def[symmetric])
    next
      case False
      then have eq: "p + t = 256 * (h + 1) + (p + l - 256)" "p + l - 256 < 256"
        using that t by simp_all
      then have "(p + t) div 256 = h + 1" "(p + t) mod 256 = p + l - 256" using dm by metis+
      then show ?thesis using False by (simp add: h_def[symmetric] l_def[symmetric])
    qed
  qed
  moreover have "0 < 256 * ((p + t) mod 256) + (p + t) div 256" if "0 < p" for p t :: nat
    using that mod_div_mult_eq[of "p + t" 256] by (cases "(p + t) div 256 = 0") auto
  ultimately obtain q s where "nsum (words_of (take n shdr) @ htons (ucast proto + tlen) # ws) = ?m + s"
    "nsum (pseudo n proto shdr tlen @ ws) = ?m + (s + 65535 * q)" "0 < s"
    using p by metis
  then show "rep (nsum (words_of (take n shdr) @ htons (ucast proto + tlen) # ws))
      = rep (nsum (pseudo n proto shdr tlen @ ws))"
    using rep_shift[of "?m + s" q] by (simp only: add.assoc add_gr_0) simp
qed

lemma transport_rfc:
  assumes "even n" "n \<le> length shdr" "n \<le> 32" "unat proto + unat tlen < 65536" "0 < proto"
    "a < b" "2 * b \<le> unat tlen" "unat tlen \<le> length pkt"
  shows "csum_tail (wsum (words_of (take n shdr)) + ucast (htons (ucast proto + tlen)) +
      wsum (map (word_at pkt) ([0..<a] @ [Suc a..<b]))) (drop (2 * b) pkt) (tlen - of_nat (2 * b)) =
    Some (rfc1071 (pseudo n proto shdr tlen @ words_of (zeroed (2 * a) (unat tlen) pkt)) +
      lost_carry (words_of (take n shdr) @ htons (ucast proto + tlen) # words_of (zeroed (2 * a) (unat tlen) pkt)))"
    (is "csum_tail ?c ?p ?t = _")
proof -
  let ?Z = "words_of (zeroed (2 * a) (unat tlen) pkt)"
  let ?W = "words_of (take n shdr) @ htons (ucast proto + tlen) # ?Z"
  have u: "unat ?t = unat tlen - 2 * b" by (rule unat_minus_small) (use assms in simp)
  have "wsum ?Z = wsum (map (word_at pkt) ([0..<a] @ [Suc a..<b])) + wsum (words_of (take (unat tlen - 2 * b) ?p))"
    by (subst words_of_zeroed[OF assms(6-8)]) (simp only: wsum_simps map_append, simp)
  then have W: "wsum ?W = ?c + wsum (words_of (take (unat ?t) ?p))"
    unfolding u by (simp only: wsum_simps add.assoc)
  have "csum_tail ?c ?p ?t = Some (fold_once (wsum ?W))"
    unfolding W by (rule csum_tail_Some) (use u assms in simp)
  moreover have "length ?W \<le> 65536"
    using assms unat_bound[of tlen] by (simp add: length_zeroed) (simp add: length_words_of)
  moreover have "rfc1071 ?W = rfc1071 (pseudo n proto shdr tlen @ ?Z)"
    using assms by (intro pseudo_rfc) auto
  ultimately show ?thesis using fold_once_rfc by metis
qed

lemma wsum_words: "even n \<Longrightarrow> n \<le> length b \<Longrightarrow> wsum (words_of (take n b)) = wsum (map (word_at b) [0..<n div 2])"
  using words_of_take[of "n div 2" b] by simp

text \<open>Claim C34: The transport checksums are RFC 1071 up to a lost carry: with the segment and the addresses
  in their buffers and a length to which the protocol number can be added in 16 bits (below 65530 for TCP and
  below 65519 for UDP; beyond it \<open>htons\<close> truncates the sum and the claim fails), \<open>TCPCalculateChecksum\<close>,
  \<open>TCPV6CalculateChecksum\<close>, \<open>UDPV4CalculateChecksum\<close> and \<open>UDPV6CalculateChecksum\<close> return, for even and odd lengths alike, the complement of the one's complement
  sum of the pseudo header and the segment with its checksum field taken as zero, plus one exactly when
  the single fold leaves a carry. The four unrolled loops add every byte once.\<close>

theorem transport_checksums_rfc1071:
  assumes "unat tlen \<le> length pkt"
  shows "(20 \<le> unat tlen \<and> unat tlen < 65530 \<and> 8 \<le> length shdr \<longrightarrow> TCPCalculateChecksum shdr pkt tlen =
      Some (rfc1071 (pseudo 8 6 shdr tlen @ words_of (zeroed 16 (unat tlen) pkt)) +
        lost_carry (words_of (take 8 shdr) @ htons (6 + tlen) # words_of (zeroed 16 (unat tlen) pkt)))) \<and>
    (20 \<le> unat tlen \<and> unat tlen < 65530 \<and> 32 \<le> length shdr \<longrightarrow> TCPV6CalculateChecksum shdr pkt tlen =
      Some (rfc1071 (pseudo 32 6 shdr tlen @ words_of (zeroed 16 (unat tlen) pkt)) +
        lost_carry (words_of (take 32 shdr) @ htons (6 + tlen) # words_of (zeroed 16 (unat tlen) pkt)))) \<and>
    (8 \<le> unat tlen \<and> unat tlen < 65519 \<and> 8 \<le> length shdr \<longrightarrow> UDPV4CalculateChecksum shdr pkt tlen =
      Some (rfc1071 (pseudo 8 17 shdr tlen @ words_of (zeroed 6 (unat tlen) pkt)) +
        lost_carry (words_of (take 8 shdr) @ htons (17 + tlen) # words_of (zeroed 6 (unat tlen) pkt)))) \<and>
    (8 \<le> unat tlen \<and> unat tlen < 65519 \<and> 32 \<le> length shdr \<longrightarrow> UDPV6CalculateChecksum shdr pkt tlen =
      Some (rfc1071 (pseudo 32 17 shdr tlen @ words_of (zeroed 6 (unat tlen) pkt)) +
        lost_carry (words_of (take 32 shdr) @ htons (17 + tlen) # words_of (zeroed 6 (unat tlen) pkt))))"
proof -
  have idx: "[0..<8] @ [Suc 8..<10] = [0, 1, 2, 3, 4, 5, 6, 7, 9]" "[0..<3] @ [Suc 3..<4] = [0, 1, 2]"
    "[0..<4] = [0, 1, 2, 3]" "[0..<16] = [0, 1, 2, 3, 4, 5, 6, 7, 8, 9, 10, 11, 12, 13, 14, 15]"
    by (simp_all add: upt_rec numeral_2_eq_2[symmetric])
  have a4: "wsum (words_of (take 8 shdr)) = wsum (map (word_at shdr) [0, 1, 2, 3])" if "8 \<le> length shdr"
    using wsum_words[of 8 shdr] that idx by simp
  have a6: "wsum (words_of (take 32 shdr)) =
      wsum (map (word_at shdr) [0, 1, 2, 3, 4, 5, 6, 7, 8, 9, 10, 11, 12, 13, 14, 15])" if "32 \<le> length shdr"
    using wsum_words[of 32 shdr] that idx by simp
  note tcp4 = transport_rfc[of 8 shdr 6 tlen 8 10 pkt, unfolded idx]
    and tcp6 = transport_rfc[of 32 shdr 6 tlen 8 10 pkt, unfolded idx]
    and udp4 = transport_rfc[of 8 shdr 17 tlen 3 4 pkt, unfolded idx]
    and udp6 = transport_rfc[of 32 shdr 17 tlen 3 4 pkt, unfolded idx]
  show ?thesis
    using tcp4 tcp6 udp4 udp6 a4 a6 assms
    by (auto simp: TCPCalculateChecksum_def TCPV6CalculateChecksum_def UDPV4CalculateChecksum_def
        UDPV6CalculateChecksum_def add_words_Some add.assoc simp del: add_words.simps)
qed

lemma transport_checksums_rfc1071_witness:
  "UDPV4CalculateChecksum [10, 0, 0, 1, 10, 0, 0, 2] [0, 53, 0, 99, 0, 9, 1, 1, 0xab] 9 =
    Some (rfc1071 [0xa, 0x100, 0xa, 0x200, 0x1100, 0x900, 0x3500, 0x6300, 0x900, 0, 0xab])"
proof -
  let ?s = "[10, 0, 0, 1, 10, 0, 0, 2] :: bytes" and ?p = "[0, 53, 0, 99, 0, 9, 1, 1, 0xab] :: bytes"
  have z: "words_of (zeroed 6 9 ?p) = [0x3500, 0x6300, 0x900, 0, 0xab]" by (simp add: zeroed_def)
  have h: "htons (17 + 9) = 0x1a00" by code_simp
  have d: "pseudo 8 17 ?s 9 = [0xa, 0x100, 0xa, 0x200, 0x1100, 0x900]" 
    by (simp add: pseudo_def)
  have "lost_carry (words_of (take 8 ?s) @ htons (17 + 9) # words_of (zeroed 6 9 ?p)) = 0"
    unfolding z h by (simp add: lost_carry_def)
  then show ?thesis
    using transport_checksums_rfc1071[of 9 ?p ?s] z d by simp
qed

text \<open>The lost carry is real: for an ordinary 20-byte header (an ICMP packet of 84 bytes from
  192.168.1.10 to 192.168.1.20, identification 0xb83a) the RFC 1071 checksum is 0xfffe and the code
  returns 0xffff, so the checksum the sender put into the packet is taken for a wrong one.\<close>

theorem ipv4_checksum_loses_carry:
  "let pkt = [0x45, 0, 0, 84, 0xb8, 0x3a, 0x40, 0, 64, 1, 0xfe, 0xff, 192, 168, 1, 10, 192, 168, 1, 20] in
   rfc1071 (words_of (zeroed 10 20 pkt)) = 0xfffe \<and> rd16 pkt 5 = Some 0xfffe \<and>
   IPV4CalculateChecksum pkt 20 = Some 0xffff"
proof -
  let ?p = "[0x45, 0, 0, 84, 0xb8, 0x3a, 0x40, 0, 64, 1, 0xfe, 0xff, 192, 168, 1, 10, 192, 168, 1, 20] :: bytes"
  have "unat (foldr ones_add (words_of (zeroed 10 20 ?p)) 0) = 1"
    unfolding unat_ones_sum by (simp add: zeroed_def rep_def)
  then have "foldr ones_add (words_of (zeroed 10 20 ?p)) 0 = 1"
    by (metis unat_1 unat_eq_iff)
  then have "rfc1071 (words_of (zeroed 10 20 ?p)) = 0xfffe" by (simp add: rfc1071_def)
  moreover have "rd16 ?p 5 = Some 0xfffe" by code_simp
  moreover have "IPV4CalculateChecksum ?p 20 = Some 0xffff" by code_simp
  ultimately show ?thesis by (simp only: Let_def)
qed

end
