(* ===== verification/ByteExtract.thy ===== *)
theory ByteExtract
  imports Prelude
begin

text \<open>
  The byte and string extraction of \<open>src/util-byte.c\<close> and \<open>src/util-byte.h\<close>, which the content
  keywords and the protocol parsers read numbers with. A function returns the C return value together with
  what it stored through \<open>res\<close>: \<open>None\<close> when it left \<open>*res\<close> alone. A read outside the buffer, or a
  string without its terminating zero, makes the whole result \<open>None\<close>. \<open>strtoull\<close> and \<open>strtoll\<close> follow
  the C standard for the bases 0 and 2 to 36.
\<close>

type_synonym 'r extracted = "(int \<times> 'r option) option"

section \<open>Binary numbers\<close>

fun extract_loop :: "int \<Rightarrow> nat \<Rightarrow> bytes \<Rightarrow> nat list \<Rightarrow> u64 \<Rightarrow> u64 option" where
  "extract_loop e len b [] res = Some res"
| "extract_loop e len b (i # is) res = do {
     x \<leftarrow> rd8 b (if e = 1 then i else len - i - 1);
     extract_loop e len b is (res OR push_bit (8 * (i mod 8)) (ucast x))
   }"

definition ByteExtract :: "int \<Rightarrow> u16 \<Rightarrow> bytes \<Rightarrow> u64 extracted" where
  "ByteExtract e len b =
     (if e \<noteq> 0 \<and> e \<noteq> 1 then Some (- 1, None)
      else do {
        res \<leftarrow> extract_loop e (unat len) b [0..<unat len] 0;
        Some (int (unat len), Some res)
      })"

definition ByteExtractUint64 :: "int \<Rightarrow> u16 \<Rightarrow> bytes \<Rightarrow> u64 extracted" where
  "ByteExtractUint64 e len b =
     (if len > 8 then Some (- 1, None)
      else do {
        (ret, i64) \<leftarrow> ByteExtract e len b;
        if ret \<le> 0 then Some (ret, None) else Some (ret, i64)
      })"

definition ByteExtractUint32 :: "int \<Rightarrow> u16 \<Rightarrow> bytes \<Rightarrow> u32 extracted" where
  "ByteExtractUint32 e len b =
     (if len > 4 then Some (- 1, None)
      else do {
        (ret, i64) \<leftarrow> ByteExtract e len b;
        if ret \<le> 0 then Some (ret, None) else Some (ret, map_option ucast i64)
      })"

definition ByteExtractUint16 :: "int \<Rightarrow> u16 \<Rightarrow> bytes \<Rightarrow> u16 extracted" where
  "ByteExtractUint16 e len b =
     (if len > 2 then Some (- 1, None)
      else do {
        (ret, i64) \<leftarrow> ByteExtract e len b;
        if ret \<le> 0 then Some (ret, None) else Some (ret, map_option ucast i64)
      })"

section \<open>The conversions of the C library\<close>

definition cisspace :: "u8 \<Rightarrow> bool" where
  "cisspace c \<longleftrightarrow> c = 32 \<or> 9 \<le> c \<and> c \<le> 13"

definition digit_val :: "u8 \<Rightarrow> nat option" where
  "digit_val c =
     (if 48 \<le> c \<and> c \<le> 57 then Some (unat c - 48)
      else if 97 \<le> c \<and> c \<le> 122 then Some (unat c - 87)
      else if 65 \<le> c \<and> c \<le> 90 then Some (unat c - 55)
      else None)"

definition is_digit_of :: "nat \<Rightarrow> u8 \<Rightarrow> bool" where
  "is_digit_of base c \<longleftrightarrow> (case digit_val c of None \<Rightarrow> False | Some d \<Rightarrow> d < base)"

definition number_of :: "nat \<Rightarrow> bytes \<Rightarrow> nat" where
  "number_of base ds = foldl (\<lambda>a c. a * base + the (digit_val c)) 0 ds"

text \<open>The prefix of a number: what is skipped and the base of the digits behind it.\<close>

definition base_prefix :: "nat \<Rightarrow> bytes \<Rightarrow> nat \<times> nat" where
  "base_prefix base s =
     (case s of
        z # x # d # r \<Rightarrow>
          if (base = 0 \<or> base = 16) \<and> z = 48 \<and> (x = 120 \<or> x = 88) \<and> is_digit_of 16 d then (2, 16)
          else if base = 0 then (0, if z = 48 then 8 else 10) else (0, base)
      | z # r \<Rightarrow> if base = 0 then (0, if z = 48 then 8 else 10) else (0, base)
      | [] \<Rightarrow> (0, if base = 0 then 10 else base))"

text \<open>Sign, magnitude and the offset of the first character behind the number; \<open>None\<close>: no number.\<close>

definition strto_parse :: "nat \<Rightarrow> bytes \<Rightarrow> (bool \<times> nat \<times> nat) option" where
  "strto_parse base s =
     (let w = length (takeWhile cisspace s);
          s1 = drop w s;
          sg = (case s1 of c # _ \<Rightarrow> if c = 43 \<or> c = 45 then 1 else 0 | [] \<Rightarrow> 0);
          neg = (case s1 of c # _ \<Rightarrow> c = 45 | [] \<Rightarrow> False);
          s2 = drop sg s1;
          (pre, b) = base_prefix base s2;
          ds = takeWhile (is_digit_of b) (drop pre s2)
      in if ds = [] then None else Some (neg, number_of b ds, w + sg + pre + length ds))"

text \<open>Value, offset of \<open>endptr\<close>, and whether \<open>errno\<close> is \<open>ERANGE\<close>.\<close>

definition strtoull :: "nat \<Rightarrow> bytes \<Rightarrow> u64 \<times> nat \<times> bool" where
  "strtoull base s =
     (case strto_parse base s of
        None \<Rightarrow> (0, 0, False)
      | Some (neg, m, e) \<Rightarrow>
          if m \<ge> 2 ^ 64 then (- 1, e, True)
          else (if neg then - of_nat m else of_nat m, e, False))"

definition strtoll :: "nat \<Rightarrow> bytes \<Rightarrow> u64 \<times> nat \<times> bool" where
  "strtoll base s =
     (case strto_parse base s of
        None \<Rightarrow> (0, 0, False)
      | Some (neg, m, e) \<Rightarrow>
          if neg then (if m > 2 ^ 63 then (of_nat (2 ^ 63), e, True) else (- of_nat m, e, False))
          else (if m \<ge> 2 ^ 63 then (of_nat (2 ^ 63 - 1), e, True) else (of_nat m, e, False)))"

definition valid_base :: "nat \<Rightarrow> bool" where
  "valid_base b \<longleftrightarrow> b = 0 \<or> 2 \<le> b \<and> b \<le> 36"

text \<open>The characters of a C string in a buffer.\<close>

definition cstring :: "bytes \<Rightarrow> bytes option" where
  "cstring s = (if 0 \<in> set s then Some (takeWhile (\<lambda>c. c \<noteq> 0) s) else None)"

section \<open>Numbers in text\<close>

text \<open>\<open>memcpy(strbuf, str, len); strbuf[len] = 0; ptr = strbuf\<close> when \<open>len\<close> is not zero.\<close>

definition copy_string :: "u16 \<Rightarrow> bytes \<Rightarrow> bytes option" where
  "copy_string len str =
     (if len = 0 then cstring str
      else if unat len \<le> length str then cstring (take (unat len) str @ [0])
      else None)"

definition ByteExtractString :: "nat \<Rightarrow> u16 \<Rightarrow> bytes \<Rightarrow> u64 extracted" where
  "ByteExtractString base len str =
     (if len > 23 then Some (- 1, None)
      else if \<not> valid_base base then None
      else do {
        s \<leftarrow> copy_string len str;
        let (res, e, erange) = strtoull base s;
        if erange then Some (- 1, Some res)
        else if len = 0 \<and> e = 0 then Some (- 1, Some res)
        else if e = 0 \<and> res = 0 then Some (- 1, Some res)
        else Some (int e, Some res)
      })"

definition ByteExtractStringUint64 :: "nat \<Rightarrow> u16 \<Rightarrow> bytes \<Rightarrow> u64 extracted" where
  "ByteExtractStringUint64 base len str = ByteExtractString base len str"

text \<open>
  The narrower ones store the truncated value first and compare it with the full one afterwards. The
  three of them (and the three signed ones) have the same body, at their own width.
\<close>

definition narrow :: "('w::len word \<Rightarrow> u64) \<Rightarrow> u64 extracted \<Rightarrow> 'w word extracted" where
  "narrow widen r = do {
     (ret, i64) \<leftarrow> r;
     if ret \<le> 0 then Some (ret, None)
     else do {
       v \<leftarrow> i64;
       let res = ucast v;
       if widen res \<noteq> v then Some (- 1, Some res) else Some (ret, Some res)
     }
   }"

definition ByteExtractStringUint32 :: "nat \<Rightarrow> u16 \<Rightarrow> bytes \<Rightarrow> u32 extracted" where
  "ByteExtractStringUint32 base len str = narrow ucast (ByteExtractString base len str)"

definition ByteExtractStringUint16 :: "nat \<Rightarrow> u16 \<Rightarrow> bytes \<Rightarrow> u16 extracted" where
  "ByteExtractStringUint16 base len str = narrow ucast (ByteExtractString base len str)"

definition ByteExtractStringUint8 :: "nat \<Rightarrow> u16 \<Rightarrow> bytes \<Rightarrow> u8 extracted" where
  "ByteExtractStringUint8 base len str = narrow ucast (ByteExtractString base len str)"

definition ByteExtractStringSigned :: "nat \<Rightarrow> u16 \<Rightarrow> bytes \<Rightarrow> u64 extracted" where
  "ByteExtractStringSigned base len str =
     (if len > 23 then Some (- 1, None)
      else if \<not> valid_base base then None
      else do {
        s \<leftarrow> copy_string len str;
        let (res, e, erange) = strtoll base s;
        if erange then Some (- 1, Some res)
        else if len = 0 \<and> e = 0 then Some (- 1, Some res)
        else Some (int e, Some res)
      })"

definition ByteExtractStringInt64 :: "nat \<Rightarrow> u16 \<Rightarrow> bytes \<Rightarrow> u64 extracted" where
  "ByteExtractStringInt64 base len str = ByteExtractStringSigned base len str"

definition ByteExtractStringInt32 :: "nat \<Rightarrow> u16 \<Rightarrow> bytes \<Rightarrow> u32 extracted" where
  "ByteExtractStringInt32 base len str = narrow scast (ByteExtractStringSigned base len str)"

definition ByteExtractStringInt16 :: "nat \<Rightarrow> u16 \<Rightarrow> bytes \<Rightarrow> u16 extracted" where
  "ByteExtractStringInt16 base len str = narrow scast (ByteExtractStringSigned base len str)"

definition ByteExtractStringInt8 :: "nat \<Rightarrow> u16 \<Rightarrow> bytes \<Rightarrow> u8 extracted" where
  "ByteExtractStringInt8 base len str = narrow scast (ByteExtractStringSigned base len str)"

section \<open>Binary numbers: the value\<close>

fun le_value :: "bytes \<Rightarrow> nat" where
  "le_value [] = 0"
| "le_value (x # xs) = unat x + 256 * le_value xs"

text \<open>\<open>e = 1\<close> is little endian, \<open>e = 0\<close> big endian.\<close>

definition value_of :: "int \<Rightarrow> bytes \<Rightarrow> nat" where
  "value_of e xs = le_value (if e = 1 then xs else rev xs)"

fun num_bytes :: "nat \<Rightarrow> nat \<Rightarrow> bytes" where
  "num_bytes 0 v = []"
| "num_bytes (Suc n) v = of_nat v # num_bytes n (v div 256)"

definition bytes_of :: "int \<Rightarrow> nat \<Rightarrow> nat \<Rightarrow> bytes" where
  "bytes_of e n v = (if e = 1 then num_bytes n v else rev (num_bytes n v))"

lemma le_value_append: "le_value (xs @ ys) = le_value xs + 256 ^ length xs * le_value ys"
  by (induction xs) (simp_all add: algebra_simps)

lemma le_value_bound: "le_value xs < 256 ^ length xs"
proof (induction xs)
  case (Cons x xs)
  have "unat x < 256" using unat_bound[of x] by simp
  then show ?case using Cons by simp
qed simp

lemma num_bytes_length [simp]: "length (num_bytes n v) = n"
  by (induction n arbitrary: v) auto

lemma le_value_bytes: "v < 256 ^ n \<Longrightarrow> le_value (num_bytes n v) = v"
proof (induction n arbitrary: v)
  case (Suc n)
  then have "v div 256 < 256 ^ n" by (simp add: div_less_iff_less_mult mult.commute)
  then show ?case using Suc.IH by (simp add: unat_of_nat)
qed simp

text \<open>The disjunction of the code adds the next byte above the bits already read.\<close>

lemma or_byte:
  fixes res :: u64
  assumes "unat res < 2 ^ k" "k \<le> 56"
  shows "unat (res OR push_bit k (ucast (x :: u8))) = unat res + 2 ^ k * unat x"
proof -
  have "res = take_bit k res"
    using assms by (simp add: take_bit_nat_eq_self unsigned_take_bit_eq flip: unat_eq_iff)
  then have "n < k" if "bit res n" for n using that by (metis bit_take_bit_iff)
  then have "\<not> bit res n" if "k \<le> n" for n using that by (meson leD)
  then have "res OR push_bit k (ucast x) = res + push_bit k (ucast x)"
    by (intro disjunctive_add [symmetric]) (auto simp: bit_simps)
  moreover have "unat (push_bit k (ucast x :: u64)) = 2 ^ k * unat x"
  proof -
    have "unat x < 256" using unat_bound[of x] by simp
    then have "2 ^ k * unat x < 2 ^ k * 256" by simp
    also have "\<dots> \<le> 2 ^ 56 * 256" using assms(2) power_increasing[of k 56 "2 :: nat"] by simp
    finally have "2 ^ k * unat x < 2 ^ 64" by simp
    then have "push_bit k (unat x) < 2 ^ 64" by (simp only: push_bit_eq_mult mult.commute)
    moreover have "unat (push_bit k (ucast x :: u64)) = take_bit 64 (push_bit k (unat x))"
      by (simp add: unsigned_push_bit_eq unat_ucast_up)
    ultimately show ?thesis by (simp add: take_bit_nat_eq_self push_bit_eq_mult)
  qed
  moreover have "unat res + 2 ^ k * unat x < 2 ^ 64"
  proof -
    have "unat x \<le> 255" using unat_bound[of x] by simp
    then have "unat res + 2 ^ k * unat x < 2 ^ k + 2 ^ k * 255" using assms(1) by (intro add_less_le_mono) simp_all
    also have "\<dots> \<le> 2 ^ 64" using assms(2) power_increasing[of k 56 "2 :: nat"] by simp
    finally show ?thesis .
  qed
  ultimately show ?thesis by (simp add: unat_add_lem[THEN iffD1])
qed

lemma extract_loop_value:
  assumes "n \<le> 8" "n \<le> length b" "k \<le> n" "unat res = le_value (take k (if e = 1 then b' else rev b'))"
    and "b' = take n b"
  shows "\<exists>r. extract_loop e n b [k..<n] res = Some r \<and> unat r = value_of e b'"
  using assms(3,4)
proof (induction "n - k" arbitrary: k res)
  case 0
  then have "k = n" by simp
  moreover have "length (if e = 1 then b' else rev b') = n" using assms(2,5) by simp
  ultimately show ?case using 0 by (simp add: value_of_def)
next
  case (Suc d)
  let ?l = "if e = 1 then b' else rev b'" and ?i = "if e = 1 then k else n - k - 1"
  have k: "k < n" using Suc(2) by simp
  have len: "length ?l = n" using assms(2,5) by simp
  have at: "b ! ?i = ?l ! k" using k assms(2,5) by (auto simp: rev_nth)
  have rd: "rd8 b ?i = Some (b ! ?i)" using k assms(2) by (auto simp: rd8_def)
  have "le_value (take k ?l) < 256 ^ k" using le_value_bound[of "take k ?l"] len k by simp
  then have "unat res < 2 ^ (8 * k)" using Suc.prems(2) by (simp add: power_mult)
  then have "unat (res OR push_bit (8 * (k mod 8)) (ucast (?l ! k))) = unat res + 2 ^ (8 * k) * unat (?l ! k)"
    using or_byte[of res "8 * k" "?l ! k"] k assms(1) by simp
  also have "\<dots> = le_value (take (Suc k) ?l)"
    using Suc.prems(2) k len by (simp add: take_Suc_conv_app_nth le_value_append power_mult)
  finally have next_value: "unat (res OR push_bit (8 * (k mod 8)) (ucast (?l ! k))) = le_value (take (Suc k) ?l)" .
  have "d = n - Suc k" "Suc k \<le> n" using Suc(2) by simp_all
  from Suc(1)[OF this next_value] show ?case
    using k rd at by (simp add: upt_conv_Cons)
qed

lemma ByteExtract_value:
  assumes "e = 0 \<or> e = 1" "unat len \<le> 8" "unat len \<le> length b"
  shows "\<exists>r. ByteExtract e len b = Some (int (unat len), Some r) \<and> unat r = value_of e (take (unat len) b)"
  using extract_loop_value[of "unat len" b 0 0 e "take (unat len) b"] assms
  by (auto simp: ByteExtract_def)

text \<open>Claim C38: Binary extraction inverts the encoding of numbers: for either byte order and any number that
  fits into \<open>len\<close> bytes (1 to 8, 4 or 2), \<open>ByteExtractUint64\<close>, \<open>ByteExtractUint32\<close> and
  \<open>ByteExtractUint16\<close> return \<open>len\<close> and store the number, whatever follows in the buffer; a longer request is refused
  without reading anything.\<close>

theorem byte_extract_roundtrip:
  assumes "e = 0 \<or> e = 1" "0 < len" "v < 256 ^ unat len"
  shows "ByteExtractUint64 e len (bytes_of e (unat len) v @ rest) =
      (if len \<le> 8 then Some (int (unat len), Some (of_nat v)) else Some (- 1, None)) \<and>
    ByteExtractUint32 e len (bytes_of e (unat len) v @ rest) =
      (if len \<le> 4 then Some (int (unat len), Some (of_nat v)) else Some (- 1, None)) \<and>
    ByteExtractUint16 e len (bytes_of e (unat len) v @ rest) =
      (if len \<le> 2 then Some (int (unat len), Some (of_nat v)) else Some (- 1, None))"
proof -
  let ?b = "bytes_of e (unat len) v @ rest"
  have read: "ByteExtract e len ?b = Some (int (unat len), Some (of_nat v))" if "unat len \<le> 8"
  proof -
    note short = that
    have v: "value_of e (take (unat len) ?b) = v"
      using assms(3) by (simp add: value_of_def bytes_of_def le_value_bytes)
    have "unat len \<le> length ?b" by (simp add: bytes_of_def)
    then obtain r where "ByteExtract e len ?b = Some (int (unat len), Some r)" "unat r = v"
      using ByteExtract_value[OF assms(1) short, of ?b] v by auto
    then show ?thesis by auto
  qed
  have "0 < unat len" using assms(2) by (simp add: word_less_nat_alt)
  then have pos: "\<not> int (unat len) \<le> 0" by linarith
  have down: "(ucast (of_nat v :: u64) :: u32) = of_nat v" "(ucast (of_nat v :: u64) :: u16) = of_nat v"
    by (simp_all add: unat_of_nat unsigned_ucast_eq take_bit_eq_mod mod_mod_cancel flip: unat_eq_iff)
  have le: "len \<le> 8 \<longleftrightarrow> unat len \<le> 8" "len \<le> 4 \<longleftrightarrow> unat len \<le> 4" "len \<le> 2 \<longleftrightarrow> unat len \<le> 2"
    by (simp_all add: word_le_nat_alt)
  show ?thesis
    using read pos
    by (simp add: ByteExtractUint64_def ByteExtractUint32_def ByteExtractUint16_def le down not_le [symmetric])
qed

lemma num_bytes_2: "num_bytes 2 v = [of_nat v, of_nat (v div 256)]"
  and num_bytes_3: "num_bytes 3 v = [of_nat v, of_nat (v div 256), of_nat (v div 65536)]"
  by (simp_all add: numeral_2_eq_2 numeral_3_eq_3 div_mult2_eq [of v 256 256, simplified])

lemma byte_extract_roundtrip_witness:
  "ByteExtractUint16 0 2 [0x12, 0x34, 0xff] = Some (2, Some 0x1234) \<and>
   ByteExtractUint32 1 3 [0x56, 0x34, 0x12] = Some (3, Some 0x123456)"
proof
  have "bytes_of 0 2 0x1234 = [0x12, 0x34]" by (simp add: bytes_of_def num_bytes_2)
  then show "ByteExtractUint16 0 2 [0x12, 0x34, 0xff] = Some (2, Some 0x1234)"
    using byte_extract_roundtrip[of 0 2 "0x1234" "[0xff]"] by simp
  have "bytes_of 1 3 0x123456 = [0x56, 0x34, 0x12]" by (simp add: bytes_of_def num_bytes_3)
  then show "ByteExtractUint32 1 3 [0x56, 0x34, 0x12] = Some (3, Some 0x123456)"
    using byte_extract_roundtrip[of 1 3 "0x123456" "[]"] by simp
qed

section \<open>Numerals: printing and reading\<close>

definition digit_char :: "nat \<Rightarrow> u8" where
  "digit_char d = (if d < 10 then of_nat (48 + d) else of_nat (87 + d))"

fun render :: "nat \<Rightarrow> nat \<Rightarrow> bytes" where
  "render b n = (if b < 2 \<or> n < b then [digit_char n] else render b (n div b) @ [digit_char (n mod b)])"

declare render.simps [simp del]

definition render_int :: "nat \<Rightarrow> int \<Rightarrow> bytes" where
  "render_int b z = (if z < 0 then 45 # render b (nat (- z)) else render b (nat z))"

lemma digit_val_unat:
  "digit_val c = (if 48 \<le> unat c \<and> unat c \<le> 57 then Some (unat c - 48)
     else if 97 \<le> unat c \<and> unat c \<le> 122 then Some (unat c - 87)
     else if 65 \<le> unat c \<and> unat c \<le> 90 then Some (unat c - 55) else None)"
  by (simp add: digit_val_def word_le_nat_alt)

lemma digit_val_char: "d < 36 \<Longrightarrow> digit_val (digit_char d) = Some d"
proof -
  assume d: "d < 36"
  then have "unat (digit_char d) = (if d < 10 then 48 + d else 87 + d)"
    unfolding digit_char_def by (simp only: unat_of_nat if_distrib[of unat]) simp
  then show ?thesis using d unfolding digit_val_unat by (simp split: if_splits)
qed

lemma digit_facts:
  assumes "is_digit_of b c" "b \<le> 36"
  shows "\<not> cisspace c" "c \<noteq> 0" "c \<noteq> 43" "c \<noteq> 45" "b \<le> 16 \<Longrightarrow> c \<noteq> 120 \<and> c \<noteq> 88"
  using assms by (auto simp: is_digit_of_def digit_val_def cisspace_def word_le_nat_alt split: if_splits)

lemma digit_char_ok: "2 \<le> b \<Longrightarrow> b \<le> 36 \<Longrightarrow> d < b \<Longrightarrow> is_digit_of b (digit_char d)"
  by (simp add: is_digit_of_def digit_val_char)

lemma render_digits: "2 \<le> b \<Longrightarrow> b \<le> 36 \<Longrightarrow> c \<in> set (render b n) \<Longrightarrow> is_digit_of b c"
proof (induction b n rule: render.induct)
  case (1 b n)
  have "n mod b < b" using 1(2) by simp
  then show ?case using 1 digit_char_ok by (cases "n < b") (auto simp: render.simps[of b n])
qed

lemma render_Cons: "render b n \<noteq> []"
  by (subst render.simps) simp

lemma number_of_snoc: "number_of b (ds @ [c]) = number_of b ds * b + the (digit_val c)"
  by (simp add: number_of_def)

lemma number_of_render: "2 \<le> b \<Longrightarrow> b \<le> 36 \<Longrightarrow> number_of b (render b n) = n"
proof (induction b n rule: render.induct)
  case (1 b n)
  show ?case
  proof (cases "n < b")
    case True
    then show ?thesis using 1 by (subst render.simps) (simp add: number_of_def digit_val_char)
  next
    case False
    then have "number_of b (render b n) = n div b * b + n mod b"
      using 1 by (subst render.simps) (simp add: number_of_snoc digit_val_char order.strict_trans2[OF mod_less_divisor])
    then show ?thesis by simp
  qed
qed

lemma strto_parse_digits:
  assumes "2 \<le> b" "b \<le> 36" "ds \<noteq> []" "\<And>c. c \<in> set ds \<Longrightarrow> is_digit_of b c"
  shows "strto_parse b ds = Some (False, number_of b ds, length ds)"
    "strto_parse b (45 # ds) = Some (True, number_of b ds, Suc (length ds))"
proof -
  obtain c cs where ds: "ds = c # cs" using assms(3) by (cases ds) auto
  have c: "\<not> cisspace c" "c \<noteq> 43" "c \<noteq> 45" using digit_facts[OF assms(4) assms(2), of c] ds by auto
  have pre: "base_prefix b ds = (0, b)"
  proof (cases "b = 16")
    case True
    then show ?thesis using assms(1,4) digit_facts(5)[OF assms(4)]
      by (auto simp: base_prefix_def split: list.splits)
  qed (use assms(1) in \<open>auto simp: base_prefix_def split: list.splits\<close>)
  have sp: "\<not> cisspace 45" by (simp add: cisspace_def)
  have "takeWhile (is_digit_of b) ds = ds" using assms(4) by simp
  then show "strto_parse b ds = Some (False, number_of b ds, length ds)"
    "strto_parse b (45 # ds) = Some (True, number_of b ds, Suc (length ds))"
    using c pre assms(3) sp by (simp_all add: strto_parse_def ds Let_def)
qed

lemma copy_string_take:
  assumes "unat len = length s" "s \<noteq> []" "0 \<notin> set s"
  shows "copy_string len (s @ rest) = Some s"
proof -
  have "len \<noteq> 0" using assms(1,2) by (auto simp: unat_eq_0)
  moreover have "takeWhile (\<lambda>c. c \<noteq> 0) (s @ [0]) = s" using assms(3) by (induction s) auto
  ultimately show ?thesis using assms(1) by (simp add: copy_string_def cstring_def)
qed

section \<open>The text functions read what was printed\<close>

text \<open>Success with a value, or the return value -1.\<close>

definition reads_as :: "bool \<Rightarrow> nat \<Rightarrow> 'v \<Rightarrow> 'v extracted \<Rightarrow> bool" where
  "reads_as ok n v r \<longleftrightarrow> (if ok then r = Some (int n, Some v) else map_option fst r = Some (- 1))"

lemma render_string:
  assumes "2 \<le> b" "b \<le> 36"
  shows "0 \<notin> set (render b n)" "0 \<notin> set (render_int b z)" "render_int b z \<noteq> []"
proof -
  have d: "is_digit_of b c" if "c \<in> set (render b n)" for c n using render_digits[OF assms that] .
  show "0 \<notin> set (render b n)" using digit_facts(2)[OF d assms(2)] by blast
  show "0 \<notin> set (render_int b z)" using digit_facts(2)[OF d assms(2)] by (auto simp: render_int_def)
  show "render_int b z \<noteq> []" by (simp add: render_int_def render_Cons)
qed

lemma strto_render:
  assumes "2 \<le> b" "b \<le> 36"
  shows "strto_parse b (render b n) = Some (False, n, length (render b n))"
    "strto_parse b (render_int b z) = Some (z < 0, nat \<bar>z\<bar>, length (render_int b z))"
  using strto_parse_digits[OF assms render_Cons render_digits[OF assms]] number_of_render[OF assms]
  by (auto simp: render_int_def)

lemma string_read:
  assumes "2 \<le> b" "b \<le> 36" "unat len = length (render b n)" "len \<le> 23"
  shows "reads_as (n < 2 ^ 64) (unat len) (of_nat n) (ByteExtractString b len (render b n @ rest))"
proof -
  have copy: "copy_string len (render b n @ rest) = Some (render b n)"
    by (rule copy_string_take) (use assms render_Cons render_string(1)[OF assms(1,2)] in auto)
  have "0 < unat len" using assms(3) render_Cons[of b n] by simp
  moreover have "\<not> len > 23" "valid_base b" using assms by (simp_all add: valid_base_def not_less)
  ultimately show ?thesis
    using copy strto_render(1)[OF assms(1,2), of n] assms(3)
    by (auto simp: reads_as_def ByteExtractString_def strtoull_def)
qed

lemma signed_read:
  assumes "2 \<le> b" "b \<le> 36" "unat len = length (render_int b z)" "len \<le> 23"
  shows "reads_as (- (2 ^ 63) \<le> z \<and> z < 2 ^ 63) (unat len) (of_int z) (ByteExtractStringSigned b len (render_int b z @ rest))"
proof -
  have copy: "copy_string len (render_int b z @ rest) = Some (render_int b z)"
    by (rule copy_string_take) (use assms render_string(2,3)[OF assms(1,2)] in auto)
  have "0 < unat len" using assms(3) render_string(3)[OF assms(1,2), of z] by simp
  moreover have "\<not> len > 23" "valid_base b" using assms by (simp_all add: valid_base_def not_less)
  moreover have "- of_nat (nat \<bar>z\<bar>) = (of_int z :: u64)" if "z < 0" using that by simp
  moreover have "of_nat (nat \<bar>z\<bar>) = (of_int z :: u64)" if "\<not> z < 0" using that by simp
  moreover have "nat \<bar>z\<bar> > 2 ^ 63 \<longleftrightarrow> z < - (2 ^ 63)" if "z < 0" using that by (simp add: nat_less_iff[symmetric]) linarith
  moreover have "nat \<bar>z\<bar> \<ge> 2 ^ 63 \<longleftrightarrow> z \<ge> 2 ^ 63" if "\<not> z < 0" using that by (simp add: le_nat_iff)
  ultimately show ?thesis
    using copy strto_render(2)[OF assms(1,2), of z] assms(3)
    by (cases "z < 0") (auto simp: reads_as_def ByteExtractStringSigned_def strtoll_def)
qed

lemma narrow_unsigned:
  assumes "LENGTH('w::len) \<le> 64" "0 < len" "reads_as (n < 2 ^ 64) len (of_nat n) r"
  shows "reads_as (n < 2 ^ LENGTH('w)) len (of_nat n :: 'w word) (narrow ucast r)"
proof (cases "n < 2 ^ 64")
  case True
  then have r: "r = Some (int len, Some (of_nat n))" using assms(3) by (simp add: reads_as_def)
  have down: "(ucast (of_nat n :: u64) :: 'w word) = of_nat n"
    by (rule bit_word_eqI) (use assms(1) in \<open>auto simp: bit_simps\<close>)
  have "ucast (of_nat n :: 'w word) = (of_nat n :: u64) \<longleftrightarrow> n mod 2 ^ LENGTH('w) = n"
    using True assms(1) by (simp add: unat_ucast_up unat_of_nat flip: unat_eq_iff)
  also have "\<dots> \<longleftrightarrow> n < 2 ^ LENGTH('w)" by (metis mod_less mod_less_divisor zero_less_numeral zero_less_power)
  finally show ?thesis using assms(2) down by (auto simp: r reads_as_def narrow_def Let_def)
next
  case False
  then have "\<not> n < 2 ^ LENGTH('w)" using power_increasing[OF assms(1), of "2 :: nat"] by linarith
  moreover obtain v where "r = Some (- 1, v)" using False assms(3) by (auto simp: reads_as_def)
  ultimately show ?thesis by (simp add: reads_as_def narrow_def)
qed

lemma narrow_signed:
  assumes "LENGTH('w::len) \<le> 64" "0 < len" "reads_as (- (2 ^ 63) \<le> z \<and> z < 2 ^ 63) len (of_int z) r"
  shows "reads_as (- (2 ^ (LENGTH('w) - 1)) \<le> z \<and> z < 2 ^ (LENGTH('w) - 1)) len (of_int z :: 'w word) (narrow scast r)"
proof (cases "- (2 ^ 63) \<le> z \<and> z < 2 ^ 63")
  case True
  then have r: "r = Some (int len, Some (of_int z))" using assms(3) by (simp add: reads_as_def)
  have down: "(ucast (of_int z :: u64) :: 'w word) = of_int z"
    by (rule bit_word_eqI) (use assms(1) in \<open>auto simp: bit_simps\<close>)
  have "sint (of_int z :: u64) = z" using True by (simp add: signed_of_int signed_take_bit_int_eq_self_iff)
  moreover have "sint (scast (of_int z :: 'w word) :: u64) = sint (of_int z :: 'w word)"
    by (rule sint_up_scast) (use assms(1) in \<open>simp add: is_up\<close>)
  ultimately have "scast (of_int z :: 'w word) = (of_int z :: u64) \<longleftrightarrow> sint (of_int z :: 'w word) = z"
    by (metis signed_word_eqI)
  also have "\<dots> \<longleftrightarrow> - (2 ^ (LENGTH('w) - 1)) \<le> z \<and> z < 2 ^ (LENGTH('w) - 1)"
    by (simp add: signed_of_int signed_take_bit_int_eq_self_iff)
  finally show ?thesis using assms(2) down by (auto simp: r reads_as_def narrow_def Let_def)
next
  case False
  have "(2 :: int) ^ (LENGTH('w) - 1) \<le> 2 ^ 63" using assms(1) by (intro power_increasing) auto
  then have "\<not> (- (2 ^ (LENGTH('w) - 1)) \<le> z \<and> z < 2 ^ (LENGTH('w) - 1))" using False by linarith
  moreover obtain v where "r = Some (- 1, v)" using False assms(3) by (auto simp: reads_as_def split: if_splits)
  ultimately show ?thesis by (auto simp: reads_as_def narrow_def)
qed

text \<open>The unsigned text functions read what was printed, up to their width: for a numeral of
  \<open>n\<close> in base \<open>b\<close> (2 to 36) of at most 23 characters, whatever follows it in the buffer, each of the 64-,
  32-, 16- and 8-bit functions consumes the numeral and stores \<open>n\<close> when \<open>n\<close> fits, and returns -1
  when it does not, beyond 64 bits included.\<close>

theorem string_unsigned_roundtrip:
  assumes "2 \<le> b" "b \<le> 36" "unat len = length (render b n)" "len \<le> 23"
  shows "reads_as (n < 2 ^ 64) (unat len) (of_nat n) (ByteExtractStringUint64 b len (render b n @ rest)) \<and>
    reads_as (n < 2 ^ 32) (unat len) (of_nat n) (ByteExtractStringUint32 b len (render b n @ rest)) \<and>
    reads_as (n < 2 ^ 16) (unat len) (of_nat n) (ByteExtractStringUint16 b len (render b n @ rest)) \<and>
    reads_as (n < 2 ^ 8) (unat len) (of_nat n) (ByteExtractStringUint8 b len (render b n @ rest))"
proof -
  have "0 < unat len" using assms(3) render_Cons[of b n] by simp
  note narrow = narrow_unsigned[OF _ this string_read[OF assms, of rest]]
  show ?thesis
    using string_read[OF assms, of rest] narrow[where 'w=32] narrow[where 'w=16] narrow[where 'w=8]
    by (simp add: ByteExtractStringUint64_def ByteExtractStringUint32_def ByteExtractStringUint16_def
        ByteExtractStringUint8_def)
qed

lemma render_decimal: "render 10 300 = [51, 48, 48]"
  by (simp add: render.simps digit_char_def)

lemma string_unsigned_roundtrip_witness:
  "ByteExtractStringUint16 10 3 [51, 48, 48, 59] = Some (3, Some 300) \<and>
   map_option fst (ByteExtractStringUint8 10 3 [51, 48, 48, 59]) = Some (- 1)"
  using string_unsigned_roundtrip[of 10 3 300 "[59]"] by (simp add: render_decimal reads_as_def)

text \<open>The signed text functions read what was printed, up to their width: for the numeral of an
  integer \<open>z\<close> with its sign, of at most 23 characters, each of the 64-, 32-, 16- and 8-bit functions
  consumes it and stores \<open>z\<close> in two's complement when \<open>z\<close> is in its range, and returns -1 when it is not.\<close>

theorem string_signed_roundtrip:
  assumes "2 \<le> b" "b \<le> 36" "unat len = length (render_int b z)" "len \<le> 23"
  shows "reads_as (- (2 ^ 63) \<le> z \<and> z < 2 ^ 63) (unat len) (of_int z) (ByteExtractStringInt64 b len (render_int b z @ rest)) \<and>
    reads_as (- (2 ^ 31) \<le> z \<and> z < 2 ^ 31) (unat len) (of_int z) (ByteExtractStringInt32 b len (render_int b z @ rest)) \<and>
    reads_as (- (2 ^ 15) \<le> z \<and> z < 2 ^ 15) (unat len) (of_int z) (ByteExtractStringInt16 b len (render_int b z @ rest)) \<and>
    reads_as (- (2 ^ 7) \<le> z \<and> z < 2 ^ 7) (unat len) (of_int z) (ByteExtractStringInt8 b len (render_int b z @ rest))"
proof -
  have "0 < unat len" using assms(3) render_string(3)[OF assms(1,2), of z] by simp
  note narrow = narrow_signed[OF _ this signed_read[OF assms, of rest]]
  show ?thesis
    using signed_read[OF assms, of rest] narrow[where 'w=32] narrow[where 'w=16] narrow[where 'w=8]
    by (simp add: ByteExtractStringInt64_def ByteExtractStringInt32_def ByteExtractStringInt16_def
        ByteExtractStringInt8_def)
qed

lemma string_signed_roundtrip_witness:
  "ByteExtractStringInt16 10 4 [45, 51, 48, 48] = Some (4, Some (- 300)) \<and>
   map_option fst (ByteExtractStringInt8 10 4 [45, 51, 48, 48]) = Some (- 1)"
  using string_signed_roundtrip[of 10 4 "- 300" "[]"] by (simp add: render_int_def render_decimal reads_as_def)

text \<open>A text without a number is an error for the unsigned functions only: for a length from 1 to 23
  the unsigned functions return -1, and the signed ones return 0, of which only the 64-bit one has
  stored anything, a zero.\<close>

theorem string_without_number:
  assumes "0 < len" "len \<le> 23" "valid_base b" "copy_string len str = Some s" "strto_parse b s = None"
  shows "ByteExtractStringUint64 b len str = Some (- 1, Some 0) \<and> ByteExtractStringUint32 b len str = Some (- 1, None) \<and>
    ByteExtractStringInt64 b len str = Some (0, Some 0) \<and> ByteExtractStringInt32 b len str = Some (0, None)"
proof -
  have "ByteExtractString b len str = Some (- 1, Some 0)" "ByteExtractStringSigned b len str = Some (0, Some 0)"
    using assms by (auto simp: ByteExtractString_def ByteExtractStringSigned_def strtoull_def strtoll_def)
  then show ?thesis
    by (simp add: ByteExtractStringUint64_def ByteExtractStringUint32_def ByteExtractStringInt64_def
        ByteExtractStringInt32_def narrow_def)
qed

lemma string_without_number_witness:
  "ByteExtractStringUint32 10 3 [97, 98, 99] = Some (- 1, None) \<and> ByteExtractStringInt32 10 3 [97, 98, 99] = Some (0, None)"
proof -
  have "copy_string 3 [97, 98, 99] = Some [97, 98, 99]" by (simp add: copy_string_def cstring_def)
  moreover have "strto_parse 10 [97, 98, 99] = None"
    by (simp add: strto_parse_def cisspace_def base_prefix_def is_digit_of_def digit_val_def Let_def)
  ultimately show ?thesis
    using string_without_number[of 3 10 "[97, 98, 99]" "[97, 98, 99]"] by (simp add: valid_base_def)
qed

end
