(* ===== verification/SpmBasic.thy ===== *)
theory SpmBasic
  imports Prelude
begin

text \<open>
  Single pattern search without and with a bad character table (\<open>src/util-spm-bs.c\<close>,
  \<open>src/util-spm-bs2bm.c\<close>, \<open>src/util-spm.c\<close>). The pointers \<open>haystack\<close>, \<open>h\<close> and \<open>n\<close> are offsets into the two
  buffers; a read outside a buffer makes the result \<open>None\<close>, the null pointer is \<open>Some None\<close>. The case
  sensitive and the caseless functions differ in the function \<open>norm\<close> applied to both characters
  before they are compared.
\<close>

section \<open>The code\<close>

text \<open>The table of \<open>main\<close>: a global array, so zero where the loop does not write.\<close>

definition g_u8_lowercasetable :: bytes where
  "g_u8_lowercasetable =
     fold (\<lambda>c table. table[unat c := (if 65 \<le> c \<and> c \<le> 90 then c + 32 else c)]) (map of_nat [0..<255]) (replicate 256 0)"

definition u8_tolower :: "u8 \<Rightarrow> u8" where
  "u8_tolower c = g_u8_lowercasetable ! unat c"

text \<open>The loop stops before the last entry, so 255 is folded to 0.\<close>

lemma fold_updates:
  assumes "n \<le> 256"
  shows "fold (\<lambda>c table. table[unat c := f c]) (map of_nat [0..<n]) (replicate 256 (0 :: u8)) =
    map (\<lambda>k. if k < n then f (of_nat k :: u8) else 0) [0..<256]"
  using assms
proof (induction n)
  case 0
  show ?case by (simp add: map_replicate_const)
next
  case (Suc n)
  then have "unat (of_nat n :: u8) = n" by (simp add: unat_of_nat)
  then show ?case using Suc by (auto intro!: nth_equalityI simp: nth_list_update less_Suc_eq simp del: upt_Suc_append)
qed

lemma u8_tolower_eq [code]: "u8_tolower c = (if c = 255 then 0 else if 65 \<le> c \<and> c \<le> 90 then c + 32 else c)"
proof -
  have "unat c < 256" using unat_bound[of c] by simp
  moreover have "c = 255 \<longleftrightarrow> unat c = 255" by (simp add: word_unat_eq_iff)
  ultimately show ?thesis
    by (simp add: u8_tolower_def g_u8_lowercasetable_def fold_updates)
qed

lemma lowercase_table_folds_255: "u8_tolower 255 = u8_tolower 0"
  by (simp add: u8_tolower_eq)

text \<open>How the inner loop ends: the whole needle matched, a mismatch at an offset of the haystack, or the
  condition of the loop.\<close>

datatype inner_end = Matched | Mismatch nat | Ran_out

text \<open>
  \<open>for (h = haystack + 1, n++; nmax - n <= hmax - lim; h++, n++)\<close>; \<open>lim\<close> picks \<open>haystack\<close> or \<open>h\<close>.
\<close>

function inner_loop :: "(u8 \<Rightarrow> u8) \<Rightarrow> (nat \<Rightarrow> nat \<Rightarrow> nat) \<Rightarrow> bytes \<Rightarrow> nat \<Rightarrow> bytes \<Rightarrow> nat \<Rightarrow> nat \<Rightarrow> nat \<Rightarrow> nat
    \<Rightarrow> inner_end option" where
  "inner_loop norm lim hay hmax needle nmax s h n =
     (if int nmax - int n \<le> int hmax - int (lim s h) then
        (case rd8 hay h of
          None \<Rightarrow> None
        | Some c \<Rightarrow> (case rd8 needle n of
            None \<Rightarrow> None
          | Some d \<Rightarrow>
              if norm c \<noteq> norm d then Some (Mismatch h)
              else if Suc n = nmax then Some Matched
              else inner_loop norm lim hay hmax needle nmax s (h + 1) (n + 1)))
      else Some Ran_out)"
  by pat_completeness auto

termination inner_loop
  by (relation "measure (\<lambda>(norm, lim, hay, hmax, needle, nmax, s, h, n). length needle - n)")
    (auto simp: rd8_def split: if_splits)

declare inner_loop.simps [simp del]

lemma inner_loop_offset: "inner_loop norm lim hay hmax needle nmax s h n = Some (Mismatch h') \<Longrightarrow> h \<le> h'"
proof (induction norm lim hay hmax needle nmax s h n rule: inner_loop.induct)
  case (1 norm lim hay hmax needle nmax s h n)
  from "1.prems" show ?case
    by (subst (asm) inner_loop.simps) (auto split: if_splits option.splits dest!: "1.IH")
qed

text \<open>
  The outer loop. \<open>skip\<close> looks a mismatching character up in the table of bad characters; a bad one
  moves \<open>haystack\<close> to it before the increment.
\<close>

function outer_loop :: "(u8 \<Rightarrow> u8) \<Rightarrow> (nat \<Rightarrow> nat \<Rightarrow> nat) \<Rightarrow> (u8 \<Rightarrow> bool option) \<Rightarrow> bytes \<Rightarrow> nat \<Rightarrow> bytes \<Rightarrow> nat \<Rightarrow> nat
    \<Rightarrow> nat option option" where
  "outer_loop norm lim skip hay hmax needle nmax s =
     (if int nmax \<le> int hmax - int s then
        (case rd8 hay s of
          None \<Rightarrow> None
        | Some c \<Rightarrow> (case rd8 needle 0 of
            None \<Rightarrow> None
          | Some d \<Rightarrow>
              if norm c \<noteq> norm d then outer_loop norm lim skip hay hmax needle nmax (s + 1)
              else if nmax = 1 then Some (Some s)
              else (case inner_loop norm lim hay hmax needle nmax s (s + 1) 1 of
                None \<Rightarrow> None
              | Some Matched \<Rightarrow> Some (Some s)
              | Some Ran_out \<Rightarrow> outer_loop norm lim skip hay hmax needle nmax (s + 1)
              | Some (Mismatch h) \<Rightarrow> (case rd8 hay h of
                  None \<Rightarrow> None
                | Some x \<Rightarrow> (case skip x of
                    None \<Rightarrow> None
                  | Some bad \<Rightarrow> outer_loop norm lim skip hay hmax needle nmax ((if bad then h else s) + 1))))))
      else Some None)"
  by pat_completeness auto

termination outer_loop
  by (relation "measure (\<lambda>(norm, lim, skip, hay, hmax, needle, nmax, s). length hay - s)")
    (auto simp: rd8_def split: if_splits dest!: inner_loop_offset)

declare outer_loop.simps [simp del]

definition BasicSearch :: "bytes \<Rightarrow> u32 \<Rightarrow> bytes \<Rightarrow> u32 \<Rightarrow> nat option option" where
  "BasicSearch hay hay_len needle needle_len =
     (if needle_len = 0 \<or> needle_len > hay_len then Some None
      else outer_loop id (\<lambda>s h. s) (\<lambda>_. Some False) hay (unat hay_len) needle (unat needle_len) 0)"

definition BasicSearchNocase :: "bytes \<Rightarrow> u32 \<Rightarrow> bytes \<Rightarrow> u32 \<Rightarrow> nat option option" where
  "BasicSearchNocase hay hay_len needle needle_len =
     (if needle_len = 0 \<or> needle_len > hay_len then Some None
      else outer_loop u8_tolower (\<lambda>s h. h) (\<lambda>_. Some False) hay (unat hay_len) needle (unat needle_len) 0)"

text \<open>\<open>badchars[c] = 1\<close> for every character, then 0 for the characters of the needle.\<close>

definition badchars_loop :: "(u8 \<Rightarrow> u8) \<Rightarrow> bytes \<Rightarrow> u32 \<Rightarrow> bytes option" where
  "badchars_loop norm needle needle_len =
     for_each (\<lambda>bc i. do { c \<leftarrow> rd8 needle i; Some (bc[unat (norm c) := 0]) }) (replicate 256 1) [0..<unat needle_len]"

definition Bs2BmBadchars :: "bytes \<Rightarrow> u32 \<Rightarrow> bytes option" where
  "Bs2BmBadchars = badchars_loop id"

definition Bs2BmBadcharsNocase :: "bytes \<Rightarrow> u32 \<Rightarrow> bytes option" where
  "Bs2BmBadcharsNocase = badchars_loop u8_tolower"

definition Bs2Bm :: "bytes \<Rightarrow> u32 \<Rightarrow> bytes \<Rightarrow> u32 \<Rightarrow> bytes \<Rightarrow> nat option option" where
  "Bs2Bm hay hay_len needle needle_len badchars =
     (if needle_len = 0 \<or> needle_len > hay_len then Some None
      else outer_loop id (\<lambda>s h. s) (\<lambda>c. map_option (\<lambda>b. b = 1) (rd8 badchars (unat c)))
        hay (unat hay_len) needle (unat needle_len) 0)"

definition Bs2BmNocase :: "bytes \<Rightarrow> u32 \<Rightarrow> bytes \<Rightarrow> u32 \<Rightarrow> bytes \<Rightarrow> nat option option" where
  "Bs2BmNocase hay hay_len needle needle_len badchars =
     (if needle_len = 0 \<or> needle_len > hay_len then Some None
      else outer_loop u8_tolower (\<lambda>s h. s) (\<lambda>c. map_option (\<lambda>b. b = 1) (rd8 badchars (unat (u8_tolower c))))
        hay (unat hay_len) needle (unat needle_len) 0)"

definition Bs2bmSearch :: "bytes \<Rightarrow> u32 \<Rightarrow> bytes \<Rightarrow> u32 \<Rightarrow> nat option option" where
  "Bs2bmSearch txt textlen needle needlelen = do {
     badchars \<leftarrow> Bs2BmBadchars needle needlelen;
     Bs2Bm txt textlen needle needlelen badchars
   }"

text \<open>The caseless wrapper builds its table with the case sensitive function.\<close>

definition Bs2bmNocaseSearch :: "bytes \<Rightarrow> u32 \<Rightarrow> bytes \<Rightarrow> u32 \<Rightarrow> nat option option" where
  "Bs2bmNocaseSearch txt textlen needle needlelen = do {
     badchars \<leftarrow> Bs2BmBadchars needle needlelen;
     Bs2BmNocase txt textlen needle needlelen badchars
   }"

section \<open>The specification\<close>

text \<open>The needle stands at an offset of the haystack; the search finds the first such offset.\<close>

definition occurs_at :: "(u8 \<Rightarrow> u8) \<Rightarrow> bytes \<Rightarrow> bytes \<Rightarrow> nat \<Rightarrow> bool" where
  "occurs_at norm needle hay i \<longleftrightarrow> map norm (take (length needle) (drop i hay)) = map norm needle"

definition first_match :: "(u8 \<Rightarrow> u8) \<Rightarrow> bytes \<Rightarrow> bytes \<Rightarrow> nat option" where
  "first_match norm needle hay =
     (if needle = [] \<or> length hay < length needle then None
      else List.find (occurs_at norm needle hay) [0..<length hay - length needle + 1])"

lemma occurs_at_iff:
  assumes "needle \<noteq> []"
  shows "occurs_at norm needle hay i \<longleftrightarrow>
    i + length needle \<le> length hay \<and> (\<forall>k < length needle. norm (hay ! (i + k)) = norm (needle ! k))"
proof -
  have "length (take (length needle) (drop i hay)) = length needle \<longleftrightarrow> i + length needle \<le> length hay"
    using assms by (cases needle) auto
  then show ?thesis by (auto simp: occurs_at_def list_eq_iff_nth_eq)
qed

lemma first_match_Some:
  assumes "needle \<noteq> []" "occurs_at norm needle hay s" "\<And>j. j < s \<Longrightarrow> \<not> occurs_at norm needle hay j"
  shows "first_match norm needle hay = Some s"
proof -
  have le: "s + length needle \<le> length hay" using assms(1,2) by (simp add: occurs_at_iff)
  then have "List.find (occurs_at norm needle hay) [0..<length hay - length needle + 1] = Some s"
    using assms(2,3) by (auto simp: find_Some_iff intro!: exI[of _ s] simp del: upt_Suc)
  then show ?thesis using assms(1) le by (simp add: first_match_def del: upt_Suc)
qed

lemma first_match_None:
  assumes "\<And>j. \<not> occurs_at norm needle hay j"
  shows "first_match norm needle hay = None"
  using assms by (simp add: first_match_def find_None_iff)

section \<open>The loops find the first match\<close>

lemma inner_loop_spec:
  assumes "s + nmax \<le> length hay" "nmax = length needle" "\<And>h. s \<le> h \<Longrightarrow> lim s h \<le> h"
    "h = s + n" "n < nmax" "\<forall>k < n. norm (hay ! (s + k)) = norm (needle ! k)"
  shows "inner_loop norm lim hay (length hay) needle nmax s h n = Some Matched \<and>
      (\<forall>k < nmax. norm (hay ! (s + k)) = norm (needle ! k)) \<or>
    (\<exists>n' < nmax. inner_loop norm lim hay (length hay) needle nmax s h n = Some (Mismatch (s + n')) \<and>
      norm (hay ! (s + n')) \<noteq> norm (needle ! n'))"
  using assms(4-6)
proof (induction "nmax - n" arbitrary: h n)
  case (Suc d)
  have guard: "int nmax - int n \<le> int (length hay) - int (lim s h)"
    using assms(1) assms(3)[of h] Suc.prems(1,2) by simp
  have reads: "rd8 hay h = Some (hay ! h)" "rd8 needle n = Some (needle ! n)"
    using assms(1,2) Suc.prems(1,2) by (simp_all add: rd8_def)
  consider "norm (hay ! h) \<noteq> norm (needle ! n)" | "norm (hay ! h) = norm (needle ! n)" "Suc n = nmax"
    | "norm (hay ! h) = norm (needle ! n)" "Suc n < nmax"
    using Suc.prems(2) by linarith
  then show ?case
  proof cases
    case 1
    then show ?thesis using Suc.prems guard reads by (subst inner_loop.simps, subst (2) inner_loop.simps) auto
  next
    case 2
    have "norm (hay ! (s + k)) = norm (needle ! k)" if "k < nmax" for k
      using that 2 Suc.prems(1,3) less_Suc_eq[of k n] by auto
    then show ?thesis using 2 guard reads by (subst inner_loop.simps) simp
  next
    case 3
    have "inner_loop norm lim hay (length hay) needle nmax s h n =
        inner_loop norm lim hay (length hay) needle nmax s (h + 1) (n + 1)"
      using 3 guard reads by (subst inner_loop.simps) simp
    moreover have "\<forall>k < n + 1. norm (hay ! (s + k)) = norm (needle ! k)"
      using 3 Suc.prems(1,3) by (auto simp: less_Suc_eq)
    ultimately show ?thesis
      using Suc(1)[of "n + 1" "h + 1"] Suc(2) Suc.prems 3 by simp
  qed
qed simp

lemma outer_loop_spec:
  assumes "needle \<noteq> []" "\<And>s h. s \<le> h \<Longrightarrow> lim s h \<le> h"
    "\<And>c. \<exists>bad. skip c = Some bad \<and> (bad \<longrightarrow> norm c \<notin> norm ` set needle)"
    "\<And>j. j < s \<Longrightarrow> \<not> occurs_at norm needle hay j"
  shows "outer_loop norm lim skip hay (length hay) needle (length needle) s = Some (first_match norm needle hay)"
  using assms(4)
proof (induction "length hay - s" arbitrary: s rule: less_induct)
  case less
  let ?loop = "outer_loop norm lim skip hay (length hay) needle (length needle)"
  show ?case
  proof (cases "s + length needle \<le> length hay")
    case False
    have "\<not> occurs_at norm needle hay j" for j
      using less.prems[of j] False assms(1) by (cases "j < s") (auto simp: occurs_at_iff)
    then show ?thesis using False first_match_None by (subst outer_loop.simps) auto
  next
    case True
    have pos: "0 < length needle" using assms(1) by simp
    have guard: "int (length needle) \<le> int (length hay) - int s" using True by linarith
    have reads: "rd8 hay s = Some (hay ! s)" "rd8 needle 0 = Some (needle ! 0)"
      using True pos by (auto simp: rd8_def intro: less_le_trans[of s "s + length needle"])
    have step: "?loop (t + 1) = Some (first_match norm needle hay)"
      if "s \<le> t" "t < length hay" and step_free: "\<And>j. s \<le> j \<Longrightarrow> j \<le> t \<Longrightarrow> \<not> occurs_at norm needle hay j" for t
    proof (rule less.hyps)
      show "length hay - (t + 1) < length hay - s" using that(1,2) by simp
      show "\<not> occurs_at norm needle hay j" if "j < t + 1" for j
        using that \<open>s \<le> t\<close> less.prems[of j] step_free[of j] by (cases "j < s") auto
    qed
    show ?thesis
    proof (cases "norm (hay ! s) = norm (needle ! 0)")
      case False
      then have "\<not> occurs_at norm needle hay s" using pos assms(1) by (auto simp: occurs_at_iff)
      then have "?loop (s + 1) = Some (first_match norm needle hay)"
        using step[of s] True pos by auto
      then show ?thesis using False guard reads by (subst outer_loop.simps) simp
    next
      case eq: True
      show ?thesis
      proof (cases "length needle = 1")
        case one: True
        then have "occurs_at norm needle hay s" using True eq assms(1) by (simp add: occurs_at_iff)
        then show ?thesis using first_match_Some[OF assms(1)] less.prems guard reads eq one
          by (subst outer_loop.simps) simp
      next
        case False
        then have two: "1 < length needle" using pos by linarith
        have sp: "length needle \<le> length hay - s" "s + length needle \<le> length hay" using True by simp_all
        consider "inner_loop norm lim hay (length hay) needle (length needle) s (s + 1) 1 = Some Matched"
            "\<forall>k < length needle. norm (hay ! (s + k)) = norm (needle ! k)"
          | n where "n < length needle" "norm (hay ! (s + n)) \<noteq> norm (needle ! n)"
            "inner_loop norm lim hay (length hay) needle (length needle) s (s + 1) 1 = Some (Mismatch (s + n))"
          using inner_loop_spec[of s "length needle" hay needle lim "s + 1" 1 norm] True assms(2) two eq by auto
        then show ?thesis
        proof cases
          case 1
          then have "occurs_at norm needle hay s" using True assms(1) by (simp add: occurs_at_iff)
          then show ?thesis using first_match_Some[OF assms(1)] less.prems guard reads eq 1(1) False
            by (subst outer_loop.simps) simp
        next
          case 2
          have rd: "rd8 hay (s + n) = Some (hay ! (s + n))" using 2(1) True by (simp add: rd8_def)
          obtain bad where bad: "skip (hay ! (s + n)) = Some bad" "bad \<longrightarrow> norm (hay ! (s + n)) \<notin> norm ` set needle"
            using assms(3) by blast
          have no: "\<not> occurs_at norm needle hay s" using 2(1,2) assms(1) by (auto simp: occurs_at_iff)
          have "?loop ((if bad then s + n else s) + 1) = Some (first_match norm needle hay)"
          proof (rule step)
            fix j assume j: "s \<le> j" "j \<le> (if bad then s + n else s)"
            show "\<not> occurs_at norm needle hay j"
            proof (cases bad)
              case True
              then have "s + n - j < length needle" "j + (s + n - j) = s + n" using j 2(1) by auto
              then show ?thesis using bad(2) True assms(1) nth_mem[of "s + n - j" needle]
                by (auto simp: occurs_at_iff dest!: spec[of _ "s + n - j"])
            qed (use no j in simp)
          qed (use 2(1) True in auto)
          then show ?thesis using guard reads eq False 2(3) rd bad(1) by (subst outer_loop.simps) simp
        qed
      qed
    qed
  qed
qed

section \<open>The bad character tables\<close>

lemma badchars_loop_spec:
  assumes "unat needle_len = length needle"
  shows "\<exists>bc. badchars_loop norm needle needle_len = Some bc \<and> length bc = 256 \<and>
    (\<forall>c. bc ! unat c = (if c \<in> norm ` set needle then 0 else 1))"
proof -
  let ?f = "\<lambda>bc i. do { c \<leftarrow> rd8 needle i; Some (bc[unat (norm c) := 0]) }"
  let ?I = "\<lambda>done bc. length bc = 256 \<and> (\<forall>c :: u8. bc ! unat c = (if c \<in> norm ` (!) needle ` set done then 0 else 1))"
  have "\<exists>bc. for_each ?f (replicate 256 1) [0..<length needle] = Some bc \<and> ?I [0..<length needle] bc"
  proof (rule for_each_inv)
    have "unat c < 256" for c :: u8 using unat_bound[of c] by simp
    then show "?I [] (replicate 256 1)" by simp
    fix pre i post bc
    assume split: "[0..<length needle] = pre @ i # post" and I: "?I pre bc"
    have "i < length needle" using split by (metis atLeastLessThan_iff in_set_conv_decomp set_upt)
    then show "\<exists>bc'. ?f bc i = Some bc' \<and> ?I (pre @ [i]) bc'"
      using I unat_bound[of "norm (needle ! i)"] by (auto simp: rd8_def nth_list_update unat_eq_iff)
  qed
  moreover have "norm ` (!) needle ` set [0..<length needle] = norm ` set needle"
    by (metis map_nth set_map)
  ultimately show ?thesis by (simp add: badchars_loop_def assms)
qed

section \<open>The searches\<close>

lemma u32_le: "(needle_len :: u32) > hay_len \<longleftrightarrow> unat hay_len < unat needle_len"
  and u32_zero: "needle_len = (0 :: u32) \<longleftrightarrow> unat needle_len = 0"
  by (simp_all add: word_less_nat_alt unat_eq_0)

lemma search_spec:
  fixes hay_len needle_len :: u32
  assumes "unat hay_len = length hay" "unat needle_len = length needle" "\<And>s h. s \<le> h \<Longrightarrow> lim s h \<le> h"
    "\<And>c. \<exists>bad. skip c = Some bad \<and> (bad \<longrightarrow> norm c \<notin> norm ` set needle)"
  shows "(if needle_len = 0 \<or> needle_len > hay_len then Some None
      else outer_loop norm lim skip hay (unat hay_len) needle (unat needle_len) 0) = Some (first_match norm needle hay)"
proof -
  have c: "needle_len = 0 \<or> needle_len > hay_len \<longleftrightarrow> needle = [] \<or> length hay < length needle"
    using assms(1,2) by (metis u32_le u32_zero length_0_conv)
  show ?thesis
  proof (cases "needle = [] \<or> length hay < length needle")
    case True
    then show ?thesis unfolding c by (auto simp: first_match_def)
  next
    case False
    then show ?thesis unfolding c assms(1,2) using outer_loop_spec[of needle lim skip norm 0 hay] assms(3,4) by simp
  qed
qed

text \<open>The basic searches find the first match: with both buffers of the given lengths,
  \<open>BasicSearch\<close> and \<open>BasicSearchNocase\<close> read inside the buffers only, end, and return the first offset
  at which the needle stands (up to the case of letters for the second), or the null pointer when
  there is none or the needle is empty.\<close>

theorem basic_search_first_match:
  assumes "unat hay_len = length hay" "unat needle_len = length needle"
  shows "BasicSearch hay hay_len needle needle_len = Some (first_match id needle hay) \<and>
    BasicSearchNocase hay hay_len needle needle_len = Some (first_match u8_tolower needle hay)"
  unfolding BasicSearch_def BasicSearchNocase_def by (intro conjI search_spec[OF assms]) auto

lemma basic_search_first_match_witness:
  "BasicSearch [97, 98, 97, 98, 99] 5 [97, 98, 99] 3 = Some (Some 2) \<and>
   BasicSearchNocase [65, 98, 97, 66, 99] 5 [65, 98, 67] 3 = Some (Some 2)"
proof -
  have "first_match id [97, 98, 99] [97, 98, 97, 98, 99] = Some 2"
    "first_match u8_tolower [65, 98, 67] [65, 98, 97, 66, 99] = Some 2" 
    by (simp_all add: first_match_def occurs_at_def upt_rec u8_tolower_eq)
  then show ?thesis
    using basic_search_first_match[of 5 "[97, 98, 97, 98, 99]" 3 "[97, 98, 99]"]
      basic_search_first_match[of 5 "[65, 98, 97, 66, 99]" 3 "[65, 98, 67]"] by simp
qed

text \<open>Skipping over bad characters loses nothing when the table fits the comparison: \<open>Bs2bmSearch\<close>,
  and \<open>Bs2BmNocase\<close> with the table of \<open>Bs2BmBadcharsNocase\<close>, return the first match like the basic
  searches. But \<open>Bs2bmNocaseSearch\<close> builds the case sensitive table, and misses the match of
  \<open>AAB\<close> in \<open>aaab\<close>.\<close>

theorem bs2bm_search_first_match:
  assumes "unat hay_len = length hay" "unat needle_len = length needle"
  shows "Bs2bmSearch hay hay_len needle needle_len = Some (first_match id needle hay) \<and>
    Option.bind (Bs2BmBadcharsNocase needle needle_len) (Bs2BmNocase hay hay_len needle needle_len)
      = Some (first_match u8_tolower needle hay) \<and>
    Bs2bmNocaseSearch [97, 97, 97, 98] 4 [65, 65, 66] 3 = Some None \<and>
    first_match u8_tolower [65, 65, 66] [97, 97, 97, 98] = Some 1"
proof -
  have skip: "\<exists>bad. map_option (\<lambda>b. b = 1) (rd8 bc (unat (norm c))) = Some bad \<and> (bad \<longrightarrow> norm c \<notin> norm ` set needle)"
    if "length bc = 256" "\<forall>c. bc ! unat c = (if c \<in> norm ` set needle then 0 else 1)" for bc :: bytes and norm :: "u8 \<Rightarrow> u8" and c
  proof -
    have "unat x < 256" for x :: u8 using unat_bound[of x] by simp
    then show ?thesis using that by (simp add: rd8_def)
  qed
  obtain bc where bc: "badchars_loop id needle needle_len = Some bc" "length bc = 256"
      "\<forall>c. bc ! unat c = (if c \<in> id ` set needle then 0 else 1)"
    using badchars_loop_spec[OF assms(2)] by blast
  obtain bn where bn: "badchars_loop u8_tolower needle needle_len = Some bn" "length bn = 256"
      "\<forall>c. bn ! unat c = (if c \<in> u8_tolower ` set needle then 0 else 1)"
    using badchars_loop_spec[OF assms(2)] by blast
  have "Bs2Bm hay hay_len needle needle_len bc = Some (first_match id needle hay)"
    unfolding Bs2Bm_def using skip[OF bc(2,3)] by (intro search_spec[OF assms]) auto
  moreover have "Bs2BmNocase hay hay_len needle needle_len bn = Some (first_match u8_tolower needle hay)"
    unfolding Bs2BmNocase_def using skip[OF bn(2,3)] by (intro search_spec[OF assms]) auto
  moreover have "Bs2bmNocaseSearch [97, 97, 97, 98] 4 [65, 65, 66] 3 = Some None" by code_simp
  moreover have "first_match u8_tolower [65, 65, 66] [97, 97, 97, 98] = Some 1"
    by (simp add: first_match_def occurs_at_def upt_rec u8_tolower_eq)
  ultimately show ?thesis
    using bc(1) bn(1) by (simp add: Bs2bmSearch_def Bs2BmBadchars_def Bs2BmBadcharsNocase_def)
qed

lemma bs2bm_search_first_match_witness:
  "Bs2bmSearch [97, 98, 97, 98, 99] 5 [97, 98, 99] 3 = Some (Some 2)"
proof -
  have "first_match id [97, 98, 99] [97, 98, 97, 98, 99] = Some 2"
    by (simp add: first_match_def occurs_at_def upt_rec)
  then show ?thesis using bs2bm_search_first_match[of 5 "[97, 98, 97, 98, 99]" 3 "[97, 98, 99]"] by simp
qed

end
