(* ===== verification/SpmBoyerMoore.thy ===== *)
theory SpmBoyerMoore
  imports SpmBasic
begin

text \<open>
  The Boyer Moore search (\<open>src/util-spm-bm.c\<close>) and its wrappers (\<open>src/util-spm.c\<close>, \<open>src/util-spm.h\<close>): the bad
  character and the good suffix tables and the search itself. The lengths that the wrappers get are
  \<open>uint32_t\<close> words, which their calls convert to \<open>int32_t\<close>: \<open>sint\<close>, negative from \<open>2 ^ 31\<close> on. Inside the
  tables and the search the \<open>int32_t\<close> indexes and shifts are unbounded integers: they stay between -1 and the
  lengths of needle and text, and the largest intermediate sum, \<open>i + m - 1\<close>, is below twice the length of the
  needle, so they are exact for a needle of at most \<open>2 ^ 30\<close> bytes, to which the properties are restricted. An
  array is a list; an access outside it, a needle without characters included, makes the result \<open>None\<close>. The
  arrays of the callers and of \<open>SCMalloc\<close> come as arguments with whatever they contain.
\<close>

section \<open>The tables\<close>

definition rdi :: "'a list \<Rightarrow> int \<Rightarrow> 'a option" where
  "rdi xs i = (if 0 \<le> i \<and> i < int (length xs) then Some (xs ! nat i) else None)"

definition wri :: "'a list \<Rightarrow> int \<Rightarrow> 'a \<Rightarrow> 'a list option" where
  "wri xs i v = (if 0 \<le> i \<and> i < int (length xs) then Some (xs[nat i := v]) else None)"

definition pre_bm_bc :: "(u8 \<Rightarrow> u8) \<Rightarrow> bytes \<Rightarrow> int \<Rightarrow> int list \<Rightarrow> int list option" where
  "pre_bm_bc norm x m bc = do {
     bc \<leftarrow> for_each (\<lambda>bc i. wri bc i m) bc [0..255];
     for_each (\<lambda>bc i. do { c \<leftarrow> rdi x i; wri bc (int (unat (norm c))) (m - i - 1) }) bc [0..m - 2]
   }"

definition PreBmBc :: "bytes \<Rightarrow> int \<Rightarrow> int list \<Rightarrow> int list option" where
  "PreBmBc = pre_bm_bc id"

definition PreBmBcNocase :: "bytes \<Rightarrow> int \<Rightarrow> int list \<Rightarrow> int list option" where
  "PreBmBcNocase = pre_bm_bc u8_tolower"

text \<open>\<open>while (g >= 0 && x[g] == x[g + m - 1 - f]) --g;\<close>\<close>

function run_back :: "(u8 \<Rightarrow> u8) \<Rightarrow> bytes \<Rightarrow> int \<Rightarrow> int \<Rightarrow> int \<Rightarrow> int option" where
  "run_back norm x m f g =
     (if g \<ge> 0 then
        (case rdi x g of
          None \<Rightarrow> None
        | Some a \<Rightarrow> (case rdi x (g + m - 1 - f) of
            None \<Rightarrow> None
          | Some b \<Rightarrow> if norm a = norm b then run_back norm x m f (g - 1) else Some g))
      else Some g)"
  by pat_completeness auto

termination run_back
  by (relation "measure (\<lambda>(norm, x, m, f, g). nat (g + 1))") auto

declare run_back.simps [simp del]

definition suffix_step :: "(u8 \<Rightarrow> u8) \<Rightarrow> bytes \<Rightarrow> int \<Rightarrow> int list \<times> int \<times> int \<Rightarrow> int \<Rightarrow> (int list \<times> int \<times> int) option" where
  "suffix_step norm x m s i =
     (case s of (suff, f, g) \<Rightarrow> do {
        copy \<leftarrow> (if i > g then do { v \<leftarrow> rdi suff (i + m - 1 - f); Some (v < i - g) } else Some False);
        if copy then do {
          v \<leftarrow> rdi suff (i + m - 1 - f);
          suff \<leftarrow> wri suff i v;
          Some (suff, f, g)
        } else do {
          let g = (if i < g then i else g);
          let f = i;
          g \<leftarrow> run_back norm x m f g;
          suff \<leftarrow> wri suff i (f - g);
          Some (suff, f, g)
        }
      })"

definition bm_suffixes :: "(u8 \<Rightarrow> u8) \<Rightarrow> bytes \<Rightarrow> int \<Rightarrow> int list \<Rightarrow> int list option" where
  "bm_suffixes norm x m suff = do {
     suff \<leftarrow> wri suff (m - 1) m;
     (suff, f, g) \<leftarrow> for_each (suffix_step norm x m) (suff, 0, m - 1) (rev [0..m - 2]);
     Some suff
   }"

definition BoyerMooreSuffixes :: "bytes \<Rightarrow> int \<Rightarrow> int list \<Rightarrow> int list option" where
  "BoyerMooreSuffixes = bm_suffixes id"

definition BoyerMooreSuffixesNocase :: "bytes \<Rightarrow> int \<Rightarrow> int list \<Rightarrow> int list option" where
  "BoyerMooreSuffixesNocase = bm_suffixes u8_tolower"

text \<open>\<open>for (; j < m - 1 - i; ++j) if (bmGs[j] == m) bmGs[j] = m - 1 - i;\<close>\<close>

definition border_step :: "int \<Rightarrow> int list \<Rightarrow> int list \<times> int \<Rightarrow> int \<Rightarrow> (int list \<times> int) option" where
  "border_step m suff s i =
     (case s of (gs, j) \<Rightarrow> do {
        border \<leftarrow> (if i = - 1 then Some True else do { v \<leftarrow> rdi suff i; Some (v = i + 1) });
        if border then do {
          gs \<leftarrow> for_each (\<lambda>gs j. do { v \<leftarrow> rdi gs j; if v = m then wri gs j (m - 1 - i) else Some gs })
            gs [j..m - 2 - i];
          Some (gs, max j (m - 1 - i))
        } else Some (gs, j)
      })"

text \<open>
  The two functions differ in the last index of the border loop, -1 or 0. \<open>suff\<close> is what \<open>SCMalloc\<close>
  gave, \<open>None\<close> for the null pointer: then the table stays as it was.
\<close>

definition pre_bm_gs :: "(u8 \<Rightarrow> u8) \<Rightarrow> int \<Rightarrow> int list option \<Rightarrow> bytes \<Rightarrow> int \<Rightarrow> int list \<Rightarrow> int list option" where
  "pre_bm_gs norm low suff x m gs =
     (case suff of
        None \<Rightarrow> Some gs
      | Some suff \<Rightarrow> do {
          suff \<leftarrow> bm_suffixes norm x m suff;
          gs \<leftarrow> for_each (\<lambda>gs i. wri gs i m) gs [0..m - 1];
          (gs, j) \<leftarrow> for_each (border_step m suff) (gs, 0) (rev [low..m - 1]);
          for_each (\<lambda>gs i. do { v \<leftarrow> rdi suff i; wri gs (m - 1 - v) (m - 1 - i) }) gs [0..m - 2]
        })"

definition PreBmGs :: "int list option \<Rightarrow> bytes \<Rightarrow> int \<Rightarrow> int list \<Rightarrow> int list option" where
  "PreBmGs = pre_bm_gs id (- 1)"

definition PreBmGsNocase :: "int list option \<Rightarrow> bytes \<Rightarrow> int \<Rightarrow> int list \<Rightarrow> int list option" where
  "PreBmGsNocase = pre_bm_gs u8_tolower 0"

section \<open>The search\<close>

text \<open>\<open>for (i = m - 1; i >= 0 && x[i] == y[i + j]; --i);\<close>\<close>

function match_back :: "(u8 \<Rightarrow> u8) \<Rightarrow> bytes \<Rightarrow> bytes \<Rightarrow> int \<Rightarrow> int \<Rightarrow> int option" where
  "match_back norm x y j i =
     (if i \<ge> 0 then
        (case rdi x i of
          None \<Rightarrow> None
        | Some a \<Rightarrow> (case rdi y (i + j) of
            None \<Rightarrow> None
          | Some b \<Rightarrow> if norm a = norm b then match_back norm x y j (i - 1) else Some i))
      else Some i)"
  by pat_completeness auto

termination match_back
  by (relation "measure (\<lambda>(norm, x, y, j, i). nat (i + 1))") auto

declare match_back.simps [simp del]

text \<open>
  The loop ends only if the shifts are positive, so it is a partial function: \<open>None\<close> is also the
  search that does not end.
\<close>

partial_function (option) bm_loop :: "(u8 \<Rightarrow> u8) \<Rightarrow> bytes \<Rightarrow> int \<Rightarrow> bytes \<Rightarrow> int \<Rightarrow> int list \<Rightarrow> int list \<Rightarrow> int
    \<Rightarrow> int option option" where
  "bm_loop norm x m y n gs bc j =
     (if j \<le> n - m then do {
        i \<leftarrow> match_back norm x y j (m - 1);
        if i < 0 then Some (Some j)
        else do {
          m1 \<leftarrow> rdi gs i;
          c \<leftarrow> rdi y (i + j);
          b \<leftarrow> rdi bc (int (unat (norm c)));
          let m2 = b - m + 1 + i;
          bm_loop norm x m y n gs bc (j + (if m1 > m2 then m1 else m2))
        }
      } else Some None)"

definition BoyerMoore :: "bytes \<Rightarrow> int \<Rightarrow> bytes \<Rightarrow> int \<Rightarrow> int list \<Rightarrow> int list \<Rightarrow> int option option" where
  "BoyerMoore x m y n gs bc = bm_loop id x m y n gs bc 0"

definition BoyerMooreNocase :: "bytes \<Rightarrow> int \<Rightarrow> bytes \<Rightarrow> int \<Rightarrow> int list \<Rightarrow> int list \<Rightarrow> int option option" where
  "BoyerMooreNocase x m y n gs bc = bm_loop u8_tolower x m y n gs bc 0"

record BmCtx =
  bmBc :: "int list"
  bmGs :: "int list"

text \<open>The context of a needle; \<open>bc\<close>, \<open>gs\<close> and \<open>suff\<close> are the fresh arrays.\<close>

definition BoyerMooreCtxInit :: "int list \<Rightarrow> int list \<Rightarrow> int list option \<Rightarrow> bytes \<Rightarrow> u32 \<Rightarrow> BmCtx option" where
  "BoyerMooreCtxInit bc gs suff needle needle_len = do {
     bc \<leftarrow> PreBmBc needle (sint needle_len) bc;
     gs \<leftarrow> PreBmGs suff needle (sint needle_len) gs;
     Some \<lparr>bmBc = bc, bmGs = gs\<rparr>
   }"

definition BoyerMooreCtxToNocase :: "int list option \<Rightarrow> BmCtx \<Rightarrow> bytes \<Rightarrow> u32 \<Rightarrow> BmCtx option" where
  "BoyerMooreCtxToNocase suff ctx needle needle_len = do {
     bc \<leftarrow> PreBmBcNocase needle (sint needle_len) (bmBc ctx);
     gs \<leftarrow> PreBmGsNocase suff needle (sint needle_len) (bmGs ctx);
     Some (ctx\<lparr>bmBc := bc, bmGs := gs\<rparr>)
   }"

text \<open>
  The wrappers; \<open>gs\<close> is \<open>None\<close> when the allocation of \<open>bmGs\<close> fails. The lengths are converted to \<open>int32_t\<close>
  on the calls.
\<close>

definition BoyerMooreSearch :: "int list \<Rightarrow> int list option \<Rightarrow> int list option \<Rightarrow> bytes \<Rightarrow> u32 \<Rightarrow> bytes \<Rightarrow> u32
    \<Rightarrow> int option option" where
  "BoyerMooreSearch bc gs suff txt textlen needle needlelen =
     (case gs of
        None \<Rightarrow> Some None
      | Some gs \<Rightarrow> do {
          gs \<leftarrow> PreBmGs suff needle (sint needlelen) gs;
          bc \<leftarrow> PreBmBc needle (sint needlelen) bc;
          BoyerMoore needle (sint needlelen) txt (sint textlen) gs bc
        })"

definition BoyerMooreNocaseSearch :: "int list \<Rightarrow> int list option \<Rightarrow> int list option \<Rightarrow> bytes \<Rightarrow> u32 \<Rightarrow> bytes \<Rightarrow> u32
    \<Rightarrow> int option option" where
  "BoyerMooreNocaseSearch bc gs suff txt textlen needle needlelen =
     (case gs of
        None \<Rightarrow> Some None
      | Some gs \<Rightarrow> do {
          gs \<leftarrow> PreBmGsNocase suff needle (sint needlelen) gs;
          bc \<leftarrow> PreBmBcNocase needle (sint needlelen) bc;
          BoyerMooreNocase needle (sint needlelen) txt (sint textlen) gs bc
        })"

text \<open>The choice by the length of the needle, \<open>SpmSearch\<close> and \<open>SpmNocaseSearch\<close>.\<close>

definition SpmSearch :: "int list \<Rightarrow> int list option \<Rightarrow> int list option \<Rightarrow> bytes \<Rightarrow> u32 \<Rightarrow> bytes \<Rightarrow> u32
    \<Rightarrow> int option option" where
  "SpmSearch bc gs suff txt textlen needle needlelen =
     (if needlelen < 4 \<and> textlen < 512 then map_option (map_option int) (BasicSearch txt textlen needle needlelen)
      else if needlelen < 4 then map_option (map_option int) (BasicSearch txt textlen needle needlelen)
      else BoyerMooreSearch bc gs suff txt textlen needle needlelen)"

definition SpmNocaseSearch :: "int list \<Rightarrow> int list option \<Rightarrow> int list option \<Rightarrow> bytes \<Rightarrow> u32 \<Rightarrow> bytes \<Rightarrow> u32
    \<Rightarrow> int option option" where
  "SpmNocaseSearch bc gs suff txt textlen needle needlelen =
     (if needlelen < 4 \<and> textlen < 512 then map_option (map_option int) (BasicSearchNocase txt textlen needle needlelen)
      else if needlelen < 4 then map_option (map_option int) (BasicSearchNocase txt textlen needle needlelen)
      else BoyerMooreNocaseSearch bc gs suff txt textlen needle needlelen)"

section \<open>Loops over integer ranges\<close>

lemma for_each_up:
  assumes "a \<le> b + 1" "I a s" "\<And>i s. a \<le> i \<Longrightarrow> i \<le> b \<Longrightarrow> I i s \<Longrightarrow> \<exists>s'. f s i = Some s' \<and> I (i + 1) s'"
  shows "\<exists>s'. for_each f s [a..b] = Some s' \<and> I (b + 1) s'"
  using assms
proof (induction "nat (b + 1 - a)" arbitrary: a s)
  case 0
  then have "a = b + 1" by simp
  then show ?case using 0 by (intro exI[of _ s]) simp
next
  case (Suc d)
  then have le: "a \<le> b" by simp
  have d: "d = nat (b - a)" using Suc(2) by linarith
  obtain s1 where s1: "f s a = Some s1" "I (a + 1) s1" using Suc.prems(3)[of a s] Suc.prems(2) le by auto
  obtain s' where "for_each f s1 [a + 1..b] = Some s'" "I (b + 1) s'"
    using Suc(1)[of "a + 1" s1] d Suc.prems(3) s1(2) le by auto
  then show ?case using s1(1) le by (simp add: upto_rec1)
qed

lemma for_each_down:
  assumes "a \<le> b + 1" "I b s" "\<And>i s. a \<le> i \<Longrightarrow> i \<le> b \<Longrightarrow> I i s \<Longrightarrow> \<exists>s'. f s i = Some s' \<and> I (i - 1) s'"
  shows "\<exists>s'. for_each f s (rev [a..b]) = Some s' \<and> I (a - 1) s'"
  using assms
proof (induction "nat (b + 1 - a)" arbitrary: b s)
  case 0
  then have "a = b + 1" by simp
  then show ?case using 0 by (intro exI[of _ s]) simp
next
  case (Suc d)
  then have le: "a \<le> b" by simp
  have d: "d = nat (b - a)" using Suc(2) by linarith
  obtain s1 where s1: "f s b = Some s1" "I (b - 1) s1" using Suc.prems(3)[of b s] Suc.prems(2) le by auto
  obtain s' where "for_each f s1 (rev [a..b - 1]) = Some s'" "I (a - 1) s'"
    using Suc(1)[of "b - 1" s1] d Suc.prems(3) s1(2) le by auto
  then show ?case using s1(1) le by (simp add: upto_rec2)
qed

lemma rdi_Some [mem_simps]: "0 \<le> i \<Longrightarrow> i < int (length xs) \<Longrightarrow> rdi xs i = Some (xs ! nat i)"
  by (simp add: rdi_def)

lemma wri_Some [mem_simps]: "0 \<le> i \<Longrightarrow> i < int (length xs) \<Longrightarrow> wri xs i v = Some (xs[nat i := v])"
  by (simp add: wri_def)

lemma nth_wri: "0 \<le> i \<Longrightarrow> 0 \<le> k \<Longrightarrow> i < int (length xs) \<Longrightarrow>
    xs[nat i := v] ! nat k = (if k = i then v else xs ! nat k)"
  by (auto simp: nth_list_update)

section \<open>The suffix table\<close>

text \<open>The normalised character of a string at an integer index.\<close>

definition chr :: "(u8 \<Rightarrow> u8) \<Rightarrow> bytes \<Rightarrow> int \<Rightarrow> u8" where
  "chr norm x i = norm (x ! nat i)"

text \<open>\<open>k\<close> is the length of the longest common suffix of the prefix that ends at \<open>i\<close> and the needle.\<close>

definition suffix_len :: "(u8 \<Rightarrow> u8) \<Rightarrow> bytes \<Rightarrow> int \<Rightarrow> int \<Rightarrow> bool" where
  "suffix_len norm x i k \<longleftrightarrow> 0 \<le> k \<and> k \<le> i + 1 \<and>
     (\<forall>t. 0 \<le> t \<and> t < k \<longrightarrow> chr norm x (i - t) = chr norm x (int (length x) - 1 - t)) \<and>
     (k \<le> i \<longrightarrow> chr norm x (i - k) \<noteq> chr norm x (int (length x) - 1 - k))"

lemma suffix_len_unique:
  assumes "suffix_len norm x i k" "suffix_len norm x i k'"
  shows "k = k'"
proof (rule ccontr)
  assume "k \<noteq> k'"
  then consider "k < k'" | "k' < k" by linarith
  then show False
    using assms unfolding suffix_len_def by cases (metis add1_zle_eq add_le_cancel_right dual_order.trans)+
qed

lemma run_back_spec:
  assumes "- 1 \<le> g" "g \<le> f" "f < int (length x)" "0 \<le> f"
  shows "\<exists>g'. run_back norm x (int (length x)) f g = Some g' \<and> - 1 \<le> g' \<and> g' \<le> g \<and>
    (\<forall>h. g' < h \<and> h \<le> g \<longrightarrow> chr norm x h = chr norm x (h + int (length x) - 1 - f)) \<and>
    (0 \<le> g' \<longrightarrow> chr norm x g' \<noteq> chr norm x (g' + int (length x) - 1 - f))"
  using assms(1,2)
proof (induction "nat (g + 1)" arbitrary: g)
  case 0
  then show ?case by (subst run_back.simps) auto
next
  case (Suc d)
  then have ge: "0 \<le> g" by simp
  have d: "d = nat g" using Suc(2) by linarith
  have rd: "rdi x g = Some (x ! nat g)" "rdi x (g + int (length x) - 1 - f) = Some (x ! nat (g + int (length x) - 1 - f))"
    using ge Suc.prems assms(3) by (simp_all add: rdi_def)
  show ?case
  proof (cases "chr norm x g = chr norm x (g + int (length x) - 1 - f)")
    case False
    then show ?thesis using rd ge Suc.prems by (subst run_back.simps) (auto simp: chr_def)
  next
    case True
    then have run: "run_back norm x (int (length x)) f g = run_back norm x (int (length x)) f (g - 1)"
      using rd ge by (subst run_back.simps) (simp add: chr_def)
    obtain g' where "run_back norm x (int (length x)) f (g - 1) = Some g'" "- 1 \<le> g'" "g' \<le> g - 1"
      "\<forall>h. g' < h \<and> h \<le> g - 1 \<longrightarrow> chr norm x h = chr norm x (h + int (length x) - 1 - f)"
      "0 \<le> g' \<longrightarrow> chr norm x g' \<noteq> chr norm x (g' + int (length x) - 1 - f)"
      using Suc(1)[of "g - 1"] d Suc.prems ge by auto
    moreover have "h = g \<or> h \<le> g - 1" if "h \<le> g" for h using that by linarith
    ultimately show ?thesis using True unfolding run by (intro exI[of _ g']) auto
  qed
qed

text \<open>
  The invariant of the suffix loop before index \<open>i\<close>: the entries above \<open>i\<close> are right, and the window
  from \<open>g + 1\<close> to \<open>f\<close> repeats the end of the needle.
\<close>

definition suffixes_inv :: "(u8 \<Rightarrow> u8) \<Rightarrow> bytes \<Rightarrow> nat \<Rightarrow> int \<Rightarrow> int list \<times> int \<times> int \<Rightarrow> bool" where
  "suffixes_inv norm x len i s \<longleftrightarrow>
     (case s of (suff, f, g) \<Rightarrow> length suff = len \<and> - 1 \<le> g \<and>
       (\<forall>j. i < j \<and> j < int (length x) \<longrightarrow> suffix_len norm x j (suff ! nat j)) \<and>
       (\<forall>h. g < h \<and> h \<le> f \<longrightarrow> chr norm x h = chr norm x (h + int (length x) - 1 - f)) \<and>
       (g < i \<longrightarrow> i < f \<and> f \<le> int (length x) - 2))"

lemma suffix_step_inv:
  assumes inv: "suffixes_inv norm x len i s" and i: "0 \<le> i" "i \<le> int (length x) - 2" and len: "length x \<le> len"
  shows "\<exists>s'. suffix_step norm x (int (length x)) s i = Some s' \<and> suffixes_inv norm x len (i - 1) s'"
proof -
  let ?m = "int (length x)" and ?X = "chr norm x"
  obtain suff f g where s: "s = (suff, f, g)" by (cases s)
  have L: "length suff = len" and g: "- 1 \<le> g" and win: "\<And>h. g < h \<Longrightarrow> h \<le> f \<Longrightarrow> ?X h = ?X (h + ?m - 1 - f)"
    and above: "\<And>j. i < j \<Longrightarrow> j < ?m \<Longrightarrow> suffix_len norm x j (suff ! nat j)"
    and bnd: "g < i \<Longrightarrow> i < f \<and> f \<le> ?m - 2"
    using inv by (auto simp: suffixes_inv_def s)
  define idx where "idx = i + ?m - 1 - f"
  define v where "v = suff ! nat idx"
  have idx: "i < idx" "idx < ?m - 1" if "g < i" using bnd[OF that] by (auto simp: idx_def)
  have v: "suffix_len norm x idx v" if "g < i"
    using above[of idx] idx[OF that] by (simp add: v_def)
  have shift: "?X (i - t) = ?X (idx - t)" if "g < i" "0 \<le> t" "t < i - g" for t
    using win[of "i - t"] that bnd[OF that(1)] by (simp add: idx_def algebra_simps)
  have rd: "rdi suff idx = Some v" if "g < i"
    using idx[OF that] i L len by (simp add: rdi_def v_def)
  have update: "suffixes_inv norm x len (i - 1) (suff[nat i := k], f', g')"
    if "suffix_len norm x i k" "- 1 \<le> g'" "\<And>h. g' < h \<Longrightarrow> h \<le> f' \<Longrightarrow> ?X h = ?X (h + ?m - 1 - f')"
      "g' < i - 1 \<Longrightarrow> i - 1 < f' \<and> f' \<le> ?m - 2" for k f' g'
  proof -
    have "suffix_len norm x j (suff[nat i := k] ! nat j)" if "i - 1 < j" "j < ?m" for j
      using that \<open>suffix_len norm x i k\<close> above[of j] i L len by (cases "j = i") (auto simp: nth_wri)
    then show ?thesis using that L by (simp add: suffixes_inv_def)
  qed
  have wr: "wri suff i k = Some (suff[nat i := k])" for k using i L len by (simp add: wri_def)
  show ?thesis
  proof (cases "g < i \<and> v < i - g")
    case True
    then have k: "0 \<le> v" "v \<le> i" using v g by (auto simp: suffix_len_def)
    have "?X (i - v) \<noteq> ?X (?m - 1 - v)"
      using v True k idx shift[of v] by (auto simp: suffix_len_def)
    then have "suffix_len norm x i v"
      using v True k shift by (auto simp: suffix_len_def)
    then have "suffixes_inv norm x len (i - 1) (suff[nat i := v], f, g)"
      using g win bnd True by (intro update) auto
    then show ?thesis using True rd wr by (simp add: s suffix_step_def flip: idx_def)
  next
    case False
    define g0 where "g0 = (if i < g then i else g)"
    have g0: "- 1 \<le> g0" "g0 \<le> i" using g i False by (auto simp: g0_def) 
    have known: "?X h = ?X (h + ?m - 1 - i)" if "g0 < h" "h \<le> i" for h
    proof -
      have gi: "g < i" using that by (auto simp: g0_def split: if_splits)
      then have "i - h < v" "0 \<le> i - h" "i - h < i - g" using False that by (auto simp: g0_def)
      then have "?X (idx - (i - h)) = ?X (?m - 1 - (i - h))" using v[OF gi] by (simp add: suffix_len_def)
      then show ?thesis using shift[of "i - h"] gi \<open>0 \<le> i - h\<close> \<open>i - h < i - g\<close> by (simp add: algebra_simps)
    qed
    obtain g' where g': "run_back norm x ?m i g0 = Some g'" "- 1 \<le> g'" "g' \<le> g0"
      "\<And>h. g' < h \<Longrightarrow> h \<le> g0 \<Longrightarrow> ?X h = ?X (h + ?m - 1 - i)" "0 \<le> g' \<Longrightarrow> ?X g' \<noteq> ?X (g' + ?m - 1 - i)"
      using run_back_spec[of g0 i x norm] g0 i by auto
    have all: "?X h = ?X (h + ?m - 1 - i)" if "g' < h" "h \<le> i" for h
      using known[of h] g'(4)[of h] that by (cases "h \<le> g0") auto
    have "suffix_len norm x i (i - g')"
      unfolding suffix_len_def
    proof (intro conjI allI impI)
      fix t assume "0 \<le> t \<and> t < i - g'"
      then show "?X (i - t) = ?X (?m - 1 - t)" using all[of "i - t"] by (simp add: algebra_simps)
    next
      assume "i - g' \<le> i"
      then show "?X (i - (i - g')) \<noteq> ?X (?m - 1 - (i - g'))" using g'(5) by (simp add: algebra_simps)
    qed (use g' g0 in auto)
    then have "suffixes_inv norm x len (i - 1) (suff[nat i := i - g'], i, g')"
      using g'(2) all i by (intro update) auto
    moreover have "suffix_step norm x ?m (suff, f, g) i = Some (suff[nat i := i - g'], i, g')"
      using False rd wr g'(1) by (cases "g < i") (simp_all add: suffix_step_def g0_def flip: idx_def)
    ultimately show ?thesis by (simp add: s)
  qed
qed

lemma bm_suffixes_spec:
  assumes "x \<noteq> []" "length x \<le> length suff"
  shows "\<exists>suff'. bm_suffixes norm x (int (length x)) suff = Some suff' \<and> length suff' = length suff \<and>
    (\<forall>i. 0 \<le> i \<and> i < int (length x) \<longrightarrow> suffix_len norm x i (suff' ! nat i))"
proof -
  let ?m = "int (length x)"
  have m: "0 < ?m" using assms(1) by simp
  have w: "wri suff (?m - 1) ?m = Some (suff[nat (?m - 1) := ?m])" using m assms(2) by (simp add: wri_def)
  have whole: "suffix_len norm x (?m - 1) ?m" using m by (simp add: suffix_len_def)
  have "suffix_len norm x j (suff[nat (?m - 1) := ?m] ! nat j)" if "?m - 2 < j" "j < ?m" for j
  proof -
    have "j = ?m - 1" using that by linarith
    then show ?thesis using whole m assms(2) by (simp add: nth_wri)
  qed
  then have start: "suffixes_inv norm x (length suff) (?m - 2) (suff[nat (?m - 1) := ?m], 0, ?m - 1)"
    unfolding suffixes_inv_def prod.case using m by (intro conjI allI impI) (blast | linarith | simp)+
  obtain s where "for_each (suffix_step norm x ?m) (suff[nat (?m - 1) := ?m], 0, ?m - 1) (rev [0..?m - 2]) = Some s"
    "suffixes_inv norm x (length suff) (0 - 1) s"
    using for_each_down[where I="suffixes_inv norm x (length suff)", OF _ start, of 0 "suffix_step norm x ?m"]
      suffix_step_inv[of norm x "length suff"] assms(2) m by auto
  then show ?thesis using w
    by (cases s) (auto simp: bm_suffixes_def suffixes_inv_def)
qed

section \<open>The good suffix table\<close>

text \<open>
  The shifts that are compatible with a mismatch at \<open>p\<close> after a match of everything behind \<open>p\<close>; a table is
  safe when no entry exceeds a compatible shift, and progresses when every entry is positive.
\<close>

definition compatible :: "(u8 \<Rightarrow> u8) \<Rightarrow> bytes \<Rightarrow> int \<Rightarrow> int \<Rightarrow> bool" where
  "compatible norm x p d \<longleftrightarrow>
     (\<forall>k. p < k \<and> k < int (length x) \<and> d \<le> k \<longrightarrow> chr norm x (k - d) = chr norm x k) \<and>
     (d \<le> p \<longrightarrow> chr norm x (p - d) \<noteq> chr norm x p)"

definition good_suffix_ok :: "(u8 \<Rightarrow> u8) \<Rightarrow> bytes \<Rightarrow> int list \<Rightarrow> bool" where
  "good_suffix_ok norm x gs \<longleftrightarrow> length x \<le> length gs \<and>
     (\<forall>p. 0 \<le> p \<and> p < int (length x) \<longrightarrow> 1 \<le> gs ! nat p \<and> gs ! nat p \<le> int (length x) \<and>
       (\<forall>d. 1 \<le> d \<and> d < int (length x) \<and> compatible norm x p d \<longrightarrow> gs ! nat p \<le> d))"

definition border :: "(u8 \<Rightarrow> u8) \<Rightarrow> bytes \<Rightarrow> int \<Rightarrow> bool" where
  "border norm x d \<longleftrightarrow> (\<forall>k. d \<le> k \<and> k < int (length x) \<longrightarrow> chr norm x (k - d) = chr norm x k)"

lemma border_suffix_len:
  assumes "0 \<le> i" "i < int (length x)" "suffix_len norm x i v"
  shows "border norm x (int (length x) - 1 - i) \<longleftrightarrow> v = i + 1"
proof
  let ?m = "int (length x)"
  assume b: "border norm x (?m - 1 - i)"
  have "suffix_len norm x i (i + 1)"
    unfolding suffix_len_def
  proof (intro conjI allI impI)
    fix t assume "0 \<le> t \<and> t < i + 1"
    then show "chr norm x (i - t) = chr norm x (?m - 1 - t)"
      using b[unfolded border_def, rule_format, of "?m - 1 - t"] by (simp add: algebra_simps)
  qed (use assms in auto)
  then show "v = i + 1" using suffix_len_unique assms(3) by blast
next
  let ?m = "int (length x)"
  assume v: "v = i + 1"
  show "border norm x (?m - 1 - i)"
    unfolding border_def
  proof (intro allI impI)
    fix k assume k: "?m - 1 - i \<le> k \<and> k < ?m"
    then have "0 \<le> ?m - 1 - k" "?m - 1 - k < i + 1" by linarith+
    then have "chr norm x (i - (?m - 1 - k)) = chr norm x (?m - 1 - (?m - 1 - k))"
      using assms(3) v unfolding suffix_len_def by blast
    then show "chr norm x (k - (?m - 1 - i)) = chr norm x k" by (simp add: algebra_simps)
  qed
qed

text \<open>The invariant of the border loop before index \<open>i\<close>: the entries below \<open>j\<close> are set, the others not yet.\<close>

definition borders_inv :: "(u8 \<Rightarrow> u8) \<Rightarrow> bytes \<Rightarrow> nat \<Rightarrow> int \<Rightarrow> int list \<times> int \<Rightarrow> bool" where
  "borders_inv norm x len i s \<longleftrightarrow>
     (case s of (gs, j) \<Rightarrow> length gs = len \<and> 0 \<le> j \<and> j \<le> max 0 (int (length x) - 2 - i) \<and>
       (\<forall>p. 0 \<le> p \<and> p < j \<longrightarrow> 1 \<le> gs ! nat p \<and> gs ! nat p \<le> int (length x) - 2 - i) \<and>
       (\<forall>p. j \<le> p \<and> p < int (length x) \<longrightarrow> gs ! nat p = int (length x)) \<and>
       (\<forall>d. 1 \<le> d \<and> d \<le> int (length x) - 2 - i \<and> d < int (length x) \<and> border norm x d \<longrightarrow>
         d \<le> j \<and> (\<forall>p. 0 \<le> p \<and> p < d \<longrightarrow> gs ! nat p \<le> d)))"

lemma fill_spec:
  assumes "0 \<le> a" "b < int (length gs)" "a \<le> b + 1" "\<And>p. a \<le> p \<Longrightarrow> p \<le> b \<Longrightarrow> gs ! nat p = m" 
  shows "\<exists>gs'. for_each (\<lambda>gs j. do { v \<leftarrow> rdi gs j; if v = m then wri gs j w else Some gs }) gs [a..b] = Some gs' \<and>
    length gs' = length gs \<and> (\<forall>p. 0 \<le> p \<longrightarrow> gs' ! nat p = (if a \<le> p \<and> p \<le> b then w else gs ! nat p))"
proof -
  let ?I = "\<lambda>j gs'. length gs' = length gs \<and> (\<forall>p. 0 \<le> p \<longrightarrow> gs' ! nat p = (if a \<le> p \<and> p < j then w else gs ! nat p))"
  have "\<exists>gs'. for_each (\<lambda>gs j. do { v \<leftarrow> rdi gs j; if v = m then wri gs j w else Some gs }) gs [a..b] = Some gs' \<and> ?I (b + 1) gs'"
  proof (rule for_each_up)
    fix j gs' assume j: "a \<le> j" "j \<le> b" "?I j gs'"
    have "rdi gs' j = Some m" using j assms(1,2,4) by (simp add: rdi_def)
    moreover have "wri gs' j w = Some (gs'[nat j := w])" using j assms(1,2) by (simp add: wri_def)
    moreover have "?I (j + 1) (gs'[nat j := w])" using j assms(1,2) by (auto simp: nth_wri)
    ultimately show "\<exists>gs''. (do { v \<leftarrow> rdi gs' j; if v = m then wri gs' j w else Some gs' }) = Some gs'' \<and> ?I (j + 1) gs''"
      by simp
  qed (use assms in auto)
  then show ?thesis by simp
qed

lemma border_step_inv:
  assumes inv: "borders_inv norm x len i s" and i: "- 1 \<le> i" "i \<le> int (length x) - 1" and len: "length x \<le> len"
    and suff: "\<And>i. 0 \<le> i \<Longrightarrow> i < int (length x) \<Longrightarrow> suffix_len norm x i (suff ! nat i)" "length x \<le> length suff"
  shows "\<exists>s'. border_step (int (length x)) suff s i = Some s' \<and> borders_inv norm x len (i - 1) s'"
proof -
  let ?m = "int (length x)"
  obtain gs j where s: "s = (gs, j)" by (cases s)
  have L: "length gs = len" and j: "0 \<le> j" "j \<le> max 0 (?m - 2 - i)"
    and set0: "\<And>p. 0 \<le> p \<Longrightarrow> p < j \<Longrightarrow> 1 \<le> gs ! nat p \<and> gs ! nat p \<le> ?m - 2 - i"
    and unset: "\<And>p. j \<le> p \<Longrightarrow> p < ?m \<Longrightarrow> gs ! nat p = ?m"
    and old: "\<And>d. 1 \<le> d \<Longrightarrow> d \<le> ?m - 2 - i \<Longrightarrow> d < ?m \<Longrightarrow> border norm x d \<Longrightarrow>
      d \<le> j \<and> (\<forall>p. 0 \<le> p \<and> p < d \<longrightarrow> gs ! nat p \<le> d)"
    using inv by (auto simp: borders_inv_def s)
  define d where "d = ?m - 1 - i"
  have d: "0 \<le> d" "d \<le> ?m" using i by (simp_all add: d_def)
  have cond: "(if i = - 1 then Some True else do { v \<leftarrow> rdi suff i; Some (v = i + 1) }) = Some (border norm x d)"
    (is "?test = _")
  proof (cases "i = - 1")
    case True
    then show ?thesis by (auto simp: border_def d_def)
  next
    case False
    then show ?thesis using border_suffix_len[OF _ _ suff(1), of i] suff(2) i by (simp add: rdi_def d_def)
  qed
  show ?thesis
  proof (cases "border norm x d")
    case False
    have "d' \<le> j \<and> (\<forall>p. 0 \<le> p \<and> p < d' \<longrightarrow> gs ! nat p \<le> d')"
      if "1 \<le> d'" "d' \<le> d" "d' < ?m" "border norm x d'" for d'
      using old[of d'] that False by (cases "d' = d") (auto simp: d_def)
    then have "borders_inv norm x len (i - 1) (gs, j)"
      using L j set0 unset by (fastforce simp: borders_inv_def d_def)
    then show ?thesis using cond False by (simp add: s border_step_def)
  next
    case True
    have jd: "j \<le> d \<or> d = 0 \<and> j = 0" using j d(1) by (auto simp: d_def max_def split: if_splits)
    then have jle: "j \<le> (d - 1) + 1" using j(1) d(1) by auto
    obtain gs' where gs': "for_each (\<lambda>gs j. do { v \<leftarrow> rdi gs j; if v = ?m then wri gs j d else Some gs }) gs [j..d - 1] = Some gs'"
      "length gs' = len" "\<And>p. 0 \<le> p \<Longrightarrow> gs' ! nat p = (if j \<le> p \<and> p \<le> d - 1 then d else gs ! nat p)"
      using fill_spec[of j "d - 1" gs ?m d] jle unset d j(1) L len by auto
    have "borders_inv norm x len (i - 1) (gs', max j d)"
      unfolding borders_inv_def prod.case
    proof (intro conjI allI impI)
      show "max j d \<le> max 0 (?m - 2 - (i - 1))" using j d by (auto simp: d_def)
      fix p assume p: "0 \<le> p \<and> p < max j d"
      then show "1 \<le> gs' ! nat p" "gs' ! nat p \<le> ?m - 2 - (i - 1)"
        using gs'(3)[of p] set0[of p] jd by (auto simp: d_def)
    next
      fix p assume "max j d \<le> p \<and> p < ?m"
      then show "gs' ! nat p = ?m" using gs'(3)[of p] unset[of p] j by auto
    next
      fix e assume e: "1 \<le> e \<and> e \<le> ?m - 2 - (i - 1) \<and> e < ?m \<and> border norm x e"
      then show "e \<le> max j d" using old[of e] by (cases "e = d") (auto simp: d_def)
      fix p assume p: "0 \<le> p \<and> p < e"
      show "gs' ! nat p \<le> e"
      proof (cases "e = d")
        case True
        then show ?thesis using gs'(3)[of p] set0[of p] p by (auto simp: d_def)
      next
        case False
        then show ?thesis using gs'(3)[of p] old[of e] p e by (auto simp: d_def)
      qed
    qed (use gs'(2) j d in auto)
    moreover have "?m - 2 - i = d - 1" by (simp add: d_def)
    then have "[j..?m - 2 - i] = [j..d - 1]" by (rule arg_cong)
    moreover have "?m - 1 - i = d" by (simp add: d_def)
    ultimately show ?thesis using cond True gs'(1) by (simp add: s border_step_def cong: if_cong)
  qed
qed

text \<open>The last loop; before index \<open>i\<close> all shifts up to the ones of the smaller indexes are covered.\<close>

definition shifts_inv :: "(u8 \<Rightarrow> u8) \<Rightarrow> bytes \<Rightarrow> nat \<Rightarrow> int list \<Rightarrow> int \<Rightarrow> int list \<Rightarrow> bool" where
  "shifts_inv norm x len suff i gs \<longleftrightarrow> length gs = len \<and>
     (\<forall>p. 0 \<le> p \<and> p < int (length x) \<longrightarrow> 1 \<le> gs ! nat p \<and> gs ! nat p \<le> int (length x)) \<and>
     (\<forall>d p. 1 \<le> d \<and> d < int (length x) \<and> border norm x d \<and> 0 \<le> p \<and> p < d \<longrightarrow> gs ! nat p \<le> d) \<and>
     (\<forall>j p. 0 \<le> j \<and> j < i \<and> p = int (length x) - 1 - suff ! nat j \<longrightarrow> gs ! nat p \<le> int (length x) - 1 - j)"

lemma shift_step_inv:
  assumes inv: "shifts_inv norm x len suff i gs" and i: "0 \<le> i" "i \<le> int (length x) - 2" and len: "length x \<le> len"
    and suff: "\<And>i. 0 \<le> i \<Longrightarrow> i < int (length x) \<Longrightarrow> suffix_len norm x i (suff ! nat i)" "length x \<le> length suff"
  shows "\<exists>gs'. (do { v \<leftarrow> rdi suff i; wri gs (int (length x) - 1 - v) (int (length x) - 1 - i) }) = Some gs' \<and>
    shifts_inv norm x len suff (i + 1) gs'"
proof -
  let ?m = "int (length x)"
  define v where "v = suff ! nat i"
  define p0 where "p0 = ?m - 1 - v"
  have v: "0 \<le> v" "v \<le> i + 1" using suff(1)[of i] i by (auto simp: v_def suffix_len_def)
  have p0: "0 \<le> p0" "p0 < ?m" "?m - 1 - i \<le> p0 + 1" using v i by (simp_all add: p0_def)
  have L: "length gs = len" using inv by (simp add: shifts_inv_def)
  let ?gs = "gs[nat p0 := ?m - 1 - i]"
  have at: "?gs ! nat p = (if p = p0 then ?m - 1 - i else gs ! nat p)" if "0 \<le> p" for p
    using that p0 L len by (simp add: nth_wri)
  have "shifts_inv norm x len suff (i + 1) ?gs"
    unfolding shifts_inv_def
  proof (intro conjI allI impI)
    fix p assume "0 \<le> p \<and> p < ?m"
    then show "1 \<le> ?gs ! nat p" "?gs ! nat p \<le> ?m"
      using inv at[of p] i by (auto simp: shifts_inv_def)
  next
    fix d p assume d: "1 \<le> d \<and> d < ?m \<and> border norm x d \<and> 0 \<le> p \<and> p < d"
    then have "gs ! nat p \<le> d" using inv unfolding shifts_inv_def by blast
    then show "?gs ! nat p \<le> d" using at[of p] p0(3) d by auto
  next
    fix j p assume j: "0 \<le> j \<and> j < i + 1 \<and> p = ?m - 1 - suff ! nat j"
    have "suff ! nat j \<le> ?m - 1" using suff(1)[of j] j i by (auto simp: suffix_len_def)
    then have p: "0 \<le> p" using j by simp
    show "?gs ! nat p \<le> ?m - 1 - j"
    proof (cases "j = i")
      case True
      then show ?thesis using at[OF p] j by (simp add: p0_def v_def)
    next
      case False
      then have "gs ! nat p \<le> ?m - 1 - j" using inv j unfolding shifts_inv_def by auto
      then show ?thesis using at[OF p] j by auto
    qed
  qed (use L in simp)
  moreover have "rdi suff i = Some v" using i suff(2) by (simp add: rdi_def v_def)
  moreover have "wri gs p0 (?m - 1 - i) = Some ?gs" using p0 L len by (simp add: wri_def)
  ultimately show ?thesis by (simp add: p0_def)
qed

lemma pre_bm_gs_ok:
  assumes "x \<noteq> []" "length x \<le> length suff" "length x \<le> length gs" "low = - 1 \<or> low = 0"
  shows "\<exists>gs'. pre_bm_gs norm low (Some suff) x (int (length x)) gs = Some gs' \<and> good_suffix_ok norm x gs'"
proof -
  let ?m = "int (length x)"
  have m: "0 < ?m" using assms(1) by simp
  obtain suf where suf: "bm_suffixes norm x ?m suff = Some suf" "length x \<le> length suf"
    "\<And>i. 0 \<le> i \<Longrightarrow> i < ?m \<Longrightarrow> suffix_len norm x i (suf ! nat i)"
    using bm_suffixes_spec[OF assms(1,2)] assms(2) by force
  let ?I = "\<lambda>i g. length g = length gs \<and> (\<forall>p. 0 \<le> p \<and> p < i \<longrightarrow> g ! nat p = ?m)"
  have "\<exists>g. for_each (\<lambda>gs i. wri gs i ?m) gs [0..?m - 1] = Some g \<and> ?I (?m - 1 + 1) g"
  proof (rule for_each_up)
    fix i g assume "0 \<le> i" "i \<le> ?m - 1" "?I i g"
    moreover from this have "wri g i ?m = Some (g[nat i := ?m])" using assms(3) by (simp add: wri_def)
    ultimately show "\<exists>g'. wri g i ?m = Some g' \<and> ?I (i + 1) g'"
      using assms(3) by (auto simp: nth_wri)
  qed (use m in auto)
  then obtain gs1 where gs1: "for_each (\<lambda>gs i. wri gs i ?m) gs [0..?m - 1] = Some gs1" "?I ?m gs1"
    by auto
  have "\<exists>s. for_each (border_step ?m suf) (gs1, 0) (rev [low..?m - 1]) = Some s \<and> borders_inv norm x (length gs) (low - 1) s"
  proof (rule for_each_down)
    show "borders_inv norm x (length gs) (?m - 1) (gs1, 0)" using gs1(2) by (simp add: borders_inv_def)
    show "\<exists>s'. border_step ?m suf s i = Some s' \<and> borders_inv norm x (length gs) (i - 1) s'"
      if "low \<le> i" "i \<le> ?m - 1" "borders_inv norm x (length gs) i s" for i s
      using border_step_inv[OF that(3) _ that(2) assms(3) suf(3,2)] that(1) assms(4) by auto
  qed (use assms(4) m in auto)
  then obtain gs2 j where gs2: "for_each (border_step ?m suf) (gs1, 0) (rev [low..?m - 1]) = Some (gs2, j)"
    "borders_inv norm x (length gs) (low - 1) (gs2, j)"
    by auto
  have "shifts_inv norm x (length gs) suf 0 gs2"
    unfolding shifts_inv_def
  proof (intro conjI allI impI)
    fix p assume p: "0 \<le> p \<and> p < ?m"
    show "1 \<le> gs2 ! nat p" "gs2 ! nat p \<le> ?m"
      using gs2(2) p assms(4) m by (cases "p < j"; force simp: borders_inv_def)+
  next
    fix d p assume "1 \<le> d \<and> d < ?m \<and> border norm x d \<and> 0 \<le> p \<and> p < d"
    then show "gs2 ! nat p \<le> d" using gs2(2) assms(4) by (auto simp: borders_inv_def)
  qed (use gs2(2) in \<open>auto simp: borders_inv_def\<close>)
  then have "\<exists>g. for_each (\<lambda>gs i. do { v \<leftarrow> rdi suf i; wri gs (?m - 1 - v) (?m - 1 - i) }) gs2 [0..?m - 2] = Some g \<and>
      shifts_inv norm x (length gs) suf (?m - 2 + 1) g"
    using m by (intro for_each_up shift_step_inv[OF _ _ _ assms(3) suf(3,2)]) auto
  then obtain gs3 where gs3: "for_each (\<lambda>gs i. do { v \<leftarrow> rdi suf i; wri gs (?m - 1 - v) (?m - 1 - i) }) gs2 [0..?m - 2] = Some gs3"
    "shifts_inv norm x (length gs) suf (?m - 1) gs3"
    by auto
  have safe: "gs3 ! nat p \<le> d" if p: "0 \<le> p" "p < ?m" and d: "1 \<le> d" "d < ?m" "compatible norm x p d" for p d
  proof (cases "d \<le> p")
    case False
    then have "border norm x d" using d by (auto simp: compatible_def border_def)
    then show ?thesis using gs3(2) p d False unfolding shifts_inv_def by auto
  next
    case True
    define i where "i = ?m - 1 - d"
    have i: "0 \<le> i" "i < ?m - 1" using d by (simp_all add: i_def)
    have "suffix_len norm x i (?m - 1 - p)"
      unfolding suffix_len_def
    proof (intro conjI allI impI)
      fix t assume "0 \<le> t \<and> t < ?m - 1 - p"
      then have "p < ?m - 1 - t \<and> ?m - 1 - t < ?m \<and> d \<le> ?m - 1 - t" using True by linarith
      then have "chr norm x (?m - 1 - t - d) = chr norm x (?m - 1 - t)" using d(3) unfolding compatible_def by blast
      then show "chr norm x (i - t) = chr norm x (?m - 1 - t)" by (simp add: i_def algebra_simps)
    next
      have "chr norm x (p - d) \<noteq> chr norm x p" using d(3) True unfolding compatible_def by blast
      then show "chr norm x (i - (?m - 1 - p)) \<noteq> chr norm x (?m - 1 - (?m - 1 - p))" by (simp add: i_def algebra_simps)
    qed (use p True in \<open>auto simp: i_def\<close>)
    moreover have "suffix_len norm x i (suf ! nat i)" using suf(3) i by simp
    ultimately have "suf ! nat i = ?m - 1 - p" using suffix_len_unique by blast
    then have "p = ?m - 1 - suf ! nat i" by simp
    then have "gs3 ! nat p \<le> ?m - 1 - i" using gs3(2) i unfolding shifts_inv_def by blast
    then show ?thesis by (simp add: i_def)
  qed
  have pos: "1 \<le> gs3 ! nat p" "gs3 ! nat p \<le> ?m" if "0 \<le> p" "p < ?m" for p
    using gs3(2) that unfolding shifts_inv_def by blast+
  have len: "length x \<le> length gs3" using gs3(2) assms(3) by (simp add: shifts_inv_def)
  have "good_suffix_ok norm x gs3"
    unfolding good_suffix_ok_def
    by (intro conjI allI impI; (elim conjE)?) (fact len | rule pos; assumption | rule safe; assumption)+
  moreover have "pre_bm_gs norm low (Some suff) x ?m gs = Some gs3"
    unfolding pre_bm_gs_def option.case suf(1) Option.bind.simps gs1(1) gs2(1) prod.case gs3(1) ..
  ultimately show ?thesis by blast
qed

section \<open>The bad character table\<close>

definition bad_chars_ok :: "(u8 \<Rightarrow> u8) \<Rightarrow> bytes \<Rightarrow> int list \<Rightarrow> bool" where
  "bad_chars_ok norm x bc \<longleftrightarrow> 256 \<le> length bc \<and>
     (\<forall>v. 0 \<le> v \<and> v < 256 \<longrightarrow> bc ! nat v \<le> int (length x) \<and>
       (\<forall>q. 0 \<le> q \<and> q < int (length x) - 1 \<and> int (unat (chr norm x q)) = v \<longrightarrow>
          bc ! nat v \<le> int (length x) - 1 - q))"

lemma unat_u8_less: "int (unat (c :: u8)) < 256"
  using unat_bound[of c] by (simp del: of_nat_unat)

lemma pre_bm_bc_ok:
  assumes "256 \<le> length bc"
  shows "\<exists>bc'. pre_bm_bc norm x (int (length x)) bc = Some bc' \<and> bad_chars_ok norm x bc'"
proof -
  let ?m = "int (length x)"
  let ?I = "\<lambda>i b. length b = length bc \<and> (\<forall>v. 0 \<le> v \<and> v < i \<longrightarrow> b ! nat v = ?m)"
  have "\<exists>b. for_each (\<lambda>bc i. wri bc i ?m) bc [0..255] = Some b \<and> ?I (255 + 1) b"
  proof (rule for_each_up)
    fix i b assume "0 \<le> i" "i \<le> 255" "?I i b"
    moreover from this have "wri b i ?m = Some (b[nat i := ?m])" using assms by (simp add: wri_def)
    ultimately show "\<exists>b'. wri b i ?m = Some b' \<and> ?I (i + 1) b'"
      using assms by (auto simp: nth_wri)
  qed auto
  then obtain b1 where b1: "for_each (\<lambda>bc i. wri bc i ?m) bc [0..255] = Some b1"
    "length b1 = length bc" "\<And>v. 0 \<le> v \<Longrightarrow> v < 256 \<Longrightarrow> b1 ! nat v = ?m"
    by auto
  let ?J = "\<lambda>i b. length b = length bc \<and> (\<forall>v. 0 \<le> v \<and> v < 256 \<longrightarrow> b ! nat v \<le> ?m \<and>
     (\<forall>q. 0 \<le> q \<and> q < i \<and> int (unat (chr norm x q)) = v \<longrightarrow> b ! nat v \<le> ?m - 1 - q))"
  let ?f = "\<lambda>bc i. do { c \<leftarrow> rdi x i; wri bc (int (unat (norm c))) (?m - i - 1) }"
  show ?thesis
  proof (cases "x = []")
    case True
    then show ?thesis using b1 assms by (simp add: pre_bm_bc_def bad_chars_ok_def)
  next
    case False
    then have m: "0 < ?m" by simp
    have "\<exists>b. for_each ?f b1 [0..?m - 2] = Some b \<and> ?J (?m - 2 + 1) b"
    proof (rule for_each_up)
      fix i b assume i: "0 \<le> i" "i \<le> ?m - 2" and J: "?J i b"
      let ?c = "int (unat (norm (x ! nat i)))"
      let ?b = "b[nat ?c := ?m - i - 1]"
      have c: "0 \<le> ?c" "?c < 256" "?c < int (length b)" using unat_u8_less[of "norm (x ! nat i)"] J assms by linarith+
      have at: "?b ! nat v = (if v = ?c then ?m - i - 1 else b ! nat v)" if "0 \<le> v" for v
        using nth_wri[OF c(1) that c(3)] .
      have "?f b i = Some ?b" using i c by (simp add: rdi_def wri_def)
      moreover have "?b ! nat v \<le> ?m - 1 - q"
        if "0 \<le> v" "v < 256" "0 \<le> q" "q < i + 1" "int (unat (chr norm x q)) = v" for v q
      proof (cases "q = i")
        case True
        then have "v = ?c" using that(5) by (simp add: chr_def)
        then have "?b ! nat v = ?m - i - 1" using at[OF that(1)] by presburger
        then show ?thesis using True by linarith
      next
        case False
        then have "b ! nat v \<le> ?m - 1 - q" using J that by auto
        then show ?thesis using at[OF that(1)] that(4) by auto
      qed
      moreover have "?b ! nat v \<le> ?m" if "0 \<le> v" "v < 256" for v
        using at[OF that(1)] J that i by auto
      ultimately show "\<exists>b'. ?f b i = Some b' \<and> ?J (i + 1) b'" using J by auto
    next
      show "?J 0 b1" using b1(2,3) by auto
    qed (use m in simp)
    then obtain b2 where b2: "for_each ?f b1 [0..?m - 2] = Some b2" "?J (?m - 1) b2" by auto
    then have "bad_chars_ok norm x b2" using assms unfolding bad_chars_ok_def by auto
    then show ?thesis using b1(1) b2(1) by (simp add: pre_bm_bc_def)
  qed
qed

section \<open>The search finds the first match\<close>

lemma match_back_spec:
  assumes "- 1 \<le> i" "i < int (length x)" "0 \<le> j" "j + int (length x) \<le> int (length y)"
  shows "\<exists>p. match_back norm x y j i = Some p \<and> - 1 \<le> p \<and> p \<le> i \<and>
    (\<forall>k. p < k \<and> k \<le> i \<longrightarrow> chr norm x k = chr norm y (k + j)) \<and>
    (0 \<le> p \<longrightarrow> chr norm x p \<noteq> chr norm y (p + j))"
  using assms(1,2)
proof (induction "nat (i + 1)" arbitrary: i)
  case 0
  then have "i = - 1" by linarith
  then show ?case by (subst match_back.simps) auto
next
  case (Suc d)
  have i: "0 \<le> i" "d = nat (i - 1 + 1)" using Suc(2) by linarith+
  have rd: "rdi x i = Some (x ! nat i)" "rdi y (i + j) = Some (y ! nat (i + j))"
    using i Suc.prems assms(3,4) by (simp_all add: rdi_def)
  show ?case
  proof (cases "chr norm x i = chr norm y (i + j)")
    case False
    then have "match_back norm x y j i = Some i" using i rd by (subst match_back.simps) (simp add: chr_def)
    then show ?thesis using False i by auto
  next
    case True
    then have step: "match_back norm x y j i = match_back norm x y j (i - 1)"
      using i rd by (subst match_back.simps) (simp add: chr_def)
    obtain p where p: "match_back norm x y j (i - 1) = Some p" "- 1 \<le> p" "p \<le> i - 1"
      "\<forall>k. p < k \<and> k \<le> i - 1 \<longrightarrow> chr norm x k = chr norm y (k + j)"
      "0 \<le> p \<longrightarrow> chr norm x p \<noteq> chr norm y (p + j)"
      using Suc(1)[OF i(2)] Suc.prems i(1) by auto
    have "chr norm x k = chr norm y (k + j)" if "p < k" "k \<le> i" for k
      using p(4) True that by (cases "k = i") auto
    then show ?thesis using p step by auto
  qed
qed

lemma occurs_at_chr:
  assumes "x \<noteq> []" "0 \<le> s"
  shows "occurs_at norm x y (nat s) \<longleftrightarrow> s + int (length x) \<le> int (length y) \<and>
    (\<forall>k. 0 \<le> k \<and> k < int (length x) \<longrightarrow> chr norm x k = chr norm y (k + s))"
proof -
  have "(\<forall>k < length x. norm (y ! (nat s + k)) = norm (x ! k)) \<longleftrightarrow>
      (\<forall>k. 0 \<le> k \<and> k < int (length x) \<longrightarrow> chr norm x k = chr norm y (k + s))"
  proof (intro iffI allI impI)
    fix k assume "\<forall>k < length x. norm (y ! (nat s + k)) = norm (x ! k)" "0 \<le> k \<and> k < int (length x)"
    then show "chr norm x k = chr norm y (k + s)"
      using assms(2) by (simp add: chr_def nat_add_distrib add.commute nat_less_iff)
  next
    fix k assume *: "\<forall>k. 0 \<le> k \<and> k < int (length x) \<longrightarrow> chr norm x k = chr norm y (k + s)" "k < length x"
    then show "norm (y ! (nat s + k)) = norm (x ! k)"
      using *(1)[rule_format, of "int k"] assms(2) by (simp add: chr_def nat_add_distrib add.commute)
  qed
  moreover have "nat s + length x \<le> length y \<longleftrightarrow> s + int (length x) \<le> int (length y)" using assms(2) by linarith
  ultimately show ?thesis using occurs_at_iff[OF assms(1)] by simp
qed

text \<open>No offset that a shift passes over holds the needle.\<close>

lemma shift_skips_nothing:
  assumes "x \<noteq> []" "good_suffix_ok norm x gs" "bad_chars_ok norm x bc" "0 \<le> j" "0 \<le> p" "p < int (length x)"
    "\<forall>k. p < k \<and> k \<le> int (length x) - 1 \<longrightarrow> chr norm x k = chr norm y (k + j)"
    "chr norm x p \<noteq> chr norm y (p + j)"
    "b = bc ! nat (int (unat (chr norm y (p + j))))"
    "0 \<le> d" "d < max (gs ! nat p) (b - int (length x) + 1 + p)"
  shows "\<not> occurs_at norm x y (nat (j + d))"
proof
  let ?m = "int (length x)"
  let ?v = "int (unat (chr norm y (p + j)))"
  assume "occurs_at norm x y (nat (j + d))"
  then have occ: "chr norm x k = chr norm y (k + (j + d))" if "0 \<le> k" "k < ?m" for k
    using that occurs_at_chr[of x "j + d" norm y] assms(1,4,10) by simp
  have d: "1 \<le> d" using occ[of p] assms(5,6,8,10) by (cases "d = 0") auto
  have b: "b \<le> ?m" "\<And>q. 0 \<le> q \<Longrightarrow> q < ?m - 1 \<Longrightarrow> int (unat (chr norm x q)) = ?v \<Longrightarrow> b \<le> ?m - 1 - q"
    using assms(3,9) unat_u8_less[of "chr norm y (p + j)"] unfolding bad_chars_ok_def by auto
  consider "d < gs ! nat p" | "d < b - ?m + 1 + p" using assms(11) by linarith
  then show False
  proof cases
    case 1
    have gs: "gs ! nat p \<le> ?m" "\<And>e. 1 \<le> e \<Longrightarrow> e < ?m \<Longrightarrow> compatible norm x p e \<Longrightarrow> gs ! nat p \<le> e"
      using assms(2,5,6) unfolding good_suffix_ok_def by blast+
    have "compatible norm x p d"
      unfolding compatible_def
    proof (intro conjI allI impI)
      fix k assume k: "p < k \<and> k < ?m \<and> d \<le> k"
      then have "chr norm x (k - d) = chr norm y (k + j)" using occ[of "k - d"] assms(10) by (simp add: algebra_simps)
      then show "chr norm x (k - d) = chr norm x k" using assms(7) k by simp
    next
      assume "d \<le> p"
      then have "chr norm x (p - d) = chr norm y (p + j)" using occ[of "p - d"] assms(6,10) by (simp add: algebra_simps)
      then show "chr norm x (p - d) \<noteq> chr norm x p" using assms(8) by simp
    qed
    then show False using gs(2)[of d] gs(1) 1 d by linarith
  next
    case 2
    then have dp: "d \<le> p" using b(1) by linarith
    then have "chr norm x (p - d) = chr norm y (p + j)" using occ[of "p - d"] assms(6,10) by (simp add: algebra_simps)
    then have "b \<le> ?m - 1 - (p - d)" using b(2)[of "p - d"] dp d assms(6) by simp
    then show False using 2 by linarith
  qed
qed

lemma bm_loop_first_match:
  assumes x: "x \<noteq> []" and gs: "good_suffix_ok norm x gs" and bc: "bad_chars_ok norm x bc"
    and j: "0 \<le> j" and free: "\<And>s. s < nat j \<Longrightarrow> \<not> occurs_at norm x y s"
  shows "bm_loop norm x (int (length x)) y (int (length y)) gs bc j = Some (map_option int (first_match norm x y))"
  using j free
proof (induction "nat (int (length y) + 1 - j)" arbitrary: j rule: less_induct)
  case less
  let ?m = "int (length x)" and ?n = "int (length y)"
  have m: "0 < ?m" using x by simp
  show ?case
  proof (cases "j \<le> ?n - ?m")
    case False
    have "\<not> occurs_at norm x y s" for s
      using less.prems(2)[of s] False x by (cases "s < nat j") (auto simp: occurs_at_iff)
    then show ?thesis using False first_match_None by (subst bm_loop.simps) auto
  next
    case True
    obtain p where p: "match_back norm x y j (?m - 1) = Some p" "- 1 \<le> p" "p \<le> ?m - 1"
      "\<forall>k. p < k \<and> k \<le> ?m - 1 \<longrightarrow> chr norm x k = chr norm y (k + j)"
      "0 \<le> p \<longrightarrow> chr norm x p \<noteq> chr norm y (p + j)"
      using match_back_spec[of "?m - 1" x j y norm] m True less.prems(1) by auto
    show ?thesis
    proof (cases "p < 0")
      case neg: True
      then have "occurs_at norm x y (nat j)"
        using p(4) True less.prems(1) x p(2) by (auto simp: occurs_at_chr)
      then have "first_match norm x y = Some (nat j)"
        using first_match_Some[OF x] less.prems(2) by blast
      then show ?thesis using True neg p(1) less.prems(1) by (subst bm_loop.simps) simp
    next
      case False
      let ?v = "int (unat (chr norm y (p + j)))"
      define b where "b = bc ! nat ?v"
      let ?s = "max (gs ! nat p) (b - ?m + 1 + p)"
      have pm: "0 \<le> p" "p < ?m" "chr norm x p \<noteq> chr norm y (p + j)" using False p by auto
      have g: "1 \<le> gs ! nat p" "length x \<le> length gs" using gs pm unfolding good_suffix_ok_def by blast+
      have rd: "rdi gs p = Some (gs ! nat p)" "rdi y (p + j) = Some (y ! nat (p + j))" "rdi bc ?v = Some b"
        using pm g(2) True less.prems(1) bc unat_u8_less[of "chr norm y (p + j)"]
        by (simp_all add: rdi_def b_def bad_chars_ok_def)
      have step: "bm_loop norm x ?m y ?n gs bc j = bm_loop norm x ?m y ?n gs bc (j + ?s)"
        using True False p(1) rd by (subst bm_loop.simps) (simp add: chr_def max_def Let_def)
      have "\<not> occurs_at norm x y s" if s: "s < nat (j + ?s)" for s
      proof (cases "s < nat j")
        case False
        then have "nat (j + (int s - j)) = s" "0 \<le> int s - j" "int s - j < ?s" using s less.prems(1) by linarith+
        then show ?thesis
          using shift_skips_nothing[OF x gs bc less.prems(1) pm(1,2) p(4) pm(3) b_def, of "int s - j"] by simp
      qed (use less.prems(2) in simp)
      then show ?thesis unfolding step using less.hyps[of "j + ?s"] less.prems(1) True g(1) m by auto
    qed
  qed
qed

lemma search_ok:
  assumes "x \<noteq> []" "256 \<le> length bc" "length x \<le> length gs" "length x \<le> length suff" "low = - 1 \<or> low = 0"
  shows "\<exists>gs' bc'. pre_bm_gs norm low (Some suff) x (int (length x)) gs = Some gs' \<and> length x \<le> length gs' \<and>
    pre_bm_bc norm x (int (length x)) bc = Some bc' \<and> 256 \<le> length bc' \<and>
    (\<forall>y. bm_loop norm x (int (length x)) y (int (length y)) gs' bc' 0 = Some (map_option int (first_match norm x y)))"
proof -
  obtain gs' where gs': "pre_bm_gs norm low (Some suff) x (int (length x)) gs = Some gs'" "good_suffix_ok norm x gs'"
    using pre_bm_gs_ok[OF assms(1,4,3,5)] by blast
  obtain bc' where bc': "pre_bm_bc norm x (int (length x)) bc = Some bc'" "bad_chars_ok norm x bc'"
    using pre_bm_bc_ok[OF assms(2)] by blast
  have "length x \<le> length gs'" "256 \<le> length bc'"
    using gs'(2) bc'(2) by (simp_all add: good_suffix_ok_def bad_chars_ok_def)
  then show ?thesis
    using gs' bc' bm_loop_first_match[OF assms(1) gs'(2) bc'(2), of 0] by auto
qed

lemma small_u32:
  assumes "n < 2147483648"
  shows "unat (of_nat n :: u32) = n" "sint (of_nat n :: u32) = int n"
proof -
  show "unat (of_nat n :: u32) = n" using assms by (simp add: unat_of_nat)
  show "sint (of_nat n :: u32) = int n"
    using assms by (simp add: signed_of_nat signed_take_bit_eq_if_positive bit_iff_odd take_bit_int_eq_self)
qed

lemma boyer_moore_wrappers:
  assumes "needle \<noteq> []" "length needle \<le> 2 ^ 30" "length hay < 2 ^ 31" "256 \<le> length bc" "length needle \<le> length gs"
    "length needle \<le> length suff"
  shows "BoyerMooreSearch bc (Some gs) (Some suff) hay (of_nat (length hay)) needle (of_nat (length needle))
      = Some (map_option int (first_match id needle hay))"
    "BoyerMooreNocaseSearch bc (Some gs) (Some suff) hay (of_nat (length hay)) needle (of_nat (length needle))
      = Some (map_option int (first_match u8_tolower needle hay))"
proof -
  have l: "sint (of_nat (length needle) :: u32) = int (length needle)" "sint (of_nat (length hay) :: u32) = int (length hay)"
    using small_u32(2) assms(2,3) by simp_all
  show "BoyerMooreSearch bc (Some gs) (Some suff) hay (of_nat (length hay)) needle (of_nat (length needle))
      = Some (map_option int (first_match id needle hay))"
    using search_ok[OF assms(1,4-6), of "- 1" id]
    by (auto simp: BoyerMooreSearch_def PreBmBc_def PreBmGs_def BoyerMoore_def l)
  show "BoyerMooreNocaseSearch bc (Some gs) (Some suff) hay (of_nat (length hay)) needle (of_nat (length needle))
      = Some (map_option int (first_match u8_tolower needle hay))"
    using search_ok[OF assms(1,4-6), of 0 u8_tolower]
    by (auto simp: BoyerMooreNocaseSearch_def PreBmBcNocase_def PreBmGsNocase_def BoyerMooreNocase_def l)
qed

text \<open>Claim C5: Boyer Moore ends and finds the first match: with a needle of 1 to \<open>2 ^ 30\<close> bytes and a text of
  fewer than \<open>2 ^ 31\<close> bytes, so that the \<open>int32_t\<close> lengths and sums of the code do not overflow, and with arrays
  of the allocated sizes and whatever contents, the tables are built inside the arrays, every shift is
  positive and passes over no match, and \<open>BoyerMooreSearch\<close>, \<open>BoyerMooreNocaseSearch\<close>, and the search with a
  context of \<open>BoyerMooreCtxInit\<close>, also after \<open>BoyerMooreCtxToNocase\<close>, return the offset of the first match.\<close>

theorem boyer_moore_first_match:
  assumes "needle \<noteq> []" "length needle \<le> 2 ^ 30" "length hay < 2 ^ 31" "256 \<le> length bc" "length needle \<le> length gs"
    "length needle \<le> length suff" "length needle \<le> length suff'"
  shows "BoyerMooreSearch bc (Some gs) (Some suff) hay (of_nat (length hay)) needle (of_nat (length needle))
      = Some (map_option int (first_match id needle hay)) \<and>
    BoyerMooreNocaseSearch bc (Some gs) (Some suff) hay (of_nat (length hay)) needle (of_nat (length needle))
      = Some (map_option int (first_match u8_tolower needle hay)) \<and>
    (\<exists>ctx ctx'. BoyerMooreCtxInit bc gs (Some suff) needle (of_nat (length needle)) = Some ctx \<and>
      BoyerMoore needle (int (length needle)) hay (int (length hay)) (bmGs ctx) (bmBc ctx)
        = Some (map_option int (first_match id needle hay)) \<and>
      BoyerMooreCtxToNocase (Some suff') ctx needle (of_nat (length needle)) = Some ctx' \<and>
      BoyerMooreNocase needle (int (length needle)) hay (int (length hay)) (bmGs ctx') (bmBc ctx')
        = Some (map_option int (first_match u8_tolower needle hay)))"
proof -
  have l: "sint (of_nat (length needle) :: u32) = int (length needle)" using small_u32(2) assms(2) by simp
  obtain g b where s: "pre_bm_gs id (- 1) (Some suff) needle (int (length needle)) gs = Some g"
    "length needle \<le> length g" "pre_bm_bc id needle (int (length needle)) bc = Some b" "256 \<le> length b"
    "bm_loop id needle (int (length needle)) hay (int (length hay)) g b 0 = Some (map_option int (first_match id needle hay))"
    using search_ok[OF assms(1,4-6), of "- 1" id] by auto
  note nocase = search_ok[OF assms(1), where norm = u8_tolower and low = 0]
  show ?thesis
    using boyer_moore_wrappers[OF assms(1-6)] nocase[OF s(4,2) assms(7)] s
    by (auto simp: BoyerMooreCtxInit_def BoyerMooreCtxToNocase_def
        PreBmBc_def PreBmGs_def PreBmBcNocase_def PreBmGsNocase_def BoyerMoore_def BoyerMooreNocase_def l)
qed

lemma boyer_moore_first_match_witness:
  "BoyerMooreSearch (replicate 256 7) (Some [9, 9, 9, 9]) (Some [0, 0, 0, 0]) [97, 98, 97, 98, 99] 5 [97, 98, 99] 3
     = Some (Some 2)"
proof -
  have "first_match id [97, 98, 99] [97, 98, 97, 98, 99] = Some 2"
    by (simp add: first_match_def occurs_at_def upt_rec)
  then show ?thesis
    using boyer_moore_first_match[of "[97, 98, 99]" "[97, 98, 97, 98, 99]" "replicate 256 7" "[9, 9, 9, 9]" "[0, 0, 0, 0]"
        "[0, 0, 0, 0]"] by simp
qed

text \<open>
  What the bound on the lengths keeps out: from \<open>2 ^ 31\<close> on the converted length is negative. A longer needle
  makes the first write of the suffix table go below its array, and in a longer text nothing is searched.
\<close>

lemma sint_u32_neg: "2 ^ 31 \<le> unat (w :: u32) \<Longrightarrow> sint w < 0"
proof -
  assume "2 ^ 31 \<le> unat w"
  then have "(2147483648 :: nat) \<le> unat w" by simp
  moreover have "uint w = int (unat w)" by simp
  ultimately have "2147483648 \<le> uint w" by linarith
  moreover have "uint w < 4294967296" using uint_bounded[of w] by simp
  ultimately have "uint w div 2147483648 = 1" by linarith
  then have "bit (uint w) 31" by (simp add: bit_iff_odd)
  then show ?thesis by (simp add: sint_uint)
qed

lemma boyer_moore_length_wraps:
  "2 ^ 31 \<le> unat needlelen \<Longrightarrow> BoyerMooreSearch bc (Some gs) (Some suff) txt textlen needle needlelen = None"
  "2 ^ 31 \<le> unat textlen \<Longrightarrow> needle \<noteq> [] \<Longrightarrow> length needle \<le> 2 ^ 30 \<Longrightarrow> 256 \<le> length bc \<Longrightarrow> length needle \<le> length gs \<Longrightarrow>
     length needle \<le> length suff \<Longrightarrow>
     BoyerMooreSearch bc (Some gs) (Some suff) txt textlen needle (of_nat (length needle)) = Some None"
proof -
  assume "2 ^ 31 \<le> unat needlelen"
  then have "wri suff (sint needlelen - 1) v = None" for v
    using sint_u32_neg[of needlelen] by (simp add: wri_def)
  then show "BoyerMooreSearch bc (Some gs) (Some suff) txt textlen needle needlelen = None"
    unfolding BoyerMooreSearch_def PreBmGs_def pre_bm_gs_def bm_suffixes_def option.case by simp
next
  assume a: "2 ^ 31 \<le> unat textlen" "needle \<noteq> []" "length needle \<le> 2 ^ 30" "256 \<le> length bc" "length needle \<le> length gs"
    "length needle \<le> length suff"
  have l: "sint (of_nat (length needle) :: u32) = int (length needle)" using small_u32(2) a(3) by simp
  have "bm_loop id needle (int (length needle)) txt (sint textlen) g b 0 = Some None" for g b
    using sint_u32_neg[OF a(1)] by (subst bm_loop.simps) simp
  then show "BoyerMooreSearch bc (Some gs) (Some suff) txt textlen needle (of_nat (length needle)) = Some None"
    using search_ok[OF a(2,4-6), of "- 1" id]
    by (auto simp: BoyerMooreSearch_def PreBmBc_def PreBmGs_def BoyerMoore_def l)
qed

text \<open>The choice of the algorithm by the length of the needle does not show: \<open>SpmSearch\<close> and
  \<open>SpmNocaseSearch\<close> return the first match for every needle, short ones by the basic search and the rest
  by Boyer Moore, and none for the empty needle.\<close>

theorem spm_search_first_match:
  assumes "256 \<le> length bc" "length needle \<le> length gs" "length needle \<le> length suff"
    "length hay < 2 ^ 31" "length needle \<le> 2 ^ 30"
  shows "SpmSearch bc (Some gs) (Some suff) hay (of_nat (length hay)) needle (of_nat (length needle))
      = Some (map_option int (first_match id needle hay)) \<and>
    SpmNocaseSearch bc (Some gs) (Some suff) hay (of_nat (length hay)) needle (of_nat (length needle))
      = Some (map_option int (first_match u8_tolower needle hay))"
proof (cases "(of_nat (length needle) :: u32) < 4")
  case True
  then show ?thesis
    using basic_search_first_match[OF small_u32(1)[of "length hay"] small_u32(1)[of "length needle"]] assms(4,5)
    by (simp add: SpmSearch_def SpmNocaseSearch_def)
next
  case False
  then have "needle \<noteq> []" by auto
  then show ?thesis
    using boyer_moore_wrappers[OF _ assms(5,4,1-3)] False
    by (simp add: SpmSearch_def SpmNocaseSearch_def)
qed

lemma spm_search_first_match_witness:
  "SpmNocaseSearch (replicate 256 7) (Some [9, 9, 9, 9]) (Some [0, 0, 0, 0]) [65, 98, 97, 66, 99] 5 [65, 98, 67] 3
     = Some (Some 2)"
proof -
  have "first_match u8_tolower [65, 98, 67] [65, 98, 97, 66, 99] = Some 2"
    by (simp add: first_match_def occurs_at_def upt_rec u8_tolower_eq)
  then show ?thesis
    using spm_search_first_match[of "replicate 256 7" "[65, 98, 67]" "[9, 9, 9, 9]" "[0, 0, 0, 0]" "[65, 98, 97, 66, 99]"]
    by simp
qed

end
