(* ===== verification/SequenceNumbers.thy ===== *)
theory SequenceNumbers
  imports Prelude
begin

text \<open>
  The comparison of TCP sequence numbers (\<open>src/stream-tcp-private.h\<close>) and what it means: the order of the
  distances from a common base, when they are less than 2^31.
\<close>

section \<open>Sequence numbers\<close>

definition SEQ_EQ :: "u32 \<Rightarrow> u32 \<Rightarrow> bool" where "SEQ_EQ a b \<longleftrightarrow> sint (a - b) = 0"
definition SEQ_LT :: "u32 \<Rightarrow> u32 \<Rightarrow> bool" where "SEQ_LT a b \<longleftrightarrow> sint (a - b) < 0"
definition SEQ_LEQ :: "u32 \<Rightarrow> u32 \<Rightarrow> bool" where "SEQ_LEQ a b \<longleftrightarrow> sint (a - b) \<le> 0"
definition SEQ_GT :: "u32 \<Rightarrow> u32 \<Rightarrow> bool" where "SEQ_GT a b \<longleftrightarrow> sint (a - b) > 0"
definition SEQ_GEQ :: "u32 \<Rightarrow> u32 \<Rightarrow> bool" where "SEQ_GEQ a b \<longleftrightarrow> sint (a - b) \<ge> 0"

section \<open>Distances\<close>

lemma sint_u32:
  fixes x :: u32
  shows "sint x < 0 \<longleftrightarrow> 2 ^ 31 \<le> unat x" "sint x = 0 \<longleftrightarrow> x = 0"
proof -
  show "sint x = 0 \<longleftrightarrow> x = 0" by (simp add: signed_eq_0_iff)
  have "sint x < 0 \<longleftrightarrow> bit x 31" by (simp add: sint_uint signed_take_bit_negative_iff bit_uint_iff)
  also have "\<dots> \<longleftrightarrow> bit (unat x) 31" by (simp add: bit_unsigned_iff)
  also have "\<dots> \<longleftrightarrow> odd (unat x div 2 ^ 31)" by (rule bit_iff_odd)
  also have "\<dots> \<longleftrightarrow> 2 ^ 31 \<le> unat x"
  proof (cases "2 ^ 31 \<le> unat x")
    case True
    then have "unat x div 2 ^ 31 = 1" using unat_bound[of x] by (intro div_nat_eqI) simp_all
    then show ?thesis using True by simp
  qed simp
  finally show "sint x < 0 \<longleftrightarrow> 2 ^ 31 \<le> unat x" .
qed

lemma unat_neg_u32:
  fixes x :: u32
  shows "unat (- x) = (if x = 0 then 0 else 2 ^ 32 - unat x)"
proof (cases "x = 0")
  case False
  then have "0 < unat x" by (simp add: unat_gt_0)
  moreover have "unat (- x) = (2 ^ 32 - unat x) mod 2 ^ 32"
  proof -
    have "- x = of_nat (2 ^ 32 - unat x)" using unat_bound[of x] by (simp add: of_nat_diff)
    then show ?thesis by (simp add: unat_of_nat)
  qed
  ultimately show ?thesis using False by simp
qed simp

text \<open>The distance from \<open>a\<close> forward to \<open>b\<close>.\<close>

definition ahead :: "u32 \<Rightarrow> u32 \<Rightarrow> nat" where
  "ahead a b = unat (b - a)"

lemma unat_diff_swap:
  fixes a b :: u32
  shows "unat (a - b) = (if ahead a b = 0 then 0 else 2 ^ 32 - ahead a b)"
  using unat_neg_u32[of "b - a"] by (simp add: ahead_def unat_eq_0)

lemma SEQ_ahead:
  "SEQ_EQ a b \<longleftrightarrow> ahead a b = 0"
  "SEQ_LT a b \<longleftrightarrow> 0 < ahead a b \<and> ahead a b \<le> 2 ^ 31"
  "SEQ_LEQ a b \<longleftrightarrow> ahead a b \<le> 2 ^ 31"
  "SEQ_GT a b \<longleftrightarrow> 2 ^ 31 < ahead a b"
  "SEQ_GEQ a b \<longleftrightarrow> ahead a b = 0 \<or> 2 ^ 31 < ahead a b"
proof -
  have lt: "sint (a - b) < 0 \<longleftrightarrow> 0 < ahead a b \<and> ahead a b \<le> 2 ^ 31"
  proof -
    have "ahead a b < 2 ^ 32" using unat_bound[of "b - a"] by (simp add: ahead_def)
    then show ?thesis unfolding sint_u32(1) unat_diff_swap by auto
  qed
  have "ahead a b = 0 \<longleftrightarrow> b - a = 0" unfolding ahead_def by (rule unat_eq_0)
  then have eq: "sint (a - b) = 0 \<longleftrightarrow> ahead a b = 0" unfolding sint_u32(2) by auto
  show "SEQ_EQ a b \<longleftrightarrow> ahead a b = 0" using eq by (simp add: SEQ_EQ_def)
  show "SEQ_LT a b \<longleftrightarrow> 0 < ahead a b \<and> ahead a b \<le> 2 ^ 31" using lt by (simp add: SEQ_LT_def)
  have "sint (a - b) \<le> 0 \<longleftrightarrow> sint (a - b) < 0 \<or> sint (a - b) = 0"
    "sint (a - b) > 0 \<longleftrightarrow> \<not> (sint (a - b) < 0 \<or> sint (a - b) = 0)"
    "sint (a - b) \<ge> 0 \<longleftrightarrow> \<not> sint (a - b) < 0" by linarith+
  then show "SEQ_LEQ a b \<longleftrightarrow> ahead a b \<le> 2 ^ 31" "SEQ_GT a b \<longleftrightarrow> 2 ^ 31 < ahead a b"
    "SEQ_GEQ a b \<longleftrightarrow> ahead a b = 0 \<or> 2 ^ 31 < ahead a b"
    unfolding SEQ_LEQ_def SEQ_GT_def SEQ_GEQ_def lt eq by auto
qed

lemma sequence_geq: "SEQ_GEQ a b \<longleftrightarrow> \<not> SEQ_LT a b"
  by (auto simp: SEQ_ahead)

text \<open>Sequence numbers are compared modulo 2^32: \<open>a\<close> is before \<open>b\<close> exactly when \<open>b\<close> is reached from \<open>a\<close> in
  at most 2^31 steps forward, so that adding an offset to both sides changes nothing; the comparison is
  the order of the offsets for numbers of one half of the circle, and total; but at a distance of exactly
  2^31 each of two numbers is before the other.\<close>

theorem sequence_number_order:
  fixes a b c :: u32
  shows "(SEQ_LT a b \<longleftrightarrow> 0 < ahead a b \<and> ahead a b \<le> 2 ^ 31) \<and>
    (SEQ_LT (a + c) (b + c) \<longleftrightarrow> SEQ_LT a b) \<and>
    (SEQ_LEQ a b \<longleftrightarrow> SEQ_LT a b \<or> SEQ_EQ a b) \<and> (SEQ_GEQ a b \<longleftrightarrow> \<not> SEQ_LT a b) \<and> (SEQ_GT a b \<longleftrightarrow> \<not> SEQ_LEQ a b) \<and>
    (SEQ_LT a b \<and> SEQ_LT b a \<longleftrightarrow> ahead a b = 2 ^ 31) \<and>
    SEQ_LT c (c + 2 ^ 31) \<and> SEQ_LT (c + 2 ^ 31) c"
proof -
  have shift: "ahead (a + c) (b + c) = ahead a b" by (simp add: ahead_def)
  have "ahead b a = (if ahead a b = 0 then 0 else 2 ^ 32 - ahead a b)"
    using unat_diff_swap[of a b] by (simp add: ahead_def)
  moreover have "ahead c (c + 2 ^ 31) = 2 ^ 31" "ahead (c + 2 ^ 31) c = 2 ^ 31"
    by (simp_all add: ahead_def)
  ultimately show ?thesis using shift by (auto simp: SEQ_ahead)
qed

text \<open>
  For offsets that differ by less than 2^31 it is the order of the natural numbers.
\<close>

lemma SEQ_LT_offsets:
  assumes "m < 2 ^ 31" "n < 2 ^ 31"
  shows "SEQ_LT (c + of_nat m) (c + of_nat n) \<longleftrightarrow> m < n"
proof -
  have "ahead (c + of_nat m) (c + of_nat n) = unat (of_nat n - of_nat m :: u32)" by (simp add: ahead_def)
  also have "\<dots> = (if m \<le> n then n - m else 2 ^ 32 - (m - n))"
  proof (cases "m \<le> n")
    case True
    then have "unat (of_nat n - of_nat m :: u32) = unat (of_nat (n - m) :: u32)" by (simp add: of_nat_diff)
    also have "\<dots> = n - m" using assms by (simp add: unat_of_nat del: of_nat_diff)
    finally show ?thesis using True by simp
  next
    case False
    define k where "k = m - n"
    have "(of_nat n - of_nat m :: u32) = - of_nat k" using False by (simp add: k_def of_nat_diff)
    moreover have k: "unat (of_nat k :: u32) = k" "0 < k" using False assms by (simp_all add: k_def unat_of_nat del: of_nat_diff)
    moreover have "(of_nat k :: u32) \<noteq> 0" using k by (metis unat_0 less_irrefl)
    ultimately show ?thesis using False unat_neg_u32[of "of_nat k"] by (simp add: k_def)
  qed
  finally show ?thesis using assms by (auto simp: SEQ_ahead)
qed

text \<open>The same over distances from a base, with the ends of ranges and their lengths.\<close>

lemma SEQ_ahead_from:
  assumes "ahead b x < 2 ^ 31" "ahead b y < 2 ^ 31"
  shows "SEQ_LT x y \<longleftrightarrow> ahead b x < ahead b y" "SEQ_LEQ x y \<longleftrightarrow> ahead b x \<le> ahead b y"
    "SEQ_GT x y \<longleftrightarrow> ahead b y < ahead b x" "SEQ_GEQ x y \<longleftrightarrow> ahead b y \<le> ahead b x"
    "SEQ_EQ x y \<longleftrightarrow> ahead b x = ahead b y"
proof -
  have [simp]: "b + of_nat (ahead b x) = x" for x by (simp add: ahead_def)
  have lt: "SEQ_LT x y \<longleftrightarrow> ahead b x < ahead b y" "SEQ_LT y x \<longleftrightarrow> ahead b y < ahead b x"
    using SEQ_LT_offsets[OF assms, of b] SEQ_LT_offsets[OF assms(2,1), of b] by simp_all
  have eq: "SEQ_EQ x y \<longleftrightarrow> ahead b x = ahead b y"
    by (auto simp: SEQ_ahead ahead_def unat_eq_iff unat_eq_0)
  have "SEQ_GT x y \<longleftrightarrow> \<not> SEQ_LT x y \<and> \<not> SEQ_EQ x y" "SEQ_LEQ x y \<longleftrightarrow> SEQ_LT x y \<or> SEQ_EQ x y"
    by (auto simp: SEQ_ahead)
  then show "SEQ_LT x y \<longleftrightarrow> ahead b x < ahead b y" "SEQ_LEQ x y \<longleftrightarrow> ahead b x \<le> ahead b y"
    "SEQ_GT x y \<longleftrightarrow> ahead b y < ahead b x" "SEQ_GEQ x y \<longleftrightarrow> ahead b y \<le> ahead b x"
    "SEQ_EQ x y \<longleftrightarrow> ahead b x = ahead b y"
    using lt eq by (auto simp: sequence_geq)
qed

lemma ahead_add:
  "ahead b x + n < 2 ^ 32 \<Longrightarrow> ahead b (x + of_nat n) = ahead b x + n"
proof -
  assume *: "ahead b x + n < 2 ^ 32"
  have "x + of_nat n - b = of_nat (ahead b x + n)" by (simp add: ahead_def)
  then show ?thesis using * unfolding ahead_def[of b "x + of_nat n"] by (simp add: unat_of_nat del: of_nat_add)
qed

lemma unat_diff_ahead:
  assumes "ahead b y \<le> ahead b x"
  shows "unat (x - y) = ahead b x - ahead b y"
proof -
  have "x - y = of_nat (ahead b x - ahead b y)" using assms by (simp add: ahead_def of_nat_diff)
  then show ?thesis using unat_bound[of "x - b"] by (simp add: unat_of_nat ahead_def del: of_nat_diff)
qed

end
