(* ===== verification/StreamTcpSession.thy ===== *)
theory StreamTcpSession
  imports SequenceNumbers
begin

text \<open>
  The session of the TCP stream engine (\<open>src/stream-tcp-private.h\<close>) and the checks of a packet against it in
  \<open>src/stream-tcp.c\<close>: \<open>ValidTimestamp\<close>, \<open>ValidReset\<close>.

  What the engine calls and this development does not model comes in a record of parameters: the
  direction of a packet (the macro \<open>PKT_IS_TOSERVER\<close> of \<open>decode.h\<close> names fields that no packet has and
  \<open>PKT_IS_TOCLIENT\<close> is not defined in this tree, so both are arguments), the lookup of the operating
  system of the destination, the reassembly of segments and the application layer.
\<close>

section \<open>Packets\<close>

abbreviation "TH_FIN \<equiv> 0x01 :: u8"
abbreviation "TH_SYN \<equiv> 0x02 :: u8"
abbreviation "TH_RST \<equiv> 0x04 :: u8"
abbreviation "TH_PUSH \<equiv> 0x08 :: u8"
abbreviation "TH_ACK \<equiv> 0x10 :: u8"
abbreviation "TH_ECN \<equiv> 0x40 :: u8"
abbreviation "TH_CWR \<equiv> 0x80 :: u8"

definition FLOW_PKT_TOSERVER :: u8 where "FLOW_PKT_TOSERVER = 0x01"
definition FLOW_PKT_TOCLIENT :: u8 where "FLOW_PKT_TOCLIENT = 0x02"
definition PKT_STREAM_EOF :: u8 where "PKT_STREAM_EOF = 0x20"

text \<open>
  The fields that the engine reads, in host byte order; \<open>tv_sec\<close> is the time of the packet cut to 32 bits
  (every use is a cast or an assignment to \<open>uint32_t\<close>), \<open>ts_opt\<close> the two values of the timestamp option,
  \<open>ws_opt\<close> the byte of the window scale option.
\<close>

record TcpPacket =
  th_flags :: u8
  th_seq :: u32
  th_ack :: u32
  th_win :: u16
  ts_opt :: "(u32 \<times> u32) option"
  ws_opt :: "u8 option"
  pay_len :: u16
  flowflags :: u8
  pkt_flags :: u8
  tv_sec :: u32

definition TCP_WSCALE_MAX :: u8 where "TCP_WSCALE_MAX = 14"

definition TCP_GET_WSCALE :: "TcpPacket \<Rightarrow> u8" where
  "TCP_GET_WSCALE p = (case ws_opt p of None \<Rightarrow> 0 | Some w \<Rightarrow> if w \<le> TCP_WSCALE_MAX then w else 0)"

text \<open>\<open>TCP_GET_WINDOW(p) << wscale\<close>, an \<open>int\<close> stored in an \<open>uint32_t\<close>.\<close>

definition scaled_window :: "TcpPacket \<Rightarrow> u8 \<Rightarrow> u32" where
  "scaled_window p ws = push_bit (unat ws) (ucast (th_win p))"

section \<open>Sessions\<close>

datatype tcp_state = TCP_NONE | TCP_LISTEN | TCP_SYN_SENT | TCP_SYN_RECV | TCP_ESTABLISHED | TCP_FIN_WAIT1
  | TCP_FIN_WAIT2 | TCP_TIME_WAIT | TCP_LAST_ACK | TCP_CLOSE_WAIT | TCP_CLOSING | TCP_CLOSED

text \<open>The values of the enumeration, for \<open>ssn->state > TCP_ESTABLISHED\<close>.\<close>

fun state_value :: "tcp_state \<Rightarrow> nat" where
  "state_value TCP_NONE = 0"
| "state_value TCP_LISTEN = 1"
| "state_value TCP_SYN_SENT = 2"
| "state_value TCP_SYN_RECV = 3"
| "state_value TCP_ESTABLISHED = 4"
| "state_value TCP_FIN_WAIT1 = 5"
| "state_value TCP_FIN_WAIT2 = 6"
| "state_value TCP_TIME_WAIT = 7"
| "state_value TCP_LAST_ACK = 8"
| "state_value TCP_CLOSE_WAIT = 9"
| "state_value TCP_CLOSING = 10"
| "state_value TCP_CLOSED = 11"

definition STREAMTCP_FLAG_MIDSTREAM :: u16 where "STREAMTCP_FLAG_MIDSTREAM = 0x0001"
definition STREAMTCP_FLAG_MIDSTREAM_ESTABLISHED :: u16 where "STREAMTCP_FLAG_MIDSTREAM_ESTABLISHED = 0x0002"
definition STREAMTCP_FLAG_MIDSTREAM_SYNACK :: u16 where "STREAMTCP_FLAG_MIDSTREAM_SYNACK = 0x0004"
definition STREAMTCP_FLAG_TIMESTAMP :: u16 where "STREAMTCP_FLAG_TIMESTAMP = 0x0008"
definition STREAMTCP_FLAG_SERVER_WSCALE :: u16 where "STREAMTCP_FLAG_SERVER_WSCALE = 0x0010"
definition STREAMTCP_FLAG_ZERO_TIMESTAMP :: u16 where "STREAMTCP_FLAG_ZERO_TIMESTAMP = 0x0020"
definition STREAMTCP_FLAG_ASYNC :: u16 where "STREAMTCP_FLAG_ASYNC = 0x0100"
definition STREAMTCP_FLAG_4WHS :: u16 where "STREAMTCP_FLAG_4WHS = 0x0200"

definition PAWS_24DAYS :: u32 where "PAWS_24DAYS = 2073600"

text \<open>\<open>f & flag\<close>, \<open>f |= flag\<close>, \<open>f &= ~flag\<close>.\<close>

definition has :: "u16 \<Rightarrow> u16 \<Rightarrow> bool" where "has f flag \<longleftrightarrow> f AND flag \<noteq> 0"
definition set_flag :: "u16 \<Rightarrow> u16 \<Rightarrow> u16" where "set_flag flag f = f OR flag"
definition clr_flag :: "u16 \<Rightarrow> u16 \<Rightarrow> u16" where "clr_flag flag f = f AND NOT flag"

record 'g TcpStream =
  isn :: u32
  next_seq :: u32
  last_ack :: u32
  next_win :: u32
  window :: u32
  last_ts :: u32
  last_pkt_ts :: u32
  ra_base_seq :: u32
  seg_list :: "'g list"
  wscale :: u8
  os_policy :: u8
  sflags :: u16
  tmp_ra_base_seq :: u32

record 'g TcpSession =
  tcp_st :: tcp_state
  sess_flags :: u16
  server :: "'g TcpStream"
  client :: "'g TcpStream"

definition zero_stream :: "'g TcpStream" where
  "zero_stream = \<lparr>isn = 0, next_seq = 0, last_ack = 0, next_win = 0, window = 0, last_ts = 0, last_pkt_ts = 0,
     ra_base_seq = 0, seg_list = [], wscale = 0, os_policy = 0, sflags = 0, tmp_ra_base_seq = 0\<rparr>"

text \<open>A session after \<open>memset(ssn, 0, sizeof(TcpSession))\<close>.\<close>

definition zero_session :: "'g TcpSession" where
  "zero_session = \<lparr>tcp_st = TCP_NONE, sess_flags = 0, server = zero_stream, client = zero_stream\<rparr>"

text \<open>
  The code has a branch for each direction that differs in the exchange of \<open>client\<close> and \<open>server\<close> only;
  \<open>snd_stream d\<close> is the stream of the sender of a packet to the server (\<open>d\<close>) or to the client.
\<close>

definition snd_stream :: "bool \<Rightarrow> 'g TcpSession \<Rightarrow> 'g TcpStream" where
  "snd_stream d s = (if d then client s else server s)"

definition rcv_stream :: "bool \<Rightarrow> 'g TcpSession \<Rightarrow> 'g TcpStream" where
  "rcv_stream d s = (if d then server s else client s)"

definition on_client :: "('g TcpStream \<Rightarrow> 'g TcpStream) \<Rightarrow> 'g TcpSession \<Rightarrow> 'g TcpSession" where
  "on_client f s = s\<lparr>client := f (client s)\<rparr>"

definition on_server :: "('g TcpStream \<Rightarrow> 'g TcpStream) \<Rightarrow> 'g TcpSession \<Rightarrow> 'g TcpSession" where
  "on_server f s = s\<lparr>server := f (server s)\<rparr>"

definition on_snd :: "bool \<Rightarrow> ('g TcpStream \<Rightarrow> 'g TcpStream) \<Rightarrow> 'g TcpSession \<Rightarrow> 'g TcpSession" where
  "on_snd d f s = (if d then on_client f s else on_server f s)"

definition on_rcv :: "bool \<Rightarrow> ('g TcpStream \<Rightarrow> 'g TcpStream) \<Rightarrow> 'g TcpSession \<Rightarrow> 'g TcpSession" where
  "on_rcv d f s = (if d then on_server f s else on_client f s)"

section \<open>The parameters of the engine\<close>

text \<open>
  \<open>midstream\<close> and \<open>async_oneside\<close> are the options of \<open>stream_config\<close>. \<open>host_os\<close> is what
  \<open>SCHInfoGetIPv4HostOSFlavour\<close> or its IPv6 variant returns for the destination, \<open>None\<close> for a packet of neither version.
  \<open>reassemble c p s\<close> is the session after \<open>StreamTcpReassembleHandleSegment\<close>, \<open>c\<close> for the client's stream;
  \<open>app_layer\<close> is \<open>StreamTcpReassembleProcessAppLayer\<close>, which may set flags of the session of the flow.
\<close>

record 'g engine =
  to_server :: "TcpPacket \<Rightarrow> bool"
  to_client :: "TcpPacket \<Rightarrow> bool"
  midstream :: bool
  async_oneside :: bool
  host_os :: "TcpPacket \<Rightarrow> int option"
  reassemble :: "bool \<Rightarrow> TcpPacket \<Rightarrow> 'g TcpSession \<Rightarrow> 'g TcpSession"
  app_layer :: "'g TcpSession option \<Rightarrow> int \<times> 'g TcpSession option"

section \<open>The operating system of the receiver\<close>

definition OS_POLICY_BSD :: u8 where "OS_POLICY_BSD = 2"
definition OS_POLICY_BSD_RIGHT :: u8 where "OS_POLICY_BSD_RIGHT = 3"
definition OS_POLICY_OLD_LINUX :: u8 where "OS_POLICY_OLD_LINUX = 4"
definition OS_POLICY_LINUX :: u8 where "OS_POLICY_LINUX = 5"
definition OS_POLICY_OLD_SOLARIS :: u8 where "OS_POLICY_OLD_SOLARIS = 6"
definition OS_POLICY_SOLARIS :: u8 where "OS_POLICY_SOLARIS = 7"
definition OS_POLICY_HPUX11 :: u8 where "OS_POLICY_HPUX11 = 9"
definition OS_POLICY_WINDOWS :: u8 where "OS_POLICY_WINDOWS = 12"
definition OS_POLICY_VISTA :: u8 where "OS_POLICY_VISTA = 13"
definition OS_POLICY_WINDOWS2K3 :: u8 where "OS_POLICY_WINDOWS2K3 = 14"

definition StreamTcpSetOSPolicy :: "'g engine \<Rightarrow> TcpPacket \<Rightarrow> 'g TcpStream \<Rightarrow> 'g TcpStream" where
  "StreamTcpSetOSPolicy E p stream =
     (let pol = (case host_os E p of
                   None \<Rightarrow> os_policy stream
                 | Some ret \<Rightarrow> if ret > 0 then of_int ret else OS_POLICY_BSD);
          pol = (if pol = OS_POLICY_BSD_RIGHT then OS_POLICY_BSD
                 else if pol = OS_POLICY_OLD_SOLARIS then OS_POLICY_SOLARIS else pol)
      in stream\<lparr>os_policy := pol\<rparr>)"

section \<open>Timestamps\<close>

text \<open>A handshake with the timestamp 0: the first \<open>switch\<close>, the session and whether to check.\<close>

definition zero_timestamp_case :: "bool \<Rightarrow> TcpPacket \<Rightarrow> u32 \<Rightarrow> 'g TcpSession \<Rightarrow> 'g TcpSession \<times> bool" where
  "zero_timestamp_case d p ts s =
     (let pol = os_policy (rcv_stream d s) in
      if pol = OS_POLICY_LINUX \<or> pol = OS_POLICY_WINDOWS2K3 then
        (s\<lparr>sess_flags := clr_flag STREAMTCP_FLAG_TIMESTAMP (sess_flags s)\<rparr>, False)
      else if pol = OS_POLICY_OLD_LINUX \<or> pol = OS_POLICY_WINDOWS \<or> pol = OS_POLICY_VISTA then
        (let s = on_snd d (\<lambda>x. x\<lparr>sflags := clr_flag STREAMTCP_FLAG_ZERO_TIMESTAMP (sflags x)\<rparr>) s in
         if SEQ_EQ (next_seq (snd_stream d s)) (th_seq p)
         then (on_snd d (\<lambda>x. x\<lparr>last_ts := ts\<rparr>) s, False) else (s, True))
      else (s, True))"

text \<open>The comparison with the last timestamp of the sender, with the rule for long idle connections.\<close>

definition check_timestamp :: "bool \<Rightarrow> TcpPacket \<Rightarrow> u32 \<Rightarrow> 'g TcpSession \<Rightarrow> int \<times> 'g TcpSession" where
  "check_timestamp d p ts s =
     (let x = snd_stream d s;
          result = (if os_policy (rcv_stream d s) = OS_POLICY_LINUX then sint ((ts - last_ts x) + 1)
                    else sint (ts - last_ts x));
          s = (if last_pkt_ts x = 0 \<and> has (sess_flags s) STREAMTCP_FLAG_MIDSTREAM
               then on_snd d (\<lambda>x. x\<lparr>last_pkt_ts := tv_sec p\<rparr>) s else s);
          x = snd_stream d s;
          inorder = SEQ_EQ (next_seq x) (th_seq p);
          idle = tv_sec p > last_pkt_ts x + PAWS_24DAYS;
          ret = (if result < 0 then 0 else if last_ts x \<noteq> 0 \<and> idle then 0 else (1 :: int))
      in if ret = 1 then
           (1, on_snd d (\<lambda>x. x\<lparr>last_ts := (if inorder then ts else last_ts x), last_pkt_ts := tv_sec p\<rparr>) s)
         else if inorder \<and> idle then
           (1, on_snd d (\<lambda>x. x\<lparr>last_ts := ts, last_pkt_ts := tv_sec p\<rparr>) s)
         else (0, s))"

text \<open>The timestamp option of a packet: the value 0 is dropped by most systems, and some systems skip the check.\<close>

definition timestamp_value :: "bool \<Rightarrow> TcpPacket \<Rightarrow> u32 \<Rightarrow> 'g TcpSession \<Rightarrow> int \<times> 'g TcpSession" where
  "timestamp_value d p ts s =
     (let pol = os_policy (rcv_stream d s);
          zero = (if has (sflags (snd_stream d s)) STREAMTCP_FLAG_ZERO_TIMESTAMP
                  then zero_timestamp_case d p ts s else (s, True));
          s = fst zero;
          check_ts = (if pol = OS_POLICY_HPUX11 \<and> \<not> SEQ_EQ (next_seq (snd_stream d s)) (th_seq p)
                      then False else snd zero)
      in if ts = 0 \<and> pol \<notin> {OS_POLICY_OLD_LINUX, OS_POLICY_WINDOWS, OS_POLICY_WINDOWS2K3,
                         OS_POLICY_VISTA, OS_POLICY_SOLARIS} then (0, s)
         else if check_ts then check_timestamp d p ts s
         else (1, s))"

definition ValidTimestamp :: "'g engine \<Rightarrow> TcpPacket \<Rightarrow> 'g TcpSession \<Rightarrow> int \<times> 'g TcpSession" where
  "ValidTimestamp E p s =
     (let d = to_server E p;
          s = (if os_policy (rcv_stream d s) = 0 then on_rcv d (StreamTcpSetOSPolicy E p) s else s)
      in case ts_opt p of
           None \<Rightarrow>
             (1, if os_policy (rcv_stream d s) = OS_POLICY_SOLARIS
                 then s\<lparr>sess_flags := clr_flag STREAMTCP_FLAG_TIMESTAMP (sess_flags s)\<rparr> else s)
         | Some (ts, _) \<Rightarrow> timestamp_value d p ts s)"

section \<open>Resets\<close>

text \<open>
  The sequence number of a reset against the policy of the receiver. A packet to the client sets the
  policy of the server's stream when the one of the client's stream is missing, as in the code.
\<close>

definition reset_in_window :: "bool \<Rightarrow> u8 \<Rightarrow> TcpPacket \<Rightarrow> 'g TcpSession \<Rightarrow> bool" where
  "reset_in_window d pol p s =
     (let x = snd_stream d s in
      if pol = OS_POLICY_HPUX11 then SEQ_GEQ (th_seq p) (next_seq x)
      else if pol = OS_POLICY_OLD_LINUX \<or> pol = OS_POLICY_LINUX \<or> pol = OS_POLICY_SOLARIS then
        SEQ_GEQ (th_seq p + ucast (pay_len p)) (last_ack x) \<and> SEQ_LT (th_seq p) (next_seq x + window x)
      else SEQ_EQ (th_seq p) (next_seq x))"

definition ValidReset :: "'g engine \<Rightarrow> TcpPacket \<Rightarrow> 'g TcpSession \<Rightarrow> int \<times> 'g TcpSession" where
  "ValidReset E p s =
     (let ts = (if has (sess_flags s) STREAMTCP_FLAG_TIMESTAMP then ValidTimestamp E p s else (1, s)) in
      if fst ts = 0 then (- 1, snd ts)
      else
        let s = snd ts; d = to_server E p;
            s = (if os_policy (rcv_stream d s) = 0 then on_server (StreamTcpSetOSPolicy E p) s else s)
        in (if reset_in_window d (os_policy (rcv_stream d s)) p s then 1 else 0, s))"

end
