(* ===== verification/StreamTcp.thy ===== *)
theory StreamTcp
  imports StreamTcpSession
begin

text \<open>
  The TCP state machine of \<open>src/stream-tcp.c\<close>: one handler per state, the dispatcher \<open>StreamTcpPacket\<close>,
  and the state of the flow. A handler returns the code's return value with the session and the log of the
  calls into the flow engine and the segment pool. A \<open>switch\<close> on the flags of the packet is a sequence of
  tests for membership in the disjoint lists of its labels.
\<close>

section \<open>Flags, effects and the steps the handlers share\<close>

definition syn_flags :: "u8 set" where
  "syn_flags = {TH_SYN, TH_SYN OR TH_CWR, TH_SYN OR TH_CWR OR TH_ECN}"

definition synack_flags :: "u8 set" where
  "synack_flags = {TH_SYN OR TH_ACK, TH_SYN OR TH_ACK OR TH_ECN}"

definition ack_flags :: "u8 set" where
  "ack_flags = {TH_ACK, TH_ACK OR TH_ECN, TH_ACK OR TH_PUSH, TH_ACK OR TH_PUSH OR TH_ECN}"

definition bare_ack_flags :: "u8 set" where
  "bare_ack_flags = {TH_ACK, TH_ACK OR TH_ECN}"

definition rst_flags :: "u8 set" where
  "rst_flags = {TH_RST, TH_RST OR TH_ACK, TH_RST OR TH_ACK OR TH_ECN}"

definition fin_flags :: "u8 set" where
  "fin_flags = {TH_FIN, TH_FIN OR TH_ACK, TH_FIN OR TH_ACK OR TH_ECN, TH_FIN OR TH_ACK OR TH_PUSH,
     TH_FIN OR TH_ACK OR TH_PUSH OR TH_ECN}"

definition fin_nopush_flags :: "u8 set" where
  "fin_nopush_flags = {TH_FIN, TH_FIN OR TH_ACK, TH_FIN OR TH_ACK OR TH_ECN}"

text \<open>\<open>Requeued\<close> is a call of \<open>FlowUpdateQueue\<close> in the given state, \<open>Segments_returned\<close> one of
  \<open>StreamTcpSessionPktFree\<close>, the other two the performance counters.\<close>

datatype effect = Requeued tcp_state | Segments_returned | Session_counted | Memcap_drop

record 'g work =
  ssn :: "'g TcpSession"
  log :: "effect list"

definition upd :: "('g TcpSession \<Rightarrow> 'g TcpSession) \<Rightarrow> 'g work \<Rightarrow> 'g work" where
  "upd f w = w\<lparr>ssn := f (ssn w)\<rparr>"

definition StreamTcpPacketSetState :: "tcp_state \<Rightarrow> 'g work \<Rightarrow> 'g work" where
  "StreamTcpPacketSetState st w =
     (if st = tcp_st (ssn w) then w
      else w\<lparr>ssn := (ssn w)\<lparr>tcp_st := st\<rparr>, log := log w @ [Requeued st]\<rparr>)"

definition StreamTcpReturnStreamSegments :: "'g TcpStream \<Rightarrow> 'g TcpStream" where
  "StreamTcpReturnStreamSegments x = x\<lparr>seg_list := []\<rparr>"

definition StreamTcpSessionPktFree :: "'g work \<Rightarrow> 'g work" where
  "StreamTcpSessionPktFree w =
     w\<lparr>ssn := on_server StreamTcpReturnStreamSegments (on_client StreamTcpReturnStreamSegments (ssn w)),
       log := log w @ [Segments_returned]\<rparr>"

definition StreamTcpPacketSwitchDir :: "'g engine \<Rightarrow> TcpPacket \<Rightarrow> TcpPacket" where
  "StreamTcpPacketSwitchDir E p =
     (if to_server E p
      then p\<lparr>flowflags := (flowflags p AND NOT FLOW_PKT_TOSERVER) OR FLOW_PKT_TOCLIENT\<rparr>
      else p\<lparr>flowflags := (flowflags p AND NOT FLOW_PKT_TOCLIENT) OR FLOW_PKT_TOSERVER\<rparr>)"

text \<open>\<open>if (ssn->flags & STREAMTCP_FLAG_TIMESTAMP) { if (!ValidTimestamp(ssn, p)) return -1; }\<close>\<close>

definition ts_check :: "'g engine \<Rightarrow> TcpPacket \<Rightarrow> 'g work \<Rightarrow> ('g work \<Rightarrow> int \<times> 'g work) \<Rightarrow> int \<times> 'g work" where
  "ts_check E p w k =
     (if has (sess_flags (ssn w)) STREAMTCP_FLAG_TIMESTAMP then
        (case ValidTimestamp E p (ssn w) of (ok, s) \<Rightarrow>
           if ok = 0 then (- 1, w\<lparr>ssn := s\<rparr>) else k (w\<lparr>ssn := s\<rparr>))
      else k w)"

text \<open>The window and the acknowledgement of a packet, for the stream of the receiver.\<close>

definition raise_last_ack :: "TcpPacket \<Rightarrow> 'g TcpStream \<Rightarrow> 'g TcpStream" where
  "raise_last_ack p x = (if SEQ_GT (th_ack p) (last_ack x) then x\<lparr>last_ack := th_ack p\<rparr> else x)"

definition set_window :: "TcpPacket \<Rightarrow> 'g TcpStream \<Rightarrow> 'g TcpStream" where
  "set_window p x = x\<lparr>window := scaled_window p (wscale x)\<rparr>"

definition take_ack :: "bool \<Rightarrow> TcpPacket \<Rightarrow> 'g TcpSession \<Rightarrow> 'g TcpSession" where
  "take_ack d p s = on_rcv d (\<lambda>x. raise_last_ack p (set_window p x)) s"

text \<open>\<open>if (SEQ_EQ(next_seq, TCP_GET_SEQ(p))) next_seq += p->payload_len;\<close>\<close>

definition advance :: "bool \<Rightarrow> TcpPacket \<Rightarrow> 'g TcpSession \<Rightarrow> 'g TcpSession" where
  "advance d p s =
     on_snd d (\<lambda>x. if SEQ_EQ (next_seq x) (th_seq p) then x\<lparr>next_seq := next_seq x + ucast (pay_len p)\<rparr> else x) s"

text \<open>\<open>SEQ_LT(seq, next_seq) || SEQ_GT(seq, last_ack + window)\<close>\<close>

definition outside_window :: "bool \<Rightarrow> TcpPacket \<Rightarrow> 'g TcpSession \<Rightarrow> bool" where
  "outside_window d p s =
     (let x = snd_stream d s in SEQ_LT (th_seq p) (next_seq x) \<or> SEQ_GT (th_seq p) (last_ack x + window x))"

text \<open>A reset in the states that just close: the return value -1 of \<open>ValidReset\<close> counts as true.\<close>

definition close_on_reset :: "'g engine \<Rightarrow> TcpPacket \<Rightarrow> 'g work \<Rightarrow> int \<times> 'g work" where
  "close_on_reset E p w =
     (case ValidReset E p (ssn w) of (ok, s) \<Rightarrow>
        if ok \<noteq> 0 then (0, StreamTcpSessionPktFree (StreamTcpPacketSetState TCP_CLOSED (w\<lparr>ssn := s\<rparr>)))
        else (- 1, w\<lparr>ssn := s\<rparr>))"

section \<open>No session yet\<close>

text \<open>The timestamp of the first packet, \<open>SYN/ACK\<close> or \<open>ACK\<close> of a session that is picked up midstream;
  \<open>d\<close> for a packet of the client.\<close>

definition midstream_timestamps :: "bool \<Rightarrow> TcpPacket \<Rightarrow> 'g TcpSession \<Rightarrow> 'g TcpSession" where
  "midstream_timestamps d p s =
     (case ts_opt p of
        None \<Rightarrow> on_server (\<lambda>x. x\<lparr>last_ts := 0\<rparr>) (on_client (\<lambda>x. x\<lparr>last_ts := 0\<rparr>) s)
      | Some (val, ecr) \<Rightarrow>
          let zero = (\<lambda>x. if last_ts x = 0 then x\<lparr>sflags := set_flag STREAMTCP_FLAG_ZERO_TIMESTAMP (sflags x)\<rparr> else x);
              s = on_snd d (\<lambda>x. x\<lparr>last_ts := val, last_pkt_ts := tv_sec p\<rparr>) (on_rcv d (\<lambda>x. x\<lparr>last_ts := ecr\<rparr>) s);
              s = s\<lparr>sess_flags := set_flag STREAMTCP_FLAG_TIMESTAMP (sess_flags s)\<rparr>
          in on_server zero (on_client zero s))"

text \<open>The timestamp of a \<open>SYN\<close>.\<close>

definition syn_timestamp :: "TcpPacket \<Rightarrow> 'g TcpStream \<Rightarrow> 'g TcpStream" where
  "syn_timestamp p x =
     (case ts_opt p of
        None \<Rightarrow> x
      | Some (val, _) \<Rightarrow>
          x\<lparr>last_ts := val,
            sflags := set_flag STREAMTCP_FLAG_TIMESTAMP
              (if val = 0 then set_flag STREAMTCP_FLAG_ZERO_TIMESTAMP (sflags x) else sflags x),
            last_pkt_ts := tv_sec p\<rparr>)"

text \<open>The window and the window scale of a \<open>SYN\<close>, for the server's stream.\<close>

definition syn_window :: "TcpPacket \<Rightarrow> 'g TcpSession \<Rightarrow> 'g TcpSession" where
  "syn_window p s =
     (let s = on_server (\<lambda>x. x\<lparr>window := ucast (th_win p)\<rparr>) s in
      if ws_opt p \<noteq> None then
        on_server (\<lambda>x. x\<lparr>wscale := TCP_GET_WSCALE p\<rparr>)
          (s\<lparr>sess_flags := set_flag STREAMTCP_FLAG_SERVER_WSCALE (sess_flags s)\<rparr>)
      else s)"

definition start_isn :: "u32 \<Rightarrow> 'g TcpStream \<Rightarrow> 'g TcpStream" where
  "start_isn n x = x\<lparr>isn := n, ra_base_seq := n, next_seq := n + 1\<rparr>"

definition none_syn :: "TcpPacket \<Rightarrow> 'g work \<Rightarrow> 'g work" where
  "none_syn p w =
     upd (\<lambda>s. syn_window p (on_client (\<lambda>x. syn_timestamp p (start_isn (th_seq p) x)) s))
       (StreamTcpPacketSetState TCP_SYN_SENT w)"

definition none_synack :: "TcpPacket \<Rightarrow> 'g work \<Rightarrow> 'g work" where
  "none_synack p w =
     upd (\<lambda>s.
       let s = s\<lparr>sess_flags := set_flag STREAMTCP_FLAG_MIDSTREAM_SYNACK (set_flag STREAMTCP_FLAG_MIDSTREAM (sess_flags s))\<rparr>;
           s = on_server (\<lambda>x. (start_isn (th_seq p) x)\<lparr>window := ucast (th_win p)\<rparr>) s;
           s = on_client (\<lambda>x. (start_isn (th_ack p - 1) x)\<lparr>last_ack := th_ack p\<rparr>) s;
           s = (if ws_opt p \<noteq> None then
                  on_server (\<lambda>x. x\<lparr>wscale := TCP_WSCALE_MAX\<rparr>) (on_client (\<lambda>x. x\<lparr>wscale := TCP_GET_WSCALE p\<rparr>) s)
                else s)
       in midstream_timestamps False p s)
     (StreamTcpPacketSetState TCP_SYN_RECV w)"

definition none_ack :: "'g engine \<Rightarrow> TcpPacket \<Rightarrow> 'g work \<Rightarrow> 'g work" where
  "none_ack E p w =
     upd (\<lambda>s.
       let s = s\<lparr>sess_flags := set_flag STREAMTCP_FLAG_MIDSTREAM_ESTABLISHED STREAMTCP_FLAG_MIDSTREAM\<rparr>;
           s = on_client (\<lambda>x. x\<lparr>isn := th_seq p - 1, ra_base_seq := th_seq p - 1,
                 next_seq := th_seq p + ucast (pay_len p), window := ucast (th_win p), last_ack := th_seq p,
                 next_win := th_seq p + ucast (th_win p)\<rparr>) s;
           s = on_server (\<lambda>x. (start_isn (th_ack p - 1) x)\<lparr>last_ack := th_ack p, next_win := th_ack p\<rparr>) s;
           s = on_server (\<lambda>x. x\<lparr>wscale := TCP_WSCALE_MAX\<rparr>) (on_client (\<lambda>x. x\<lparr>wscale := TCP_WSCALE_MAX\<rparr>) s)
       in reassemble E True p (midstream_timestamps True p s))
     (StreamTcpPacketSetState TCP_ESTABLISHED w)"

text \<open>
  \<open>StreamTcpNewSession\<close>: the session of the flow, or else the one that \<open>PoolGet\<close> returned (\<open>fresh\<close>), in state
  \<open>TCP_NONE\<close>.
\<close>

definition StreamTcpNewSession :: "'g TcpSession option \<Rightarrow> 'g TcpSession option \<Rightarrow> 'g TcpSession option" where
  "StreamTcpNewSession fresh protoctx =
     (case protoctx of
        Some s \<Rightarrow> Some s
      | None \<Rightarrow> map_option (\<lambda>s. s\<lparr>tcp_st := TCP_NONE\<rparr>) fresh)"

text \<open>
  The handler without a session. \<open>None\<close> is the \<open>BUG_ON\<close>; otherwise the return value, the session of the
  flow and the log.
\<close>

definition with_session :: "'g TcpSession option \<Rightarrow> 'g TcpSession option \<Rightarrow> ('g work \<Rightarrow> 'g work)
    \<Rightarrow> int \<times> 'g TcpSession option \<times> effect list" where
  "with_session fresh protoctx act =
     (case StreamTcpNewSession fresh protoctx of
        None \<Rightarrow> (- 1, None, [Memcap_drop])
      | Some s \<Rightarrow>
          let w = act \<lparr>ssn = s, log = (if protoctx = None then [Session_counted] else [])\<rparr>
          in (0, Some (ssn w), log w))"

definition StreamTcpPacketStateNone :: "'g engine \<Rightarrow> 'g TcpSession option \<Rightarrow> TcpPacket \<Rightarrow> 'g TcpSession option
    \<Rightarrow> (int \<times> 'g TcpSession option \<times> effect list) option" where
  "StreamTcpPacketStateNone E fresh p protoctx =
     (if th_flags p \<in> insert (TH_SYN OR TH_ECN) syn_flags then
        Some (with_session fresh protoctx (none_syn p))
      else if th_flags p \<in> synack_flags then
        (if \<not> midstream E \<and> \<not> async_oneside E then Some (0, protoctx, [])
         else Some (with_session fresh protoctx (none_synack p)))
      else if th_flags p \<in> ack_flags then
        (if \<not> midstream E then Some (0, protoctx, [])
         else Some (with_session fresh protoctx (none_ack E p)))
      else if th_flags p \<in> insert (TH_RST OR TH_ACK OR TH_PUSH) (insert (TH_RST OR TH_ACK OR TH_PUSH OR TH_ECN) rst_flags) \<union> fin_flags then
        (if protoctx \<noteq> None then None else Some (0, protoctx, []))
      else Some (0, protoctx, []))"

section \<open>SYN sent\<close>

text \<open>A \<open>SYN\<close> from the server: the beginning of a handshake with four packets.\<close>

definition synsent_syn :: "'g engine \<Rightarrow> TcpPacket \<Rightarrow> 'g TcpSession \<Rightarrow> 'g TcpSession" where
  "synsent_syn E p s =
     (if to_client E p then
        syn_window p
          (on_server (\<lambda>x. syn_timestamp p (start_isn (th_seq p) x))
            (s\<lparr>sess_flags := set_flag STREAMTCP_FLAG_4WHS (sess_flags s)\<rparr>))
      else s)"

text \<open>
  The timestamps of a \<open>SYN/ACK\<close>: \<open>d\<close> is whether the client sends it (the handshake with four packets).
  The other side announced a timestamp when the flag of its stream is set.
\<close>

definition synack_timestamps :: "bool \<Rightarrow> TcpPacket \<Rightarrow> 'g TcpSession \<Rightarrow> 'g TcpSession" where
  "synack_timestamps d p s =
     (case ts_opt p of
        Some (val, _) \<Rightarrow>
          if has (sflags (rcv_stream d s)) STREAMTCP_FLAG_TIMESTAMP then
            (let s = on_rcv d (\<lambda>x. x\<lparr>sflags := clr_flag STREAMTCP_FLAG_TIMESTAMP (sflags x)\<rparr>) s;
                 s = s\<lparr>sess_flags := set_flag STREAMTCP_FLAG_TIMESTAMP (sess_flags s)\<rparr>
             in on_snd d (\<lambda>x. x\<lparr>last_ts := val, last_pkt_ts := tv_sec p,
                  sflags := (if val = 0 then set_flag STREAMTCP_FLAG_ZERO_TIMESTAMP (sflags x) else sflags x)\<rparr>) s)
          else on_snd d (\<lambda>x. x\<lparr>last_ts := 0\<rparr>) (on_rcv d (\<lambda>x. x\<lparr>last_ts := 0,
                 sflags := clr_flag STREAMTCP_FLAG_ZERO_TIMESTAMP (clr_flag STREAMTCP_FLAG_TIMESTAMP (sflags x))\<rparr>) s)
      | None \<Rightarrow> on_snd d (\<lambda>x. x\<lparr>last_ts := 0\<rparr>) (on_rcv d (\<lambda>x. x\<lparr>last_ts := 0,
                 sflags := clr_flag STREAMTCP_FLAG_ZERO_TIMESTAMP (clr_flag STREAMTCP_FLAG_TIMESTAMP (sflags x))\<rparr>) s))"

definition synack_wscale :: "TcpPacket \<Rightarrow> 'g TcpSession \<Rightarrow> u8" where
  "synack_wscale p s =
     (if has (sess_flags s) STREAMTCP_FLAG_SERVER_WSCALE \<and> ws_opt p \<noteq> None then TCP_GET_WSCALE p else 0)"

definition set_next_win :: "'g TcpStream \<Rightarrow> 'g TcpStream" where
  "set_next_win x = x\<lparr>next_win := last_ack x + window x\<rparr>"

definition synsent_synack_4whs :: "TcpPacket \<Rightarrow> 'g work \<Rightarrow> 'g work" where
  "synsent_synack_4whs p w =
     upd (\<lambda>s.
       let s = on_client (start_isn (th_seq p)) s;
           s = on_server (\<lambda>x. x\<lparr>window := ucast (th_win p)\<rparr>) s;
           s = synack_timestamps True p s;
           s = on_server (\<lambda>x. x\<lparr>last_ack := th_ack p\<rparr>) s;
           s = on_client (\<lambda>x. x\<lparr>last_ack := isn x + 1\<rparr>) s;
           s = on_server (\<lambda>x. x\<lparr>wscale := synack_wscale p s\<rparr>) s
       in on_server set_next_win (on_client set_next_win s))
     (StreamTcpPacketSetState TCP_SYN_RECV w)"

definition synsent_synack :: "TcpPacket \<Rightarrow> 'g work \<Rightarrow> 'g work" where
  "synsent_synack p w =
     upd (\<lambda>s.
       let s = on_server (start_isn (th_seq p)) s;
           s = on_client (\<lambda>x. x\<lparr>window := ucast (th_win p)\<rparr>) s;
           s = synack_timestamps False p s;
           s = on_client (\<lambda>x. x\<lparr>last_ack := th_ack p\<rparr>) s;
           s = on_server (\<lambda>x. x\<lparr>last_ack := isn x + 1\<rparr>) s;
           s = on_client (\<lambda>x. x\<lparr>wscale := synack_wscale p s\<rparr>) s;
           s = on_client set_next_win (on_server set_next_win s)
       in s\<lparr>sess_flags := clr_flag STREAMTCP_FLAG_4WHS (sess_flags s)\<rparr>)
     (StreamTcpPacketSetState TCP_SYN_RECV w)"

text \<open>An \<open>ACK\<close> after the \<open>SYN\<close> of the same host: a connection of which only one direction is seen.\<close>

definition synsent_async :: "TcpPacket \<Rightarrow> 'g work \<Rightarrow> 'g work" where
  "synsent_async p w =
     upd (\<lambda>s.
       let s = on_client (\<lambda>x. x\<lparr>window := ucast (th_win p), last_ack := th_seq p,
                 next_win := th_seq p + ucast (th_win p)\<rparr>) s;
           s = on_server (\<lambda>x. let x = start_isn (th_ack p - 1) x in x\<lparr>last_ack := next_seq x, next_win := next_seq x\<rparr>) s;
           s = on_server (\<lambda>x. x\<lparr>wscale := TCP_WSCALE_MAX\<rparr>) (on_client (\<lambda>x. x\<lparr>wscale := TCP_WSCALE_MAX\<rparr>) s)
       in if ts_opt p \<noteq> None \<and> has (sflags (client s)) STREAMTCP_FLAG_TIMESTAMP then
            on_client (\<lambda>x. x\<lparr>sflags := clr_flag STREAMTCP_FLAG_TIMESTAMP (sflags x), last_pkt_ts := tv_sec p\<rparr>)
              (s\<lparr>sess_flags := set_flag STREAMTCP_FLAG_TIMESTAMP (sess_flags s)\<rparr>)
          else
            on_client (\<lambda>x. x\<lparr>last_ts := 0,
              sflags := clr_flag STREAMTCP_FLAG_ZERO_TIMESTAMP (clr_flag STREAMTCP_FLAG_TIMESTAMP (sflags x))\<rparr>) s)
     (StreamTcpPacketSetState TCP_ESTABLISHED
       (upd (\<lambda>s. s\<lparr>sess_flags := set_flag STREAMTCP_FLAG_ASYNC (sess_flags s)\<rparr>) w))"

definition StreamTcpPacketStateSynSent :: "'g engine \<Rightarrow> TcpPacket \<Rightarrow> 'g work \<Rightarrow> int \<times> 'g work" where
  "StreamTcpPacketStateSynSent E p w =
     (if th_flags p \<in> syn_flags then (0, upd (synsent_syn E p) w)
      else if th_flags p \<in> synack_flags then
        (if has (sess_flags (ssn w)) STREAMTCP_FLAG_4WHS \<and> to_server E p then
           (if \<not> SEQ_EQ (th_ack p) (isn (server (ssn w)) + 1) then (- 1, w)
            else if \<not> SEQ_EQ (th_seq p) (isn (client (ssn w))) then (- 1, w)
            else (0, synsent_synack_4whs p w))
         else if to_server E p then (- 1, w)
         else if \<not> SEQ_EQ (th_ack p) (isn (client (ssn w)) + 1) then (- 1, w)
         else (0, synsent_synack p w))
      else if th_flags p \<in> ack_flags then
        (if \<not> async_oneside E then (0, w)
         else if \<not> SEQ_EQ (th_seq p) (next_seq (client (ssn w))) then (- 1, w)
         else (0, synsent_async p w))
      else if th_flags p \<in> rst_flags then
        (case ValidReset E p (ssn w) of (ok, s) \<Rightarrow>
           let w = w\<lparr>ssn := s\<rparr> in
           if ok \<noteq> 0 then
             (if SEQ_EQ (th_seq p) (isn (client s)) \<and> SEQ_EQ (ucast (th_win p)) 0 \<and> SEQ_EQ (th_ack p) (isn (client s) + 1)
              then (0, StreamTcpSessionPktFree (StreamTcpPacketSetState TCP_CLOSED w))
              else (0, w))
           else (- 1, w))
      else (0, w))"

section \<open>SYN received\<close>

text \<open>\<open>StreamTcpHandleFin\<close>\<close>

definition StreamTcpHandleFin :: "'g engine \<Rightarrow> TcpPacket \<Rightarrow> 'g work \<Rightarrow> int \<times> 'g work" where
  "StreamTcpHandleFin E p w =
     (let d = to_server E p in
      if outside_window d p (ssn w) then (- 1, w)
      else
        (0, upd (\<lambda>s.
              let s = on_snd d (\<lambda>x. if SEQ_EQ (th_seq p) (next_seq x)
                                      then x\<lparr>next_seq := th_seq p + ucast (pay_len p) + 1\<rparr> else x) s;
                  s = on_rcv d (\<lambda>x. x\<lparr>next_seq := th_ack p\<rparr>) s
              in reassemble E d p (take_ack d p s))
            (StreamTcpPacketSetState (if d then TCP_CLOSE_WAIT else TCP_FIN_WAIT1) w)))"

definition midstream_wscale :: "'g TcpSession \<Rightarrow> 'g TcpSession" where
  "midstream_wscale s =
     on_client (\<lambda>x. x\<lparr>wscale := TCP_WSCALE_MAX\<rparr>) (on_server (\<lambda>x. x\<lparr>wscale := TCP_WSCALE_MAX\<rparr>) s)"

text \<open>The last packet of the handshake: with four packets, with three, and when only one side is seen.\<close>

definition synrecv_ack_4whs :: "'g engine \<Rightarrow> TcpPacket \<Rightarrow> 'g TcpSession \<Rightarrow> 'g TcpSession" where
  "synrecv_ack_4whs E p s =
     (let s = on_client (\<lambda>x. set_next_win (set_window p (x\<lparr>last_ack := th_ack p\<rparr>))) s;
          s = on_server (\<lambda>x. x\<lparr>next_seq := next_seq x + ucast (pay_len p)\<rparr>) s
      in reassemble E False p s)"

definition synrecv_ack_normal :: "'g engine \<Rightarrow> TcpPacket \<Rightarrow> 'g TcpSession \<Rightarrow> 'g TcpSession" where
  "synrecv_ack_normal E p s =
     (let s = on_client (\<lambda>x. x\<lparr>next_seq := next_seq x + ucast (pay_len p)\<rparr>) s;
          s = on_server (\<lambda>x. set_next_win (set_window p (x\<lparr>last_ack := th_ack p\<rparr>))) s;
          s = (if has (sess_flags s) STREAMTCP_FLAG_MIDSTREAM
               then midstream_wscale (on_server set_next_win (on_client (\<lambda>x. x\<lparr>window := ucast (th_win p)\<rparr>) s)) else s)
      in reassemble E True p s)"

definition synrecv_ack_async :: "'g engine \<Rightarrow> TcpPacket \<Rightarrow> 'g TcpSession \<Rightarrow> 'g TcpSession" where
  "synrecv_ack_async E p s =
     (let s = s\<lparr>sess_flags := set_flag STREAMTCP_FLAG_ASYNC (sess_flags s)\<rparr>;
          s = on_server (\<lambda>x. x\<lparr>next_seq := next_seq x + ucast (pay_len p), last_ack := th_seq p\<rparr>) s;
          s = on_client (\<lambda>x. (set_window p x)\<lparr>last_ack := th_ack p\<rparr>) s;
          s = (if has (sess_flags s) STREAMTCP_FLAG_MIDSTREAM
               then (let s = on_server (\<lambda>x. x\<lparr>window := ucast (th_win p)\<rparr>) s in
                     midstream_wscale (on_client (\<lambda>x. x\<lparr>next_win := last_ack (server s) + window (server s)\<rparr>) s)) else s)
      in reassemble E False p s)"

definition synrecv_ack :: "'g engine \<Rightarrow> TcpPacket \<Rightarrow> 'g work \<Rightarrow> int \<times> 'g work" where
  "synrecv_ack E p w =
     (let s = ssn w; done_with = (\<lambda>s. (0, StreamTcpPacketSetState TCP_ESTABLISHED (w\<lparr>ssn := s\<rparr>))) in
      if has (sess_flags s) STREAMTCP_FLAG_4WHS \<and> to_client E p then
        (if SEQ_EQ (th_seq p) (next_seq (server s)) then done_with (synrecv_ack_4whs E p s) else (- 1, w))
      else if to_client E p \<and> \<not> has (sess_flags s) STREAMTCP_FLAG_MIDSTREAM_SYNACK then (- 1, w)
      else if SEQ_EQ (th_seq p) (next_seq (client s)) then done_with (synrecv_ack_normal E p s)
      else if async_oneside E \<and> SEQ_EQ (th_seq p) (next_seq (server s)) then done_with (synrecv_ack_async E p s)
      else (- 1, w))"

definition StreamTcpPacketStateSynRecv :: "'g engine \<Rightarrow> TcpPacket \<Rightarrow> 'g work \<Rightarrow> int \<times> 'g work" where
  "StreamTcpPacketStateSynRecv E p w =
     (if th_flags p \<in> syn_flags \<union> synack_flags then (0, w)
      else if th_flags p \<in> ack_flags then ts_check E p w (synrecv_ack E p)
      else if th_flags p \<in> rst_flags then close_on_reset E p w
      else if th_flags p = TH_FIN then ts_check E p w (StreamTcpHandleFin E p)
      else (0, w))"

section \<open>Established\<close>

text \<open>
  Data of the established state, per direction. The return value -1 of these two functions is ignored by
  the caller.
\<close>

definition seq_before_ack_to_server :: "'g engine \<Rightarrow> TcpPacket \<Rightarrow> 'g TcpSession \<Rightarrow> 'g TcpSession option" where
  "seq_before_ack_to_server E p s =
     (if SEQ_GEQ (th_seq p) (last_ack (client s)) then Some s
      else if has (sess_flags s) STREAMTCP_FLAG_ASYNC then Some (on_client (\<lambda>x. x\<lparr>last_ack := th_seq p\<rparr>) s)
      else if (SEQ_EQ (next_seq (client s)) (th_seq p) \<or> SEQ_EQ (last_ack (client s)) (isn (client s) + 1)) \<and>
              async_oneside E \<and> has (sess_flags s) STREAMTCP_FLAG_MIDSTREAM then
        Some (on_client (\<lambda>x. x\<lparr>last_ack := th_seq p\<rparr>)
          (s\<lparr>sess_flags := set_flag STREAMTCP_FLAG_ASYNC (sess_flags s)\<rparr>))
      else None)"

definition seq_before_ack_to_client :: "TcpPacket \<Rightarrow> 'g TcpSession \<Rightarrow> 'g TcpSession option" where
  "seq_before_ack_to_client p s =
     (if SEQ_GEQ (th_seq p) (last_ack (server s)) then Some s
      else if has (sess_flags s) STREAMTCP_FLAG_ASYNC then Some (on_server (\<lambda>x. x\<lparr>last_ack := th_seq p\<rparr>) s)
      else None)"

text \<open>From the advance of the sender's \<open>next_seq\<close> to the reassembly.\<close>

definition raise_next_win :: "'g TcpStream \<Rightarrow> 'g TcpStream" where
  "raise_next_win x = (if SEQ_GT (last_ack x + window x) (next_win x) then set_next_win x else x)"

definition established_data :: "'g engine \<Rightarrow> bool \<Rightarrow> TcpPacket \<Rightarrow> 'g TcpSession \<Rightarrow> 'g TcpSession" where
  "established_data E d p s =
     (let s = advance d p s in
      if SEQ_LEQ (th_seq p + ucast (pay_len p)) (next_win (snd_stream d s)) \<or>
         has (sess_flags s) STREAMTCP_FLAG_MIDSTREAM \<or> has (sess_flags s) STREAMTCP_FLAG_ASYNC
      then reassemble E d p (on_rcv d raise_next_win (take_ack d p s))
      else s)"

definition HandleEstablishedPacketToServer :: "'g engine \<Rightarrow> TcpPacket \<Rightarrow> 'g TcpSession \<Rightarrow> int \<times> 'g TcpSession" where
  "HandleEstablishedPacketToServer E p s =
     (case seq_before_ack_to_server E p s of
        None \<Rightarrow> (- 1, s)
      | Some s \<Rightarrow> (0, established_data E True p s))"

definition HandleEstablishedPacketToClient :: "'g engine \<Rightarrow> TcpPacket \<Rightarrow> 'g TcpSession \<Rightarrow> int \<times> 'g TcpSession" where
  "HandleEstablishedPacketToClient E p s =
     (let s = (if has (sess_flags s) STREAMTCP_FLAG_MIDSTREAM \<and> has (sess_flags s) STREAMTCP_FLAG_MIDSTREAM_ESTABLISHED
               then on_server (\<lambda>x. set_next_win (x\<lparr>window := ucast (th_win p)\<rparr>))
                      (s\<lparr>sess_flags := clr_flag STREAMTCP_FLAG_MIDSTREAM_ESTABLISHED (sess_flags s)\<rparr>)
               else s)
      in case seq_before_ack_to_client p s of
           None \<Rightarrow> (- 1, s)
         | Some s \<Rightarrow> (0, established_data E False p s))"

definition established_reset :: "'g engine \<Rightarrow> bool \<Rightarrow> TcpPacket \<Rightarrow> 'g TcpSession \<Rightarrow> 'g TcpSession" where
  "established_reset E d p s =
     (let s = on_server (\<lambda>x. x\<lparr>next_seq := th_seq p + ucast (pay_len p) + 1\<rparr>) s;
          s = on_client (\<lambda>x. x\<lparr>next_seq := th_ack p\<rparr>) s;
          s = on_snd d (set_window p) s;
          s = on_rcv d (raise_last_ack p) s
      in reassemble E d p s)"

definition StreamTcpPacketStateEstablished :: "'g engine \<Rightarrow> TcpPacket \<Rightarrow> 'g work \<Rightarrow> int \<times> 'g work" where
  "StreamTcpPacketStateEstablished E p w =
     (if th_flags p \<in> syn_flags \<union> synack_flags then (0, w)
      else if th_flags p \<in> ack_flags then
        ts_check E p w (\<lambda>w.
          (0, upd (\<lambda>s. snd (if to_server E p then HandleEstablishedPacketToServer E p s
                            else HandleEstablishedPacketToClient E p s)) w))
      else if th_flags p \<in> fin_flags then ts_check E p w (StreamTcpHandleFin E p)
      else if th_flags p \<in> rst_flags then
        (case ValidReset E p (ssn w) of (ok, s) \<Rightarrow>
           if ok \<noteq> 0 then
             (0, StreamTcpSessionPktFree (upd (established_reset E (to_server E p) p)
                   (StreamTcpPacketSetState TCP_CLOSED (w\<lparr>ssn := s\<rparr>))))
           else (- 1, w\<lparr>ssn := s\<rparr>))
      else (0, w))"

section \<open>The closing states\<close>

text \<open>\<open>TCP_GET_SEQ(p) != next_seq\<close> of the sender's stream.\<close>

definition wrong_seq :: "bool \<Rightarrow> TcpPacket \<Rightarrow> 'g TcpSession \<Rightarrow> bool" where
  "wrong_seq d p s \<longleftrightarrow> th_seq p \<noteq> next_seq (snd_stream d s)"

definition ack_and_reassemble :: "'g engine \<Rightarrow> bool \<Rightarrow> TcpPacket \<Rightarrow> 'g TcpSession \<Rightarrow> 'g TcpSession" where
  "ack_and_reassemble E d p s = reassemble E d p (take_ack d p s)"

definition StreamTcpPacketStateFinWait1 :: "'g engine \<Rightarrow> TcpPacket \<Rightarrow> 'g work \<Rightarrow> int \<times> 'g work" where
  "StreamTcpPacketStateFinWait1 E p w =
     (let d = to_server E p in
      if th_flags p \<in> bare_ack_flags then
        ts_check E p w (\<lambda>w.
          if wrong_seq d p (ssn w) then (- 1, w)
          else (0, upd (\<lambda>s. advance d p (ack_and_reassemble E d p s)) (StreamTcpPacketSetState TCP_FIN_WAIT2 w)))
      else if th_flags p \<in> fin_flags then
        ts_check E p w (\<lambda>w.
          if outside_window d p (ssn w) then (- 1, w)
          else (0, upd (\<lambda>s. advance d p (ack_and_reassemble E d p s)) (StreamTcpPacketSetState TCP_TIME_WAIT w)))
      else if th_flags p \<in> rst_flags then close_on_reset E p w
      else (0, w))"

text \<open>
  The window test of a \<open>FIN\<close> to the server in this state has a misplaced parenthesis: the packet is
  compared with the value of a disjunction.
\<close>

definition finwait2_fin_test :: "TcpPacket \<Rightarrow> 'g TcpSession \<Rightarrow> bool" where
  "finwait2_fin_test p s =
     SEQ_LT (th_seq p)
       (if next_seq (client s) \<noteq> 0 \<or> SEQ_GT (th_seq p) (last_ack (client s) + window (client s)) then 1 else 0)"

definition StreamTcpPacketStateFinWait2 :: "'g engine \<Rightarrow> TcpPacket \<Rightarrow> 'g work \<Rightarrow> int \<times> 'g work" where
  "StreamTcpPacketStateFinWait2 E p w =
     (let d = to_server E p in
      if th_flags p \<in> bare_ack_flags then
        ts_check E p w (\<lambda>w.
          if wrong_seq d p (ssn w) then (- 1, w)
          else (0, upd (\<lambda>s. advance d p (ack_and_reassemble E d p s)) (StreamTcpPacketSetState TCP_TIME_WAIT w)))
      else if th_flags p \<in> rst_flags then close_on_reset E p w
      else if th_flags p = TH_FIN then
        ts_check E p w (\<lambda>w.
          if (if d then finwait2_fin_test p (ssn w) else outside_window d p (ssn w)) then (- 1, w)
          else (0, upd (ack_and_reassemble E d p) (StreamTcpPacketSetState TCP_TIME_WAIT w)))
      else (0, w))"

text \<open>A packet to the server sets the window of the client's stream here.\<close>

definition StreamTcpPacketStateClosing :: "'g engine \<Rightarrow> TcpPacket \<Rightarrow> 'g work \<Rightarrow> int \<times> 'g work" where
  "StreamTcpPacketStateClosing E p w =
     (let d = to_server E p in
      if th_flags p \<in> bare_ack_flags then
        ts_check E p w (\<lambda>w.
          if wrong_seq d p (ssn w) then (- 1, w)
          else (0, upd (\<lambda>s. if d then reassemble E True p (on_server (raise_last_ack p) (on_client (set_window p) s))
                            else ack_and_reassemble E False p s) (StreamTcpPacketSetState TCP_TIME_WAIT w)))
      else (0, w))"

text \<open>Here the direction is the test for a packet to the client.\<close>

definition StreamTcpPacketStateCloseWait :: "'g engine \<Rightarrow> TcpPacket \<Rightarrow> 'g work \<Rightarrow> int \<times> 'g work" where
  "StreamTcpPacketStateCloseWait E p w =
     (let d = \<not> to_client E p in
      if th_flags p \<in> fin_nopush_flags then
        ts_check E p w (\<lambda>w.
          if outside_window d p (ssn w) then (- 1, w)
          else (0, upd (ack_and_reassemble E d p) (StreamTcpPacketSetState TCP_LAST_ACK w)))
      else if th_flags p \<in> bare_ack_flags then
        ts_check E p w (\<lambda>w.
          if outside_window d p (ssn w) then (- 1, w)
          else (0, upd (ack_and_reassemble E d p) w))
      else (0, w))"

definition close_session :: "'g engine \<Rightarrow> bool \<Rightarrow> TcpPacket \<Rightarrow> 'g work \<Rightarrow> int \<times> 'g work" where
  "close_session E d p w =
     (if wrong_seq d p (ssn w) then (- 1, w)
      else (0, StreamTcpSessionPktFree (upd (ack_and_reassemble E d p) (StreamTcpPacketSetState TCP_CLOSED w))))"

definition StreamTcpPakcetStateLastAck :: "'g engine \<Rightarrow> TcpPacket \<Rightarrow> 'g work \<Rightarrow> int \<times> 'g work" where
  "StreamTcpPakcetStateLastAck E p w =
     (if th_flags p \<in> bare_ack_flags then
        ts_check E p w (\<lambda>w. if to_server E p then close_session E True p w else (0, w))
      else (0, w))"

definition StreamTcpPacketStateTimeWait :: "'g engine \<Rightarrow> TcpPacket \<Rightarrow> 'g work \<Rightarrow> int \<times> 'g work" where
  "StreamTcpPacketStateTimeWait E p w =
     (if th_flags p \<in> bare_ack_flags then ts_check E p w (close_session E (to_server E p) p)
      else (0, w))"

section \<open>The dispatcher\<close>

definition state_handler :: "'g engine \<Rightarrow> TcpPacket \<Rightarrow> 'g work \<Rightarrow> int \<times> 'g work" where
  "state_handler E p w =
     (case tcp_st (ssn w) of
        TCP_SYN_SENT \<Rightarrow> StreamTcpPacketStateSynSent E p w
      | TCP_SYN_RECV \<Rightarrow> StreamTcpPacketStateSynRecv E p w
      | TCP_ESTABLISHED \<Rightarrow> StreamTcpPacketStateEstablished E p w
      | TCP_FIN_WAIT1 \<Rightarrow> StreamTcpPacketStateFinWait1 E p w
      | TCP_FIN_WAIT2 \<Rightarrow> StreamTcpPacketStateFinWait2 E p w
      | TCP_CLOSING \<Rightarrow> StreamTcpPacketStateClosing E p w
      | TCP_CLOSE_WAIT \<Rightarrow> StreamTcpPacketStateCloseWait E p w
      | TCP_LAST_ACK \<Rightarrow> StreamTcpPakcetStateLastAck E p w
      | TCP_TIME_WAIT \<Rightarrow> StreamTcpPacketStateTimeWait E p w
      | _ \<Rightarrow> (0, w))"

text \<open>\<open>BUG_ON\<close> is \<open>None\<close>; otherwise the return value, the session of the flow, the packet and the log.\<close>

definition StreamTcpPacket :: "'g engine \<Rightarrow> 'g TcpSession option \<Rightarrow> TcpPacket \<Rightarrow> 'g TcpSession option
    \<Rightarrow> (int \<times> 'g TcpSession option \<times> TcpPacket \<times> effect list) option" where
  "StreamTcpPacket E fresh p protoctx =
     (let finish = (\<lambda>flow p l. case app_layer E flow of (r, flow) \<Rightarrow>
                      Some (if r < 0 then - 1 else 0, flow, p, l)) in
      case protoctx of
        Some s \<Rightarrow>
          if tcp_st s \<noteq> TCP_NONE then
            (let p = (if has (sess_flags s) STREAMTCP_FLAG_MIDSTREAM_SYNACK then StreamTcpPacketSwitchDir E p else p)
             in case state_handler E p \<lparr>ssn = s, log = []\<rparr> of (r, w) \<Rightarrow>
               if r \<noteq> 0 then Some (- 1, Some (ssn w), p, log w)
               else
                 let p = (if state_value (tcp_st (ssn w)) > state_value TCP_ESTABLISHED
                          then p\<lparr>pkt_flags := pkt_flags p OR PKT_STREAM_EOF\<rparr> else p)
                 in finish (Some (ssn w)) p (log w))
          else
            (case StreamTcpPacketStateNone E fresh p protoctx of
               None \<Rightarrow> None
             | Some (r, flow, l) \<Rightarrow> if r = - 1 then Some (- 1, flow, p, l) else finish flow p l)
      | None \<Rightarrow>
          (case StreamTcpPacketStateNone E fresh p protoctx of
             None \<Rightarrow> None
           | Some (r, flow, l) \<Rightarrow> if r = - 1 then Some (- 1, flow, p, l) else finish flow p l))"

datatype flow_state = FLOW_STATE_NEW | FLOW_STATE_ESTABLISHED | FLOW_STATE_CLOSED

definition StreamTcpGetFlowState :: "'g TcpSession option \<Rightarrow> flow_state" where
  "StreamTcpGetFlowState s =
     (case s of
        None \<Rightarrow> FLOW_STATE_CLOSED
      | Some s \<Rightarrow>
          (case tcp_st s of
             TCP_NONE \<Rightarrow> FLOW_STATE_NEW
           | TCP_SYN_SENT \<Rightarrow> FLOW_STATE_NEW
           | TCP_SYN_RECV \<Rightarrow> FLOW_STATE_NEW
           | TCP_LISTEN \<Rightarrow> FLOW_STATE_NEW
           | TCP_ESTABLISHED \<Rightarrow> FLOW_STATE_ESTABLISHED
           | _ \<Rightarrow> FLOW_STATE_CLOSED))"

text \<open>
  A sequence of packets of one flow, each with what the session pool would give: the session and the log at
  the end. \<open>None\<close> when a \<open>BUG_ON\<close> stops the program.
\<close>

fun run_packets :: "'g engine \<Rightarrow> ('g TcpSession option \<times> TcpPacket) list \<Rightarrow> 'g TcpSession option
    \<Rightarrow> ('g TcpSession option \<times> effect list) option" where
  "run_packets E [] flow = Some (flow, [])"
| "run_packets E ((fresh, p) # ps) flow =
     (case StreamTcpPacket E fresh p flow of
        None \<Rightarrow> None
      | Some (r, flow, p, l) \<Rightarrow> map_option (\<lambda>(flow, l'). (flow, l @ l')) (run_packets E ps flow))"

end
