(* ===== verification/StreamTcpTransitions.thy ===== *)
theory StreamTcpTransitions
  imports StreamTcp
begin

text \<open>
  The states a session goes through: every packet follows an edge of the state graph or stays, the flow is
  requeued exactly at the changes, and along a sequence of packets the state never goes back. The
  reassembly and the application layer are arguments that leave the state alone.
\<close>

section \<open>The state graph\<close>

inductive tcp_edge :: "tcp_state \<Rightarrow> tcp_state \<Rightarrow> bool" where
  "tcp_edge TCP_NONE TCP_SYN_SENT"
| "tcp_edge TCP_NONE TCP_SYN_RECV"
| "tcp_edge TCP_NONE TCP_ESTABLISHED"
| "tcp_edge TCP_SYN_SENT TCP_SYN_RECV"
| "tcp_edge TCP_SYN_SENT TCP_ESTABLISHED"
| "tcp_edge TCP_SYN_SENT TCP_CLOSED"
| "tcp_edge TCP_SYN_RECV TCP_ESTABLISHED"
| "tcp_edge TCP_SYN_RECV TCP_FIN_WAIT1"
| "tcp_edge TCP_SYN_RECV TCP_CLOSE_WAIT"
| "tcp_edge TCP_SYN_RECV TCP_CLOSED"
| "tcp_edge TCP_ESTABLISHED TCP_FIN_WAIT1"
| "tcp_edge TCP_ESTABLISHED TCP_CLOSE_WAIT"
| "tcp_edge TCP_ESTABLISHED TCP_CLOSED"
| "tcp_edge TCP_FIN_WAIT1 TCP_FIN_WAIT2"
| "tcp_edge TCP_FIN_WAIT1 TCP_TIME_WAIT"
| "tcp_edge TCP_FIN_WAIT1 TCP_CLOSED"
| "tcp_edge TCP_FIN_WAIT2 TCP_TIME_WAIT"
| "tcp_edge TCP_FIN_WAIT2 TCP_CLOSED"
| "tcp_edge TCP_CLOSE_WAIT TCP_LAST_ACK"
| "tcp_edge TCP_LAST_ACK TCP_CLOSED"
| "tcp_edge TCP_CLOSING TCP_TIME_WAIT"
| "tcp_edge TCP_TIME_WAIT TCP_CLOSED"

inductive_cases tcp_edge_to_closing: "tcp_edge st TCP_CLOSING"
inductive_cases tcp_edge_to_listen: "tcp_edge st TCP_LISTEN"
inductive_cases tcp_edge_to_none: "tcp_edge st TCP_NONE"
inductive_cases tcp_edge_from_closed: "tcp_edge TCP_CLOSED st"

definition no_segments :: "'g TcpSession \<Rightarrow> bool" where
  "no_segments s \<longleftrightarrow> seg_list (client s) = [] \<and> seg_list (server s) = []"

text \<open>What is required of the arguments.\<close>

definition keeps_state :: "'g engine \<Rightarrow> bool" where
  "keeps_state E \<longleftrightarrow> (\<forall>c p s. tcp_st (reassemble E c p s) = tcp_st s) \<and>
     (\<forall>f. map_option (\<lambda>s. (tcp_st s, no_segments s)) (snd (app_layer E f)) =
          map_option (\<lambda>s. (tcp_st s, no_segments s)) f)"

section \<open>What the checks of a packet leave alone\<close>

text \<open>
  A session without what the timestamp checks may change: the timestamps, the policy and the flags of the
  streams, and the timestamp flag of the session.
\<close>

definition core_stream :: "'g TcpStream \<Rightarrow> 'g TcpStream" where
  "core_stream x = x\<lparr>last_ts := 0, last_pkt_ts := 0, os_policy := 0, sflags := 0\<rparr>"

definition core :: "'g TcpSession \<Rightarrow> 'g TcpSession" where
  "core s = s\<lparr>sess_flags := clr_flag STREAMTCP_FLAG_TIMESTAMP (sess_flags s), server := core_stream (server s),
     client := core_stream (client s)\<rparr>"

named_theorems core_simps

lemma core_on [core_simps]:
  assumes "\<And>x. core_stream (f x) = core_stream x"
  shows "core (on_client f s) = core s" "core (on_server f s) = core s"
    "core (on_snd d f s) = core s" "core (on_rcv d f s) = core s"
  using assms by (simp_all add: core_def on_client_def on_server_def on_snd_def on_rcv_def)

lemma core_stream_upd [core_simps]:
  "core_stream (x\<lparr>last_ts := a\<rparr>) = core_stream x" "core_stream (x\<lparr>last_pkt_ts := a\<rparr>) = core_stream x"
  "core_stream (x\<lparr>os_policy := b\<rparr>) = core_stream x" "core_stream (x\<lparr>sflags := c\<rparr>) = core_stream x"
  by (simp_all add: core_stream_def)

lemma core_timestamp_flag [core_simps]:
  "core (s\<lparr>sess_flags := clr_flag STREAMTCP_FLAG_TIMESTAMP (sess_flags s)\<rparr>) = core s"
  by (simp add: core_def clr_flag_def and.assoc)

lemma core_StreamTcpSetOSPolicy [core_simps]: "core_stream (StreamTcpSetOSPolicy E p x) = core_stream x"
  by (simp add: StreamTcpSetOSPolicy_def core_simps Let_def)

lemma core_zero_timestamp_case [core_simps]: "core (fst (zero_timestamp_case d p ts s)) = core s"
  by (simp add: zero_timestamp_case_def Let_def core_simps)

lemma core_check_timestamp [core_simps]: "core (snd (check_timestamp d p ts s)) = core s"
  by (simp add: check_timestamp_def Let_def core_simps)

lemma core_timestamp_value [core_simps]: "core (snd (timestamp_value d p ts s)) = core s"
  by (simp add: timestamp_value_def Let_def core_simps)

lemma core_ValidTimestamp [core_simps]: "core (snd (ValidTimestamp E p s)) = core s"
  by (simp add: ValidTimestamp_def Let_def core_simps split: option.split prod.split)

lemma core_ValidReset [core_simps]: "core (snd (ValidReset E p s)) = core s"
  by (simp add: ValidReset_def Let_def core_simps)

text \<open>What the core determines.\<close>

lemma core_stream_eqD:
  assumes "core_stream x = core_stream y"
  shows "isn x = isn y" "next_seq x = next_seq y" "last_ack x = last_ack y" "next_win x = next_win y"
    "window x = window y" "seg_list x = seg_list y" "wscale x = wscale y"
  using assms by (cases x; cases y; simp add: core_stream_def)+

lemma core_eqD:
  assumes "core s = core s'"
  shows "tcp_st s = tcp_st s'" "core_stream (client s) = core_stream (client s')"
    "core_stream (server s) = core_stream (server s')"
    "clr_flag STREAMTCP_FLAG_TIMESTAMP (sess_flags s) = clr_flag STREAMTCP_FLAG_TIMESTAMP (sess_flags s')"
  using assms by (cases s; cases s'; simp add: core_def)+

section \<open>The handlers follow the graph\<close>

text \<open>
  A handler that follows the graph stays or takes an edge, requeues the flow at a change only, and has
  returned all segments when it closes the session (\<open>moves\<close>, and \<open>steps\<close> without the last part).
\<close>

definition requeues :: "effect list \<Rightarrow> tcp_state list" where
  "requeues l = List.map_filter (\<lambda>e. case e of Requeued st \<Rightarrow> Some st | _ \<Rightarrow> None) l"

definition steps :: "'g work \<Rightarrow> 'g work \<Rightarrow> tcp_state set \<Rightarrow> bool" where
  "steps w w' S \<longleftrightarrow> (tcp_st (ssn w') = tcp_st (ssn w) \<and> requeues (log w') = requeues (log w) \<or>
     tcp_st (ssn w') \<noteq> tcp_st (ssn w) \<and> tcp_st (ssn w') \<in> S \<and>
       requeues (log w') = requeues (log w) @ [tcp_st (ssn w')])"

definition moves :: "'g work \<Rightarrow> 'g work \<Rightarrow> tcp_state set \<Rightarrow> bool" where
  "moves w w' S \<longleftrightarrow> steps w w' S \<and>
     (tcp_st (ssn w) \<noteq> TCP_CLOSED \<and> tcp_st (ssn w') = TCP_CLOSED \<longrightarrow> no_segments (ssn w'))"

lemma requeues_simps [simp]:
  "requeues [] = []" "requeues (l @ l') = requeues l @ requeues l'" "requeues [Requeued st] = [st]"
  "requeues [Segments_returned] = []" "requeues [Session_counted] = []" "requeues [Memcap_drop] = []"
  by (simp_all add: requeues_def map_filter_def)

named_theorems st_simps

lemma tcp_st_on [st_simps]:
  "tcp_st (on_client f s) = tcp_st s" "tcp_st (on_server f s) = tcp_st s"
  "tcp_st (on_snd d f s) = tcp_st s" "tcp_st (on_rcv d f s) = tcp_st s"
  by (simp_all add: on_client_def on_server_def on_snd_def on_rcv_def)

lemma tcp_st_checks [st_simps]:
  "tcp_st (snd (ValidTimestamp E p s)) = tcp_st s" "tcp_st (snd (ValidReset E p s)) = tcp_st s"
  using core_eqD(1)[OF core_ValidTimestamp] core_eqD(1)[OF core_ValidReset] by blast+

lemma tcp_st_helpers [st_simps]:
  "tcp_st (take_ack d p s) = tcp_st s" "tcp_st (advance d p s) = tcp_st s"
  "tcp_st (syn_window p s) = tcp_st s" "tcp_st (midstream_timestamps d p s) = tcp_st s"
  "tcp_st (synack_timestamps d p s) = tcp_st s" "tcp_st (synsent_syn E p s) = tcp_st s"
  "tcp_st (midstream_wscale s) = tcp_st s"
  by (simp_all add: take_ack_def advance_def syn_window_def midstream_timestamps_def synack_timestamps_def
      synsent_syn_def midstream_wscale_def Let_def st_simps split: option.split prod.split)

lemma moves_refl [intro, simp]: "moves w w S"
  by (simp add: moves_def steps_def)

lemma moves_same: "tcp_st s = tcp_st (ssn w) \<Longrightarrow> moves w (w\<lparr>ssn := s\<rparr>) S"
  by (simp add: moves_def steps_def)

lemma moves_start:
  "moves (w\<lparr>ssn := s\<rparr>) w' S \<Longrightarrow> tcp_st s = tcp_st (ssn w) \<Longrightarrow> moves w w' S"
  "steps (w\<lparr>ssn := s\<rparr>) w' S \<Longrightarrow> tcp_st s = tcp_st (ssn w) \<Longrightarrow> steps w w' S"
  by (simp_all add: moves_def steps_def)

lemma steps_set_state:
  assumes "\<And>s. tcp_st (f s) = tcp_st s" "st \<in> S"
  shows "steps w (upd f (StreamTcpPacketSetState st w)) S" "steps w (StreamTcpPacketSetState st (upd f w)) S"
    "steps w (StreamTcpPacketSetState st w) S"
  using assms by (auto simp: steps_def upd_def StreamTcpPacketSetState_def)

lemma moves_set_state:
  assumes "\<And>s. tcp_st (f s) = tcp_st s" "st \<in> S" "st \<noteq> TCP_CLOSED"
  shows "moves w (upd f (StreamTcpPacketSetState st w)) S" "moves w (StreamTcpPacketSetState st (upd f w)) S"
    "moves w (StreamTcpPacketSetState st w) S"
  using assms steps_set_state[of f st S w] by (auto simp: moves_def upd_def StreamTcpPacketSetState_def)

lemma moves_upd: "(\<And>s. tcp_st (f s) = tcp_st s) \<Longrightarrow> moves w (upd f w) S"
  by (simp add: moves_def steps_def upd_def)

lemma moves_free: "steps w w' S \<Longrightarrow> moves w (StreamTcpSessionPktFree w') S"
  by (simp add: moves_def steps_def StreamTcpSessionPktFree_def st_simps no_segments_def on_client_def on_server_def
      StreamTcpReturnStreamSegments_def)

lemma moves_ts_check:
  assumes "\<And>w'. tcp_st (ssn w') = tcp_st (ssn w) \<Longrightarrow> log w' = log w \<Longrightarrow> moves w' (snd (k w')) S"
  shows "moves w (snd (ts_check E p w k)) S"
proof -
  have "moves w (snd (k (w\<lparr>ssn := snd (ValidTimestamp E p (ssn w))\<rparr>))) S"
    by (rule moves_start(1)[OF assms]) (simp_all add: st_simps)
  moreover have "moves w (w\<lparr>ssn := snd (ValidTimestamp E p (ssn w))\<rparr>) S"
    by (rule moves_same) (simp add: st_simps)
  ultimately show ?thesis using assms[of w] by (simp add: ts_check_def case_prod_unfold)
qed

lemma moves_close_on_reset: "TCP_CLOSED \<in> S \<Longrightarrow> moves w (snd (close_on_reset E p w)) S"
proof -
  assume S: "TCP_CLOSED \<in> S"
  let ?w = "w\<lparr>ssn := snd (ValidReset E p (ssn w))\<rparr>"
  have "moves w ?w S" by (rule moves_same) (simp add: st_simps)
  moreover have "moves w (StreamTcpSessionPktFree (StreamTcpPacketSetState TCP_CLOSED ?w)) S"
    using S by (intro moves_free moves_start(2)[OF steps_set_state(3)]) (simp_all add: st_simps)
  ultimately show ?thesis by (simp add: close_on_reset_def case_prod_unfold)
qed

text \<open>The handlers, each with the states it may enter.\<close>

lemma tcp_st_reassemble [st_simps]: "keeps_state E \<Longrightarrow> tcp_st (reassemble E c p s) = tcp_st s"
  by (simp add: keeps_state_def)

lemma tcp_st_handlers [st_simps]:
  assumes "keeps_state E"
  shows
  "tcp_st (ack_and_reassemble E d p s) = tcp_st s"
  "tcp_st (synrecv_ack_4whs E p s) = tcp_st s" "tcp_st (synrecv_ack_normal E p s) = tcp_st s"
  "tcp_st (synrecv_ack_async E p s) = tcp_st s" "tcp_st (established_data E d p s) = tcp_st s"
  "tcp_st (established_reset E d p s) = tcp_st s"
  using assms by (simp_all add: ack_and_reassemble_def synrecv_ack_4whs_def synrecv_ack_normal_def synrecv_ack_async_def
      established_data_def established_reset_def Let_def st_simps)

lemma tcp_st_established [st_simps]:
  assumes "keeps_state E"
  shows
  "tcp_st (snd (HandleEstablishedPacketToServer E p s)) = tcp_st s"
  "tcp_st (snd (HandleEstablishedPacketToClient E p s)) = tcp_st s"
  using assms by (auto simp: HandleEstablishedPacketToServer_def HandleEstablishedPacketToClient_def Let_def st_simps
      seq_before_ack_to_server_def seq_before_ack_to_client_def split: option.split)

lemma moves_HandleFin:
  "keeps_state E \<Longrightarrow> {TCP_CLOSE_WAIT, TCP_FIN_WAIT1} \<subseteq> S \<Longrightarrow> moves w (snd (StreamTcpHandleFin E p w)) S"
  by (auto simp: StreamTcpHandleFin_def Let_def intro!: moves_set_state(1) simp: st_simps)

lemma moves_SynSent:
  "moves w (snd (StreamTcpPacketStateSynSent E p w)) {TCP_SYN_RECV, TCP_ESTABLISHED, TCP_CLOSED}"
proof -
  let ?S = "{TCP_SYN_RECV, TCP_ESTABLISHED, TCP_CLOSED}"
  have "moves w (upd (synsent_syn E p) w) ?S" by (rule moves_upd) (simp_all add: st_simps)
  moreover have "moves w (synsent_synack_4whs p w) ?S" "moves w (synsent_synack p w) ?S"
    unfolding synsent_synack_4whs_def synsent_synack_def by (rule moves_set_state(1); simp add: Let_def st_simps)+
  moreover have "moves w (synsent_async p w) ?S"
    unfolding synsent_async_def upd_def[of "\<lambda>s. s\<lparr>sess_flags := a s\<rparr>" for a]
    by (rule moves_start(1)[OF moves_set_state(1)]) (simp_all add: Let_def st_simps)
  moreover have reset: "moves w (w\<lparr>ssn := snd (ValidReset E p (ssn w))\<rparr>) ?S"
    by (rule moves_same) (simp add: st_simps)
  moreover have "moves w (StreamTcpSessionPktFree (StreamTcpPacketSetState TCP_CLOSED (w\<lparr>ssn := snd (ValidReset E p (ssn w))\<rparr>))) ?S"
    by (intro moves_free moves_start(2)[OF steps_set_state(3)]) (simp_all add: st_simps)
  ultimately show ?thesis
    by (simp add: StreamTcpPacketStateSynSent_def case_prod_unfold Let_def)
qed

lemma moves_SynRecv:
  fixes E :: "'g engine"
  assumes keep: "keeps_state E"
  shows "moves w (snd (StreamTcpPacketStateSynRecv E p w)) {TCP_ESTABLISHED, TCP_FIN_WAIT1, TCP_CLOSE_WAIT, TCP_CLOSED}"
proof -
  let ?S = "{TCP_ESTABLISHED, TCP_FIN_WAIT1, TCP_CLOSE_WAIT, TCP_CLOSED}"
  have est: "moves w (StreamTcpPacketSetState TCP_ESTABLISHED (w\<lparr>ssn := s\<rparr>)) ?S" if "tcp_st s = tcp_st (ssn w)" for w :: "'g work" and s
    using that by (intro moves_start(1)[OF moves_set_state(3)]) simp_all
  then have "moves w (snd (synrecv_ack E p w)) ?S" for w
    by (simp add: synrecv_ack_def Let_def st_simps keep)
  then have "moves w (snd (ts_check E p w (synrecv_ack E p))) ?S" by (rule moves_ts_check)
  moreover have "moves w (snd (ts_check E p w (StreamTcpHandleFin E p))) ?S"
    by (rule moves_ts_check, rule moves_HandleFin[OF keep]) simp
  ultimately show ?thesis
    by (simp add: StreamTcpPacketStateSynRecv_def moves_close_on_reset)
qed

lemma moves_Established:
  assumes keep: "keeps_state E"
  shows "moves w (snd (StreamTcpPacketStateEstablished E p w)) {TCP_FIN_WAIT1, TCP_CLOSE_WAIT, TCP_CLOSED}"
proof -
  let ?S = "{TCP_FIN_WAIT1, TCP_CLOSE_WAIT, TCP_CLOSED}"
  let ?w = "w\<lparr>ssn := snd (ValidReset E p (ssn w))\<rparr>"
  have "moves w (snd (ts_check E p w (\<lambda>w. (0, upd (\<lambda>s. snd (if to_server E p then HandleEstablishedPacketToServer E p s
      else HandleEstablishedPacketToClient E p s)) w)))) ?S"
    by (rule moves_ts_check) (simp add: moves_upd st_simps keep)
  moreover have "moves w (snd (ts_check E p w (StreamTcpHandleFin E p))) ?S"
    by (rule moves_ts_check, rule moves_HandleFin[OF keep]) simp
  moreover have "moves w (StreamTcpSessionPktFree (upd (established_reset E (to_server E p) p)
      (StreamTcpPacketSetState TCP_CLOSED ?w))) ?S"
    by (intro moves_free moves_start(2)[OF steps_set_state(1)]) (simp_all add: st_simps keep)
  moreover have "moves w ?w ?S" by (rule moves_same) (simp add: st_simps)
  ultimately show ?thesis
    by (simp add: StreamTcpPacketStateEstablished_def case_prod_unfold)
qed

lemma moves_close_session:
  "keeps_state E \<Longrightarrow> moves w (snd (close_session E d p w)) {TCP_CLOSED}"
  by (simp add: close_session_def) (intro impI moves_free steps_set_state(1); simp add: st_simps)

lemma moves_closing:
  assumes keep: "keeps_state E"
  shows "moves w (snd (StreamTcpPacketStateFinWait1 E p w)) {TCP_FIN_WAIT2, TCP_TIME_WAIT, TCP_CLOSED}"
  "moves w (snd (StreamTcpPacketStateFinWait2 E p w)) {TCP_TIME_WAIT, TCP_CLOSED}"
  "moves w (snd (StreamTcpPacketStateClosing E p w)) {TCP_TIME_WAIT}"
  "moves w (snd (StreamTcpPacketStateCloseWait E p w)) {TCP_LAST_ACK}"
  "moves w (snd (StreamTcpPakcetStateLastAck E p w)) {TCP_CLOSED}"
  "moves w (snd (StreamTcpPacketStateTimeWait E p w)) {TCP_CLOSED}"
  unfolding StreamTcpPacketStateFinWait1_def StreamTcpPacketStateFinWait2_def StreamTcpPacketStateClosing_def
    StreamTcpPacketStateCloseWait_def StreamTcpPakcetStateLastAck_def StreamTcpPacketStateTimeWait_def Let_def
  by (simp_all add: moves_close_on_reset moves_close_session moves_ts_check moves_set_state(1) moves_upd st_simps keep)

section \<open>Every packet follows the graph\<close>

lemma moves_mono: "moves w w' S \<Longrightarrow> S \<subseteq> T \<Longrightarrow> moves w w' T"
  unfolding moves_def steps_def by blast

lemma moves_state_handler:
  assumes keep: "keeps_state E"
  shows "moves w (snd (state_handler E p w)) {st. tcp_edge (tcp_st (ssn w)) st}"
proof -
  have 1: "moves w (snd (StreamTcpPacketStateSynSent E p w)) {st. tcp_edge TCP_SYN_SENT st}"
    by (rule moves_mono[OF moves_SynSent]) (auto intro: tcp_edge.intros)
  have 2: "moves w (snd (StreamTcpPacketStateSynRecv E p w)) {st. tcp_edge TCP_SYN_RECV st}"
    by (rule moves_mono[OF moves_SynRecv[OF keep]]) (auto intro: tcp_edge.intros)
  have 3: "moves w (snd (StreamTcpPacketStateEstablished E p w)) {st. tcp_edge TCP_ESTABLISHED st}"
    by (rule moves_mono[OF moves_Established[OF keep]]) (auto intro: tcp_edge.intros)
  have 4: "moves w (snd (StreamTcpPacketStateFinWait1 E p w)) {st. tcp_edge TCP_FIN_WAIT1 st}"
    by (rule moves_mono[OF moves_closing(1)[OF keep]]) (auto intro: tcp_edge.intros)
  have 5: "moves w (snd (StreamTcpPacketStateFinWait2 E p w)) {st. tcp_edge TCP_FIN_WAIT2 st}"
    by (rule moves_mono[OF moves_closing(2)[OF keep]]) (auto intro: tcp_edge.intros)
  have 6: "moves w (snd (StreamTcpPacketStateClosing E p w)) {st. tcp_edge TCP_CLOSING st}"
    by (rule moves_mono[OF moves_closing(3)[OF keep]]) (auto intro: tcp_edge.intros)
  have 7: "moves w (snd (StreamTcpPacketStateCloseWait E p w)) {st. tcp_edge TCP_CLOSE_WAIT st}"
    by (rule moves_mono[OF moves_closing(4)[OF keep]]) (auto intro: tcp_edge.intros)
  have 8: "moves w (snd (StreamTcpPakcetStateLastAck E p w)) {st. tcp_edge TCP_LAST_ACK st}"
    by (rule moves_mono[OF moves_closing(5)[OF keep]]) (auto intro: tcp_edge.intros)
  have 9: "moves w (snd (StreamTcpPacketStateTimeWait E p w)) {st. tcp_edge TCP_TIME_WAIT st}"
    by (rule moves_mono[OF moves_closing(6)[OF keep]]) (auto intro: tcp_edge.intros)
  show ?thesis by (cases "tcp_st (ssn w)") (simp_all add: state_handler_def 1 2 3 4 5 6 7 8 9)
qed

definition flow_st :: "'g TcpSession option \<Rightarrow> tcp_state" where
  "flow_st flow = (case flow of None \<Rightarrow> TCP_NONE | Some s \<Rightarrow> tcp_st s)"

lemma flow_st_simps [simp]: "flow_st None = TCP_NONE" "flow_st (Some s) = tcp_st s"
  by (simp_all add: flow_st_def)

text \<open>What a packet does to the flow: nothing, or one edge, at which the flow is requeued once.\<close>

definition follows_graph :: "'g TcpSession option \<Rightarrow> 'g TcpSession option \<Rightarrow> effect list \<Rightarrow> bool" where
  "follows_graph flow flow' l \<longleftrightarrow> flow_st flow' = flow_st flow \<and> requeues l = [] \<or>
     tcp_edge (flow_st flow) (flow_st flow') \<and> requeues l = [flow_st flow']"

lemma with_session_follows:
  assumes "with_session fresh flow act = (r, flow', l)" "flow_st flow = TCP_NONE"
    "\<And>w. moves w (act w) S" "\<And>st. st \<in> S \<Longrightarrow> tcp_edge TCP_NONE st"
  shows "follows_graph flow flow' l"
proof (cases "StreamTcpNewSession fresh flow")
  case None
  then have "flow = None" by (simp add: StreamTcpNewSession_def split: option.splits)
  then show ?thesis using assms(1) None by (auto simp: with_session_def follows_graph_def)
next
  case (Some s)
  then have "tcp_st s = TCP_NONE" using assms(2) by (auto simp: StreamTcpNewSession_def split: option.splits)
  moreover define w where "w = \<lparr>ssn = s, log = (if flow = None then [Session_counted] else [])\<rparr>"
  moreover have "requeues (log w) = []" "ssn w = s" by (simp_all add: w_def)
  moreover have "flow' = Some (ssn (act w))" "l = log (act w)"
    using assms(1) Some by (auto simp: with_session_def Let_def w_def)
  ultimately show ?thesis
    using assms(2,4) assms(3)[of w] by (auto simp: follows_graph_def moves_def steps_def)
qed

lemma none_follows:
  assumes keep: "keeps_state E" and none: "StreamTcpPacketStateNone E fresh p flow = Some (r, flow', l)" "flow_st flow = TCP_NONE"
  shows "follows_graph flow flow' l"
proof -
  have syn: "moves w (none_syn p w) {TCP_SYN_SENT}" for w :: "'a work"
    unfolding none_syn_def by (rule moves_set_state(1)) (simp_all add: st_simps)
  have synack: "moves w (none_synack p w) {TCP_SYN_RECV}" for w :: "'a work"
    unfolding none_synack_def by (rule moves_set_state(1)) (simp_all add: st_simps Let_def)
  have ack: "moves w (none_ack E p w) {TCP_ESTABLISHED}" for w
    unfolding none_ack_def by (rule moves_set_state(1)) (simp_all add: st_simps Let_def keep)
  have stay: "follows_graph flow flow []" by (simp add: follows_graph_def)
  show ?thesis
    using none(1) stay tcp_edge.intros(1-3) with_session_follows[OF _ none(2) syn] with_session_follows[OF _ none(2) synack]
      with_session_follows[OF _ none(2) ack]
    by (auto simp: StreamTcpPacketStateNone_def split: if_splits)
qed

lemma app_layer_st:
  assumes "keeps_state E"
  shows "flow_st (snd (app_layer E flow)) = flow_st flow"
proof -
  have "map_option (\<lambda>s. (tcp_st s, no_segments s)) (snd (app_layer E flow)) = map_option (\<lambda>s. (tcp_st s, no_segments s)) flow"
    using assms by (simp add: keeps_state_def)
  then show ?thesis by (cases "snd (app_layer E flow)"; cases flow) auto
qed

lemma follows_app_layer: "keeps_state E \<Longrightarrow> follows_graph flow (snd (app_layer E flow')) l \<longleftrightarrow> follows_graph flow flow' l"
  by (simp add: follows_graph_def app_layer_st)

lemma packet_follows:
  assumes "keeps_state E" "StreamTcpPacket E fresh p flow = Some (r, flow', p', l)"
  shows "follows_graph flow flow' l"
proof (cases "flow_st flow = TCP_NONE")
  case True
  then obtain r0 f where "StreamTcpPacketStateNone E fresh p flow = Some (r0, f, l)"
    "flow' = f \<or> flow' = snd (app_layer E f)"
    using assms(2) by (auto simp: StreamTcpPacket_def Let_def case_prod_unfold split: option.splits if_splits)
  then have "follows_graph flow flow' l"
    using none_follows[OF assms(1) _ True] follows_app_layer[OF assms(1)] by blast
  then show ?thesis .
next
  case False
  then obtain s where s: "flow = Some s" "tcp_st s \<noteq> TCP_NONE" by (cases flow) auto
  let ?p = "if has (sess_flags s) STREAMTCP_FLAG_MIDSTREAM_SYNACK then StreamTcpPacketSwitchDir E p else p"
  define w where "w = snd (state_handler E ?p \<lparr>ssn = s, log = []\<rparr>)"
  have "moves \<lparr>ssn = s, log = []\<rparr> w {st. tcp_edge (tcp_st s) st}"
    unfolding w_def using moves_state_handler[OF assms(1), where w="\<lparr>ssn = s, log = []\<rparr>"] by simp
  then have "follows_graph flow (Some (ssn w)) (log w)"
    by (auto simp: s follows_graph_def moves_def steps_def)
  moreover have "(flow' = Some (ssn w) \<or> flow' = snd (app_layer E (Some (ssn w)))) \<and> l = log w"
    using assms(2) s by (auto simp: StreamTcpPacket_def w_def Let_def case_prod_unfold split: if_splits)
  ultimately show ?thesis using follows_app_layer[OF assms(1)] by auto
qed

section \<open>Sequences of packets\<close>

text \<open>How far a session has come; a state of a higher value is never left for one of a lower.\<close>

fun progress :: "tcp_state \<Rightarrow> nat" where
  "progress TCP_NONE = 0"
| "progress TCP_LISTEN = 0"
| "progress TCP_SYN_SENT = 1"
| "progress TCP_SYN_RECV = 2"
| "progress TCP_ESTABLISHED = 3"
| "progress TCP_FIN_WAIT1 = 4"
| "progress TCP_CLOSE_WAIT = 4"
| "progress TCP_FIN_WAIT2 = 5"
| "progress TCP_LAST_ACK = 5"
| "progress TCP_CLOSING = 5"
| "progress TCP_TIME_WAIT = 6"
| "progress TCP_CLOSED = 7"

lemma edge_progress: "tcp_edge st st' \<Longrightarrow> progress st < progress st'"
  by (erule tcp_edge.cases) simp_all

text \<open>The sessions that occur: none, or one in a state that the graph reaches from the start.\<close>

definition sound_flow :: "'g TcpSession option \<Rightarrow> bool" where
  "sound_flow flow \<longleftrightarrow> (case flow of
     None \<Rightarrow> True
   | Some s \<Rightarrow> tcp_st s \<notin> {TCP_NONE, TCP_LISTEN, TCP_CLOSING} \<and> (tcp_st s = TCP_CLOSED \<longrightarrow> no_segments s))"

lemma app_layer_sound:
  assumes "keeps_state E"
  shows "sound_flow (snd (app_layer E flow)) \<longleftrightarrow> sound_flow flow"
proof -
  have "map_option (\<lambda>s. (tcp_st s, no_segments s)) (snd (app_layer E flow)) = map_option (\<lambda>s. (tcp_st s, no_segments s)) flow"
    using assms by (simp add: keeps_state_def)
  then show ?thesis by (cases "snd (app_layer E flow)"; cases flow) (auto simp: sound_flow_def)
qed

lemma edge_target: "tcp_edge st st' \<Longrightarrow> st' \<notin> {TCP_NONE, TCP_LISTEN, TCP_CLOSING}"
  by (auto elim: tcp_edge.cases)

lemma tcp_st_set_state [simp]: "tcp_st (ssn (StreamTcpPacketSetState st w)) = st"
  by (simp add: StreamTcpPacketSetState_def)

lemma none_states:
  assumes "keeps_state E"
  shows "tcp_st (ssn (none_syn p w)) = TCP_SYN_SENT" "tcp_st (ssn (none_synack p w)) = TCP_SYN_RECV"
    "tcp_st (ssn (none_ack E p w)) = TCP_ESTABLISHED"
  using assms by (simp_all add: none_syn_def none_synack_def none_ack_def upd_def Let_def st_simps)

lemma packet_sound:
  assumes keep: "keeps_state E" and sound: "sound_flow flow"
  shows "\<exists>r flow' p' l. StreamTcpPacket E fresh p flow = Some (r, flow', p', l) \<and> sound_flow flow'"
proof (cases flow)
  case None
  then obtain r f l where none: "StreamTcpPacketStateNone E fresh p flow = Some (r, f, l)"
    by (cases "StreamTcpPacketStateNone E fresh p flow") (auto simp: StreamTcpPacketStateNone_def split: if_splits)
  then have "sound_flow f"
    using None none_states[OF keep]
    by (auto simp: StreamTcpPacketStateNone_def with_session_def sound_flow_def Let_def split: if_splits option.splits)
  then show ?thesis
    using none None app_layer_sound[OF keep] by (auto simp: StreamTcpPacket_def Let_def case_prod_unfold)
next
  case (Some s)
  let ?p = "if has (sess_flags s) STREAMTCP_FLAG_MIDSTREAM_SYNACK then StreamTcpPacketSwitchDir E p else p"
  define w where "w = snd (state_handler E ?p \<lparr>ssn = s, log = []\<rparr>)"
  have "moves \<lparr>ssn = s, log = []\<rparr> w {st. tcp_edge (tcp_st s) st}"
    unfolding w_def using moves_state_handler[OF keep, where w="\<lparr>ssn = s, log = []\<rparr>"] by simp
  moreover have "w = \<lparr>ssn = s, log = []\<rparr>" if "tcp_st s = TCP_CLOSED"
    using that by (simp add: w_def state_handler_def)
  ultimately have "sound_flow (Some (ssn w))"
    using sound Some edge_target by (cases "tcp_st s = TCP_CLOSED") (auto simp: sound_flow_def moves_def steps_def)
  moreover have "tcp_st s \<noteq> TCP_NONE" using sound Some by (auto simp: sound_flow_def)
  ultimately show ?thesis
    using Some app_layer_sound[OF keep] by (auto simp: StreamTcpPacket_def w_def Let_def case_prod_unfold)
qed

text \<open>The states that a log records, from a starting state on: each is further than the one before.\<close>

definition advancing :: "tcp_state \<Rightarrow> effect list \<Rightarrow> tcp_state \<Rightarrow> bool" where
  "advancing st l st' \<longleftrightarrow> sorted_wrt (\<lambda>a b. progress a < progress b) (st # requeues l) \<and> last (st # requeues l) = st'"

lemma advancing_append:
  assumes "follows_graph flow flow' l" "advancing (flow_st flow') l' st"
  shows "advancing (flow_st flow) (l @ l') st"
  using assms edge_progress[of "flow_st flow" "flow_st flow'"]
  by (fastforce simp: follows_graph_def advancing_def)

lemma run_sound:
  assumes "keeps_state E" "sound_flow flow"
  shows "\<exists>flow' l. run_packets E ps flow = Some (flow', l) \<and> sound_flow flow' \<and> advancing (flow_st flow) l (flow_st flow')"
  using assms(2)
proof (induction ps arbitrary: flow)
  case Nil
  then show ?case by (simp add: advancing_def)
next
  case (Cons a ps)
  obtain fresh p where a: "a = (fresh, p)" by (cases a)
  obtain r flow1 p1 l1 where step: "StreamTcpPacket E fresh p flow = Some (r, flow1, p1, l1)" "sound_flow flow1"
    using packet_sound[OF assms(1) Cons.prems] by blast
  obtain flow' l where run: "run_packets E ps flow1 = Some (flow', l)" "sound_flow flow'" "advancing (flow_st flow1) l (flow_st flow')"
    using Cons.IH[OF step(2)] by blast
  have "follows_graph flow flow1 l1" by (rule packet_follows[OF assms(1) step(1)])
  then show ?case using step run advancing_append by (auto simp: a)
qed

lemma advancing_length:
  assumes "advancing st l st'"
  shows "length (requeues l) \<le> 7"
proof -
  let ?xs = "map progress (st # requeues l)"
  have "sorted_wrt (<) ?xs" using assms by (simp add: advancing_def sorted_wrt_map)
  then have "distinct ?xs" by (simp only: strict_sorted_iff)
  moreover have "progress st \<le> 7" for st by (cases st) simp_all
  then have "set ?xs \<subseteq> {..7}" by auto
  ultimately have "length ?xs \<le> card {..7 :: nat}"
    using card_mono[of "{..7 :: nat}" "set ?xs"] distinct_card[of ?xs] by simp
  then show ?thesis by simp
qed

section \<open>The properties\<close>

text \<open>
  An engine to run the model with: the direction by the flags of the flow, a reassembly that drops the
  segments, no application layer, and no information on the hosts.
\<close>

definition plain_engine :: "bool \<Rightarrow> bool \<Rightarrow> nat engine" where
  "plain_engine mid async =
     \<lparr>to_server = (\<lambda>p. flowflags p AND FLOW_PKT_TOSERVER \<noteq> 0), to_client = (\<lambda>p. flowflags p AND FLOW_PKT_TOCLIENT \<noteq> 0),
      midstream = mid, async_oneside = async, host_os = (\<lambda>p. Some 0), reassemble = (\<lambda>c p s. s), app_layer = (\<lambda>f. (0, f))\<rparr>"

lemma plain_engine_keeps: "keeps_state (plain_engine mid async)"
  by (simp add: keeps_state_def plain_engine_def)

definition tcp_packet :: "bool \<Rightarrow> u8 \<Rightarrow> u32 \<Rightarrow> u32 \<Rightarrow> TcpPacket" where
  "tcp_packet d f s a = \<lparr>th_flags = f, th_seq = s, th_ack = a, th_win = 1000, ts_opt = None, ws_opt = None, pay_len = 0,
     flowflags = (if d then FLOW_PKT_TOSERVER else FLOW_PKT_TOCLIENT), pkt_flags = 0, tv_sec = 0\<rparr>"

fun flow_value :: "flow_state \<Rightarrow> nat" where
  "flow_value FLOW_STATE_NEW = 0"
| "flow_value FLOW_STATE_ESTABLISHED = 1"
| "flow_value FLOW_STATE_CLOSED = 2"

lemma edge_flow_value:
  assumes "tcp_edge (tcp_st s) (tcp_st s')"
  shows "flow_value (StreamTcpGetFlowState (Some s)) \<le> flow_value (StreamTcpGetFlowState (Some s'))"
  using assms by (cases "tcp_st s"; cases "tcp_st s'") (auto simp: StreamTcpGetFlowState_def elim: tcp_edge.cases)

text \<open>Claim C6: The TCP state machine follows its graph: whatever a packet holds, it leaves the state of the session or
  takes it along one edge of the graph, the flow is moved to its new queue exactly once, in the new
  state, when the state changes and never otherwise, and what the flow engine sees (new, established,
  closed) never goes back.\<close>

theorem tcp_packet_follows_graph:
  assumes "keeps_state E" "StreamTcpPacket E fresh p flow = Some (r, flow', p', l)"
  shows "(flow_st flow' = flow_st flow \<and> requeues l = [] \<or>
      tcp_edge (flow_st flow) (flow_st flow') \<and> requeues l = [flow_st flow']) \<and>
    (\<forall>s s'. flow = Some s \<and> flow' = Some s' \<longrightarrow>
      flow_value (StreamTcpGetFlowState flow) \<le> flow_value (StreamTcpGetFlowState flow'))"
proof -
  have "follows_graph flow flow' l" by (rule packet_follows[OF assms])
  moreover have "flow_value (StreamTcpGetFlowState (Some s)) \<le> flow_value (StreamTcpGetFlowState (Some s'))"
    if "flow = Some s" "flow' = Some s'" for s s'
    using calculation that edge_flow_value[of s s'] by (auto simp: follows_graph_def StreamTcpGetFlowState_def)
  ultimately show ?thesis by (auto simp: follows_graph_def)
qed

lemma tcp_packet_follows_graph_witness:
  "\<exists>flow' p' l. StreamTcpPacket (plain_engine False False) (Some zero_session) (tcp_packet True TH_SYN 7 0) None
      = Some (0, flow', p', l) \<and> flow_st flow' = TCP_SYN_SENT \<and> requeues l = [TCP_SYN_SENT]"
proof -
  let ?E = "plain_engine False False" and ?p = "tcp_packet True TH_SYN 7 0"
  obtain r flow' p' l where step: "StreamTcpPacket ?E (Some zero_session) ?p None = Some (r, flow', p', l)"
    using packet_sound[OF plain_engine_keeps, of None False False "Some zero_session" ?p]
    by (auto simp: sound_flow_def[of None])
  then have "flow_st flow' = TCP_SYN_SENT" "r = 0"
    by (auto simp: StreamTcpPacket_def StreamTcpPacketStateNone_def with_session_def StreamTcpNewSession_def Let_def
        syn_flags_def tcp_packet_def plain_engine_def none_states(1)[OF plain_engine_keeps])
  then show ?thesis using tcp_packet_follows_graph[OF plain_engine_keeps step] step by auto
qed

text \<open>Claim C11: Whatever packets a flow gets, the program does not stop at the \<open>BUG_ON\<close> of the first handler, the states
  of the session only advance, so that there are at most seven changes of state, \<open>TCP_CLOSED\<close> is final
  and reached with all segments returned to their pool, and \<open>TCP_LISTEN\<close> and \<open>TCP_CLOSING\<close> (and with it the
  handler of that state) are never reached.\<close>

theorem tcp_run_advances:
  assumes "keeps_state E"
  shows "\<exists>flow l. run_packets E ps None = Some (flow, l) \<and>
    sorted_wrt (\<lambda>a b. progress a < progress b) (TCP_NONE # requeues l) \<and> last (TCP_NONE # requeues l) = flow_st flow \<and>
    length (requeues l) \<le> 7 \<and> flow_st flow \<notin> {TCP_LISTEN, TCP_CLOSING} \<and>
    (flow_st flow = TCP_CLOSED \<longrightarrow> (\<exists>s. flow = Some s \<and> no_segments s))"
proof -
  obtain flow l where run: "run_packets E ps None = Some (flow, l)" "sound_flow flow" "advancing TCP_NONE l (flow_st flow)"
    using run_sound[OF assms, of None ps] by (auto simp: sound_flow_def)
  then show ?thesis
    using advancing_length[OF run(3)]
    by (cases flow) (auto simp: sound_flow_def advancing_def)
qed

text \<open>A connection from the first \<open>SYN\<close> to the last \<open>ACK\<close>.\<close>

definition whole_connection :: "(nat TcpSession option \<times> TcpPacket) list" where
  "whole_connection = map (\<lambda>p. (Some zero_session, p))
     [tcp_packet True TH_SYN 7 0, tcp_packet False (TH_SYN OR TH_ACK) 100 8, tcp_packet True TH_ACK 8 101,
      tcp_packet True (TH_FIN OR TH_ACK) 8 101, tcp_packet False TH_ACK 101 9,
      tcp_packet False (TH_FIN OR TH_ACK) 101 9, tcp_packet True TH_ACK 9 102]"

lemma whole_connection_states:
  "map_option (\<lambda>(flow, l). (flow_st flow, requeues l)) (run_packets (plain_engine False False) whole_connection None) =
     Some (TCP_CLOSED, [TCP_SYN_SENT, TCP_SYN_RECV, TCP_ESTABLISHED, TCP_CLOSE_WAIT, TCP_LAST_ACK, TCP_CLOSED])"
  by code_simp

lemma tcp_run_advances_witness:
  "\<exists>flow l. run_packets (plain_engine False False) whole_connection None = Some (flow, l) \<and>
    flow_st flow = TCP_CLOSED \<and> length (requeues l) = 6 \<and> (\<exists>s. flow = Some s \<and> no_segments s)"
proof -
  obtain flow l where run: "run_packets (plain_engine False False) whole_connection None = Some (flow, l)"
    "flow_st flow = TCP_CLOSED \<longrightarrow> (\<exists>s. flow = Some s \<and> no_segments s)"
    using tcp_run_advances[OF plain_engine_keeps, of False False whole_connection] by auto
  moreover have "flow_st flow = TCP_CLOSED" "length (requeues l) = 6"
    using whole_connection_states run(1) by auto
  ultimately show ?thesis by auto
qed

end
