(* ===== verification/StreamTcpHandshake.thy ===== *)
theory StreamTcpHandshake
  imports StreamTcpTransitions "HOL-Library.Sublist"
begin

text \<open>
  When a session counts as established: without midstream pickup and one-sided streams, only after a
  handshake whose sequence numbers fit together. \<open>view\<close> is what the argument follows of a session: its
  state, the flags that say how it began, and the four sequence numbers of the handshake.
\<close>

section \<open>Flags\<close>

lemma has_clr_other: "a AND b = 0 \<Longrightarrow> has (clr_flag a f) b = has f b"
proof -
  assume d: "a AND b = 0"
  have "b AND NOT a = b"
  proof (rule bit_word_eqI)
    fix n assume "n < LENGTH(16)"
    moreover have "\<not> (bit a n \<and> bit b n)" using d by (metis bit_and_iff bit_0_eq bot_apply bot_bool_def)
    ultimately show "bit (b AND NOT a) n = bit b n" by (auto simp: bit_simps)
  qed
  then show ?thesis unfolding has_def clr_flag_def by (metis and.assoc and.commute)
qed

lemma has_set_other: "a AND b = 0 \<Longrightarrow> has (set_flag a f) b = has f b"
  by (simp add: has_def set_flag_def and.commute[of _ b] bit.conj_disj_distrib)

lemma has_clr_same: "\<not> has (clr_flag a f) a"
  by (simp add: has_def clr_flag_def and.assoc)

lemma has_set_same: "a \<noteq> 0 \<Longrightarrow> has (set_flag a f) a"
  by (simp add: has_def set_flag_def and.commute[of _ a] bit.conj_disj_distrib)

lemmas flag_values = STREAMTCP_FLAG_MIDSTREAM_def STREAMTCP_FLAG_MIDSTREAM_ESTABLISHED_def
  STREAMTCP_FLAG_MIDSTREAM_SYNACK_def STREAMTCP_FLAG_TIMESTAMP_def STREAMTCP_FLAG_SERVER_WSCALE_def
  STREAMTCP_FLAG_ZERO_TIMESTAMP_def STREAMTCP_FLAG_ASYNC_def STREAMTCP_FLAG_4WHS_def

lemma flag_disjoint [simp]:
  "STREAMTCP_FLAG_TIMESTAMP AND STREAMTCP_FLAG_MIDSTREAM = 0" "STREAMTCP_FLAG_TIMESTAMP AND STREAMTCP_FLAG_MIDSTREAM_SYNACK = 0"
  "STREAMTCP_FLAG_TIMESTAMP AND STREAMTCP_FLAG_ASYNC = 0" "STREAMTCP_FLAG_TIMESTAMP AND STREAMTCP_FLAG_4WHS = 0"
  "STREAMTCP_FLAG_SERVER_WSCALE AND STREAMTCP_FLAG_MIDSTREAM = 0" "STREAMTCP_FLAG_SERVER_WSCALE AND STREAMTCP_FLAG_MIDSTREAM_SYNACK = 0"
  "STREAMTCP_FLAG_SERVER_WSCALE AND STREAMTCP_FLAG_ASYNC = 0" "STREAMTCP_FLAG_SERVER_WSCALE AND STREAMTCP_FLAG_4WHS = 0"
  "STREAMTCP_FLAG_4WHS AND STREAMTCP_FLAG_MIDSTREAM = 0" "STREAMTCP_FLAG_4WHS AND STREAMTCP_FLAG_MIDSTREAM_SYNACK = 0"
  "STREAMTCP_FLAG_4WHS AND STREAMTCP_FLAG_ASYNC = 0" "STREAMTCP_FLAG_4WHS \<noteq> 0"
  "STREAMTCP_FLAG_MIDSTREAM_ESTABLISHED AND STREAMTCP_FLAG_MIDSTREAM = 0" "STREAMTCP_FLAG_MIDSTREAM_ESTABLISHED AND STREAMTCP_FLAG_MIDSTREAM_SYNACK = 0"
  "STREAMTCP_FLAG_MIDSTREAM_ESTABLISHED AND STREAMTCP_FLAG_ASYNC = 0" "STREAMTCP_FLAG_MIDSTREAM_ESTABLISHED AND STREAMTCP_FLAG_4WHS = 0"
  by (simp_all add: flag_values)

section \<open>What the handshake depends on\<close>

text \<open>The state, the flags that select another path through the handlers, and the sequence numbers.\<close>

definition view :: "'g TcpSession \<Rightarrow> tcp_state \<times> (bool \<times> bool \<times> bool \<times> bool) \<times> u32 \<times> u32 \<times> u32 \<times> u32" where
  "view s = (tcp_st s,
     (has (sess_flags s) STREAMTCP_FLAG_MIDSTREAM, has (sess_flags s) STREAMTCP_FLAG_MIDSTREAM_SYNACK,
      has (sess_flags s) STREAMTCP_FLAG_ASYNC, has (sess_flags s) STREAMTCP_FLAG_4WHS),
     isn (client s), next_seq (client s), isn (server s), next_seq (server s))"

definition keeps_view :: "'g engine \<Rightarrow> bool" where
  "keeps_view E \<longleftrightarrow> (\<forall>c p s. view (reassemble E c p s) = view s) \<and>
     (\<forall>f. map_option view (snd (app_layer E f)) = map_option view f)"

lemma view_core: "core s = core s' \<Longrightarrow> view s = view s'"
proof -
  assume c: "core s = core s'"
  have f: "has (sess_flags s) b = has (sess_flags s') b" if "STREAMTCP_FLAG_TIMESTAMP AND b = 0" for b
    using core_eqD(4)[OF c] has_clr_other[OF that] by metis
  show ?thesis
    using core_eqD[OF c] core_stream_eqD(1,2)[OF core_eqD(2)[OF c]] core_stream_eqD(1,2)[OF core_eqD(3)[OF c]] f
    by (simp add: view_def)
qed

lemma view_checks: "view (snd (ValidTimestamp E p s)) = view s" "view (snd (ValidReset E p s)) = view s"
  by (rule view_core, simp add: core_simps)+

text \<open>The second component of the view, and what keeps it.\<close>

definition modes :: "'g TcpSession \<Rightarrow> bool \<times> bool \<times> bool \<times> bool" where
  "modes s = fst (snd (view s))"

lemma modes_eq:
  "modes s = (has (sess_flags s) STREAMTCP_FLAG_MIDSTREAM, has (sess_flags s) STREAMTCP_FLAG_MIDSTREAM_SYNACK,
      has (sess_flags s) STREAMTCP_FLAG_ASYNC, has (sess_flags s) STREAMTCP_FLAG_4WHS)"
  by (simp add: modes_def view_def)

named_theorems mode_simps

lemma sess_flags_on:
  "sess_flags (on_client f s) = sess_flags s" "sess_flags (on_server f s) = sess_flags s"
  "sess_flags (on_snd d f s) = sess_flags s" "sess_flags (on_rcv d f s) = sess_flags s"
  by (simp_all add: on_client_def on_server_def on_snd_def on_rcv_def)

lemma modes_on [mode_simps]:
  "modes (on_client f s) = modes s" "modes (on_server f s) = modes s"
  "modes (on_snd d f s) = modes s" "modes (on_rcv d f s) = modes s" "modes (s\<lparr>tcp_st := st\<rparr>) = modes s"
  by (simp_all add: modes_eq sess_flags_on)

lemma modes_checks [mode_simps]:
  "modes (snd (ValidTimestamp E p s)) = modes s" "modes (snd (ValidReset E p s)) = modes s"
  by (simp_all add: modes_def view_checks)

lemma modes_reassemble [mode_simps]: "keeps_view E \<Longrightarrow> modes (reassemble E c p s) = modes s"
  by (simp add: modes_def keeps_view_def)

lemma modes_work [mode_simps]:
  "modes (ssn (StreamTcpPacketSetState st w)) = modes (ssn w)" "modes (ssn (StreamTcpSessionPktFree w)) = modes (ssn w)"
  "ssn (upd f w) = f (ssn w)"
  by (simp_all add: StreamTcpPacketSetState_def StreamTcpSessionPktFree_def mode_simps upd_def)

lemma modes_helpers [mode_simps]:
  "modes (take_ack d p s) = modes s" "modes (advance d p s) = modes s"
  by (simp_all add: take_ack_def advance_def mode_simps)

lemma modes_ack_and_reassemble [mode_simps]: "keeps_view E \<Longrightarrow> modes (ack_and_reassemble E d p s) = modes s"
  by (simp add: ack_and_reassemble_def mode_simps)

lemma modes_established [mode_simps]:
  assumes "keeps_view E"
  shows "modes (established_data E d p s) = modes s" "modes (established_reset E d p s) = modes s"
  using assms by (simp_all add: established_data_def established_reset_def Let_def mode_simps)

lemma modes_ts_check:
  assumes "\<And>w'. modes (ssn w') = modes (ssn w) \<Longrightarrow> modes (ssn (snd (k w'))) = modes (ssn w)"
  shows "modes (ssn (snd (ts_check E p w k))) = modes (ssn w)"
  using assms by (simp add: ts_check_def case_prod_unfold mode_simps)

lemma modes_close_on_reset [mode_simps]: "modes (ssn (snd (close_on_reset E p w))) = modes (ssn w)"
  by (simp add: close_on_reset_def case_prod_unfold mode_simps)

lemma modes_HandleFin [mode_simps]: "keeps_view E \<Longrightarrow> modes (ssn (snd (StreamTcpHandleFin E p w))) = modes (ssn w)"
  by (simp add: StreamTcpHandleFin_def Let_def mode_simps)

text \<open>A session that was picked up from its first packet and of which both sides are seen.\<close>

definition regular :: "'g TcpSession \<Rightarrow> bool" where
  "regular s \<longleftrightarrow> (\<exists>q. modes s = (False, False, False, q))"

lemma regularD:
  assumes "regular s"
  shows "\<not> has (sess_flags s) STREAMTCP_FLAG_MIDSTREAM" "\<not> has (sess_flags s) STREAMTCP_FLAG_MIDSTREAM_SYNACK"
    "\<not> has (sess_flags s) STREAMTCP_FLAG_ASYNC"
  using assms by (auto simp: regular_def modes_eq)

lemma regular_modes: "modes s' = modes s \<Longrightarrow> regular s \<Longrightarrow> regular s'"
  by (simp add: regular_def)

lemma modes_midstream_wscale [mode_simps]: "modes (midstream_wscale s) = modes s"
  by (simp add: midstream_wscale_def mode_simps)

lemma modes_data:
  assumes "keeps_view E" "regular s"
  shows "modes (snd (HandleEstablishedPacketToServer E p s)) = modes s"
    "modes (snd (HandleEstablishedPacketToClient E p s)) = modes s"
  using assms(1) regularD[OF assms(2)]
  by (auto simp: HandleEstablishedPacketToServer_def HandleEstablishedPacketToClient_def
      seq_before_ack_to_server_def seq_before_ack_to_client_def mode_simps split: option.split)

lemma modes_synrecv_ack:
  assumes "keeps_view E" "\<not> async_oneside E"
  shows "modes (ssn (snd (synrecv_ack E p w))) = modes (ssn w)"
  using assms
  by (auto simp: synrecv_ack_def Let_def synrecv_ack_4whs_def synrecv_ack_normal_def mode_simps)

text \<open>From the established state on the modes stay.\<close>

lemma modes_late:
  assumes view: "keeps_view E" and reg: "regular (ssn w)" and st: "tcp_st (ssn w) \<notin> {TCP_SYN_SENT, TCP_SYN_RECV}"
  shows "modes (ssn (snd (state_handler E p w))) = modes (ssn w)"
proof -
  have est: "modes (ssn (snd (StreamTcpPacketStateEstablished E p w))) = modes (ssn w)"
    using view modes_data[OF view regular_modes[OF _ reg]] modes_ts_check[of w _ E p]
    by (simp add: StreamTcpPacketStateEstablished_def case_prod_unfold mode_simps)
  have close: "modes (ssn (snd (close_session E d p w'))) = modes (ssn w')" for d w'
    using view by (simp add: close_session_def mode_simps)
  have rest:
    "modes (ssn (snd (StreamTcpPacketStateFinWait1 E p w))) = modes (ssn w)"
    "modes (ssn (snd (StreamTcpPacketStateFinWait2 E p w))) = modes (ssn w)"
    "modes (ssn (snd (StreamTcpPacketStateClosing E p w))) = modes (ssn w)"
    "modes (ssn (snd (StreamTcpPacketStateCloseWait E p w))) = modes (ssn w)"
    "modes (ssn (snd (StreamTcpPakcetStateLastAck E p w))) = modes (ssn w)"
    "modes (ssn (snd (StreamTcpPacketStateTimeWait E p w))) = modes (ssn w)"
    unfolding StreamTcpPacketStateFinWait1_def StreamTcpPacketStateFinWait2_def StreamTcpPacketStateClosing_def
      StreamTcpPacketStateCloseWait_def StreamTcpPakcetStateLastAck_def StreamTcpPacketStateTimeWait_def Let_def
    using view by (simp_all add: mode_simps close modes_ts_check)
  show ?thesis using st est rest by (cases "tcp_st (ssn w)") (simp_all add: state_handler_def)
qed

section \<open>The sequence numbers of the handshake\<close>

definition nums :: "'g TcpSession \<Rightarrow> u32 \<times> u32 \<times> u32 \<times> u32" where
  "nums s = (isn (client s), next_seq (client s), isn (server s), next_seq (server s))"

lemma view_split: "view s = (tcp_st s, modes s, nums s)"
  by (simp add: view_def modes_eq nums_def)

named_theorems num_simps

lemma nums_on [num_simps]:
  assumes "\<And>x. isn (f x) = isn x" "\<And>x. next_seq (f x) = next_seq x"
  shows "nums (on_client f s) = nums s" "nums (on_server f s) = nums s" "nums (on_snd d f s) = nums s"
    "nums (on_rcv d f s) = nums s"
  using assms by (simp_all add: nums_def on_client_def on_server_def on_snd_def on_rcv_def)

lemma nums_sess [num_simps]: "nums (s\<lparr>sess_flags := f\<rparr>) = nums s" "nums (s\<lparr>tcp_st := st\<rparr>) = nums s"
  by (simp_all add: nums_def)

lemma nums_start:
  "nums (on_client (start_isn n) s) = (n, n + 1, isn (server s), next_seq (server s))"
  "nums (on_server (start_isn n) s) = (isn (client s), next_seq (client s), n, n + 1)"
  by (simp_all add: nums_def on_client_def on_server_def start_isn_def)

lemma nums_checks [num_simps]:
  "nums (snd (ValidTimestamp E p s)) = nums s" "nums (snd (ValidReset E p s)) = nums s"
  using view_checks[of E p s] by (simp_all add: view_split)

lemma nums_parts [num_simps]:
  "isn (syn_timestamp p x) = isn x" "next_seq (syn_timestamp p x) = next_seq x"
  "isn (set_next_win x) = isn x" "next_seq (set_next_win x) = next_seq x"
  "nums (syn_window p s) = nums s" "nums (synack_timestamps d p s) = nums s"
  by (simp_all add: syn_timestamp_def set_next_win_def syn_window_def synack_timestamps_def Let_def num_simps
      split: option.split prod.split)

lemma nums_work [num_simps]:
  "nums (ssn (StreamTcpPacketSetState st w)) = nums (ssn w)" "nums (ssn (StreamTcpSessionPktFree w)) = nums (ssn w)"
  by (simp_all add: StreamTcpPacketSetState_def StreamTcpSessionPktFree_def num_simps StreamTcpReturnStreamSegments_def)

lemma modes_parts [mode_simps]:
  "modes (syn_window p s) = modes s" "modes (synack_timestamps d p s) = modes s"
  by (simp_all add: syn_window_def synack_timestamps_def Let_def modes_eq sess_flags_on has_set_other
      split: option.split prod.split)

text \<open>The views after the first packets.\<close>

lemma view_none_syn:
  "view (ssn (none_syn p \<lparr>ssn = zero_session\<lparr>tcp_st := TCP_NONE\<rparr>, log = l\<rparr>)) =
     (TCP_SYN_SENT, (False, False, False, False), th_seq p, th_seq p + 1, 0, 0)"
proof -
  have "nums (on_client (\<lambda>x. syn_timestamp p (start_isn (th_seq p) x)) s) = (th_seq p, th_seq p + 1, isn (server s), next_seq (server s))"
    for s :: "'a TcpSession"
    by (simp add: nums_def on_client_def num_simps) (simp add: start_isn_def)
  moreover have "modes (zero_session :: 'a TcpSession) = (False, False, False, False)"
    by (simp add: modes_eq zero_session_def has_def)
  moreover have "isn (server (ssn (StreamTcpPacketSetState st w))) = isn (server (ssn w))"
    "next_seq (server (ssn (StreamTcpPacketSetState st w))) = next_seq (server (ssn w))" for st and w :: "'a work"
    by (simp_all add: StreamTcpPacketSetState_def)
  ultimately show ?thesis
    by (simp add: view_split none_syn_def mode_simps num_simps st_simps) (simp add: zero_session_def zero_stream_def)
qed

lemma view_synsent_syn:
  assumes "view s = (st, (m, a, b, q), ci, cn, si, sn)"
  shows "view (synsent_syn E p s) =
    (if to_client E p then (st, (m, a, b, True), ci, cn, th_seq p, th_seq p + 1) else view s)"
proof -
  have "nums (on_server (\<lambda>x. syn_timestamp p (start_isn (th_seq p) x)) s) = (isn (client s), next_seq (client s), th_seq p, th_seq p + 1)"
    for s :: "'a TcpSession"
    by (simp add: nums_def on_server_def num_simps) (simp add: start_isn_def)
  moreover have "modes (s\<lparr>sess_flags := set_flag STREAMTCP_FLAG_4WHS (sess_flags s)\<rparr>) = (m, a, b, True)"
    using assms by (simp add: view_split modes_eq has_set_other has_set_same)
  ultimately show ?thesis
    using assms by (simp add: view_split synsent_syn_def mode_simps num_simps st_simps) (simp add: nums_def)
qed

lemma view_synack:
  assumes "view (ssn w) = (st, (m, a, b, q), ci, cn, si, sn)"
  shows "view (ssn (synsent_synack_4whs p w)) = (TCP_SYN_RECV, (m, a, b, q), th_seq p, th_seq p + 1, si, sn)"
    "view (ssn (synsent_synack p w)) = (TCP_SYN_RECV, (m, a, b, False), ci, cn, th_seq p, th_seq p + 1)"
proof -
  have *: "isn (server (ssn (StreamTcpPacketSetState st w))) = isn (server (ssn w))"
    "next_seq (server (ssn (StreamTcpPacketSetState st w))) = next_seq (server (ssn w))"
    "isn (client (ssn (StreamTcpPacketSetState st w))) = isn (client (ssn w))"
    "next_seq (client (ssn (StreamTcpPacketSetState st w))) = next_seq (client (ssn w))" for st
    by (simp_all add: StreamTcpPacketSetState_def)
  show "view (ssn (synsent_synack_4whs p w)) = (TCP_SYN_RECV, (m, a, b, q), th_seq p, th_seq p + 1, si, sn)"
    using assms
    by (simp add: view_split synsent_synack_4whs_def Let_def mode_simps num_simps st_simps nums_start *) (simp add: nums_def)
  have "modes (s\<lparr>sess_flags := clr_flag STREAMTCP_FLAG_4WHS (sess_flags s)\<rparr>) = (m, a, b, False)" if "modes s = (m, a, b, q)"
    for s :: "'a TcpSession"
    using that by (simp add: modes_eq has_clr_other has_clr_same)
  then show "view (ssn (synsent_synack p w)) = (TCP_SYN_RECV, (m, a, b, False), ci, cn, th_seq p, th_seq p + 1)"
    using assms
    by (simp add: view_split synsent_synack_def Let_def mode_simps num_simps st_simps nums_start *) (simp add: nums_def)
qed

section \<open>Handshakes\<close>

text \<open>
  The packets of a handshake in a history: \<open>syn\<close> and \<open>sa\<close> of the handshake with three packets, \<open>syn\<close>, \<open>syn2\<close>
  (a \<open>SYN\<close> from the other side) and \<open>sa\<close> of the one with four, and the last acknowledgement.
\<close>

definition is_syn :: "TcpPacket \<Rightarrow> bool" where
  "is_syn p \<longleftrightarrow> th_flags p \<in> insert (TH_SYN OR TH_ECN) syn_flags"

definition three_way :: "'g engine \<Rightarrow> TcpPacket \<Rightarrow> TcpPacket \<Rightarrow> bool" where
  "three_way E syn sa \<longleftrightarrow> is_syn syn \<and> th_flags sa \<in> synack_flags \<and> \<not> to_server E sa \<and> th_ack sa = th_seq syn + 1"

definition four_way :: "'g engine \<Rightarrow> TcpPacket \<Rightarrow> TcpPacket \<Rightarrow> TcpPacket \<Rightarrow> bool" where
  "four_way E syn syn2 sa \<longleftrightarrow> is_syn syn \<and> th_flags syn2 \<in> syn_flags \<and> to_client E syn2 \<and>
     th_flags sa \<in> synack_flags \<and> to_server E sa \<and> th_seq sa = th_seq syn \<and> th_ack sa = th_seq syn2 + 1"

definition client_ack :: "'g engine \<Rightarrow> TcpPacket \<Rightarrow> TcpPacket \<Rightarrow> bool" where
  "client_ack E syn a \<longleftrightarrow> th_flags a \<in> ack_flags \<and> \<not> to_client E a \<and> th_seq a = th_seq syn + 1"

definition server_ack :: "'g engine \<Rightarrow> TcpPacket \<Rightarrow> TcpPacket \<Rightarrow> bool" where
  "server_ack E syn2 a \<longleftrightarrow> th_flags a \<in> ack_flags \<and> to_client E a \<and> th_seq a = th_seq syn2 + 1"

definition answered :: "'g engine \<Rightarrow> TcpPacket list \<Rightarrow> bool" where
  "answered E h \<longleftrightarrow> (\<exists>syn sa. subseq [syn, sa] h \<and> three_way E syn sa) \<or>
     (\<exists>syn syn2 sa. subseq [syn, syn2, sa] h \<and> four_way E syn syn2 sa)"

definition completed :: "'g engine \<Rightarrow> TcpPacket list \<Rightarrow> bool" where
  "completed E h \<longleftrightarrow>
     (\<exists>syn sa a. subseq [syn, sa, a] h \<and> three_way E syn sa \<and> client_ack E syn a) \<or>
     (\<exists>syn syn2 sa a. subseq [syn, syn2, sa, a] h \<and> four_way E syn syn2 sa \<and> (client_ack E syn a \<or> server_ack E syn2 a))"

text \<open>What the state of a regular session says about the packets so far.\<close>

fun accounted :: "'g engine \<Rightarrow> TcpPacket list \<Rightarrow> tcp_state \<times> (bool \<times> bool \<times> bool \<times> bool) \<times> u32 \<times> u32 \<times> u32 \<times> u32 \<Rightarrow> bool" where
  "accounted E h (st, (m, a, b, q), ci, cn, si, sn) \<longleftrightarrow> \<not> m \<and> \<not> a \<and> \<not> b \<and>
     (\<exists>syn. subseq [syn] h \<and> is_syn syn) \<and>
     (if st = TCP_SYN_SENT then
        \<exists>syn. subseq [syn] h \<and> is_syn syn \<and> ci = th_seq syn \<and> cn = th_seq syn + 1 \<and>
          (q \<longrightarrow> (\<exists>syn2. subseq [syn, syn2] h \<and> th_flags syn2 \<in> syn_flags \<and> to_client E syn2 \<and>
             si = th_seq syn2 \<and> sn = th_seq syn2 + 1))
      else if st = TCP_SYN_RECV then
        \<exists>syn. cn = th_seq syn + 1 \<and>
          (if q then \<exists>syn2 sa. subseq [syn, syn2, sa] h \<and> four_way E syn syn2 sa \<and> sn = th_seq syn2 + 1
           else \<exists>sa. subseq [syn, sa] h \<and> three_way E syn sa)
      else if st = TCP_ESTABLISHED then completed E h
      else st = TCP_CLOSED \<or> answered E h)"

lemma subseq_snoc: "subseq xs h \<Longrightarrow> subseq xs (h @ [p])"
  by (rule subseq_order.trans[of _ h]) (auto intro: subseq_rev_drop_many)

lemma subseq_take: "subseq xs h \<Longrightarrow> subseq (xs @ [p]) (h @ [p])"
  by (rule list_emb_append_mono) auto

lemma answered_snoc: "answered E h \<Longrightarrow> answered E (h @ [p])"
  unfolding answered_def using subseq_snoc by blast

lemma completed_snoc: "completed E h \<Longrightarrow> completed E (h @ [p])"
  unfolding completed_def using subseq_snoc by blast

lemma completed_answered:
  assumes "completed E h"
  shows "answered E h"
proof -
  have "subseq [syn, sa] [syn, sa, a]" "subseq [syn, syn2, sa] [syn, syn2, sa, a]" for syn syn2 sa a :: TcpPacket
    by auto
  then show ?thesis using assms unfolding completed_def answered_def by (meson subseq_order.trans)
qed

lemma recv_answered:
  "accounted E h (TCP_SYN_RECV, (m, a, b, q), ci, cn, si, sn) \<Longrightarrow> answered E h"
  by (auto simp: answered_def split: if_splits)

lemma accounted_snoc: "accounted E h v \<Longrightarrow> accounted E (h @ [p]) v"
proof -
  assume "accounted E h v"
  moreover obtain st m a b q ci cn si sn where fields: "v = (st, (m, a, b, q), ci, cn, si, sn)"
    by (cases v) auto
  ultimately show ?thesis
    using subseq_snoc[of _ h p] answered_snoc[of E h p] completed_snoc[of E h p]
    unfolding fields accounted.simps by (auto 4 4 split: if_splits)
qed

lemma SEQ_EQ_iff: "SEQ_EQ a b \<longleftrightarrow> a = b"
  by (simp add: SEQ_EQ_def signed_eq_0_iff)

section \<open>Every packet keeps the account\<close>

lemma accounted_late:
  assumes "st \<notin> {TCP_SYN_SENT, TCP_SYN_RECV}"
  shows "accounted E h (st, (m, a, b, q), n) \<longleftrightarrow> \<not> m \<and> \<not> a \<and> \<not> b \<and> (\<exists>syn. subseq [syn] h \<and> is_syn syn) \<and>
    (if st = TCP_ESTABLISHED then completed E h else st = TCP_CLOSED \<or> answered E h)"
  using assms by (cases n) auto

lemma accounted_view:
  assumes "accounted E h (view s)"
  obtains q ci cn si sn where "view s = (tcp_st s, (False, False, False, q), ci, cn, si, sn)"
  using assms by (cases "modes s"; cases "nums s") (auto simp: view_split)

lemma accounted_SynSent:
  assumes acc: "accounted E h (view (ssn w))" and st: "tcp_st (ssn w) = TCP_SYN_SENT" and async: "\<not> async_oneside E"
  shows "accounted E (h @ [p]) (view (ssn (snd (StreamTcpPacketStateSynSent E p w))))"
proof -
  obtain q ci cn si sn where v: "view (ssn w) = (TCP_SYN_SENT, (False, False, False, q), ci, cn, si, sn)"
    using accounted_view[OF acc] st by metis
  then obtain syn where syn: "subseq [syn] h" "is_syn syn" "ci = th_seq syn" "cn = th_seq syn + 1"
    "q \<longrightarrow> (\<exists>syn2. subseq [syn, syn2] h \<and> th_flags syn2 \<in> syn_flags \<and> to_client E syn2 \<and> si = th_seq syn2 \<and> sn = th_seq syn2 + 1)"
    using acc by (auto simp: v)
  have q: "has (sess_flags (ssn w)) STREAMTCP_FLAG_4WHS = q" "isn (client (ssn w)) = ci" "isn (server (ssn w)) = si"
    using v by (auto simp: view_def)
  have stay: "accounted E (h @ [p]) (view (ssn w))" by (rule accounted_snoc[OF acc])
  have "accounted E (h @ [p]) (view (synsent_syn E p (ssn w)))" if "th_flags p \<in> syn_flags"
    using stay view_synsent_syn[OF v, of E p] syn subseq_snoc[OF syn(1), of p] subseq_take[OF syn(1), of p] that by auto
  moreover have "accounted E (h @ [p]) (view (ssn (synsent_synack_4whs p w)))"
    if sa: "th_flags p \<in> synack_flags" "to_server E p" "th_ack p = si + 1" "th_seq p = ci" "q"
  proof -
    obtain syn2 where syn2: "subseq [syn, syn2] h" "th_flags syn2 \<in> syn_flags" "to_client E syn2" "si = th_seq syn2" "sn = th_seq syn2 + 1"
      using syn(5) sa(5) by blast
    have "four_way E syn syn2 p" using syn(2,3) syn2 sa by (simp add: four_way_def)
    moreover have "subseq [syn, syn2, p] (h @ [p])" using subseq_take[OF syn2(1), of p] by simp
    ultimately show ?thesis
      unfolding view_synack(1)[OF v] using syn(2,3) syn2(5) sa(4,5) subseq_snoc[OF syn(1), of p] by auto
  qed
  moreover have "accounted E (h @ [p]) (view (ssn (synsent_synack p w)))"
    if sa: "th_flags p \<in> synack_flags" "\<not> to_server E p" "th_ack p = ci + 1"
  proof -
    have "three_way E syn p" using syn(2,3) sa by (simp add: three_way_def)
    moreover have "subseq [syn, p] (h @ [p])" using subseq_take[OF syn(1), of p] by simp
    ultimately show ?thesis
      unfolding view_synack(2)[OF v] using syn(2,4) subseq_snoc[OF syn(1), of p] by auto
  qed
  moreover have reset: "accounted E (h @ [p]) (view (snd (ValidReset E p (ssn w))))"
    using stay by (simp add: view_checks)
  moreover have "accounted E (h @ [p]) (view (ssn (StreamTcpSessionPktFree (StreamTcpPacketSetState TCP_CLOSED
      (w\<lparr>ssn := snd (ValidReset E p (ssn w))\<rparr>)))))"
  proof -
    let ?s = "ssn (StreamTcpSessionPktFree (StreamTcpPacketSetState TCP_CLOSED (w\<lparr>ssn := snd (ValidReset E p (ssn w))\<rparr>)))"
    have "view ?s = (TCP_CLOSED, (False, False, False, q), nums ?s)"
      using v by (simp add: view_split mode_simps) (simp add: StreamTcpSessionPktFree_def st_simps)
    then show ?thesis using syn(2) subseq_snoc[OF syn(1), of p] by (auto simp: accounted_late)
  qed
  ultimately show ?thesis
    using stay async
    by (simp add: StreamTcpPacketStateSynSent_def case_prod_unfold Let_def SEQ_EQ_iff q mode_simps)
qed

lemma accounted_SynRecv:
  assumes keep: "keeps_state E" and view: "keeps_view E"
    and acc: "accounted E h (view (ssn w))" and st: "tcp_st (ssn w) = TCP_SYN_RECV" and async: "\<not> async_oneside E"
  shows "accounted E (h @ [p]) (view (ssn (snd (StreamTcpPacketStateSynRecv E p w))))"
proof -
  obtain q ci cn si sn where v: "view (ssn w) = (TCP_SYN_RECV, (False, False, False, q), ci, cn, si, sn)"
    using accounted_view[OF acc] st by metis
  have stay: "accounted E (h @ [p]) (view (ssn w))" by (rule accounted_snoc[OF acc])
  have ans: "answered E (h @ [p])" using recv_answered stay v by metis
  have syn: "\<exists>syn. subseq [syn] (h @ [p]) \<and> is_syn syn" using stay by (auto simp: v)
  let ?w' = "snd (StreamTcpPacketStateSynRecv E p w)"
  have modes: "modes (ssn w) = (False, False, False, q)" using v by (simp add: view_split)
  have modes': "modes (ssn ?w') = (False, False, False, q)"
    using modes modes_ts_check[of w _ E p] modes_synrecv_ack[OF view async, of p] view
    by (auto simp: StreamTcpPacketStateSynRecv_def mode_simps)
  have ack: "completed E (h @ [p])"
    if "tcp_st (ssn (snd (synrecv_ack E p w1))) = TCP_ESTABLISHED" "view (ssn w1) = view (ssn w)" "th_flags p \<in> ack_flags" for w1
  proof -
    have w1: "tcp_st (ssn w1) = TCP_SYN_RECV" "has (sess_flags (ssn w1)) STREAMTCP_FLAG_4WHS = q"
      "\<not> has (sess_flags (ssn w1)) STREAMTCP_FLAG_MIDSTREAM_SYNACK"
      "next_seq (client (ssn w1)) = cn" "next_seq (server (ssn w1)) = sn"
      using v that(2) by (auto simp: view_def)
    have a: "q \<and> to_client E p \<and> th_seq p = sn \<or> \<not> to_client E p \<and> th_seq p = cn"
      using that(1) async w1 by (auto simp: synrecv_ack_def Let_def SEQ_EQ_iff split: if_splits)
    show ?thesis
    proof (cases q)
      case True
      then obtain syn syn2 sa where s4: "cn = th_seq syn + 1" "subseq [syn, syn2, sa] h" "four_way E syn syn2 sa" "sn = th_seq syn2 + 1"
        using acc by (auto simp: v)
      then have "client_ack E syn p \<or> server_ack E syn2 p" using a that(3) by (auto simp: client_ack_def server_ack_def)
      moreover have "subseq [syn, syn2, sa, p] (h @ [p])" using subseq_take[OF s4(2), of p] by simp
      ultimately show ?thesis using s4(3) unfolding completed_def by blast
    next
      case False
      then obtain syn sa where s3: "cn = th_seq syn + 1" "subseq [syn, sa] h" "three_way E syn sa"
        using acc by (auto simp: v)
      then have "client_ack E syn p" using a that(3) False by (auto simp: client_ack_def)
      moreover have "subseq [syn, sa, p] (h @ [p])" using subseq_take[OF s3(2), of p] by simp
      ultimately show ?thesis using s3(3) unfolding completed_def by blast
    qed
  qed
  have est: "completed E (h @ [p])" if "tcp_st (ssn ?w') = TCP_ESTABLISHED"
  proof -
    have fin: "moves w1 (snd (StreamTcpHandleFin E p w1)) {TCP_CLOSE_WAIT, TCP_FIN_WAIT1}" for w1
      by (rule moves_HandleFin[OF keep]) simp
    have "moves w (snd (ts_check E p w (StreamTcpHandleFin E p))) {TCP_CLOSE_WAIT, TCP_FIN_WAIT1}"
      by (rule moves_ts_check[OF fin])
    moreover have "moves w (snd (close_on_reset E p w)) {TCP_CLOSED}" by (rule moves_close_on_reset) simp
    ultimately have "th_flags p \<in> ack_flags \<and> tcp_st (ssn (snd (ts_check E p w (synrecv_ack E p)))) = TCP_ESTABLISHED"
      using that st by (auto simp: StreamTcpPacketStateSynRecv_def moves_def steps_def split: if_splits)
    then show ?thesis
      using ack[of w] ack[of "w\<lparr>ssn := snd (ValidTimestamp E p (ssn w))\<rparr>"] st
      by (auto simp: ts_check_def case_prod_unfold view_checks st_simps split: if_splits)
  qed
  show ?thesis
  proof (cases "tcp_st (ssn ?w') = TCP_SYN_RECV")
    case False
    have "tcp_st (ssn ?w') \<in> {TCP_ESTABLISHED, TCP_FIN_WAIT1, TCP_CLOSE_WAIT, TCP_CLOSED}"
      using moves_SynRecv[OF keep, of w p] False st by (auto simp: moves_def steps_def)
    then show ?thesis
      unfolding view_split modes' using est ans syn by (subst accounted_late) auto
  next
    case True
    have same: "view (ssn (snd (ts_check E p w k))) = view (ssn w)"
      if "\<And>w1. tcp_st (ssn (snd (k w1))) = TCP_SYN_RECV \<Longrightarrow> ssn (snd (k w1)) = ssn w1"
        "tcp_st (ssn (snd (ts_check E p w k))) = TCP_SYN_RECV" for k
      using that(1)[of w] that(1)[of "w\<lparr>ssn := snd (ValidTimestamp E p (ssn w))\<rparr>"] that(2)
      by (simp add: ts_check_def case_prod_unfold view_checks split: if_splits)
    have ack1: "ssn (snd (synrecv_ack E p w1)) = ssn w1" if "tcp_st (ssn (snd (synrecv_ack E p w1))) = TCP_SYN_RECV" for w1
      using that by (auto simp: synrecv_ack_def Let_def split: if_splits)
    have fin1: "ssn (snd (StreamTcpHandleFin E p w1)) = ssn w1"
      if "tcp_st (ssn (snd (StreamTcpHandleFin E p w1))) = TCP_SYN_RECV" for w1
      using that keep by (auto simp: StreamTcpHandleFin_def Let_def mode_simps st_simps split: if_splits)
    have "view (ssn (snd (close_on_reset E p w))) = view (ssn w)"
      if "tcp_st (ssn (snd (close_on_reset E p w))) = TCP_SYN_RECV"
      using that by (auto simp: close_on_reset_def case_prod_unfold view_checks StreamTcpSessionPktFree_def st_simps split: if_splits)
    then have "view (ssn ?w') = view (ssn w)"
      using True same[OF ack1] same[OF fin1] by (auto simp: StreamTcpPacketStateSynRecv_def split: if_splits)
    then show ?thesis using stay by simp
  qed
qed

lemma accounted_handler:
  assumes keep: "keeps_state E" and view: "keeps_view E"
    and acc: "accounted E h (view (ssn w))" and async: "\<not> async_oneside E"
  shows "accounted E (h @ [p]) (view (ssn (snd (state_handler E p w))))"
proof -
  let ?w' = "snd (state_handler E p w)"
  consider "tcp_st (ssn w) = TCP_SYN_SENT" | "tcp_st (ssn w) = TCP_SYN_RECV" | "tcp_st (ssn w) \<notin> {TCP_SYN_SENT, TCP_SYN_RECV}"
    by auto
  then show ?thesis
  proof cases
    case 1
    then show ?thesis using accounted_SynSent[OF acc 1 async] by (simp add: state_handler_def)
  next
    case 2
    then show ?thesis using accounted_SynRecv[OF keep view acc 2 async] by (simp add: state_handler_def)
  next
    case 3
    obtain q where v: "view (ssn w) = (tcp_st (ssn w), (False, False, False, q), nums (ssn w))"
      using accounted_view[OF acc] by (auto simp: view_split)
    then have "regular (ssn w)" by (simp add: regular_def view_split)
    then have modes': "modes (ssn ?w') = (False, False, False, q)"
      using modes_late[OF view _ 3] v by (simp add: view_split)
    have old: "accounted E (h @ [p]) (tcp_st (ssn w), (False, False, False, q), nums (ssn w))"
      using accounted_snoc[OF acc, of p] v by simp
    have "tcp_st (ssn ?w') = tcp_st (ssn w) \<or> tcp_edge (tcp_st (ssn w)) (tcp_st (ssn ?w'))"
      using moves_state_handler[OF keep, of w p] by (auto simp: moves_def steps_def)
    then show ?thesis
    proof
      assume "tcp_st (ssn ?w') = tcp_st (ssn w)"
      then show ?thesis using old 3 unfolding view_split modes' by (simp add: accounted_late)
    next
      assume edge: "tcp_edge (tcp_st (ssn w)) (tcp_st (ssn ?w'))"
      then have "tcp_st (ssn w) \<noteq> TCP_CLOSED" by (auto elim: tcp_edge_from_closed)
      then have "answered E (h @ [p])" using old 3 completed_answered by (auto simp: accounted_late split: if_splits)
      moreover have "tcp_st (ssn ?w') \<notin> {TCP_SYN_SENT, TCP_SYN_RECV, TCP_ESTABLISHED} \<or> tcp_st (ssn w) = TCP_NONE"
        using edge 3 by (auto elim: tcp_edge.cases)
      moreover have "tcp_st (ssn ?w') = tcp_st (ssn w)" if "tcp_st (ssn w) = TCP_NONE"
        using that by (simp add: state_handler_def)
      ultimately show ?thesis
        using old 3 edge edge_progress[OF edge] unfolding view_split modes' by (auto simp: accounted_late)
    qed
  qed
qed

definition accounted_flow :: "'g engine \<Rightarrow> TcpPacket list \<Rightarrow> 'g TcpSession option \<Rightarrow> bool" where
  "accounted_flow E h flow \<longleftrightarrow> (case flow of None \<Rightarrow> True | Some s \<Rightarrow> tcp_st s \<noteq> TCP_NONE \<and> accounted E h (view s))"

lemma accounted_app_layer:
  assumes "keeps_view E"
  shows "accounted_flow E h (snd (app_layer E flow)) \<longleftrightarrow> accounted_flow E h flow"
proof -
  have "map_option view (snd (app_layer E flow)) = map_option view flow" using assms by (simp add: keeps_view_def)
  then show ?thesis by (cases "snd (app_layer E flow)"; cases flow) (auto simp: accounted_flow_def view_split)
qed

lemma accounted_packet:
  assumes keep: "keeps_state E" and view: "keeps_view E" and cfg: "\<not> midstream E" "\<not> async_oneside E"
    and fresh: "fresh = None \<or> fresh = Some zero_session"
    and acc: "accounted_flow E h flow" and step: "StreamTcpPacket E fresh p flow = Some (r, flow', p', l)"
  shows "accounted_flow E (h @ [p]) flow'"
proof (cases flow)
  case None
  then obtain r0 f where none: "StreamTcpPacketStateNone E fresh p None = Some (r0, f, l)"
    "flow' = f \<or> flow' = snd (app_layer E f)"
    using step by (auto simp: StreamTcpPacket_def Let_def case_prod_unfold split: option.splits if_splits)
  have "accounted_flow E (h @ [p]) (Some (ssn (none_syn p \<lparr>ssn = zero_session\<lparr>tcp_st := TCP_NONE\<rparr>, log = [Session_counted]\<rparr>)))"
    if "is_syn p"
  proof -
    have "subseq [p] (h @ [p])" using subseq_take[of "[]" h p] by simp
    then show ?thesis
      using that none_states(1)[OF keep] unfolding accounted_flow_def option.case view_none_syn by auto
  qed
  then have "accounted_flow E (h @ [p]) f"
    using none(1) cfg fresh
    by (auto simp: StreamTcpPacketStateNone_def with_session_def StreamTcpNewSession_def Let_def accounted_flow_def is_syn_def
        split: if_splits)
  then show ?thesis using none(2) accounted_app_layer[OF view] by auto
next
  case (Some s)
  then have s: "tcp_st s \<noteq> TCP_NONE" "accounted E h (view s)" using acc by (simp_all add: accounted_flow_def)
  then have "\<not> has (sess_flags s) STREAMTCP_FLAG_MIDSTREAM_SYNACK"
    using accounted_view[OF s(2)] by (auto simp: view_def)
  moreover define w where "w = snd (state_handler E p \<lparr>ssn = s, log = []\<rparr>)"
  ultimately have "flow' = Some (ssn w) \<or> flow' = snd (app_layer E (Some (ssn w)))"
    using step Some s(1) by (auto simp: StreamTcpPacket_def Let_def case_prod_unfold split: if_splits)
  moreover have "accounted E (h @ [p]) (view (ssn w))"
    unfolding w_def using accounted_handler[OF keep view _ cfg(2), where w="\<lparr>ssn = s, log = []\<rparr>"] s(2) by simp
  moreover have "tcp_st (ssn w) \<noteq> TCP_NONE"
    using moves_state_handler[OF keep, of "\<lparr>ssn = s, log = []\<rparr>" p] s(1) edge_target[of "tcp_st s" TCP_NONE]
    by (auto simp: w_def moves_def steps_def)
  ultimately show ?thesis using accounted_app_layer[OF view] by (auto simp: accounted_flow_def)
qed

lemma accounted_run:
  assumes keep: "keeps_state E" and view: "keeps_view E" and cfg: "\<not> midstream E" "\<not> async_oneside E"
  shows "\<forall>(fresh, p) \<in> set ps. fresh = None \<or> fresh = Some zero_session \<Longrightarrow> accounted_flow E h flow \<Longrightarrow>
    run_packets E ps flow = Some (flow', l) \<Longrightarrow> accounted_flow E (h @ map snd ps) flow'"
proof (induction ps arbitrary: h flow l)
  case Nil
  then show ?case by simp
next
  case (Cons a ps)
  obtain fresh p where a: "a = (fresh, p)" by (cases a)
  obtain r flow1 p1 l1 l2 where step: "StreamTcpPacket E fresh p flow = Some (r, flow1, p1, l1)"
    and run: "run_packets E ps flow1 = Some (flow', l2)"
    using Cons.prems(3) by (auto simp: a split: option.splits)
  have "accounted_flow E (h @ [p]) flow1"
    using accounted_packet[OF keep view cfg _ Cons.prems(2) step] Cons.prems(1) by (simp add: a)
  then show ?case using Cons.IH[of "h @ [p]" flow1 l2] Cons.prems(1) run by (simp add: a)
qed

text \<open>Claim C2: Without midstream pickup and one-sided streams a session is established only by a handshake: whatever
  packets a flow has got, if its session is established then the packets contain, in this order, a \<open>SYN\<close>,
  a \<open>SYN/ACK\<close> from the other side that acknowledges it, and an \<open>ACK\<close> with the next sequence number, or the
  four packets of a handshake with two \<open>SYN\<close>s; in every state behind it other than closed there was at
  least the acknowledged \<open>SYN\<close>, and there is no session without a \<open>SYN\<close>.\<close>

theorem tcp_established_needs_handshake:
  assumes "keeps_state E" "keeps_view E" "\<not> midstream E" "\<not> async_oneside E"
    "\<forall>(fresh, p) \<in> set ps. fresh = None \<or> fresh = Some zero_session"
    "run_packets E ps None = Some (Some s, l)"
  shows "(\<exists>syn \<in> set (map snd ps). is_syn syn) \<and>
    (tcp_st s = TCP_ESTABLISHED \<longrightarrow> completed E (map snd ps)) \<and>
    (tcp_st s \<notin> {TCP_SYN_SENT, TCP_CLOSED} \<longrightarrow> answered E (map snd ps))"
proof -
  have "accounted_flow E (map snd ps) (Some s)"
    using accounted_run[OF assms(1-5), of "[]" None "Some s" l] assms(6) by (simp add: accounted_flow_def)
  then have acc: "accounted E (map snd ps) (view s)" by (simp add: accounted_flow_def)
  then obtain q n where v: "view s = (tcp_st s, (False, False, False, q), n)"
    using accounted_view[OF acc] by blast
  have syn: "\<exists>syn \<in> set (map snd ps). is_syn syn"
    using acc by (cases n) (auto simp: v subseq_singleton_left)
  consider "tcp_st s = TCP_SYN_SENT" | "tcp_st s = TCP_SYN_RECV" | "tcp_st s \<notin> {TCP_SYN_SENT, TCP_SYN_RECV}" by auto
  then show ?thesis
  proof cases
    case 1
    then show ?thesis using syn by simp
  next
    case 2
    then have "answered E (map snd ps)"
      using acc recv_answered[of E "map snd ps" False False False q "fst n" "fst (snd n)" "fst (snd (snd n))" "snd (snd (snd n))"]
      by (simp add: v)
    then show ?thesis using syn 2 by simp
  next
    case 3
    then show ?thesis using syn acc completed_answered by (auto simp: v accounted_late split: if_splits)
  qed
qed

lemma plain_engine_view: "keeps_view (plain_engine mid async)"
  by (simp add: keeps_view_def plain_engine_def)

lemma tcp_established_needs_handshake_witness:
  "\<exists>s l. run_packets (plain_engine False False) (take 3 whole_connection) None = Some (Some s, l) \<and>
    tcp_st s = TCP_ESTABLISHED \<and> completed (plain_engine False False) (map snd (take 3 whole_connection))"
proof -
  have "map_option (\<lambda>(flow, l). flow_st flow) (run_packets (plain_engine False False) (take 3 whole_connection) None) = Some TCP_ESTABLISHED"
    by code_simp
  then obtain s l where run: "run_packets (plain_engine False False) (take 3 whole_connection) None = Some (Some s, l)"
    "tcp_st s = TCP_ESTABLISHED"
    by (auto simp: flow_st_def split: option.splits)
  then show ?thesis
    using tcp_established_needs_handshake[OF plain_engine_keeps plain_engine_view _ _ _ run(1)]
    by (auto simp: plain_engine_def whole_connection_def)
qed

end
