(* ===== verification/StreamTcpChecks.thy ===== *)
theory StreamTcpChecks
  imports StreamTcpHandshake
begin

text \<open>
  The checks of the state machine: which packets are inside the window of a closing session, which resets close a session, and which timestamps are accepted.
\<close>

section \<open>The window of a closing session\<close>

lemma outside_window_iff:
  assumes "x = snd_stream d s" "ahead (next_seq x) (last_ack x + window x) < 2 ^ 31"
  shows "outside_window d p s \<longleftrightarrow> ahead (next_seq x) (last_ack x + window x) < ahead (next_seq x) (th_seq p)"
proof -
  define w where "w = last_ack x + window x - next_seq x"
  define y where "y = th_seq p - next_seq x"
  have w: "unat w < 2 ^ 31" using assms(2) by (simp add: w_def ahead_def)
  have "unat (w - y) = (if unat y \<le> unat w then unat w - unat y else 2 ^ 32 - (unat y - unat w))"
  proof (cases "unat y \<le> unat w")
    case True
    then show ?thesis by (simp add: unat_sub word_le_nat_alt)
  next
    case False
    then have "unat (y - w) = unat y - unat w" by (simp add: unat_sub word_le_nat_alt)
    moreover have "y - w \<noteq> 0" using False by auto
    ultimately show ?thesis using False unat_neg_u32[of "y - w"] by simp
  qed
  moreover have "last_ack x + window x - th_seq p = w - y" "next_seq x - th_seq p = - y"
    by (simp_all add: w_def y_def)
  ultimately have gt: "SEQ_GT (th_seq p) (last_ack x + window x) \<longleftrightarrow>
      2 ^ 31 < (if unat y \<le> unat w then unat w - unat y else 2 ^ 32 - (unat y - unat w))"
    and lt: "SEQ_LT (th_seq p) (next_seq x) \<longleftrightarrow> y \<noteq> 0 \<and> 2 ^ 31 \<le> unat y"
    using unat_bound[of y] by (auto simp: SEQ_ahead ahead_def unat_neg_u32 unat_gt_0)
  have "y \<noteq> 0" if "2 ^ 31 \<le> unat y" using that by auto
  then show ?thesis
    unfolding outside_window_def Let_def assms(1)[symmetric] gt lt
    using w unat_bound[of y] by (auto simp: ahead_def w_def[symmetric] y_def[symmetric] split: if_splits)
qed

lemma finwait2_fin_test_iff:
  assumes "next_seq (client s) \<noteq> 0"
  shows "finwait2_fin_test p s \<longleftrightarrow> th_seq p = 0 \<or> 2 ^ 31 < unat (th_seq p)"
proof -
  have "unat (1 - th_seq p) = (if th_seq p = 0 then 1 else if th_seq p = 1 then 0 else 2 ^ 32 + 1 - unat (th_seq p))"
  proof (cases "th_seq p = 0")
    case False
    then have "unat (th_seq p - 1) = unat (th_seq p) - 1" by (simp add: unat_minus_one)
    then show ?thesis using False unat_neg_u32[of "th_seq p - 1"] unat_gt_0[of "th_seq p"] by auto
  qed simp
  then show ?thesis
    using assms unat_bound[of "th_seq p"] by (auto simp: finwait2_fin_test_def SEQ_ahead ahead_def split: if_splits)
qed

text \<open>Which \<open>FIN\<close> closes a session: after the first \<open>FIN\<close> a second one is taken exactly when its sequence
  number is not before the next expected one and not beyond the window of the sender, counted modulo
  2^32; but after the acknowledgement of the first \<open>FIN\<close> one to the server is taken exactly when its number is
  from 1 to 2^31, whatever the window (a misplaced parenthesis).\<close>

theorem fin_window_checks:
  assumes "keeps_state E" "\<not> has (sess_flags (ssn w)) STREAMTCP_FLAG_TIMESTAMP"
    "ahead (next_seq (snd_stream (to_server E p) (ssn w)))
      (last_ack (snd_stream (to_server E p) (ssn w)) + window (snd_stream (to_server E p) (ssn w))) < 2 ^ 31"
    "next_seq (client (ssn w)) \<noteq> 0" "tcp_st (ssn w) \<noteq> TCP_TIME_WAIT"
  shows "(th_flags p \<in> fin_flags \<longrightarrow>
      (tcp_st (ssn (snd (StreamTcpPacketStateFinWait1 E p w))) = TCP_TIME_WAIT \<longleftrightarrow>
        ahead (next_seq (snd_stream (to_server E p) (ssn w))) (th_seq p) \<le>
          ahead (next_seq (snd_stream (to_server E p) (ssn w)))
            (last_ack (snd_stream (to_server E p) (ssn w)) + window (snd_stream (to_server E p) (ssn w))))) \<and>
    (th_flags p = TH_FIN \<and> to_server E p \<longrightarrow>
      (tcp_st (ssn (snd (StreamTcpPacketStateFinWait2 E p w))) = TCP_TIME_WAIT \<longleftrightarrow>
        1 \<le> unat (th_seq p) \<and> unat (th_seq p) \<le> 2 ^ 31))"
proof -
  have flags: "th_flags p \<notin> bare_ack_flags" "th_flags p \<notin> rst_flags" if "th_flags p \<in> fin_flags"
    using that by (auto simp: fin_flags_def bare_ack_flags_def rst_flags_def)
  have closes: "tcp_st (ssn (upd f (StreamTcpPacketSetState st w))) = st" if "\<And>s. tcp_st (f s) = tcp_st s"
    for f and st and w :: "'a work"
    using that by (simp add: upd_def)
  have fin: "TH_FIN \<notin> bare_ack_flags" "TH_FIN \<notin> rst_flags" by (simp_all add: bare_ack_flags_def rst_flags_def)
  have "1 \<le> unat (th_seq p) \<longleftrightarrow> th_seq p \<noteq> 0" using unat_gt_0[of "th_seq p"] by auto
  then show ?thesis
    using flags fin assms(2,5) outside_window_iff[OF refl assms(3)] finwait2_fin_test_iff[OF assms(4)]
    by (auto simp: StreamTcpPacketStateFinWait1_def StreamTcpPacketStateFinWait2_def Let_def ts_check_def closes st_simps assms(1))
qed

text \<open>A \<open>FIN\<close> far behind the window.\<close>

definition closing_session :: "tcp_state \<Rightarrow> nat work" where
  "closing_session st =
     \<lparr>ssn = zero_session\<lparr>tcp_st := st, client := zero_stream\<lparr>next_seq := 100, last_ack := 100, window := 1000\<rparr>\<rparr>, log = []\<rparr>"

lemma fin_window_checks_witness:
  "tcp_st (ssn (snd (StreamTcpPacketStateFinWait1 (plain_engine False False) (tcp_packet True TH_FIN 5000000 0)
      (closing_session TCP_FIN_WAIT2)))) \<noteq> TCP_TIME_WAIT \<and>
   tcp_st (ssn (snd (StreamTcpPacketStateFinWait2 (plain_engine False False) (tcp_packet True TH_FIN 5000000 0)
      (closing_session TCP_FIN_WAIT2)))) = TCP_TIME_WAIT"
proof -
  let ?p = "tcp_packet True TH_FIN 5000000 0" and ?w = "closing_session TCP_FIN_WAIT2"
  have "to_server (plain_engine False False) ?p" by (simp add: plain_engine_def tcp_packet_def FLOW_PKT_TOSERVER_def)
  moreover have "snd_stream True (ssn ?w) = zero_stream\<lparr>next_seq := 100, last_ack := 100, window := 1000\<rparr>"
    "client (ssn ?w) = zero_stream\<lparr>next_seq := 100, last_ack := 100, window := 1000\<rparr>"
    "sess_flags (ssn ?w) = 0" "tcp_st (ssn ?w) = TCP_FIN_WAIT2"
    by (simp_all add: snd_stream_def closing_session_def zero_session_def)
  moreover have "th_flags ?p = TH_FIN" "th_seq ?p = 5000000" "TH_FIN \<in> fin_flags"
    by (simp_all add: tcp_packet_def fin_flags_def)
  ultimately show ?thesis
    using fin_window_checks[OF plain_engine_keeps, of ?w False False ?p] by (simp add: has_def ahead_def)
qed

section \<open>Resets\<close>

lemma policy_on:
  "os_policy (rcv_stream d (on_snd d f s)) = os_policy (rcv_stream d s)"
  by (simp add: rcv_stream_def on_snd_def on_client_def on_server_def)

lemma policy_ValidTimestamp:
  assumes "os_policy (rcv_stream (to_server E p) s) \<noteq> 0"
  shows "os_policy (rcv_stream (to_server E p) (snd (ValidTimestamp E p s))) = os_policy (rcv_stream (to_server E p) s)"
proof -
  have flags: "rcv_stream d (s\<lparr>sess_flags := f\<rparr>) = rcv_stream d s" for d f and s :: "'a TcpSession"
    by (simp add: rcv_stream_def)
  have "os_policy (rcv_stream d (fst (zero_timestamp_case d p ts s))) = os_policy (rcv_stream d s)" for d ts and s :: "'a TcpSession"
    by (simp add: zero_timestamp_case_def Let_def policy_on flags)
  moreover have "os_policy (rcv_stream d (snd (check_timestamp d p ts s))) = os_policy (rcv_stream d s)" for d ts and s :: "'a TcpSession"
    by (simp add: check_timestamp_def Let_def policy_on)
  ultimately show ?thesis
    using assms by (simp add: ValidTimestamp_def timestamp_value_def Let_def flags split: option.split prod.split)
qed

lemma reset_in_window_core:
  assumes "core s = core s'"
  shows "reset_in_window d pol p s = reset_in_window d pol p s'"
  using core_stream_eqD[OF core_eqD(2)[OF assms]] core_stream_eqD[OF core_eqD(3)[OF assms]]
  by (simp add: reset_in_window_def snd_stream_def Let_def)

lemma ValidReset_value:
  assumes "os_policy (rcv_stream (to_server E p) s) \<noteq> 0"
  shows "fst (ValidReset E p s) \<noteq> 0 \<longleftrightarrow>
    has (sess_flags s) STREAMTCP_FLAG_TIMESTAMP \<and> fst (ValidTimestamp E p s) = 0 \<or>
    reset_in_window (to_server E p) (os_policy (rcv_stream (to_server E p) s)) p s"
  using assms policy_ValidTimestamp[OF assms] reset_in_window_core[OF core_ValidTimestamp[of E p s]]
  by (simp add: ValidReset_def Let_def)

text \<open>Which reset closes an established session: one that the policy of the receiver's system accepts - the
  next expected sequence number exactly, for HP-UX 11 that or a later one, for Linux and Solaris one whose end is not
  before the last acknowledgement and that starts before the end of the window - and also every reset whose timestamp
  is refused, whatever its sequence number, because the return value -1 of \<open>ValidReset\<close> counts as true.\<close>

theorem reset_closes_established:
  assumes "keeps_state E" "tcp_st (ssn w) = TCP_ESTABLISHED" "th_flags p \<in> rst_flags"
    "x = snd_stream (to_server E p) (ssn w)" "pol = os_policy (rcv_stream (to_server E p) (ssn w))" "pol \<noteq> 0"
  shows "tcp_st (ssn (snd (StreamTcpPacketStateEstablished E p w))) = TCP_CLOSED \<longleftrightarrow>
    has (sess_flags (ssn w)) STREAMTCP_FLAG_TIMESTAMP \<and> fst (ValidTimestamp E p (ssn w)) = 0 \<or>
    (if pol = OS_POLICY_HPUX11 then \<not> SEQ_LT (th_seq p) (next_seq x)
     else if pol \<in> {OS_POLICY_OLD_LINUX, OS_POLICY_LINUX, OS_POLICY_SOLARIS} then
       \<not> SEQ_LT (th_seq p + ucast (pay_len p)) (last_ack x) \<and> SEQ_LT (th_seq p) (next_seq x + window x)
     else th_seq p = next_seq x)"
proof -
  have flags: "th_flags p \<notin> syn_flags" "th_flags p \<notin> synack_flags" "th_flags p \<notin> ack_flags" "th_flags p \<notin> fin_flags"
    using assms(3) by (auto simp: rst_flags_def syn_flags_def synack_flags_def ack_flags_def fin_flags_def)
  have free: "tcp_st (ssn (StreamTcpSessionPktFree w')) = tcp_st (ssn w')" for w' :: "'a work"
    by (simp add: StreamTcpSessionPktFree_def st_simps)
  have "tcp_st (ssn (snd (StreamTcpPacketStateEstablished E p w))) = TCP_CLOSED \<longleftrightarrow> fst (ValidReset E p (ssn w)) \<noteq> 0"
    using flags assms(2,3)
    by (simp add: StreamTcpPacketStateEstablished_def case_prod_unfold free upd_def st_simps assms(1))
  also have "\<dots> \<longleftrightarrow> has (sess_flags (ssn w)) STREAMTCP_FLAG_TIMESTAMP \<and> fst (ValidTimestamp E p (ssn w)) = 0 \<or>
      reset_in_window (to_server E p) pol p (ssn w)"
    using ValidReset_value[of E p "ssn w"] assms(5,6) by simp
  also have "reset_in_window (to_server E p) pol p (ssn w) \<longleftrightarrow>
    (if pol = OS_POLICY_HPUX11 then \<not> SEQ_LT (th_seq p) (next_seq x)
     else if pol \<in> {OS_POLICY_OLD_LINUX, OS_POLICY_LINUX, OS_POLICY_SOLARIS} then
       \<not> SEQ_LT (th_seq p + ucast (pay_len p)) (last_ack x) \<and> SEQ_LT (th_seq p) (next_seq x + window x)
     else th_seq p = next_seq x)"
    by (simp add: reset_in_window_def Let_def assms(4)[symmetric] sequence_geq SEQ_EQ_iff)
  finally show ?thesis .
qed

text \<open>An established session with timestamps: the client has sent the timestamp 1000; the server runs Windows.\<close>

definition timestamp_session :: "nat work" where
  "timestamp_session =
     \<lparr>ssn = zero_session\<lparr>tcp_st := TCP_ESTABLISHED, sess_flags := STREAMTCP_FLAG_TIMESTAMP,
        client := zero_stream\<lparr>next_seq := 100, last_ts := 1000, os_policy := OS_POLICY_WINDOWS\<rparr>,
        server := zero_stream\<lparr>os_policy := OS_POLICY_WINDOWS\<rparr>\<rparr>, log = []\<rparr>"

lemma timestamp_session_simps:
  "snd_stream True (ssn timestamp_session) = zero_stream\<lparr>next_seq := 100, last_ts := 1000, os_policy := OS_POLICY_WINDOWS\<rparr>"
  "rcv_stream True (ssn timestamp_session) = zero_stream\<lparr>os_policy := OS_POLICY_WINDOWS\<rparr>"
  "tcp_st (ssn timestamp_session) = TCP_ESTABLISHED" "sess_flags (ssn timestamp_session) = STREAMTCP_FLAG_TIMESTAMP"
  by (simp_all add: timestamp_session_def snd_stream_def rcv_stream_def zero_session_def)

lemma plain_to_server: "to_server (plain_engine mid async) (tcp_packet True f s a) = True"
  "to_server (plain_engine mid async) ((tcp_packet True f s a)\<lparr>ts_opt := t\<rparr>) = True"
  by (simp_all add: plain_engine_def tcp_packet_def FLOW_PKT_TOSERVER_def)

lemma reset_closes_established_witness:
  "tcp_st (ssn (snd (StreamTcpPacketStateEstablished (plain_engine False False)
      ((tcp_packet True TH_RST 777777 0)\<lparr>ts_opt := Some (1, 0)\<rparr>) timestamp_session))) = TCP_CLOSED"
proof -
  let ?E = "plain_engine False False" and ?p = "(tcp_packet True TH_RST 777777 0)\<lparr>ts_opt := Some (1, 0)\<rparr>"
  have "fst (ValidTimestamp ?E ?p (ssn timestamp_session)) = 0" by code_simp
  moreover have "has STREAMTCP_FLAG_TIMESTAMP STREAMTCP_FLAG_TIMESTAMP" by (simp add: has_def flag_values)
  moreover have "th_flags ?p \<in> rst_flags" by (simp add: tcp_packet_def rst_flags_def)
  ultimately show ?thesis
    using reset_closes_established[OF plain_engine_keeps, of timestamp_session ?p _ False False]
    by (simp add: plain_to_server timestamp_session_simps OS_POLICY_WINDOWS_def zero_stream_def)
qed

section \<open>Timestamps\<close>

text \<open>Claim C21: Protection against old segments. The system of the receiver is known (\<open>pol\<close> is not 0) and the
  handshake did not use the timestamp 0. A packet with the timestamp 0 is refused unless the system allows it.
  HP-UX 11 ignores the timestamp of a packet that is not the next in order. Otherwise a packet is accepted
  exactly when its timestamp (for Linux, the one after it) is not before the last one, and the sender not silent
  for 24 days if it has used timestamps before, or when it is the next in order after such a silence; in
  midstream the first packet counts as the start of the silence. The whole effect is this: an accepted packet
  records its time, and its timestamp if it is the next in order; a refused one only sets the time that is
  missing in midstream; without a timestamp option the packet is accepted, and Solaris stops using timestamps.\<close>

theorem valid_timestamp_paws:
  assumes "d = to_server E p" "x = snd_stream d s" "pol = os_policy (rcv_stream d s)" "pol \<noteq> 0"
    "\<not> has (sflags x) STREAMTCP_FLAG_ZERO_TIMESTAMP"
    "seen = (if last_pkt_ts x = 0 \<and> has (sess_flags s) STREAMTCP_FLAG_MIDSTREAM then tv_sec p else last_pkt_ts x)"
    "idle \<longleftrightarrow> seen + PAWS_24DAYS < tv_sec p" "inorder \<longleftrightarrow> th_seq p = next_seq x"
  shows "ValidTimestamp E p s =
    (case ts_opt p of
       None \<Rightarrow> (1, if pol = OS_POLICY_SOLARIS then s\<lparr>sess_flags := clr_flag STREAMTCP_FLAG_TIMESTAMP (sess_flags s)\<rparr> else s)
     | Some (ts, e) \<Rightarrow>
         if ts = 0 \<and> pol \<notin> {OS_POLICY_OLD_LINUX, OS_POLICY_WINDOWS, OS_POLICY_WINDOWS2K3, OS_POLICY_VISTA,
           OS_POLICY_SOLARIS} then (0, s)
         else if pol = OS_POLICY_HPUX11 \<and> \<not> inorder then (1, s)
         else if \<not> SEQ_LT (if pol = OS_POLICY_LINUX then ts + 1 else ts) (last_ts x) \<and> (last_ts x = 0 \<or> \<not> idle) \<or>
           inorder \<and> idle
         then (1, on_snd d (\<lambda>x. x\<lparr>last_ts := (if inorder then ts else last_ts x), last_pkt_ts := tv_sec p\<rparr>) s)
         else (0, on_snd d (\<lambda>x. x\<lparr>last_pkt_ts := seen\<rparr>) s))"
proof (cases "ts_opt p")
  case None
  then show ?thesis using assms(1,3,4) by (simp add: ValidTimestamp_def Let_def)
next
  case (Some te)
  obtain ts e where te: "te = (ts, e)" by fastforce
  define s1 where "s1 = on_snd d (\<lambda>x. x\<lparr>last_pkt_ts := seen\<rparr>) s"
  have upd: "snd_stream d (on_snd d f s) = f (snd_stream d s)" for f and s :: "'a TcpSession"
    by (simp add: snd_stream_def on_snd_def on_client_def on_server_def)
  have twice: "on_snd d f (on_snd d g s) = on_snd d (\<lambda>x. f (g x)) s" for f g and s :: "'a TcpSession"
    by (simp add: on_snd_def on_client_def on_server_def)
  have "on_snd d (\<lambda>x. x\<lparr>last_pkt_ts := last_pkt_ts (snd_stream d s)\<rparr>) s = s"
    by (simp add: on_snd_def on_client_def on_server_def snd_stream_def)
  then have mid: "(if last_pkt_ts x = 0 \<and> has (sess_flags s) STREAMTCP_FLAG_MIDSTREAM
      then on_snd d (\<lambda>x. x\<lparr>last_pkt_ts := tv_sec p\<rparr>) s else s) = s1"
    using assms(2,6) by (auto simp: s1_def)
  have old: "(if pol = OS_POLICY_LINUX then sint ((ts - last_ts x) + 1) else sint (ts - last_ts x)) < 0 \<longleftrightarrow>
      SEQ_LT (if pol = OS_POLICY_LINUX then ts + 1 else ts) (last_ts x)"
    by (simp add: SEQ_LT_def algebra_simps)
  have check: "check_timestamp d p ts s =
      (if \<not> SEQ_LT (if pol = OS_POLICY_LINUX then ts + 1 else ts) (last_ts x) \<and> (last_ts x = 0 \<or> \<not> idle) \<or> inorder \<and> idle
       then (1, on_snd d (\<lambda>x. x\<lparr>last_ts := (if inorder then ts else last_ts x), last_pkt_ts := tv_sec p\<rparr>) s)
       else (0, s1))"
  proof -
    have x1: "snd_stream d s1 = x\<lparr>last_pkt_ts := seen\<rparr>" using assms(2) by (simp add: s1_def upd)
    have k: "on_snd d (\<lambda>y. y\<lparr>last_ts := v, last_pkt_ts := u\<rparr>) s1 = on_snd d (\<lambda>y. y\<lparr>last_ts := v, last_pkt_ts := u\<rparr>) s"
      "on_snd d (\<lambda>y. y\<lparr>last_pkt_ts := u\<rparr>) s1 = on_snd d (\<lambda>y. y\<lparr>last_pkt_ts := u\<rparr>) s" for v u
      by (simp_all add: s1_def twice)
    have keep: "on_snd d (\<lambda>y. y\<lparr>last_ts := last_ts x, last_pkt_ts := u\<rparr>) s = on_snd d (\<lambda>y. y\<lparr>last_pkt_ts := u\<rparr>) s" for u
      using assms(2) by (simp add: on_snd_def on_client_def on_server_def snd_stream_def)
    show ?thesis
      unfolding check_timestamp_def Let_def assms(2)[symmetric] assms(3)[symmetric] mid x1 old
      using assms(7,8) by (auto simp: SEQ_EQ_iff k keep)
  qed
  have ord: "SEQ_EQ (next_seq x) (th_seq p) \<longleftrightarrow> inorder" using assms(8) by (auto simp: SEQ_EQ_iff)
  have "timestamp_value d p ts s =
      (if ts = 0 \<and> pol \<notin> {OS_POLICY_OLD_LINUX, OS_POLICY_WINDOWS, OS_POLICY_WINDOWS2K3, OS_POLICY_VISTA,
         OS_POLICY_SOLARIS} then (0, s)
       else if pol = OS_POLICY_HPUX11 \<and> \<not> inorder then (1, s) else check_timestamp d p ts s)"
    unfolding timestamp_value_def Let_def assms(2)[symmetric] assms(3)[symmetric] if_not_P[OF assms(5)] fst_conv snd_conv ord
    by (auto simp only: if_True if_False split: if_splits)
  moreover have "ValidTimestamp E p s = timestamp_value d p ts s"
    unfolding ValidTimestamp_def Let_def assms(1)[symmetric] assms(3)[symmetric] if_not_P[OF assms(4)] Some te by simp
  ultimately show ?thesis unfolding Some te option.case prod.case check s1_def by (simp only:)
qed

lemma valid_timestamp_paws_witness:
  "fst (ValidTimestamp (plain_engine False False) ((tcp_packet True TH_ACK 100 0)\<lparr>ts_opt := Some (1005, 0)\<rparr>)
      (ssn timestamp_session)) = 1 \<and>
   fst (ValidTimestamp (plain_engine False False) ((tcp_packet True TH_ACK 100 0)\<lparr>ts_opt := Some (995, 0)\<rparr>)
      (ssn timestamp_session)) = 0"
proof -
  let ?p = "\<lambda>t. (tcp_packet True TH_ACK 100 0)\<lparr>ts_opt := Some (t, 0)\<rparr>"
  have p: "th_seq (?p t) = 100" "tv_sec (?p t) = 0" "ts_opt (?p t) = Some (t, 0)" for t
    by (simp_all add: tcp_packet_def)
  have "\<not> SEQ_LT 1005 1000" "SEQ_LT 995 1000" by (simp_all add: SEQ_ahead ahead_def)
  then show ?thesis
    using valid_timestamp_paws[OF refl refl refl _ _ refl refl refl, of "plain_engine False False" "?p 1005" "ssn timestamp_session"]
      valid_timestamp_paws[OF refl refl refl _ _ refl refl refl, of "plain_engine False False" "?p 995" "ssn timestamp_session"]
    unfolding plain_to_server p timestamp_session_simps
    by (simp add: zero_stream_def has_def flag_values PAWS_24DAYS_def
        OS_POLICY_WINDOWS_def OS_POLICY_LINUX_def OS_POLICY_HPUX11_def)
qed

end
