(* ===== verification/StreamTcpSegments.thy ===== *)
theory StreamTcpSegments
  imports StreamTcpSession LinkedQueues Pool
begin

text \<open>
  The segments of a TCP stream (\<open>src/stream-tcp-reassemble.c\<close>): the memory accounting of the stream engine,
  the segment pools, and the insertion of a segment into the list of its stream by the overlap policy of the
  receiver. Segments live in a memory of nodes; their list pointers are a store of theory LinkedQueues. The
  value \<open>None\<close> of a definition is an access outside a payload buffer or to memory that is not allocated.
\<close>

section \<open>Segments and memory\<close>

record TcpSegment =
  payload :: bytes
  payload_len :: u16
  pool_size :: u16
  sg_seq :: u32
  sg_flags :: u8

text \<open>
  What the engine is started with: the limit \<open>stream_config.memcap\<close>, which calls of \<open>SCMalloc\<close> succeed, what
  fresh memory holds, and \<open>sizeof(TcpSegment)\<close>. The \<open>n\<close>-th call of \<open>SCMalloc\<close> returns the address \<open>n\<close>.
\<close>

record seg_env =
  memcap :: u32
  malloc_ok :: "nat \<Rightarrow> bool"
  junk :: "addr \<Rightarrow> nat \<Rightarrow> u8"
  sizeof_seg :: u32

record seg_mem =
  sg :: "addr \<Rightarrow> TcpSegment option"
  sg_links :: store
  n_mallocs :: nat
  stream_memuse :: u32
  stream_memuse_max :: u32

definition StreamTcpIncrMemuse :: "u32 \<Rightarrow> seg_mem \<Rightarrow> seg_mem" where
  "StreamTcpIncrMemuse sz m =
     (let used = stream_memuse m + sz in
      m\<lparr>stream_memuse := used, stream_memuse_max := (if used > stream_memuse_max m then used else stream_memuse_max m)\<rparr>)"

definition StreamTcpDecrMemuse :: "u32 \<Rightarrow> seg_mem \<Rightarrow> seg_mem" where
  "StreamTcpDecrMemuse sz m =
     m\<lparr>stream_memuse := (if sz \<le> stream_memuse m then stream_memuse m - sz else 0)\<rparr>"

definition StreamTcpCheckMemcap :: "seg_env \<Rightarrow> u32 \<Rightarrow> seg_mem \<Rightarrow> bool" where
  "StreamTcpCheckMemcap env sz m \<longleftrightarrow> sz + stream_memuse m \<le> memcap env"

text \<open>The callbacks of the pools: one \<open>SCMalloc\<close> for the segment and one for its payload.\<close>

definition TcpSegmentPoolAlloc :: "seg_env \<Rightarrow> u16 \<Rightarrow> seg_mem \<Rightarrow> addr option \<times> seg_mem" where
  "TcpSegmentPoolAlloc env len m =
     (if \<not> StreamTcpCheckMemcap env (sizeof_seg env + ucast len) m then (None, m)
      else
        let a = n_mallocs m in
        if \<not> malloc_ok env a then (None, m\<lparr>n_mallocs := a + 1\<rparr>)
        else if \<not> malloc_ok env (a + 1) then (None, m\<lparr>n_mallocs := a + 2\<rparr>)
        else
          (Some a,
           StreamTcpIncrMemuse (ucast len + sizeof_seg env)
             (m\<lparr>n_mallocs := a + 2,
                sg := (sg m)(a \<mapsto> \<lparr>payload = map (junk env a) [0..<unat len], payload_len = len, pool_size = len,
                                sg_seq = 0, sg_flags = 0\<rparr>),
                sg_links := (sg_links m)(a := \<lparr>n_next = None, n_prev = None\<rparr>)\<rparr>)))"

definition TcpSegmentPoolFree :: "seg_env \<Rightarrow> addr option \<Rightarrow> seg_mem \<Rightarrow> seg_mem" where
  "TcpSegmentPoolFree env p m =
     (case p of
        None \<Rightarrow> m
      | Some a \<Rightarrow>
          (case sg m a of
             None \<Rightarrow> m
           | Some s \<Rightarrow> (StreamTcpDecrMemuse (ucast (pool_size s) + sizeof_seg env) m)\<lparr>sg := (sg m)(a := None)\<rparr>))"

section \<open>The segment pools\<close>

definition segment_pool_pktsizes :: "u16 list" where
  "segment_pool_pktsizes = [4, 16, 112, 248, 512, 768, 1448, 0xffff]"

definition segment_pool_poolsizes :: "u32 list" where
  "segment_pool_poolsizes = [0, 0, 0, 0, 0, 0, 0, 0]"

definition segment_pool_poolsizes_prealloc :: "u32 list" where
  "segment_pool_poolsizes_prealloc = [256, 512, 512, 512, 512, 1024, 1024, 128]"

type_synonym seg_pool = "(u16, addr, seg_mem) Pool"

record seg_state =
  segment_pool :: "nat \<Rightarrow> seg_pool"
  mem :: seg_mem

text \<open>The table from a length to its pool: one pass of the loop for every index.\<close>

definition segment_pool_idx_step :: "nat \<Rightarrow> nat \<times> nat list \<Rightarrow> nat \<times> nat list" where
  "segment_pool_idx_step idx s =
     (case s of (k, table) \<Rightarrow>
        if idx \<le> unat (segment_pool_pktsizes ! k) then
          (if unat (segment_pool_pktsizes ! k) = idx then k + 1 else k, table[idx := k])
        else (k, table))"

definition segment_pool_idx :: "u16 \<Rightarrow> nat" where
  "segment_pool_idx len = snd (fold segment_pool_idx_step [0..<65536] (0, replicate 65536 0)) ! unat len"

text \<open>The creation of pool \<open>i\<close>; \<open>mok i\<close> tells which calls of \<open>SCMalloc\<close> for its buckets succeed.\<close>

definition segment_pool_init :: "seg_env \<Rightarrow> (nat \<Rightarrow> nat \<Rightarrow> bool) \<Rightarrow> seg_state \<Rightarrow> nat \<Rightarrow> seg_state option" where
  "segment_pool_init env mok st i = do {
     (p, m) \<leftarrow> PoolInit (mok i) (segment_pool_poolsizes ! i) (segment_pool_poolsizes_prealloc ! i)
                 (Some (TcpSegmentPoolAlloc env)) (segment_pool_pktsizes ! i) (Some (TcpSegmentPoolFree env)) (mem st);
     Some (st\<lparr>segment_pool := (segment_pool st)(i := p), mem := m\<rparr>)
   }"

definition StreamTcpReassembleInit :: "seg_env \<Rightarrow> (nat \<Rightarrow> nat \<Rightarrow> bool) \<Rightarrow> seg_state \<Rightarrow> seg_state option" where
  "StreamTcpReassembleInit env mok st = for_each (segment_pool_init env mok) st [0..<8]"

definition StreamTcpGetSegment :: "u16 \<Rightarrow> seg_state \<Rightarrow> addr option \<times> seg_state" where
  "StreamTcpGetSegment len st =
     (let idx = segment_pool_idx len in
      case PoolGet (segment_pool st idx, mem st) of
        (r, p, m) \<Rightarrow> (r, st\<lparr>segment_pool := (segment_pool st)(idx := p), mem := m\<rparr>))"

definition StreamTcpSegmentReturntoPool :: "addr \<Rightarrow> seg_state \<Rightarrow> seg_state option" where
  "StreamTcpSegmentReturntoPool a st = do {
     s \<leftarrow> sg (mem st) a;
     let m = (mem st)\<lparr>sg_links := set_prev a None (set_next a None (sg_links (mem st)))\<rparr>;
     let idx = segment_pool_idx (pool_size s);
     let r = PoolReturn (Some a) (segment_pool st idx, m);
     Some (st\<lparr>segment_pool := (segment_pool st)(idx := fst r), mem := snd r\<rparr>)
   }"

section \<open>Copying payloads\<close>

definition get_byte :: "addr \<Rightarrow> nat \<Rightarrow> seg_mem \<Rightarrow> u8 option" where
  "get_byte a i m = do { s \<leftarrow> sg m a; rd8 (payload s) i }"

definition put_byte :: "addr \<Rightarrow> nat \<Rightarrow> u8 \<Rightarrow> seg_mem \<Rightarrow> seg_mem option" where
  "put_byte a i v m = do {
     s \<leftarrow> sg m a;
     if i < length (payload s) then Some (m\<lparr>sg := (sg m)(a \<mapsto> s\<lparr>payload := (payload s)[i := v]\<rparr>)\<rparr>) else None
   }"

lemma SEQ_LT_measure: "SEQ_LT i stop \<Longrightarrow> unat (stop - (i + 1)) < unat (stop - i)"
proof -
  assume "SEQ_LT i stop"
  then have ne: "stop - i \<noteq> 0" by (auto simp: SEQ_LT_def)
  then have "unat (stop - i - 1) < unat (stop - i)" by (metis lessI unat_nonzero_Suc)
  then show ?thesis by (simp add: algebra_simps)
qed

text \<open>The two loops; the first one also stops when it has passed the length of the destination.\<close>

function replace_loop :: "addr \<Rightarrow> addr \<Rightarrow> u32 \<Rightarrow> u32 \<Rightarrow> u16 \<Rightarrow> u16 \<Rightarrow> seg_mem \<Rightarrow> seg_mem option" where
  "replace_loop dst src i stop dst_pos s_cnt m =
     (if SEQ_LT i stop then do {
        d \<leftarrow> sg m dst;
        if dst_pos > payload_len d then Some m
        else do {
          v \<leftarrow> get_byte src (unat s_cnt) m;
          m' \<leftarrow> put_byte dst (unat dst_pos) v m;
          replace_loop dst src (i + 1) stop (dst_pos + 1) (s_cnt + 1) m'
        }
      } else Some m)"
  by pat_completeness auto

termination by (relation "measure (\<lambda>(_, _, i, stop, _). unat (stop - i))") (auto intro: SEQ_LT_measure)

declare replace_loop.simps [simp del]

function copy_loop :: "addr \<Rightarrow> addr \<Rightarrow> u32 \<Rightarrow> u32 \<Rightarrow> u16 \<Rightarrow> u16 \<Rightarrow> seg_mem \<Rightarrow> seg_mem option" where
  "copy_loop dst src i stop dst_pos src_pos m =
     (if SEQ_LT i stop then do {
        v \<leftarrow> get_byte src (unat src_pos) m;
        m' \<leftarrow> put_byte dst (unat dst_pos) v m;
        copy_loop dst src (i + 1) stop (dst_pos + 1) (src_pos + 1) m'
      } else Some m)"
  by pat_completeness auto

termination by (relation "measure (\<lambda>(_, _, i, stop, _). unat (stop - i))") (auto intro: SEQ_LT_measure)

declare copy_loop.simps [simp del]

text \<open>Without debug logging. The source is read from its first byte, wherever \<open>start\<close> is in it.\<close>

definition StreamTcpSegmentDataReplace :: "addr \<Rightarrow> addr \<Rightarrow> u32 \<Rightarrow> u16 \<Rightarrow> seg_mem \<Rightarrow> seg_mem option" where
  "StreamTcpSegmentDataReplace dst src start len m = do {
     d \<leftarrow> sg m dst;
     let dst_pos = (if SEQ_GT start (sg_seq d) then ucast (start - sg_seq d)
                    else if SEQ_LT (sg_seq d) start then ucast (sg_seq d - start) else (0 :: u16));
     if int (unat len + unat dst_pos) - 1 > int (unat (payload_len d)) then Some m
     else replace_loop dst src start (start + ucast len) dst_pos 0 m
   }"

definition StreamTcpSegmentDataCopy :: "addr \<Rightarrow> addr \<Rightarrow> seg_mem \<Rightarrow> seg_mem option" where
  "StreamTcpSegmentDataCopy dst src m = do {
     d \<leftarrow> sg m dst;
     s \<leftarrow> sg m src;
     let dst_pos = (if SEQ_GT (sg_seq s) (sg_seq d) then ucast (sg_seq s - sg_seq d) else ucast (sg_seq d - sg_seq s) :: u16);
     copy_loop dst src (sg_seq s) (sg_seq s + ucast (payload_len s)) dst_pos 0 m
   }"

section \<open>The list of a stream\<close>

text \<open>The members of \<open>TcpStream\<close> that insertion uses.\<close>

record seg_stream =
  seg_head :: "addr option"
  seg_tail :: "addr option"
  seg_policy :: u8

type_synonym insertion = "(int \<times> seg_stream \<times> seg_state) option"

definition seg_end :: "TcpSegment \<Rightarrow> u32" where
  "seg_end s = sg_seq s + ucast (payload_len s)"

definition deref :: "addr option \<Rightarrow> seg_mem \<Rightarrow> TcpSegment option option" where
  "deref p m = (case p of None \<Rightarrow> Some None | Some a \<Rightarrow> map_option Some (sg m a))"

definition upd_mem :: "(seg_mem \<Rightarrow> seg_mem option) \<Rightarrow> seg_state \<Rightarrow> seg_state option" where
  "upd_mem f st = map_option (\<lambda>m. st\<lparr>mem := m\<rparr>) (f (mem st))"

definition upd_links :: "(store \<Rightarrow> store) \<Rightarrow> seg_state \<Rightarrow> seg_state" where
  "upd_links f st = st\<lparr>mem := (mem st)\<lparr>sg_links := f (sg_links (mem st))\<rparr>\<rparr>"

definition next_of :: "addr \<Rightarrow> seg_state \<Rightarrow> addr option" where
  "next_of a st = n_next (sg_links (mem st) a)"

definition prev_of :: "addr \<Rightarrow> seg_state \<Rightarrow> addr option" where
  "prev_of a st = n_prev (sg_links (mem st) a)"

text \<open>Which end comes first, where the code sets one of \<open>end_before\<close>, \<open>end_same\<close>, \<open>end_after\<close>, or none.\<close>

datatype seg_ends = Ends_before | Ends_same | Ends_after | Ends_apart

text \<open>A new segment from the pool with its length, sequence number and links.\<close>

definition place_segment :: "addr \<Rightarrow> u16 \<Rightarrow> u32 \<Rightarrow> addr option \<Rightarrow> addr option \<Rightarrow> seg_state \<Rightarrow> seg_state option" where
  "place_segment a len n nx pv st = do {
     s \<leftarrow> sg (mem st) a;
     Some (st\<lparr>mem := (mem st)\<lparr>sg := (sg (mem st))(a \<mapsto> s\<lparr>payload_len := len, sg_seq := n\<rparr>),
                sg_links := set_prev a pv (set_next a nx (sg_links (mem st)))\<rparr>\<rparr>)
   }"

section \<open>A segment that starts before one of the list\<close>

text \<open>
  A longer segment takes the place of \<open>list_seg\<close>: it gets the data of \<open>list_seg\<close> and pieces of \<open>seg\<close> (where
  they start and how long they are), \<open>list_seg\<close> goes back to the pool. The result is the address of the new
  segment, or \<open>None\<close> when the pool is empty.
\<close>

definition swap_segment :: "addr \<Rightarrow> addr \<Rightarrow> u16 \<Rightarrow> u32 \<Rightarrow> (u32 \<times> u16) list \<Rightarrow> seg_stream \<Rightarrow> seg_state
    \<Rightarrow> (addr option \<times> seg_stream \<times> seg_state) option" where
  "swap_segment list_seg seg len n pieces stream st =
     (case StreamTcpGetSegment len st of
        (None, st) \<Rightarrow> Some (None, stream, st)
      | (Some a, st) \<Rightarrow> do {
          let nx = next_of list_seg st;
          let pv = prev_of list_seg st;
          st \<leftarrow> place_segment a len n nx pv st;
          st \<leftarrow> upd_mem (StreamTcpSegmentDataCopy a list_seg) st;
          st \<leftarrow> for_each (\<lambda>st (start, len). upd_mem (StreamTcpSegmentDataReplace a seg start len) st) st pieces;
          let stream = (if seg_tail stream = Some list_seg then stream\<lparr>seg_tail := Some a\<rparr> else stream);
          st \<leftarrow> StreamTcpSegmentReturntoPool list_seg st;
          let st = upd_links (\<lambda>l. set_prev_opt nx (Some a) (set_next_opt pv (Some a) l)) st;
          Some (Some a, stream, st)
        })"

definition before_ends :: "TcpSegment \<Rightarrow> TcpSegment \<Rightarrow> seg_ends" where
  "before_ends l s =
     (if SEQ_GT (seg_end s) (sg_seq l) \<and> SEQ_LT (seg_end s) (seg_end l) then Ends_before
      else if SEQ_EQ (seg_end s) (seg_end l) then Ends_same
      else if SEQ_GT (seg_end s) (seg_end l) then Ends_after
      else Ends_apart)"

definition before_overlap :: "TcpSegment \<Rightarrow> TcpSegment \<Rightarrow> u16" where
  "before_overlap l s =
     (case before_ends l s of
        Ends_before \<Rightarrow> ucast (seg_end s - sg_seq l)
      | Ends_apart \<Rightarrow> 0
      | _ \<Rightarrow> payload_len l)"

text \<open>
  Whether a longer segment is made, with its length, its sequence number and the pieces of \<open>seg\<close>, and
  \<open>return_after\<close>. First for a segment \<open>l\<close> at the head of the list, then after a segment \<open>pv\<close>.
\<close>

definition before_head :: "TcpSegment \<Rightarrow> TcpSegment \<Rightarrow> TcpSegment option
    \<Rightarrow> (u16 \<times> u32 \<times> (u32 \<times> u16) list) option \<times> bool" where
  "before_head l s nx =
     (let more = before_ends l s = Ends_after \<and> (case nx of None \<Rightarrow> False | Some x \<Rightarrow> SEQ_LT (sg_seq x) (seg_end s));
          len = (if more then ucast (sg_seq l - sg_seq s) + payload_len l
                 else payload_len s + (payload_len l - before_overlap l s))
      in (Some (len, sg_seq s,
            (sg_seq s, ucast (sg_seq l - sg_seq s)) #
            (if SEQ_GT (seg_end s) (seg_end l) \<and> \<not> more then [(seg_end l, ucast (seg_end s - seg_end l))] else [])),
          \<not> more))"

definition before_inner :: "TcpSegment \<Rightarrow> TcpSegment \<Rightarrow> TcpSegment \<Rightarrow> TcpSegment option
    \<Rightarrow> (u16 \<times> u32 \<times> (u32 \<times> u16) list) option \<times> bool" where
  "before_inner l s pv nx =
     (let start = (if SEQ_GT (seg_end pv) (sg_seq s) then seg_end pv else sg_seq s) in
      case before_ends l s of
        Ends_after \<Rightarrow>
          if (case nx of None \<Rightarrow> True | Some x \<Rightarrow> SEQ_LEQ (seg_end s) (sg_seq x)) then
            (let len = (if SEQ_GT (sg_seq s) (seg_end pv) then payload_len l + ucast (sg_seq l - sg_seq s)
                        else payload_len l + ucast (sg_seq l - seg_end pv)) + ucast (seg_end s - seg_end l)
             in (Some (len, start, [(start, ucast (sg_seq l - start)), (seg_end l, ucast (seg_end s - seg_end l))]), True))
          else (None, False)
      | Ends_apart \<Rightarrow> (None, False)
      | _ \<Rightarrow>
          if SEQ_GT (sg_seq l) (seg_end pv) then
            (let len = (if SEQ_LT (sg_seq pv) (sg_seq s) then payload_len l + ucast (sg_seq l - sg_seq s)
                        else payload_len l + ucast (sg_seq l - seg_end pv))
             in (Some (len, start, [(seg_end pv, ucast (sg_seq l - sg_seq s))]), False))
          else (None, False))"

definition OS_POLICY_FIRST :: u8 where "OS_POLICY_FIRST = 15"
definition OS_POLICY_LAST :: u8 where "OS_POLICY_LAST = 16"

definition before_replaces :: "u8 \<Rightarrow> seg_ends \<Rightarrow> bool" where
  "before_replaces pol e =
     (if pol = OS_POLICY_SOLARIS \<or> pol = OS_POLICY_HPUX11 then e = Ends_after \<or> e = Ends_same
      else pol \<noteq> OS_POLICY_VISTA \<and> pol \<noteq> OS_POLICY_FIRST)"

definition HandleSegmentStartsBeforeListSegment :: "seg_stream \<Rightarrow> addr \<Rightarrow> addr \<Rightarrow> seg_state \<Rightarrow> insertion" where
  "HandleSegmentStartsBeforeListSegment stream list_seg seg st = do {
     l \<leftarrow> sg (mem st) list_seg;
     s \<leftarrow> sg (mem st) seg;
     pv \<leftarrow> deref (prev_of list_seg st) (mem st);
     nx \<leftarrow> deref (next_of list_seg st) (mem st);
     let e = before_ends l s;
     let overlap = before_overlap l s;
     if overlap = 0 then Some (0, stream, st)
     else (case (case pv of None \<Rightarrow> before_head l s nx | Some pv \<Rightarrow> before_inner l s pv nx) of
       (plan, return_after) \<Rightarrow> do {
         (a, stream, st) \<leftarrow> (case plan of
             None \<Rightarrow> Some (Some list_seg, stream, st)
           | Some (len, n, pieces) \<Rightarrow> swap_segment list_seg seg len n pieces stream st);
         case a of
           None \<Rightarrow> Some (- 1, stream, st)
         | Some a \<Rightarrow> do {
             let stream = (if pv = None then stream\<lparr>seg_head := Some a\<rparr> else stream);
             st \<leftarrow> (if before_replaces (seg_policy stream) e
                     then upd_mem (StreamTcpSegmentDataReplace a seg (sg_seq l) overlap) st else Some st);
             Some (if e = Ends_before \<or> e = Ends_same \<or> return_after then 1 else 0, stream, st)
           }
       })
   }"

section \<open>A segment that starts at one of the list, or after it\<close>

text \<open>A new segment behind \<open>list_seg\<close> that fills a gap with bytes of \<open>seg\<close>. \<open>False\<close>: the pool is empty.\<close>

definition fill_gap_after :: "addr \<Rightarrow> addr \<Rightarrow> u16 \<Rightarrow> seg_stream \<Rightarrow> seg_state
    \<Rightarrow> (bool \<times> seg_stream \<times> seg_state) option" where
  "fill_gap_after list_seg seg len stream st =
     (case StreamTcpGetSegment len st of
        (None, st) \<Rightarrow> Some (False, stream, st)
      | (Some a, st) \<Rightarrow> do {
          l \<leftarrow> sg (mem st) list_seg;
          let nx = next_of list_seg st;
          st \<leftarrow> place_segment a len (seg_end l) nx (Some list_seg) st;
          let st = upd_links (\<lambda>k. set_next list_seg (Some a) (set_prev_opt nx (Some a) k)) st;
          st \<leftarrow> upd_mem (StreamTcpSegmentDataReplace a seg (seg_end l) len) st;
          Some (True, if seg_tail stream = Some list_seg then stream\<lparr>seg_tail := Some a\<rparr> else stream, st)
        })"

definition same_ends :: "TcpSegment \<Rightarrow> TcpSegment \<Rightarrow> seg_ends" where
  "same_ends l s =
     (if SEQ_LT (seg_end s) (seg_end l) then Ends_before
      else if SEQ_EQ (seg_end s) (seg_end l) then Ends_same
      else if SEQ_GT (seg_end s) (seg_end l) then Ends_after
      else Ends_apart)"

definition same_overlap :: "TcpSegment \<Rightarrow> TcpSegment \<Rightarrow> u16" where
  "same_overlap l s =
     (case same_ends l s of Ends_after \<Rightarrow> payload_len l | Ends_apart \<Rightarrow> 0 | _ \<Rightarrow> payload_len s)"

definition same_replaces :: "u8 \<Rightarrow> seg_ends \<Rightarrow> bool" where
  "same_replaces pol e =
     (if pol = OS_POLICY_OLD_LINUX \<or> pol = OS_POLICY_SOLARIS \<or> pol = OS_POLICY_HPUX11 then e = Ends_after \<or> e = Ends_same
      else if pol = OS_POLICY_LAST then True
      else if pol = OS_POLICY_LINUX then e = Ends_after
      else False)"

definition HandleSegmentStartsAtSameListSegment :: "seg_stream \<Rightarrow> addr \<Rightarrow> addr \<Rightarrow> seg_state \<Rightarrow> insertion" where
  "HandleSegmentStartsAtSameListSegment stream list_seg seg st = do {
     l \<leftarrow> sg (mem st) list_seg;
     s \<leftarrow> sg (mem st) seg;
     nx \<leftarrow> deref (next_of list_seg st) (mem st);
     let e = same_ends l s;
     let overlap = same_overlap l s;
     if overlap = 0 then Some (0, stream, st)
     else do {
       let fill_gap = (e = Ends_after \<and> (case nx of None \<Rightarrow> True | Some x \<Rightarrow> SEQ_LT (seg_end l) (sg_seq x)));
       let handle_beyond = (e = Ends_after \<and> (case nx of None \<Rightarrow> False | Some x \<Rightarrow> SEQ_GT (seg_end s) (sg_seq x)));
       (ok, stream, st) \<leftarrow>
         (if fill_gap then
            fill_gap_after list_seg seg
              (case nx of Some x \<Rightarrow> if handle_beyond then ucast (sg_seq x - seg_end l) else payload_len s - payload_len l
                        | None \<Rightarrow> payload_len s - payload_len l) stream st
          else Some (True, stream, st));
       if \<not> ok then Some (- 1, stream, st)
       else do {
         st \<leftarrow> (if same_replaces (seg_policy stream) e
                 then upd_mem (StreamTcpSegmentDataReplace list_seg seg (sg_seq s) overlap) st else Some st);
         Some (if e = Ends_before \<or> e = Ends_same \<or> \<not> handle_beyond then 1 else 0, stream, st)
       }
     }
   }"

definition after_ends :: "TcpSegment \<Rightarrow> TcpSegment \<Rightarrow> seg_ends" where
  "after_ends l s =
     (if SEQ_LT (seg_end s) (seg_end l) then Ends_before
      else if SEQ_EQ (seg_end s) (seg_end l) then Ends_same
      else if SEQ_LT (sg_seq s) (seg_end l) \<and> SEQ_GT (seg_end s) (seg_end l) then Ends_after
      else Ends_apart)"

definition after_overlap :: "TcpSegment \<Rightarrow> TcpSegment \<Rightarrow> u16" where
  "after_overlap l s =
     (case after_ends l s of Ends_after \<Rightarrow> ucast (seg_end l - sg_seq s) | Ends_apart \<Rightarrow> 0 | _ \<Rightarrow> payload_len s)"

definition after_replaces :: "u8 \<Rightarrow> seg_ends \<Rightarrow> bool" where
  "after_replaces pol e =
     (if pol = OS_POLICY_SOLARIS \<or> pol = OS_POLICY_HPUX11 then e = Ends_after else pol = OS_POLICY_LAST)"

definition HandleSegmentStartsAfterListSegment :: "seg_stream \<Rightarrow> addr \<Rightarrow> addr \<Rightarrow> seg_state \<Rightarrow> insertion" where
  "HandleSegmentStartsAfterListSegment stream list_seg seg st = do {
     l \<leftarrow> sg (mem st) list_seg;
     s \<leftarrow> sg (mem st) seg;
     nx \<leftarrow> deref (next_of list_seg st) (mem st);
     let e = after_ends l s;
     let overlap = after_overlap l s;
     if overlap = 0 then Some (0, stream, st)
     else do {
       let handle_beyond = (e = Ends_after \<and> (case nx of None \<Rightarrow> False | Some x \<Rightarrow> SEQ_GT (seg_end s) (sg_seq x)));
       (ok, stream, st) \<leftarrow>
         (case nx of
            None \<Rightarrow> Some (True, stream, st)
          | Some x \<Rightarrow>
              if e = Ends_after \<and> SEQ_LT (seg_end l) (sg_seq x) then
                (let gap = ucast (sg_seq x - seg_end l) :: u16;
                     len = (if int (unat gap) > int (unat (payload_len s)) - int (unat overlap)
                            then payload_len s - overlap else gap)
                 in fill_gap_after list_seg seg len stream st)
              else Some (True, stream, st));
       if \<not> ok then Some (- 1, stream, st)
       else do {
         st \<leftarrow> (if after_replaces (seg_policy stream) e
                 then upd_mem (StreamTcpSegmentDataReplace list_seg seg (sg_seq s) overlap) st else Some st);
         Some (if e = Ends_before \<or> e = Ends_same \<or> \<not> handle_beyond then 1 else 0, stream, st)
       }
     }
   }"

section \<open>Insertion\<close>

text \<open>
  The loop over the list. The boolean is \<open>return_seg\<close>; \<open>None\<close> is also the value of a loop that does not
  end.
\<close>

definition insert_before :: "addr \<Rightarrow> addr \<Rightarrow> seg_stream \<Rightarrow> seg_state \<Rightarrow> seg_stream \<times> seg_state" where
  "insert_before list_seg seg stream st =
     (let pv = prev_of list_seg st;
          link = (\<lambda>k. case pv of
                        None \<Rightarrow> set_prev list_seg (Some seg) (set_next seg (Some list_seg) k)
                      | Some b \<Rightarrow> set_prev list_seg (Some seg)
                                    (set_prev seg (Some b) (set_next b (Some seg) (set_next seg (Some list_seg) k))))
      in (if pv = None then stream\<lparr>seg_head := Some seg\<rparr> else stream, upd_links link st))"

definition insert_step :: "addr \<Rightarrow> addr \<Rightarrow> seg_stream \<Rightarrow> seg_state
    \<Rightarrow> ((bool \<times> int \<times> bool) \<times> seg_stream \<times> seg_state) option" where
  "insert_step list_seg seg stream st = do {
     l \<leftarrow> sg (mem st) list_seg;
     s \<leftarrow> sg (mem st) seg;
     let handled = (\<lambda>(r, stream, st). Some (if r = 1 then (True, 0, True) else if r = - 1 then (True, - 1, True)
                                            else (False, r, False), stream, st));
     if SEQ_LT (sg_seq s) (sg_seq l) then
       (if SEQ_LEQ (seg_end s) (sg_seq l) then Some ((True, 0, False), insert_before list_seg seg stream st)
        else Option.bind (HandleSegmentStartsBeforeListSegment stream list_seg seg st) handled)
     else if SEQ_EQ (sg_seq s) (sg_seq l) then
       Option.bind (HandleSegmentStartsAtSameListSegment stream list_seg seg st) handled
     else if SEQ_GT (sg_seq s) (sg_seq l) then
       (if SEQ_GEQ (sg_seq s) (seg_end l) \<and> SEQ_GT (seg_end s) (seg_end l) then
          (if next_of list_seg st = None then
             Some ((True, 0, False), stream,
                   upd_links (\<lambda>k. set_prev seg (Some list_seg) (set_next list_seg (Some seg) k)) st)
           else Some ((False, 0, False), stream, st))
        else Option.bind (HandleSegmentStartsAfterListSegment stream list_seg seg st) handled)
     else Some ((False, 0, False), stream, st)
   }"

partial_function (option) insert_loop :: "addr option \<Rightarrow> addr \<Rightarrow> seg_stream \<Rightarrow> seg_state
    \<Rightarrow> (int \<times> bool \<times> seg_stream \<times> seg_state) option" where
  "insert_loop list_seg seg stream st =
     (case list_seg of
        None \<Rightarrow> Some (0, False, stream, st)
      | Some a \<Rightarrow> do {
          let next_list_seg = next_of a st;
          ((ended, r, return_seg), stream, st) \<leftarrow> insert_step a seg stream st;
          if ended then Some (r, return_seg, stream, st) else insert_loop next_list_seg seg stream st
        })"

declare insert_loop.simps [code]

definition ReassembleInsertSegment :: "'g engine \<Rightarrow> TcpPacket \<Rightarrow> seg_stream \<Rightarrow> addr \<Rightarrow> seg_state \<Rightarrow> insertion" where
  "ReassembleInsertSegment E p stream seg st =
     (case seg_head stream of
        None \<Rightarrow>
          Some (0, stream\<lparr>seg_head := Some seg, seg_tail := Some seg\<rparr>, upd_links (set_prev seg None) st)
      | Some h \<Rightarrow> do {
          tl \<leftarrow> seg_tail stream;
          t \<leftarrow> sg (mem st) tl;
          s \<leftarrow> sg (mem st) seg;
          if SEQ_GEQ (sg_seq s) (seg_end t) then
            Some (0, stream\<lparr>seg_tail := Some seg\<rparr>, upd_links (\<lambda>k. set_prev seg (Some tl) (set_next tl (Some seg) k)) st)
          else do {
            let stream = (if seg_policy stream = 0
                          then stream\<lparr>seg_policy := os_policy (StreamTcpSetOSPolicy E p (zero_stream :: 'g TcpStream))\<rparr>
                          else stream);
            (r, return_seg, stream, st) \<leftarrow> insert_loop (Some h) seg stream st;
            st \<leftarrow> (if return_seg then StreamTcpSegmentReturntoPool seg st else Some st);
            Some (r, stream, st)
          }
        })"

text \<open>\<open>memcpy\<close> of the payload of the packet into a segment of its own.\<close>

definition store_payload :: "addr \<Rightarrow> bytes \<Rightarrow> u32 \<Rightarrow> u16 \<Rightarrow> seg_state \<Rightarrow> seg_state option" where
  "store_payload a data n len st = do {
     s \<leftarrow> sg (mem st) a;
     if unat len \<le> length data \<and> unat len \<le> length (payload s) then
       Some (st\<lparr>mem := (mem st)\<lparr>
         sg := (sg (mem st))(a \<mapsto> s\<lparr>payload := take (unat len) data @ drop (unat len) (payload s), payload_len := len, sg_seq := n\<rparr>),
         sg_links := set_prev a None (set_next a None (sg_links (mem st)))\<rparr>\<rparr>)
     else None
   }"

definition StreamTcpReassembleHandleSegmentHandleData :: "'g engine \<Rightarrow> TcpPacket \<Rightarrow> bytes \<Rightarrow> seg_stream \<Rightarrow> seg_state
    \<Rightarrow> insertion" where
  "StreamTcpReassembleHandleSegmentHandleData E p data stream st =
     (case StreamTcpGetSegment (pay_len p) st of
        (None, st) \<Rightarrow> Some (- 1, stream, st)
      | (Some seg, st) \<Rightarrow> do {
          st \<leftarrow> store_payload seg data (th_seq p) (pay_len p) st;
          (r, stream, st) \<leftarrow> ReassembleInsertSegment E p stream seg st;
          Some (if r \<noteq> 0 then - 1 else 0, stream, st)
        })"

section \<open>The end of a stream\<close>

partial_function (option) return_segments :: "addr option \<Rightarrow> seg_state \<Rightarrow> seg_state option" where
  "return_segments p st =
     (case p of
        None \<Rightarrow> Some st
      | Some a \<Rightarrow> do {
          let next_seg = next_of a st;
          st \<leftarrow> StreamTcpSegmentReturntoPool a st;
          return_segments next_seg st
        })"

declare return_segments.simps [code]

definition ReturnStreamSegments :: "seg_stream \<Rightarrow> seg_state \<Rightarrow> (seg_stream \<times> seg_state) option" where
  "ReturnStreamSegments stream st =
     (if seg_head stream = None then Some (stream, st)
      else do {
        st \<leftarrow> return_segments (seg_head stream) st;
        Some (stream\<lparr>seg_head := None, seg_tail := None\<rparr>, st)
      })"

end
