(* ===== verification/StreamTcpSegmentPools.thy ===== *)
theory StreamTcpSegmentPools
  imports StreamTcpSegments
begin

text \<open>
  The segment pools of \<open>src/stream-tcp-reassemble.c\<close> keep track of their segments: a segment is in one pool
  or in use, its buffer has the size of its pool, and a request gets a buffer that is large enough.
\<close>

section \<open>The table of the pools\<close>

text \<open>The number of pools with smaller buffers.\<close>

definition pool_of :: "nat \<Rightarrow> nat" where
  "pool_of n = length (filter (\<lambda>s. unat s < n) segment_pool_pktsizes)"

lemma pool_of_eq:
  "pool_of n = (if n \<le> 4 then 0 else if n \<le> 16 then 1 else if n \<le> 112 then 2 else if n \<le> 248 then 3
     else if n \<le> 512 then 4 else if n \<le> 768 then 5 else if n \<le> 1448 then 6 else if n \<le> 65535 then 7 else 8)"
  by (simp add: pool_of_def segment_pool_pktsizes_def)

lemma idx_table:
  "n \<le> 65536 \<Longrightarrow>
   (case fold segment_pool_idx_step [0..<n] (0, replicate 65536 0) of (k, t) \<Rightarrow>
      k = pool_of n \<and> length t = 65536 \<and> (\<forall>i<n. t ! i = pool_of i))"
proof (induction n)
  case 0
  then show ?case by (simp add: pool_of_eq)
next
  case (Suc n)
  obtain k t where f: "fold segment_pool_idx_step [0..<n] (0, replicate 65536 0) = (k, t)" by fastforce
  then have k: "k = pool_of n" "length t = 65536" "\<forall>i<n. t ! i = pool_of i" using Suc by simp_all
  have "n \<le> unat (segment_pool_pktsizes ! pool_of n)"
    "(if unat (segment_pool_pktsizes ! pool_of n) = n then pool_of n + 1 else pool_of n) = pool_of (Suc n)"
    using Suc.prems by (simp_all add: pool_of_eq segment_pool_pktsizes_def)
  then have "segment_pool_idx_step n (k, t) = (pool_of (Suc n), t[n := pool_of n])"
    unfolding k(1) segment_pool_idx_step_def prod.case by (simp only: if_True)
  then have "fold segment_pool_idx_step [0..<Suc n] (0, replicate 65536 0) = (pool_of (Suc n), t[n := pool_of n])"
    using f by simp
  then show ?case unfolding \<open>fold segment_pool_idx_step [0..<Suc n] (0, replicate 65536 0) = _\<close> prod.case
    using k(2,3) Suc.prems by (auto simp: nth_list_update less_Suc_eq)
qed

lemma segment_pool_idx_eq: "segment_pool_idx len = pool_of (unat len)"
proof -
  have "unat len < 65536" using unat_bound[of len] by simp
  then show ?thesis using idx_table[of 65536] by (simp add: segment_pool_idx_def case_prod_unfold)
qed

lemma segment_pool_idx_less: "segment_pool_idx len < 8"
  using unat_bound[of len] by (simp add: segment_pool_idx_eq pool_of_eq)

lemma segment_pool_idx_fits: "unat len \<le> unat (segment_pool_pktsizes ! segment_pool_idx len)"
  using unat_bound[of len] by (simp add: segment_pool_idx_eq pool_of_eq segment_pool_pktsizes_def)

text \<open>The size of the buffer that a request gets.\<close>

definition buffer_size :: "u16 \<Rightarrow> nat" where
  "buffer_size len = unat (segment_pool_pktsizes ! segment_pool_idx len)"

lemma buffer_size_fits: "unat len \<le> buffer_size len"
  by (simp add: buffer_size_def segment_pool_idx_fits)

lemma buffer_size_less: "buffer_size len < 2 ^ 16"
  using unat_bound[of "segment_pool_pktsizes ! segment_pool_idx len"] by (simp add: buffer_size_def)

lemma segment_pool_idx_size: "i < 8 \<Longrightarrow> segment_pool_idx (segment_pool_pktsizes ! i) = i"
proof -
  assume "i < 8"
  then have "i \<in> {0, 1, 2, 3, 4, 5, 6, 7}" by auto
  then show ?thesis by (auto simp: segment_pool_idx_eq pool_of_eq segment_pool_pktsizes_def)
qed

text \<open>The table as a test of the length, for evaluation.\<close>

lemma segment_pool_idx_code [code]:
  "segment_pool_idx len = (if len \<le> 4 then 0 else if len \<le> 16 then 1 else if len \<le> 112 then 2 else if len \<le> 248 then 3
     else if len \<le> 512 then 4 else if len \<le> 768 then 5 else if len \<le> 1448 then 6 else 7)"
  using unat_bound[of len] by (simp add: segment_pool_idx_eq pool_of_eq word_le_nat_alt)

section \<open>Segments in the pools and in use\<close>

definition avail :: "seg_state \<Rightarrow> nat \<Rightarrow> addr list" where
  "avail st i = map the (filter (\<lambda>d. d \<noteq> None) (alloc_list (segment_pool st i)))"

text \<open>What the pools depend on in the memory.\<close>

definition shape :: "seg_mem \<Rightarrow> addr \<Rightarrow> (u16 \<times> nat) option" where
  "shape m a = map_option (\<lambda>s. (pool_size s, length (payload s))) (sg m a)"

text \<open>
  The first \<open>n\<close> pools: their callbacks, their segments without repetition, every allocated segment in one of
  them or in \<open>used\<close>, with a buffer of the size of a pool.
\<close>

definition pool_conf :: "seg_env \<Rightarrow> nat \<Rightarrow> seg_pool \<Rightarrow> bool" where
  "pool_conf env i p \<longleftrightarrow> Alloc p = TcpSegmentPoolAlloc env \<and> AllocData p = segment_pool_pktsizes ! i \<and>
     Free p = Some (TcpSegmentPoolFree env)"

definition pools_ok :: "seg_env \<Rightarrow> nat \<Rightarrow> addr set \<Rightarrow> seg_state \<Rightarrow> bool" where
  "pools_ok env n used st \<longleftrightarrow>
     (\<forall>i<n. pool_conf env i (segment_pool st i) \<and> distinct (avail st i)) \<and>
     (\<forall>i<n. \<forall>a\<in>set (avail st i).
        shape (mem st) a = Some (segment_pool_pktsizes ! i, unat (segment_pool_pktsizes ! i)) \<and> a \<notin> used) \<and>
     (\<forall>a\<in>used. shape (mem st) a \<noteq> None) \<and>
     (\<forall>a p l. shape (mem st) a = Some (p, l) \<longrightarrow> a < n_mallocs (mem st) \<and> l = unat p \<and>
        (\<exists>i<n. p = segment_pool_pktsizes ! i \<and> (a \<in> used \<or> a \<in> set (avail st i))))"

lemma pools_okD:
  assumes "pools_ok env n used st"
  shows "\<And>i. i < n \<Longrightarrow> pool_conf env i (segment_pool st i)" "\<And>i. i < n \<Longrightarrow> distinct (avail st i)"
    "\<And>i a. i < n \<Longrightarrow> a \<in> set (avail st i) \<Longrightarrow>
       shape (mem st) a = Some (segment_pool_pktsizes ! i, unat (segment_pool_pktsizes ! i))"
    "\<And>i a. i < n \<Longrightarrow> a \<in> set (avail st i) \<Longrightarrow> a \<notin> used"
    "\<And>a. a \<in> used \<Longrightarrow> shape (mem st) a \<noteq> None"
    "\<And>a p l. shape (mem st) a = Some (p, l) \<Longrightarrow> a < n_mallocs (mem st)"
    "\<And>a p l. shape (mem st) a = Some (p, l) \<Longrightarrow> l = unat p"
    "\<And>a p l. shape (mem st) a = Some (p, l) \<Longrightarrow>
       \<exists>i<n. p = segment_pool_pktsizes ! i \<and> (a \<in> used \<or> a \<in> set (avail st i))"
  using assms unfolding pools_ok_def by blast+

lemma pools_okI:
  assumes "\<And>i. i < n \<Longrightarrow> pool_conf env i (segment_pool st i)" "\<And>i. i < n \<Longrightarrow> distinct (avail st i)"
    "\<And>i a. i < n \<Longrightarrow> a \<in> set (avail st i) \<Longrightarrow>
       shape (mem st) a = Some (segment_pool_pktsizes ! i, unat (segment_pool_pktsizes ! i)) \<and> a \<notin> used"
    "\<And>a. a \<in> used \<Longrightarrow> shape (mem st) a \<noteq> None"
    "\<And>a p l. shape (mem st) a = Some (p, l) \<Longrightarrow> a < n_mallocs (mem st) \<and> l = unat p \<and>
       (\<exists>i<n. p = segment_pool_pktsizes ! i \<and> (a \<in> used \<or> a \<in> set (avail st i)))"
  shows "pools_ok env n used st"
  unfolding pools_ok_def
proof (intro conjI allI impI ballI)
  fix i assume "i < n"
  then show "pool_conf env i (segment_pool st i)" "distinct (avail st i)" by (rule assms(1,2))+
next
  fix i a assume "i < n" "a \<in> set (avail st i)"
  then show "shape (mem st) a = Some (segment_pool_pktsizes ! i, unat (segment_pool_pktsizes ! i))" "a \<notin> used"
    using assms(3) by simp_all
next
  fix a p l assume "shape (mem st) a = Some (p, l)"
  from assms(5)[OF this] show "a < n_mallocs (mem st)" "l = unat p"
    "\<exists>i<n. p = segment_pool_pktsizes ! i \<and> (a \<in> used \<or> a \<in> set (avail st i))" by simp_all
qed (rule assms(4))

lemma pktsizes_inj:
  "i < 8 \<Longrightarrow> j < 8 \<Longrightarrow> segment_pool_pktsizes ! i = segment_pool_pktsizes ! j \<longleftrightarrow> i = j"
  by (metis segment_pool_idx_size)

text \<open>The nodes that an operation leaves alone.\<close>

definition same_on :: "addr set \<Rightarrow> seg_state \<Rightarrow> seg_state \<Rightarrow> bool" where
  "same_on A st st' \<longleftrightarrow>
     (\<forall>a\<in>A. sg (mem st') a = sg (mem st) a \<and> sg_links (mem st') a = sg_links (mem st) a)"

lemma same_on_refl [simp]: "same_on A st st" by (simp add: same_on_def)
lemma same_on_trans: "same_on A st st1 \<Longrightarrow> same_on A st1 st2 \<Longrightarrow> same_on A st st2" by (simp add: same_on_def)
lemma same_on_mono: "same_on A st st' \<Longrightarrow> B \<subseteq> A \<Longrightarrow> same_on B st st'" by (auto simp: same_on_def)

lemma pools_ok_mem:
  assumes "pools_ok env n used st" "\<And>a. shape m a = shape (mem st) a" "n_mallocs m = n_mallocs (mem st)"
  shows "pools_ok env n used (st\<lparr>mem := m\<rparr>)"
proof -
  have "avail (st\<lparr>mem := m\<rparr>) = avail st" by (simp add: avail_def fun_eq_iff)
  then show ?thesis using assms by (simp add: pools_ok_def)
qed

lemma memuse_simps [simp]:
  "sg (StreamTcpIncrMemuse n m) = sg m" "sg_links (StreamTcpIncrMemuse n m) = sg_links m"
  "n_mallocs (StreamTcpIncrMemuse n m) = n_mallocs m"
  "sg (StreamTcpDecrMemuse n m) = sg m" "sg_links (StreamTcpDecrMemuse n m) = sg_links m"
  "n_mallocs (StreamTcpDecrMemuse n m) = n_mallocs m"
  by (simp_all add: StreamTcpIncrMemuse_def StreamTcpDecrMemuse_def Let_def)

text \<open>An allocation is a new segment, or fails and leaves the segments alone.\<close>

lemma alloc_cases:
  assumes "TcpSegmentPoolAlloc env len m = (r, m')"
  obtains (failed) "r = None" "sg m' = sg m" "sg_links m' = sg_links m" "n_mallocs m \<le> n_mallocs m'"
  | (made) a s where "r = Some a" "a = n_mallocs m" "sg m' = (sg m)(a \<mapsto> s)" "pool_size s = len"
      "length (payload s) = unat len" "n_mallocs m' = a + 2" "sg_flags s = 0"
      "sg_links m' = (sg_links m)(a := \<lparr>n_next = None, n_prev = None\<rparr>)"
proof (cases "r = None")
  case True
  have "sg m' = sg m \<and> sg_links m' = sg_links m \<and> n_mallocs m \<le> n_mallocs m'"
    using assms True unfolding TcpSegmentPoolAlloc_def Let_def by (simp split: if_splits) fastforce+
  then show ?thesis using failed True by simp
next
  case False
  let ?s = "\<lparr>payload = map (junk env (n_mallocs m)) [0..<unat len], payload_len = len, pool_size = len,
             sg_seq = 0, sg_flags = 0\<rparr>"
  have "r = Some (n_mallocs m) \<and> m' = StreamTcpIncrMemuse (ucast len + sizeof_seg env)
      (m\<lparr>n_mallocs := n_mallocs m + 2, sg := (sg m)(n_mallocs m \<mapsto> ?s),
         sg_links := (sg_links m)(n_mallocs m := \<lparr>n_next = None, n_prev = None\<rparr>)\<rparr>)"
    using assms False unfolding TcpSegmentPoolAlloc_def Let_def by (simp split: if_splits)
  then show ?thesis using made[of "n_mallocs m" ?s] by simp
qed

section \<open>Getting and returning segments\<close>

lemma avail_upd:
  "avail (st\<lparr>segment_pool := (segment_pool st)(i := p), mem := m\<rparr>) j =
     (if j = i then map the (filter (\<lambda>d. d \<noteq> None) (alloc_list p)) else avail st j)"
  by (simp add: avail_def)

lemma note_outstanding_more [simp]:
  "AllocData (note_outstanding p) = AllocData p" "Alloc (note_outstanding p) = Alloc p"
  by (simp_all add: note_outstanding_def Let_def)

text \<open>A new segment, in the hands of a pool (\<open>i\<close> with the list \<open>p\<close>) or of the caller.\<close>

lemma pools_ok_new:
  assumes ok: "pools_ok env n used st" and i: "i < n" "pool_size s = segment_pool_pktsizes ! i"
    and m: "sg m = (sg (mem st))(a \<mapsto> s)" "a = n_mallocs (mem st)" "n_mallocs m = a + 2" "length (payload s) = unat (pool_size s)"
    and p: "pool_conf env i p"
    and loc: "alloc_list p = Some a # alloc_list (segment_pool st i) \<and> used' = used \<or>
      alloc_list p = alloc_list (segment_pool st i) \<and> used' = insert a used"
  shows "pools_ok env n used' (st\<lparr>segment_pool := (segment_pool st)(i := p), mem := m\<rparr>)" (is "pools_ok _ _ _ ?st")
proof -
  note D = pools_okD[OF ok]
  have fresh: "shape (mem st) a = None" using D(6)[of a] m(2) by (cases "shape (mem st) a") auto
  have out: "a \<notin> used" "\<And>j. j < n \<Longrightarrow> a \<notin> set (avail st j)" using D(3)[of _ a] D(5)[of a] fresh by auto
  have sh: "shape m b = (if b = a then Some (segment_pool_pktsizes ! i, unat (segment_pool_pktsizes ! i)) else shape (mem st) b)" for b
    using m i(2) by (simp add: shape_def)
  have av: "avail ?st j = (if j = i \<and> used' = used then a # avail st j else avail st j)" for j
    using loc out(1) by (auto simp: avail_def)
  have us: "b \<in> used' \<longleftrightarrow> b \<in> used \<or> b = a \<and> used' \<noteq> used" for b using loc out(1) by auto
  show ?thesis
  proof (rule pools_okI)
    show "pool_conf env j (segment_pool ?st j)" if "j < n" for j using D(1)[OF that] p by simp
    show "distinct (avail ?st j)" if "j < n" for j using D(2)[OF that] out(2)[OF that] by (auto simp: av)
    show "shape (mem ?st) b = Some (segment_pool_pktsizes ! j, unat (segment_pool_pktsizes ! j)) \<and> b \<notin> used'"
      if "j < n" "b \<in> set (avail ?st j)" for j b
      using that D(3,4)[OF that(1), of b] out(1) out(2)[OF that(1)] by (auto simp: av us sh split: if_splits)
    show "shape (mem ?st) b \<noteq> None" if "b \<in> used'" for b using that D(5)[of b] by (auto simp: us sh)
    show "b < n_mallocs (mem ?st) \<and> l = unat q \<and> (\<exists>j<n. q = segment_pool_pktsizes ! j \<and> (b \<in> used' \<or> b \<in> set (avail ?st j)))"
      if h: "shape (mem ?st) b = Some (q, l)" for b q l
    proof (cases "b = a")
      case True
      then show ?thesis using h i m(3) by (auto simp: sh us av)
    next
      case False
      then have "shape (mem st) b = Some (q, l)" using h by (simp add: sh)
      then show ?thesis using D(6-8)[of b q l] m(2,3) by (auto simp: us av)
    qed
  qed
qed

text \<open>The other updates keep the segments, or move one between a pool and the users.\<close>

lemma pools_ok_same:
  assumes ok: "pools_ok env n used st" and i: "i < n"
    and m: "sg m = sg (mem st)" "n_mallocs (mem st) \<le> n_mallocs m"
    and p: "pool_conf env i p" "map the (filter (\<lambda>d. d \<noteq> None) (alloc_list p)) = avail st i"
  shows "pools_ok env n used (st\<lparr>segment_pool := (segment_pool st)(i := p), mem := m\<rparr>)"
proof -
  note D = pools_okD[OF ok]
  have av: "avail (st\<lparr>segment_pool := (segment_pool st)(i := p), mem := m\<rparr>) = avail st"
    using p(2) by (auto simp: avail_upd fun_eq_iff)
  have sh: "shape m = shape (mem st)" using m by (simp add: shape_def fun_eq_iff)
  show ?thesis
  proof (rule pools_okI)
    show "a < n_mallocs (mem (st\<lparr>segment_pool := (segment_pool st)(i := p), mem := m\<rparr>)) \<and> l = unat q \<and>
        (\<exists>j<n. q = segment_pool_pktsizes ! j \<and>
           (a \<in> used \<or> a \<in> set (avail (st\<lparr>segment_pool := (segment_pool st)(i := p), mem := m\<rparr>) j)))"
      if "shape (mem (st\<lparr>segment_pool := (segment_pool st)(i := p), mem := m\<rparr>)) a = Some (q, l)" for a q l
      using that D(6-8)[of a q l] m(2) unfolding av by (simp add: sh)
  qed (use D(1-5) p(1) in \<open>simp_all add: av sh\<close>)
qed

lemma pools_ok_move:
  assumes ok: "pools_ok env 8 used st" and i: "i < 8" and p: "pool_conf env i p"
    and av: "avail st i = a # map the (filter (\<lambda>d. d \<noteq> None) (alloc_list p)) \<and> used' = insert a used \<or>
      map the (filter (\<lambda>d. d \<noteq> None) (alloc_list p)) = a # avail st i \<and> used' = used - {a} \<and>
        shape (mem st) a = Some (segment_pool_pktsizes ! i, unat (segment_pool_pktsizes ! i)) \<and> a \<in> used"
    and m: "\<And>b. shape m b = shape (mem st) b" "n_mallocs m = n_mallocs (mem st)"
  shows "pools_ok env 8 used' (st\<lparr>segment_pool := (segment_pool st)(i := p), mem := m\<rparr>)" (is "pools_ok _ _ _ ?st")
proof -
  note D = pools_okD[OF ok]
  define new where "new = map the (filter (\<lambda>d. d \<noteq> None) (alloc_list p))"
  have av': "avail ?st j = (if j = i then new else avail st j)" for j by (simp add: avail_def new_def)
  have sa: "shape (mem st) a = Some (segment_pool_pktsizes ! i, unat (segment_pool_pktsizes ! i))"
    using av D(3)[OF i, of a] by auto
  have other: "a \<notin> set (avail st j)" if "j < 8" "j \<noteq> i" for j
    using D(3)[OF that(1), of a] sa pktsizes_inj[OF i that(1)] that(2) by auto
  have new: "set (avail st i) \<union> {a} = set new \<union> {a}" "distinct new" "a \<in> set new \<longleftrightarrow> a \<notin> used'"
    "\<And>b. b \<noteq> a \<Longrightarrow> b \<in> used' \<longleftrightarrow> b \<in> used"
    using av[folded new_def] D(2)[OF i] D(4)[OF i, of a] by auto
  then have new_iff: "b \<in> set new \<longleftrightarrow> (if b = a then a \<notin> used' else b \<in> set (avail st i))" for b by auto
  show ?thesis
  proof (rule pools_okI)
    show "pool_conf env j (segment_pool ?st j)" if "j < 8" for j using D(1)[OF that] p by simp
    show "distinct (avail ?st j)" if "j < 8" for j using D(2)[OF that] new(2) by (simp add: av')
    show "shape (mem ?st) b = Some (segment_pool_pktsizes ! j, unat (segment_pool_pktsizes ! j)) \<and> b \<notin> used'"
      if "j < 8" "b \<in> set (avail ?st j)" for j b
    proof (cases "b = a")
      case True
      then show ?thesis using that sa other new_iff by (auto simp: av' m split: if_splits)
    next
      case False
      then show ?thesis using that D(3,4)[OF that(1), of b] new_iff[of b] new(4) by (auto simp: av' m split: if_splits)
    qed
    show "shape (mem ?st) b \<noteq> None" if "b \<in> used'" for b
      using that D(5)[of b] sa new(4)[of b] by (cases "b = a") (auto simp: m)
    show "b < n_mallocs (mem ?st) \<and> l = unat q \<and> (\<exists>j<8. q = segment_pool_pktsizes ! j \<and> (b \<in> used' \<or> b \<in> set (avail ?st j)))"
      if h: "shape (mem ?st) b = Some (q, l)" for b q l
    proof (cases "b = a")
      case True
      then show ?thesis using h sa i new_iff[of a] D(6)[of a q l] by (auto simp: av' m)
    next
      case False
      have "shape (mem st) b = Some (q, l)" using h by (simp add: m)
      with D(6-8)[of b q l] show ?thesis using False new(4)[of b] new_iff[of b] by (auto simp: av' m)
    qed
  qed
qed

text \<open>A segment that a pool gives to \<open>free\<close>.\<close>

lemma pools_ok_free:
  assumes ok: "pools_ok env n used st" and i: "i < n" and a: "a \<in> used"
    and p: "pool_conf env i p" "alloc_list p = alloc_list (segment_pool st i)"
    and m: "sg m = (sg (mem st))(a := None)" "n_mallocs m = n_mallocs (mem st)"
  shows "pools_ok env n (used - {a}) (st\<lparr>segment_pool := (segment_pool st)(i := p), mem := m\<rparr>)" (is "pools_ok _ _ _ ?st")
proof -
  note D = pools_okD[OF ok]
  have av: "avail ?st j = avail st j" for j using p(2) by (simp add: avail_def)
  have sh: "shape m b = (if b = a then None else shape (mem st) b)" for b using m by (simp add: shape_def)
  have out: "j < n \<Longrightarrow> a \<notin> set (avail st j)" for j using D(4)[of j a] a by blast
  show ?thesis
  proof (rule pools_okI)
    show "pool_conf env j (segment_pool ?st j)" if "j < n" for j using D(1)[OF that] p by simp
    show "distinct (avail ?st j)" if "j < n" for j using D(2)[OF that] by (simp add: av)
    show "shape (mem ?st) b = Some (segment_pool_pktsizes ! j, unat (segment_pool_pktsizes ! j)) \<and> b \<notin> used - {a}"
      if "j < n" "b \<in> set (avail ?st j)" for j b
      using that D(3,4)[OF that(1), of b] out[OF that(1)] by (auto simp: av sh)
    show "shape (mem ?st) b \<noteq> None" if "b \<in> used - {a}" for b using that D(5)[of b] by (auto simp: sh)
    show "b < n_mallocs (mem ?st) \<and> l = unat q \<and> (\<exists>j<n. q = segment_pool_pktsizes ! j \<and> (b \<in> used - {a} \<or> b \<in> set (avail ?st j)))"
      if h: "shape (mem ?st) b = Some (q, l)" for b q l
    proof -
      have "b \<noteq> a" "shape (mem st) b = Some (q, l)" using h by (auto simp: sh split: if_splits)
      with D(6-8)[of b q l] show ?thesis using m(2) by (auto simp: av)
    qed
  qed
qed

lemma GetSegment_ok:
  assumes ok: "pools_ok env 8 used st" and get: "StreamTcpGetSegment len st = (r, st')"
  shows "case r of
      None \<Rightarrow> pools_ok env 8 used st' \<and> same_on UNIV st st'
    | Some a \<Rightarrow> a \<notin> used \<and> pools_ok env 8 (insert a used) st' \<and> same_on (- {a}) st st' \<and>
        (\<exists>s. sg (mem st') a = Some s \<and> length (payload s) = buffer_size len)"
proof -
  let ?i = "segment_pool_idx len"
  let ?P = "segment_pool st ?i"
  note i = segment_pool_idx_less[of len] and D = pools_okD[OF ok]
  obtain p' m' where pg: "PoolGet (?P, mem st) = (r, p', m')"
    using get by (cases "PoolGet (?P, mem st)") (auto simp: StreamTcpGetSegment_def Let_def)
  then have st': "st' = st\<lparr>segment_pool := (segment_pool st)(?i := p'), mem := m'\<rparr>"
    using get by (simp add: StreamTcpGetSegment_def Let_def)
  have cb: "pool_conf env ?i ?P" by (rule D(1)[OF i])
  show ?thesis
  proof (cases "alloc_list ?P")
    case (Cons d ds)
    then have d: "r = d" "m' = mem st" "alloc_list p' = ds" "pool_conf env ?i p'"
      using pg cb by (auto simp: PoolGet_def pool_conf_def)
    show ?thesis
    proof (cases d)
      case None
      have "pools_ok env 8 used st'" unfolding st' d(2)
        by (rule pools_ok_same[OF ok i _ _ d(4)]) (use d(3) None Cons in \<open>simp_all add: avail_def\<close>)
      then show ?thesis using d(1,2) None st' by (simp add: same_on_def)
    next
      case (Some a)
      have av: "avail st ?i = a # map the (filter (\<lambda>d. d \<noteq> None) (alloc_list p'))"
        using Cons Some d(3) by (simp add: avail_def)
      then have a: "a \<in> set (avail st ?i)" by simp
      have "pools_ok env 8 (insert a used) st'" unfolding st' d(2)
        by (rule pools_ok_move[OF ok i d(4)]) (use av in auto)
      moreover have "\<exists>s. sg (mem st) a = Some s \<and> length (payload s) = buffer_size len"
        using D(3)[OF i a] by (auto simp: shape_def buffer_size_def)
      ultimately show ?thesis using D(4)[OF i a] st' d(1,2) Some by (simp add: same_on_def)
    qed
  next
    case Nil
    show ?thesis
    proof (cases "max_buckets ?P = 0 \<or> allocated ?P < max_buckets ?P")
      case True
      have p': "pool_conf env ?i p'" "alloc_list p' = []" "TcpSegmentPoolAlloc env (segment_pool_pktsizes ! ?i) (mem st) = (r, m')"
        using pg Nil True cb by (auto simp: PoolGet_def pool_conf_def Let_def split: prod.splits)
      from p'(3) show ?thesis
      proof (cases rule: alloc_cases)
        case failed
        have "pools_ok env 8 used st'" unfolding st'
          by (rule pools_ok_same[OF ok i _ _ p'(1)]) (use failed p' Nil in \<open>simp_all add: avail_def\<close>)
        then show ?thesis using failed st' by (simp add: same_on_def)
      next
        case (made a s)
        have "pools_ok env 8 (insert a used) st'" unfolding st'
          by (rule pools_ok_new[OF ok i made(4,3,2)]) (use made p' Nil in \<open>simp_all\<close>)
        moreover have "a \<notin> used" using D(5,6)[of a] made(2) by fastforce
        ultimately show ?thesis
          using made st' by (simp add: same_on_def buffer_size_def)
      qed
    next
      case False
      then have "r = None" "p' = ?P" "m' = mem st" using pg Nil by (auto simp: PoolGet_def)
      then show ?thesis using ok st' by simp
    qed
  qed
qed

lemma ReturntoPool_ok:
  assumes ok: "pools_ok env 8 used st" and a: "a \<in> used"
  shows "\<exists>st'. StreamTcpSegmentReturntoPool a st = Some st' \<and> pools_ok env 8 (used - {a}) st' \<and> same_on (- {a}) st st'"
proof -
  note D = pools_okD[OF ok]
  obtain s where s: "sg (mem st) a = Some s" using D(5)[OF a] by (auto simp: shape_def)
  then have sh: "shape (mem st) a = Some (pool_size s, length (payload s))" by (simp add: shape_def)
  then obtain i where i: "i < 8" "pool_size s = segment_pool_pktsizes ! i" "length (payload s) = unat (pool_size s)"
    using D(7,8)[OF sh] by blast
  have idx: "segment_pool_idx (pool_size s) = i" using i segment_pool_idx_size by simp
  define m where "m = (mem st)\<lparr>sg_links := set_prev a None (set_next a None (sg_links (mem st)))\<rparr>"
  have m: "sg m = sg (mem st)" "n_mallocs m = n_mallocs (mem st)" "\<And>b. shape m b = shape (mem st) b"
    "\<And>b. b \<noteq> a \<Longrightarrow> sg_links m b = sg_links (mem st) b"
    by (simp_all add: m_def shape_def)
  obtain p' m' where pr: "PoolReturn (Some a) (segment_pool st i, m) = (p', m')" by fastforce
  let ?st = "st\<lparr>segment_pool := (segment_pool st)(i := p'), mem := m'\<rparr>"
  have r: "StreamTcpSegmentReturntoPool a st = Some ?st"
    using s idx pr by (simp add: StreamTcpSegmentReturntoPool_def m_def Let_def)
  have cb: "pool_conf env i (segment_pool st i)" by (rule D(1)[OF i(1)])
  have "pools_ok env 8 (used - {a}) ?st \<and> same_on (- {a}) st ?st"
  proof (cases "empty_list (segment_pool st i)")
    case Nil
    then have "p' = (segment_pool st i)\<lparr>allocated := allocated (segment_pool st i) - 1, outstanding := outstanding (segment_pool st i) - 1\<rparr>"
      "m' = TcpSegmentPoolFree env (Some a) m"
      using pr cb by (simp_all add: PoolReturn_def pool_conf_def)
    then have f: "pool_conf env i p'" "alloc_list p' = alloc_list (segment_pool st i)" "sg m' = (sg (mem st))(a := None)"
      "n_mallocs m' = n_mallocs (mem st)" "sg_links m' = sg_links m"
      using cb s m by (simp_all add: TcpSegmentPoolFree_def pool_conf_def)
    show ?thesis using pools_ok_free[OF ok i(1) a f(1-4)] f(3,5) m(4) by (simp add: same_on_def)
  next
    case (Cons e es)
    then have f: "pool_conf env i p'" "alloc_list p' = Some a # alloc_list (segment_pool st i)" "m' = m"
      using pr cb by (auto simp: PoolReturn_def pool_conf_def)
    have "pools_ok env 8 (used - {a}) ?st"
      by (rule pools_ok_move[OF ok i(1) f(1), of a]) (use f a sh i m in \<open>simp_all add: avail_def\<close>)
    then show ?thesis using f(3) m by (simp add: same_on_def)
  qed
  then show ?thesis using r by blast
qed

end
