(* ===== verification/StreamTcpSegmentCopy.thy ===== *)
theory StreamTcpSegmentCopy
  imports StreamTcpSegmentPools
begin

text \<open>
  What the two copying functions of \<open>src/stream-tcp-reassemble.c\<close> write, as one assignment to the payload of
  the destination, and that no other part of the memory changes.
\<close>

section \<open>Writing a range of bytes\<close>

definition blit :: "nat \<Rightarrow> bytes \<Rightarrow> bytes \<Rightarrow> bytes" where
  "blit off src d = take off d @ src @ drop (off + length src) d"

lemma length_blit [simp]: "off + length src \<le> length d \<Longrightarrow> length (blit off src d) = length d"
  by (simp add: blit_def)

lemma nth_blit:
  "off + length src \<le> length d \<Longrightarrow> i < length d \<Longrightarrow>
   blit off src d ! i = (if off \<le> i \<and> i < off + length src then src ! (i - off) else d ! i)"
  by (auto simp: blit_def nth_append min_def)

lemma blit_Nil [simp]: "blit off [] d = d"
  by (simp add: blit_def)

lemma blit_Cons:
  assumes "off + Suc (length xs) \<le> length d"
  shows "blit (Suc off) xs (d[off := x]) = blit off (x # xs) d"
  using assms by (intro nth_equalityI) (auto simp: nth_blit nth_list_update nth_Cons' less_Suc_eq_le)

lemma SEQ_LT_count: "n < 2 ^ 31 \<Longrightarrow> SEQ_LT i (i + of_nat n) \<longleftrightarrow> 0 < n"
  using SEQ_LT_offsets[of 0 n i] by simp

definition set_payload :: "addr \<Rightarrow> bytes \<Rightarrow> seg_mem \<Rightarrow> seg_mem" where
  "set_payload a b m = m\<lparr>sg := (sg m)(a := map_option (\<lambda>s. s\<lparr>payload := b\<rparr>) (sg m a))\<rparr>"

lemma set_payload_simps [simp]:
  "sg_links (set_payload a b m) = sg_links m" "n_mallocs (set_payload a b m) = n_mallocs m"
  "sg (set_payload a b m) c = (if c = a then map_option (\<lambda>s. s\<lparr>payload := b\<rparr>) (sg m a) else sg m c)"
  "set_payload a b (set_payload a b' m) = set_payload a b m"
  by (simp_all add: set_payload_def option.map_comp o_def)

lemma set_payload_id: "sg m a = Some d \<Longrightarrow> set_payload a (payload d) m = m"
  by (simp add: set_payload_def fun_upd_idem)

lemma put_byte_Some:
  "sg m a = Some d \<Longrightarrow> i < length (payload d) \<Longrightarrow> put_byte a i v m = Some (set_payload a ((payload d)[i := v]) m)"
  by (simp add: put_byte_def set_payload_def)

lemma get_byte_Some: "sg m a = Some s \<Longrightarrow> i < length (payload s) \<Longrightarrow> get_byte a i m = Some (payload s ! i)"
  by (simp add: get_byte_def rd8_def)

section \<open>The loops\<close>

lemma take_drop_Suc: "k + Suc n \<le> length xs \<Longrightarrow> take (Suc n) (drop k xs) = xs ! k # take n (drop (Suc k) xs)"
  by (simp add: Cons_nth_drop_Suc[symmetric])

lemma replace_loop_run:
  assumes "sg m dst = Some d" "sg m src = Some s" "dst \<noteq> src"
    and "cnt + n \<le> length (payload s)" "off + n \<le> length (payload d)" "off + n \<le> Suc (unat (payload_len d))"
    and "length (payload s) < 2 ^ 16" "length (payload d) < 2 ^ 16"
  shows "replace_loop dst src i (i + of_nat n) (of_nat off) (of_nat cnt) m =
    Some (set_payload dst (blit off (take n (drop cnt (payload s))) (payload d)) m)"
  using assms
proof (induction n arbitrary: i off cnt m d)
  case 0
  then show ?case by (simp add: replace_loop.simps[of _ _ i i] SEQ_LT_def set_payload_id)
next
  case (Suc n)
  let ?d = "d\<lparr>payload := (payload d)[off := payload s ! cnt]\<rparr>"
  let ?m = "set_payload dst ((payload d)[off := payload s ! cnt]) m"
  have n: "Suc n < 2 ^ 31" using Suc.prems(5,8) by simp
  have lt: "SEQ_LT i (i + of_nat (Suc n))" using SEQ_LT_count[OF n] by simp
  have u: "unat (of_nat off :: u16) = off" "unat (of_nat cnt :: u16) = cnt"
    using Suc.prems(4,5,7,8) by (simp_all add: unat_of_nat)
  have le: "\<not> (of_nat off :: u16) > payload_len d" using Suc.prems(6) u by (simp add: word_less_nat_alt)
  have "replace_loop dst src i (i + of_nat (Suc n)) (of_nat off) (of_nat cnt) m =
      replace_loop dst src (i + 1) (i + of_nat (Suc n)) (of_nat off + 1) (of_nat cnt + 1) ?m"
    using Suc.prems lt le u get_byte_Some[of m src s cnt] put_byte_Some[of m dst d off]
    by (subst replace_loop.simps) simp
  also have "\<dots> = replace_loop dst src (i + 1) (i + 1 + of_nat n) (of_nat (Suc off)) (of_nat (Suc cnt)) ?m"
    by (simp add: algebra_simps)
  also have "\<dots> = Some (set_payload dst (blit (Suc off) (take n (drop (Suc cnt) (payload s))) (payload ?d)) ?m)"
    by (rule Suc.IH) (use Suc.prems in simp_all)
  also have "blit (Suc off) (take n (drop (Suc cnt) (payload s))) (payload ?d) =
      blit off (take (Suc n) (drop cnt (payload s))) (payload d)"
    using Suc.prems(4,5) take_drop_Suc[of cnt n "payload s"] by (simp add: blit_Cons)
  finally show ?case by simp
qed

lemma copy_loop_run:
  assumes "sg m dst = Some d" "sg m src = Some s" "dst \<noteq> src"
    and "cnt + n \<le> length (payload s)" "off + n \<le> length (payload d)"
    and "length (payload s) < 2 ^ 16" "length (payload d) < 2 ^ 16"
  shows "copy_loop dst src i (i + of_nat n) (of_nat off) (of_nat cnt) m =
    Some (set_payload dst (blit off (take n (drop cnt (payload s))) (payload d)) m)"
  using assms
proof (induction n arbitrary: i off cnt m d)
  case 0
  then show ?case by (simp add: copy_loop.simps[of _ _ i i] SEQ_LT_def set_payload_id)
next
  case (Suc n)
  let ?d = "d\<lparr>payload := (payload d)[off := payload s ! cnt]\<rparr>"
  let ?m = "set_payload dst ((payload d)[off := payload s ! cnt]) m"
  have n: "Suc n < 2 ^ 31" using Suc.prems(5,7) by simp
  have lt: "SEQ_LT i (i + of_nat (Suc n))" using SEQ_LT_count[OF n] by simp
  have u: "unat (of_nat off :: u16) = off" "unat (of_nat cnt :: u16) = cnt"
    using Suc.prems(4-7) by (simp_all add: unat_of_nat)
  have "copy_loop dst src i (i + of_nat (Suc n)) (of_nat off) (of_nat cnt) m =
      copy_loop dst src (i + 1) (i + of_nat (Suc n)) (of_nat off + 1) (of_nat cnt + 1) ?m"
    using Suc.prems lt u get_byte_Some[of m src s cnt] put_byte_Some[of m dst d off]
    by (subst copy_loop.simps) simp
  also have "\<dots> = copy_loop dst src (i + 1) (i + 1 + of_nat n) (of_nat (Suc off)) (of_nat (Suc cnt)) ?m"
    by (simp add: algebra_simps)
  also have "\<dots> = Some (set_payload dst (blit (Suc off) (take n (drop (Suc cnt) (payload s))) (payload ?d)) ?m)"
    by (rule Suc.IH) (use Suc.prems in simp_all)
  also have "blit (Suc off) (take n (drop (Suc cnt) (payload s))) (payload ?d) =
      blit off (take (Suc n) (drop cnt (payload s))) (payload d)"
    using Suc.prems(4,5) take_drop_Suc[of cnt n "payload s"] by (simp add: blit_Cons)
  finally show ?case by simp
qed

section \<open>The two functions\<close>

text \<open>
  A piece that starts before the destination is written to its beginning. The function copies the first bytes of the source,
  or nothing when they would end more than one byte behind the destination.
\<close>

lemma ucast_diff_ahead:
  assumes "ahead b y \<le> ahead b x"
  shows "(ucast (x - y) :: u16) = of_nat (ahead b x - ahead b y)"
proof -
  define k where "k = ahead b x - ahead b y"
  have u: "unat (x - y) = k" using unat_diff_ahead[OF assms] by (simp add: k_def)
  have "(ucast (x - y) :: u16) = of_nat (unat (x - y))" by simp
  then show ?thesis unfolding u k_def .
qed

lemma dst_pos_from:
  assumes "ahead b n < 2 ^ 31" "ahead b start < 2 ^ 31"
  shows "(if SEQ_GT start n then ucast (start - n) else if SEQ_LT n start then ucast (n - start) else 0) =
    (of_nat (ahead b start - ahead b n) :: u16)"
proof -
  note S = SEQ_ahead_from[OF assms(2) assms(1)] SEQ_ahead_from[OF assms(1) assms(2)]
  show ?thesis
  proof (cases "ahead b n \<le> ahead b start")
    case True
    then show ?thesis by (simp only: S ucast_diff_ahead[OF True]) auto
  next
    case False
    then show ?thesis by (simp only: S) simp
  qed
qed

lemma DataReplace_run:
  assumes "sg m dst = Some d" "sg m src = Some s" "dst \<noteq> src"
    and "unat len \<le> length (payload s)" "length (payload s) < 2 ^ 16" "length (payload d) < 2 ^ 16"
    and "ahead b (sg_seq d) < 2 ^ 31" "ahead b start < 2 ^ 31" "ahead b start - ahead b (sg_seq d) < 2 ^ 16"
    and fit: "ahead b start - ahead b (sg_seq d) + unat len \<le> Suc (unat (payload_len d)) \<Longrightarrow>
       ahead b start - ahead b (sg_seq d) + unat len \<le> length (payload d)"
  shows "StreamTcpSegmentDataReplace dst src start len m =
    Some (if ahead b start - ahead b (sg_seq d) + unat len \<le> Suc (unat (payload_len d))
          then set_payload dst (blit (ahead b start - ahead b (sg_seq d)) (take (unat len) (payload s)) (payload d)) m
          else m)"
proof -
  define off where "off = ahead b start - ahead b (sg_seq d)"
  have u: "unat (of_nat off :: u16) = off" using assms(9) by (simp add: unat_of_nat off_def del: of_nat_diff)
  have len: "(ucast len :: u32) = of_nat (unat len)" by simp
  note pos = dst_pos_from[OF assms(7,8), folded off_def]
  have test: "(int (unat len + off) - 1 > int (unat (payload_len d))) = (\<not> off + unat len \<le> Suc (unat (payload_len d)))"
    by linarith
  have unf: "StreamTcpSegmentDataReplace dst src start len m =
      (if \<not> off + unat len \<le> Suc (unat (payload_len d)) then Some m
       else replace_loop dst src start (start + ucast len) (of_nat off) 0 m)"
    using assms(1) by (simp only: StreamTcpSegmentDataReplace_def pos Let_def u test bind.bind_lunit)
  show ?thesis
  proof (cases "off + unat len \<le> Suc (unat (payload_len d))")
    case True
    then have "replace_loop dst src start (start + of_nat (unat len)) (of_nat off) (of_nat 0) m =
      Some (set_payload dst (blit off (take (unat len) (drop 0 (payload s))) (payload d)) m)"
      by (intro replace_loop_run) (use assms in \<open>simp_all add: off_def\<close>)
    then show ?thesis using True unfolding unf len by (simp add: off_def[symmetric])
  next
    case False
    then show ?thesis unfolding unf by (simp add: off_def[symmetric])
  qed
qed

lemma DataCopy_run:
  assumes "sg m dst = Some d" "sg m src = Some s" "dst \<noteq> src"
    and "unat (payload_len s) \<le> length (payload s)" "length (payload s) < 2 ^ 16" "length (payload d) < 2 ^ 16"
    and "ahead b (sg_seq d) \<le> ahead b (sg_seq s)" "ahead b (sg_seq s) < 2 ^ 31"
    and "ahead b (sg_seq s) - ahead b (sg_seq d) + unat (payload_len s) \<le> length (payload d)"
  shows "StreamTcpSegmentDataCopy dst src m =
    Some (set_payload dst (blit (ahead b (sg_seq s) - ahead b (sg_seq d)) (take (unat (payload_len s)) (payload s)) (payload d)) m)"
proof -
  define off where "off = ahead b (sg_seq s) - ahead b (sg_seq d)"
  have "\<not> SEQ_GT (sg_seq s) (sg_seq d) \<Longrightarrow> sg_seq d = sg_seq s"
    using SEQ_ahead_from[OF assms(8), of "sg_seq d"] assms(7,8) by (simp add: ahead_def unat_eq_iff)
  then have pos: "(if SEQ_GT (sg_seq s) (sg_seq d) then ucast (sg_seq s - sg_seq d) else ucast (sg_seq d - sg_seq s)) = (of_nat off :: u16)"
    using ucast_diff_ahead[OF assms(7)] by (auto simp: off_def)
  have len: "(ucast (payload_len s) :: u32) = of_nat (unat (payload_len s))" by simp
  have "copy_loop dst src (sg_seq s) (sg_seq s + of_nat (unat (payload_len s))) (of_nat off) (of_nat 0) m =
      Some (set_payload dst (blit off (take (unat (payload_len s)) (drop 0 (payload s))) (payload d)) m)"
    by (intro copy_loop_run) (use assms in \<open>simp_all add: off_def\<close>)
  moreover have "StreamTcpSegmentDataCopy dst src m =
      copy_loop dst src (sg_seq s) (sg_seq s + ucast (payload_len s)) (of_nat off) 0 m"
    using assms(1,2) by (simp only: StreamTcpSegmentDataCopy_def pos Let_def bind.bind_lunit)
  ultimately show ?thesis by (simp add: off_def[symmetric])
qed

end
