(* ===== verification/StreamTcpSegmentList.thy ===== *)
theory StreamTcpSegmentList
  imports StreamTcpSegmentCopy
begin

text \<open>
  The segment list of a stream (\<open>src/stream-tcp-reassemble.c\<close>) as a sequence of intervals: its invariant and
  the two operations that change its nodes, the exchange of a segment for a longer one and the filling of a gap.
\<close>

section \<open>Chains of intervals\<close>

fun chain :: "(addr \<Rightarrow> nat) \<Rightarrow> (addr \<Rightarrow> nat) \<Rightarrow> nat \<Rightarrow> addr list \<Rightarrow> nat \<Rightarrow> bool" where
  "chain P Q lo [] hi \<longleftrightarrow> lo \<le> hi"
| "chain P Q lo (x # xs) hi \<longleftrightarrow> lo \<le> P x \<and> P x < Q x \<and> chain P Q (Q x) xs hi"

definition endp :: "(addr \<Rightarrow> nat) \<Rightarrow> nat \<Rightarrow> addr list \<Rightarrow> nat" where
  "endp Q lo xs = (if xs = [] then lo else Q (last xs))"

definition startp :: "(addr \<Rightarrow> nat) \<Rightarrow> nat \<Rightarrow> addr list \<Rightarrow> nat" where
  "startp P hi xs = (if xs = [] then hi else P (hd xs))"

lemma endp_simps [simp]: "endp Q lo [] = lo" "endp Q lo (x # xs) = endp Q (Q x) xs" "endp Q lo (xs @ [x]) = Q x"
  by (auto simp: endp_def)

lemma startp_simps [simp]: "startp P hi [] = hi" "startp P hi (x # xs) = P x"
  by (auto simp: startp_def)

lemma chain_le: "chain P Q lo xs hi \<Longrightarrow> lo \<le> hi"
proof (induction xs arbitrary: lo)
  case (Cons x xs)
  from Cons.IH[of "Q x"] Cons.prems show ?case by simp
qed simp

lemma chain_mono: "chain P Q lo xs hi \<Longrightarrow> lo' \<le> lo \<Longrightarrow> hi \<le> hi' \<Longrightarrow> chain P Q lo' xs hi'"
  by (induction xs arbitrary: lo lo') auto

lemma chain_append: "chain P Q lo (xs @ ys) hi \<longleftrightarrow> chain P Q lo xs (endp Q lo xs) \<and> chain P Q (endp Q lo xs) ys hi"
  by (induction xs arbitrary: lo) auto

lemma chain_end: "chain P Q lo xs hi \<Longrightarrow> endp Q lo xs \<le> hi"
proof (induction xs arbitrary: lo)
  case (Cons x xs)
  from Cons.IH[of "Q x"] Cons.prems show ?case by simp
qed simp

lemma chain_start: "chain P Q lo xs hi \<Longrightarrow> lo \<le> startp P hi xs"
  by (cases xs) auto

lemma chain_from: "chain P Q lo xs hi \<Longrightarrow> xs \<noteq> [] \<Longrightarrow> lo' \<le> P (hd xs) \<Longrightarrow> chain P Q lo' xs hi"
  by (cases xs) auto

lemma chain_startp: "chain P Q lo xs hi \<Longrightarrow> lo' \<le> startp P hi xs \<Longrightarrow> chain P Q lo' xs hi"
  by (cases xs) auto

lemma chain_mem: "chain P Q lo xs hi \<Longrightarrow> x \<in> set xs \<Longrightarrow> lo \<le> P x \<and> P x < Q x \<and> Q x \<le> hi"
proof (induction xs arbitrary: lo)
  case (Cons y xs)
  from Cons.IH[of "Q y"] Cons.prems chain_le[of P Q "Q y" xs hi] show ?case by auto
qed simp

lemma chain_cong:
  assumes "\<And>x. x \<in> set xs \<Longrightarrow> P x = P' x \<and> Q x = Q' x"
  shows "chain P Q lo xs hi = chain P' Q' lo xs hi"
  using assms by (induction xs arbitrary: lo) auto

definition covers :: "(addr \<Rightarrow> nat) \<Rightarrow> (addr \<Rightarrow> nat) \<Rightarrow> addr list \<Rightarrow> nat set" where
  "covers P Q xs = (\<Union>x\<in>set xs. {P x..<Q x})"

lemma covers_simps [simp]: "covers P Q [] = {}" "covers P Q (x # xs) = {P x..<Q x} \<union> covers P Q xs"
  "covers P Q (xs @ ys) = covers P Q xs \<union> covers P Q ys"
  by (auto simp: covers_def)

lemma covers_cong: "(\<And>x. x \<in> set xs \<Longrightarrow> P x = P' x \<and> Q x = Q' x) \<Longrightarrow> covers P Q xs = covers P' Q' xs"
  by (simp add: covers_def)

section \<open>Segments in a window\<close>

text \<open>
  A window starts at the sequence number \<open>b\<close> and is 65535 bytes long. \<open>from_seg\<close> and \<open>to_seg\<close> are the ends of
  a segment in it.
\<close>

definition from_seg :: "u32 \<Rightarrow> TcpSegment \<Rightarrow> nat" where
  "from_seg b s = ahead b (sg_seq s)"

definition to_seg :: "u32 \<Rightarrow> TcpSegment \<Rightarrow> nat" where
  "to_seg b s = ahead b (sg_seq s) + unat (payload_len s)"

definition in_window :: "u32 \<Rightarrow> TcpSegment \<Rightarrow> bool" where
  "in_window b s \<longleftrightarrow> from_seg b s < to_seg b s \<and> to_seg b s \<le> 65535"

definition pos_of :: "u32 \<Rightarrow> seg_mem \<Rightarrow> addr \<Rightarrow> nat" where
  "pos_of b m a = from_seg b (the (sg m a))"

definition end_of :: "u32 \<Rightarrow> seg_mem \<Rightarrow> addr \<Rightarrow> nat" where
  "end_of b m a = to_seg b (the (sg m a))"

lemma pos_end_Some [simp]:
  "sg m a = Some s \<Longrightarrow> pos_of b m a = from_seg b s" "sg m a = Some s \<Longrightarrow> end_of b m a = to_seg b s"
  by (simp_all add: pos_of_def end_of_def)

lemma ahead_seg_end: "in_window b s \<Longrightarrow> ahead b (seg_end s) = to_seg b s"
proof -
  assume w: "in_window b s"
  have "seg_end s = sg_seq s + of_nat (unat (payload_len s))" by (simp add: seg_end_def)
  then show ?thesis
    using ahead_add[of b "sg_seq s" "unat (payload_len s)"] w by (simp add: in_window_def to_seg_def)
qed

text \<open>The comparisons of the code, on the ends of two segments.\<close>

lemma seg_compare:
  assumes "in_window b s" "in_window b l"
  shows
    "SEQ_LT (sg_seq s) (sg_seq l) \<longleftrightarrow> from_seg b s < from_seg b l"
    "SEQ_EQ (sg_seq s) (sg_seq l) \<longleftrightarrow> from_seg b s = from_seg b l"
    "SEQ_GT (sg_seq s) (sg_seq l) \<longleftrightarrow> from_seg b l < from_seg b s"
    "SEQ_LT (seg_end s) (sg_seq l) \<longleftrightarrow> to_seg b s < from_seg b l"
    "SEQ_LEQ (seg_end s) (sg_seq l) \<longleftrightarrow> to_seg b s \<le> from_seg b l"
    "SEQ_GT (seg_end s) (sg_seq l) \<longleftrightarrow> from_seg b l < to_seg b s"
    "SEQ_LT (sg_seq s) (seg_end l) \<longleftrightarrow> from_seg b s < to_seg b l"
    "SEQ_GEQ (sg_seq s) (seg_end l) \<longleftrightarrow> to_seg b l \<le> from_seg b s"
    "SEQ_GT (sg_seq s) (seg_end l) \<longleftrightarrow> to_seg b l < from_seg b s"
    "SEQ_LT (seg_end s) (seg_end l) \<longleftrightarrow> to_seg b s < to_seg b l"
    "SEQ_EQ (seg_end s) (seg_end l) \<longleftrightarrow> to_seg b s = to_seg b l"
    "SEQ_GT (seg_end s) (seg_end l) \<longleftrightarrow> to_seg b l < to_seg b s"
proof -
  have e: "ahead b (seg_end s) = to_seg b s" "ahead b (seg_end l) = to_seg b l"
    by (rule ahead_seg_end[OF assms(1)], rule ahead_seg_end[OF assms(2)])
  have w: "ahead b (sg_seq s) < 2 ^ 31" "ahead b (sg_seq l) < 2 ^ 31"
    "ahead b (seg_end s) < 2 ^ 31" "ahead b (seg_end l) < 2 ^ 31"
    using assms unfolding e by (simp_all add: in_window_def to_seg_def)
  note S = SEQ_ahead_from[OF w(1,2)] SEQ_ahead_from[OF w(3,2)] SEQ_ahead_from[OF w(1,4)] SEQ_ahead_from[OF w(3,4)]
  show
    "SEQ_LT (sg_seq s) (sg_seq l) \<longleftrightarrow> from_seg b s < from_seg b l"
    "SEQ_EQ (sg_seq s) (sg_seq l) \<longleftrightarrow> from_seg b s = from_seg b l"
    "SEQ_GT (sg_seq s) (sg_seq l) \<longleftrightarrow> from_seg b l < from_seg b s"
    "SEQ_LT (seg_end s) (sg_seq l) \<longleftrightarrow> to_seg b s < from_seg b l"
    "SEQ_LEQ (seg_end s) (sg_seq l) \<longleftrightarrow> to_seg b s \<le> from_seg b l"
    "SEQ_GT (seg_end s) (sg_seq l) \<longleftrightarrow> from_seg b l < to_seg b s"
    "SEQ_LT (sg_seq s) (seg_end l) \<longleftrightarrow> from_seg b s < to_seg b l"
    "SEQ_GEQ (sg_seq s) (seg_end l) \<longleftrightarrow> to_seg b l \<le> from_seg b s"
    "SEQ_GT (sg_seq s) (seg_end l) \<longleftrightarrow> to_seg b l < from_seg b s"
    "SEQ_LT (seg_end s) (seg_end l) \<longleftrightarrow> to_seg b s < to_seg b l"
    "SEQ_EQ (seg_end s) (seg_end l) \<longleftrightarrow> to_seg b s = to_seg b l"
    "SEQ_GT (seg_end s) (seg_end l) \<longleftrightarrow> to_seg b l < to_seg b s"
    by (simp_all only: S e from_seg_def)
qed

text \<open>Differences of the ends, as lengths.\<close>

lemma u16_diff:
  assumes "ahead b y \<le> ahead b x" "ahead b x \<le> 65535"
  shows "unat (ucast (x - y) :: u16) = ahead b x - ahead b y"
proof -
  define k where "k = ahead b x - ahead b y"
  have "k < 2 ^ 16" using assms by (simp add: k_def)
  then show ?thesis unfolding ucast_diff_ahead[OF assms(1), folded k_def] k_def[symmetric] by (simp add: unat_of_nat)
qed

lemma unat_add_u16: "unat (x :: u16) + unat y \<le> 65535 \<Longrightarrow> unat (x + y) = unat x + unat y"
  by (simp add: unat_word_ariths)

lemma unat_sub_u16: "unat (y :: u16) \<le> unat x \<Longrightarrow> unat (x - y) = unat x - unat y"
  by (simp add: unat_sub word_le_nat_alt)

section \<open>The invariant\<close>

text \<open>
  \<open>xs\<close> are the segments of the stream in order, \<open>others\<close> the segments in use elsewhere: the links of the list,
  its two ends, and its segments as intervals of the window that do not overlap.
\<close>

definition in_buffer :: "seg_mem \<Rightarrow> addr \<Rightarrow> bool" where
  "in_buffer m a \<longleftrightarrow> (\<exists>s. sg m a = Some s \<and> unat (payload_len s) \<le> length (payload s))"

definition list_ok :: "u32 \<Rightarrow> addr list \<Rightarrow> seg_mem \<Rightarrow> bool" where
  "list_ok b xs m \<longleftrightarrow> distinct xs \<and> dseg (sg_links m) None xs None \<and> (\<forall>a\<in>set xs. in_buffer m a) \<and>
     chain (pos_of b m) (end_of b m) 0 xs 65535"

definition ends_ok :: "addr list \<Rightarrow> seg_stream \<Rightarrow> bool" where
  "ends_ok xs stream \<longleftrightarrow> seg_head stream = first_or xs None \<and> seg_tail stream = last_or None xs"

definition seg_inv :: "seg_env \<Rightarrow> u32 \<Rightarrow> addr set \<Rightarrow> addr list \<Rightarrow> seg_stream \<Rightarrow> seg_state \<Rightarrow> bool" where
  "seg_inv env b others xs stream st \<longleftrightarrow> pools_ok env 8 (set xs \<union> others) st \<and> set xs \<inter> others = {} \<and>
     list_ok b xs (mem st) \<and> ends_ok xs stream"

lemma list_ok_window:
  assumes "list_ok b xs m" "a \<in> set xs"
  shows "\<exists>s. sg m a = Some s \<and> in_window b s \<and> unat (payload_len s) \<le> length (payload s)"
proof -
  obtain s where s: "sg m a = Some s" "unat (payload_len s) \<le> length (payload s)"
    using assms by (auto simp: list_ok_def in_buffer_def)
  moreover have "in_window b s"
    using chain_mem[of "pos_of b m" "end_of b m" 0 xs 65535 a] assms s by (simp add: list_ok_def in_window_def)
  ultimately show ?thesis by blast
qed

text \<open>The buffer of a segment in use is shorter than 64K.\<close>

lemma pools_ok_buffer:
  assumes "pools_ok env 8 used st" "sg (mem st) a = Some s"
  shows "length (payload s) < 2 ^ 16"
proof -
  have "shape (mem st) a = Some (pool_size s, length (payload s))" using assms(2) by (simp add: shape_def)
  then have "length (payload s) = unat (pool_size s)" by (rule pools_okD(7)[OF assms(1)])
  then show ?thesis using unat_bound[of "pool_size s"] by simp
qed

end
