(* ===== verification/StreamTcpSegmentOps.thy ===== *)
theory StreamTcpSegmentOps
  imports StreamTcpSegmentList
begin

text \<open>
  The two operations that change the nodes of a segment list (\<open>src/stream-tcp-reassemble.c\<close>): a segment is
  exchanged for a longer one, or a new one fills a gap. Both keep the invariant of theory StreamTcpSegmentList,
  the pools included, and write inside their buffers.
\<close>

section \<open>Linking and copying\<close>

lemma set_next_prev_commute: "set_next x v (set_prev_opt y w k) = set_prev_opt y w (set_next x v k)"
  by (cases y) (auto simp: set_next_def set_prev_def fun_eq_iff)

text \<open>A node between two parts of a list.\<close>

lemma splice_dseg:
  assumes "dseg \<sigma> None ys n" "dseg \<sigma> p zs None" "distinct (ys @ a # zs)"
    and "n_next (\<sigma> a) = first_or zs None" "n_prev (\<sigma> a) = last_or None ys"
  shows "dseg (set_prev_opt (first_or zs None) (Some a) (set_next_opt (last_or None ys) (Some a) \<sigma>)) None (ys @ a # zs) None"
proof -
  have d: "set ys \<inter> set zs = {}" "distinct ys" "distinct zs" "a \<notin> set ys" "a \<notin> set zs" using assms(3) by auto
  let ?t = "set_next_opt (last_or None ys) (Some a) \<sigma>"
  have "dseg ?t p zs None" using assms(2) disjoint_ends(1)[OF d(1)] by (simp add: dseg_frame_opt)
  moreover have "dseg ?t None ys (Some a)" using assms(1) d(2) by (rule dseg_relink_last)
  moreover have "?t a = \<sigma> a" using d(4) by (intro opt_other) (auto split: if_splits)
  ultimately show ?thesis
    using assms(4,5) d disjoint_ends(2)[OF d(1)]
    by (cases zs) (auto simp: dseg_append dseg_frame_opt dseg_relink_first dseg_frame)
qed

lemma splice_other:
  "x \<notin> set ys \<Longrightarrow> x \<notin> set zs \<Longrightarrow>
   set_prev_opt (first_or zs None) v (set_next_opt (last_or None ys) w k) x = k x"
  by (cases ys rule: rev_cases; cases zs) auto

lemma dseg_split:
  assumes "dseg \<sigma> None (ys @ l # zs) None"
  shows "dseg \<sigma> None ys (Some l)" "dseg \<sigma> (Some l) zs None" "n_prev (\<sigma> l) = last_or None ys" "n_next (\<sigma> l) = first_or zs None"
  using assms by (simp_all add: dseg_append)

lemma list_ok_same:
  assumes "list_ok b xs m" "\<And>a. a \<in> set xs \<Longrightarrow> sg m' a = sg m a" "\<And>a. a \<in> set xs \<Longrightarrow> sg_links m' a = sg_links m a"
  shows "list_ok b xs m'"
proof -
  have "dseg (sg_links m') None xs None = dseg (sg_links m) None xs None" by (rule dseg_cong) (simp add: assms(3))
  moreover have "chain (pos_of b m') (end_of b m') 0 xs 65535 = chain (pos_of b m) (end_of b m) 0 xs 65535"
    by (rule chain_cong) (simp add: pos_of_def end_of_def assms(2))
  moreover have "\<forall>a\<in>set xs. in_buffer m' a = in_buffer m a" by (simp add: in_buffer_def assms(2))
  ultimately show ?thesis using assms(1) by (auto simp: list_ok_def)
qed

lemma seg_inv_same:
  assumes "seg_inv env b others xs stream st" "pools_ok env 8 (set xs \<union> others) st'" "same_on (set xs) st st'"
  shows "seg_inv env b others xs stream st'"
  using assms list_ok_same[of b xs "mem st" "mem st'"] by (auto simp: seg_inv_def same_on_def)

text \<open>The pieces of \<open>seg\<close> that go into a segment.\<close>

definition piece_fits :: "u32 \<Rightarrow> TcpSegment \<Rightarrow> nat \<Rightarrow> nat \<Rightarrow> nat \<Rightarrow> u32 \<times> u16 \<Rightarrow> bool" where
  "piece_fits b s from len sz p \<longleftrightarrow> (case p of (start, plen) \<Rightarrow>
     from \<le> 65535 \<and> ahead b start \<le> 65535 \<and> unat plen \<le> unat (payload_len s) \<and>
     (ahead b start - from + unat plen = Suc len \<longrightarrow> Suc len \<le> sz))"

lemma replace_piece:
  assumes "sg (mem st) a = Some d" "sg (mem st) seg = Some s" "a \<noteq> seg"
    and "unat (payload_len s) \<le> length (payload s)" "length (payload s) < 2 ^ 16" "length (payload d) < 2 ^ 16"
    and "piece_fits b s (from_seg b d) (unat (payload_len d)) (length (payload d)) (start, plen)"
    and "unat (payload_len d) \<le> length (payload d)"
  shows "\<exists>B. upd_mem (StreamTcpSegmentDataReplace a seg start plen) st = Some (st\<lparr>mem := set_payload a B (mem st)\<rparr>) \<and>
    length B = length (payload d)"
proof -
  let ?off = "ahead b start - ahead b (sg_seq d)"
  have run: "StreamTcpSegmentDataReplace a seg start plen (mem st) =
      Some (if ?off + unat plen \<le> Suc (unat (payload_len d))
            then set_payload a (blit ?off (take (unat plen) (payload s)) (payload d)) (mem st) else mem st)"
    by (rule DataReplace_run) (use assms in \<open>auto simp: piece_fits_def from_seg_def le_Suc_eq\<close>)
  show ?thesis
  proof (cases "?off + unat plen \<le> Suc (unat (payload_len d))")
    case True
    then have "?off + unat plen \<le> length (payload d)"
      using assms(7,8) by (auto simp: piece_fits_def from_seg_def le_Suc_eq)
    then have "length (blit ?off (take (unat plen) (payload s)) (payload d)) = length (payload d)"
      using assms(4,7) by (intro length_blit) (simp add: piece_fits_def)
    then show ?thesis using run True by (auto simp: upd_mem_def)
  next
    case False
    then show ?thesis using run set_payload_id[OF assms(1)]
      by (intro exI[of _ "payload d"]) (simp add: upd_mem_def)
  qed
qed

lemma replace_pieces:
  assumes "sg (mem st) a = Some d" "sg (mem st) seg = Some s" "a \<noteq> seg"
    and "unat (payload_len s) \<le> length (payload s)" "length (payload s) < 2 ^ 16" "length (payload d) < 2 ^ 16"
    and "\<And>p. p \<in> set pieces \<Longrightarrow> piece_fits b s (from_seg b d) (unat (payload_len d)) (length (payload d)) p"
    and "unat (payload_len d) \<le> length (payload d)"
  shows "\<exists>B. for_each (\<lambda>st (start, len). upd_mem (StreamTcpSegmentDataReplace a seg start len) st) st pieces =
      Some (st\<lparr>mem := set_payload a B (mem st)\<rparr>) \<and> length B = length (payload d)"
  using assms
proof (induction pieces arbitrary: st d)
  case Nil
  then show ?case using set_payload_id[of "mem st" a d] by (intro exI[of _ "payload d"]) simp
next
  case (Cons p pieces)
  obtain start plen where p: "p = (start, plen)" by fastforce
  obtain B where B: "upd_mem (StreamTcpSegmentDataReplace a seg start plen) st = Some (st\<lparr>mem := set_payload a B (mem st)\<rparr>)"
    "length B = length (payload d)"
    using replace_piece[of st a d seg s b start plen] Cons.prems p by auto
  let ?st = "st\<lparr>mem := set_payload a B (mem st)\<rparr>"
  have "\<exists>B'. for_each (\<lambda>st (start, len). upd_mem (StreamTcpSegmentDataReplace a seg start len) st) ?st pieces =
      Some (?st\<lparr>mem := set_payload a B' (mem ?st)\<rparr>) \<and> length B' = length (payload (d\<lparr>payload := B\<rparr>))"
    by (rule Cons.IH) (use Cons.prems B in \<open>auto simp: from_seg_def\<close>)
  then show ?case using B p by auto
qed

lemma upd_links_simps [simp]:
  "sg (mem (upd_links f st)) = sg (mem st)" "sg_links (mem (upd_links f st)) = f (sg_links (mem st))"
  "n_mallocs (mem (upd_links f st)) = n_mallocs (mem st)"
  by (simp_all add: upd_links_def)

lemma pools_ok_links: "pools_ok env n used st \<Longrightarrow> pools_ok env n used (upd_links f st)"
  unfolding upd_links_def by (rule pools_ok_mem) (simp_all add: shape_def)

lemma shape_set_payload:
  "sg m a = Some d \<Longrightarrow> length B = length (payload d) \<Longrightarrow> shape (set_payload a B m) c = shape m c"
  by (simp add: shape_def)

text \<open>What \<open>seg_inv\<close> says of one segment of the list.\<close>

lemma seg_inv_at:
  assumes "seg_inv env b others (ys @ l # zs) stream st"
  obtains ls where "sg (mem st) l = Some ls" "in_window b ls" "unat (payload_len ls) \<le> length (payload ls)"
    "length (payload ls) < 2 ^ 16" "next_of l st = first_or zs None" "prev_of l st = last_or None ys"
    "endp (end_of b (mem st)) 0 ys \<le> from_seg b ls" "to_seg b ls \<le> startp (pos_of b (mem st)) 65535 zs"
proof -
  have ok: "list_ok b (ys @ l # zs) (mem st)" "pools_ok env 8 (set (ys @ l # zs) \<union> others) st"
    using assms by (simp_all add: seg_inv_def)
  obtain ls where ls: "sg (mem st) l = Some ls" "in_window b ls" "unat (payload_len ls) \<le> length (payload ls)"
    using list_ok_window[OF ok(1), of l] by auto
  note d = dseg_split[of "sg_links (mem st)" ys l zs]
  have "chain (pos_of b (mem st)) (end_of b (mem st)) 0 (ys @ l # zs) 65535" using ok(1) by (simp add: list_ok_def)
  then have "endp (end_of b (mem st)) 0 ys \<le> from_seg b ls" "to_seg b ls \<le> startp (pos_of b (mem st)) 65535 zs"
    using chain_start ls(1) by (auto simp: chain_append)
  moreover have "next_of l st = first_or zs None" "prev_of l st = last_or None ys"
    using d(3,4) ok(1) by (simp_all add: next_of_def prev_of_def list_ok_def)
  ultimately show ?thesis using that ls pools_ok_buffer[OF ok(2) ls(1)] by blast
qed

text \<open>
  Another segment in the place of \<open>l\<close>, or between \<open>ys\<close> and \<open>zs\<close>: the invariant of the list for the new memory.
\<close>

lemma list_ok_splice:
  assumes ok: "list_ok b (ys @ ls @ zs) m"
    and a: "a \<notin> set (ys @ zs)" "sg m' a = Some d" "unat (payload_len d) \<le> length (payload d)" "from_seg b d < to_seg b d"
    and b: "endp (end_of b m) 0 ys \<le> from_seg b d" "to_seg b d \<le> startp (pos_of b m) 65535 zs"
    and same: "\<And>x. x \<in> set (ys @ zs) \<Longrightarrow> sg m' x = sg m x"
    and links: "\<And>x. x \<in> set (ys @ zs) \<Longrightarrow> k x = sg_links m x" "n_next (k a) = first_or zs None" "n_prev (k a) = last_or None ys"
      "sg_links m' = set_prev_opt (first_or zs None) (Some a) (set_next_opt (last_or None ys) (Some a) k)"
  shows "list_ok b (ys @ a # zs) m'"
proof -
  let ?P = "pos_of b m" and ?Q = "end_of b m"
  have dist: "distinct (ys @ a # zs)" using ok a(1) by (auto simp: list_ok_def)
  obtain n p where "dseg (sg_links m) None ys n" "dseg (sg_links m) p zs None"
    using ok by (auto simp: list_ok_def dseg_append)
  then have "dseg k None ys n" "dseg k p zs None"
    using dseg_cong[of ys k "sg_links m" None n] dseg_cong[of zs k "sg_links m" p None] links(1) by simp_all
  from splice_dseg[OF this dist links(2,3)] have dseg: "dseg (sg_links m') None (ys @ a # zs) None" by (simp add: links(4))
  have ch: "chain ?P ?Q 0 (ys @ ls @ zs) 65535" using ok by (simp add: list_ok_def)
  then have c: "chain ?P ?Q 0 ys (endp ?Q 0 ys)" "\<exists>lo. chain ?P ?Q lo zs 65535"
    by (auto simp: chain_append)
  have pq: "pos_of b m' x = ?P x \<and> end_of b m' x = ?Q x" if "x \<in> set (ys @ zs)" for x
    using same[OF that] by (simp add: pos_of_def end_of_def)
  have e: "endp (end_of b m') 0 ys = endp ?Q 0 ys" using pq by (simp add: endp_def)
  have "chain (pos_of b m') (end_of b m') 0 ys (endp ?Q 0 ys)"
    using c(1) chain_cong[of ys "pos_of b m'" ?P "end_of b m'" ?Q 0 "endp ?Q 0 ys"] pq by simp
  moreover have "chain (pos_of b m') (end_of b m') (to_seg b d) zs 65535"
    using c(2) b(2) chain_startp chain_cong[of zs "pos_of b m'" ?P "end_of b m'" ?Q "to_seg b d" 65535] pq by auto
  ultimately have "chain (pos_of b m') (end_of b m') 0 (ys @ a # zs) 65535"
    using a(2,4) b(1) by (simp add: chain_append e)
  moreover have "in_buffer m' x" if "x \<in> set (ys @ a # zs)" for x
  proof (cases "x = a")
    case True
    then show ?thesis using a by (simp add: in_buffer_def)
  next
    case False
    then have "x \<in> set (ys @ zs)" using that by simp
    with same[OF this] ok show ?thesis by (auto simp: list_ok_def in_buffer_def)
  qed
  ultimately show ?thesis using dist dseg by (simp add: list_ok_def)
qed

section \<open>Exchanging a segment for a longer one\<close>

lemma swap_segment_ok:
  assumes inv: "seg_inv env b others (ys @ l # zs) stream st"
    and seg: "seg \<in> others" "sg (mem st) seg = Some s" "unat (payload_len s) \<le> length (payload s)"
    and ls: "sg (mem st) l = Some ls"
    and place: "endp (end_of b (mem st)) 0 ys \<le> ahead b n" "ahead b n \<le> from_seg b ls" "to_seg b ls \<le> ahead b n + unat len"
      "ahead b n + unat len \<le> startp (pos_of b (mem st)) 65535 zs"
    and pieces: "\<And>p. p \<in> set pieces \<Longrightarrow> piece_fits b s (ahead b n) (unat len) (buffer_size len) p"
  shows "\<exists>r stream' st'. swap_segment l seg len n pieces stream st = Some (r, stream', st') \<and>
    seg_head stream' = seg_head stream \<and> seg_policy stream' = seg_policy stream \<and>
    (case r of
       None \<Rightarrow> stream' = stream \<and> seg_inv env b others (ys @ l # zs) stream st' \<and> same_on (set (ys @ l # zs) \<union> others) st st'
     | Some a \<Rightarrow> a \<notin> set (ys @ zs) \<union> others \<and> same_on others st st' \<and>
         (\<forall>x\<in>set (ys @ zs). sg (mem st') x = sg (mem st) x) \<and>
         seg_inv env b others (ys @ a # zs) (if ys = [] then stream'\<lparr>seg_head := Some a\<rparr> else stream') st' \<and>
         (\<exists>d. sg (mem st') a = Some d \<and> sg_seq d = n \<and> payload_len d = len))"
proof -
  let ?used = "set (ys @ l # zs) \<union> others"
  have ok: "pools_ok env 8 ?used st" and lok: "list_ok b (ys @ [l] @ zs) (mem st)" and dis: "set (ys @ l # zs) \<inter> others = {}"
    using inv by (simp_all add: seg_inv_def)
  have lw: "in_window b ls" "unat (payload_len ls) \<le> length (payload ls)" "length (payload ls) < 2 ^ 16"
    "n_next (sg_links (mem st) l) = first_or zs None" "n_prev (sg_links (mem st) l) = last_or None ys"
    using seg_inv_at[OF inv] ls by (auto simp: next_of_def prev_of_def)
  have l: "l \<notin> set ys" "l \<notin> set zs" "l \<notin> others" "seg \<noteq> l"
    using lok dis seg(1) by (auto simp: list_ok_def)
  obtain r st1 where get: "StreamTcpGetSegment len st = (r, st1)" by fastforce
  note G = GetSegment_ok[OF ok get]
  show ?thesis
  proof (cases r)
    case None
    then have "pools_ok env 8 ?used st1" "same_on UNIV st st1" using G by simp_all
    then show ?thesis using None get inv seg_inv_same[OF inv] same_on_mono[of UNIV st st1]
      by (auto simp: swap_segment_def)
  next
    case (Some a)
    then obtain d0 where a: "a \<notin> ?used" "pools_ok env 8 (insert a ?used) st1" "same_on (- {a}) st st1"
      "sg (mem st1) a = Some d0" "length (payload d0) = buffer_size len" using G by auto
    have s1: "\<And>x. x \<noteq> a \<Longrightarrow> sg (mem st1) x = sg (mem st) x" "\<And>x. x \<noteq> a \<Longrightarrow> sg_links (mem st1) x = sg_links (mem st) x"
      using a(3) by (simp_all add: same_on_def)
    have ne: "l \<noteq> a" "seg \<noteq> a" using a(1) seg(1) by auto
    let ?nx = "first_or zs None" and ?pv = "last_or None ys" and ?d = "d0\<lparr>payload_len := len, sg_seq := n\<rparr>"
    have nx: "next_of l st1 = ?nx" "prev_of l st1 = ?pv" using s1(2) lw ne by (simp_all add: next_of_def prev_of_def)
    define m2 where "m2 = (mem st1)\<lparr>sg := (sg (mem st1))(a \<mapsto> ?d), sg_links := set_prev a ?pv (set_next a ?nx (sg_links (mem st1)))\<rparr>"
    have place2: "place_segment a len n ?nx ?pv st1 = Some (st1\<lparr>mem := m2\<rparr>)" using a(4) by (simp add: place_segment_def m2_def)
    have m2: "sg m2 a = Some ?d" "\<And>x. x \<noteq> a \<Longrightarrow> sg m2 x = sg (mem st) x" using s1 by (simp_all add: m2_def)
    define B0 where "B0 = blit (ahead b (sg_seq ls) - ahead b n) (take (unat (payload_len ls)) (payload ls)) (payload d0)"
    have fit: "ahead b (sg_seq ls) - ahead b n + unat (payload_len ls) \<le> buffer_size len"
      using place(2,3) buffer_size_fits[of len] by (simp add: from_seg_def to_seg_def)
    have copy: "StreamTcpSegmentDataCopy a l m2 = Some (set_payload a B0 m2)"
      unfolding B0_def
      by (rule DataCopy_run[where d = ?d, simplified])
        (use m2 ls ne lw a(5) fit place(2) buffer_size_less[of len] in \<open>auto simp: from_seg_def to_seg_def in_window_def\<close>)
    have B0: "length B0 = buffer_size len" using fit lw(2) a(5) by (simp add: B0_def)
    let ?st3 = "st1\<lparr>mem := set_payload a B0 m2\<rparr>"
    obtain B where B: "for_each (\<lambda>st (start, len). upd_mem (StreamTcpSegmentDataReplace a seg start len) st) ?st3 pieces =
        Some (?st3\<lparr>mem := set_payload a B (mem ?st3)\<rparr>)" "length B = buffer_size len"
      using replace_pieces[of ?st3 a "?d\<lparr>payload := B0\<rparr>" seg s pieces b] m2 seg ne B0 pieces
        pools_ok_buffer[OF ok seg(2)] buffer_size_less[of len] buffer_size_fits[of len]
      by (auto simp: from_seg_def)
    define m4 where "m4 = set_payload a B m2"
    have st4: "?st3\<lparr>mem := set_payload a B (mem ?st3)\<rparr> = st1\<lparr>mem := m4\<rparr>" by (simp add: m4_def)
    have m4: "sg m4 a = Some (?d\<lparr>payload := B\<rparr>)" "\<And>x. x \<noteq> a \<Longrightarrow> sg m4 x = sg (mem st) x"
      "sg_links m4 = set_prev a ?pv (set_next a ?nx (sg_links (mem st1)))"
      using m2 by (simp_all add: m4_def) (simp add: m2_def)
    have "pools_ok env 8 (insert a ?used) (st1\<lparr>mem := m4\<rparr>)"
      by (rule pools_ok_mem[OF a(2)]) (use a(4,5) B(2) s1 m4 in \<open>auto simp: shape_def m4_def m2_def\<close>)
    from ReturntoPool_ok[OF this, of l] obtain st5 where st5: "StreamTcpSegmentReturntoPool l (st1\<lparr>mem := m4\<rparr>) = Some st5"
      "pools_ok env 8 (insert a ?used - {l}) st5" "same_on (- {l}) (st1\<lparr>mem := m4\<rparr>) st5" by auto
    have s5: "\<And>x. x \<noteq> l \<Longrightarrow> sg (mem st5) x = sg m4 x" "\<And>x. x \<noteq> l \<Longrightarrow> sg_links (mem st5) x = sg_links m4 x"
      using st5(3) by (simp_all add: same_on_def)
    define st6 where "st6 = upd_links (\<lambda>k. set_prev_opt ?nx (Some a) (set_next_opt ?pv (Some a) k)) st5"
    define stream' where "stream' = (if seg_tail stream = Some l then stream\<lparr>seg_tail := Some a\<rparr> else stream)"
    have res: "swap_segment l seg len n pieces stream st = Some (Some a, stream', st6)"
      using get Some nx place2 copy B(1) st4 st5(1) by (simp add: swap_segment_def upd_mem_def st6_def stream'_def Let_def)
    have us: "insert a ?used - {l} = set (ys @ a # zs) \<union> others" using l ne(1) by auto
    have ok6: "pools_ok env 8 (set (ys @ a # zs) \<union> others) st6"
      using pools_ok_links[OF st5(2)] unfolding us st6_def .
    have keep: "\<forall>x\<in>set (ys @ zs). sg (mem st6) x = sg (mem st) x"
    proof
      fix x assume "x \<in> set (ys @ zs)"
      then have "x \<noteq> l" "x \<noteq> a" using l a(1) by auto
      then show "sg (mem st6) x = sg (mem st) x" using s5(1) m4(2) by (simp add: st6_def)
    qed
    have lok6: "list_ok b (ys @ a # zs) (mem st6)"
    proof (rule list_ok_splice[OF lok])
      show "sg (mem st6) a = Some (?d\<lparr>payload := B\<rparr>)" using s5(1) m4(1) ne(1) by (simp add: st6_def)
      show "sg_links (mem st6) = set_prev_opt ?nx (Some a) (set_next_opt ?pv (Some a) (sg_links (mem st5)))" by (simp add: st6_def)
      show "sg (mem st6) x = sg (mem st) x" if "x \<in> set (ys @ zs)" for x
        using that keep by simp
      show "sg_links (mem st5) x = sg_links (mem st) x" if "x \<in> set (ys @ zs)" for x
      proof -
        have "x \<noteq> l" "x \<noteq> a" using that l a(1) by auto
        then show ?thesis using s5(2) s1(2) m4(3) by simp
      qed
      show "from_seg b (?d\<lparr>payload := B\<rparr>) < to_seg b (?d\<lparr>payload := B\<rparr>)"
        using place(2,3) lw(1) by (simp add: from_seg_def to_seg_def in_window_def)
    qed (use a(1) B(2) buffer_size_fits[of len] place s5(2) m4(3) ne(1) in \<open>simp_all add: from_seg_def to_seg_def\<close>)
    have "ends_ok (ys @ l # zs) stream" using inv by (simp add: seg_inv_def)
    then have ends: "ends_ok (ys @ a # zs) (if ys = [] then stream'\<lparr>seg_head := Some a\<rparr> else stream')"
      using l(2) by (cases ys; cases zs rule: rev_cases) (auto simp: ends_ok_def stream'_def)
    have "seg_inv env b others (ys @ a # zs) (if ys = [] then stream'\<lparr>seg_head := Some a\<rparr> else stream') st6"
      using ok6 lok6 ends dis a(1) by (auto simp: seg_inv_def)
    moreover have "same_on others st st6"
    proof -
      have "sg (mem st6) x = sg (mem st) x \<and> sg_links (mem st6) x = sg_links (mem st) x" if x: "x \<in> others" for x
      proof -
        have "x \<noteq> l" "x \<noteq> a" "x \<notin> set ys" "x \<notin> set zs" using x l(3) a(1) dis by auto
        then have "sg_links (mem st6) x = sg_links (mem st5) x"
          by (simp add: st6_def splice_other)
        then show ?thesis using \<open>x \<noteq> l\<close> \<open>x \<noteq> a\<close> s5 m4 s1 by (simp add: st6_def)
      qed
      then show ?thesis by (simp add: same_on_def)
    qed
    moreover note keep
    moreover have "\<exists>d. sg (mem st6) a = Some d \<and> sg_seq d = n \<and> payload_len d = len"
      using s5(1) m4(1) ne(1) by (simp add: st6_def)
    moreover have "seg_head stream' = seg_head stream" "seg_policy stream' = seg_policy stream" by (simp_all add: stream'_def)
    ultimately show ?thesis using res a(1) by auto
  qed
qed

section \<open>Filling a gap\<close>

lemma fill_gap_after_ok:
  assumes inv: "seg_inv env b others (ys @ l # zs) stream st"
    and seg: "seg \<in> others" "sg (mem st) seg = Some s" "unat (payload_len s) \<le> length (payload s)"
    and ls: "sg (mem st) l = Some ls"
    and len: "0 < unat len" "unat len \<le> unat (payload_len s)" "to_seg b ls + unat len \<le> startp (pos_of b (mem st)) 65535 zs"
  shows "\<exists>r stream' st'. fill_gap_after l seg len stream st = Some (r, stream', st') \<and> seg_policy stream' = seg_policy stream \<and>
    (if r then \<exists>a. a \<notin> set (ys @ l # zs) \<union> others \<and> same_on others st st' \<and>
         (\<forall>x\<in>set (ys @ l # zs). sg (mem st') x = sg (mem st) x) \<and>
         seg_inv env b others (ys @ l # a # zs) stream' st' \<and>
         (\<exists>d. sg (mem st') a = Some d \<and> sg_seq d = seg_end ls \<and> payload_len d = len)
     else stream' = stream \<and> seg_inv env b others (ys @ l # zs) stream st' \<and> same_on (set (ys @ l # zs) \<union> others) st st')"
proof -
  let ?used = "set (ys @ l # zs) \<union> others"
  have ok: "pools_ok env 8 ?used st" and lok: "list_ok b (ys @ l # zs) (mem st)" and dis: "set (ys @ l # zs) \<inter> others = {}"
    using inv by (simp_all add: seg_inv_def)
  have lw: "in_window b ls" "n_next (sg_links (mem st) l) = first_or zs None"
    using seg_inv_at[OF inv] ls by (auto simp: next_of_def prev_of_def)
  have en: "ahead b (seg_end ls) = to_seg b ls" by (rule ahead_seg_end[OF lw(1)])
  obtain r st1 where get: "StreamTcpGetSegment len st = (r, st1)" by fastforce
  note G = GetSegment_ok[OF ok get]
  show ?thesis
  proof (cases r)
    case None
    then have "pools_ok env 8 ?used st1" "same_on UNIV st st1" using G by simp_all
    then show ?thesis using None get inv seg_inv_same[OF inv] same_on_mono[of UNIV st st1]
      by (auto simp: fill_gap_after_def)
  next
    case (Some a)
    then obtain d0 where a: "a \<notin> ?used" "pools_ok env 8 (insert a ?used) st1" "same_on (- {a}) st st1"
      "sg (mem st1) a = Some d0" "length (payload d0) = buffer_size len" using G by auto
    have s1: "\<And>x. x \<noteq> a \<Longrightarrow> sg (mem st1) x = sg (mem st) x" "\<And>x. x \<noteq> a \<Longrightarrow> sg_links (mem st1) x = sg_links (mem st) x"
      using a(3) by (simp_all add: same_on_def)
    have ne: "l \<noteq> a" "seg \<noteq> a" using a(1) seg(1) by auto
    let ?nx = "first_or zs None" and ?d = "d0\<lparr>payload_len := len, sg_seq := seg_end ls\<rparr>"
    have nx: "next_of l st1 = ?nx" using s1(2) lw(2) ne by (simp add: next_of_def)
    define k2 where "k2 = set_prev a (Some l) (set_next a ?nx (sg_links (mem st1)))"
    define k3 where "k3 = set_prev_opt ?nx (Some a) (set_next_opt (last_or None (ys @ [l])) (Some a) k2)"
    define m3 where "m3 = (mem st1)\<lparr>sg := (sg (mem st1))(a \<mapsto> ?d), sg_links := k3\<rparr>"
    have place: "place_segment a len (seg_end ls) ?nx (Some l) st1 =
        Some (st1\<lparr>mem := (mem st1)\<lparr>sg := (sg (mem st1))(a \<mapsto> ?d), sg_links := k2\<rparr>\<rparr>)"
      using a(4) by (simp add: place_segment_def k2_def)
    have link: "upd_links (\<lambda>k. set_next l (Some a) (set_prev_opt ?nx (Some a) k))
        (st1\<lparr>mem := (mem st1)\<lparr>sg := (sg (mem st1))(a \<mapsto> ?d), sg_links := k2\<rparr>\<rparr>) = st1\<lparr>mem := m3\<rparr>"
      by (simp add: upd_links_def m3_def k3_def set_next_prev_commute)
    obtain B where B: "upd_mem (StreamTcpSegmentDataReplace a seg (seg_end ls) len) (st1\<lparr>mem := m3\<rparr>) =
        Some (st1\<lparr>mem := set_payload a B m3\<rparr>)" "length B = buffer_size len"
      using replace_piece[of "st1\<lparr>mem := m3\<rparr>" a ?d seg s b "seg_end ls" len] seg ne s1 a(5) len(2) en lw(1)
        pools_ok_buffer[OF ok seg(2)] buffer_size_less[of len] buffer_size_fits[of len]
      by (auto simp: m3_def piece_fits_def from_seg_def in_window_def)
    define st4 where "st4 = st1\<lparr>mem := set_payload a B m3\<rparr>"
    define stream' where "stream' = (if seg_tail stream = Some l then stream\<lparr>seg_tail := Some a\<rparr> else stream)"
    have res: "fill_gap_after l seg len stream st = Some (True, stream', st4)"
      using get Some nx place link B(1) s1(1)[of l] ls ne(1)
      by (simp add: fill_gap_after_def stream'_def st4_def Let_def)
    have s4: "sg (mem st4) a = Some (?d\<lparr>payload := B\<rparr>)" "\<And>x. x \<noteq> a \<Longrightarrow> sg (mem st4) x = sg (mem st) x"
      "sg_links (mem st4) = k3"
      using s1 by (simp_all add: st4_def m3_def)
    have "pools_ok env 8 (insert a ?used) st4" unfolding st4_def
      by (rule pools_ok_mem[OF a(2)]) (use a(4,5) B(2) in \<open>auto simp: shape_def m3_def\<close>)
    moreover have "insert a ?used = set (ys @ l # a # zs) \<union> others" by auto
    ultimately have ok4: "pools_ok env 8 (set (ys @ l # a # zs) \<union> others) st4" by simp
    have "list_ok b ((ys @ [l]) @ a # zs) (mem st4)"
    proof (rule list_ok_splice[of b "ys @ [l]" "[]" zs "mem st"])
      show "sg_links (mem st4) = set_prev_opt (first_or zs None) (Some a) (set_next_opt (last_or None (ys @ [l])) (Some a) k2)"
        by (simp add: s4 k3_def)
      show "k2 x = sg_links (mem st) x" if "x \<in> set ((ys @ [l]) @ zs)" for x
      proof -
        have "x \<noteq> a" using that a(1) by auto
        then show ?thesis using s1(2) by (simp add: k2_def)
      qed
      show "sg (mem st4) x = sg (mem st) x" if "x \<in> set ((ys @ [l]) @ zs)" for x
        by (rule s4(2)) (use that a(1) in auto)
    qed (use lok a(1) s4(1,3) B(2) buffer_size_fits[of len] len ls en in \<open>auto simp: k2_def from_seg_def to_seg_def\<close>)
    moreover have "ends_ok (ys @ l # a # zs) stream'"
      using inv lok by (cases zs rule: rev_cases) (auto simp: seg_inv_def ends_ok_def stream'_def list_ok_def)
    ultimately have "seg_inv env b others (ys @ l # a # zs) stream' st4"
      using ok4 dis a(1) by (auto simp: seg_inv_def)
    moreover have "same_on others st st4"
    proof -
      have "sg_links (mem st4) x = sg_links (mem st) x" if x: "x \<in> others" for x
      proof -
        have "x \<notin> set (ys @ [l])" "x \<notin> set zs" "x \<noteq> a" using x a(1) dis by auto
        then show ?thesis using s1(2) unfolding s4(3) k3_def by (subst splice_other) (simp_all add: k2_def)
      qed
      moreover have "sg (mem st4) x = sg (mem st) x" if "x \<in> others" for x by (rule s4(2)) (use that a(1) in auto)
      ultimately show ?thesis by (simp add: same_on_def)
    qed
    moreover have "seg_policy stream' = seg_policy stream" by (simp add: stream'_def)
    moreover have "\<forall>x\<in>set (ys @ l # zs). sg (mem st4) x = sg (mem st) x"
      by (intro ballI s4(2)) (use a(1) in auto)
    moreover have "\<exists>d. sg (mem st4) a = Some d \<and> sg_seq d = seg_end ls \<and> payload_len d = len" by (simp add: s4(1))
    ultimately show ?thesis using res a(1)
      by (intro exI[of _ True] exI[of _ stream'] exI[of _ st4]) (simp only: if_True, blast)
  qed
qed

text \<open>Replacing bytes of a segment of the list, which is in the buffer.\<close>

lemma replace_in_list_ok:
  assumes inv: "seg_inv env b others (ys @ l # zs) stream st"
    and seg: "seg \<in> others" "sg (mem st) seg = Some s" "unat (payload_len s) \<le> length (payload s)"
    and ls: "sg (mem st) l = Some ls"
    and fit: "from_seg b ls \<le> ahead b start" "ahead b start + unat len \<le> to_seg b ls" "unat len \<le> unat (payload_len s)"
  shows "\<exists>st'. upd_mem (StreamTcpSegmentDataReplace l seg start len) st = Some st' \<and>
    seg_inv env b others (ys @ l # zs) stream st' \<and> same_on others st st' \<and>
    (\<forall>x\<in>set (ys @ l # zs). pos_of b (mem st') x = pos_of b (mem st) x \<and> end_of b (mem st') x = end_of b (mem st) x)"
proof -
  have ok: "pools_ok env 8 (set (ys @ l # zs) \<union> others) st" and lok: "list_ok b (ys @ l # zs) (mem st)"
    and dis: "set (ys @ l # zs) \<inter> others = {}"
    using inv by (simp_all add: seg_inv_def)
  have lw: "in_window b ls" "unat (payload_len ls) \<le> length (payload ls)" "length (payload ls) < 2 ^ 16"
    using seg_inv_at[OF inv] ls by auto
  have "l \<noteq> seg" using dis seg(1) by auto
  moreover have "piece_fits b s (from_seg b ls) (unat (payload_len ls)) (length (payload ls)) (start, len)"
    using fit lw(1) unfolding piece_fits_def prod.case from_seg_def to_seg_def in_window_def by linarith
  ultimately obtain B where B: "upd_mem (StreamTcpSegmentDataReplace l seg start len) st = Some (st\<lparr>mem := set_payload l B (mem st)\<rparr>)"
    "length B = length (payload ls)"
    using replace_piece[of st l ls seg s b start len] ls seg lw pools_ok_buffer[OF ok seg(2)] by blast
  let ?st = "st\<lparr>mem := set_payload l B (mem st)\<rparr>"
  have pq: "pos_of b (mem ?st) x = pos_of b (mem st) x \<and> end_of b (mem ?st) x = end_of b (mem st) x" for x
    using ls by (simp add: pos_of_def end_of_def from_seg_def to_seg_def)
  have "pools_ok env 8 (set (ys @ l # zs) \<union> others) ?st"
    by (rule pools_ok_mem[OF ok]) (use ls B(2) in \<open>simp_all add: shape_set_payload\<close>)
  moreover have "list_ok b (ys @ l # zs) (mem ?st)"
  proof -
    have "chain (pos_of b (mem ?st)) (end_of b (mem ?st)) 0 (ys @ l # zs) 65535"
      using chain_cong[of "ys @ l # zs" "pos_of b (mem ?st)" "pos_of b (mem st)" "end_of b (mem ?st)" "end_of b (mem st)" 0 65535]
        lok pq by (auto simp: list_ok_def)
    moreover have "in_buffer (mem ?st) x" if "in_buffer (mem st) x" for x
      using that ls B(2) by (auto simp: in_buffer_def)
    ultimately show ?thesis using lok by (auto simp: list_ok_def)
  qed
  moreover have "same_on others st ?st" using dis by (auto simp: same_on_def)
  ultimately show ?thesis using B(1) inv pq by (auto simp: seg_inv_def)
qed

end
