(* ===== verification/StreamTcpSegmentSteps.thy ===== *)
theory StreamTcpSegmentSteps
  imports StreamTcpSegmentOps
begin

text \<open>
  The loop of \<open>ReassembleInsertSegment\<close> (\<open>src/stream-tcp-reassemble.c\<close>) step by step: the state before each
  segment of the list, what a step may do, and the handlers' common last part.
\<close>

section \<open>The steps of the loop\<close>

text \<open>
  The one case in which a copy leaves its buffer: \<open>seg\<close> starts before \<open>p\<close>, covers the gap between \<open>p\<close> and \<open>x\<close>
  and ends in \<open>x\<close>; the segment for \<open>x\<close> and the gap fills a buffer, and the count of the bytes before \<open>x\<close>, taken
  from the start of \<open>seg\<close> instead of the end of \<open>p\<close>, is one more.
\<close>

definition overrun :: "u32 \<Rightarrow> seg_mem \<Rightarrow> TcpSegment \<Rightarrow> addr \<Rightarrow> addr \<Rightarrow> bool" where
  "overrun b m s p x \<longleftrightarrow> end_of b m p < pos_of b m x \<and> pos_of b m x < to_seg b s \<and> to_seg b s \<le> end_of b m x \<and>
     end_of b m p = from_seg b s + Suc (end_of b m x - pos_of b m x) \<and>
     buffer_size (of_nat (end_of b m x - end_of b m p)) = end_of b m x - end_of b m p"

fun no_overrun :: "u32 \<Rightarrow> seg_mem \<Rightarrow> TcpSegment \<Rightarrow> addr list \<Rightarrow> bool" where
  "no_overrun b m s (p # x # xs) \<longleftrightarrow>
     (from_seg b s < pos_of b m p \<longrightarrow> \<not> overrun b m s p x) \<and> no_overrun b m s (x # xs)"
| "no_overrun b m s _ \<longleftrightarrow> True"

lemma no_overrun_cong:
  "(\<And>x. x \<in> set xs \<Longrightarrow> pos_of b m' x = pos_of b m x \<and> end_of b m' x = end_of b m x) \<Longrightarrow>
   no_overrun b m' s xs = no_overrun b m s xs"
  by (induction b m s xs rule: no_overrun.induct) (simp_all add: overrun_def)

lemma no_overrun_tl: "no_overrun b m s (x # xs) \<Longrightarrow> no_overrun b m s xs"
  by (cases xs) auto

text \<open>The state of the loop before a segment: \<open>ys\<close> are behind, the head of \<open>zs\<close> is next.\<close>

definition ready :: "u32 \<Rightarrow> seg_mem \<Rightarrow> TcpSegment \<Rightarrow> addr list \<Rightarrow> addr list \<Rightarrow> bool" where
  "ready b m s ys zs \<longleftrightarrow> zs \<noteq> [] \<and> from_seg b s < end_of b m (last zs) \<and> no_overrun b m s zs \<and>
     (ys \<noteq> [] \<longrightarrow>
        (end_of b m (last ys) \<le> from_seg b s \<or> pos_of b m (hd zs) < to_seg b s) \<and>
        (pos_of b m (last ys) < from_seg b s \<longrightarrow>
           end_of b m (last ys) \<le> from_seg b s \<or> end_of b m (last ys) = pos_of b m (hd zs)) \<and>
        (from_seg b s \<le> pos_of b m (last ys) \<longrightarrow> \<not> overrun b m s (last ys) (hd zs)))"

lemma ready_next:
  assumes "ready b m s ys (l # zs)" "zs \<noteq> []" "ys' \<noteq> []"
    and "\<And>x. x \<in> set zs \<Longrightarrow> pos_of b m' x = pos_of b m x \<and> end_of b m' x = end_of b m x"
    and "end_of b m' (last ys') \<le> from_seg b s \<or> pos_of b m (hd zs) < to_seg b s"
    and "pos_of b m' (last ys') < from_seg b s \<Longrightarrow>
       end_of b m' (last ys') \<le> from_seg b s \<or> end_of b m' (last ys') = pos_of b m (hd zs)"
    and "from_seg b s \<le> pos_of b m' (last ys') \<Longrightarrow> \<not> overrun b m' s (last ys') (hd zs)"
  shows "ready b m' s ys' zs"
proof -
  have "no_overrun b m' s zs" using assms(1) no_overrun_tl no_overrun_cong[of zs b m' m s] assms(4) by (auto simp: ready_def)
  then show ?thesis using assms by (auto simp: ready_def)
qed

text \<open>
  The list \<open>xs'\<close> after a step: the invariant, nothing else changed, nothing covered lost and nothing but the
  range of \<open>s\<close> added.
\<close>

definition stepped :: "seg_env \<Rightarrow> u32 \<Rightarrow> addr set \<Rightarrow> TcpSegment \<Rightarrow> addr list \<Rightarrow> seg_stream \<times> seg_state
    \<Rightarrow> addr list \<Rightarrow> seg_stream \<times> seg_state \<Rightarrow> bool" where
  "stepped env b others s xs old xs' new \<longleftrightarrow> (case (old, new) of ((stream, st), (stream', st')) \<Rightarrow>
     seg_inv env b others xs' stream' st' \<and> same_on others st st' \<and> seg_policy stream' = seg_policy stream \<and>
     covers (pos_of b (mem st)) (end_of b (mem st)) xs \<subseteq> covers (pos_of b (mem st')) (end_of b (mem st')) xs' \<and>
     covers (pos_of b (mem st')) (end_of b (mem st')) xs' \<subseteq>
       covers (pos_of b (mem st)) (end_of b (mem st)) xs \<union> {from_seg b s..<to_seg b s})"

lemma steppedI:
  assumes "seg_inv env b others xs' stream' st'" "same_on others st st'" "seg_policy stream' = seg_policy stream"
    and "covers (pos_of b (mem st)) (end_of b (mem st)) xs \<subseteq> covers (pos_of b (mem st')) (end_of b (mem st')) xs'"
    and "covers (pos_of b (mem st')) (end_of b (mem st')) xs' \<subseteq>
       covers (pos_of b (mem st)) (end_of b (mem st)) xs \<union> {from_seg b s..<to_seg b s}"
  shows "stepped env b others s xs (stream, st) xs' (stream', st')"
  using assms by (simp add: stepped_def)

lemma stepped_trans:
  "stepped env b others s xs old xs1 mid \<Longrightarrow> stepped env b others s xs1 mid xs2 new \<Longrightarrow> stepped env b others s xs old xs2 new"
  unfolding stepped_def by (cases old; cases mid; cases new) (simp, blast intro: same_on_trans)

text \<open>What a handler is called with: \<open>seg\<close> is in use but not in the list.\<close>

definition incoming :: "u32 \<Rightarrow> addr set \<Rightarrow> addr \<Rightarrow> TcpSegment \<Rightarrow> seg_state \<Rightarrow> bool" where
  "incoming b others seg s st \<longleftrightarrow> seg \<in> others \<and> sg (mem st) seg = Some s \<and> in_window b s \<and>
     unat (payload_len s) \<le> length (payload s)"

lemma incoming_same: "incoming b others seg s st \<Longrightarrow> same_on others st st' \<Longrightarrow> incoming b others seg s st'"
  by (auto simp: incoming_def same_on_def)

text \<open>The last part of every handler: bytes of \<open>l\<close> are replaced, or not.\<close>

lemma maybe_replace_ok:
  assumes inv: "seg_inv env b others (ys @ l # zs) stream st" and s: "incoming b others seg s st"
    and ls: "from_seg b s' = pos_of b (mem st) l" "to_seg b s' = end_of b (mem st) l"
    and fit: "from_seg b s' \<le> ahead b start" "ahead b start + unat len \<le> to_seg b s'" "unat len \<le> unat (payload_len s)"
  shows "\<exists>st'. (if c then upd_mem (StreamTcpSegmentDataReplace l seg start len) st else Some st) = Some st' \<and>
    stepped env b others s (ys @ l # zs) (stream, st) (ys @ l # zs) (stream, st') \<and>
    (\<forall>x\<in>set (ys @ l # zs). pos_of b (mem st') x = pos_of b (mem st) x \<and> end_of b (mem st') x = end_of b (mem st) x)"
proof (cases c)
  case True
  obtain d where d: "sg (mem st) l = Some d" using seg_inv_at[OF inv] by metis
  obtain st' where st': "upd_mem (StreamTcpSegmentDataReplace l seg start len) st = Some st'"
    "seg_inv env b others (ys @ l # zs) stream st'" "same_on others st st'"
    "\<forall>x\<in>set (ys @ l # zs). pos_of b (mem st') x = pos_of b (mem st) x \<and> end_of b (mem st') x = end_of b (mem st) x"
    using replace_in_list_ok[OF inv, of seg s d start len] s d ls fit by (auto simp: incoming_def)
  then have "covers (pos_of b (mem st')) (end_of b (mem st')) (ys @ l # zs) =
      covers (pos_of b (mem st)) (end_of b (mem st)) (ys @ l # zs)" by (intro covers_cong) blast
  then have "stepped env b others s (ys @ l # zs) (stream, st) (ys @ l # zs) (stream, st')"
    using st' by (intro steppedI) auto
  then show ?thesis using st' True by auto
next
  case False
  then show ?thesis using inv by (auto intro!: steppedI)
qed

text \<open>The lengths of the ranges that a handler computes.\<close>

lemma len_seg: "in_window b s \<Longrightarrow> unat (payload_len s) = to_seg b s - from_seg b s"
  by (simp add: to_seg_def from_seg_def)

lemma unat_end_diff:
  assumes "in_window b s" "in_window b l"
  shows "from_seg b l \<le> to_seg b s \<Longrightarrow> unat (ucast (seg_end s - sg_seq l) :: u16) = to_seg b s - from_seg b l"
    "from_seg b l \<le> from_seg b s \<Longrightarrow> unat (ucast (sg_seq s - sg_seq l) :: u16) = from_seg b s - from_seg b l"
    "to_seg b l \<le> from_seg b s \<Longrightarrow> unat (ucast (sg_seq s - seg_end l) :: u16) = from_seg b s - to_seg b l"
    "to_seg b l \<le> to_seg b s \<Longrightarrow> unat (ucast (seg_end s - seg_end l) :: u16) = to_seg b s - to_seg b l"
  using assms u16_diff[of b] by (simp_all add: ahead_seg_end from_seg_def in_window_def)

lemma maybe_fill_ok:
  assumes inv: "seg_inv env b others (ys @ l # zs) stream st" and s: "incoming b others seg s st"
    and ls: "sg (mem st) l = Some ls" and le: "from_seg b s \<le> to_seg b ls"
    and c: "c \<Longrightarrow> 0 < unat len \<and> to_seg b ls + unat len \<le> startp (pos_of b (mem st)) 65535 zs \<and> to_seg b ls + unat len \<le> to_seg b s"
  shows "\<exists>r stream' st'. (if c then fill_gap_after l seg len stream st else Some (True, stream, st)) = Some (r, stream', st') \<and>
    (\<not> r \<longrightarrow> stepped env b others s (ys @ l # zs) (stream, st) (ys @ l # zs) (stream', st')) \<and>
    (r \<longrightarrow> (\<exists>mid. stepped env b others s (ys @ l # zs) (stream, st) (ys @ l # mid @ zs) (stream', st') \<and>
       (\<forall>x\<in>set (ys @ l # zs). sg (mem st') x = sg (mem st) x) \<and>
       (if c then \<exists>a. mid = [a] \<and> pos_of b (mem st') a = to_seg b ls \<and> end_of b (mem st') a = to_seg b ls + unat len else mid = [])))"
proof (cases c)
  case False
  have "stepped env b others s (ys @ l # zs) (stream, st) (ys @ l # zs) (stream, st)"
    using inv by (intro steppedI) auto
  then show ?thesis using False by auto
next
  case True
  note c = c[OF True]
  have "unat (payload_len s) = to_seg b s - from_seg b s" using len_seg s by (simp add: incoming_def)
  then have "unat len \<le> unat (payload_len s)" using c le by arith
  then obtain r stream' st' where f: "fill_gap_after l seg len stream st = Some (r, stream', st')"
    "seg_policy stream' = seg_policy stream"
    "if r then \<exists>a. a \<notin> set (ys @ l # zs) \<union> others \<and> same_on others st st' \<and>
         (\<forall>x\<in>set (ys @ l # zs). sg (mem st') x = sg (mem st) x) \<and> seg_inv env b others (ys @ l # a # zs) stream' st' \<and>
         (\<exists>d. sg (mem st') a = Some d \<and> sg_seq d = seg_end ls \<and> payload_len d = len)
     else stream' = stream \<and> seg_inv env b others (ys @ l # zs) stream st' \<and> same_on (set (ys @ l # zs) \<union> others) st st'"
    using fill_gap_after_ok[OF inv, of seg s ls len] s ls c by (auto simp: incoming_def)
  show ?thesis
  proof (cases r)
    case r: False
    then have same: "same_on (set (ys @ l # zs) \<union> others) st st'" using f(3) by simp
    then have "covers (pos_of b (mem st')) (end_of b (mem st')) (ys @ l # zs) = covers (pos_of b (mem st)) (end_of b (mem st)) (ys @ l # zs)"
      by (intro covers_cong) (auto simp: same_on_def pos_of_def end_of_def)
    then have "stepped env b others s (ys @ l # zs) (stream, st) (ys @ l # zs) (stream', st')"
      using f(2,3) r same by (intro steppedI) (auto intro: same_on_mono)
    then show ?thesis using f(1) True r by auto
  next
    case r: True
    then obtain a d where a: "same_on others st st'" "\<forall>x\<in>set (ys @ l # zs). sg (mem st') x = sg (mem st) x"
      "seg_inv env b others (ys @ l # a # zs) stream' st'" "sg (mem st') a = Some d" "sg_seq d = seg_end ls" "payload_len d = len"
      using f(3) by auto
    have w: "in_window b ls" using seg_inv_at[OF inv] ls by auto
    have pa: "pos_of b (mem st') a = to_seg b ls" "end_of b (mem st') a = to_seg b ls + unat len"
      using a(4-6) ahead_seg_end[OF w] by (simp_all add: from_seg_def to_seg_def)
    have cov: "covers (pos_of b (mem st')) (end_of b (mem st')) (ys @ l # zs) = covers (pos_of b (mem st)) (end_of b (mem st)) (ys @ l # zs)"
      by (rule covers_cong) (simp only: pos_of_def end_of_def a(2)[rule_format])
    have "covers (pos_of b (mem st')) (end_of b (mem st')) (ys @ l # a # zs) =
        covers (pos_of b (mem st)) (end_of b (mem st)) (ys @ l # zs) \<union> {to_seg b ls..<to_seg b ls + unat len}"
      unfolding cov[symmetric] by (auto simp: pa)
    then have "stepped env b others s (ys @ l # zs) (stream, st) (ys @ l # [a] @ zs) (stream', st')"
      using a(1,3) f(2) c le by (intro steppedI) auto
    then show ?thesis using f(1) True r pa a(2)
      by (intro exI[of _ r] exI[of _ stream'] exI[of _ st'], simp only: if_True) blast
  qed
qed

text \<open>
  The result of a handler for \<open>l\<close>: the step is done (1), the pool is empty (-1), or the loop goes on with
  \<open>zs\<close> and other segments before it.
\<close>

definition handled :: "seg_env \<Rightarrow> u32 \<Rightarrow> addr set \<Rightarrow> TcpSegment \<Rightarrow> addr list \<Rightarrow> addr list \<Rightarrow> seg_stream \<Rightarrow> seg_state
    \<Rightarrow> insertion \<Rightarrow> bool" where
  "handled env b others s ys lzs stream st res \<longleftrightarrow>
     (\<exists>r stream' st'. res = Some (r, stream', st') \<and>
        (if r = 1 \<or> r = - 1 then \<exists>xs'. stepped env b others s (ys @ lzs) (stream, st) xs' (stream', st')
         else r = 0 \<and> (\<exists>ys'. stepped env b others s (ys @ lzs) (stream, st) (ys' @ tl lzs) (stream', st') \<and>
                ready b (mem st') s ys' (tl lzs))))"

lemma handledI:
  assumes "res = Some (r, stream', st')" "r = 1 \<or> r = - 1 \<Longrightarrow> \<exists>xs'. stepped env b others s (ys @ lzs) (stream, st) xs' (stream', st')"
    "\<not> (r = 1 \<or> r = - 1) \<Longrightarrow> r = 0 \<and> (\<exists>ys'. stepped env b others s (ys @ lzs) (stream, st) (ys' @ tl lzs) (stream', st') \<and>
       ready b (mem st') s ys' (tl lzs))"
  shows "handled env b others s ys lzs stream st res"
  using assms unfolding handled_def by (cases "r = 1 \<or> r = - 1") auto

text \<open>A gap filled (or not) after \<open>l\<close>, bytes of \<open>l\<close> replaced (or not), and the end of the handler.\<close>

lemma fill_and_replace:
  assumes inv: "seg_inv env b others (ys @ l # zs) stream st" and s: "incoming b others seg s st"
    and rdy: "ready b (mem st) s ys (l # zs)"
    and ls: "sg (mem st) l = Some ls" and le: "from_seg b ls \<le> from_seg b s" "from_seg b s \<le> to_seg b ls"
    and c: "c \<Longrightarrow> 0 < unat len \<and> to_seg b ls + unat len \<le> startp (pos_of b (mem st)) 65535 zs \<and> to_seg b ls + unat len \<le> to_seg b s"
    and fit: "from_seg b s + unat overlap \<le> to_seg b ls" "unat overlap \<le> unat (payload_len s)"
    and beyond: "\<not> fin \<Longrightarrow> zs \<noteq> [] \<and> pos_of b (mem st) (hd zs) < to_seg b s \<and>
        (if c then to_seg b ls + unat len else to_seg b ls) = pos_of b (mem st) (hd zs)"
  shows "handled env b others s ys (l # zs) stream st
    (do {
       (ok, stream, st) \<leftarrow> (if c then fill_gap_after l seg len stream st else Some (True, stream, st));
       if \<not> ok then Some (- 1, stream, st)
       else do {
         st \<leftarrow> (if rep (seg_policy stream) then upd_mem (StreamTcpSegmentDataReplace l seg (sg_seq s) overlap) st else Some st);
         Some (if fin then 1 else 0, stream, st)
       }
     })"
proof -
  obtain r stream1 st1 where f: "(if c then fill_gap_after l seg len stream st else Some (True, stream, st)) = Some (r, stream1, st1)"
    "\<not> r \<longrightarrow> stepped env b others s (ys @ l # zs) (stream, st) (ys @ l # zs) (stream1, st1)"
    "r \<longrightarrow> (\<exists>mid. stepped env b others s (ys @ l # zs) (stream, st) (ys @ l # mid @ zs) (stream1, st1) \<and>
       (\<forall>x\<in>set (ys @ l # zs). sg (mem st1) x = sg (mem st) x) \<and>
       (if c then \<exists>a. mid = [a] \<and> pos_of b (mem st1) a = to_seg b ls \<and> end_of b (mem st1) a = to_seg b ls + unat len else mid = []))"
    using maybe_fill_ok[OF inv s ls le(2) c] by blast
  show ?thesis
  proof (cases r)
    case False
    then show ?thesis using f(2) unfolding f(1) by (intro handledI) auto
  next
    case True
    then obtain mid where mid: "stepped env b others s (ys @ l # zs) (stream, st) (ys @ l # mid @ zs) (stream1, st1)"
      "\<forall>x\<in>set (ys @ l # zs). sg (mem st1) x = sg (mem st) x"
      "if c then \<exists>a. mid = [a] \<and> pos_of b (mem st1) a = to_seg b ls \<and> end_of b (mem st1) a = to_seg b ls + unat len else mid = []"
      using f(3) by blast
    have inv1: "seg_inv env b others (ys @ l # mid @ zs) stream1 st1" and same1: "same_on others st st1"
      using mid(1) by (simp_all add: stepped_def)
    note s1 = incoming_same[OF s same1]
    have l1: "pos_of b (mem st1) l = from_seg b ls" "end_of b (mem st1) l = to_seg b ls" using mid(2) ls by simp_all
    obtain st2 where st2: "(if rep (seg_policy stream1) then upd_mem (StreamTcpSegmentDataReplace l seg (sg_seq s) overlap) st1 else Some st1) = Some st2"
      "stepped env b others s (ys @ l # mid @ zs) (stream1, st1) (ys @ l # mid @ zs) (stream1, st2)"
      "\<forall>x\<in>set (ys @ l # mid @ zs). pos_of b (mem st2) x = pos_of b (mem st1) x \<and> end_of b (mem st2) x = end_of b (mem st1) x"
      using maybe_replace_ok[OF inv1 s1, of ls "sg_seq s" overlap "rep (seg_policy stream1)"] l1 le fit
      by (auto simp: from_seg_def[of b s])
    have step: "stepped env b others s (ys @ l # zs) (stream, st) ((ys @ l # mid) @ zs) (stream1, st2)"
      using stepped_trans[OF mid(1) st2(2)] by simp
    have go: "ready b (mem st2) s (ys @ l # mid) zs" if nf: "\<not> fin"
    proof (rule ready_next[OF rdy])
      have pq: "pos_of b (mem st2) x = pos_of b (mem st) x \<and> end_of b (mem st2) x = end_of b (mem st) x" if "x \<in> set (l # zs)" for x
      proof -
        have "x \<in> set (ys @ l # mid @ zs)" "x \<in> set (ys @ l # zs)" using that by auto
        then have "pos_of b (mem st2) x = pos_of b (mem st1) x \<and> end_of b (mem st2) x = end_of b (mem st1) x"
          "sg (mem st1) x = sg (mem st) x" using st2(3) mid(2) by blast+
        then show ?thesis by (simp add: pos_of_def end_of_def)
      qed
      show "pos_of b (mem st2) x = pos_of b (mem st) x \<and> end_of b (mem st2) x = end_of b (mem st) x" if "x \<in> set zs" for x
        using pq that by simp
      show "zs \<noteq> []" using beyond[OF nf] by simp
      have e: "end_of b (mem st2) (last (ys @ l # mid)) = pos_of b (mem st) (hd zs)"
        using mid(3) st2(3) beyond[OF nf] pq[of l] ls by (cases c) auto
      then show "end_of b (mem st2) (last (ys @ l # mid)) \<le> from_seg b s \<or> end_of b (mem st2) (last (ys @ l # mid)) = pos_of b (mem st) (hd zs)"
        by simp
      show "\<not> overrun b (mem st2) s (last (ys @ l # mid)) (hd zs)"
        using e pq[of "hd zs"] beyond[OF nf] by (simp add: overrun_def)
      show "end_of b (mem st2) (last (ys @ l # mid)) \<le> from_seg b s \<or> pos_of b (mem st) (hd zs) < to_seg b s"
        using beyond[OF nf] by simp
    qed simp
    show ?thesis unfolding f(1)
    proof (rule handledI[of _ "if fin then 1 else 0" stream1 st2])
      show "\<exists>xs'. stepped env b others s (ys @ l # zs) (stream, st) xs' (stream1, st2)" using step by blast
      show "(if fin then 1 else 0 :: int) = 0 \<and>
          (\<exists>ys'. stepped env b others s (ys @ l # zs) (stream, st) (ys' @ tl (l # zs)) (stream1, st2) \<and> ready b (mem st2) s ys' (tl (l # zs)))"
        if "\<not> ((if fin then 1 else 0 :: int) = 1 \<or> (if fin then 1 else 0 :: int) = - 1)"
      proof -
        have nf: "\<not> fin" using that by auto
        show ?thesis using step go[OF nf] nf unfolding list.sel by (intro conjI exI[of _ "ys @ l # mid"]) simp_all
      qed
    qed (use True st2(1) in simp)
  qed
qed

end
