(* ===== verification/StreamTcpSegmentHandlers.thy ===== *)
theory StreamTcpSegmentHandlers
  imports StreamTcpSegmentSteps
begin

text \<open>
  The three handlers of \<open>src/stream-tcp-reassemble.c\<close> for a segment that starts at one of the list, after it or
  before it: each of them makes a step of the loop (theory StreamTcpSegmentSteps), whatever the policy.
\<close>

section \<open>A segment that starts at one of the list, or after it\<close>

text \<open>What the handlers find in \<open>list_seg->next\<close>.\<close>

lemma next_at:
  assumes "seg_inv env b others (ys @ l # zs) stream st"
  obtains nx where "deref (next_of l st) (mem st) = Some nx" "nx = None \<longleftrightarrow> zs = []"
    "\<And>x. nx = Some x \<Longrightarrow> in_window b x \<and> pos_of b (mem st) (hd zs) = from_seg b x"
    "startp (pos_of b (mem st)) 65535 zs = (case nx of None \<Rightarrow> 65535 | Some x \<Rightarrow> from_seg b x)"
proof (cases zs)
  case Nil
  then have "next_of l st = None" using seg_inv_at[OF assms] by auto
  then show ?thesis using Nil that[of None] by (simp add: deref_def)
next
  case (Cons z zs')
  then have n: "next_of l st = Some z" using seg_inv_at[OF assms] by auto
  obtain x where "sg (mem st) z = Some x" "in_window b x"
    using seg_inv_at[of env b others "ys @ [l]" z zs' stream st] assms Cons by auto
  then show ?thesis using n Cons that[of "Some x"] by (simp add: deref_def)
qed

lemmas u16_lengths = unat_end_diff len_seg unat_sub_u16

lemma SameListSegment_handled:
  assumes inv: "seg_inv env b others (ys @ l # zs) stream st" and s: "incoming b others seg s st"
    and rdy: "ready b (mem st) s ys (l # zs)" and ls: "sg (mem st) l = Some ls" and eq: "from_seg b s = from_seg b ls"
  shows "handled env b others s ys (l # zs) stream st (HandleSegmentStartsAtSameListSegment stream l seg st)"
proof -
  obtain nx where nx: "deref (next_of l st) (mem st) = Some nx" "nx = None \<longleftrightarrow> zs = []"
    "\<And>x. nx = Some x \<Longrightarrow> in_window b x \<and> pos_of b (mem st) (hd zs) = from_seg b x"
    "startp (pos_of b (mem st)) 65535 zs = (case nx of None \<Rightarrow> 65535 | Some x \<Rightarrow> from_seg b x)"
    using next_at[OF inv] by blast
  have w: "in_window b s" "sg (mem st) seg = Some s" using s by (simp_all add: incoming_def)
  have wl: "in_window b ls" "to_seg b ls \<le> startp (pos_of b (mem st)) 65535 zs" using seg_inv_at[OF inv] ls by auto
  note N = len_seg[OF w(1)] len_seg[OF wl(1)]
  note C = seg_compare[OF w(1) wl(1)]
  have pos: "from_seg b s < to_seg b s" "from_seg b ls < to_seg b ls" using w wl by (simp_all add: in_window_def)
  have e: "same_ends ls s = (if to_seg b s < to_seg b ls then Ends_before else if to_seg b s = to_seg b ls then Ends_same else Ends_after)"
    by (auto simp: same_ends_def C)
  define overlap where "overlap = same_overlap ls s"
  have ov: "unat overlap = (if to_seg b s \<le> to_seg b ls then to_seg b s else to_seg b ls) - from_seg b s"
    using eq by (auto simp: overlap_def same_overlap_def e N)
  then have ov0: "overlap \<noteq> 0" using pos eq by (auto split: if_splits)
  define beyond where "beyond = (same_ends ls s = Ends_after \<and> (case nx of None \<Rightarrow> False | Some x \<Rightarrow> SEQ_GT (seg_end s) (sg_seq x)))"
  define gap where "gap = (same_ends ls s = Ends_after \<and> (case nx of None \<Rightarrow> True | Some x \<Rightarrow> SEQ_LT (seg_end ls) (sg_seq x)))"
  define len where "len = (case nx of Some x \<Rightarrow> if beyond then ucast (sg_seq x - seg_end ls) else payload_len s - payload_len ls
                                  | None \<Rightarrow> payload_len s - payload_len ls)"
  define fin where "fin = (same_ends ls s = Ends_before \<or> same_ends ls s = Ends_same \<or> \<not> beyond)"
  have unf: "HandleSegmentStartsAtSameListSegment stream l seg st =
    (do {
       (ok, stream, st) \<leftarrow> (if gap then fill_gap_after l seg len stream st else Some (True, stream, st));
       if \<not> ok then Some (- 1, stream, st)
       else do {
         st \<leftarrow> (if same_replaces (seg_policy stream) (same_ends ls s)
                 then upd_mem (StreamTcpSegmentDataReplace l seg (sg_seq s) overlap) st else Some st);
         Some (if fin then 1 else 0, stream, st)
       }
     })"
    using ls w(2) nx(1) ov0
    unfolding HandleSegmentStartsAtSameListSegment_def Let_def overlap_def gap_def len_def fin_def beyond_def by simp
  have bey: "beyond \<longleftrightarrow> (\<exists>x. nx = Some x \<and> to_seg b ls < to_seg b s \<and> from_seg b x < to_seg b s)"
  proof (cases nx)
    case (Some x)
    then show ?thesis using nx(3)[OF Some] seg_compare(6)[OF w(1), of x] by (auto simp: beyond_def e)
  qed (simp add: beyond_def)
  have gp: "gap \<longleftrightarrow> to_seg b ls < to_seg b s \<and> (\<forall>x. nx = Some x \<longrightarrow> to_seg b ls < from_seg b x)"
  proof (cases nx)
    case (Some x)
    then show ?thesis using nx(3)[OF Some] seg_compare(4)[OF wl(1), of x] by (auto simp: gap_def e)
  qed (auto simp: gap_def e)
  have sub: "to_seg b ls < to_seg b s \<Longrightarrow> unat (payload_len s - payload_len ls) = to_seg b s - to_seg b ls"
    using N eq pos by (subst unat_sub_u16) auto
  have ln: "unat len = (case nx of Some x \<Rightarrow> min (from_seg b x) (to_seg b s) | None \<Rightarrow> to_seg b s) - to_seg b ls" if gap
  proof (cases nx)
    case (Some x)
    then show ?thesis using that sub nx(3)[OF Some] unat_end_diff(3) u16_diff[of b "seg_end ls" "sg_seq x"] ahead_seg_end[OF wl(1)]
      by (auto simp: len_def bey gp from_seg_def[of b x] in_window_def min_def)
  qed (use that sub in \<open>simp add: len_def gp\<close>)
  show ?thesis unfolding unf
  proof (rule fill_and_replace[OF inv s rdy ls])
    show "0 < unat len \<and> to_seg b ls + unat len \<le> startp (pos_of b (mem st)) 65535 zs \<and> to_seg b ls + unat len \<le> to_seg b s" if gap
      using ln[OF that] that w(1) unfolding nx(4) gp in_window_def by (cases nx) auto
    show "zs \<noteq> [] \<and> pos_of b (mem st) (hd zs) < to_seg b s \<and>
        (if gap then to_seg b ls + unat len else to_seg b ls) = pos_of b (mem st) (hd zs)" if "\<not> fin"
    proof -
      have "beyond" using that by (simp add: fin_def)
      then obtain x where x: "nx = Some x" "to_seg b ls < to_seg b s" "from_seg b x < to_seg b s" unfolding bey by blast
      have "to_seg b ls \<le> from_seg b x" using wl(2) x(1) unfolding nx(4) by simp
      then show ?thesis using x nx(2) nx(3)[OF x(1)] ln gp by auto
    qed
  qed (use eq pos ov N in auto)
qed

lemma AfterListSegment_handled:
  assumes inv: "seg_inv env b others (ys @ l # zs) stream st" and s: "incoming b others seg s st"
    and rdy: "ready b (mem st) s ys (l # zs)" and ls: "sg (mem st) l = Some ls"
    and le: "from_seg b ls \<le> from_seg b s" "from_seg b s < to_seg b ls"
  shows "handled env b others s ys (l # zs) stream st (HandleSegmentStartsAfterListSegment stream l seg st)"
proof -
  obtain nx where nx: "deref (next_of l st) (mem st) = Some nx" "nx = None \<longleftrightarrow> zs = []"
    "\<And>x. nx = Some x \<Longrightarrow> in_window b x \<and> pos_of b (mem st) (hd zs) = from_seg b x"
    "startp (pos_of b (mem st)) 65535 zs = (case nx of None \<Rightarrow> 65535 | Some x \<Rightarrow> from_seg b x)"
    using next_at[OF inv] by blast
  have w: "in_window b s" "sg (mem st) seg = Some s" using s by (simp_all add: incoming_def)
  have wl: "in_window b ls" "to_seg b ls \<le> startp (pos_of b (mem st)) 65535 zs" using seg_inv_at[OF inv] ls by auto
  note N = len_seg[OF w(1)] len_seg[OF wl(1)]
  note C = seg_compare[OF w(1) wl(1)]
  have pos: "from_seg b s < to_seg b s" "from_seg b ls < to_seg b ls" using w wl by (simp_all add: in_window_def)
  have e: "after_ends ls s = (if to_seg b s < to_seg b ls then Ends_before else if to_seg b s = to_seg b ls then Ends_same else Ends_after)"
    using le by (auto simp: after_ends_def C)
  define overlap where "overlap = after_overlap ls s"
  have ov: "unat overlap = min (to_seg b s) (to_seg b ls) - from_seg b s"
    using le unat_end_diff(3) u16_diff[of b "sg_seq s" "seg_end ls"] ahead_seg_end[OF wl(1)] wl(1)
    by (auto simp: overlap_def after_overlap_def e N min_def from_seg_def in_window_def)
  then have ov0: "overlap \<noteq> 0" using pos le by auto
  define beyond where "beyond = (after_ends ls s = Ends_after \<and> (case nx of None \<Rightarrow> False | Some x \<Rightarrow> SEQ_GT (seg_end s) (sg_seq x)))"
  define gap where "gap = (case nx of None \<Rightarrow> False | Some x \<Rightarrow> after_ends ls s = Ends_after \<and> SEQ_LT (seg_end ls) (sg_seq x))"
  define len where "len = (case nx of None \<Rightarrow> 0 | Some x \<Rightarrow>
      let gap = ucast (sg_seq x - seg_end ls) :: u16
      in if int (unat gap) > int (unat (payload_len s)) - int (unat overlap) then payload_len s - overlap else gap)"
  define fin where "fin = (after_ends ls s = Ends_before \<or> after_ends ls s = Ends_same \<or> \<not> beyond)"
  have unf: "HandleSegmentStartsAfterListSegment stream l seg st =
    (do {
       (ok, stream, st) \<leftarrow> (if gap then fill_gap_after l seg len stream st else Some (True, stream, st));
       if \<not> ok then Some (- 1, stream, st)
       else do {
         st \<leftarrow> (if after_replaces (seg_policy stream) (after_ends ls s)
                 then upd_mem (StreamTcpSegmentDataReplace l seg (sg_seq s) overlap) st else Some st);
         Some (if fin then 1 else 0, stream, st)
       }
     })"
    using ls w(2) nx(1) ov0
    unfolding HandleSegmentStartsAfterListSegment_def Let_def overlap_def gap_def len_def fin_def beyond_def
    by (cases nx) (simp add: Let_def, auto simp: Let_def)
  have bey: "beyond \<longleftrightarrow> (\<exists>x. nx = Some x \<and> to_seg b ls < to_seg b s \<and> from_seg b x < to_seg b s)"
  proof (cases nx)
    case (Some x)
    then show ?thesis using nx(3)[OF Some] seg_compare(6)[OF w(1), of x] by (auto simp: beyond_def e)
  qed (simp add: beyond_def)
  have gp: "gap \<longleftrightarrow> (\<exists>x. nx = Some x \<and> to_seg b ls < to_seg b s \<and> to_seg b ls < from_seg b x)"
  proof (cases nx)
    case (Some x)
    then show ?thesis using nx(3)[OF Some] seg_compare(4)[OF wl(1), of x] by (auto simp: gap_def e)
  qed (simp add: gap_def)
  have ln: "to_seg b ls + unat len = min (from_seg b x) (to_seg b s)" if "gap" "nx = Some x" for x
  proof -
    have x: "to_seg b ls < to_seg b s" "to_seg b ls < from_seg b x" "in_window b x"
      using gp that nx(3)[OF that(2)] by auto
    have u: "unat (ucast (sg_seq x - seg_end ls) :: u16) = from_seg b x - to_seg b ls"
      using x u16_diff[of b "seg_end ls" "sg_seq x"] ahead_seg_end[OF wl(1)] by (simp add: from_seg_def in_window_def to_seg_def)
    have v: "unat (payload_len s - overlap) = to_seg b s - to_seg b ls"
      using ov x(1) le N by (subst unat_sub_u16) auto
    have "(int (unat (ucast (sg_seq x - seg_end ls) :: u16)) > int (unat (payload_len s)) - int (unat overlap)) =
        (to_seg b s < from_seg b x)"
      unfolding u using ov x(1,2) le N by (auto simp: of_nat_diff min_def)
    then have "unat len = (if to_seg b s < from_seg b x then to_seg b s else from_seg b x) - to_seg b ls"
      unfolding len_def that(2) option.case Let_def using u v by (simp only: if_distrib[of unat] if_distribR split: if_split) auto
    then show ?thesis using x by (auto simp: min_def)
  qed
  show ?thesis unfolding unf
  proof (rule fill_and_replace[OF inv s rdy ls])
    show "0 < unat len \<and> to_seg b ls + unat len \<le> startp (pos_of b (mem st)) 65535 zs \<and> to_seg b ls + unat len \<le> to_seg b s" if gap
      using that gp ln nx(4) by fastforce
    show "zs \<noteq> [] \<and> pos_of b (mem st) (hd zs) < to_seg b s \<and>
        (if gap then to_seg b ls + unat len else to_seg b ls) = pos_of b (mem st) (hd zs)" if "\<not> fin"
    proof -
      have "beyond" using that by (simp add: fin_def)
      then obtain x where x: "nx = Some x" "to_seg b ls < to_seg b s" "from_seg b x < to_seg b s" unfolding bey by blast
      have "to_seg b ls \<le> from_seg b x" using wl(2) x(1) unfolding nx(4) by simp
      then show ?thesis using x nx(2) nx(3)[OF x(1)] ln gp by auto
    qed
  qed (use le pos ov N in auto)
qed

section \<open>A segment that starts before one of the list\<close>

text \<open>\<open>l\<close> or a longer segment in its place.\<close>

lemma maybe_swap_ok:
  assumes inv: "seg_inv env b others (ys @ l # zs) stream st" and s: "incoming b others seg s st"
    and ls: "sg (mem st) l = Some ls"
    and plan: "case plan of None \<Rightarrow> ys \<noteq> []
       | Some (len, n, pieces) \<Rightarrow> endp (end_of b (mem st)) 0 ys \<le> ahead b n \<and> from_seg b s \<le> ahead b n \<and> ahead b n \<le> from_seg b ls \<and>
           from_seg b ls \<le> to_seg b s \<and> to_seg b ls \<le> ahead b n + unat len \<and> ahead b n + unat len \<le> max (to_seg b ls) (to_seg b s) \<and>
           ahead b n + unat len \<le> startp (pos_of b (mem st)) 65535 zs \<and>
           (\<forall>p\<in>set pieces. piece_fits b s (ahead b n) (unat len) (buffer_size len) p)"
  shows "\<exists>r stream' st'. (case plan of None \<Rightarrow> Some (Some l, stream, st)
       | Some (len, n, pieces) \<Rightarrow> swap_segment l seg len n pieces stream st) = Some (r, stream', st') \<and>
    (case r of
       None \<Rightarrow> stepped env b others s (ys @ l # zs) (stream, st) (ys @ l # zs) (stream', st')
     | Some a \<Rightarrow> stepped env b others s (ys @ l # zs) (stream, st) (ys @ a # zs)
           (if ys = [] then stream'\<lparr>seg_head := Some a\<rparr> else stream', st') \<and>
         (\<forall>x\<in>set zs. sg (mem st') x = sg (mem st) x) \<and>
         (pos_of b (mem st') a, end_of b (mem st') a) =
           (case plan of None \<Rightarrow> (from_seg b ls, to_seg b ls) | Some (len, n, pieces) \<Rightarrow> (ahead b n, ahead b n + unat len)))"
proof (cases plan)
  case None
  have "stepped env b others s (ys @ l # zs) (stream, st) (ys @ l # zs) (stream, st)" using inv by (intro steppedI) auto
  then show ?thesis using None plan ls by simp
next
  case (Some q)
  obtain len n pieces where q: "q = (len, n, pieces)" by (cases q) auto
  have p: "endp (end_of b (mem st)) 0 ys \<le> ahead b n" "from_seg b s \<le> ahead b n" "ahead b n \<le> from_seg b ls"
    "to_seg b ls \<le> ahead b n + unat len" "ahead b n + unat len \<le> max (to_seg b ls) (to_seg b s)"
    "ahead b n + unat len \<le> startp (pos_of b (mem st)) 65535 zs" "from_seg b ls \<le> to_seg b s"
    "\<And>p. p \<in> set pieces \<Longrightarrow> piece_fits b s (ahead b n) (unat len) (buffer_size len) p"
    using plan Some q by auto
  have s': "seg \<in> others" "sg (mem st) seg = Some s" "unat (payload_len s) \<le> length (payload s)"
    using s by (simp_all add: incoming_def)
  obtain r stream' st' where r: "swap_segment l seg len n pieces stream st = Some (r, stream', st')"
    "seg_policy stream' = seg_policy stream"
    "case r of
       None \<Rightarrow> stream' = stream \<and> seg_inv env b others (ys @ l # zs) stream st' \<and> same_on (set (ys @ l # zs) \<union> others) st st'
     | Some a \<Rightarrow> a \<notin> set (ys @ zs) \<union> others \<and> same_on others st st' \<and>
         (\<forall>x\<in>set (ys @ zs). sg (mem st') x = sg (mem st) x) \<and>
         seg_inv env b others (ys @ a # zs) (if ys = [] then stream'\<lparr>seg_head := Some a\<rparr> else stream') st' \<and>
         (\<exists>d. sg (mem st') a = Some d \<and> sg_seq d = n \<and> payload_len d = len)"
    using swap_segment_ok[OF inv s' ls p(1,3,4,6,8)] by blast
  show ?thesis
  proof (cases r)
    case None
    then have same: "same_on (set (ys @ l # zs) \<union> others) st st'" and st': "stream' = stream" "seg_inv env b others (ys @ l # zs) stream st'"
      using r(3) by simp_all
    then have "covers (pos_of b (mem st')) (end_of b (mem st')) (ys @ l # zs) = covers (pos_of b (mem st)) (end_of b (mem st)) (ys @ l # zs)"
      by (intro covers_cong) (auto simp: same_on_def pos_of_def end_of_def)
    then have "stepped env b others s (ys @ l # zs) (stream, st) (ys @ l # zs) (stream', st')"
      using st' same by (intro steppedI) (auto intro: same_on_mono)
    then show ?thesis using None r(1) Some q by simp
  next
    case (Some a)
    let ?stream = "if ys = [] then stream'\<lparr>seg_head := Some a\<rparr> else stream'"
    obtain d where a: "same_on others st st'" "\<forall>x\<in>set (ys @ zs). sg (mem st') x = sg (mem st) x"
      "seg_inv env b others (ys @ a # zs) ?stream st'" "sg (mem st') a = Some d" "sg_seq d = n" "payload_len d = len"
      using r(3) Some by auto
    have pa: "pos_of b (mem st') a = ahead b n" "end_of b (mem st') a = ahead b n + unat len"
      using a(4-6) by (simp_all add: from_seg_def to_seg_def)
    have cov: "covers (pos_of b (mem st')) (end_of b (mem st')) (ys @ zs) = covers (pos_of b (mem st)) (end_of b (mem st)) (ys @ zs)"
      by (rule covers_cong) (simp only: pos_of_def end_of_def a(2)[rule_format])
    have c1: "covers (pos_of b (mem st')) (end_of b (mem st')) (ys @ a # zs) =
        covers (pos_of b (mem st)) (end_of b (mem st)) (ys @ zs) \<union> {ahead b n..<ahead b n + unat len}"
      unfolding cov[symmetric] by (auto simp: pa)
    have c2: "covers (pos_of b (mem st)) (end_of b (mem st)) (ys @ l # zs) =
        covers (pos_of b (mem st)) (end_of b (mem st)) (ys @ zs) \<union> {from_seg b ls..<to_seg b ls}"
      using ls by auto
    have "{from_seg b ls..<to_seg b ls} \<subseteq> {ahead b n..<ahead b n + unat len}" using p(3,4) by auto
    moreover have "{ahead b n..<ahead b n + unat len} \<subseteq> {from_seg b ls..<to_seg b ls} \<union> {from_seg b s..<to_seg b s}"
      using p(2,5,7) by auto
    ultimately have "stepped env b others s (ys @ l # zs) (stream, st) (ys @ a # zs) (?stream, st')"
      using a(1,3) r(2) by (intro steppedI) (unfold c1 c2, auto)
    then show ?thesis using Some r(1) \<open>plan = Some q\<close> q pa a(2) by simp
  qed
qed

definition swap_plan :: "addr \<Rightarrow> addr \<Rightarrow> (u16 \<times> u32 \<times> (u32 \<times> u16) list) option \<Rightarrow> seg_stream \<Rightarrow> seg_state
    \<Rightarrow> (addr option \<times> seg_stream \<times> seg_state) option" where
  "swap_plan l seg plan stream st = (case plan of None \<Rightarrow> Some (Some l, stream, st)
     | Some (len, n, pieces) \<Rightarrow> swap_segment l seg len n pieces stream st)"

definition plan_range :: "u32 \<Rightarrow> TcpSegment \<Rightarrow> (u16 \<times> u32 \<times> (u32 \<times> u16) list) option \<Rightarrow> nat \<times> nat" where
  "plan_range b ls plan = (case plan of None \<Rightarrow> (from_seg b ls, to_seg b ls)
     | Some (len, n, pieces) \<Rightarrow> (ahead b n, ahead b n + unat len))"

definition plan_ok :: "u32 \<Rightarrow> nat \<Rightarrow> nat \<Rightarrow> TcpSegment \<Rightarrow> TcpSegment \<Rightarrow> (u16 \<times> u32 \<times> (u32 \<times> u16) list) option \<Rightarrow> bool" where
  "plan_ok b lo hi ls s plan \<longleftrightarrow> (case plan of None \<Rightarrow> True
       | Some (len, n, pieces) \<Rightarrow> lo \<le> ahead b n \<and> from_seg b s \<le> ahead b n \<and> ahead b n \<le> from_seg b ls \<and>
           to_seg b ls \<le> ahead b n + unat len \<and> ahead b n + unat len \<le> max (to_seg b ls) (to_seg b s) \<and>
           ahead b n + unat len \<le> hi \<and>
           (\<forall>p\<in>set pieces. piece_fits b s (ahead b n) (unat len) (buffer_size len) p))"

lemma swap_and_replace:
  assumes inv: "seg_inv env b others (ys @ l # zs) stream st" and s: "incoming b others seg s st"
    and rdy: "ready b (mem st) s ys (l # zs)" and ls: "sg (mem st) l = Some ls" and meet: "from_seg b ls \<le> to_seg b s"
    and plan: "plan_ok b (endp (end_of b (mem st)) 0 ys) (startp (pos_of b (mem st)) 65535 zs) ls s plan" "ys = [] \<Longrightarrow> plan \<noteq> None"
    and fit: "from_seg b ls + unat overlap \<le> to_seg b ls" "unat overlap \<le> unat (payload_len s)"
    and beyond: "\<not> fin \<Longrightarrow> zs \<noteq> [] \<and> pos_of b (mem st) (hd zs) < to_seg b s \<and> from_seg b s < from_seg b ls \<and>
        snd (plan_range b ls plan) = to_seg b ls"
  shows "handled env b others s ys (l # zs) stream st
    (do {
       (a, stream, st) \<leftarrow> swap_plan l seg plan stream st;
       case a of
         None \<Rightarrow> Some (- 1, stream, st)
       | Some a \<Rightarrow> do {
           let stream = (if ys = [] then stream\<lparr>seg_head := Some a\<rparr> else stream);
           st \<leftarrow> (if rep (seg_policy stream)
                   then upd_mem (StreamTcpSegmentDataReplace a seg (sg_seq ls) overlap) st else Some st);
           Some (if fin then 1 else 0, stream, st)
         }
     })"
proof -
  have "case plan of None \<Rightarrow> ys \<noteq> []
       | Some (len, n, pieces) \<Rightarrow> endp (end_of b (mem st)) 0 ys \<le> ahead b n \<and> from_seg b s \<le> ahead b n \<and> ahead b n \<le> from_seg b ls \<and>
           from_seg b ls \<le> to_seg b s \<and> to_seg b ls \<le> ahead b n + unat len \<and> ahead b n + unat len \<le> max (to_seg b ls) (to_seg b s) \<and>
           ahead b n + unat len \<le> startp (pos_of b (mem st)) 65535 zs \<and>
           (\<forall>p\<in>set pieces. piece_fits b s (ahead b n) (unat len) (buffer_size len) p)"
    using plan meet by (cases plan) (auto simp: plan_ok_def case_prod_unfold)
  from maybe_swap_ok[OF inv s ls this] obtain r stream1 st1 where r: "swap_plan l seg plan stream st = Some (r, stream1, st1)"
    "case r of
       None \<Rightarrow> stepped env b others s (ys @ l # zs) (stream, st) (ys @ l # zs) (stream1, st1)
     | Some a \<Rightarrow> stepped env b others s (ys @ l # zs) (stream, st) (ys @ a # zs)
           (if ys = [] then stream1\<lparr>seg_head := Some a\<rparr> else stream1, st1) \<and>
         (\<forall>x\<in>set zs. sg (mem st1) x = sg (mem st) x) \<and> (pos_of b (mem st1) a, end_of b (mem st1) a) = plan_range b ls plan"
    unfolding swap_plan_def plan_range_def by blast
  show ?thesis
  proof (cases r)
    case None
    then show ?thesis using r(2) unfolding r(1) by (intro handledI) auto
  next
    case (Some a)
    define stream2 where "stream2 = (if ys = [] then stream1\<lparr>seg_head := Some a\<rparr> else stream1)"
    have a: "stepped env b others s (ys @ l # zs) (stream, st) (ys @ a # zs) (stream2, st1)"
      "\<forall>x\<in>set zs. sg (mem st1) x = sg (mem st) x" "(pos_of b (mem st1) a, end_of b (mem st1) a) = plan_range b ls plan"
      using r(2) Some by (simp_all add: stream2_def)
    have inv1: "seg_inv env b others (ys @ a # zs) stream2 st1" and same1: "same_on others st st1"
      using a(1) by (simp_all add: stepped_def)
    note s1 = incoming_same[OF s same1]
    obtain d where d: "sg (mem st1) a = Some d" using seg_inv_at[OF inv1] by metis
    then have rng: "(from_seg b d, to_seg b d) = plan_range b ls plan" using a(3) by simp
    have in_l: "from_seg b d \<le> from_seg b ls" "to_seg b ls \<le> to_seg b d"
      using rng plan(1) by (cases plan; auto simp: plan_range_def plan_ok_def)+
    obtain st2 where st2: "(if rep (seg_policy stream2) then upd_mem (StreamTcpSegmentDataReplace a seg (sg_seq ls) overlap) st1 else Some st1) = Some st2"
      "stepped env b others s (ys @ a # zs) (stream2, st1) (ys @ a # zs) (stream2, st2)"
      "\<forall>x\<in>set (ys @ a # zs). pos_of b (mem st2) x = pos_of b (mem st1) x \<and> end_of b (mem st2) x = end_of b (mem st1) x"
      using maybe_replace_ok[OF inv1 s1, of d "sg_seq ls" overlap "rep (seg_policy stream2)"] d in_l fit
      by (auto simp: from_seg_def[of b ls])
    have step: "stepped env b others s (ys @ l # zs) (stream, st) ((ys @ [a]) @ zs) (stream2, st2)"
      using stepped_trans[OF a(1) st2(2)] by simp
    have go: "ready b (mem st2) s (ys @ [a]) zs" if nf: "\<not> fin"
    proof (rule ready_next[OF rdy])
      note B = beyond[OF nf]
      have pq: "pos_of b (mem st2) x = pos_of b (mem st) x \<and> end_of b (mem st2) x = end_of b (mem st) x" if "x \<in> set zs" for x
      proof -
        have "x \<in> set (ys @ a # zs)" using that by simp
        then have "pos_of b (mem st2) x = pos_of b (mem st1) x \<and> end_of b (mem st2) x = end_of b (mem st1) x"
          "sg (mem st1) x = sg (mem st) x" using st2(3) a(2) that by blast+
        then show ?thesis by (simp add: pos_of_def end_of_def)
      qed
      show "pos_of b (mem st2) x = pos_of b (mem st) x \<and> end_of b (mem st2) x = end_of b (mem st) x" if "x \<in> set zs" for x
        by (rule pq[OF that])
      show "zs \<noteq> []" using B by simp
      have e: "end_of b (mem st2) a = to_seg b ls" "pos_of b (mem st2) a = from_seg b d"
        using st2(3) d rng B by (auto simp: prod_eq_iff)
      have "from_seg b s \<le> from_seg b d"
        using rng plan(1) B by (cases plan) (auto simp: plan_range_def plan_ok_def)
      then show "end_of b (mem st2) (last (ys @ [a])) \<le> from_seg b s \<or> end_of b (mem st2) (last (ys @ [a])) = pos_of b (mem st) (hd zs)"
        if "pos_of b (mem st2) (last (ys @ [a])) < from_seg b s"
        using that e by simp
      obtain z zs' where z: "zs = z # zs'" using B by (cases zs) auto
      have "\<not> overrun b (mem st) s l z" using rdy B ls z by (simp add: ready_def)
      then show "\<not> overrun b (mem st2) s (last (ys @ [a])) (hd zs)"
        using e pq[of z] ls z by (simp add: overrun_def)
      show "end_of b (mem st2) (last (ys @ [a])) \<le> from_seg b s \<or> pos_of b (mem st) (hd zs) < to_seg b s"
        using B by simp
    qed simp
    show ?thesis unfolding r(1)
    proof (rule handledI[of _ "if fin then 1 else 0" stream2 st2])
      show "\<exists>xs'. stepped env b others s (ys @ l # zs) (stream, st) xs' (stream2, st2)" using step by blast
      show "(if fin then 1 else 0 :: int) = 0 \<and>
          (\<exists>ys'. stepped env b others s (ys @ l # zs) (stream, st) (ys' @ tl (l # zs)) (stream2, st2) \<and> ready b (mem st2) s ys' (tl (l # zs)))"
        if "\<not> ((if fin then 1 else 0 :: int) = 1 \<or> (if fin then 1 else 0 :: int) = - 1)"
      proof -
        have nf: "\<not> fin" using that by auto
        show ?thesis using step go[OF nf] nf unfolding list.sel by (intro conjI exI[of _ "ys @ [a]"]) simp_all
      qed
    qed (use Some st2(1) in \<open>simp add: stream2_def Let_def\<close>)
  qed
qed

text \<open>The plans of the code, in the cases of the loop.\<close>

lemma before_ends_eq:
  assumes "in_window b s" "in_window b l" "from_seg b l < to_seg b s"
  shows "before_ends l s = (if to_seg b s < to_seg b l then Ends_before else if to_seg b s = to_seg b l then Ends_same else Ends_after)"
  using assms(3) by (auto simp: before_ends_def seg_compare[OF assms(1,2)])

lemma u16_gap: "in_window b s \<Longrightarrow> in_window b l \<Longrightarrow> from_seg b s \<le> from_seg b l \<Longrightarrow>
    unat (ucast (sg_seq l - sg_seq s) :: u16) = from_seg b l - from_seg b s"
  by (rule unat_end_diff(2))

lemma before_overlap_eq:
  assumes "in_window b s" "in_window b l" "from_seg b l < to_seg b s"
  shows "unat (before_overlap l s) = min (to_seg b s) (to_seg b l) - from_seg b l"
  using assms(3) by (auto simp: before_overlap_def before_ends_eq[OF assms] unat_end_diff[OF assms(1,2)] len_seg[OF assms(2)] min_def)

lemma before_head_plan:
  assumes s: "in_window b s" and l: "in_window b l" and lt: "from_seg b s < from_seg b l" "from_seg b l < to_seg b s"
    and nx: "\<And>x. nx = Some x \<Longrightarrow> in_window b x \<and> to_seg b l \<le> from_seg b x"
  shows "plan_ok b 0 (case nx of None \<Rightarrow> 65535 | Some x \<Rightarrow> from_seg b x) l s (fst (before_head l s nx))"
    "fst (before_head l s nx) \<noteq> None"
    "\<not> snd (before_head l s nx) \<Longrightarrow> (\<exists>x. nx = Some x \<and> from_seg b x < to_seg b s) \<and> before_ends l s = Ends_after \<and>
       snd (plan_range b l (fst (before_head l s nx))) = to_seg b l"
proof -
  note e = before_ends_eq[OF s l lt(2)] and ov = before_overlap_eq[OF s l lt(2)]
  note N = len_seg[OF s] len_seg[OF l]
  have pos: "from_seg b l < to_seg b l" "to_seg b l \<le> 65535" "to_seg b s \<le> 65535" using s l by (simp_all add: in_window_def)
  define more where "more = (before_ends l s = Ends_after \<and> (case nx of None \<Rightarrow> False | Some x \<Rightarrow> SEQ_LT (sg_seq x) (seg_end s)))"
  define len where "len = (if more then ucast (sg_seq l - sg_seq s) + payload_len l else payload_len s + (payload_len l - before_overlap l s))"
  define pieces where "pieces = (sg_seq s, ucast (sg_seq l - sg_seq s) :: u16) #
      (if SEQ_GT (seg_end s) (seg_end l) \<and> \<not> more then [(seg_end l, ucast (seg_end s - seg_end l))] else [])"
  have bh: "before_head l s nx = (Some (len, sg_seq s, pieces), \<not> more)"
    by (simp add: before_head_def more_def len_def pieces_def Let_def)
  have mr: "more \<longleftrightarrow> to_seg b l < to_seg b s \<and> (\<exists>x. nx = Some x \<and> from_seg b x < to_seg b s)"
  proof (cases nx)
    case (Some x)
    then show ?thesis using nx[OF Some] seg_compare(7)[of b x s] s by (auto simp: more_def e)
  qed (simp add: more_def)
  have gap: "unat (ucast (sg_seq l - sg_seq s) :: u16) = from_seg b l - from_seg b s"
    using unat_end_diff(2)[OF l s] lt by simp
  have rest: "unat (payload_len l - before_overlap l s) = to_seg b l - min (to_seg b s) (to_seg b l)"
    using ov N(2) pos lt by (subst unat_sub_u16) (auto simp: min_def)
  have len: "from_seg b s + unat len = (if more then to_seg b l else max (to_seg b l) (to_seg b s))"
  proof (cases more)
    case True
    have "unat (ucast (sg_seq l - sg_seq s) + payload_len l) = to_seg b l - from_seg b s"
      using gap N(2) pos lt by (subst unat_add_u16) auto
    then show ?thesis using True pos lt by (simp add: len_def)
  next
    case False
    have "unat (payload_len s + (payload_len l - before_overlap l s)) = max (to_seg b l) (to_seg b s) - from_seg b s"
      using rest N(1) pos lt by (subst unat_add_u16) auto
    then show ?thesis using False pos lt by (simp add: len_def)
  qed
  have fits: "piece_fits b s (from_seg b s) (unat len) (buffer_size len) p" if "p \<in> set pieces" for p
  proof -
    have "p = (sg_seq s, ucast (sg_seq l - sg_seq s)) \<or> p = (seg_end l, ucast (seg_end s - seg_end l)) \<and> to_seg b l < to_seg b s \<and> \<not> more"
      using that seg_compare(12)[OF s l] by (auto simp: pieces_def split: if_splits)
    then show ?thesis
    proof
      assume "p = (sg_seq s, ucast (sg_seq l - sg_seq s))"
      then show ?thesis using gap len N(1) pos lt s by (auto simp: piece_fits_def from_seg_def[symmetric] in_window_def split: if_splits)
    next
      assume p: "p = (seg_end l, ucast (seg_end s - seg_end l)) \<and> to_seg b l < to_seg b s \<and> \<not> more"
      then have "unat (ucast (seg_end s - seg_end l) :: u16) = to_seg b s - to_seg b l"
        using unat_end_diff(4)[OF s l] by simp
      then show ?thesis using p len N(1) pos lt by (auto simp: piece_fits_def ahead_seg_end[OF l])
    qed
  qed
  show "plan_ok b 0 (case nx of None \<Rightarrow> 65535 | Some x \<Rightarrow> from_seg b x) l s (fst (before_head l s nx))"
    using fits len mr pos lt nx unfolding bh plan_ok_def by (cases nx) (auto simp: from_seg_def[symmetric])
  show "fst (before_head l s nx) \<noteq> None" by (simp add: bh)
  show "(\<exists>x. nx = Some x \<and> from_seg b x < to_seg b s) \<and> before_ends l s = Ends_after \<and>
       snd (plan_range b l (fst (before_head l s nx))) = to_seg b l" if "\<not> snd (before_head l s nx)"
    using that mr len e unfolding bh by (auto simp: plan_range_def from_seg_def[symmetric])
qed

lemma before_inner_plan:
  assumes s: "in_window b s" and l: "in_window b l" and pv: "in_window b pv"
    and lt: "from_seg b s < from_seg b l" "from_seg b l < to_seg b s" "to_seg b pv \<le> from_seg b l"
    and nx: "\<And>x. nx = Some x \<Longrightarrow> in_window b x \<and> to_seg b l \<le> from_seg b x"
    and early: "from_seg b pv < from_seg b s \<Longrightarrow> to_seg b pv \<le> from_seg b s \<or> to_seg b pv = from_seg b l"
    and over: "from_seg b s \<le> from_seg b pv \<Longrightarrow> to_seg b pv < from_seg b l \<Longrightarrow> to_seg b s \<le> to_seg b l \<Longrightarrow>
       to_seg b pv = from_seg b s + Suc (to_seg b l - from_seg b l) \<Longrightarrow>
       buffer_size (of_nat (to_seg b l - to_seg b pv)) \<noteq> to_seg b l - to_seg b pv"
  shows "plan_ok b (to_seg b pv) (case nx of None \<Rightarrow> 65535 | Some x \<Rightarrow> from_seg b x) l s (fst (before_inner l s pv nx))"
    "before_ends l s = Ends_after \<Longrightarrow> \<not> snd (before_inner l s pv nx) \<Longrightarrow>
       (\<exists>x. nx = Some x \<and> from_seg b x < to_seg b s) \<and> fst (before_inner l s pv nx) = None"
proof -
  note e = before_ends_eq[OF s l lt(2)]
  note N = len_seg[OF s] len_seg[OF l]
  have pos: "from_seg b l < to_seg b l" "to_seg b l \<le> 65535" "to_seg b s \<le> 65535" "from_seg b pv < to_seg b pv"
    using s l pv by (simp_all add: in_window_def)
  have C: "SEQ_GT (seg_end pv) (sg_seq s) \<longleftrightarrow> from_seg b s < to_seg b pv"
    "SEQ_GT (sg_seq s) (seg_end pv) \<longleftrightarrow> to_seg b pv < from_seg b s"
    "SEQ_GT (sg_seq l) (seg_end pv) \<longleftrightarrow> to_seg b pv < from_seg b l"
    "SEQ_LT (sg_seq pv) (sg_seq s) \<longleftrightarrow> from_seg b pv < from_seg b s"
    using seg_compare[OF pv s] seg_compare[OF s pv] seg_compare[OF l pv] by blast+
  define start where "start = (if SEQ_GT (seg_end pv) (sg_seq s) then seg_end pv else sg_seq s)"
  have st: "ahead b start = max (to_seg b pv) (from_seg b s)"
    using ahead_seg_end[OF pv] by (auto simp: start_def C from_seg_def max_def)
  have gap: "unat (ucast (sg_seq l - sg_seq s) :: u16) = from_seg b l - from_seg b s"
    "unat (ucast (sg_seq l - seg_end pv) :: u16) = from_seg b l - to_seg b pv"
    "unat (ucast (sg_seq l - start) :: u16) = from_seg b l - ahead b start"
    using unat_end_diff(2)[OF l s] unat_end_diff(3)[OF l pv] lt u16_diff[of b start "sg_seq l"] pos st
    by (auto simp: from_seg_def)
  define c where "c = (case nx of None \<Rightarrow> True | Some x \<Rightarrow> SEQ_LEQ (seg_end s) (sg_seq x))"
  have cc: "c \<longleftrightarrow> (\<forall>x. nx = Some x \<longrightarrow> to_seg b s \<le> from_seg b x)"
  proof (cases nx)
    case (Some x)
    then show ?thesis using nx[OF Some] seg_compare(5)[of b s x] s by (simp add: c_def)
  qed (simp add: c_def)
  define hi where "hi = (case nx of None \<Rightarrow> 65535 | Some x \<Rightarrow> from_seg b x)"
  have hi: "to_seg b l \<le> hi" using nx pos by (cases nx) (auto simp: hi_def)
  consider (after) "to_seg b l < to_seg b s" "c" | (skip) "to_seg b l < to_seg b s" "\<not> c"
    | (within) "to_seg b s \<le> to_seg b l" "to_seg b pv < from_seg b l" | (none) "to_seg b s \<le> to_seg b l" "\<not> to_seg b pv < from_seg b l"
    by linarith
  then have "plan_ok b (to_seg b pv) hi l s (fst (before_inner l s pv nx)) \<and>
    (before_ends l s = Ends_after \<and> \<not> snd (before_inner l s pv nx) \<longrightarrow>
       (\<exists>x. nx = Some x \<and> from_seg b x < to_seg b s) \<and> fst (before_inner l s pv nx) = None)"
  proof cases
    case after
    define tail where "tail = (ucast (seg_end s - seg_end l) :: u16)"
    define front where "front = (if SEQ_GT (sg_seq s) (seg_end pv) then payload_len l + ucast (sg_seq l - sg_seq s)
                        else payload_len l + ucast (sg_seq l - seg_end pv))"
    have tl: "unat tail = to_seg b s - to_seg b l" using unat_end_diff(4)[OF s l] after(1) by (simp add: tail_def)
    have "unat (payload_len l + ucast (sg_seq l - sg_seq s)) = to_seg b l - from_seg b s"
      using gap N(2) pos lt by (subst unat_add_u16) auto
    moreover have "unat (payload_len l + ucast (sg_seq l - seg_end pv)) = to_seg b l - to_seg b pv"
      using gap N(2) pos lt by (subst unat_add_u16) auto
    ultimately have fr: "unat front = to_seg b l - ahead b start" by (auto simp: front_def C st)
    have len: "unat (front + tail) = to_seg b s - ahead b start"
      using fr tl st after(1) pos lt by (subst unat_add_u16) auto
    have bi: "before_inner l s pv nx = (Some (front + tail, start, [(start, ucast (sg_seq l - start)), (seg_end l, tail)]), True)"
      using after(1,2) e by (simp add: before_inner_def start_def[symmetric] c_def[symmetric] front_def tail_def Let_def)
    have "to_seg b s \<le> hi" using after(2) cc pos by (cases nx) (auto simp: hi_def)
    moreover have "piece_fits b s (ahead b start) (unat (front + tail)) (buffer_size (front + tail)) (start, ucast (sg_seq l - start))"
      using gap(3) len st after(1) lt pos N(1) unfolding piece_fits_def prod.case by linarith
    moreover have "piece_fits b s (ahead b start) (unat (front + tail)) (buffer_size (front + tail)) (seg_end l, tail)"
      using tl len st after(1) lt pos N(1) ahead_seg_end[OF l] unfolding piece_fits_def prod.case by linarith
    ultimately show ?thesis using len st after(1) lt pos unfolding bi plan_ok_def by auto
  next
    case skip
    have bi: "before_inner l s pv nx = (None, False)"
      using skip e by (simp add: before_inner_def start_def[symmetric] c_def[symmetric])
    then show ?thesis using skip cc by (auto simp: plan_ok_def)
  next
    case within
    define len where "len = (if SEQ_LT (sg_seq pv) (sg_seq s) then payload_len l + ucast (sg_seq l - sg_seq s)
                        else payload_len l + ucast (sg_seq l - seg_end pv))"
    have "unat (payload_len l + ucast (sg_seq l - sg_seq s)) = to_seg b l - from_seg b s"
      using gap N(2) pos lt by (subst unat_add_u16) auto
    moreover have "unat (payload_len l + ucast (sg_seq l - seg_end pv)) = to_seg b l - to_seg b pv"
      using gap N(2) pos lt by (subst unat_add_u16) auto
    ultimately have len: "unat len = to_seg b l - ahead b start"
      using early within(2) pos(4) by (auto simp: len_def C st max_def)
    have bi: "before_inner l s pv nx = (Some (len, start, [(seg_end pv, ucast (sg_seq l - sg_seq s))]), False)"
      using within e C(3) by (auto simp: before_inner_def start_def[symmetric] len_def Let_def)
    have "piece_fits b s (ahead b start) (unat len) (buffer_size len) (seg_end pv, ucast (sg_seq l - sg_seq s))"
    proof -
      have "Suc (unat len) \<le> buffer_size len"
        if *: "to_seg b pv - ahead b start + (from_seg b l - from_seg b s) = Suc (unat len)"
      proof -
        have ge: "from_seg b s \<le> from_seg b pv"
        proof (rule ccontr)
          assume "\<not> from_seg b s \<le> from_seg b pv"
          then have "to_seg b pv \<le> from_seg b s" using early within(2) by auto
          then show False using * len st lt pos by simp
        qed
        have "ahead b start = to_seg b pv" using st ge pos(4) by simp
        moreover from this * have "to_seg b pv = from_seg b s + Suc (to_seg b l - from_seg b l)" using len lt pos within by simp
        ultimately have "buffer_size (of_nat (unat len)) \<noteq> unat len"
          using over[OF ge within(2,1)] unfolding len by simp
        then show ?thesis using buffer_size_fits[of len] by simp
      qed
      then show ?thesis using gap(1) ahead_seg_end[OF pv] st lt pos N(1) unfolding piece_fits_def prod.case by auto
    qed
    then show ?thesis using len st within lt pos hi e unfolding bi plan_ok_def by auto
  next
    case none
    have bi: "before_inner l s pv nx = (None, False)"
      using none e C(3) by (auto simp: before_inner_def start_def[symmetric])
    then show ?thesis using none e by (auto simp: plan_ok_def)
  qed
  then show "plan_ok b (to_seg b pv) (case nx of None \<Rightarrow> 65535 | Some x \<Rightarrow> from_seg b x) l s (fst (before_inner l s pv nx))"
    "before_ends l s = Ends_after \<Longrightarrow> \<not> snd (before_inner l s pv nx) \<Longrightarrow>
       (\<exists>x. nx = Some x \<and> from_seg b x < to_seg b s) \<and> fst (before_inner l s pv nx) = None"
    by (simp_all add: hi_def)
qed

lemma prev_at:
  assumes "seg_inv env b others (ys @ l # zs) stream st"
  obtains pv where "deref (prev_of l st) (mem st) = Some pv" "pv = None \<longleftrightarrow> ys = []"
    "\<And>p. pv = Some p \<Longrightarrow> in_window b p \<and> pos_of b (mem st) (last ys) = from_seg b p \<and> end_of b (mem st) (last ys) = to_seg b p"
    "endp (end_of b (mem st)) 0 ys = (case pv of None \<Rightarrow> 0 | Some p \<Rightarrow> to_seg b p)"
proof (cases ys rule: rev_cases)
  case Nil
  then have "prev_of l st = None" using seg_inv_at[OF assms] by auto
  then show ?thesis using Nil that[of None] by (simp add: deref_def)
next
  case (snoc ys' y)
  then have n: "prev_of l st = Some y" using seg_inv_at[OF assms] by auto
  obtain p where "sg (mem st) y = Some p" "in_window b p"
    using seg_inv_at[of env b others ys' y "l # zs" stream st] assms snoc by auto
  then show ?thesis using n snoc that[of "Some p"] by (simp add: deref_def)
qed

lemma BeforeListSegment_handled:
  assumes inv: "seg_inv env b others (ys @ l # zs) stream st" and s: "incoming b others seg s st"
    and rdy: "ready b (mem st) s ys (l # zs)" and ls: "sg (mem st) l = Some ls"
    and lt: "from_seg b s < from_seg b ls" "from_seg b ls < to_seg b s"
  shows "handled env b others s ys (l # zs) stream st (HandleSegmentStartsBeforeListSegment stream l seg st)"
proof -
  obtain nx where nx: "deref (next_of l st) (mem st) = Some nx" "nx = None \<longleftrightarrow> zs = []"
    "\<And>x. nx = Some x \<Longrightarrow> in_window b x \<and> pos_of b (mem st) (hd zs) = from_seg b x"
    "startp (pos_of b (mem st)) 65535 zs = (case nx of None \<Rightarrow> 65535 | Some x \<Rightarrow> from_seg b x)"
    using next_at[OF inv] by blast
  obtain pv where pv: "deref (prev_of l st) (mem st) = Some pv" "pv = None \<longleftrightarrow> ys = []"
    "\<And>p. pv = Some p \<Longrightarrow> in_window b p \<and> pos_of b (mem st) (last ys) = from_seg b p \<and> end_of b (mem st) (last ys) = to_seg b p"
    "endp (end_of b (mem st)) 0 ys = (case pv of None \<Rightarrow> 0 | Some p \<Rightarrow> to_seg b p)"
    using prev_at[OF inv] by blast
  have w: "in_window b s" "sg (mem st) seg = Some s" using s by (simp_all add: incoming_def)
  have wl: "in_window b ls" "to_seg b ls \<le> startp (pos_of b (mem st)) 65535 zs" "endp (end_of b (mem st)) 0 ys \<le> from_seg b ls"
    using seg_inv_at[OF inv] ls by auto
  have nxw: "\<And>x. nx = Some x \<Longrightarrow> in_window b x \<and> to_seg b ls \<le> from_seg b x" using nx(3,4) wl(2) by auto
  have pos: "from_seg b ls < to_seg b ls" using wl by (simp add: in_window_def)
  note e = before_ends_eq[OF w(1) wl(1) lt(2)] and ov = before_overlap_eq[OF w(1) wl(1) lt(2)]
  have ov0: "before_overlap ls s \<noteq> 0" using ov lt pos by (auto simp: min_def split: if_splits)
  define pl where "pl = (case pv of None \<Rightarrow> before_head ls s nx | Some p \<Rightarrow> before_inner ls s p nx)"
  define fin where "fin = (before_ends ls s = Ends_before \<or> before_ends ls s = Ends_same \<or> snd pl)"
  have unf: "HandleSegmentStartsBeforeListSegment stream l seg st =
    (do {
       (a, stream, st) \<leftarrow> swap_plan l seg (fst pl) stream st;
       case a of
         None \<Rightarrow> Some (- 1, stream, st)
       | Some a \<Rightarrow> do {
           let stream = (if ys = [] then stream\<lparr>seg_head := Some a\<rparr> else stream);
           st \<leftarrow> (if before_replaces (seg_policy stream) (before_ends ls s)
                   then upd_mem (StreamTcpSegmentDataReplace a seg (sg_seq ls) (before_overlap ls s)) st else Some st);
           Some (if fin then 1 else 0, stream, st)
         }
     })"
    unfolding HandleSegmentStartsBeforeListSegment_def Let_def swap_plan_def fin_def
    by (simp only: ls w(2) nx(1) pv(1) bind.bind_lunit pl_def[symmetric] if_not_P[OF ov0] pv(2) case_prod_unfold)
  have "plan_ok b (endp (end_of b (mem st)) 0 ys) (startp (pos_of b (mem st)) 65535 zs) ls s (fst pl) \<and>
    (ys = [] \<longrightarrow> fst pl \<noteq> None) \<and>
    (\<not> fin \<longrightarrow> (\<exists>x. nx = Some x \<and> from_seg b x < to_seg b s) \<and> snd (plan_range b ls (fst pl)) = to_seg b ls)"
  proof (cases pv)
    case None
    have p: "pl = before_head ls s nx" using None by (simp add: pl_def)
    note H = before_head_plan[OF w(1) wl(1) lt nxw, where nx = nx, folded p]
    show ?thesis using H None pv(4) nx(4) by (simp add: fin_def)
  next
    case (Some p)
    have q: "pl = before_inner ls s p nx" using Some by (simp add: pl_def)
    have pw: "in_window b p" "to_seg b p \<le> from_seg b ls" "ys \<noteq> []" using pv wl(3) Some by auto
    have rd: "from_seg b p < from_seg b s \<Longrightarrow> to_seg b p \<le> from_seg b s \<or> to_seg b p = from_seg b ls"
      "from_seg b s \<le> from_seg b p \<Longrightarrow> \<not> overrun b (mem st) s (last ys) l"
      using rdy pv(3)[OF Some] pw(3) ls by (simp_all add: ready_def)
    have over: "from_seg b s \<le> from_seg b p \<Longrightarrow> to_seg b p < from_seg b ls \<Longrightarrow> to_seg b s \<le> to_seg b ls \<Longrightarrow>
       to_seg b p = from_seg b s + Suc (to_seg b ls - from_seg b ls) \<Longrightarrow>
       buffer_size (of_nat (to_seg b ls - to_seg b p)) \<noteq> to_seg b ls - to_seg b p"
      using rd(2) pv(3)[OF Some] ls lt(2) by (simp add: overrun_def)
    have H: "plan_ok b (to_seg b p) (case nx of None \<Rightarrow> 65535 | Some x \<Rightarrow> from_seg b x) ls s (fst pl)"
      unfolding q by (rule before_inner_plan(1)[OF w(1) wl(1) pw(1) lt pw(2)]) (use nxw rd(1) over in blast)+
    have H2: "(\<exists>x. nx = Some x \<and> from_seg b x < to_seg b s) \<and> fst pl = None" if "before_ends ls s = Ends_after" "\<not> snd pl"
      using that unfolding q
      by (intro before_inner_plan(2)[OF w(1) wl(1) pw(1) lt pw(2)]) (use nxw rd(1) over in blast)+
    have ok: "plan_ok b (endp (end_of b (mem st)) 0 ys) (startp (pos_of b (mem st)) 65535 zs) ls s (fst pl)"
      using H Some by (simp only: pv(4) nx(4) option.case)
    have "(\<exists>x. nx = Some x \<and> from_seg b x < to_seg b s) \<and> snd (plan_range b ls (fst pl)) = to_seg b ls" if nf: "\<not> fin"
    proof -
      have "before_ends ls s = Ends_after" "\<not> snd pl" using nf e by (auto simp: fin_def split: if_splits)
      from H2[OF this] show ?thesis by (auto simp: plan_range_def)
    qed
    with ok pw(3) show ?thesis by blast
  qed
  then have plan: "plan_ok b (endp (end_of b (mem st)) 0 ys) (startp (pos_of b (mem st)) 65535 zs) ls s (fst pl)"
    "ys = [] \<Longrightarrow> fst pl \<noteq> None"
    "\<not> fin \<Longrightarrow> (\<exists>x. nx = Some x \<and> from_seg b x < to_seg b s) \<and> snd (plan_range b ls (fst pl)) = to_seg b ls"
    by auto
  show ?thesis unfolding unf
  proof (rule swap_and_replace[OF inv s rdy ls _ plan(1,2)])
    show "zs \<noteq> [] \<and> pos_of b (mem st) (hd zs) < to_seg b s \<and> from_seg b s < from_seg b ls \<and>
        snd (plan_range b ls (fst pl)) = to_seg b ls" if "\<not> fin"
      using plan(3)[OF that] nx(2,3) lt by auto
  qed (use lt pos ov len_seg[OF w(1)] in \<open>auto simp: min_def\<close>)
qed

end
