(* ===== verification/StreamTcpSegmentInsert.thy ===== *)
theory StreamTcpSegmentInsert
  imports StreamTcpSegmentHandlers
begin

text \<open>
  \<open>ReassembleInsertSegment\<close> and its caller (\<open>src/stream-tcp-reassemble.c\<close>): the insertion of a segment ends and
  keeps the list and the pools, for every policy and every overlap.
\<close>

section \<open>The loop\<close>

lemma stepped_refl: "seg_inv env b others xs stream st \<Longrightarrow> stepped env b others s xs (stream, st) xs (stream, st)"
  by (intro steppedI) auto

lemma stepped_trans_mono:
  "stepped env b others s xs old xs1 mid \<Longrightarrow> stepped env b others' s xs1 mid xs2 new \<Longrightarrow> others' \<subseteq> others \<Longrightarrow>
   stepped env b others' s xs old xs2 new"
  unfolding stepped_def
  by (cases old; cases mid; cases new) (simp, blast intro: same_on_trans same_on_mono)

text \<open>\<open>seg\<close> itself becomes a member of the list, between \<open>ys\<close> and \<open>zs\<close>.\<close>

lemma link_segment_ok:
  assumes inv: "seg_inv env b others (ys @ zs) stream st" and s: "incoming b others seg s st"
    and place: "endp (end_of b (mem st)) 0 ys \<le> from_seg b s" "to_seg b s \<le> startp (pos_of b (mem st)) 65535 zs"
    and links: "\<And>x. x \<noteq> seg \<Longrightarrow> k x = sg_links (mem st) x" "n_next (k seg) = first_or zs None" "n_prev (k seg) = last_or None ys"
    and st': "st' = st\<lparr>mem := (mem st)\<lparr>sg_links := set_prev_opt (first_or zs None) (Some seg) (set_next_opt (last_or None ys) (Some seg) k)\<rparr>\<rparr>"
    and ends: "ends_ok (ys @ seg # zs) stream'" "seg_policy stream' = seg_policy stream"
  shows "stepped env b (others - {seg}) s (ys @ zs) (stream, st) (ys @ seg # zs) (stream', st')"
proof -
  have ok: "pools_ok env 8 (set (ys @ zs) \<union> others) st" and lok: "list_ok b (ys @ [] @ zs) (mem st)"
    and dis: "set (ys @ zs) \<inter> others = {}"
    using inv by (simp_all add: seg_inv_def)
  have s': "seg \<in> others" "sg (mem st) seg = Some s" "unat (payload_len s) \<le> length (payload s)" "in_window b s"
    using s by (simp_all add: incoming_def)
  then have seg: "seg \<notin> set (ys @ zs)" using dis by auto
  have "set (ys @ seg # zs) \<union> (others - {seg}) = set (ys @ zs) \<union> others" using s'(1) by auto
  moreover have "pools_ok env 8 (set (ys @ zs) \<union> others) st'"
    unfolding st' by (rule pools_ok_mem[OF ok]) (simp_all add: shape_def)
  ultimately have ok': "pools_ok env 8 (set (ys @ seg # zs) \<union> (others - {seg})) st'" by simp
  have "list_ok b (ys @ seg # zs) (mem st')"
  proof (rule list_ok_splice[OF lok seg])
    show "sg_links (mem st') = set_prev_opt (first_or zs None) (Some seg) (set_next_opt (last_or None ys) (Some seg) k)"
      by (simp add: st')
    show "k x = sg_links (mem st) x" if "x \<in> set (ys @ zs)" for x
      by (rule links(1)) (use that seg in auto)
  qed (use s' place links(2,3) in \<open>simp_all add: st' in_window_def\<close>)
  then have "seg_inv env b (others - {seg}) (ys @ seg # zs) stream' st'"
    using ok' ends(1) dis by (auto simp: seg_inv_def)
  moreover have "same_on (others - {seg}) st st'"
  proof -
    have "sg_links (mem st') x = sg_links (mem st) x" if x: "x \<in> others - {seg}" for x
    proof -
      have "x \<notin> set ys" "x \<notin> set zs" "x \<noteq> seg" using x dis by auto
      then show ?thesis using links(1) by (simp add: st' splice_other)
    qed
    then show ?thesis by (simp add: same_on_def st')
  qed
  moreover have "pos_of b (mem st') = pos_of b (mem st)" "end_of b (mem st') = end_of b (mem st)"
    by (simp_all add: pos_of_def end_of_def st' fun_eq_iff)
  ultimately show ?thesis using ends(2) s'(2) by (intro steppedI) auto
qed

lemma insert_before_ok:
  assumes inv: "seg_inv env b others (ys @ l # zs) stream st" and s: "incoming b others seg s st"
    and free: "sg_links (mem st) seg = \<lparr>n_next = None, n_prev = None\<rparr>"
    and place: "endp (end_of b (mem st)) 0 ys \<le> from_seg b s" "to_seg b s \<le> pos_of b (mem st) l"
  shows "stepped env b (others - {seg}) s (ys @ l # zs) (stream, st) (ys @ seg # l # zs) (insert_before l seg stream st)"
proof -
  define k where "k = (if ys = [] then set_next seg (Some l) (sg_links (mem st))
      else set_prev seg (last_or None ys) (set_next seg (Some l) (sg_links (mem st))))"
  have pv: "prev_of l st = last_or None ys" using seg_inv_at[OF inv] by auto
  have "seg \<notin> set (ys @ l # zs)" using inv s by (auto simp: seg_inv_def incoming_def)
  then have "insert_before l seg stream st = (if ys = [] then stream\<lparr>seg_head := Some seg\<rparr> else stream,
      st\<lparr>mem := (mem st)\<lparr>sg_links := set_prev_opt (first_or (l # zs) None) (Some seg) (set_next_opt (last_or None ys) (Some seg) k)\<rparr>\<rparr>)"
    using pv by (cases ys rule: rev_cases) (auto simp: insert_before_def upd_links_def k_def set_next_def set_prev_def fun_eq_iff)
  moreover have "stepped env b (others - {seg}) s (ys @ l # zs) (stream, st) (ys @ seg # l # zs)
     (if ys = [] then stream\<lparr>seg_head := Some seg\<rparr> else stream,
      st\<lparr>mem := (mem st)\<lparr>sg_links := set_prev_opt (first_or (l # zs) None) (Some seg) (set_next_opt (last_or None ys) (Some seg) k)\<rparr>\<rparr>)"
  proof (rule link_segment_ok[OF inv s place(1) _ _ _ _ refl])
    show "ends_ok (ys @ seg # l # zs) (if ys = [] then stream\<lparr>seg_head := Some seg\<rparr> else stream)"
      using inv by (cases ys; cases zs rule: rev_cases) (auto simp: seg_inv_def ends_ok_def)
  qed (use free place(2) in \<open>auto simp: k_def\<close>)
  ultimately show ?thesis by simp
qed

definition step_result :: "seg_env \<Rightarrow> u32 \<Rightarrow> addr set \<Rightarrow> addr \<Rightarrow> TcpSegment \<Rightarrow> addr list \<Rightarrow> addr list \<Rightarrow> seg_stream \<Rightarrow> seg_state
    \<Rightarrow> ((bool \<times> int \<times> bool) \<times> seg_stream \<times> seg_state) option \<Rightarrow> bool" where
  "step_result env b others seg s ys lzs stream st res \<longleftrightarrow>
     (\<exists>ended r ret stream' st'. res = Some ((ended, r, ret), stream', st') \<and>
        (if ended then (r = 0 \<or> r = - 1 \<and> ret) \<and>
           (\<exists>xs'. stepped env b (if ret then others else others - {seg}) s (ys @ lzs) (stream, st) xs' (stream', st'))
         else \<exists>ys'. stepped env b others s (ys @ lzs) (stream, st) (ys' @ tl lzs) (stream', st') \<and> ready b (mem st') s ys' (tl lzs)))"

lemma handled_step:
  assumes "handled env b others s ys lzs stream st res"
  shows "step_result env b others seg s ys lzs stream st
    (Option.bind res (\<lambda>(r, stream, st). Some (if r = 1 then (True, 0, True) else if r = - 1 then (True, - 1, True)
                                            else (False, r, False), stream, st)))"
proof -
  obtain r stream' st' where r: "res = Some (r, stream', st')"
    "if r = 1 \<or> r = - 1 then \<exists>xs'. stepped env b others s (ys @ lzs) (stream, st) xs' (stream', st')
     else r = 0 \<and> (\<exists>ys'. stepped env b others s (ys @ lzs) (stream, st) (ys' @ tl lzs) (stream', st') \<and> ready b (mem st') s ys' (tl lzs))"
    using assms unfolding handled_def by blast
  consider "r = 1" | "r = - 1" | "r \<noteq> 1" "r \<noteq> - 1" by blast
  then show ?thesis using r(2) unfolding r(1) step_result_def by cases auto
qed

lemma insert_step_ok:
  assumes inv: "seg_inv env b others (ys @ l # zs) stream st" and s: "incoming b others seg s st"
    and rdy: "ready b (mem st) s ys (l # zs)" and free: "sg_links (mem st) seg = \<lparr>n_next = None, n_prev = None\<rparr>"
  shows "step_result env b others seg s ys (l # zs) stream st (insert_step l seg stream st)"
proof -
  obtain ls where ls: "sg (mem st) l = Some ls" "in_window b ls" "next_of l st = first_or zs None"
    using seg_inv_at[OF inv] by metis
  have w: "in_window b s" "sg (mem st) seg = Some s" using s by (simp_all add: incoming_def)
  note C = seg_compare[OF w(1) ls(2)]
  have pos: "from_seg b s < to_seg b s" using w(1) by (simp add: in_window_def)
  define handled' where "handled' = (\<lambda>(r, stream :: seg_stream, st :: seg_state). Some (if r = 1 then (True, 0, True) else if r = - 1 then (True, - 1, True)
                                            else (False, r :: int, False), stream, st))"
  have unf: "insert_step l seg stream st =
      (if from_seg b s < from_seg b ls then
         (if to_seg b s \<le> from_seg b ls then Some ((True, 0, False), insert_before l seg stream st)
          else Option.bind (HandleSegmentStartsBeforeListSegment stream l seg st) handled')
       else if from_seg b s = from_seg b ls then Option.bind (HandleSegmentStartsAtSameListSegment stream l seg st) handled'
       else if to_seg b ls \<le> from_seg b s then
         (if next_of l st = None then
             Some ((True, 0, False), stream, upd_links (\<lambda>k. set_prev seg (Some l) (set_next l (Some seg) k)) st)
          else Some ((False, 0, False), stream, st))
       else Option.bind (HandleSegmentStartsAfterListSegment stream l seg st) handled')"
    using pos unfolding insert_step_def ls(1) w(2) bind.bind_lunit Let_def C handled'_def[symmetric] by auto
  consider (before) "from_seg b s < from_seg b ls" "to_seg b s \<le> from_seg b ls" | (into) "from_seg b s < from_seg b ls" "\<not> to_seg b s \<le> from_seg b ls"
    | (same) "from_seg b s = from_seg b ls" | (behind) "from_seg b ls < from_seg b s" "to_seg b ls \<le> from_seg b s"
    | (inside) "from_seg b ls < from_seg b s" "\<not> to_seg b ls \<le> from_seg b s"
    by linarith
  then show ?thesis
  proof cases
    case before
    have "endp (end_of b (mem st)) 0 ys \<le> from_seg b s"
      using rdy before(2) ls(1) by (auto simp: ready_def endp_def)
    then have "stepped env b (others - {seg}) s (ys @ l # zs) (stream, st) (ys @ seg # l # zs) (insert_before l seg stream st)"
      using before(2) ls(1) by (intro insert_before_ok[OF inv s free]) simp_all
    then show ?thesis using before unfolding unf step_result_def by (cases "insert_before l seg stream st") auto
  next
    case into
    then show ?thesis unfolding unf handled'_def
      using handled_step[OF BeforeListSegment_handled[OF inv s rdy ls(1)], of seg] by simp
  next
    case same
    then show ?thesis unfolding unf handled'_def
      using handled_step[OF SameListSegment_handled[OF inv s rdy ls(1)], of seg] by simp
  next
    case inside
    then show ?thesis unfolding unf handled'_def
      using handled_step[OF AfterListSegment_handled[OF inv s rdy ls(1)], of seg] by simp
  next
    case behind
    then have zs: "zs \<noteq> []" using rdy ls(1) by (auto simp: ready_def)
    have "ready b (mem st) s (ys @ [l]) zs"
      by (rule ready_next[OF rdy zs]) (use behind ls(1) in auto)
    then have "\<exists>ys'. stepped env b others s (ys @ l # zs) (stream, st) (ys' @ zs) (stream, st) \<and> ready b (mem st) s ys' zs"
      using stepped_refl[OF inv] by (intro exI[of _ "ys @ [l]"]) simp
    then show ?thesis using behind zs ls(3) unfolding unf step_result_def by auto
  qed
qed

lemma insert_loop_ok:
  assumes "seg_inv env b others (ys @ zs) stream st" "incoming b others seg s st" "ready b (mem st) s ys zs"
    "sg_links (mem st) seg = \<lparr>n_next = None, n_prev = None\<rparr>"
  shows "\<exists>r ret stream' st' xs'. insert_loop (first_or zs None) seg stream st = Some (r, ret, stream', st') \<and>
    (r = 0 \<or> r = - 1 \<and> ret) \<and> stepped env b (if ret then others else others - {seg}) s (ys @ zs) (stream, st) xs' (stream', st')"
  using assms
proof (induction zs arbitrary: ys stream st)
  case Nil
  then show ?case by (simp add: ready_def)
next
  case (Cons l zs)
  have nx: "next_of l st = first_or zs None" using seg_inv_at[OF Cons.prems(1)] by metis
  obtain ended r ret stream1 st1 where r: "insert_step l seg stream st = Some ((ended, r, ret), stream1, st1)"
    "if ended then (r = 0 \<or> r = - 1 \<and> ret) \<and>
           (\<exists>xs'. stepped env b (if ret then others else others - {seg}) s (ys @ l # zs) (stream, st) xs' (stream1, st1))
         else \<exists>ys'. stepped env b others s (ys @ l # zs) (stream, st) (ys' @ zs) (stream1, st1) \<and> ready b (mem st1) s ys' zs"
    using insert_step_ok[OF Cons.prems] unfolding step_result_def list.sel by blast
  show ?case
  proof (cases ended)
    case True
    then show ?thesis using r by (subst insert_loop.simps) simp
  next
    case False
    then obtain ys' where y: "stepped env b others s (ys @ l # zs) (stream, st) (ys' @ zs) (stream1, st1)" "ready b (mem st1) s ys' zs"
      using r(2) by auto
    have inv1: "seg_inv env b others (ys' @ zs) stream1 st1" and same: "same_on others st st1"
      using y(1) by (simp_all add: stepped_def)
    have free: "sg_links (mem st1) seg = \<lparr>n_next = None, n_prev = None\<rparr>"
      using same Cons.prems(2,4) by (simp add: same_on_def incoming_def)
    obtain r2 ret2 stream2 st2 xs2 where l2: "insert_loop (first_or zs None) seg stream1 st1 = Some (r2, ret2, stream2, st2)"
      "r2 = 0 \<or> r2 = - 1 \<and> ret2" "stepped env b (if ret2 then others else others - {seg}) s (ys' @ zs) (stream1, st1) xs2 (stream2, st2)"
      using Cons.IH[OF inv1 incoming_same[OF Cons.prems(2) same] y(2) free] by blast
    have "stepped env b (if ret2 then others else others - {seg}) s (ys @ l # zs) (stream, st) xs2 (stream2, st2)"
      by (rule stepped_trans_mono[OF y(1) l2(3)]) auto
    moreover have "insert_loop (first_or (l # zs) None) seg stream st = Some (r2, ret2, stream2, st2)"
      using False r(1) l2(1) nx by (subst insert_loop.simps) (simp add: Let_def)
    ultimately show ?thesis using l2(2) by blast
  qed
qed

section \<open>Insertion\<close>

text \<open>
  The list \<open>xs'\<close> after an insertion: the invariant, the segments that are in use elsewhere unchanged, nothing
  covered lost and nothing but the range of \<open>s\<close> added.
\<close>

definition inserted :: "seg_env \<Rightarrow> u32 \<Rightarrow> addr set \<Rightarrow> TcpSegment \<Rightarrow> addr list \<Rightarrow> seg_state \<Rightarrow> addr list \<Rightarrow> seg_stream \<times> seg_state \<Rightarrow> bool" where
  "inserted env b others s xs st xs' new \<longleftrightarrow> (case new of (stream', st') \<Rightarrow>
     seg_inv env b others xs' stream' st' \<and> same_on others st st' \<and>
     covers (pos_of b (mem st)) (end_of b (mem st)) xs \<subseteq> covers (pos_of b (mem st')) (end_of b (mem st')) xs' \<and>
     covers (pos_of b (mem st')) (end_of b (mem st')) xs' \<subseteq>
       covers (pos_of b (mem st)) (end_of b (mem st)) xs \<union> {from_seg b s..<to_seg b s})"

lemma stepped_inserted: "stepped env b others s xs (stream, st) xs' new \<Longrightarrow> inserted env b others s xs st xs' new"
  by (cases new) (simp add: stepped_def inserted_def)

lemma return_segment_ok:
  assumes "stepped env b others s xs old xs' (stream, st)" "seg \<in> others"
  shows "\<exists>st'. StreamTcpSegmentReturntoPool seg st = Some st' \<and> stepped env b (others - {seg}) s xs old xs' (stream, st')"
proof -
  have inv: "seg_inv env b others xs' stream st" using assms(1) by (cases old) (simp add: stepped_def)
  then have ok: "pools_ok env 8 (set xs' \<union> others) st" and dis: "set xs' \<inter> others = {}" by (simp_all add: seg_inv_def)
  from ReturntoPool_ok[OF ok, of seg] assms(2) obtain st' where st': "StreamTcpSegmentReturntoPool seg st = Some st'"
    "pools_ok env 8 (set xs' \<union> others - {seg}) st'" "same_on (- {seg}) st st'" by auto
  have us: "set xs' \<union> others - {seg} = set xs' \<union> (others - {seg})" using dis assms(2) by auto
  have same: "same_on (set xs') st st'" "same_on (others - {seg}) st st'"
    using st'(3) dis assms(2) by (auto simp: same_on_def)
  have "list_ok b xs' (mem st')"
    using list_ok_same[of b xs' "mem st" "mem st'"] inv same(1) by (simp add: seg_inv_def same_on_def)
  then have "seg_inv env b (others - {seg}) xs' stream st'"
    using st'(2) inv unfolding us by (auto simp: seg_inv_def)
  moreover have "covers (pos_of b (mem st')) (end_of b (mem st')) xs' = covers (pos_of b (mem st)) (end_of b (mem st)) xs'"
    using same(1) by (intro covers_cong) (auto simp: same_on_def pos_of_def end_of_def)
  ultimately have "stepped env b (others - {seg}) s xs' (stream, st) xs' (stream, st')"
    using same(2) by (intro steppedI) auto
  from stepped_trans_mono[OF assms(1) this] show ?thesis using st'(1) by auto
qed

lemma seg_inv_policy: "seg_inv env b others xs (stream\<lparr>seg_policy := v\<rparr>) st = seg_inv env b others xs stream st"
  by (simp add: seg_inv_def ends_ok_def)

text \<open>The empty list, and the fast track at the end of the list.\<close>

text \<open>An operation that changes nothing but the links of the segments.\<close>

definition links_only :: "seg_state \<Rightarrow> seg_state \<Rightarrow> bool" where
  "links_only st st' \<longleftrightarrow> (\<exists>k. st' = st\<lparr>mem := (mem st)\<lparr>sg_links := k\<rparr>\<rparr>)"

lemma links_only_simps [simp]: "links_only st (upd_links f st)" "links_only st (st\<lparr>mem := (mem st)\<lparr>sg_links := k\<rparr>\<rparr>)"
  by (auto simp: links_only_def upd_links_def)

lemma links_onlyD:
  assumes "links_only st st'"
  shows "sg (mem st') = sg (mem st)" "segment_pool st' = segment_pool st" "stream_memuse (mem st') = stream_memuse (mem st)"
  using assms by (auto simp: links_only_def)

lemma append_segment_ok:
  assumes inv: "seg_inv env b others xs stream st" and s: "incoming b others seg s st"
    and free: "sg_links (mem st) seg = \<lparr>n_next = None, n_prev = None\<rparr>"
    and last: "xs \<noteq> [] \<Longrightarrow> end_of b (mem st) (last xs) \<le> from_seg b s"
  shows "\<exists>stream' st'. ReassembleInsertSegment E p stream seg st = Some (0, stream', st') \<and> links_only st st' \<and>
    stepped env b (others - {seg}) s xs (stream, st) (xs @ [seg]) (stream', st')"
proof (cases xs rule: rev_cases)
  case Nil
  have "seg_head stream = None" using inv Nil by (simp add: seg_inv_def ends_ok_def)
  then have "ReassembleInsertSegment E p stream seg st =
      Some (0, stream\<lparr>seg_head := Some seg, seg_tail := Some seg\<rparr>, upd_links (set_prev seg None) st)"
    by (simp add: ReassembleInsertSegment_def)
  moreover have "stepped env b (others - {seg}) s ([] @ []) (stream, st) ([] @ seg # [])
      (stream\<lparr>seg_head := Some seg, seg_tail := Some seg\<rparr>, upd_links (set_prev seg None) st)"
    by (rule link_segment_ok[OF _ s, where k = "set_prev seg None (sg_links (mem st))"])
      (use inv Nil free s in \<open>simp_all add: upd_links_def ends_ok_def incoming_def in_window_def\<close>)
  ultimately show ?thesis using Nil by simp
next
  case (snoc ys t)
  have hd: "seg_head stream = first_or xs None" "seg_tail stream = Some t" "xs \<noteq> []"
    using inv snoc by (simp_all add: seg_inv_def ends_ok_def)
  then obtain h where h: "seg_head stream = Some h" by (cases xs) auto
  obtain ts where t: "sg (mem st) t = Some ts" "in_window b ts"
    using seg_inv_at[of env b others ys t "[]" stream st] inv snoc by metis
  have w: "in_window b s" "sg (mem st) seg = Some s" using s by (simp_all add: incoming_def)
  have le: "to_seg b ts \<le> from_seg b s" using last[OF hd(3)] snoc t(1) by simp
  let ?k = "set_prev seg (Some t) (sg_links (mem st))"
  have "set_prev seg (Some t) (set_next t (Some seg) (sg_links (mem st))) = set_next t (Some seg) ?k"
    using set_next_prev_commute[of t "Some seg" "Some seg" "Some t"] by simp
  then have "ReassembleInsertSegment E p stream seg st =
      Some (0, stream\<lparr>seg_tail := Some seg\<rparr>, st\<lparr>mem := (mem st)\<lparr>sg_links := set_next t (Some seg) ?k\<rparr>\<rparr>)"
    using le h hd(2) t(1) w(2) seg_compare(8)[OF w(1) t(2)] by (simp add: ReassembleInsertSegment_def upd_links_def)
  moreover have "stepped env b (others - {seg}) s (xs @ []) (stream, st) (xs @ seg # [])
      (stream\<lparr>seg_tail := Some seg\<rparr>, st\<lparr>mem := (mem st)\<lparr>sg_links := set_next t (Some seg) ?k\<rparr>\<rparr>)"
    by (rule link_segment_ok[OF _ s, where k = ?k])
      (use inv le t(1) w(1) hd free snoc in \<open>auto simp: endp_def ends_ok_def in_window_def\<close>)
  ultimately show ?thesis by simp
qed

text \<open>The other segments go through the loop, with the policy set.\<close>

definition loop_stream :: "'g engine \<Rightarrow> TcpPacket \<Rightarrow> seg_stream \<Rightarrow> seg_stream" where
  "loop_stream E p stream = (if seg_policy stream = 0
     then stream\<lparr>seg_policy := os_policy (StreamTcpSetOSPolicy E p (zero_stream :: 'g TcpStream))\<rparr> else stream)"

lemma seg_inv_loop_stream: "seg_inv env b others xs (loop_stream E p stream) st = seg_inv env b others xs stream st"
  by (simp add: loop_stream_def seg_inv_policy)

lemma insert_in_loop:
  assumes inv: "seg_inv env b others xs stream st" and s: "incoming b others seg s st"
    and last: "xs \<noteq> []" "from_seg b s < end_of b (mem st) (last xs)"
  shows "ReassembleInsertSegment E p stream seg st = do {
      (r, return_seg, stream, st) \<leftarrow> insert_loop (first_or xs None) seg (loop_stream E p stream) st;
      st \<leftarrow> (if return_seg then StreamTcpSegmentReturntoPool seg st else Some st);
      Some (r, stream, st)
    }"
proof -
  obtain ys t where snoc: "xs = ys @ [t]" using last(1) by (cases xs rule: rev_cases) auto
  have hd: "seg_head stream = first_or xs None" "seg_tail stream = Some t"
    using inv snoc by (simp_all add: seg_inv_def ends_ok_def)
  then obtain h where h: "seg_head stream = Some h" using last(1) by (cases xs) auto
  obtain ts where t: "sg (mem st) t = Some ts" "in_window b ts"
    using seg_inv_at[of env b others ys t "[]" stream st] inv snoc by metis
  have w: "in_window b s" "sg (mem st) seg = Some s" using s by (simp_all add: incoming_def)
  have "\<not> SEQ_GEQ (sg_seq s) (seg_end ts)" using last(2) snoc t(1) seg_compare(8)[OF w(1) t(2)] by simp
  then show ?thesis using h hd(1,2) t(1) w(2)
    by (simp add: ReassembleInsertSegment_def loop_stream_def Let_def)
qed

lemma InsertSegment_ok:
  assumes inv: "seg_inv env b others xs stream st" and s: "incoming b others seg s st"
    and free: "sg_links (mem st) seg = \<lparr>n_next = None, n_prev = None\<rparr>" and over: "no_overrun b (mem st) s xs"
  shows "\<exists>r stream' st' xs'. ReassembleInsertSegment E p stream seg st = Some (r, stream', st') \<and> (r = 0 \<or> r = - 1) \<and>
    inserted env b (others - {seg}) s xs st xs' (stream', st')"
proof (cases "xs \<noteq> [] \<longrightarrow> end_of b (mem st) (last xs) \<le> from_seg b s")
  case True
  then show ?thesis using append_segment_ok[OF inv s free, of E p] stepped_inserted by blast
next
  case False
  then have l: "xs \<noteq> []" "from_seg b s < end_of b (mem st) (last xs)" by auto
  note R = insert_in_loop[OF inv s l, of E p]
  have seg: "seg \<in> others" using s by (simp add: incoming_def)
  have inv0: "seg_inv env b others ([] @ xs) (loop_stream E p stream) st" using inv by (simp add: seg_inv_loop_stream)
  have "ready b (mem st) s [] xs" using over l by (simp add: ready_def)
  from insert_loop_ok[OF inv0 s this free] obtain r ret stream1 st1 xs' where
    r: "insert_loop (first_or xs None) seg (loop_stream E p stream) st = Some (r, ret, stream1, st1)" "r = 0 \<or> r = - 1 \<and> ret"
      "stepped env b (if ret then others else others - {seg}) s xs (loop_stream E p stream, st) xs' (stream1, st1)"
    by auto
  show ?thesis
  proof (cases ret)
    case True
    then have "stepped env b others s xs (loop_stream E p stream, st) xs' (stream1, st1)" using r(3) by simp
    from return_segment_ok[OF this seg] obtain st2 where "StreamTcpSegmentReturntoPool seg st1 = Some st2"
      "stepped env b (others - {seg}) s xs (loop_stream E p stream, st) xs' (stream1, st2)" by blast
    then show ?thesis using r(1,2) True stepped_inserted unfolding R by fastforce
  next
    case False
    then show ?thesis using r stepped_inserted unfolding R by fastforce
  qed
qed


text \<open>The segment of a packet.\<close>

definition packet_segment :: "TcpPacket \<Rightarrow> bytes \<Rightarrow> TcpSegment" where
  "packet_segment p data = \<lparr>payload = data, payload_len = pay_len p, pool_size = pay_len p, sg_seq = th_seq p, sg_flags = 0\<rparr>"

lemma no_overrun_segment:
  "sg_seq s = sg_seq s' \<Longrightarrow> payload_len s = payload_len s' \<Longrightarrow>
   no_overrun b m s xs = no_overrun b m s' xs"
  by (induction b m s xs rule: no_overrun.induct) (simp_all add: overrun_def from_seg_def to_seg_def)

text \<open>The segment that a packet gets: in use, free of links, with the bytes of the packet.\<close>

lemma packet_segment_ok:
  assumes inv: "seg_inv env b others xs stream st" and get: "StreamTcpGetSegment (pay_len p) st = (Some seg, st1)"
    and p: "in_window b (packet_segment p data)" "unat (pay_len p) \<le> length data"
  shows "\<exists>st2 s. store_payload seg data (th_seq p) (pay_len p) st1 = Some st2 \<and> seg \<notin> set xs \<union> others \<and>
    incoming b (insert seg others) seg s st2 \<and> sg_seq s = th_seq p \<and> payload_len s = pay_len p \<and>
    take (unat (pay_len p)) (payload s) = take (unat (pay_len p)) data \<and>
    sg_links (mem st2) seg = \<lparr>n_next = None, n_prev = None\<rparr> \<and>
    seg_inv env b (insert seg others) xs stream st2 \<and> same_on (set xs \<union> others) st st2"
proof -
  have ok: "pools_ok env 8 (set xs \<union> others) st" and dis: "set xs \<inter> others = {}" using inv by (simp_all add: seg_inv_def)
  obtain d where d: "seg \<notin> set xs \<union> others" "pools_ok env 8 (insert seg (set xs \<union> others)) st1" "same_on (- {seg}) st st1"
    "sg (mem st1) seg = Some d" "length (payload d) = buffer_size (pay_len p)"
    using GetSegment_ok[OF ok get] by auto
  define s where "s = d\<lparr>payload := take (unat (pay_len p)) data @ drop (unat (pay_len p)) (payload d),
    payload_len := pay_len p, sg_seq := th_seq p\<rparr>"
  define st2 where "st2 = st1\<lparr>mem := (mem st1)\<lparr>sg := (sg (mem st1))(seg \<mapsto> s),
    sg_links := set_prev seg None (set_next seg None (sg_links (mem st1)))\<rparr>\<rparr>"
  have fit: "unat (pay_len p) \<le> length (payload d)" using d(5) buffer_size_fits[of "pay_len p"] by simp
  have store: "store_payload seg data (th_seq p) (pay_len p) st1 = Some st2"
    using d(4) fit p(2) by (simp add: store_payload_def st2_def s_def)
  have len: "length (payload s) = length (payload d)" using fit p(2) by (simp add: s_def)
  have "pools_ok env 8 (insert seg (set xs \<union> others)) st2" unfolding st2_def
    by (rule pools_ok_mem[OF d(2)]) (use d(4) len in \<open>auto simp: shape_def s_def\<close>)
  moreover have same: "same_on (- {seg}) st st2"
    using d(3) by (simp add: same_on_def st2_def)
  moreover have "same_on (set xs) st st2" using same_on_mono[OF same] d(1) by auto
  ultimately have "seg_inv env b (insert seg others) xs stream st2"
    using inv d(1) list_ok_same[of b xs "mem st" "mem st2"] by (auto simp: seg_inv_def same_on_def)
  moreover have "incoming b (insert seg others) seg s st2"
    using p(1) fit len by (auto simp: incoming_def st2_def s_def in_window_def from_seg_def to_seg_def packet_segment_def)
  moreover have "take (unat (pay_len p)) (payload s) = take (unat (pay_len p)) data" using p(2) by (simp add: s_def)
  moreover have "same_on (set xs \<union> others) st st2" using same_on_mono[OF same] d(1) by auto
  moreover have "sg_links (mem st2) seg = \<lparr>n_next = None, n_prev = None\<rparr>"
    by (simp add: st2_def set_next_def set_prev_def)
  ultimately show ?thesis using store d(1) by (intro exI[of _ st2] exI[of _ s]) (simp add: s_def)
qed

lemma HandleData_ok:
  assumes inv: "seg_inv env b others xs stream st"
    and p: "in_window b (packet_segment p data)" "unat (pay_len p) \<le> length data"
    and over: "no_overrun b (mem st) (packet_segment p data) xs"
  shows "\<exists>r stream' st' xs'. StreamTcpReassembleHandleSegmentHandleData E p data stream st = Some (r, stream', st') \<and>
    (r = 0 \<or> r = - 1) \<and> inserted env b others (packet_segment p data) xs st xs' (stream', st')"
proof -
  let ?s = "packet_segment p data"
  obtain r st1 where get: "StreamTcpGetSegment (pay_len p) st = (r, st1)" by fastforce
  have ok: "pools_ok env 8 (set xs \<union> others) st" using inv by (simp add: seg_inv_def)
  show ?thesis
  proof (cases r)
    case None
    then have G: "pools_ok env 8 (set xs \<union> others) st1" "same_on UNIV st st1" using GetSegment_ok[OF ok get] by simp_all
    have same: "same_on (set xs) st st1" "same_on others st st1" using same_on_mono[OF G(2)] by auto
    have "covers (pos_of b (mem st1)) (end_of b (mem st1)) xs = covers (pos_of b (mem st)) (end_of b (mem st)) xs"
      using same(1) by (intro covers_cong) (auto simp: same_on_def pos_of_def end_of_def)
    then have "inserted env b others ?s xs st xs (stream, st1)"
      using seg_inv_same[OF inv G(1) same(1)] same(2) by (auto simp: inserted_def)
    then show ?thesis using get None by (auto simp: StreamTcpReassembleHandleSegmentHandleData_def)
  next
    case (Some seg)
    obtain st2 s where st2: "store_payload seg data (th_seq p) (pay_len p) st1 = Some st2" "seg \<notin> set xs \<union> others"
      "incoming b (insert seg others) seg s st2" "sg_seq s = th_seq p" "payload_len s = pay_len p"
      "sg_links (mem st2) seg = \<lparr>n_next = None, n_prev = None\<rparr>"
      "seg_inv env b (insert seg others) xs stream st2" "same_on (set xs \<union> others) st st2"
      using packet_segment_ok[OF inv _ p, of seg st1] get Some by auto
    have eq: "from_seg b s = from_seg b ?s" "to_seg b s = to_seg b ?s"
      using st2(4,5) by (simp_all add: from_seg_def to_seg_def packet_segment_def)
    have pq: "\<And>x. x \<in> set xs \<Longrightarrow> pos_of b (mem st2) x = pos_of b (mem st) x \<and> end_of b (mem st2) x = end_of b (mem st) x"
      using st2(8) by (simp add: same_on_def pos_of_def end_of_def)
    have "no_overrun b (mem st2) s xs"
      using over no_overrun_cong[OF pq] no_overrun_segment[of s ?s] st2(4,5) by (simp add: packet_segment_def)
    from InsertSegment_ok[OF st2(7,3,6) this, of E p] obtain r stream' st' xs' where
      r: "ReassembleInsertSegment E p stream seg st2 = Some (r, stream', st')" "r = 0 \<or> r = - 1"
        "inserted env b (insert seg others - {seg}) s xs st2 xs' (stream', st')" by blast
    have "insert seg others - {seg} = others" using st2(2) by auto
    moreover have "covers (pos_of b (mem st2)) (end_of b (mem st2)) xs = covers (pos_of b (mem st)) (end_of b (mem st)) xs"
      using pq by (rule covers_cong)
    ultimately have "inserted env b others ?s xs st xs' (stream', st')"
      using r(3) eq st2(8) by (auto simp: inserted_def intro: same_on_trans same_on_mono)
    moreover have "StreamTcpReassembleHandleSegmentHandleData E p data stream st = Some (if r \<noteq> 0 then - 1 else 0, stream', st')"
      using get Some st2(1) r(1) by (simp add: StreamTcpReassembleHandleSegmentHandleData_def)
    ultimately show ?thesis using r(2) by auto
  qed
qed

end
