(* ===== verification/StreamTcpSegmentDelivery.thy ===== *)
theory StreamTcpSegmentDelivery
  imports StreamTcpSegmentInsert
begin

text \<open>
  The bytes that a segment list holds (\<open>src/stream-tcp-reassemble.c\<close>): segments that do not overlap are stored
  as they were sent, and the list spells the sender's text whatever the order of the packets.
\<close>

section \<open>The bytes of a list\<close>

definition seg_bytes :: "u32 \<Rightarrow> TcpSegment \<Rightarrow> nat \<Rightarrow> u8 option" where
  "seg_bytes b s i = (if from_seg b s \<le> i \<and> i < to_seg b s then Some (payload s ! (i - from_seg b s)) else None)"

definition stored :: "u32 \<Rightarrow> seg_mem \<Rightarrow> addr list \<Rightarrow> nat \<Rightarrow> u8 option" where
  "stored b m xs = foldr (\<lambda>a f. seg_bytes b (the (sg m a)) ++ f) xs Map.empty"

lemma dom_seg_bytes: "dom (seg_bytes b s) = {from_seg b s..<to_seg b s}"
  by (auto simp: seg_bytes_def split: if_splits)

lemma stored_simps [simp]:
  "stored b m [] = Map.empty" "stored b m (a # xs) = seg_bytes b (the (sg m a)) ++ stored b m xs"
  by (simp_all add: stored_def)

lemma stored_append: "stored b m (xs @ ys) = stored b m xs ++ stored b m ys"
  by (induction xs) simp_all

lemma dom_stored: "dom (stored b m xs) = covers (pos_of b m) (end_of b m) xs"
  by (induction xs) (auto simp: dom_seg_bytes pos_of_def end_of_def)

lemma stored_cong: "(\<And>x. x \<in> set xs \<Longrightarrow> sg m' x = sg m x) \<Longrightarrow> stored b m' xs = stored b m xs"
  by (induction xs) simp_all

lemma seg_bytes_cong:
  assumes "sg_seq s = sg_seq s'" "payload_len s = payload_len s'"
    and "take (unat (payload_len s)) (payload s) = take (unat (payload_len s)) (payload s')"
    and "unat (payload_len s) \<le> length (payload s)" "unat (payload_len s) \<le> length (payload s')"
  shows "seg_bytes b s = seg_bytes b s'"
proof
  fix i
  have "payload s ! k = payload s' ! k" if "k < unat (payload_len s)" for k
    using arg_cong[OF assms(3), of "\<lambda>l. l ! k"] that by simp
  moreover have "i - from_seg b s < unat (payload_len s)" if "from_seg b s \<le> i" "i < to_seg b s"
    using that by (simp add: to_seg_def from_seg_def)
  ultimately show "seg_bytes b s i = seg_bytes b s' i"
    using assms(1,2) by (simp add: seg_bytes_def from_seg_def to_seg_def)
qed

text \<open>A segment more, outside the ranges of the others.\<close>

lemma stored_insert:
  assumes "\<And>x. x \<in> set (ys @ zs) \<Longrightarrow> sg m' x = sg m x" "sg m' a = Some s"
    and "covers (pos_of b m) (end_of b m) (ys @ zs) \<inter> {from_seg b s..<to_seg b s} = {}"
  shows "stored b m' (ys @ a # zs) = stored b m (ys @ zs) ++ seg_bytes b s"
proof -
  have "dom (seg_bytes b s) \<inter> dom (stored b m zs) = {}"
    using assms(3) by (auto simp: dom_seg_bytes dom_stored)
  then have comm: "seg_bytes b s ++ stored b m zs = stored b m zs ++ seg_bytes b s" by (rule map_add_comm)
  have "stored b m' ys = stored b m ys" "stored b m' zs = stored b m zs"
    using assms(1) by (auto intro!: stored_cong)
  then have "stored b m' (ys @ a # zs) = stored b m ys ++ (seg_bytes b s ++ stored b m zs)"
    by (simp only: stored_append stored_simps assms(2) option.sel)
  then show ?thesis unfolding comm by (simp add: stored_append)
qed

section \<open>A segment that overlaps none of the list\<close>

lemma apart_no_overrun:
  assumes "from_seg b s < to_seg b s" "covers (pos_of b m) (end_of b m) xs \<inter> {from_seg b s..<to_seg b s} = {}"
  shows "no_overrun b m s xs"
  using assms(2)
proof (induction b m s xs rule: no_overrun.induct)
  case (1 b m s p x xs)
  have "\<not> overrun b m s p x" if "from_seg b s < pos_of b m p"
  proof
    assume o: "overrun b m s p x"
    have "to_seg b s - 1 \<in> {pos_of b m x..<end_of b m x}" "to_seg b s - 1 \<in> {from_seg b s..<to_seg b s}"
      using o that by (auto simp: overrun_def)
    then show False using 1(2) by auto
  qed
  moreover have "no_overrun b m s (x # xs)" using 1 by (simp add: Int_Un_distrib2)
  ultimately show ?case by simp
qed simp_all

lemma apart_at:
  assumes "covers P Q xs \<inter> {lo..<hi} = {}" "x \<in> set xs" "P x < Q x" "lo < (hi :: nat)"
  shows "hi \<le> P x \<or> Q x \<le> lo"
proof (rule ccontr)
  assume "\<not> ?thesis"
  then have "max (P x) lo \<in> {P x..<Q x}" "max (P x) lo \<in> {lo..<hi}" using assms(3,4) by auto
  moreover have "{P x..<Q x} \<subseteq> covers P Q xs" using assms(2) by (auto simp: covers_def)
  ultimately show False using assms(1) by blast
qed

lemma insert_loop_apart:
  assumes "seg_inv env b others (ys @ zs) stream st" "incoming b others seg s st" "ready b (mem st) s ys zs"
    "sg_links (mem st) seg = \<lparr>n_next = None, n_prev = None\<rparr>"
    "covers (pos_of b (mem st)) (end_of b (mem st)) (ys @ zs) \<inter> {from_seg b s..<to_seg b s} = {}"
  shows "\<exists>us vs stream' st'. insert_loop (first_or zs None) seg stream st = Some (0, False, stream', st') \<and> ys @ zs = us @ vs \<and>
    stepped env b (others - {seg}) s (ys @ zs) (stream, st) (us @ seg # vs) (stream', st') \<and> links_only st st'"
  using assms
proof (induction zs arbitrary: ys)
  case Nil
  then show ?case by (simp add: ready_def)
next
  case (Cons l zs)
  obtain ls where ls: "sg (mem st) l = Some ls" "in_window b ls" "next_of l st = first_or zs None"
    "endp (end_of b (mem st)) 0 ys \<le> from_seg b ls"
    using seg_inv_at[OF Cons.prems(1)] by metis
  have w: "in_window b s" "sg (mem st) seg = Some s" using Cons.prems(2) by (simp_all add: incoming_def)
  have pos: "from_seg b s < to_seg b s" "from_seg b ls < to_seg b ls" using w(1) ls(2) by (simp_all add: in_window_def)
  note C = seg_compare[OF w(1) ls(2)]
  have "to_seg b s \<le> pos_of b (mem st) l \<or> end_of b (mem st) l \<le> from_seg b s"
    by (rule apart_at[OF Cons.prems(5)]) (use pos ls(1) in simp_all)
  then consider (before) "to_seg b s \<le> from_seg b ls" | (behind) "to_seg b ls \<le> from_seg b s" using ls(1) by auto
  then show ?case
  proof cases
    case before
    have "endp (end_of b (mem st)) 0 ys \<le> from_seg b s"
      using Cons.prems(3) before ls(1) by (auto simp: ready_def endp_def)
    then have "stepped env b (others - {seg}) s (ys @ l # zs) (stream, st) (ys @ seg # l # zs) (insert_before l seg stream st)"
      using before ls(1) by (intro insert_before_ok[OF Cons.prems(1,2,4)]) simp_all
    moreover have "insert_step l seg stream st = Some ((True, 0, False), insert_before l seg stream st)"
      using before pos ls(1) w(2) by (simp add: insert_step_def C Let_def)
    then have "insert_loop (first_or (l # zs) None) seg stream st = Some (0, False, insert_before l seg stream st)"
      by (subst insert_loop.simps) (simp add: case_prod_unfold Let_def)
    moreover have "links_only st (snd (insert_before l seg stream st))" by (simp add: insert_before_def Let_def)
    ultimately show ?thesis
      by (intro exI[of _ ys] exI[of _ "l # zs"] exI[of _ "fst (insert_before l seg stream st)"] exI[of _ "snd (insert_before l seg stream st)"]) simp
  next
    case behind
    then have zs: "zs \<noteq> []" using Cons.prems(3) ls(1) by (auto simp: ready_def)
    have rdy: "ready b (mem st) s (ys @ [l]) zs"
      by (rule ready_next[OF Cons.prems(3) zs]) (use behind pos ls(1) in auto)
    have "insert_step l seg stream st = Some ((False, 0, False), stream, st)"
      using behind pos ls(1,3) zs w(2) by (simp add: insert_step_def C Let_def)
    then have "insert_loop (first_or (l # zs) None) seg stream st = insert_loop (first_or zs None) seg stream st"
      using ls(3) by (subst insert_loop.simps) (simp add: Let_def)
    then show ?thesis using Cons.IH[of "ys @ [l]"] Cons.prems rdy by simp
  qed
qed

text \<open>A property of the flags of all segments that new ones have.\<close>

definition all_flags :: "(u8 \<Rightarrow> bool) \<Rightarrow> seg_state \<Rightarrow> bool" where
  "all_flags F st \<longleftrightarrow> (\<forall>a s. sg (mem st) a = Some s \<longrightarrow> F (sg_flags s))"

lemma GetSegment_flags:
  assumes ok: "pools_ok env 8 used st" and get: "StreamTcpGetSegment len st = (r, st')" and F: "all_flags F st" "F 0"
  shows "all_flags F st'"
proof -
  let ?P = "segment_pool st (segment_pool_idx len)"
  obtain p' m' where pg: "PoolGet (?P, mem st) = (r, p', m')"
    using get by (cases "PoolGet (?P, mem st)") (auto simp: StreamTcpGetSegment_def Let_def)
  then have st': "mem st' = m'" using get by (auto simp: StreamTcpGetSegment_def Let_def)
  have cb: "pool_conf env (segment_pool_idx len) ?P" by (rule pools_okD(1)[OF ok segment_pool_idx_less])
  consider "m' = mem st" | "TcpSegmentPoolAlloc env (segment_pool_pktsizes ! segment_pool_idx len) (mem st) = (r, m')"
    using pg cb by (cases "alloc_list ?P") (auto simp: PoolGet_def pool_conf_def Let_def split: prod.splits if_splits)
  then show ?thesis
  proof cases
    case 2
    then show ?thesis using F by (cases rule: alloc_cases) (auto simp: all_flags_def st')
  qed (use F st' in \<open>simp add: all_flags_def\<close>)
qed

lemma all_flags_same: "same_on UNIV st st' \<Longrightarrow> all_flags F st' = all_flags F st"
  by (simp add: same_on_def all_flags_def)

lemma store_payload_flags: "store_payload a data n len st = Some st' \<Longrightarrow> all_flags F st \<Longrightarrow> all_flags F st'"
  by (auto simp: store_payload_def all_flags_def split: bind_splits if_splits)

text \<open>
  Memory for \<open>k\<close> more segments of any size: no pool has a limit or holds a failed allocation, \<open>SCMalloc\<close> succeeds,
  and the memory cap leaves the space.
\<close>

definition room :: "seg_env \<Rightarrow> nat \<Rightarrow> seg_state \<Rightarrow> bool" where
  "room env k st \<longleftrightarrow> (\<forall>n. malloc_ok env n) \<and>
     (\<forall>i<8. max_buckets (segment_pool st i) = 0 \<and> None \<notin> set (alloc_list (segment_pool st i))) \<and>
     unat (stream_memuse (mem st)) + k * (65535 + unat (sizeof_seg env)) \<le> unat (memcap env)"

lemma room_links: "links_only st st' \<Longrightarrow> room env k st' = room env k st"
  by (simp add: room_def links_onlyD)

lemma unat_sum3:
  fixes x y z :: u32
  assumes "unat x + unat y + unat z < 2 ^ 32"
  shows "unat (x + y + z) = unat x + unat y + unat z"
  using assms by (simp add: unat_word_ariths mod_simps)

lemma alloc_room:
  assumes "\<And>n. malloc_ok env n" "unat (stream_memuse m) + (65535 + unat (sizeof_seg env)) \<le> unat (memcap env)"
    and "TcpSegmentPoolAlloc env len m = (r, m')"
  shows "r \<noteq> None" "unat (stream_memuse m') \<le> unat (stream_memuse m) + (65535 + unat (sizeof_seg env))"
proof -
  have "unat (ucast len :: u32) = unat len" by (simp add: unat_ucast_up)
  then have c: "unat (ucast len :: u32) \<le> 65535" using unat_bound[of len] by simp
  have lt: "unat (memcap env) < 2 ^ 32" using unat_bound[of "memcap env"] by simp
  have sum: "unat (stream_memuse m) + unat (sizeof_seg env) + unat (ucast len :: u32) < 2 ^ 32" using assms(2) c lt by linarith
  then have u: "unat (stream_memuse m + sizeof_seg env + ucast len) = unat (stream_memuse m) + unat (sizeof_seg env) + unat (ucast len :: u32)"
    by (rule unat_sum3)
  have "sizeof_seg env + ucast len + stream_memuse m = stream_memuse m + sizeof_seg env + ucast len"
    "stream_memuse m + (ucast len + sizeof_seg env) = stream_memuse m + sizeof_seg env + ucast len"
    by (simp_all add: ac_simps)
  with u have "StreamTcpCheckMemcap env (sizeof_seg env + ucast len) m"
    "unat (stream_memuse m + (ucast len + sizeof_seg env)) \<le> unat (stream_memuse m) + (65535 + unat (sizeof_seg env))"
    using assms(2) c by (simp_all only: StreamTcpCheckMemcap_def word_le_nat_alt)
  then show "r \<noteq> None" "unat (stream_memuse m') \<le> unat (stream_memuse m) + (65535 + unat (sizeof_seg env))"
    using assms(1,3) by (auto simp: TcpSegmentPoolAlloc_def StreamTcpIncrMemuse_def Let_def)
qed

lemma GetSegment_room:
  assumes ok: "pools_ok env 8 used st" and get: "StreamTcpGetSegment len st = (r, st')" and room: "room env (Suc k) st"
  shows "r \<noteq> None" "room env k st'"
proof -
  let ?i = "segment_pool_idx len"
  let ?P = "segment_pool st ?i"
  obtain p' m' where pg: "PoolGet (?P, mem st) = (r, p', m')"
    using get by (cases "PoolGet (?P, mem st)") (auto simp: StreamTcpGetSegment_def Let_def)
  then have st': "st' = st\<lparr>segment_pool := (segment_pool st)(?i := p'), mem := m'\<rparr>"
    using get by (simp add: StreamTcpGetSegment_def Let_def)
  have cb: "pool_conf env ?i ?P" by (rule pools_okD(1)[OF ok segment_pool_idx_less])
  have R: "max_buckets ?P = 0" "None \<notin> set (alloc_list ?P)" "\<And>n. malloc_ok env n"
    "unat (stream_memuse (mem st)) + k * (65535 + unat (sizeof_seg env)) + (65535 + unat (sizeof_seg env)) \<le> unat (memcap env)"
    using room segment_pool_idx_less[of len] by (simp_all add: room_def)
  have "r \<noteq> None \<and> max_buckets p' = 0 \<and> None \<notin> set (alloc_list p') \<and>
    unat (stream_memuse m') + k * (65535 + unat (sizeof_seg env)) \<le> unat (memcap env)"
  proof (cases "alloc_list ?P")
    case (Cons d ds)
    then show ?thesis using pg R by (cases d) (auto simp: PoolGet_def)
  next
    case Nil
    then have p': "TcpSegmentPoolAlloc env (segment_pool_pktsizes ! ?i) (mem st) = (r, m')" "max_buckets p' = 0" "alloc_list p' = []"
      using pg R(1) cb by (auto simp: PoolGet_def pool_conf_def Let_def split: prod.splits)
    have "unat (stream_memuse (mem st)) + (65535 + unat (sizeof_seg env)) \<le> unat (memcap env)" using R(4) by linarith
    note A = alloc_room[OF R(3) this p'(1)]
    have "unat (stream_memuse m') + k * (65535 + unat (sizeof_seg env)) \<le> unat (memcap env)" using A(2) R(4) by linarith
    then show ?thesis using A(1) p'(2,3) by simp
  qed
  then show "r \<noteq> None" "room env k st'" using room unfolding room_def st' by auto
qed

lemma store_payload_room: "store_payload a data n len st = Some st' \<Longrightarrow> room env k st' = room env k st"
  by (auto simp: store_payload_def room_def split: bind_splits if_splits)

lemma InsertSegment_apart:
  assumes inv: "seg_inv env b others xs stream st" and s: "incoming b others seg s st"
    and free: "sg_links (mem st) seg = \<lparr>n_next = None, n_prev = None\<rparr>"
    and apart: "covers (pos_of b (mem st)) (end_of b (mem st)) xs \<inter> {from_seg b s..<to_seg b s} = {}"
  shows "\<exists>stream' st' us vs. ReassembleInsertSegment E p stream seg st = Some (0, stream', st') \<and> xs = us @ vs \<and>
    links_only st st' \<and> inserted env b (others - {seg}) s xs st (us @ seg # vs) (stream', st')"
proof (cases "xs \<noteq> [] \<longrightarrow> end_of b (mem st) (last xs) \<le> from_seg b s")
  case True
  then obtain stream' st' where "ReassembleInsertSegment E p stream seg st = Some (0, stream', st')" "links_only st st'"
    "stepped env b (others - {seg}) s xs (stream, st) (xs @ [seg]) (stream', st')"
    using append_segment_ok[OF inv s free, of E p] by blast
  then show ?thesis by (intro exI[of _ stream'] exI[of _ st'] exI[of _ xs] exI[of _ "[]"]) (auto intro: stepped_inserted)
next
  case False
  then have l: "xs \<noteq> []" "from_seg b s < end_of b (mem st) (last xs)" by auto
  note R = insert_in_loop[OF inv s l, of E p]
  have inv0: "seg_inv env b others ([] @ xs) (loop_stream E p stream) st" using inv by (simp add: seg_inv_loop_stream)
  have "from_seg b s < to_seg b s" using s by (simp add: incoming_def in_window_def)
  then have "ready b (mem st) s [] xs" using apart_no_overrun[OF _ apart] l by (simp add: ready_def)
  from insert_loop_apart[OF inv0 s this free] apart obtain us vs stream' st' where
    r: "insert_loop (first_or xs None) seg (loop_stream E p stream) st = Some (0, False, stream', st')" "xs = us @ vs"
      "stepped env b (others - {seg}) s xs (loop_stream E p stream, st) (us @ seg # vs) (stream', st')" "links_only st st'"
    by auto
  then show ?thesis using stepped_inserted[OF r(3)] unfolding R by auto
qed

lemma HandleData_apart:
  assumes inv: "seg_inv env b others xs stream st"
    and p: "in_window b (packet_segment p data)" "unat (pay_len p) \<le> length data"
    and apart: "covers (pos_of b (mem st)) (end_of b (mem st)) xs \<inter> {from_seg b (packet_segment p data)..<to_seg b (packet_segment p data)} = {}"
    and mem: "fst (StreamTcpGetSegment (pay_len p) st) \<noteq> None"
  shows "\<exists>stream' st' xs'. StreamTcpReassembleHandleSegmentHandleData E p data stream st = Some (0, stream', st') \<and>
    seg_inv env b others xs' stream' st' \<and> same_on others st st' \<and>
    stored b (mem st') xs' = stored b (mem st) xs ++ seg_bytes b (packet_segment p data) \<and>
    (\<forall>F. all_flags F st \<and> F 0 \<longrightarrow> all_flags F st') \<and> (\<forall>k. room env (Suc k) st \<longrightarrow> room env k st')"
proof -
  let ?s = "packet_segment p data"
  obtain seg st1 where get: "StreamTcpGetSegment (pay_len p) st = (Some seg, st1)"
    using mem by (cases "StreamTcpGetSegment (pay_len p) st") auto
  obtain st2 s where st2: "store_payload seg data (th_seq p) (pay_len p) st1 = Some st2" "seg \<notin> set xs \<union> others"
    "incoming b (insert seg others) seg s st2" "sg_seq s = th_seq p" "payload_len s = pay_len p"
    "take (unat (pay_len p)) (payload s) = take (unat (pay_len p)) data"
    "sg_links (mem st2) seg = \<lparr>n_next = None, n_prev = None\<rparr>"
    "seg_inv env b (insert seg others) xs stream st2" "same_on (set xs \<union> others) st st2"
    using packet_segment_ok[OF inv get p] by blast
  have eq: "from_seg b s = from_seg b ?s" "to_seg b s = to_seg b ?s"
    using st2(4,5) by (simp_all add: from_seg_def to_seg_def packet_segment_def)
  have sb: "seg_bytes b s = seg_bytes b ?s"
    using st2(3-6) p(2) by (intro seg_bytes_cong) (simp_all add: packet_segment_def incoming_def)
  have same: "\<And>x. x \<in> set xs \<Longrightarrow> sg (mem st2) x = sg (mem st) x" using st2(9) by (simp add: same_on_def)
  have pq: "\<And>x. x \<in> set xs \<Longrightarrow> pos_of b (mem st2) x = pos_of b (mem st) x \<and> end_of b (mem st2) x = end_of b (mem st) x"
    using same by (simp add: pos_of_def end_of_def)
  have cov: "covers (pos_of b (mem st2)) (end_of b (mem st2)) xs \<inter> {from_seg b s..<to_seg b s} = {}"
    using apart covers_cong[OF pq] eq by simp
  obtain stream' st' us vs where r: "ReassembleInsertSegment E p stream seg st2 = Some (0, stream', st')" "xs = us @ vs"
    "links_only st2 st'" "inserted env b (insert seg others - {seg}) s xs st2 (us @ seg # vs) (stream', st')"
    using InsertSegment_apart[OF st2(8,3,7) cov, of E p] by blast
  have o: "insert seg others - {seg} = others" using st2(2) by auto
  have "stored b (mem st') (us @ seg # vs) = stored b (mem st2) (us @ vs) ++ seg_bytes b s"
    using cov r(2,3) st2(3) by (intro stored_insert) (simp_all add: incoming_def links_onlyD)
  also have "stored b (mem st2) (us @ vs) = stored b (mem st) xs" unfolding r(2)[symmetric] using same by (rule stored_cong)
  finally have st': "stored b (mem st') (us @ seg # vs) = stored b (mem st) xs ++ seg_bytes b ?s" by (simp add: sb)
  have "seg_inv env b others (us @ seg # vs) stream' st'" "same_on others st2 st'"
    using r(4) unfolding o by (simp_all add: inserted_def)
  moreover have "same_on others st st2" using same_on_mono[OF st2(9)] by auto
  moreover have "StreamTcpReassembleHandleSegmentHandleData E p data stream st = Some (0, stream', st')"
    using get st2(1) r(1) by (simp add: StreamTcpReassembleHandleSegmentHandleData_def)
  moreover have "all_flags F st'" if "all_flags F st" "F 0" for F
  proof -
    have ok: "pools_ok env 8 (set xs \<union> others) st" using inv by (simp add: seg_inv_def)
    have "all_flags F st2" by (rule store_payload_flags[OF st2(1) GetSegment_flags[OF ok get that]])
    then show ?thesis using r(3) by (simp add: all_flags_def links_onlyD)
  qed
  moreover have "room env k st'" if "room env (Suc k) st" for k
  proof -
    have ok: "pools_ok env 8 (set xs \<union> others) st" using inv by (simp add: seg_inv_def)
    show ?thesis using GetSegment_room(2)[OF ok get that] store_payload_room[OF st2(1)] room_links[OF r(3)] by simp
  qed
  ultimately show ?thesis using st' same_on_trans by blast
qed

text \<open>A failed allocation: the packet is dropped, nothing else changes.\<close>

lemma HandleData_no_memory:
  assumes inv: "seg_inv env b others xs stream st" and "fst (StreamTcpGetSegment (pay_len p) st) = None"
  shows "\<exists>st'. StreamTcpReassembleHandleSegmentHandleData E p data stream st = Some (- 1, stream, st') \<and>
    seg_inv env b others xs stream st' \<and> same_on UNIV st st' \<and> stored b (mem st') xs = stored b (mem st) xs"
proof -
  obtain st1 where get: "StreamTcpGetSegment (pay_len p) st = (None, st1)"
    using assms(2) by (cases "StreamTcpGetSegment (pay_len p) st") auto
  have ok: "pools_ok env 8 (set xs \<union> others) st" using inv by (simp add: seg_inv_def)
  have G: "pools_ok env 8 (set xs \<union> others) st1" "same_on UNIV st st1" using GetSegment_ok[OF ok get] by simp_all
  then have "seg_inv env b others xs stream st1" using seg_inv_same[OF inv G(1)] same_on_mono[OF G(2)] by auto
  moreover have "stored b (mem st1) xs = stored b (mem st) xs" using G(2) by (intro stored_cong) (simp add: same_on_def)
  ultimately show ?thesis using get G(2) by (simp add: StreamTcpReassembleHandleSegmentHandleData_def)
qed

section \<open>A series of packets\<close>

fun deliver :: "'g engine \<Rightarrow> (TcpPacket \<times> bytes) list \<Rightarrow> seg_stream \<Rightarrow> seg_state
    \<Rightarrow> (int list \<times> seg_stream \<times> seg_state) option" where
  "deliver E [] stream st = Some ([], stream, st)"
| "deliver E ((p, data) # ps) stream st = do {
     (r, stream, st) \<leftarrow> StreamTcpReassembleHandleSegmentHandleData E p data stream st;
     (rs, stream, st) \<leftarrow> deliver E ps stream st;
     Some (r # rs, stream, st)
   }"

text \<open>For every packet, whether the pools give no segment for it when it arrives.\<close>

fun no_segment :: "'g engine \<Rightarrow> (TcpPacket \<times> bytes) list \<Rightarrow> seg_stream \<Rightarrow> seg_state \<Rightarrow> bool list" where
  "no_segment E [] stream st = []"
| "no_segment E ((p, data) # ps) stream st = (fst (StreamTcpGetSegment (pay_len p) st) = None) #
     (case StreamTcpReassembleHandleSegmentHandleData E p data stream st of
        None \<Rightarrow> []
      | Some (_, stream, st) \<Rightarrow> no_segment E ps stream st)"

definition segment_of :: "TcpPacket \<times> bytes \<Rightarrow> TcpSegment" where
  "segment_of pd = packet_segment (fst pd) (snd pd)"

definition range_of :: "u32 \<Rightarrow> TcpPacket \<times> bytes \<Rightarrow> nat set" where
  "range_of b pd = {from_seg b (segment_of pd)..<to_seg b (segment_of pd)}"

definition packet_fits :: "u32 \<Rightarrow> TcpPacket \<times> bytes \<Rightarrow> bool" where
  "packet_fits b pd \<longleftrightarrow> in_window b (segment_of pd) \<and> unat (pay_len (fst pd)) \<le> length (snd pd)"

definition apart :: "u32 \<Rightarrow> (TcpPacket \<times> bytes) list \<Rightarrow> bool" where
  "apart b ps \<longleftrightarrow> sorted_wrt (\<lambda>x y. range_of b x \<inter> range_of b y = {}) ps"

text \<open>The bytes of the packets that were accepted.\<close>

fun accepted :: "u32 \<Rightarrow> (TcpPacket \<times> bytes) list \<Rightarrow> int list \<Rightarrow> nat \<Rightarrow> u8 option" where
  "accepted b (pd # ps) (r # rs) = (if r = 0 then seg_bytes b (segment_of pd) else Map.empty) ++ accepted b ps rs"
| "accepted b _ _ = Map.empty"

lemma deliver_apart:
  assumes "seg_inv env b others xs stream st" "\<forall>pd\<in>set ps. packet_fits b pd" "apart b ps"
    "\<forall>pd\<in>set ps. covers (pos_of b (mem st)) (end_of b (mem st)) xs \<inter> range_of b pd = {}"
  shows "\<exists>rs stream' st' xs'. deliver E ps stream st = Some (rs, stream', st') \<and> length rs = length ps \<and> set rs \<subseteq> {0, - 1} \<and>
    seg_inv env b others xs' stream' st' \<and> same_on others st st' \<and> stored b (mem st') xs' = stored b (mem st) xs ++ accepted b ps rs \<and>
    (\<forall>F. all_flags F st \<and> F 0 \<longrightarrow> all_flags F st') \<and>
    rs = map (\<lambda>n. if n then - 1 else 0) (no_segment E ps stream st) \<and> (room env (length ps) st \<longrightarrow> - 1 \<notin> set rs)"
  using assms
proof (induction ps arbitrary: xs stream st)
  case Nil
  then show ?case by (intro exI[of _ "[]"] exI[of _ stream] exI[of _ st] exI[of _ xs]) simp
next
  case (Cons pd ps)
  obtain p d where pd: "pd = (p, d)" by fastforce
  have fits: "in_window b (packet_segment p d)" "unat (pay_len p) \<le> length d"
    using Cons.prems(2) pd by (simp_all add: packet_fits_def segment_of_def)
  have dis: "covers (pos_of b (mem st)) (end_of b (mem st)) xs \<inter> {from_seg b (packet_segment p d)..<to_seg b (packet_segment p d)} = {}"
    using Cons.prems(4) pd by (simp add: range_of_def segment_of_def)
  have "\<exists>r stream1 st1 xs1. StreamTcpReassembleHandleSegmentHandleData E p d stream st = Some (r, stream1, st1) \<and> r \<in> {0, - 1} \<and>
    seg_inv env b others xs1 stream1 st1 \<and> same_on others st st1 \<and>
    stored b (mem st1) xs1 = stored b (mem st) xs ++ (if r = 0 then seg_bytes b (segment_of pd) else Map.empty) \<and>
    (\<forall>F. all_flags F st \<and> F 0 \<longrightarrow> all_flags F st1) \<and>
    (r = - 1 \<longleftrightarrow> fst (StreamTcpGetSegment (pay_len p) st) = None) \<and> (\<forall>k. room env (Suc k) st \<longrightarrow> r = 0 \<and> room env k st1)"
  proof (cases "fst (StreamTcpGetSegment (pay_len p) st) = None")
    case True
    have "\<not> room env (Suc k) st" for k
      using GetSegment_room(1)[of env _ st, OF _ prod.collapse[symmetric]] True Cons.prems(1) unfolding seg_inv_def by blast
    then show ?thesis using HandleData_no_memory[OF Cons.prems(1) True, of E d] same_on_mono[of UNIV st _ others] all_flags_same True by fastforce
  next
    case False
    show ?thesis using HandleData_apart[OF Cons.prems(1) fits dis False, of E] pd False by (fastforce simp: segment_of_def)
  qed
  then obtain r stream1 st1 xs1 where h: "StreamTcpReassembleHandleSegmentHandleData E p d stream st = Some (r, stream1, st1)" "r \<in> {0, - 1}"
    "seg_inv env b others xs1 stream1 st1" "same_on others st st1"
    "stored b (mem st1) xs1 = stored b (mem st) xs ++ (if r = 0 then seg_bytes b (segment_of pd) else Map.empty)"
    "\<forall>F. all_flags F st \<and> F 0 \<longrightarrow> all_flags F st1" "r = - 1 \<longleftrightarrow> fst (StreamTcpGetSegment (pay_len p) st) = None"
    "\<forall>k. room env (Suc k) st \<longrightarrow> r = 0 \<and> room env k st1"
    by (elim exE conjE) (rule that)
  have cov: "covers (pos_of b (mem st1)) (end_of b (mem st1)) xs1 \<subseteq> covers (pos_of b (mem st)) (end_of b (mem st)) xs \<union> range_of b pd"
    using h(5) unfolding dom_stored[symmetric] by (auto simp: range_of_def dom_seg_bytes)
  have "\<forall>qd\<in>set ps. covers (pos_of b (mem st1)) (end_of b (mem st1)) xs1 \<inter> range_of b qd = {}"
  proof
    fix qd assume "qd \<in> set ps"
    then have "range_of b pd \<inter> range_of b qd = {}" "covers (pos_of b (mem st)) (end_of b (mem st)) xs \<inter> range_of b qd = {}"
      using Cons.prems(3,4) by (simp_all add: apart_def)
    then show "covers (pos_of b (mem st1)) (end_of b (mem st1)) xs1 \<inter> range_of b qd = {}" using cov by blast
  qed
  then obtain rs stream' st' xs' where t: "deliver E ps stream1 st1 = Some (rs, stream', st')" "length rs = length ps" "set rs \<subseteq> {0, - 1}"
    "seg_inv env b others xs' stream' st'" "same_on others st1 st'" "stored b (mem st') xs' = stored b (mem st1) xs1 ++ accepted b ps rs"
    "\<forall>F. all_flags F st1 \<and> F 0 \<longrightarrow> all_flags F st'" "rs = map (\<lambda>n. if n then - 1 else 0) (no_segment E ps stream1 st1)"
    "room env (length ps) st1 \<longrightarrow> - 1 \<notin> set rs"
    using Cons.IH[OF h(3)] Cons.prems(2,3) by (auto simp: apart_def)
  have "stored b (mem st') xs' = stored b (mem st) xs ++ accepted b (pd # ps) (r # rs)"
    using t(6) h(5) by simp
  moreover have "r # rs = map (\<lambda>n. if n then - 1 else 0) (no_segment E (pd # ps) stream st)" using h(1,2,7) t(8) pd by auto
  moreover have "room env (length (pd # ps)) st \<longrightarrow> - 1 \<notin> set (r # rs)" using h(8) t(9) by auto
  ultimately show ?case using h(1,2,6) t(1-5,7) pd same_on_trans[OF h(4) t(5)]
    by (intro exI[of _ "r # rs"] exI[of _ stream'] exI[of _ st'] exI[of _ xs']) simp
qed

section \<open>The text of a list\<close>

definition seg_text :: "seg_mem \<Rightarrow> addr list \<Rightarrow> bytes" where
  "seg_text m xs = concat (map (\<lambda>a. take (unat (payload_len (the (sg m a)))) (payload (the (sg m a)))) xs)"

lemma seg_bytes_upt:
  "unat (payload_len s) \<le> length (payload s) \<Longrightarrow>
   map (\<lambda>i. the (seg_bytes b s i)) [from_seg b s..<to_seg b s] = take (unat (payload_len s)) (payload s)"
  by (rule nth_equalityI) (auto simp: to_seg_def from_seg_def seg_bytes_def)

lemma text_stored:
  assumes "chain (pos_of b m) (end_of b m) lo xs hi" "covers (pos_of b m) (end_of b m) xs = {lo..<n}" "\<forall>a\<in>set xs. in_buffer m a"
  shows "seg_text m xs = map (\<lambda>i. the (stored b m xs i)) [lo..<n]"
  using assms
proof (induction xs arbitrary: lo)
  case Nil
  then show ?case by (simp add: seg_text_def)
next
  case (Cons a xs)
  obtain s where s: "sg m a = Some s" "unat (payload_len s) \<le> length (payload s)" using Cons.prems(3) by (auto simp: in_buffer_def)
  have c: "lo \<le> from_seg b s" "from_seg b s < to_seg b s" "chain (pos_of b m) (end_of b m) (to_seg b s) xs hi"
    using Cons.prems(1) s(1) by simp_all
  have above: "\<And>i. i \<in> covers (pos_of b m) (end_of b m) xs \<Longrightarrow> to_seg b s \<le> i"
    using chain_mem[OF c(3)] by (fastforce simp: covers_def)
  have U: "{from_seg b s..<to_seg b s} \<union> covers (pos_of b m) (end_of b m) xs = {lo..<n}" using Cons.prems(2) s(1) by simp
  have "from_seg b s \<in> {lo..<n}" unfolding U[symmetric] using c by simp
  then have "lo \<in> {from_seg b s..<to_seg b s} \<union> covers (pos_of b m) (end_of b m) xs" unfolding U by simp
  then have lo: "from_seg b s = lo" using c above[of lo] by auto
  have "to_seg b s - 1 \<in> {lo..<n}" unfolding U[symmetric] using c by auto
  then have le: "to_seg b s \<le> n" by auto
  have "covers (pos_of b m) (end_of b m) xs = {to_seg b s..<n}"
  proof
    show "covers (pos_of b m) (end_of b m) xs \<subseteq> {to_seg b s..<n}" using U above by fastforce
    show "{to_seg b s..<n} \<subseteq> covers (pos_of b m) (end_of b m) xs"
    proof
      fix x assume x: "x \<in> {to_seg b s..<n}"
      then have "x \<in> {lo..<n}" "x \<notin> {from_seg b s..<to_seg b s}" using lo c by auto
      then show "x \<in> covers (pos_of b m) (end_of b m) xs" unfolding U[symmetric] by blast
    qed
  qed
  then have IH: "seg_text m xs = map (\<lambda>i. the (stored b m xs i)) [to_seg b s..<n]"
    using Cons.IH[OF c(3)] Cons.prems(3) by simp
  have "map (\<lambda>i. the (stored b m (a # xs) i)) [from_seg b s..<to_seg b s] = map (\<lambda>i. the (seg_bytes b s i)) [from_seg b s..<to_seg b s]"
  proof (rule map_cong)
    fix i assume i: "i \<in> set [from_seg b s..<to_seg b s]"
    then have "i \<notin> dom (stored b m xs)" using above unfolding dom_stored by fastforce
    then show "the (stored b m (a # xs) i) = the (seg_bytes b s i)" using s(1) by (auto simp: map_add_def split: option.split)
  qed simp
  moreover have "map (\<lambda>i. the (stored b m (a # xs) i)) [to_seg b s..<n] = map (\<lambda>i. the (stored b m xs i)) [to_seg b s..<n]"
  proof (rule map_cong)
    fix i assume "i \<in> set [to_seg b s..<n]"
    then have "i \<in> dom (stored b m xs)" unfolding dom_stored \<open>covers (pos_of b m) (end_of b m) xs = {to_seg b s..<n}\<close> by simp
    then show "the (stored b m (a # xs) i) = the (stored b m xs i)" by (auto simp: map_add_def split: option.split)
  qed simp
  moreover have "[lo..<n] = [from_seg b s..<to_seg b s] @ [to_seg b s..<n]" using lo le c upt_add_eq_append[of lo "to_seg b s" "n - to_seg b s"] by simp
  ultimately show ?case using IH s seg_bytes_upt[OF s(2), of b] by (simp add: seg_text_def)
qed

text \<open>Packets that carry parts of a text, in any order.\<close>

definition carries :: "u32 \<Rightarrow> bytes \<Rightarrow> TcpPacket \<times> bytes \<Rightarrow> bool" where
  "carries b bs pd \<longleftrightarrow> packet_fits b pd \<and> to_seg b (segment_of pd) \<le> length bs \<and>
     take (unat (pay_len (fst pd))) (snd pd) = take (unat (pay_len (fst pd))) (drop (from_seg b (segment_of pd)) bs)"

lemma carries_bytes:
  assumes "carries b bs pd" "i \<in> range_of b pd"
  shows "seg_bytes b (segment_of pd) i = Some (bs ! i)"
proof -
  let ?s = "segment_of pd"
  have k: "i - from_seg b ?s < unat (pay_len (fst pd))" "from_seg b ?s \<le> i" "i < to_seg b ?s"
    using assms(2) by (auto simp: range_of_def to_seg_def from_seg_def segment_of_def packet_segment_def)
  have "snd pd ! (i - from_seg b ?s) = drop (from_seg b ?s) bs ! (i - from_seg b ?s)"
    using assms(1) k(1) by (metis carries_def nth_take)
  then show ?thesis using assms(1) k(2,3) by (simp add: carries_def seg_bytes_def segment_of_def packet_segment_def)
qed

lemma accepted_value:
  assumes "\<forall>pd\<in>set ps. carries b bs pd" "accepted b ps rs i = Some v"
  shows "v = bs ! i"
  using assms
proof (induction b ps rs rule: accepted.induct)
  case (1 b pd ps r rs)
  show ?case
  proof (cases "accepted b ps rs i")
    case None
    then have v: "seg_bytes b (segment_of pd) i = Some v" using 1(3) by (auto simp: map_add_def split: if_splits)
    then have "i \<in> range_of b pd" using dom_seg_bytes[of b "segment_of pd"] by (auto simp: range_of_def)
    then show ?thesis using carries_bytes[of b bs pd i] 1(2) v by simp
  qed (use 1 in \<open>auto simp: map_add_def\<close>)
qed auto

lemma accepted_dom:
  "length rs = length ps \<Longrightarrow> set rs \<subseteq> {0} \<Longrightarrow> dom (accepted b ps rs) = (\<Union>pd\<in>set ps. range_of b pd)"
  by (induction b ps rs rule: accepted.induct) (auto simp: dom_seg_bytes range_of_def)

lemma out_of_order_text:
  assumes "seg_inv env b others [] stream st" "\<forall>pd\<in>set ps. carries b bs pd" "apart b ps"
    and "(\<Union>pd\<in>set ps. range_of b pd) = {0..<length bs}"
  shows "\<exists>rs stream' st' xs'. deliver E ps stream st = Some (rs, stream', st') \<and> length rs = length ps \<and> set rs \<subseteq> {0, - 1} \<and>
    seg_inv env b others xs' stream' st' \<and> (- 1 \<notin> set rs \<longrightarrow> seg_text (mem st') xs' = bs \<and>
      covers (pos_of b (mem st')) (end_of b (mem st')) xs' = {0..<length bs}) \<and> (\<forall>F. all_flags F st \<and> F 0 \<longrightarrow> all_flags F st') \<and>
    rs = map (\<lambda>n. if n then - 1 else 0) (no_segment E ps stream st) \<and> (room env (length ps) st \<longrightarrow> - 1 \<notin> set rs)"
proof -
  obtain rs stream' st' xs' where d: "deliver E ps stream st = Some (rs, stream', st')" "length rs = length ps" "set rs \<subseteq> {0, - 1}"
    "seg_inv env b others xs' stream' st'" "stored b (mem st') xs' = stored b (mem st) [] ++ accepted b ps rs"
    "\<forall>F. all_flags F st \<and> F 0 \<longrightarrow> all_flags F st'" "rs = map (\<lambda>n. if n then - 1 else 0) (no_segment E ps stream st)"
    "room env (length ps) st \<longrightarrow> - 1 \<notin> set rs"
    using deliver_apart[OF assms(1) _ assms(3), of E] assms(2) by (auto simp: carries_def)
  have "seg_text (mem st') xs' = bs \<and> covers (pos_of b (mem st')) (end_of b (mem st')) xs' = {0..<length bs}" if "- 1 \<notin> set rs"
  proof -
    have rs: "set rs \<subseteq> {0}" using that d(3) by blast
    have cov: "covers (pos_of b (mem st')) (end_of b (mem st')) xs' = {0..<length bs}"
      using d(5) accepted_dom[OF d(2) rs, of b] assms(4) by (simp add: dom_stored[symmetric])
    have "seg_text (mem st') xs' = map (\<lambda>i. the (stored b (mem st') xs' i)) [0..<length bs]"
      using d(4) by (intro text_stored[OF _ cov]) (auto simp: seg_inv_def list_ok_def)
    also have "\<dots> = map (\<lambda>i. bs ! i) [0..<length bs]"
    proof (rule map_cong)
      fix i assume "i \<in> set [0..<length bs]"
      then have "i \<in> dom (accepted b ps rs)" unfolding accepted_dom[OF d(2) rs] assms(4) by simp
      then show "the (stored b (mem st') xs' i) = bs ! i" using d(5) accepted_value[OF assms(2)] by (auto simp: domI)
    qed simp
    finally show ?thesis using cov by (simp add: map_nth)
  qed
  then show ?thesis using d(1-4,6-8) by blast
qed

end
