(* ===== verification/StreamTcpSegmentPolicy.thy ===== *)
theory StreamTcpSegmentPolicy
  imports StreamTcpSegmentDelivery
begin

text \<open>
  Retransmitted bytes (\<open>src/stream-tcp-reassemble.c\<close>): when a new segment lies inside one of the list, the policy
  of the receiver decides whose bytes are kept.
\<close>

section \<open>A retransmission inside a segment of the list\<close>

text \<open>Which policies take the new bytes.\<close>

definition new_bytes_win :: "u8 \<Rightarrow> bool \<Rightarrow> bool" where
  "new_bytes_win pol same \<longleftrightarrow>
     pol = OS_POLICY_LAST \<or> same \<and> (pol = OS_POLICY_OLD_LINUX \<or> pol = OS_POLICY_SOLARIS \<or> pol = OS_POLICY_HPUX11)"

lemmas policy_numbers = OS_POLICY_LAST_def OS_POLICY_OLD_LINUX_def OS_POLICY_LINUX_def OS_POLICY_SOLARIS_def OS_POLICY_HPUX11_def

lemma replaces_inside:
  "same_replaces pol Ends_same = new_bytes_win pol True" "same_replaces pol Ends_before = new_bytes_win pol False"
  "after_replaces pol Ends_same = new_bytes_win pol False" "after_replaces pol Ends_before = new_bytes_win pol False"
  by (auto simp: same_replaces_def after_replaces_def new_bytes_win_def policy_numbers)

lemma insert_step_behind:
  assumes "seg_inv env b others (ys @ l # zs) stream st" "incoming b others seg s st" "end_of b (mem st) l \<le> from_seg b s" "zs \<noteq> []"
  shows "insert_loop (first_or (l # zs) None) seg stream st = insert_loop (first_or zs None) seg stream st"
proof -
  obtain ls where ls: "sg (mem st) l = Some ls" "in_window b ls" "next_of l st = first_or zs None"
    using seg_inv_at[OF assms(1)] by metis
  have w: "in_window b s" "sg (mem st) seg = Some s" using assms(2) by (simp_all add: incoming_def)
  have pos: "from_seg b s < to_seg b s" "from_seg b ls < to_seg b ls" using w(1) ls(2) by (simp_all add: in_window_def)
  have "insert_step l seg stream st = Some ((False, 0, False), stream, st)"
    using assms(3,4) pos ls(1,3) w(2) by (simp add: insert_step_def seg_compare[OF w(1) ls(2)] Let_def)
  then show ?thesis using ls(3) by (subst insert_loop.simps) (simp add: Let_def)
qed

lemma insert_loop_skip:
  assumes "seg_inv env b others (us @ ys @ zs) stream st" "incoming b others seg s st" "zs \<noteq> []"
    and "\<And>x. x \<in> set ys \<Longrightarrow> end_of b (mem st) x \<le> from_seg b s"
  shows "insert_loop (first_or (ys @ zs) None) seg stream st = insert_loop (first_or zs None) seg stream st"
  using assms(1,4)
proof (induction ys arbitrary: us)
  case Nil
  then show ?case by simp
next
  case (Cons y ys)
  have "insert_loop (first_or (y # ys @ zs) None) seg stream st = insert_loop (first_or (ys @ zs) None) seg stream st"
    by (rule insert_step_behind[of env b others us y "ys @ zs"]) (use Cons.prems(1) Cons.prems(2)[of y] assms(2,3) in simp_all)
  also have "\<dots> = insert_loop (first_or zs None) seg stream st"
    by (rule Cons.IH[of "us @ [y]"]) (use Cons.prems in simp_all)
  finally show ?case by simp
qed

text \<open>The step for a segment that contains the new one.\<close>

definition overwrite :: "u32 \<Rightarrow> addr \<Rightarrow> TcpSegment \<Rightarrow> TcpSegment \<Rightarrow> seg_state \<Rightarrow> seg_state" where
  "overwrite b l ls s st = st\<lparr>mem := set_payload l (blit (from_seg b s - from_seg b ls)
     (take (unat (payload_len s)) (payload s)) (payload ls)) (mem st)\<rparr>"

lemma insert_step_inside:
  assumes inv: "seg_inv env b others (ys @ l # zs) stream st" and s: "incoming b others seg s st"
    and ls: "sg (mem st) l = Some ls" and sub: "from_seg b ls \<le> from_seg b s" "to_seg b s \<le> to_seg b ls"
  shows "insert_step l seg stream st = Some ((True, 0, True), stream,
    if new_bytes_win (seg_policy stream) (from_seg b s = from_seg b ls \<and> to_seg b s = to_seg b ls) then overwrite b l ls s st else st)"
proof -
  obtain nx where nx: "deref (next_of l st) (mem st) = Some nx" using next_at[OF inv] by blast
  have w: "in_window b s" "sg (mem st) seg = Some s" "unat (payload_len s) \<le> length (payload s)" "seg \<in> others"
    using s by (simp_all add: incoming_def)
  have wl: "in_window b ls" "unat (payload_len ls) \<le> length (payload ls)" "length (payload ls) < 2 ^ 16"
    using seg_inv_at[OF inv] ls by auto
  have ne: "l \<noteq> seg" using inv w(4) by (auto simp: seg_inv_def)
  have pb: "length (payload s) < 2 ^ 16" using pools_ok_buffer[OF _ w(2)] inv by (auto simp: seg_inv_def)
  note C = seg_compare[OF w(1) wl(1)] and N = len_seg[OF w(1)] len_seg[OF wl(1)]
  have pos: "from_seg b s < to_seg b s" "to_seg b ls \<le> 65535" using w(1) wl(1) by (simp_all add: in_window_def)
  have n0: "payload_len s \<noteq> 0" using N(1) pos by auto
  have "StreamTcpSegmentDataReplace l seg (sg_seq s) (payload_len s) (mem st) =
      Some (set_payload l (blit (ahead b (sg_seq s) - ahead b (sg_seq ls)) (take (unat (payload_len s)) (payload s)) (payload ls)) (mem st))"
    by (subst DataReplace_run[OF ls w(2) ne, of "payload_len s" b]) (use w wl pb sub pos N in \<open>auto simp: from_seg_def[symmetric]\<close>)
  then have ow: "upd_mem (StreamTcpSegmentDataReplace l seg (sg_seq s) (payload_len s)) st = Some (overwrite b l ls s st)"
    by (simp add: upd_mem_def overwrite_def from_seg_def)
  show ?thesis
  proof (cases "from_seg b s = from_seg b ls")
    case True
    have "HandleSegmentStartsAtSameListSegment stream l seg st =
      Some (1, stream, if new_bytes_win (seg_policy stream) (to_seg b s = to_seg b ls) then overwrite b l ls s st else st)"
      using ls w(2) nx n0 sub(2) ow
      by (auto simp: HandleSegmentStartsAtSameListSegment_def same_ends_def same_overlap_def C replaces_inside Let_def)
    then show ?thesis using True ls w(2) by (simp add: insert_step_def C Let_def)
  next
    case False
    have "HandleSegmentStartsAfterListSegment stream l seg st =
      Some (1, stream, if new_bytes_win (seg_policy stream) False then overwrite b l ls s st else st)"
      using ls w(2) nx n0 sub(2) ow
      by (auto simp: HandleSegmentStartsAfterListSegment_def after_ends_def after_overlap_def C replaces_inside Let_def split: option.split)
    then show ?thesis using False sub pos ls w(2) by (simp add: insert_step_def C Let_def)
  qed
qed

lemma overwrite_bytes:
  assumes l: "in_window b ls" "unat (payload_len ls) \<le> length (payload ls)"
    and s: "in_window b s" "unat (payload_len s) \<le> length (payload s)"
    and sub: "from_seg b ls \<le> from_seg b s" "to_seg b s \<le> to_seg b ls"
  shows "seg_bytes b (ls\<lparr>payload := blit (from_seg b s - from_seg b ls) (take (unat (payload_len s)) (payload s)) (payload ls)\<rparr>) =
    seg_bytes b ls ++ seg_bytes b s"
proof
  fix i
  let ?off = "from_seg b s - from_seg b ls" and ?new = "take (unat (payload_len s)) (payload s)"
  have N: "unat (payload_len s) = to_seg b s - from_seg b s" "unat (payload_len ls) = to_seg b ls - from_seg b ls"
    using len_seg l s by simp_all
  have fit: "?off + length ?new \<le> length (payload ls)" using N l(2) s sub by (simp add: in_window_def)
  have ft: "from_seg b (ls\<lparr>payload := p\<rparr>) = from_seg b ls" "to_seg b (ls\<lparr>payload := p\<rparr>) = to_seg b ls" for p
    by (simp_all add: from_seg_def to_seg_def)
  have nth: "blit ?off ?new (payload ls) ! (i - from_seg b ls) =
      (if from_seg b s \<le> i \<and> i < to_seg b s then payload s ! (i - from_seg b s) else payload ls ! (i - from_seg b ls))"
    if "from_seg b ls \<le> i" "i < to_seg b ls"
  proof -
    have k: "i - from_seg b ls < length (payload ls)" "\<not> i < from_seg b s \<Longrightarrow> i - from_seg b ls - ?off = i - from_seg b s"
      "?off \<le> i - from_seg b ls \<longleftrightarrow> from_seg b s \<le> i" "i - from_seg b ls < ?off + length ?new \<longleftrightarrow> i < to_seg b s"
      using that N l(2) s sub by (simp_all add: in_window_def, linarith+)
    show ?thesis unfolding nth_blit[OF fit k(1)] k(3,4) using k(2) N s by auto
  qed
  show "seg_bytes b (ls\<lparr>payload := blit ?off ?new (payload ls)\<rparr>) i = (seg_bytes b ls ++ seg_bytes b s) i"
  proof (cases "from_seg b s \<le> i \<and> i < to_seg b s")
    case True
    then have "from_seg b ls \<le> i \<and> i < to_seg b ls" using sub by linarith
    then show ?thesis using True nth by (simp add: seg_bytes_def ft map_add_def)
  next
    case False
    then have none: "seg_bytes b s i = None" by (auto simp: seg_bytes_def)
    show ?thesis
    proof (cases "from_seg b ls \<le> i \<and> i < to_seg b ls")
      case True
      then show ?thesis using none nth False by (simp add: seg_bytes_def[of b ls] seg_bytes_def[of b "ls\<lparr>payload := _\<rparr>"] ft map_add_def)
    next
      case out: False
      then have "seg_bytes b ls i = None" by (auto simp: seg_bytes_def)
      moreover have "seg_bytes b (ls\<lparr>payload := blit ?off ?new (payload ls)\<rparr>) i = None" using out by (auto simp: seg_bytes_def ft)
      ultimately show ?thesis using none by (simp add: map_add_def)
    qed
  qed
qed

lemma stored_overwrite:
  assumes inv: "seg_inv env b others (ys @ l # zs) stream st" and ls: "sg (mem st) l = Some ls"
    and s: "in_window b s" "unat (payload_len s) \<le> length (payload s)"
    and sub: "from_seg b ls \<le> from_seg b s" "to_seg b s \<le> to_seg b ls"
  shows "stored b (mem (overwrite b l ls s st)) (ys @ l # zs) = stored b (mem st) (ys @ l # zs) ++ seg_bytes b s"
proof -
  let ?m = "mem (overwrite b l ls s st)"
  have wl: "in_window b ls" "unat (payload_len ls) \<le> length (payload ls)" using seg_inv_at[OF inv] ls by auto
  have dist: "l \<notin> set ys" "l \<notin> set zs" using inv by (auto simp: seg_inv_def list_ok_def)
  then have other: "stored b ?m ys = stored b (mem st) ys" "stored b ?m zs = stored b (mem st) zs"
    by (auto intro!: stored_cong simp: overwrite_def)
  have ch: "chain (pos_of b (mem st)) (end_of b (mem st)) (to_seg b ls) zs 65535"
    using inv ls by (simp add: seg_inv_def list_ok_def chain_append)
  have "to_seg b s \<le> i" if "i \<in> dom (stored b (mem st) zs)" for i
    using that chain_mem[OF ch] sub(2) unfolding dom_stored covers_def by fastforce
  then have "dom (seg_bytes b s) \<inter> dom (stored b (mem st) zs) = {}" unfolding dom_seg_bytes by fastforce
  then have comm: "seg_bytes b s ++ stored b (mem st) zs = stored b (mem st) zs ++ seg_bytes b s" by (rule map_add_comm)
  have "stored b ?m (ys @ l # zs) = stored b (mem st) ys ++ ((seg_bytes b ls ++ seg_bytes b s) ++ stored b (mem st) zs)"
    using ls other overwrite_bytes[OF wl s sub] by (simp only: stored_append stored_simps) (simp add: overwrite_def)
  also have "\<dots> = stored b (mem st) ys ++ (seg_bytes b ls ++ (seg_bytes b s ++ stored b (mem st) zs))" by simp
  finally show ?thesis unfolding comm using ls by (simp add: stored_append)
qed

lemma overwrite_same_shape:
  assumes inv: "seg_inv env b others (ys @ l # zs) stream st" and ls: "sg (mem st) l = Some ls"
    and s: "in_window b s" "unat (payload_len s) \<le> length (payload s)"
    and sub: "from_seg b ls \<le> from_seg b s" "to_seg b s \<le> to_seg b ls"
  shows "shape (mem (overwrite b l ls s st)) a = shape (mem st) a"
proof -
  have "unat (payload_len ls) \<le> length (payload ls)" "in_window b ls" using seg_inv_at[OF inv] ls by auto
  then have "length (blit (from_seg b s - from_seg b ls) (take (unat (payload_len s)) (payload s)) (payload ls)) = length (payload ls)"
    using len_seg[OF s(1)] len_seg[of b ls] s sub by (intro length_blit) (simp add: in_window_def)
  then show ?thesis using ls by (simp add: overwrite_def shape_set_payload)
qed

lemma HandleData_inside:
  assumes inv: "seg_inv env b others (ys @ l # zs) stream st" and ls: "sg (mem st) l = Some ls"
    and p: "in_window b (packet_segment p data)" "unat (pay_len p) \<le> length data"
    and sub: "from_seg b ls \<le> from_seg b (packet_segment p data)" "to_seg b (packet_segment p data) \<le> to_seg b ls"
    and pol: "seg_policy stream \<noteq> 0"
    and get: "fst (StreamTcpGetSegment (pay_len p) st) \<noteq> None"
  shows "\<exists>stream' st'. StreamTcpReassembleHandleSegmentHandleData E p data stream st = Some (0, stream', st') \<and>
    stored b (mem st') (ys @ l # zs) = (if new_bytes_win (seg_policy stream)
        (from_seg b (packet_segment p data) = from_seg b ls \<and> to_seg b (packet_segment p data) = to_seg b ls)
      then stored b (mem st) (ys @ l # zs) ++ seg_bytes b (packet_segment p data) else stored b (mem st) (ys @ l # zs))"
proof -
  let ?s = "packet_segment p data" and ?xs = "ys @ l # zs"
  obtain seg st1 where get: "StreamTcpGetSegment (pay_len p) st = (Some seg, st1)"
    using get by (cases "StreamTcpGetSegment (pay_len p) st") auto
  obtain st2 s where st2: "store_payload seg data (th_seq p) (pay_len p) st1 = Some st2" "seg \<notin> set ?xs \<union> others"
    "incoming b (insert seg others) seg s st2" "sg_seq s = th_seq p" "payload_len s = pay_len p"
    "take (unat (pay_len p)) (payload s) = take (unat (pay_len p)) data"
    "sg_links (mem st2) seg = \<lparr>n_next = None, n_prev = None\<rparr>"
    "seg_inv env b (insert seg others) ?xs stream st2" "same_on (set ?xs \<union> others) st st2"
    using packet_segment_ok[OF inv get p] by blast
  have eq: "from_seg b s = from_seg b ?s" "to_seg b s = to_seg b ?s"
    using st2(4,5) by (simp_all add: from_seg_def to_seg_def packet_segment_def)
  have sb: "seg_bytes b s = seg_bytes b ?s"
    using st2(3-6) p(2) by (intro seg_bytes_cong) (simp_all add: packet_segment_def incoming_def)
  have same: "sg (mem st2) x = sg (mem st) x" if "x \<in> set ?xs" for x using st2(9) that unfolding same_on_def by blast
  have ls2: "sg (mem st2) l = Some ls" using same[of l] ls by simp
  have s: "in_window b s" "unat (payload_len s) \<le> length (payload s)" using st2(3) by (simp_all add: incoming_def)
  have sub2: "from_seg b ls \<le> from_seg b s" "to_seg b s \<le> to_seg b ls" using sub eq by simp_all
  define win where "win = new_bytes_win (seg_policy stream) (from_seg b s = from_seg b ls \<and> to_seg b s = to_seg b ls)"
  define st3 where "st3 = (if win then overwrite b l ls s st2 else st2)"
  have lp: "loop_stream E p stream = stream" using pol by (simp add: loop_stream_def)
  have "from_seg b s < end_of b (mem st2) (last ?xs)"
  proof -
    have "chain (pos_of b (mem st2)) (end_of b (mem st2)) (to_seg b ls) zs (endp (end_of b (mem st2)) (to_seg b ls) zs)"
      using st2(8) ls2 chain_append[of "pos_of b (mem st2)" "end_of b (mem st2)" 0 "ys @ [l]" zs 65535] chain_append[of "pos_of b (mem st2)" "end_of b (mem st2)" "to_seg b ls" zs "[]" 65535]
      by (simp add: seg_inv_def list_ok_def)
    then have "to_seg b ls \<le> endp (end_of b (mem st2)) (to_seg b ls) zs" by (rule chain_le)
    moreover have "endp (end_of b (mem st2)) (to_seg b ls) zs = end_of b (mem st2) (last ?xs)" using ls2 by (simp add: endp_def)
    ultimately have "to_seg b ls \<le> end_of b (mem st2) (last ?xs)" by simp
    then show ?thesis using sub2 s(1) by (simp add: in_window_def)
  qed
  note R = insert_in_loop[OF st2(8,3) _ this, of E p, unfolded lp]
  have behind: "end_of b (mem st2) x \<le> from_seg b s" if "x \<in> set ys" for x
  proof -
    have "chain (pos_of b (mem st2)) (end_of b (mem st2)) 0 ys (endp (end_of b (mem st2)) 0 ys)" "endp (end_of b (mem st2)) 0 ys \<le> from_seg b ls"
      using st2(8) ls2 by (auto simp: seg_inv_def list_ok_def chain_append)
    then have "end_of b (mem st2) x \<le> endp (end_of b (mem st2)) 0 ys" "endp (end_of b (mem st2)) 0 ys \<le> from_seg b ls"
      using chain_mem that by blast+
    then show ?thesis using sub2(1) by simp
  qed
  have "insert_loop (first_or ?xs None) seg stream st2 = insert_loop (first_or (l # zs) None) seg stream st2"
    by (rule insert_loop_skip[of env b "insert seg others" "[]"]) (use st2(3,8) behind in simp_all)
  also have "\<dots> = Some (0, True, stream, st3)"
    using insert_step_inside[OF st2(8,3) ls2 sub2] by (subst insert_loop.simps) (simp add: win_def st3_def)
  finally have loop: "insert_loop (first_or ?xs None) seg stream st2 = Some (0, True, stream, st3)" .
  have ok2: "pools_ok env 8 (set ?xs \<union> insert seg others) st2" using st2(8) by (simp add: seg_inv_def)
  have "pools_ok env 8 (set ?xs \<union> insert seg others) st3"
  proof (cases win)
    case True
    then show ?thesis unfolding st3_def overwrite_def
      using pools_ok_mem[OF ok2, of "mem (overwrite b l ls s st2)"] overwrite_same_shape[OF st2(8) ls2 s sub2]
      by (simp add: overwrite_def)
  qed (use ok2 in \<open>simp add: st3_def\<close>)
  from ReturntoPool_ok[OF this, of seg] obtain st4 where st4: "StreamTcpSegmentReturntoPool seg st3 = Some st4" "same_on (- {seg}) st3 st4" by auto
  have "StreamTcpReassembleHandleSegmentHandleData E p data stream st = Some (0, stream, st4)"
    using get st2(1) R loop st4(1) by (simp add: StreamTcpReassembleHandleSegmentHandleData_def)
  moreover have "stored b (mem st4) ?xs = stored b (mem st3) ?xs"
    using st4(2) st2(2) by (intro stored_cong) (auto simp: same_on_def)
  moreover have "stored b (mem st2) ?xs = stored b (mem st) ?xs" using same by (rule stored_cong)
  moreover have "stored b (mem st3) ?xs = (if win then stored b (mem st2) ?xs ++ seg_bytes b s else stored b (mem st2) ?xs)"
    using stored_overwrite[OF st2(8) ls2 s sub2] by (simp add: st3_def)
  ultimately show ?thesis using sb eq by (simp add: win_def)
qed

end
