(* ===== verification/StreamMsgQueue.thy ===== *)
theory StreamMsgQueue
  imports StreamTcpSession LinkedQueues Pool
begin

text \<open>
  Stream messages (\<open>src/stream.c\<close>, \<open>src/stream.h\<close>): the pool they come from, the queue between reassembly and
  the parsers of the application layer, and the limits that delay reassembly.
\<close>

section \<open>Messages\<close>

text \<open>
  \<open>smsg_at\<close> is the object of the pool. The addresses, ports and the flow of a message are not kept; the members of
  the two cases of the union are separate fields (the first overlaps the source address only).
\<close>

definition MSG_DATA_SIZE :: nat where "MSG_DATA_SIZE = 2048"

record StreamMsg =
  smsg_at :: addr
  smsg_flags :: u8
  smsg_data :: bytes
  data_len :: u16
  data_seq :: u32
  gap_size :: u32

definition STREAM_START :: u8 where "STREAM_START = 0x08"
definition STREAM_EOF :: u8 where "STREAM_EOF = 0x10"
definition STREAM_TOSERVER :: u8 where "STREAM_TOSERVER = 0x20"
definition STREAM_TOCLIENT :: u8 where "STREAM_TOCLIENT = 0x40"
definition STREAM_GAP :: u8 where "STREAM_GAP = 0x80"

section \<open>The pool\<close>

record msg_mem =
  msg_mallocs :: nat
  stream_pool_memuse :: u64
  stream_pool_memcnt :: u64

type_synonym msg_pool = "(unit, addr, msg_mem) Pool"

text \<open>\<open>ok n\<close> tells whether the \<open>n\<close>-th \<open>SCMalloc\<close> succeeds; \<open>sz\<close> is \<open>sizeof(StreamMsg)\<close>.\<close>

definition StreamMsgAlloc :: "(nat \<Rightarrow> bool) \<Rightarrow> u64 \<Rightarrow> unit \<Rightarrow> msg_mem \<Rightarrow> addr option \<times> msg_mem" where
  "StreamMsgAlloc ok sz u m =
     (let a = msg_mallocs m in
      if \<not> ok a then (None, m\<lparr>msg_mallocs := a + 1\<rparr>)
      else (Some a, m\<lparr>msg_mallocs := a + 1, stream_pool_memuse := stream_pool_memuse m + sz,
                      stream_pool_memcnt := stream_pool_memcnt m + 1\<rparr>))"

text \<open>Only \<open>SCFree\<close>; the counters are not taken back.\<close>

definition StreamMsgFree :: "addr option \<Rightarrow> msg_mem \<Rightarrow> msg_mem" where
  "StreamMsgFree p m = m"

definition StreamMsgQueuesInit :: "(nat \<Rightarrow> bool) \<Rightarrow> (nat \<Rightarrow> bool) \<Rightarrow> u64 \<Rightarrow> msg_mem \<Rightarrow> (msg_pool \<times> msg_mem) option" where
  "StreamMsgQueuesInit mok ok sz m = PoolInit mok 5000 250 (Some (StreamMsgAlloc ok sz)) () (Some StreamMsgFree) m"

definition StreamMsgGetFromPool :: "msg_pool \<times> msg_mem \<Rightarrow> addr option \<times> msg_pool \<times> msg_mem" where
  "StreamMsgGetFromPool s = PoolGet s"

definition StreamMsgReturnToPool :: "addr \<Rightarrow> msg_pool \<times> msg_mem \<Rightarrow> msg_pool \<times> msg_mem" where
  "StreamMsgReturnToPool a s = PoolReturn (Some a) s"

section \<open>The queue\<close>

type_synonym StreamMsgQueue = "u16 queue"

definition StreamMsgEnqueue :: "addr \<Rightarrow> store \<times> StreamMsgQueue \<Rightarrow> store \<times> StreamMsgQueue" where
  "StreamMsgEnqueue s t =
     (case t of (\<sigma>, q) \<Rightarrow>
        (case q_top q of
           Some t \<Rightarrow> (set_prev t (Some s) (set_next s (Some t) \<sigma>), q\<lparr>q_top := Some s, q_len := q_len q + 1\<rparr>)
         | None \<Rightarrow> (\<sigma>, q\<lparr>q_top := Some s, q_bot := Some s, q_len := q_len q + 1\<rparr>)))"

definition StreamMsgDequeue :: "store \<times> StreamMsgQueue \<Rightarrow> (addr option \<times> store \<times> StreamMsgQueue) option" where
  "StreamMsgDequeue t =
     (case t of (\<sigma>, q) \<Rightarrow>
        if q_len q = 0 then Some (None, t)
        else do {
          s \<leftarrow> q_bot q;
          let (\<sigma>, q) = (case n_prev (\<sigma> s) of
                           Some b \<Rightarrow> (set_next b None \<sigma>, q\<lparr>q_bot := Some b\<rparr>)
                         | None \<Rightarrow> (\<sigma>, q\<lparr>q_top := None, q_bot := None\<rparr>));
          Some (Some s, set_prev s None (set_next s None \<sigma>), q\<lparr>q_len := q_len q - 1\<rparr>)
        })"

definition StreamMsgPutInQueue :: "addr \<Rightarrow> store \<times> StreamMsgQueue \<Rightarrow> store \<times> StreamMsgQueue" where
  "StreamMsgPutInQueue s t = StreamMsgEnqueue s t"

definition StreamMsgGetFromQueue :: "store \<times> StreamMsgQueue \<Rightarrow> (addr option \<times> store \<times> StreamMsgQueue) option" where
  "StreamMsgGetFromQueue t = (if q_len (snd t) > 0 then StreamMsgDequeue t else Some (None, t))"

lemma StreamMsgPutInQueue_repr:
  assumes "repr s xs" "a \<notin> set xs" "null_links (fst s) a"
  shows "repr (StreamMsgPutInQueue a s) (a # xs)"
proof (cases s)
  case (Pair \<sigma> q)
  note r = assms(1)[unfolded Pair]
  show ?thesis
  proof (cases xs)
    case Nil
    then show ?thesis using assms(2-) Pair repr_top_cases[OF r] repr_distinct[OF r]
      by (auto simp: StreamMsgPutInQueue_def StreamMsgEnqueue_def null_links_def intro!: push_front_repr[OF r[unfolded Nil]])
  next
    case (Cons t ts)
    then show ?thesis using assms(2-) Pair repr_top_cases[OF r] repr_distinct[OF r]
      by (auto simp: StreamMsgPutInQueue_def StreamMsgEnqueue_def null_links_def set_next_def set_prev_def
               intro!: push_front_repr[OF r[unfolded Cons]])
  qed
qed

lemma StreamMsgPutInQueue_frame:
  "repr s xs \<Longrightarrow> b \<noteq> a \<Longrightarrow> b \<notin> set xs \<Longrightarrow> fst (StreamMsgPutInQueue a s) b = fst s b"
  by (cases s; cases xs; auto simp: StreamMsgPutInQueue_def StreamMsgEnqueue_def dest: repr_top_cases)

lemma StreamMsgGetFromQueue_repr:
  fixes s :: "store \<times> StreamMsgQueue"
  assumes "repr s (xs @ [x])" "length (xs @ [x]) < 2 ^ LENGTH(16)"
  shows "\<exists>s'. StreamMsgGetFromQueue s = Some (Some x, s') \<and> repr s' xs \<and> null_links (fst s') x \<and>
      (\<forall>b. b \<notin> set (xs @ [x]) \<longrightarrow> fst s' b = fst s b)"
proof (cases s)
  case (Pair \<sigma> q)
  note r = assms(1)[unfolded Pair] and d = repr_distinct[OF assms(1)]
  have len: "q_len q \<noteq> 0" using repr_len_nonzero[OF r assms(2)] by simp
  then have pos: "q_len q > 0" by (simp add: word_gt_0)
  show ?thesis
  proof (cases xs rule: rev_cases)
    case Nil
    then show ?thesis using repr_back[OF r] len pos Pair d
      by (auto simp: StreamMsgGetFromQueue_def StreamMsgDequeue_def null_links_def intro!: pop_back_repr[OF r[unfolded Nil]])
  next
    case (snoc ys b)
    then show ?thesis using repr_back[OF r] len pos Pair d
      by (auto simp: StreamMsgGetFromQueue_def StreamMsgDequeue_def null_links_def set_next_def set_prev_def
               intro!: pop_back_repr[OF r[unfolded snoc]])
  qed
qed

lemma StreamMsgGetFromQueue_empty: "repr s [] \<Longrightarrow> StreamMsgGetFromQueue s = Some (None, s)"
  by (auto simp: repr_def queue_repr_Nil StreamMsgGetFromQueue_def split: prod.split)

interpretation mq: linked_fifo StreamMsgPutInQueue StreamMsgGetFromQueue null_links
  by unfold_locales
     (auto simp: StreamMsgPutInQueue_repr StreamMsgPutInQueue_frame StreamMsgGetFromQueue_empty null_links_def[of _ b for b]
        dest: StreamMsgGetFromQueue_repr)

text \<open>The queue is a first in, first out list of messages; what follows uses it as such.\<close>

lemma stream_msg_queue_fifo:
  assumes "mq.rel s xs" "good_ops (2 ^ 16) xs ops"
  shows "queue_run StreamMsgPutInQueue StreamMsgGetFromQueue s ops = Some (list_run xs ops)"
  using mq.run_refines[OF assms(1)] assms(2) by simp

section \<open>The limits\<close>

record chunk_lens =
  toserver_min_init_chunk_len :: u16
  toserver_min_chunk_len :: u16
  toclient_min_init_chunk_len :: u16
  toclient_min_chunk_len :: u16

definition StreamMsgQueueSetMinInitChunkLen :: "u8 \<Rightarrow> u16 \<Rightarrow> chunk_lens \<Rightarrow> chunk_lens" where
  "StreamMsgQueueSetMinInitChunkLen dir len c =
     (if dir = FLOW_PKT_TOSERVER then c\<lparr>toserver_min_init_chunk_len := len\<rparr> else c\<lparr>toclient_min_init_chunk_len := len\<rparr>)"

definition StreamMsgQueueSetMinChunkLen :: "u8 \<Rightarrow> u16 \<Rightarrow> chunk_lens \<Rightarrow> chunk_lens" where
  "StreamMsgQueueSetMinChunkLen dir len c =
     (if dir = FLOW_PKT_TOSERVER then c\<lparr>toserver_min_chunk_len := len\<rparr> else c\<lparr>toclient_min_chunk_len := len\<rparr>)"

text \<open>
  Setters and getters compare their argument with \<open>FLOW_PKT_TOSERVER\<close> (1), but the getters are called with
  \<open>STREAM_TOSERVER\<close> (32) and \<open>STREAM_TOCLIENT\<close> (64).
\<close>

definition StreamMsgQueueGetMinInitChunkLen :: "u8 \<Rightarrow> chunk_lens \<Rightarrow> u16" where
  "StreamMsgQueueGetMinInitChunkLen dir c =
     (if dir = FLOW_PKT_TOSERVER then toserver_min_init_chunk_len c else toclient_min_init_chunk_len c)"

definition StreamMsgQueueGetMinChunkLen :: "u8 \<Rightarrow> chunk_lens \<Rightarrow> u16" where
  "StreamMsgQueueGetMinChunkLen dir c =
     (if dir = FLOW_PKT_TOSERVER then toserver_min_chunk_len c else toclient_min_chunk_len c)"

text \<open>So the limits for data to the server are never used.\<close>

lemma toserver_limit_unused:
  "StreamMsgQueueGetMinInitChunkLen STREAM_TOSERVER c = toclient_min_init_chunk_len c"
  "StreamMsgQueueGetMinChunkLen STREAM_TOSERVER c = toclient_min_chunk_len c"
  by (simp_all add: StreamMsgQueueGetMinInitChunkLen_def StreamMsgQueueGetMinChunkLen_def STREAM_TOSERVER_def FLOW_PKT_TOSERVER_def)

end
