(* ===== verification/StreamTcpReassemble.thy ===== *)
theory StreamTcpReassemble
  imports StreamTcpSegments StreamMsgQueue
begin

text \<open>
  The acknowledgement side of TCP reassembly (\<open>src/stream-tcp-reassemble.c\<close>): acknowledged segments become
  messages for the application layer, gaps are announced, and the segments go back to their pools. The queue of
  messages is the list that theory StreamMsgQueue shows it to be. \<open>None\<close> is an access outside a buffer or to a
  segment that is not allocated; the checks that are only made when debug output is on are left out.
\<close>

section \<open>The state\<close>

text \<open>The members of \<open>TcpStream\<close> that reassembly uses.\<close>

record ra_stream =
  segs :: seg_stream
  r_isn :: u32
  r_last_ack :: u32
  r_ra_base_seq :: u32
  r_tmp_ra_base_seq :: u32

text \<open>
  The segments of all streams, the pool of messages and the queue of the thread. \<open>stale a\<close> is what the object \<open>a\<close>
  of the pool holds when it is taken.
\<close>

record ra_world =
  seg_st :: seg_state
  stream_msg_pool :: msg_pool
  msg_st :: msg_mem
  stale :: "addr \<Rightarrow> StreamMsg"
  stream_q :: "StreamMsg list"
  q_flags :: u8
  chunks :: chunk_lens

definition STREAMTCP_FLAG_NOCLIENT_REASSEMBLY :: u16 where "STREAMTCP_FLAG_NOCLIENT_REASSEMBLY = 0x0040"
definition STREAMTCP_FLAG_NOSERVER_REASSEMBLY :: u16 where "STREAMTCP_FLAG_NOSERVER_REASSEMBLY = 0x0080"
definition STREAMTCP_FLAG_APPPROTO_DETECTION_COMPLETED :: u16 where "STREAMTCP_FLAG_APPPROTO_DETECTION_COMPLETED = 0x0400"
definition STREAMTCP_FLAG_PAUSE_TOSERVER_REASSEMBLY :: u16 where "STREAMTCP_FLAG_PAUSE_TOSERVER_REASSEMBLY = 0x0800"
definition STREAMTCP_FLAG_PAUSE_TOCLIENT_REASSEMBLY :: u16 where "STREAMTCP_FLAG_PAUSE_TOCLIENT_REASSEMBLY = 0x1000"
definition SEGMENTTCP_FLAG_PROCESSED :: u8 where "SEGMENTTCP_FLAG_PROCESSED = 0x01"
definition STREAMQUEUE_FLAG_INIT :: u8 where "STREAMQUEUE_FLAG_INIT = 0x01"
definition PKT_STREAM_ADD :: u8 where "PKT_STREAM_ADD = 0x10"

text \<open>\<open>direction\<close>: to the server, or to the client.\<close>

definition StreamTcpReassemblePause :: "bool \<Rightarrow> u16 \<Rightarrow> u16" where
  "StreamTcpReassemblePause direction f =
     set_flag (if direction then STREAMTCP_FLAG_PAUSE_TOSERVER_REASSEMBLY else STREAMTCP_FLAG_PAUSE_TOCLIENT_REASSEMBLY) f"

definition StreamTcpReassembleUnPause :: "bool \<Rightarrow> u16 \<Rightarrow> u16" where
  "StreamTcpReassembleUnPause direction f =
     clr_flag (if direction then STREAMTCP_FLAG_PAUSE_TOSERVER_REASSEMBLY else STREAMTCP_FLAG_PAUSE_TOCLIENT_REASSEMBLY) f"

section \<open>Messages\<close>

text \<open>The use count of the flow that \<open>StreamTcpSetupMsg\<close> increases is not kept.\<close>

definition StreamTcpSetupMsg :: "tcp_state \<Rightarrow> ra_stream \<Rightarrow> TcpPacket \<Rightarrow> StreamMsg \<Rightarrow> StreamMsg" where
  "StreamTcpSetupMsg ts stream p m =
     (let f = (if r_ra_base_seq stream = r_isn stream then STREAM_START else 0);
          f = (if state_value ts > state_value TCP_ESTABLISHED then f OR STREAM_EOF else f);
          f = (if flowflags p AND FLOW_PKT_TOSERVER \<noteq> 0 then f OR STREAM_TOCLIENT else f OR STREAM_TOSERVER)
      in m\<lparr>smsg_flags := f, data_len := 0\<rparr>)"

definition take_msg :: "ra_world \<Rightarrow> StreamMsg option \<times> ra_world" where
  "take_msg w = (case StreamMsgGetFromPool (stream_msg_pool w, msg_st w) of
     (r, p, m) \<Rightarrow> (map_option (stale w) r, w\<lparr>stream_msg_pool := p, msg_st := m\<rparr>))"

definition put_msg :: "StreamMsg \<Rightarrow> ra_world \<Rightarrow> ra_world" where
  "put_msg m w = w\<lparr>stream_q := stream_q w @ [m]\<rparr>"

definition StreamTcpReassembleCheckLimit :: "tcp_state \<Rightarrow> ra_stream \<Rightarrow> TcpPacket \<Rightarrow> chunk_lens \<Rightarrow> bool" where
  "StreamTcpReassembleCheckLimit ts stream p c =
     (if state_value ts \<ge> state_value TCP_TIME_WAIT then True
      else
        let dir = (if flowflags p AND FLOW_PKT_TOCLIENT \<noteq> 0 then STREAM_TOSERVER else STREAM_TOCLIENT);
            len = (if r_ra_base_seq stream = r_isn stream then StreamMsgQueueGetMinInitChunkLen dir c
                   else StreamMsgQueueGetMinChunkLen dir c)
        in \<not> ucast len > r_last_ack stream - r_ra_base_seq stream)"

section \<open>The loop over the segments\<close>

text \<open>
  What the loop changes: the stream, the world, and its variables \<open>smsg\<close>, \<open>smsg_offset\<close>, \<open>next_seq\<close> and \<open>ra_base_seq\<close>.
  A step returns \<open>Inl\<close> when there is no message left in the pool (the function returns -1).
\<close>

record ack_state =
  strm :: ra_stream
  wrld :: ra_world
  smsg :: "StreamMsg option"
  smsg_offset :: u16
  exp_seq :: u32
  base_seq :: u32

text \<open>The parameters of the loop: \<open>done_detection\<close> is \<open>STREAMTCP_FLAG_APPPROTO_DETECTION_COMPLETED\<close>.\<close>

record ack_env =
  done_detection :: bool
  sess_state :: tcp_state
  ack_packet :: TcpPacket

definition set_base :: "ack_env \<Rightarrow> ack_state \<Rightarrow> ack_state" where
  "set_base e s = s\<lparr>strm := (if done_detection e then (strm s)\<lparr>r_ra_base_seq := base_seq s\<rparr>
                            else (strm s)\<lparr>r_tmp_ra_base_seq := base_seq s\<rparr>)\<rparr>"

text \<open>A message that is complete goes into the queue.\<close>

definition queue_smsg :: "ack_env \<Rightarrow> StreamMsg \<Rightarrow> ack_state \<Rightarrow> ack_state" where
  "queue_smsg e m s =
     (let w = put_msg m (wrld s);
          w = (if done_detection e then w else w\<lparr>q_flags := q_flags w OR STREAMQUEUE_FLAG_INIT\<rparr>)
      in set_base e (s\<lparr>wrld := w, smsg := None\<rparr>))"

text \<open>A new message when there is none.\<close>

definition need_msg :: "ack_state \<Rightarrow> (StreamMsg \<times> ack_state) option" where
  "need_msg s = (case take_msg (wrld s) of
     (None, w) \<Rightarrow> None
   | (Some m, w) \<Rightarrow> Some (m, s\<lparr>wrld := w\<rparr>))"

definition no_msg :: "ack_state \<Rightarrow> ack_state" where
  "no_msg s = s\<lparr>wrld := snd (take_msg (wrld s))\<rparr>"

text \<open>\<open>seg->seq\<close> is behind the next byte expected: a message that says how many bytes are missing.\<close>

definition handle_gap :: "ack_env \<Rightarrow> TcpSegment \<Rightarrow> ack_state \<Rightarrow> ack_state + ack_state" where
  "handle_gap e sgm s =
     (let gap_len = sg_seq sgm - exp_seq s;
          s = s\<lparr>exp_seq := sg_seq sgm\<rparr>;
          s = (case smsg s of Some m \<Rightarrow> if data_len m > 0 then queue_smsg e m s else s | None \<Rightarrow> s)
      in case (case smsg s of Some m \<Rightarrow> Some (m, s) | None \<Rightarrow> need_msg s) of
           None \<Rightarrow> Inl (no_msg s)
         | Some (m, s) \<Rightarrow>
             (let s = set_base e s;
                  m = StreamTcpSetupMsg (sess_state e) (strm s) (ack_packet e) m;
                  m = m\<lparr>smsg_flags := smsg_flags m OR STREAM_GAP, gap_size := gap_len\<rparr>
              in Inr (s\<lparr>base_seq := sg_seq sgm - 1, wrld := put_msg m (wrld s), smsg := None, smsg_offset := 0\<rparr>)))"

text \<open>\<open>memcpy(smsg->data.data + smsg_offset, seg->payload + off, n)\<close> and the updates behind it.\<close>

definition copy_to_msg :: "TcpSegment \<Rightarrow> u16 \<Rightarrow> u16 \<Rightarrow> StreamMsg \<Rightarrow> ack_state \<Rightarrow> (StreamMsg \<times> ack_state) option" where
  "copy_to_msg sgm off n m s =
     (if unat off + unat n \<le> length (payload sgm) \<and> unat (smsg_offset s) + unat n \<le> length (smsg_data m) then
        Some (m\<lparr>smsg_data := take (unat (smsg_offset s)) (smsg_data m) @ take (unat n) (drop (unat off) (payload sgm)) @
                  drop (unat (smsg_offset s) + unat n) (smsg_data m),
                data_len := data_len m + n\<rparr>,
              s\<lparr>smsg_offset := smsg_offset s + n, base_seq := base_seq s + ucast n\<rparr>)
      else None)"

definition queue_if_full :: "ack_env \<Rightarrow> StreamMsg \<Rightarrow> ack_state \<Rightarrow> ack_state" where
  "queue_if_full e m s = (if unat (data_len m) = MSG_DATA_SIZE then queue_smsg e m s else s\<lparr>smsg := Some m\<rparr>)"

text \<open>The payload that did not fit into the first message. \<open>off\<close> is \<open>payload_offset\<close>.\<close>

partial_function (option) rest_loop :: "ack_env \<Rightarrow> TcpSegment \<Rightarrow> u16 \<Rightarrow> ack_state \<Rightarrow> (ack_state + ack_state) option" where
  "rest_loop e sgm off s =
     (case need_msg s of
        None \<Rightarrow> Some (Inl ((no_msg s)\<lparr>smsg := None\<rparr>))
      | Some (m, s) \<Rightarrow> do {
          let s = s\<lparr>smsg_offset := 0\<rparr>;
          let m = (StreamTcpSetupMsg (sess_state e) (strm s) (ack_packet e) m)\<lparr>data_seq := base_seq s\<rparr>;
          let n = (if int MSG_DATA_SIZE > int (unat (payload_len sgm)) - int (unat off) then payload_len sgm - off
                   else of_nat MSG_DATA_SIZE);
          (m, s) \<leftarrow> copy_to_msg sgm off n m s;
          let s = queue_if_full e m s;
          if unat n + unat off < unat (payload_len sgm) then rest_loop e sgm (off + n) s
          else Some (Inr s)
        })"

declare rest_loop.simps [code]

text \<open>Where the bytes of a segment start that were not delivered before, and how many of them were acknowledged.\<close>

definition ack_range :: "TcpSegment \<Rightarrow> u32 \<Rightarrow> u32 \<Rightarrow> u16 \<times> u16" where
  "ack_range sgm base ack =
     (if SEQ_GT base (sg_seq sgm) then
        (let off = ucast (base - sg_seq sgm) :: u16 in
         (off,
          if SEQ_LT ack (seg_end sgm) then
            (if SEQ_LT ack base then ucast (ack - sg_seq sgm) else ucast ((ack - sg_seq sgm) - ucast off))
          else payload_len sgm - off))
      else (0, if SEQ_LT ack (seg_end sgm) then ucast (ack - sg_seq sgm) else payload_len sgm))"

definition copy_segment :: "ack_env \<Rightarrow> TcpSegment \<Rightarrow> ack_state \<Rightarrow> (ack_state + ack_state) option" where
  "copy_segment e sgm s =
     (case (case smsg s of
              Some m \<Rightarrow> Some (m, s)
            | None \<Rightarrow> map_option (\<lambda>(m, s). (StreamTcpSetupMsg (sess_state e) (strm s) (ack_packet e) m, s\<lparr>smsg_offset := 0\<rparr>)) (need_msg s)) of
        None \<Rightarrow> Some (Inl (no_msg s))
      | Some (m, s) \<Rightarrow> do {
          let m = m\<lparr>data_seq := base_seq s\<rparr>;
          let (off, len) = ack_range sgm (base_seq s) (r_last_ack (strm s));
          let room = of_nat MSG_DATA_SIZE - smsg_offset s;
          let n = (if room > len then len else room);
          (m, s) \<leftarrow> copy_to_msg sgm off n m s;
          let s = queue_if_full e m s;
          if n < len then rest_loop e sgm (off + n) s else Some (Inr s)
        })"

text \<open>A segment is taken out of the list and given back, from anywhere or from the head.\<close>

definition unlink_seg :: "addr \<Rightarrow> seg_stream \<Rightarrow> seg_state \<Rightarrow> seg_stream \<times> seg_state" where
  "unlink_seg a stream st =
     (let nx = next_of a st; pv = prev_of a st;
          (stream, st) = (case pv of
             None \<Rightarrow> (stream\<lparr>seg_head := nx\<rparr>, upd_links (set_prev_opt nx None) st)
           | Some b \<Rightarrow> (stream, upd_links (\<lambda>k. set_prev_opt nx pv (set_next b nx k)) st))
      in (if seg_tail stream = Some a then stream\<lparr>seg_tail := prev_of a st\<rparr> else stream, st))"

definition unlink_head :: "addr \<Rightarrow> seg_stream \<Rightarrow> seg_state \<Rightarrow> seg_stream \<times> seg_state" where
  "unlink_head a stream st =
     (let nx = next_of a st;
          st = upd_links (set_prev_opt nx None) st;
          stream = stream\<lparr>seg_head := nx\<rparr>
      in (if seg_tail stream = Some a then stream\<lparr>seg_tail := prev_of a st\<rparr> else stream, st))"

definition set_seg_flags :: "addr \<Rightarrow> (u8 \<Rightarrow> u8) \<Rightarrow> seg_state \<Rightarrow> seg_state" where
  "set_seg_flags a f st =
     st\<lparr>mem := (mem st)\<lparr>sg := (sg (mem st))(a := map_option (\<lambda>s. s\<lparr>sg_flags := f (sg_flags s)\<rparr>) (sg (mem st) a))\<rparr>\<rparr>"

definition drop_seg :: "(addr \<Rightarrow> seg_stream \<Rightarrow> seg_state \<Rightarrow> seg_stream \<times> seg_state) \<Rightarrow> addr \<Rightarrow> ack_state \<Rightarrow> ack_state option" where
  "drop_seg unlink a s =
     (case unlink a (segs (strm s)) (seg_st (wrld s)) of
        (stream, st) \<Rightarrow> do {
          st \<leftarrow> StreamTcpSegmentReturntoPool a st;
          Some (s\<lparr>strm := (strm s)\<lparr>segs := stream\<rparr>, wrld := (wrld s)\<lparr>seg_st := st\<rparr>\<rparr>)
        })"

text \<open>The bytes of a segment, behind a gap message when there is one.\<close>

definition deliver_seg :: "ack_env \<Rightarrow> TcpSegment \<Rightarrow> ack_state \<Rightarrow> (ack_state + ack_state) option" where
  "deliver_seg e sgm s =
     (case (if SEQ_GT (sg_seq sgm) (exp_seq s) then handle_gap e sgm s else Inr s) of
        Inl s \<Rightarrow> Some (Inl s)
      | Inr s \<Rightarrow> (if SEQ_GT (seg_end sgm) (base_seq s) then copy_segment e sgm s else Some (Inr s)))"

text \<open>
  What happens to it then: it is removed, or marked as long as the protocol is not known. The result has the
  segment to go on with, or \<open>None\<close> after the \<open>break\<close>.
\<close>

definition finish_seg :: "ack_env \<Rightarrow> addr \<Rightarrow> addr option \<Rightarrow> ack_state \<Rightarrow> (addr option \<times> ack_state) option" where
  "finish_seg e a nx s =
     (if done_detection e then map_option (Pair nx) (drop_seg unlink_head a s)
      else
        let s = s\<lparr>wrld := (wrld s)\<lparr>seg_st := set_seg_flags a (\<lambda>f. f OR SEGMENTTCP_FLAG_PROCESSED) (seg_st (wrld s))\<rparr>\<rparr>
        in Some (if q_flags (wrld s) AND STREAMQUEUE_FLAG_INIT \<noteq> 0 then None else nx, s))"

text \<open>One pass of the loop.\<close>

definition ack_step :: "ack_env \<Rightarrow> addr \<Rightarrow> ack_state \<Rightarrow> (ack_state + addr option \<times> ack_state) option" where
  "ack_step e a s = do {
     sgm \<leftarrow> sg (mem (seg_st (wrld s))) a;
     let nx = next_of a (seg_st (wrld s));
     let base = base_seq s;
     if done_detection e \<and> sg_flags sgm AND SEGMENTTCP_FLAG_PROCESSED \<noteq> 0 then
       (let s = s\<lparr>wrld := (wrld s)\<lparr>seg_st := set_seg_flags a (\<lambda>f. f AND NOT SEGMENTTCP_FLAG_PROCESSED) (seg_st (wrld s))\<rparr>\<rparr>
        in map_option (\<lambda>s. Inr (nx, s)) (drop_seg unlink_seg a s))
     else if SEQ_LEQ (seg_end sgm) (base + 1) \<or> SEQ_LEQ (r_last_ack (strm s)) (base + (base - sg_seq sgm)) then
       map_option (\<lambda>s. Inr (nx, s)) (drop_seg unlink_seg a s)
     else do {
       r \<leftarrow> deliver_seg e sgm s;
       case r of
         Inl s \<Rightarrow> Some (Inl s)
       | Inr s \<Rightarrow> map_option Inr (finish_seg e a nx (s\<lparr>exp_seq := seg_end sgm\<rparr>))
     }
   }"

partial_function (option) ack_loop :: "ack_env \<Rightarrow> addr option \<Rightarrow> ack_state \<Rightarrow> (ack_state + ack_state) option" where
  "ack_loop e p s =
     (case p of
        None \<Rightarrow> Some (Inr s)
      | Some a \<Rightarrow> do {
          sgm \<leftarrow> sg (mem (seg_st (wrld s))) a;
          if SEQ_LT (sg_seq sgm) (r_last_ack (strm s)) then do {
            r \<leftarrow> ack_step e a s;
            case r of Inl s \<Rightarrow> Some (Inl s) | Inr (p, s) \<Rightarrow> ack_loop e p s
          }
          else Some (Inr s)
        })"

declare ack_loop.simps [code]

section \<open>An acknowledgement\<close>

type_synonym ra_result = "(int \<times> ra_stream \<times> ra_world) option"

text \<open>The rest of the function, from \<open>ra_base_seq\<close> on.\<close>

definition reassemble_acked :: "ack_env \<Rightarrow> u32 \<Rightarrow> ra_stream \<Rightarrow> ra_world \<Rightarrow> ra_result" where
  "reassemble_acked e base stream w =
     (case ack_loop e (seg_head (segs stream))
             \<lparr>strm = stream, wrld = w, smsg = None, smsg_offset = 0, exp_seq = base + 1, base_seq = base\<rparr> of
        None \<Rightarrow> None
      | Some (Inl s) \<Rightarrow> Some (- 1, strm s, wrld s)
      | Some (Inr s) \<Rightarrow>
          (let s = (case smsg s of None \<Rightarrow> s | Some m \<Rightarrow> queue_smsg e m s)
           in Some (0, strm s, wrld s)))"

definition StreamTcpReassembleHandleSegmentUpdateACK :: "'g engine \<Rightarrow> tcp_state \<Rightarrow> u16 \<Rightarrow> TcpPacket \<Rightarrow> ra_stream \<Rightarrow> ra_world
    \<Rightarrow> ra_result" where
  "StreamTcpReassembleHandleSegmentUpdateACK E ts flags p stream w =
     (if seg_head (segs stream) = None then
        (if state_value ts > state_value TCP_ESTABLISHED then
           (case take_msg w of
              (None, w) \<Rightarrow> Some (- 1, stream, w)
            | (Some m, w) \<Rightarrow> Some (0, stream, put_msg (StreamTcpSetupMsg ts stream p m) w))
         else Some (0, stream, w))
      else if (if to_server E p then has flags STREAMTCP_FLAG_PAUSE_TOCLIENT_REASSEMBLY
               else has flags STREAMTCP_FLAG_PAUSE_TOSERVER_REASSEMBLY) then Some (0, stream, w)
      else
        let fin = has flags STREAMTCP_FLAG_APPPROTO_DETECTION_COMPLETED;
            e = \<lparr>done_detection = fin, sess_state = ts, ack_packet = p\<rparr>;
            clear = (\<lambda>w. w\<lparr>q_flags := q_flags w AND NOT STREAMQUEUE_FLAG_INIT\<rparr>);
            run = (\<lambda>base stream w. if StreamTcpReassembleCheckLimit ts stream p (chunks w)
                                    then reassemble_acked e base stream w else Some (0, stream, w))
        in
        if \<not> fin then
          (if to_server E p then Some (0, stream, w)
           else run (r_ra_base_seq stream) (stream\<lparr>r_tmp_ra_base_seq := r_ra_base_seq stream\<rparr>)
                    (if to_client E p then clear w else w))
        else if r_tmp_ra_base_seq stream > r_ra_base_seq stream then
          run (r_tmp_ra_base_seq stream) (stream\<lparr>r_ra_base_seq := r_tmp_ra_base_seq stream\<rparr>) (clear w)
        else run (r_ra_base_seq stream) stream w)"

section \<open>A packet of an established session\<close>

record ra_session =
  rs_state :: tcp_state
  rs_flags :: u16
  rs_client :: ra_stream
  rs_server :: ra_stream

text \<open>
  \<open>c\<close>: the packet belongs to the client's stream. Its acknowledgement concerns the other one. The last component
  is \<open>p->flags\<close>.
\<close>

definition StreamTcpReassembleHandleSegment :: "'g engine \<Rightarrow> bool \<Rightarrow> TcpPacket \<Rightarrow> bytes \<Rightarrow> ra_session \<Rightarrow> ra_world
    \<Rightarrow> (int \<times> ra_session \<times> ra_world \<times> u8) option" where
  "StreamTcpReassembleHandleSegment E c p data ssn w = do {
     (r, opposing, w) \<leftarrow> StreamTcpReassembleHandleSegmentUpdateACK E (rs_state ssn) (rs_flags ssn) p
                          (if c then rs_server ssn else rs_client ssn) w;
     let ssn = (if c then ssn\<lparr>rs_server := opposing\<rparr> else ssn\<lparr>rs_client := opposing\<rparr>);
     if r \<noteq> 0 then Some (- 1, ssn, w, pkt_flags p)
     else if pay_len p > 0 \<and> \<not> has (rs_flags ssn) (if c then STREAMTCP_FLAG_NOCLIENT_REASSEMBLY else STREAMTCP_FLAG_NOSERVER_REASSEMBLY)
     then do {
       let stream = (if c then rs_client ssn else rs_server ssn);
       (r, sl, st) \<leftarrow> StreamTcpReassembleHandleSegmentHandleData E p data (segs stream) (seg_st w);
       let stream = stream\<lparr>segs := sl\<rparr>;
       let ssn = (if c then ssn\<lparr>rs_client := stream\<rparr> else ssn\<lparr>rs_server := stream\<rparr>);
       let w = w\<lparr>seg_st := st\<rparr>;
       if r \<noteq> 0 then Some (- 1, ssn, w, pkt_flags p)
       else Some (0, ssn, w, pkt_flags p OR PKT_STREAM_ADD)
     }
     else Some (0, ssn, w, pkt_flags p)
   }"

text \<open>
  \<open>app\<close> is \<open>AppLayerHandleMsg\<close> on a state of its own: its result is 0 or an error. All messages are handled.
\<close>

fun process_msgs :: "(StreamMsg \<Rightarrow> 'x \<Rightarrow> int \<times> 'x) \<Rightarrow> StreamMsg list \<Rightarrow> int \<Rightarrow> 'x \<Rightarrow> int \<times> 'x" where
  "process_msgs app [] r x = (r, x)"
| "process_msgs app (m # q) r x = (case app m x of (r', x) \<Rightarrow> process_msgs app q (if r' \<noteq> 0 then - 1 else r) x)"

definition StreamTcpReassembleProcessAppLayer :: "(StreamMsg \<Rightarrow> 'x \<Rightarrow> int \<times> 'x) \<Rightarrow> ra_world \<Rightarrow> 'x \<Rightarrow> int \<times> ra_world \<times> 'x" where
  "StreamTcpReassembleProcessAppLayer app w x =
     (case process_msgs app (stream_q w) 0 x of (r, x) \<Rightarrow> (r, w\<lparr>stream_q := []\<rparr>, x))"

end
