(* ===== verification/StreamTcpReassembleMsgs.thy ===== *)
theory StreamTcpReassembleMsgs
  imports StreamTcpReassemble StreamTcpSegmentDelivery "HOL-Library.Sublist"
begin

text \<open>
  The messages that reassembly makes (\<open>src/stream-tcp-reassemble.c\<close>): what a queue of messages says to the
  application layer, and what the parts of the loop over the segments add to it. Every write stays inside the
  buffer of a message.
\<close>

section \<open>What the messages say\<close>

datatype stream_item = Byte u8 | Gap nat

definition msg_items :: "StreamMsg \<Rightarrow> stream_item list" where
  "msg_items m = (if smsg_flags m AND STREAM_GAP \<noteq> 0 then [Gap (unat (gap_size m))]
                  else map Byte (take (unat (data_len m)) (smsg_data m)))"

definition emitted :: "ra_world \<Rightarrow> stream_item list" where
  "emitted w = concat (map msg_items (stream_q w))"

text \<open>With the message that is being filled.\<close>

definition said :: "ack_state \<Rightarrow> stream_item list" where
  "said s = emitted (wrld s) @ (case smsg s of None \<Rightarrow> [] | Some m \<Rightarrow> msg_items m)"

section \<open>The invariant of the messages\<close>

definition msg_ok :: "StreamMsg \<Rightarrow> bool" where
  "msg_ok m \<longleftrightarrow> length (smsg_data m) = MSG_DATA_SIZE \<and> unat (data_len m) \<le> MSG_DATA_SIZE"

definition filling :: "StreamMsg \<Rightarrow> u16 \<Rightarrow> bool" where
  "filling m off \<longleftrightarrow> length (smsg_data m) = MSG_DATA_SIZE \<and> smsg_flags m AND STREAM_GAP = 0 \<and> off = data_len m \<and>
     unat (data_len m) < MSG_DATA_SIZE"

definition queue_ok :: "ra_world \<Rightarrow> bool" where
  "queue_ok w \<longleftrightarrow> (\<forall>a. length (smsg_data (stale w a)) = MSG_DATA_SIZE) \<and> (\<forall>m\<in>set (stream_q w). msg_ok m)"

definition msgs_ok :: "ack_state \<Rightarrow> bool" where
  "msgs_ok s \<longleftrightarrow> queue_ok (wrld s) \<and> (\<forall>m. smsg s = Some m \<longrightarrow> filling m (smsg_offset s))"

text \<open>Only the pool is asked for messages, and the queue grows at its end.\<close>

definition pool_step :: "msg_pool \<times> msg_mem \<Rightarrow> msg_pool \<times> msg_mem \<Rightarrow> bool" where
  "pool_step p p' \<longleftrightarrow> (\<exists>r. StreamMsgGetFromPool p = (r, p'))"

definition grown :: "ra_world \<Rightarrow> ra_world \<Rightarrow> bool" where
  "grown w w' \<longleftrightarrow> prefix (stream_q w) (stream_q w') \<and>
     pool_step\<^sup>*\<^sup>* (stream_msg_pool w, msg_st w) (stream_msg_pool w', msg_st w')"

lemma grown_refl [simp]: "grown w w" by (simp add: grown_def)
lemma grown_trans: "grown w t \<Longrightarrow> grown t u \<Longrightarrow> grown w u"
  by (auto simp: grown_def dest: prefix_order.trans)

lemma grown_simps [simp]:
  "grown w (w'\<lparr>seg_st := x\<rparr>) = grown w w'" "grown (w\<lparr>seg_st := x\<rparr>) w' = grown w w'"
  "grown w (w'\<lparr>q_flags := f\<rparr>) = grown w w'" "grown (w\<lparr>q_flags := f\<rparr>) w' = grown w w'"
  by (simp_all add: grown_def)

lemma grown_put [simp]: "grown w w' \<Longrightarrow> grown w (put_msg m w')"
  by (simp add: grown_def put_msg_def)

text \<open>The pool gave no message at the end of the call.\<close>

definition ran_out :: "ra_world \<Rightarrow> ra_world \<Rightarrow> bool" where
  "ran_out w w' \<longleftrightarrow> (\<exists>p. pool_step\<^sup>*\<^sup>* (stream_msg_pool w, msg_st w) p \<and> StreamMsgGetFromPool p = (None, stream_msg_pool w', msg_st w'))"

lemma ran_out_trans: "grown w t \<Longrightarrow> ran_out t u \<Longrightarrow> ran_out w u"
  unfolding grown_def ran_out_def by (meson rtranclp_trans)

lemma ran_out_simps [simp]: "ran_out (w\<lparr>q_flags := f\<rparr>) w' = ran_out w w'" "ran_out (w\<lparr>seg_st := x\<rparr>) w' = ran_out w w'"
  by (simp_all add: ran_out_def)

text \<open>What stays, when messages are made: the segments, and the messages that are in the queue.\<close>

definition only_msgs :: "ack_state \<Rightarrow> ack_state \<Rightarrow> bool" where
  "only_msgs s s' \<longleftrightarrow> segs (strm s') = segs (strm s) \<and> r_last_ack (strm s') = r_last_ack (strm s) \<and> r_isn (strm s') = r_isn (strm s) \<and>
     seg_st (wrld s') = seg_st (wrld s) \<and> grown (wrld s) (wrld s')"

lemma only_msgs_refl [simp]: "only_msgs s s" by (simp add: only_msgs_def)
lemma only_msgs_trans: "only_msgs s t \<Longrightarrow> only_msgs t u \<Longrightarrow> only_msgs s u"
  by (auto simp: only_msgs_def dest: grown_trans)

lemma emitted_put [simp]: "emitted (put_msg m w) = emitted w @ msg_items m"
  by (simp add: emitted_def put_msg_def)

lemma queue_ok_put [simp]: "queue_ok (put_msg m w) \<longleftrightarrow> queue_ok w \<and> msg_ok m"
  by (auto simp: queue_ok_def put_msg_def)

lemma put_msg_more [simp]:
  "seg_st (put_msg m w) = seg_st w" "stream_q (put_msg m w) = stream_q w @ [m]"
  by (simp_all add: put_msg_def)

lemma flags_irrelevant [simp]: "queue_ok (w\<lparr>q_flags := f\<rparr>) = queue_ok w" "emitted (w\<lparr>q_flags := f\<rparr>) = emitted w"
  by (simp_all add: queue_ok_def emitted_def)

lemma filling_items: "filling m off \<Longrightarrow> msg_items m = map Byte (take (unat (data_len m)) (smsg_data m))"
  by (simp add: filling_def msg_items_def)

lemma filling_ok: "filling m off \<Longrightarrow> msg_ok m"
  by (simp add: filling_def msg_ok_def)

lemma setup_msg:
  "smsg_flags (StreamTcpSetupMsg ts stream p m) AND STREAM_GAP = 0" "data_len (StreamTcpSetupMsg ts stream p m) = 0"
  "smsg_data (StreamTcpSetupMsg ts stream p m) = smsg_data m"
  by (simp_all add: StreamTcpSetupMsg_def Let_def STREAM_GAP_def STREAM_START_def STREAM_EOF_def STREAM_TOCLIENT_def STREAM_TOSERVER_def)

lemma filling_new:
  "length (smsg_data m) = MSG_DATA_SIZE \<Longrightarrow> filling (StreamTcpSetupMsg ts stream p m) 0"
  by (simp add: filling_def setup_msg MSG_DATA_SIZE_def)

lemma filling_seq [simp]: "filling (m\<lparr>data_seq := n\<rparr>) off = filling m off"
  by (simp add: filling_def)

lemma items_new [simp]: "msg_items (StreamTcpSetupMsg ts stream p m\<lparr>data_seq := n\<rparr>) = []" "msg_items (StreamTcpSetupMsg ts stream p m) = []"
  by (simp_all add: msg_items_def setup_msg)

lemma items_seq [simp]: "msg_items (m\<lparr>data_seq := n\<rparr>) = msg_items m"
  by (simp add: msg_items_def)

lemma take_msg_frame:
  assumes "take_msg w = (r, w')"
  shows "queue_ok w' = queue_ok w" "emitted w' = emitted w" "stream_q w' = stream_q w" "seg_st w' = seg_st w"
    "\<And>m. queue_ok w \<Longrightarrow> r = Some m \<Longrightarrow> length (smsg_data m) = MSG_DATA_SIZE" "q_flags w' = q_flags w" "chunks w' = chunks w"
    "grown w w'" "r = None \<Longrightarrow> ran_out w w'"
proof -
  obtain r0 p m where g: "StreamMsgGetFromPool (stream_msg_pool w, msg_st w) = (r0, p, m)"
    by (cases "StreamMsgGetFromPool (stream_msg_pool w, msg_st w)") auto
  then have w': "w' = w\<lparr>stream_msg_pool := p, msg_st := m\<rparr>" "r = map_option (stale w) r0" using assms by (simp_all add: take_msg_def)
  show "queue_ok w' = queue_ok w" "emitted w' = emitted w" "stream_q w' = stream_q w" "seg_st w' = seg_st w"
    "\<And>m. queue_ok w \<Longrightarrow> r = Some m \<Longrightarrow> length (smsg_data m) = MSG_DATA_SIZE" "q_flags w' = q_flags w" "chunks w' = chunks w"
    by (auto simp: w' queue_ok_def emitted_def)
  have "pool_step (stream_msg_pool w, msg_st w) (p, m)" using g by (auto simp: pool_step_def)
  then show "grown w w'" by (auto simp: w' grown_def)
  show "ran_out w w'" if "r = None" using that g by (auto simp: w' ran_out_def)
qed

lemma need_msg_Some:
  assumes "need_msg s = Some (m, s')"
  shows "\<exists>w. s' = s\<lparr>wrld := w\<rparr> \<and> take_msg (wrld s) = (Some m, w)"
  using assms by (auto simp: need_msg_def split: prod.splits option.splits)

lemma need_msg_None: "need_msg s = None \<Longrightarrow> take_msg (wrld s) = (None, wrld (no_msg s))"
  by (auto simp: need_msg_def no_msg_def split: prod.splits option.splits)

section \<open>The parts of the loop\<close>

text \<open>A call that adds \<open>X\<close>, or ends early because there is no message.\<close>

definition adds :: "ack_state \<Rightarrow> stream_item list \<Rightarrow> (ack_state + ack_state) \<Rightarrow> bool" where
  "adds s X r \<longleftrightarrow> (case r of
     Inl s' \<Rightarrow> msgs_ok s' \<and> only_msgs s s' \<and> ran_out (wrld s) (wrld s') \<and> smsg s' = None \<and> prefix (emitted (wrld s')) (said s @ X)
   | Inr s' \<Rightarrow> msgs_ok s' \<and> only_msgs s s' \<and> said s' = said s @ X)"

lemma adds_none:
  assumes "msgs_ok s" "smsg s = None" "need_msg s = None" "smsg t = None" "strm t = strm s" "wrld t = wrld (no_msg s)"
  shows "adds s X (Inl t)"
  using assms take_msg_frame[OF need_msg_None[OF assms(3)]] need_msg_None[OF assms(3)]
  by (auto simp: adds_def msgs_ok_def only_msgs_def said_def)

lemma set_base_frame [simp]:
  "wrld (set_base e s) = wrld s" "smsg (set_base e s) = smsg s" "smsg_offset (set_base e s) = smsg_offset s"
  "exp_seq (set_base e s) = exp_seq s" "base_seq (set_base e s) = base_seq s"
  "segs (strm (set_base e s)) = segs (strm s)" "r_last_ack (strm (set_base e s)) = r_last_ack (strm s)"
  "r_isn (strm (set_base e s)) = r_isn (strm s)"
  by (simp_all add: set_base_def)

lemma queue_smsg_frame:
  "smsg (queue_smsg e m s) = None" "exp_seq (queue_smsg e m s) = exp_seq s" "base_seq (queue_smsg e m s) = base_seq s"
  "smsg_offset (queue_smsg e m s) = smsg_offset s"
  "emitted (wrld (queue_smsg e m s)) = emitted (wrld s) @ msg_items m"
  "queue_ok (wrld (queue_smsg e m s)) \<longleftrightarrow> queue_ok (wrld s) \<and> msg_ok m"
  "only_msgs s (queue_smsg e m s)"
  by (simp_all add: queue_smsg_def Let_def only_msgs_def)

lemma queue_smsg_ok:
  assumes "msgs_ok s" "msg_ok m"
  shows "msgs_ok (queue_smsg e m s)" "said (queue_smsg e m s) = emitted (wrld s) @ msg_items m"
  using assms by (simp_all add: msgs_ok_def said_def queue_smsg_frame)

text \<open>A copy of \<open>n\<close> bytes behind the ones that the message has.\<close>

lemma copy_to_msg_ok:
  assumes "filling m (smsg_offset s)" "unat off + unat n \<le> length (payload sgm)" "unat (data_len m) + unat n \<le> MSG_DATA_SIZE"
    and "queue_ok (wrld s)"
  shows "\<exists>m' s'. copy_to_msg sgm off n m s = Some (m', s') \<and> s' = s\<lparr>smsg_offset := smsg_offset s + n, base_seq := base_seq s + ucast n\<rparr> \<and>
    msgs_ok (queue_if_full e m' s') \<and> only_msgs s (queue_if_full e m' s') \<and>
    said (queue_if_full e m' s') = emitted (wrld s) @ msg_items m @ map Byte (take (unat n) (drop (unat off) (payload sgm))) \<and>
    (smsg (queue_if_full e m' s') = None \<longleftrightarrow> unat (data_len m) + unat n = MSG_DATA_SIZE) \<and>
    exp_seq (queue_if_full e m' s') = exp_seq s \<and> base_seq (queue_if_full e m' s') = base_seq s + ucast n"
proof -
  let ?d = "take (unat (smsg_offset s)) (smsg_data m) @ take (unat n) (drop (unat off) (payload sgm)) @
            drop (unat (smsg_offset s) + unat n) (smsg_data m)"
  let ?m = "m\<lparr>smsg_data := ?d, data_len := data_len m + n\<rparr>"
  let ?s = "s\<lparr>smsg_offset := smsg_offset s + n, base_seq := base_seq s + ucast n\<rparr>"
  have len: "unat (data_len m + n) = unat (data_len m) + unat n"
    using assms(3) by (intro unat_add_u16) (simp add: MSG_DATA_SIZE_def)
  have run: "copy_to_msg sgm off n m s = Some (?m, ?s)"
    using assms by (simp add: copy_to_msg_def filling_def)
  have d: "length ?d = MSG_DATA_SIZE" using assms by (simp add: filling_def)
  have items: "msg_items ?m = msg_items m @ map Byte (take (unat n) (drop (unat off) (payload sgm)))"
    using assms(1,2) len by (auto simp: msg_items_def filling_def min_def)
  have mok: "msg_ok ?m" using d assms(3) len by (simp add: msg_ok_def)
  show ?thesis
  proof (cases "unat (data_len m) + unat n = MSG_DATA_SIZE")
    case True
    then have "queue_if_full e ?m ?s = queue_smsg e ?m ?s" by (simp add: queue_if_full_def len)
    then show ?thesis
      using run mok items True assms(4) queue_smsg_frame[where e = e and m = ?m and s = ?s] by (simp add: msgs_ok_def said_def only_msgs_def)
  next
    case False
    then have "queue_if_full e ?m ?s = ?s\<lparr>smsg := Some ?m\<rparr>" by (simp add: queue_if_full_def len)
    moreover have "filling ?m (smsg_offset ?s)" using d assms(1,3) False len by (simp add: filling_def)
    ultimately show ?thesis using run items False assms(4) by (simp add: msgs_ok_def said_def only_msgs_def)
  qed
qed

text \<open>
  Where the loop goes on, and that \<open>ra_base_seq\<close> of the stream is up to date as long as no message is being filled.
\<close>

definition settled :: "ack_env \<Rightarrow> ack_state \<Rightarrow> bool" where
  "settled e s \<longleftrightarrow> (done_detection e \<and> smsg s = None \<longrightarrow> r_ra_base_seq (strm s) = base_seq s)"

lemma settled_queue [simp]: "settled e (queue_smsg e m s)" "settled e (queue_if_full e m s)"
  by (simp_all add: settled_def queue_if_full_def queue_smsg_def set_base_def Let_def)

definition moved :: "ack_env \<Rightarrow> ack_state \<Rightarrow> nat \<Rightarrow> (ack_state + ack_state) \<Rightarrow> bool" where
  "moved e s n r \<longleftrightarrow>
     (\<forall>s'. r = Inr s' \<longrightarrow> exp_seq s' = exp_seq s \<and> base_seq s' = base_seq s + of_nat n \<and> settled e s')"

lemma adds_trans:
  assumes "adds t Y r" "only_msgs s t" "said t = said s @ X"
  shows "adds s (X @ Y) r"
  using assms by (auto simp: adds_def only_msgs_def split: sum.splits intro: grown_trans ran_out_trans)

lemma moved_trans:
  assumes "moved e t n r" "exp_seq t = exp_seq s" "base_seq t = base_seq s + of_nat k"
  shows "moved e s (k + n) r"
  using assms by (auto simp: moved_def algebra_simps)

lemma ucast_u16: "ucast (n :: u16) = (of_nat (unat n) :: u32)"
  by simp

lemma new_msg_ok:
  assumes "msgs_ok s" "need_msg s = Some (m, t)"
  shows "\<exists>w. t = s\<lparr>wrld := w\<rparr> \<and> queue_ok w \<and> emitted w = emitted (wrld s) \<and> only_msgs s (s\<lparr>wrld := w\<rparr>) \<and>
    length (smsg_data m) = MSG_DATA_SIZE"
proof -
  obtain w where w: "t = s\<lparr>wrld := w\<rparr>" "take_msg (wrld s) = (Some m, w)" using need_msg_Some[OF assms(2)] by blast
  then show ?thesis using take_msg_frame[OF w(2)] assms(1) by (auto simp: msgs_ok_def only_msgs_def)
qed

lemma copy_new_msg:
  assumes "msgs_ok s" "smsg s = None" "need_msg s = Some (m, t)"
    and "unat off + unat n \<le> length (payload sgm)" "unat n \<le> MSG_DATA_SIZE"
  shows "\<exists>m' t'. copy_to_msg sgm off n ((StreamTcpSetupMsg ts stream p m)\<lparr>data_seq := q\<rparr>) (t\<lparr>smsg_offset := 0\<rparr>) = Some (m', t') \<and>
    msgs_ok (queue_if_full e m' t') \<and> only_msgs s (queue_if_full e m' t') \<and>
    said (queue_if_full e m' t') = said s @ map Byte (take (unat n) (drop (unat off) (payload sgm))) \<and>
    (smsg (queue_if_full e m' t') = None \<longleftrightarrow> unat n = MSG_DATA_SIZE) \<and>
    exp_seq (queue_if_full e m' t') = exp_seq s \<and> base_seq (queue_if_full e m' t') = base_seq s + of_nat (unat n)"
proof -
  obtain w where w: "t = s\<lparr>wrld := w\<rparr>" "queue_ok w" "emitted w = emitted (wrld s)" "only_msgs s (s\<lparr>wrld := w\<rparr>)"
    "length (smsg_data m) = MSG_DATA_SIZE"
    using new_msg_ok[OF assms(1,3)] by blast
  let ?m = "(StreamTcpSetupMsg ts stream p m)\<lparr>data_seq := q\<rparr>" and ?t = "t\<lparr>smsg_offset := 0\<rparr>"
  have f: "filling ?m (smsg_offset ?t)" using filling_new[OF w(5), of ts stream p] by simp
  obtain m' t' where c: "copy_to_msg sgm off n ?m ?t = Some (m', t')" "msgs_ok (queue_if_full e m' t')"
    "only_msgs ?t (queue_if_full e m' t')"
    "said (queue_if_full e m' t') = emitted (wrld ?t) @ msg_items ?m @ map Byte (take (unat n) (drop (unat off) (payload sgm)))"
    "smsg (queue_if_full e m' t') = None \<longleftrightarrow> unat (data_len ?m) + unat n = MSG_DATA_SIZE"
    "exp_seq (queue_if_full e m' t') = exp_seq ?t" "base_seq (queue_if_full e m' t') = base_seq ?t + ucast n"
    using copy_to_msg_ok[OF f assms(4), where e = e] assms(5) w(1,2) by (auto simp: setup_msg)
  have "only_msgs s ?t" using w(1,4) by (simp add: only_msgs_def)
  then have "only_msgs s (queue_if_full e m' t')" using c(3) by (rule only_msgs_trans)
  then show ?thesis using c w(1,3) assms(2) by (auto simp: said_def setup_msg)
qed

lemma take_then_rest:
  assumes "i + n \<le> L"
  shows "take n (drop i xs) @ drop (i + n) (take L xs) = drop i (take L xs)"
proof -
  have "take n (drop i xs) = take n (drop i (take L xs))" using assms by (simp add: drop_take min_def)
  moreover have "drop (i + n) (take L xs) = drop n (drop i (take L xs))" by (simp add: add.commute)
  ultimately show ?thesis by (simp only: append_take_drop_id)
qed

lemma rest_loop_ok:
  assumes "msgs_ok s" "smsg s = None" "unat off < unat (payload_len sgm)" "unat (payload_len sgm) \<le> length (payload sgm)"
  shows "\<exists>r. rest_loop e sgm off s = Some r \<and> adds s (map Byte (drop (unat off) (take (unat (payload_len sgm)) (payload sgm)))) r \<and>
    moved e s (unat (payload_len sgm) - unat off) r"
  using assms(1-3)
proof (induction "unat (payload_len sgm) - unat off" arbitrary: off s rule: less_induct)
  case less
  let ?L = "unat (payload_len sgm)"
  show ?case
  proof (cases "need_msg s")
    case None
    then have "adds s X (Inl ((no_msg s)\<lparr>smsg := None\<rparr>))" for X
      using less.prems by (intro adds_none) (simp_all add: no_msg_def)
    then show ?thesis using None by (simp add: rest_loop.simps[of e sgm off s] moved_def)
  next
    case (Some mt)
    obtain m t where mt: "mt = (m, t)" by fastforce
    define n where "n = (if int MSG_DATA_SIZE > int ?L - int (unat off) then payload_len sgm - off else of_nat MSG_DATA_SIZE)"
    have n: "unat n = min MSG_DATA_SIZE (?L - unat off)"
    proof -
      have "int MSG_DATA_SIZE > int ?L - int (unat off) \<longleftrightarrow> ?L - unat off < MSG_DATA_SIZE" using less.prems(3) by linarith
      then show ?thesis
        using less.prems(3) unat_sub_u16[of off "payload_len sgm"] by (simp add: n_def MSG_DATA_SIZE_def unat_of_nat)
    qed
    have fits: "unat off + unat n \<le> length (payload sgm)" "unat n \<le> MSG_DATA_SIZE"
      using n less.prems(3) assms(4) by simp_all
    obtain m' t' where c: "copy_to_msg sgm off n ((StreamTcpSetupMsg (sess_state e) (strm t) (ack_packet e) m)\<lparr>data_seq := base_seq t\<rparr>)
        (t\<lparr>smsg_offset := 0\<rparr>) = Some (m', t')"
      and ok: "msgs_ok (queue_if_full e m' t')" "only_msgs s (queue_if_full e m' t')"
        "said (queue_if_full e m' t') = said s @ map Byte (take (unat n) (drop (unat off) (payload sgm)))"
        "smsg (queue_if_full e m' t') = None \<longleftrightarrow> unat n = MSG_DATA_SIZE"
        "exp_seq (queue_if_full e m' t') = exp_seq s" "base_seq (queue_if_full e m' t') = base_seq s + of_nat (unat n)"
      using copy_new_msg[OF less.prems(1,2) Some[unfolded mt] fits, of "base_seq t" "sess_state e" "strm t" "ack_packet e" e] by auto
    let ?s = "queue_if_full e m' t'"
    have run: "rest_loop e sgm off s = (if unat n + unat off < ?L then rest_loop e sgm (off + n) ?s else Some (Inr ?s))"
      using Some mt c by (subst rest_loop.simps) (simp add: n_def Let_def)
    show ?thesis
    proof (cases "unat n + unat off < ?L")
      case True
      then have full: "unat n = MSG_DATA_SIZE" using n by auto
      have o: "unat (off + n) = unat off + unat n"
        using True unat_bound[of "payload_len sgm"] by (intro unat_add_u16) simp
      have "\<exists>r. rest_loop e sgm (off + n) ?s = Some r \<and> adds ?s (map Byte (drop (unat (off + n)) (take ?L (payload sgm)))) r \<and>
          moved e ?s (?L - unat (off + n)) r"
        by (rule less.hyps) (use True full ok o in \<open>simp_all add: MSG_DATA_SIZE_def\<close>)
      then obtain r where r: "rest_loop e sgm (off + n) ?s = Some r" "adds ?s (map Byte (drop (unat off + unat n) (take ?L (payload sgm)))) r"
        "moved e ?s (?L - (unat off + unat n)) r" unfolding o by blast
      have "take (unat n) (drop (unat off) (payload sgm)) @ drop (unat off + unat n) (take ?L (payload sgm)) =
          drop (unat off) (take ?L (payload sgm))"
        using True by (intro take_then_rest) simp
      then have "adds s (map Byte (drop (unat off) (take ?L (payload sgm)))) r"
        using adds_trans[OF r(2) ok(2,3)] by (simp flip: map_append)
      moreover have "moved e s (?L - unat off) r"
        using moved_trans[OF r(3) ok(5,6)] True by (simp add: add.commute)
      ultimately show ?thesis using run r(1) True by auto
    next
      case False
      then have e: "unat n = ?L - unat off" using n by auto
      then have "take (unat n) (drop (unat off) (payload sgm)) = drop (unat off) (take ?L (payload sgm))" by (simp add: drop_take)
      then show ?thesis using run False ok e by (simp add: adds_def moved_def)
    qed
  qed
qed

lemma handle_gap_ok:
  assumes "msgs_ok s"
  shows "adds s [Gap (unat (sg_seq sgm - exp_seq s))] (handle_gap e sgm s) \<and>
    (\<forall>s'. handle_gap e sgm s = Inr s' \<longrightarrow> exp_seq s' = sg_seq sgm \<and> base_seq s' = sg_seq sgm - 1)"
proof -
  let ?g = "sg_seq sgm - exp_seq s" and ?s = "s\<lparr>exp_seq := sg_seq sgm\<rparr>"
  define t where "t = (case smsg ?s of Some m \<Rightarrow> if data_len m > 0 then queue_smsg e m ?s else ?s | None \<Rightarrow> ?s)"
  have q: "only_msgs s (queue_smsg e m ?s)" for m using queue_smsg_frame(7)[of ?s e m] by (simp add: only_msgs_def)
  have t: "msgs_ok t" "said t = said s" "only_msgs s t" "exp_seq t = sg_seq sgm" "base_seq t = base_seq s"
    "smsg t = None \<or> (\<exists>m. smsg t = Some m \<and> data_len m = 0)"
    using assms q queue_smsg_frame filling_ok
    by (auto simp: t_def msgs_ok_def said_def word_gt_0 only_msgs_def split: option.split)
  define r where "r = (case smsg t of Some m \<Rightarrow> Some (m, t) | None \<Rightarrow> need_msg t)"
  have run: "handle_gap e sgm s = (case r of None \<Rightarrow> Inl (no_msg t)
      | Some (m, u) \<Rightarrow> (let u = set_base e u;
                  m = StreamTcpSetupMsg (sess_state e) (strm u) (ack_packet e) m;
                  m = m\<lparr>smsg_flags := smsg_flags m OR STREAM_GAP, gap_size := ?g\<rparr>
              in Inr (u\<lparr>base_seq := sg_seq sgm - 1, wrld := put_msg m (wrld u), smsg := None, smsg_offset := 0\<rparr>)))"
    unfolding handle_gap_def Let_def r_def t_def by simp
  show ?thesis
  proof (cases r)
    case None
    then have n: "smsg t = None" "need_msg t = None" by (auto simp: r_def split: option.splits)
    then have "adds t [] (Inl (no_msg t))" using t(1) by (intro adds_none) (simp_all add: no_msg_def)
    then have "adds s ([] @ []) (Inl (no_msg t))" by (rule adds_trans[OF _ t(3)]) (simp add: t(2))
    then have "adds s [Gap (unat ?g)] (Inl (no_msg t))" by (auto simp: adds_def)
    then show ?thesis using run None by simp
  next
    case (Some mu)
    obtain m u where mu: "mu = (m, u)" by fastforce
    have u: "exp_seq u = sg_seq sgm" "only_msgs s u" "queue_ok (wrld u)" "length (smsg_data m) = MSG_DATA_SIZE" "emitted (wrld u) = said s"
    proof -
      have "exp_seq u = sg_seq sgm \<and> only_msgs s u \<and> queue_ok (wrld u) \<and> length (smsg_data m) = MSG_DATA_SIZE \<and> emitted (wrld u) = said s"
      proof (cases "smsg t")
        case None
        then obtain w where w: "u = t\<lparr>wrld := w\<rparr>" "queue_ok w" "emitted w = emitted (wrld t)" "only_msgs t (t\<lparr>wrld := w\<rparr>)"
          "length (smsg_data m) = MSG_DATA_SIZE"
          using new_msg_ok[OF t(1), of m u] Some mu by (auto simp: r_def)
        then show ?thesis using t only_msgs_trans[OF t(3) w(4)] None by (simp add: said_def)
      next
        case (Some m0)
        then have "m = m0" "u = t" using \<open>r = Some mu\<close> mu by (simp_all add: r_def)
        then show ?thesis using t Some by (auto simp: msgs_ok_def filling_def said_def msg_items_def)
      qed
      then show "exp_seq u = sg_seq sgm" "only_msgs s u" "queue_ok (wrld u)" "length (smsg_data m) = MSG_DATA_SIZE" "emitted (wrld u) = said s"
        by simp_all
    qed
    let ?m = "StreamTcpSetupMsg (sess_state e) (strm (set_base e u)) (ack_packet e) m"
    let ?m' = "?m\<lparr>smsg_flags := smsg_flags ?m OR STREAM_GAP, gap_size := ?g\<rparr>"
    let ?u = "set_base e u\<lparr>base_seq := sg_seq sgm - 1, wrld := put_msg ?m' (wrld u), smsg := None, smsg_offset := 0\<rparr>"
    have "STREAM_GAP \<noteq> 0" by (simp add: STREAM_GAP_def)
    moreover have "(x OR STREAM_GAP) AND STREAM_GAP = STREAM_GAP" for x
      by (simp add: bit_eq_iff bit_simps)
    ultimately have "msg_items ?m' = [Gap (unat ?g)]" by (simp add: msg_items_def)
    moreover have "msg_ok ?m'" using u(4) by (simp add: msg_ok_def setup_msg)
    moreover have "only_msgs s ?u" using u(2) by (auto simp: only_msgs_def)
    ultimately have "adds s [Gap (unat ?g)] (Inr ?u)"
      using u(3,5) by (simp add: adds_def msgs_ok_def said_def)
    moreover have "handle_gap e sgm s = Inr ?u" unfolding run Some mu by (simp add: Let_def)
    ultimately show ?thesis using u(1) by simp
  qed
qed

lemma copy_segment_ok:
  assumes "msgs_ok s" "unat (payload_len sgm) \<le> length (payload sgm)"
    and "ack_range sgm (base_seq s) (r_last_ack (strm s)) = (off, len)" "unat off + unat len \<le> unat (payload_len sgm)"
  shows "\<exists>r k. copy_segment e sgm s = Some r \<and> unat len \<le> k \<and> unat off + k \<le> unat (payload_len sgm) \<and>
    adds s (map Byte (take k (drop (unat off) (payload sgm)))) r \<and> moved e s k r"
proof -
  let ?L = "unat (payload_len sgm)"
  define r where "r = (case smsg s of Some m \<Rightarrow> Some (m, s)
      | None \<Rightarrow> map_option (\<lambda>(m, s). (StreamTcpSetupMsg (sess_state e) (strm s) (ack_packet e) m, s\<lparr>smsg_offset := 0\<rparr>)) (need_msg s))"
  show ?thesis
  proof (cases r)
    case None
    then have n: "smsg s = None" "need_msg s = None" by (auto simp: r_def split: option.splits)
    then have "adds s X (Inl (no_msg s))" for X using assms(1) by (intro adds_none) (simp_all add: no_msg_def)
    moreover have "copy_segment e sgm s = Some (Inl (no_msg s))" using None by (simp add: copy_segment_def r_def)
    ultimately show ?thesis using assms(4) by (intro exI[of _ "Inl (no_msg s)"] exI[of _ "unat len"]) (simp add: moved_def)
  next
    case (Some mt)
    obtain m t where mt: "mt = (m, t)" by fastforce
    have "filling m (smsg_offset t) \<and> queue_ok (wrld t) \<and> emitted (wrld t) @ msg_items m = said s \<and> only_msgs s t \<and>
        exp_seq t = exp_seq s \<and> base_seq t = base_seq s \<and> r_last_ack (strm t) = r_last_ack (strm s)"
    proof (cases "smsg s")
      case None
      then obtain m0 t0 where 0: "need_msg s = Some (m0, t0)" "m = StreamTcpSetupMsg (sess_state e) (strm t0) (ack_packet e) m0"
        "t = t0\<lparr>smsg_offset := 0\<rparr>"
        using Some mt by (auto simp: r_def)
      from new_msg_ok[OF assms(1) 0(1)] obtain w where w: "t0 = s\<lparr>wrld := w\<rparr>" "queue_ok w" "emitted w = emitted (wrld s)"
        "only_msgs s (s\<lparr>wrld := w\<rparr>)" "length (smsg_data m0) = MSG_DATA_SIZE" by blast
      then show ?thesis using None 0 filling_new[OF w(5)] by (simp add: said_def only_msgs_def)
    next
      case (Some m0)
      then have "m = m0" "t = s" using \<open>r = Some mt\<close> mt by (simp_all add: r_def)
      then show ?thesis using Some assms(1) by (auto simp: msgs_ok_def said_def)
    qed
    then have t: "filling m (smsg_offset t)" "queue_ok (wrld t)" "emitted (wrld t) @ msg_items m = said s" "only_msgs s t"
      "exp_seq t = exp_seq s" "base_seq t = base_seq s" "r_last_ack (strm t) = r_last_ack (strm s)" by simp_all
    define room where "room = of_nat MSG_DATA_SIZE - smsg_offset t"
    define n where "n = (if room > len then len else room)"
    have m: "unat (data_len m) < MSG_DATA_SIZE" "smsg_offset t = data_len m" using t(1) by (simp_all add: filling_def)
    have room: "unat room = MSG_DATA_SIZE - unat (data_len m)"
      using unat_sub_u16[of "data_len m" "of_nat MSG_DATA_SIZE"] m by (simp add: room_def MSG_DATA_SIZE_def)
    then have n: "unat n = min (MSG_DATA_SIZE - unat (data_len m)) (unat len)" by (auto simp: n_def word_less_nat_alt)
    have fits: "unat off + unat n \<le> length (payload sgm)" "unat (data_len (m\<lparr>data_seq := base_seq t\<rparr>)) + unat n \<le> MSG_DATA_SIZE"
      using n m(1) assms(2,4) by simp_all
    have f: "filling (m\<lparr>data_seq := base_seq t\<rparr>) (smsg_offset t)" using t(1) by simp
    obtain m' t' where c: "copy_to_msg sgm off n (m\<lparr>data_seq := base_seq t\<rparr>) t = Some (m', t')"
      "msgs_ok (queue_if_full e m' t')" "only_msgs t (queue_if_full e m' t')"
      "said (queue_if_full e m' t') = emitted (wrld t) @ msg_items m @ map Byte (take (unat n) (drop (unat off) (payload sgm)))"
      "smsg (queue_if_full e m' t') = None \<longleftrightarrow> unat (data_len m) + unat n = MSG_DATA_SIZE"
      "exp_seq (queue_if_full e m' t') = exp_seq t" "base_seq (queue_if_full e m' t') = base_seq t + ucast n"
      using copy_to_msg_ok[OF f fits(1,2) t(2), where e = e] by auto
    let ?u = "queue_if_full e m' t'"
    have u: "only_msgs s ?u" "said ?u = said s @ map Byte (take (unat n) (drop (unat off) (payload sgm)))"
      "exp_seq ?u = exp_seq s" "base_seq ?u = base_seq s + of_nat (unat n)"
      using only_msgs_trans[OF t(4) c(3)] c(4,6,7) t(3,5,6) by simp_all
    have run: "copy_segment e sgm s = (if n < len then rest_loop e sgm (off + n) ?u else Some (Inr ?u))"
      unfolding copy_segment_def r_def[symmetric] Some mt using c(1) assms(3) t(6,7)
      by (simp add: Let_def n_def[unfolded room_def, symmetric])
    show ?thesis
    proof (cases "n < len")
      case True
      then have full: "unat (data_len m) + unat n = MSG_DATA_SIZE" using n m by (auto simp: word_less_nat_alt)
      have o: "unat (off + n) = unat off + unat n"
        using True assms(4) unat_bound[of "payload_len sgm"] by (intro unat_add_u16) (simp add: word_less_nat_alt)
      have lt: "unat (off + n) < ?L" using o True assms(4) by (simp add: word_less_nat_alt)
      obtain r where r: "rest_loop e sgm (off + n) ?u = Some r"
        "adds ?u (map Byte (drop (unat (off + n)) (take ?L (payload sgm)))) r" "moved e ?u (?L - unat (off + n)) r"
        using rest_loop_ok[OF c(2) _ lt assms(2)] c(5) full by blast
      have "take (unat n) (drop (unat off) (payload sgm)) @ drop (unat (off + n)) (take ?L (payload sgm)) =
          take (?L - unat off) (drop (unat off) (payload sgm))"
        using lt unfolding o drop_take[symmetric] by (intro take_then_rest) simp
      then have "adds s (map Byte (take (?L - unat off) (drop (unat off) (payload sgm)))) r"
        using adds_trans[OF r(2) u(1,2)] by (simp flip: map_append)
      moreover have "moved e s (?L - unat off) r" using moved_trans[OF r(3) u(3,4)] lt o by simp
      ultimately show ?thesis using run r(1) True assms(4) by (intro exI[of _ r] exI[of _ "?L - unat off"]) simp
    next
      case False
      then have "n = len" by (auto simp: n_def)
      then show ?thesis using run False c(2) u assms(4)
        by (intro exI[of _ "Inr ?u"] exI[of _ "unat len"]) (simp add: adds_def moved_def)
    qed
  qed
qed

end
