(* ===== verification/StreamTcpReassembleList.thy ===== *)
theory StreamTcpReassembleList
  imports StreamTcpReassembleMsgs
begin

text \<open>
  The segment list under acknowledgements (\<open>src/stream-tcp-reassemble.c\<close>): segments are marked, or taken out of the
  list and given back to their pool, and the list keeps the invariant of theory StreamTcpSegmentList.
\<close>

section \<open>Marking and removing a segment\<close>

lemma set_seg_flags_ok:
  assumes "seg_inv env b others xs stream st" "a \<in> set xs"
  shows "seg_inv env b others xs stream (set_seg_flags a f st)" "same_on (- {a}) st (set_seg_flags a f st)"
    "sg (mem (set_seg_flags a f st)) a = map_option (\<lambda>s. s\<lparr>sg_flags := f (sg_flags s)\<rparr>) (sg (mem st) a)"
    "sg_links (mem (set_seg_flags a f st)) = sg_links (mem st)"
proof -
  let ?m = "mem (set_seg_flags a f st)"
  have m: "shape ?m c = shape (mem st) c" "pos_of b ?m c = pos_of b (mem st) c" "end_of b ?m c = end_of b (mem st) c"
    "in_buffer ?m c = in_buffer (mem st) c" if "c \<noteq> a \<or> sg (mem st) a \<noteq> None" for c
    using that by (auto simp: set_seg_flags_def shape_def pos_of_def end_of_def from_seg_def to_seg_def in_buffer_def
        split: option.splits)
  obtain s where s: "sg (mem st) a = Some s" using assms list_ok_window[of b xs "mem st" a] by (auto simp: seg_inv_def)
  have "pools_ok env 8 (set xs \<union> others) (st\<lparr>mem := ?m\<rparr>)"
    by (rule pools_ok_mem) (use assms m s in \<open>auto simp: seg_inv_def set_seg_flags_def shape_def\<close>)
  moreover have "st\<lparr>mem := ?m\<rparr> = set_seg_flags a f st" by (simp add: set_seg_flags_def)
  moreover have "chain (pos_of b ?m) (end_of b ?m) 0 xs 65535 = chain (pos_of b (mem st)) (end_of b (mem st)) 0 xs 65535"
    by (rule chain_cong) (use m s in auto)
  then have "list_ok b xs ?m = list_ok b xs (mem st)" using m s by (simp add: list_ok_def) (simp add: set_seg_flags_def)
  ultimately show "seg_inv env b others xs stream (set_seg_flags a f st)" using assms(1) by (simp add: seg_inv_def)
qed (simp_all add: set_seg_flags_def same_on_def)

lemma unlink_seg_eq:
  assumes "prev_of a st = last_or None ys" "next_of a st = first_or zs None" "distinct (ys @ a # zs)"
    and "unlink = unlink_seg \<or> unlink = unlink_head \<and> ys = []"
  shows "unlink a stream st =
    (let k = set_prev_opt (first_or zs None) (last_or None ys) (set_next_opt (last_or None ys) (first_or zs None) (sg_links (mem st)));
         stream = (if ys = [] then stream\<lparr>seg_head := first_or zs None\<rparr> else stream)
     in (if seg_tail stream = Some a then stream\<lparr>seg_tail := last_or None ys\<rparr> else stream, upd_links (\<lambda>_. k) st))"
proof -
  have "a \<notin> set_option (last_or None ys)" "a \<notin> set_option (first_or zs None)"
    using assms(3) last_in_set[of ys] hd_in_set[of zs] by auto
  then have p: "n_prev (set_prev_opt (first_or zs None) (last_or None ys)
      (set_next_opt (last_or None ys) (first_or zs None) (sg_links (mem st))) a) = last_or None ys"
    using assms(1) by (simp add: prev_of_def opt_other del: set_last_or set_first_or)
  show ?thesis
  proof (cases "ys = []")
    case True
    then have "prev_of a (upd_links (set_prev_opt (first_or zs None) None) st) = None" using p by (simp add: prev_of_def)
    moreover have "upd_links (set_prev_opt (first_or zs None) None) st =
        upd_links (\<lambda>_. set_prev_opt (first_or zs None) None (sg_links (mem st))) st"
      by (simp add: upd_links_def)
    ultimately show ?thesis using assms(1,2,4) True by (auto simp: unlink_seg_def unlink_head_def Let_def)
  next
    case False
    let ?u = "\<lambda>k. set_prev_opt (first_or zs None) (Some (last ys)) (set_next (last ys) (first_or zs None) k)"
    have l: "last_or None ys = Some (last ys)" using False by (simp add: last_or_def)
    then have "prev_of a (upd_links ?u st) = Some (last ys)" using p by (simp add: prev_of_def)
    moreover have "upd_links ?u st = upd_links (\<lambda>_. ?u (sg_links (mem st))) st" by (simp add: upd_links_def)
    ultimately show ?thesis using assms(1,2,4) False l by (auto simp: unlink_seg_def Let_def)
  qed
qed

lemma drop_seg_ok:
  assumes inv: "seg_inv env b others (ys @ a # zs) (segs (strm s)) (seg_st (wrld s))"
    and unlink: "unlink = unlink_seg \<or> unlink = unlink_head \<and> ys = []"
  shows "\<exists>stream st. drop_seg unlink a s = Some (s\<lparr>strm := (strm s)\<lparr>segs := stream\<rparr>, wrld := (wrld s)\<lparr>seg_st := st\<rparr>\<rparr>) \<and>
    seg_inv env b others (ys @ zs) stream st \<and> same_on others (seg_st (wrld s)) st \<and>
    (\<forall>c. c \<noteq> a \<longrightarrow> sg (mem st) c = sg (mem (seg_st (wrld s))) c)"
proof -
  let ?st = "seg_st (wrld s)" and ?stream = "segs (strm s)"
  obtain ls where at: "prev_of a ?st = last_or None ys" "next_of a ?st = first_or zs None"
    using seg_inv_at[OF inv] by metis
  have ok: "pools_ok env 8 (set (ys @ a # zs) \<union> others) ?st" "set (ys @ a # zs) \<inter> others = {}"
    "list_ok b (ys @ a # zs) (mem ?st)" "ends_ok (ys @ a # zs) ?stream"
    using inv by (simp_all add: seg_inv_def)
  have dist: "distinct (ys @ a # zs)" using ok(3) by (simp add: list_ok_def)
  define k where "k = set_prev_opt (first_or zs None) (last_or None ys)
      (set_next_opt (last_or None ys) (first_or zs None) (sg_links (mem ?st)))"
  define stream where "stream = (let t = (if ys = [] then ?stream\<lparr>seg_head := first_or zs None\<rparr> else ?stream)
      in if seg_tail t = Some a then t\<lparr>seg_tail := last_or None ys\<rparr> else t)"
  let ?u = "upd_links (\<lambda>_. k) ?st"
  have un: "unlink a ?stream ?st = (stream, ?u)"
    using unlink_seg_eq[OF at dist unlink, of ?stream] by (simp add: k_def stream_def Let_def)
  obtain st where ret: "StreamTcpSegmentReturntoPool a ?u = Some st"
    "pools_ok env 8 (set (ys @ a # zs) \<union> others - {a}) st" "same_on (- {a}) ?u st"
    using ReturntoPool_ok[OF pools_ok_links[OF ok(1), of "\<lambda>_. k"], of a] by auto
  have used: "set (ys @ a # zs) \<union> others - {a} = set (ys @ zs) \<union> others" using dist ok(2) by auto
  have "dseg (sg_links (mem ?st)) None ys (Some a)" "dseg (sg_links (mem ?st)) (Some a) zs None"
    using dseg_split[of "sg_links (mem ?st)" ys a zs] ok(3) by (simp_all add: list_ok_def)
  then have d: "dseg k None (ys @ zs) None" unfolding k_def by (rule relink_dseg) (use dist in simp)
  have "chain (pos_of b (mem ?st)) (end_of b (mem ?st)) 0 (ys @ a # zs) 65535" using ok(3) by (simp add: list_ok_def)
  then have "chain (pos_of b (mem ?st)) (end_of b (mem ?st)) 0 (ys @ zs) 65535"
    by (auto simp: chain_append intro: chain_mono)
  then have "list_ok b (ys @ zs) (mem ?u)"
    using d dist ok(3) chain_cong[of "ys @ zs" "pos_of b (mem ?u)" "pos_of b (mem ?st)" "end_of b (mem ?u)" "end_of b (mem ?st)" 0 65535]
    by (simp add: list_ok_def pos_of_def end_of_def in_buffer_def)
  then have "list_ok b (ys @ zs) (mem st)"
    by (rule list_ok_same) (use ret(3) dist in \<open>auto simp: same_on_def\<close>)
  moreover have "ends_ok (ys @ zs) stream"
    using ok(4) dist by (cases ys; cases zs rule: rev_cases) (auto simp: ends_ok_def stream_def Let_def last_or_def)
  ultimately have "seg_inv env b others (ys @ zs) stream st" using ret(2) ok(2) used by (auto simp: seg_inv_def)
  moreover have "same_on others ?st ?u"
  proof -
    have "sg_links (mem ?u) c = sg_links (mem ?st) c" if "c \<in> others" for c
      using ok(2) that splice_other[of c ys zs] by (auto simp: k_def)
    then show ?thesis by (simp add: same_on_def)
  qed
  then have "same_on others ?st st" using same_on_trans same_on_mono[OF ret(3)] ok(2) by fastforce
  moreover have "sg (mem st) c = sg (mem ?st) c" if "c \<noteq> a" for c using ret(3) that by (simp add: same_on_def)
  ultimately show ?thesis using un ret(1) by (auto simp: drop_seg_def)
qed

end
