(* ===== verification/StreamTcpReassembleAck.thy ===== *)
theory StreamTcpReassembleAck
  imports StreamTcpReassembleList
begin

text \<open>
  An acknowledgement (\<open>StreamTcpReassembleHandleSegmentUpdateACK\<close> in \<open>src/stream-tcp-reassemble.c\<close>): the call
  returns, keeps the invariants of the segment list and of the messages, and gives the application layer the
  acknowledged bytes in order.
\<close>

section \<open>The range of a segment that is copied\<close>

lemma SEQ_at:
  assumes "ahead b x < 2 ^ 31" "ahead b y < 2 ^ 31"
  shows "SEQ_LT x y \<longleftrightarrow> ahead b x < ahead b y" "SEQ_LEQ x y \<longleftrightarrow> ahead b x \<le> ahead b y" "SEQ_GT x y \<longleftrightarrow> ahead b y < ahead b x"
  using SEQ_ahead_from[OF assms] by blast+

lemma ack_range_ok:
  assumes w: "in_window b sgm" and B: "ahead b base < to_seg b sgm" and A: "ahead b ack < 2 ^ 31" "from_seg b sgm < ahead b ack"
    and open': "from_seg b sgm < ahead b base \<Longrightarrow> ahead b base < ahead b ack"
  shows "\<exists>off len. ack_range sgm base ack = (off, len) \<and> unat off = ahead b base - from_seg b sgm \<and>
    unat len = min (ahead b ack) (to_seg b sgm) - max (ahead b base) (from_seg b sgm)"
proof -
  have Q: "to_seg b sgm \<le> 65535" "from_seg b sgm < to_seg b sgm" "to_seg b sgm = from_seg b sgm + unat (payload_len sgm)"
    using w by (simp_all add: in_window_def from_seg_def to_seg_def)
  have e: "ahead b (seg_end sgm) = to_seg b sgm" "ahead b (sg_seq sgm) = from_seg b sgm"
    using ahead_seg_end[OF w] by (simp_all add: from_seg_def)
  have small: "ahead b base < 2 ^ 31" "ahead b (sg_seq sgm) < 2 ^ 31" "ahead b (seg_end sgm) < 2 ^ 31"
    using B Q unfolding e by simp_all
  note cmp = SEQ_at[OF small(1,2)] SEQ_at[OF A(1) small(3)] SEQ_at[OF A(1) small(1)]
  show ?thesis
  proof (cases "from_seg b sgm < ahead b base")
    case True
    let ?off = "ucast (base - sg_seq sgm) :: u16"
    have off: "unat ?off = ahead b base - from_seg b sgm"
      using u16_diff[of b "sg_seq sgm" base] True B Q e by simp
    have "unat (base - sg_seq sgm) = ahead b base - from_seg b sgm" using unat_diff_ahead[of b "sg_seq sgm" base] True e by simp
    then have uc: "(ucast ?off :: u32) = base - sg_seq sgm"
      using off unat_ucast_up[of ?off, where 'b = 32] by (simp flip: unat_eq_iff)
    show ?thesis
    proof (cases "ahead b ack < to_seg b sgm")
      case A': True
      have d: "(ack - sg_seq sgm) - ucast ?off = ack - base" unfolding uc by simp
      have "unat (ucast (ack - base) :: u16) = ahead b ack - ahead b base"
        using u16_diff[of b base ack] open'[OF True] A' Q by simp
      then have len: "unat (ucast ((ack - sg_seq sgm) - ucast ?off) :: u16) = ahead b ack - ahead b base" unfolding d .
      have "ack_range sgm base ack = (?off, ucast ((ack - sg_seq sgm) - ucast ?off))"
        using True A' open'[OF True] unfolding ack_range_def cmp e Let_def by simp
      then show ?thesis using True A' open'[OF True] off len by simp
    next
      case False
      have "unat (payload_len sgm - ?off) = unat (payload_len sgm) - unat ?off"
        using off B Q by (intro unat_sub_u16) simp
      then show ?thesis using True False off Q by (simp add: ack_range_def cmp e Let_def)
    qed
  next
    case False
    have "unat (ucast (ack - sg_seq sgm) :: u16) = ahead b ack - from_seg b sgm" if "ahead b ack < to_seg b sgm"
      using u16_diff[of b "sg_seq sgm" ack] A that Q e by simp
    then show ?thesis using False Q by (simp add: ack_range_def cmp e)
  qed
qed

section \<open>The bytes of one segment\<close>

text \<open>Where the bytes start that are delivered, and the gap in front of them.\<close>

definition deliver_from :: "nat \<Rightarrow> nat \<Rightarrow> nat \<Rightarrow> nat" where
  "deliver_from B X P = (if X < P then P - 1 else B)"

definition gap_items :: "nat \<Rightarrow> nat \<Rightarrow> stream_item list" where
  "gap_items X P = (if X < P then [Gap (P - X)] else [])"

lemma adds_stop: "adds s X (Inl t) \<Longrightarrow> adds s (X @ Y) (Inl t)"
  using prefix_prefix[of "emitted (wrld t)" "said s @ X" Y] by (simp add: adds_def)

lemma deliver_seg_ok:
  assumes ok: "msgs_ok s" and w: "in_window b sgm" and buf: "unat (payload_len sgm) \<le> length (payload sgm)"
    and A: "ahead b (r_last_ack (strm s)) < 2 ^ 31" "from_seg b sgm < ahead b (r_last_ack (strm s))"
    and B: "ahead b (base_seq s) < to_seg b sgm" "from_seg b sgm < ahead b (base_seq s) \<Longrightarrow> ahead b (base_seq s) < ahead b (r_last_ack (strm s))"
    and X: "ahead b (exp_seq s) < 2 ^ 31"
  shows "\<exists>r k. deliver_seg e sgm s = Some r \<and>
    min (ahead b (r_last_ack (strm s))) (to_seg b sgm) \<le> k + max (deliver_from (ahead b (base_seq s)) (ahead b (exp_seq s)) (from_seg b sgm)) (from_seg b sgm) \<and>
    k + max (deliver_from (ahead b (base_seq s)) (ahead b (exp_seq s)) (from_seg b sgm)) (from_seg b sgm) \<le> to_seg b sgm \<and>
    adds s (gap_items (ahead b (exp_seq s)) (from_seg b sgm) @
      map Byte (take k (drop (deliver_from (ahead b (base_seq s)) (ahead b (exp_seq s)) (from_seg b sgm) - from_seg b sgm) (payload sgm)))) r \<and>
    (\<forall>s'. r = Inr s' \<longrightarrow> ahead b (base_seq s') = deliver_from (ahead b (base_seq s)) (ahead b (exp_seq s)) (from_seg b sgm) + k \<and> settled e s')"
proof -
  let ?P = "from_seg b sgm" and ?Q = "to_seg b sgm" and ?A = "ahead b (r_last_ack (strm s))" and ?X = "ahead b (exp_seq s)"
  let ?F = "deliver_from (ahead b (base_seq s)) ?X ?P"
  have Q: "?Q \<le> 65535" "?P < ?Q" "?Q = ?P + unat (payload_len sgm)" "ahead b (sg_seq sgm) = ?P" "ahead b (seg_end sgm) = ?Q"
    using w ahead_seg_end[OF w] by (simp_all add: in_window_def from_seg_def to_seg_def)
  have gt: "SEQ_GT (sg_seq sgm) (exp_seq s) \<longleftrightarrow> ?X < ?P"
    using SEQ_at(3)[of b "sg_seq sgm" "exp_seq s"] X Q by simp
  define g where "g = (if ?X < ?P then handle_gap e sgm s else Inr s)"
  have g: "adds s (gap_items ?X ?P) g" "\<And>s'. g = Inr s' \<Longrightarrow> ahead b (base_seq s') = ?F"
  proof -
    have "adds s (gap_items ?X ?P) g \<and> (\<forall>s'. g = Inr s' \<longrightarrow> ahead b (base_seq s') = ?F)"
    proof (cases "?X < ?P")
      case True
      have "unat (sg_seq sgm - exp_seq s) = ?P - ?X" using unat_diff_ahead[of b "exp_seq s" "sg_seq sgm"] True Q by simp
      moreover have "ahead b (sg_seq sgm - 1) = ?P - 1"
      proof -
        have "sg_seq sgm - b \<noteq> 0" using True Q(4) by (auto simp: ahead_def)
        then have "unat (sg_seq sgm - b - 1) = ?P - 1" using unat_minus_one[of "sg_seq sgm - b"] Q(4) by (simp add: ahead_def)
        then show ?thesis by (simp add: ahead_def algebra_simps)
      qed
      ultimately show ?thesis using handle_gap_ok[OF ok, of sgm e] True by (simp add: g_def gap_items_def deliver_from_def)
    next
      case False
      then show ?thesis using ok by (simp add: g_def gap_items_def deliver_from_def adds_def)
    qed
    then show "adds s (gap_items ?X ?P) g" "\<And>s'. g = Inr s' \<Longrightarrow> ahead b (base_seq s') = ?F" by blast+
  qed
  have F: "?F < ?Q" "?P < ?F \<Longrightarrow> ?F < ?A" using B Q(2) by (auto simp: deliver_from_def split: if_splits)
  have run: "deliver_seg e sgm s = (case g of Inl s \<Rightarrow> Some (Inl s)
      | Inr s \<Rightarrow> (if SEQ_GT (seg_end sgm) (base_seq s) then copy_segment e sgm s else Some (Inr s)))"
    by (simp add: deliver_seg_def gt g_def)
  show ?thesis
  proof (cases g)
    case (Inl s')
    have "adds s (gap_items ?X ?P @ Y) (Inl s')" for Y using g(1) Inl by (intro adds_stop) simp
    then show ?thesis using run Inl A(2) F Q(2)
      by (intro exI[of _ "Inl s'"] exI[of _ "?Q - max ?F ?P"]) simp
  next
    case (Inr t)
    have t: "msgs_ok t" "only_msgs s t" "said t = said s @ gap_items ?X ?P" "ahead b (base_seq t) = ?F"
      using g Inr by (auto simp: adds_def)
    have ack: "r_last_ack (strm t) = r_last_ack (strm s)" using t(2) by (simp add: only_msgs_def)
    have "SEQ_GT (seg_end sgm) (base_seq t)" using SEQ_at(3)[of b "seg_end sgm" "base_seq t"] t(4) F(1) Q by simp
    then have run': "deliver_seg e sgm s = copy_segment e sgm t" using run Inr by simp
    obtain off len where rg: "ack_range sgm (base_seq t) (r_last_ack (strm t)) = (off, len)"
      "unat off = ?F - ?P" "unat len = min ?A ?Q - max ?F ?P"
      using ack_range_ok[OF w, of "base_seq t" "r_last_ack (strm t)"] A F t(4) ack by auto
    have "unat off + unat len \<le> unat (payload_len sgm)" using rg(2,3) F A Q by (auto simp: min_def max_def)
    from copy_segment_ok[OF t(1) buf rg(1) this, of e]
    obtain r k where r: "copy_segment e sgm t = Some r" "unat len \<le> k" "unat off + k \<le> unat (payload_len sgm)"
      "adds t (map Byte (take k (drop (unat off) (payload sgm)))) r" "moved e t k r" by blast
    have "ahead b (base_seq s') = ?F + k" if "r = Inr s'" for s'
    proof -
      have "base_seq s' = base_seq t + of_nat k" using r(5) that by (simp add: moved_def)
      moreover have "?F + k < 2 ^ 32" using r(3) Q F(1) unat_bound[of "payload_len sgm"] by simp
      ultimately show ?thesis using ahead_add[of b "base_seq t" k] t(4) by simp
    qed
    moreover have "settled e s'" if "r = Inr s'" for s' using r(5) that by (simp add: moved_def)
    moreover have "min ?A ?Q \<le> k + max ?F ?P" "k + max ?F ?P \<le> ?Q" using r(2,3) rg(2,3) Q F by (auto simp: min_def max_def)
    ultimately show ?thesis using run' r(1) adds_trans[OF r(4) t(2,3)] rg(2) by auto
  qed
qed

section \<open>One pass of the loop\<close>

definition ack_ok :: "seg_env \<Rightarrow> u32 \<Rightarrow> addr set \<Rightarrow> addr list \<Rightarrow> ack_state \<Rightarrow> bool" where
  "ack_ok env b others xs s \<longleftrightarrow> msgs_ok s \<and> seg_inv env b others xs (segs (strm s)) (seg_st (wrld s))"

definition near :: "u32 \<Rightarrow> ack_state \<Rightarrow> bool" where
  "near b s \<longleftrightarrow> ahead b (base_seq s) \<le> 65535 \<and> ahead b (exp_seq s) \<le> 65536 \<and> ahead b (r_last_ack (strm s)) < 2 ^ 30"

text \<open>What a pass leaves alone.\<close>

definition ack_kept :: "addr set \<Rightarrow> ack_state \<Rightarrow> ack_state \<Rightarrow> bool" where
  "ack_kept others s s' \<longleftrightarrow> r_last_ack (strm s') = r_last_ack (strm s) \<and> r_isn (strm s') = r_isn (strm s) \<and>
     grown (wrld s) (wrld s') \<and> same_on others (seg_st (wrld s)) (seg_st (wrld s'))"

lemma ack_kept_refl [simp]: "ack_kept others s s" by (simp add: ack_kept_def)
lemma ack_kept_trans: "ack_kept others s t \<Longrightarrow> ack_kept others t u \<Longrightarrow> ack_kept others s u"
  by (auto simp: ack_kept_def dest: grown_trans same_on_trans)

lemma only_msgs_kept: "only_msgs s t \<Longrightarrow> ack_kept others s t"
  by (simp add: only_msgs_def ack_kept_def)

text \<open>A pass that removes the segment, and one that marks it.\<close>

lemma drop_pass:
  assumes "ack_ok env b others (ys @ a # zs) s" "unlink = unlink_seg \<or> unlink = unlink_head \<and> ys = []"
  shows "\<exists>s'. drop_seg unlink a s = Some s' \<and> ack_ok env b others (ys @ zs) s' \<and> ack_kept others s s' \<and>
    base_seq s' = base_seq s \<and> exp_seq s' = exp_seq s \<and> said s' = said s \<and> (settled e s \<longrightarrow> settled e s') \<and>
    (\<forall>c. c \<noteq> a \<longrightarrow> sg (mem (seg_st (wrld s'))) c = sg (mem (seg_st (wrld s))) c)"
proof -
  have inv: "seg_inv env b others (ys @ a # zs) (segs (strm s)) (seg_st (wrld s))" and m: "msgs_ok s"
    using assms(1) by (simp_all add: ack_ok_def)
  from drop_seg_ok[OF inv assms(2)] obtain stream st where d:
    "drop_seg unlink a s = Some (s\<lparr>strm := (strm s)\<lparr>segs := stream\<rparr>, wrld := (wrld s)\<lparr>seg_st := st\<rparr>\<rparr>)"
    "seg_inv env b others (ys @ zs) stream st" "same_on others (seg_st (wrld s)) st"
    "\<forall>c. c \<noteq> a \<longrightarrow> sg (mem st) c = sg (mem (seg_st (wrld s))) c" by blast
  have "msgs_ok (s\<lparr>strm := (strm s)\<lparr>segs := stream\<rparr>, wrld := (wrld s)\<lparr>seg_st := st\<rparr>\<rparr>)"
    "said (s\<lparr>strm := (strm s)\<lparr>segs := stream\<rparr>, wrld := (wrld s)\<lparr>seg_st := st\<rparr>\<rparr>) = said s"
    using m by (simp_all add: msgs_ok_def queue_ok_def said_def emitted_def)
  then show ?thesis using d by (simp add: ack_ok_def ack_kept_def settled_def)
qed

lemma mark_pass:
  assumes "ack_ok env b others xs s" "a \<in> set xs"
  shows "ack_ok env b others xs (s\<lparr>wrld := (wrld s)\<lparr>seg_st := set_seg_flags a f (seg_st (wrld s))\<rparr>\<rparr>)"
    "ack_kept others s (s\<lparr>wrld := (wrld s)\<lparr>seg_st := set_seg_flags a f (seg_st (wrld s))\<rparr>\<rparr>)"
    "said (s\<lparr>wrld := (wrld s)\<lparr>seg_st := set_seg_flags a f (seg_st (wrld s))\<rparr>\<rparr>) = said s"
proof -
  have inv: "seg_inv env b others xs (segs (strm s)) (seg_st (wrld s))" and m: "msgs_ok s"
    using assms(1) by (simp_all add: ack_ok_def)
  note F = set_seg_flags_ok[OF inv assms(2), of f]
  have "a \<notin> others" using inv assms(2) by (auto simp: seg_inv_def)
  then have "same_on others (seg_st (wrld s)) (set_seg_flags a f (seg_st (wrld s)))" using F(2) by (auto simp: same_on_def)
  then show "ack_ok env b others xs (s\<lparr>wrld := (wrld s)\<lparr>seg_st := set_seg_flags a f (seg_st (wrld s))\<rparr>\<rparr>)"
    "ack_kept others s (s\<lparr>wrld := (wrld s)\<lparr>seg_st := set_seg_flags a f (seg_st (wrld s))\<rparr>\<rparr>)"
    "said (s\<lparr>wrld := (wrld s)\<lparr>seg_st := set_seg_flags a f (seg_st (wrld s))\<rparr>\<rparr>) = said s"
    using F(1) m by (simp_all add: ack_ok_def ack_kept_def msgs_ok_def queue_ok_def said_def emitted_def)
qed

text \<open>The guards, on positions.\<close>

lemma unat_of_nat_self: "of_nat (unat (x :: 'l::len word)) = x" by simp

lemma ahead_next: "ahead b x \<le> 65535 \<Longrightarrow> ahead b (x + 1) = ahead b x + 1"
  using ahead_add[of b x 1] by simp

lemma before_guard:
  assumes "in_window b sgm" "ahead b base \<le> 65535"
  shows "SEQ_LEQ (seg_end sgm) (base + 1) \<longleftrightarrow> to_seg b sgm \<le> ahead b base + 1"
proof -
  have "ahead b (seg_end sgm) = to_seg b sgm" "to_seg b sgm \<le> 65535" using ahead_seg_end[OF assms(1)] assms(1) by (simp_all add: in_window_def)
  then show ?thesis using SEQ_at(2)[of b "seg_end sgm" "base + 1"] assms(2) ahead_next[OF assms(2)] by simp
qed

lemma overlap_guard:
  assumes "in_window b sgm" "ahead b base \<le> 65535" "ahead b ack < 2 ^ 30" "from_seg b sgm < ahead b ack"
  shows "from_seg b sgm \<le> ahead b base \<Longrightarrow>
      SEQ_LEQ ack (base + (base - sg_seq sgm)) \<longleftrightarrow> ahead b ack \<le> ahead b base + (ahead b base - from_seg b sgm)"
    and "ahead b base < from_seg b sgm \<Longrightarrow> \<not> SEQ_LEQ ack (base + (base - sg_seq sgm))"
proof -
  let ?P = "from_seg b sgm" and ?B = "ahead b base" and ?A = "ahead b ack"
  have P: "ahead b (sg_seq sgm) = ?P" "?P \<le> 65535" using assms(1) by (simp_all add: from_seg_def in_window_def)
  show "SEQ_LEQ ack (base + (base - sg_seq sgm)) \<longleftrightarrow> ?A \<le> ?B + (?B - ?P)" if "?P \<le> ?B"
  proof -
    have "base - sg_seq sgm = of_nat (?B - ?P)" using unat_diff_ahead[of b "sg_seq sgm" base] that P by (metis unat_of_nat_self)
    then have "ahead b (base + (base - sg_seq sgm)) = ?B + (?B - ?P)" using ahead_add[of b base "?B - ?P"] assms(2) by simp
    then show ?thesis using SEQ_at(2)[of b ack "base + (base - sg_seq sgm)"] assms(2,3) by simp
  qed
  show "\<not> SEQ_LEQ ack (base + (base - sg_seq sgm))" if "?B < ?P"
  proof -
    have seq: "x = b + of_nat (ahead b x)" for x by (simp add: ahead_def)
    define k where "k = ?A + ?P - 2 * ?B"
    have k: "0 < k" "k < 2 ^ 31" "of_nat k = (of_nat ?A + of_nat ?P - 2 * of_nat ?B :: u32)"
      using that assms P by (simp_all add: k_def of_nat_diff)
    have "base + (base - sg_seq sgm) - ack = - of_nat k"
      unfolding k(3) by (subst (1 2) seq[of base], subst seq[of "sg_seq sgm"], subst seq[of ack]) (simp add: P)
    moreover have "unat (of_nat k :: u32) = k" using k(2) by (simp add: unat_of_nat)
    moreover from this have "(of_nat k :: u32) \<noteq> 0" using k(1) by (metis unat_0 less_irrefl)
    ultimately have "ahead ack (base + (base - sg_seq sgm)) = 2 ^ 32 - k" using unat_neg_u32[of "of_nat k"] by (simp add: ahead_def)
    then show ?thesis using k(1,2) by (simp add: SEQ_ahead)
  qed
qed

text \<open>A segment is the same up to its flags.\<close>

definition same_seg :: "seg_state \<Rightarrow> seg_state \<Rightarrow> addr \<Rightarrow> bool" where
  "same_seg st st' c \<longleftrightarrow> map_option (sg_flags_update (\<lambda>_. 0)) (sg (mem st') c) = map_option (sg_flags_update (\<lambda>_. 0)) (sg (mem st) c)"

lemma same_seg_refl [simp]: "same_seg st st c" by (simp add: same_seg_def)
lemma same_seg_trans: "same_seg st t c \<Longrightarrow> same_seg t u c \<Longrightarrow> same_seg st u c" by (simp add: same_seg_def)
lemma same_seg_eq: "sg (mem st') c = sg (mem st) c \<Longrightarrow> same_seg st st' c" by (simp add: same_seg_def)
lemma same_seg_flags [simp]: "same_seg st (set_seg_flags a f st) c"
  by (auto simp: same_seg_def set_seg_flags_def option.map_comp o_def)

lemma subseq_remove: "subseq (ys @ zs) (ys @ a # zs)"
  unfolding subseq_append' by (rule list_emb_Cons) (rule subseq_order.refl)

lemma set_mono_subseq: "subseq xs ys \<Longrightarrow> set xs \<subseteq> set ys"
  by (auto elim: list_emb_set)

text \<open>The state after some passes: what is left of the list.\<close>

definition ack_after :: "seg_env \<Rightarrow> u32 \<Rightarrow> addr set \<Rightarrow> addr list \<Rightarrow> ack_state \<Rightarrow> addr list \<Rightarrow> ack_state \<Rightarrow> bool" where
  "ack_after env b others xs s xs' s' \<longleftrightarrow> ack_ok env b others xs' s' \<and> ack_kept others s s' \<and> subseq xs' xs \<and>
     (\<forall>c\<in>set xs'. same_seg (seg_st (wrld s)) (seg_st (wrld s')) c)"

lemma ack_after_trans:
  assumes "ack_after env b others xs s ys t" "ack_after env b others ys t zs u"
  shows "ack_after env b others xs s zs u"
proof -
  have sub: "subseq zs ys" "subseq ys xs" using assms by (simp_all add: ack_after_def)
  have "set zs \<subseteq> set ys" using set_mono_subseq[OF sub(1)] .
  then show ?thesis using assms sub subseq_order.trans[OF sub] ack_kept_trans same_seg_trans unfolding ack_after_def by blast
qed

lemma finish_pass:
  assumes ok: "ack_ok env b others (ys @ a # zs) s" and head: "done_detection e \<Longrightarrow> ys = []"
  shows "\<exists>p s'. finish_seg e a (first_or zs None) s = Some (p, s') \<and> (p = first_or zs None \<or> p = None \<and> \<not> done_detection e) \<and>
    ack_after env b others (ys @ a # zs) s ((if done_detection e then ys else ys @ [a]) @ zs) s' \<and>
    base_seq s' = base_seq s \<and> exp_seq s' = exp_seq s \<and> said s' = said s \<and> (settled e s \<longrightarrow> settled e s')"
proof (cases "done_detection e")
  case True
  then obtain s' where d: "drop_seg unlink_head a s = Some s'" "ack_ok env b others (ys @ zs) s'" "ack_kept others s s'"
    "base_seq s' = base_seq s" "exp_seq s' = exp_seq s" "said s' = said s" "settled e s \<longrightarrow> settled e s'"
    "\<forall>c. c \<noteq> a \<longrightarrow> sg (mem (seg_st (wrld s'))) c = sg (mem (seg_st (wrld s))) c"
    using drop_pass[OF ok, of unlink_head] head by blast
  have "a \<notin> set (ys @ zs)" using ok by (auto simp: ack_ok_def seg_inv_def list_ok_def)
  then have "\<forall>c\<in>set (ys @ zs). same_seg (seg_st (wrld s)) (seg_st (wrld s')) c" using d(8) by (auto intro: same_seg_eq)
  then have "ack_after env b others (ys @ a # zs) s (ys @ zs) s'" using d by (simp add: ack_after_def subseq_remove)
  then show ?thesis using True d by (simp add: finish_seg_def)
next
  case False
  let ?s = "s\<lparr>wrld := (wrld s)\<lparr>seg_st := set_seg_flags a (\<lambda>f. f OR SEGMENTTCP_FLAG_PROCESSED) (seg_st (wrld s))\<rparr>\<rparr>"
  have "ack_after env b others (ys @ a # zs) s (ys @ a # zs) ?s"
    using mark_pass[OF ok, of a "\<lambda>f. f OR SEGMENTTCP_FLAG_PROCESSED"] by (simp add: ack_after_def)
  moreover have "said ?s = said s" using mark_pass(3)[OF ok, of a] by simp
  ultimately show ?thesis using False by (auto simp: finish_seg_def Let_def settled_def)
qed

lemma adds_after:
  assumes "ack_ok env b others xs s" "adds s X r" "r = Inl s' \<or> r = Inr s'"
  shows "ack_after env b others xs s xs s'"
proof -
  have "msgs_ok s'" "only_msgs s s'" using assms(2,3) by (auto simp: adds_def)
  then show ?thesis using assms(1) only_msgs_kept[of s s' others] by (auto simp: ack_after_def ack_ok_def only_msgs_def)
qed

definition step_ok :: "ack_env \<Rightarrow> seg_env \<Rightarrow> u32 \<Rightarrow> addr set \<Rightarrow> addr list \<Rightarrow> addr list \<Rightarrow> ack_state \<Rightarrow> ack_state + addr option \<times> ack_state \<Rightarrow> bool" where
  "step_ok e env b others xs zs s r \<longleftrightarrow> (case r of
     Inl s' \<Rightarrow> ack_after env b others xs s xs s' \<and> ran_out (wrld s) (wrld s') \<and> smsg s' = None
   | Inr (p, s') \<Rightarrow> (p = None \<or> p = first_or zs None) \<and>
       (\<exists>ys'. ack_after env b others xs s (ys' @ zs) s' \<and> near b s' \<and> (done_detection e \<longrightarrow> ys' = [])))"

lemma ack_step_ok:
  assumes ok: "ack_ok env b others (ys @ a # zs) s" and near: "near b s" and head: "done_detection e \<Longrightarrow> ys = []"
    and A: "pos_of b (mem (seg_st (wrld s))) a < ahead b (r_last_ack (strm s))"
  shows "\<exists>r. ack_step e a s = Some r \<and> step_ok e env b others (ys @ a # zs) zs s r"
proof -
  have inv: "seg_inv env b others (ys @ a # zs) (segs (strm s)) (seg_st (wrld s))" and m: "msgs_ok s"
    using ok by (simp_all add: ack_ok_def)
  obtain sgm where sgm: "sg (mem (seg_st (wrld s))) a = Some sgm" "in_window b sgm" "unat (payload_len sgm) \<le> length (payload sgm)"
    "next_of a (seg_st (wrld s)) = first_or zs None"
    using seg_inv_at[OF inv] by metis
  let ?P = "from_seg b sgm" and ?Q = "to_seg b sgm" and ?B = "ahead b (base_seq s)" and ?A = "ahead b (r_last_ack (strm s))"
  have P: "?P < ?A" "?P < ?Q" "?Q \<le> 65535" using A sgm(1,2) by (simp_all add: in_window_def)
  have N: "?B \<le> 65535" "ahead b (exp_seq s) \<le> 65536" "?A < 2 ^ 30" using near by (simp_all add: near_def)
  have removed: "\<exists>s'. drop_seg unlink_seg a t = Some s' \<and> step_ok e env b others (ys @ a # zs) zs s (Inr (first_or zs None, s'))"
    if t: "ack_after env b others (ys @ a # zs) s (ys @ a # zs) t" "near b t" for t
  proof -
    have t': "ack_ok env b others (ys @ a # zs) t" using t(1) by (simp add: ack_after_def)
    obtain s' where d: "drop_seg unlink_seg a t = Some s'" "ack_ok env b others (ys @ zs) s'" "ack_kept others t s'"
      "base_seq s' = base_seq t" "exp_seq s' = exp_seq t"
      "\<forall>c. c \<noteq> a \<longrightarrow> sg (mem (seg_st (wrld s'))) c = sg (mem (seg_st (wrld t))) c"
      using drop_pass[OF t', of unlink_seg] by blast
    have "a \<notin> set (ys @ zs)" using ok by (auto simp: ack_ok_def seg_inv_def list_ok_def)
    then have "\<forall>c\<in>set (ys @ zs). same_seg (seg_st (wrld t)) (seg_st (wrld s')) c" using d(6) by (auto intro: same_seg_eq)
    then have "ack_after env b others (ys @ a # zs) t (ys @ zs) s'" using d by (simp add: ack_after_def subseq_remove)
    from ack_after_trans[OF t(1) this] show ?thesis
      using d t(2) head by (auto simp: step_ok_def near_def ack_kept_def)
  qed
  define marked where "marked \<longleftrightarrow> done_detection e \<and> sg_flags sgm AND SEGMENTTCP_FLAG_PROCESSED \<noteq> 0"
  define old where "old \<longleftrightarrow> SEQ_LEQ (seg_end sgm) (base_seq s + 1) \<or>
    SEQ_LEQ (r_last_ack (strm s)) (base_seq s + (base_seq s - sg_seq sgm))"
  let ?M = "s\<lparr>wrld := (wrld s)\<lparr>seg_st := set_seg_flags a (\<lambda>f. f AND NOT SEGMENTTCP_FLAG_PROCESSED) (seg_st (wrld s))\<rparr>\<rparr>"
  have run: "ack_step e a s =
    (if marked then map_option (\<lambda>s. Inr (first_or zs None, s)) (drop_seg unlink_seg a ?M)
     else if old then map_option (\<lambda>s. Inr (first_or zs None, s)) (drop_seg unlink_seg a s)
     else do {
       r \<leftarrow> deliver_seg e sgm s;
       case r of Inl s \<Rightarrow> Some (Inl s) | Inr s \<Rightarrow> map_option Inr (finish_seg e a (first_or zs None) (s\<lparr>exp_seq := seg_end sgm\<rparr>))
     })"
    by (simp add: ack_step_def sgm(1,4) marked_def old_def Let_def)
  consider (marked) "marked" | (old) "\<not> marked" "old" | (new) "\<not> marked" "\<not> old" by blast
  then show ?thesis
  proof cases
    case marked
    have "ack_after env b others (ys @ a # zs) s (ys @ a # zs) ?M" "near b ?M"
      using mark_pass[OF ok, of a "\<lambda>f. f AND NOT SEGMENTTCP_FLAG_PROCESSED"] near by (simp_all add: ack_after_def near_def)
    from removed[OF this] show ?thesis using marked run by auto
  next
    case old
    have "ack_after env b others (ys @ a # zs) s (ys @ a # zs) s" using ok by (simp add: ack_after_def)
    from removed[OF this near] show ?thesis using old run by auto
  next
    case new
    have g: "?B + 1 < ?Q" "?P < ?B \<Longrightarrow> ?B < ?A"
      using new(2)[unfolded old_def] before_guard[OF sgm(2) N(1)] overlap_guard(1)[OF sgm(2) N(1,3) P(1)] by auto
    have pre: "?A < 2 ^ 31" "?B < ?Q" "ahead b (exp_seq s) < 2 ^ 31" using N g(1) by simp_all
    obtain r X k where r: "deliver_seg e sgm s = Some r" "adds s X r"
      "\<And>s'. r = Inr s' \<Longrightarrow> ahead b (base_seq s') \<le> ?Q"
    proof -
      from deliver_seg_ok[OF m sgm(2,3) pre(1) P(1) pre(2) g(2) pre(3), of e]
      obtain r k where r: "deliver_seg e sgm s = Some r"
        "k + max (deliver_from ?B (ahead b (exp_seq s)) ?P) ?P \<le> ?Q"
        "\<exists>X. adds s X r"
        "\<forall>s'. r = Inr s' \<longrightarrow> ahead b (base_seq s') = deliver_from ?B (ahead b (exp_seq s)) ?P + k" by blast
      then have "ahead b (base_seq s') \<le> ?Q" if "r = Inr s'" for s' using that by auto
      then show ?thesis using r that by blast
    qed
    show ?thesis
    proof (cases r)
      case (Inl s')
      then have "ack_after env b others (ys @ a # zs) s (ys @ a # zs) s'" "ran_out (wrld s) (wrld s')" "smsg s' = None"
        using adds_after[OF ok r(2)] r(2) by (auto simp: adds_def)
      then show ?thesis using new run r(1) Inl by (simp add: step_ok_def)
    next
      case (Inr t)
      have t: "ack_after env b others (ys @ a # zs) s (ys @ a # zs) t" using adds_after[OF ok r(2)] Inr by blast
      let ?t = "t\<lparr>exp_seq := seg_end sgm\<rparr>"
      have t': "ack_after env b others (ys @ a # zs) s (ys @ a # zs) ?t" "ack_ok env b others (ys @ a # zs) ?t"
        using t by (simp_all add: ack_after_def ack_ok_def ack_kept_def msgs_ok_def)
      obtain p s' where f: "finish_seg e a (first_or zs None) ?t = Some (p, s')" "p = first_or zs None \<or> p = None"
        "ack_after env b others (ys @ a # zs) ?t ((if done_detection e then ys else ys @ [a]) @ zs) s'"
        "base_seq s' = base_seq ?t" "exp_seq s' = exp_seq ?t"
        using finish_pass[OF t'(2) head] by blast
      have a: "ack_after env b others (ys @ a # zs) s ((if done_detection e then ys else ys @ [a]) @ zs) s'"
        by (rule ack_after_trans[OF t'(1) f(3)])
      then have "near b s'"
        using f(4,5) r(3)[OF Inr] N P ahead_seg_end[OF sgm(2)] by (simp add: near_def ack_after_def ack_kept_def)
      then have "step_ok e env b others (ys @ a # zs) zs s (Inr (p, s'))"
        using a f(2) head unfolding step_ok_def sum.case prod.case
        by (intro conjI exI[of _ "if done_detection e then ys else ys @ [a]"]) auto
      moreover have "ack_step e a s = Some (Inr (p, s'))" using new run r(1) Inr f(1) by simp
      ultimately show ?thesis by blast
    qed
  qed
qed

text \<open>All passes.\<close>

lemma ack_loop_ok:
  assumes "ack_ok env b others (ys @ zs) s" "near b s" "done_detection e \<Longrightarrow> ys = []"
  shows "\<exists>r. ack_loop e (first_or zs None) s = Some r \<and>
    (\<exists>s' xs'. (r = Inr s' \<or> r = Inl s' \<and> ran_out (wrld s) (wrld s') \<and> smsg s' = None) \<and> ack_after env b others (ys @ zs) s xs' s')"
  using assms
proof (induction zs arbitrary: ys s)
  case Nil
  then show ?case by (auto simp: ack_loop.simps[of e None] ack_after_def)
next
  case (Cons a zs)
  have inv: "seg_inv env b others (ys @ a # zs) (segs (strm s)) (seg_st (wrld s))" using Cons.prems(1) by (simp add: ack_ok_def)
  obtain sgm where sgm: "sg (mem (seg_st (wrld s))) a = Some sgm" "in_window b sgm" using seg_inv_at[OF inv] by metis
  have lt: "SEQ_LT (sg_seq sgm) (r_last_ack (strm s)) \<longleftrightarrow> from_seg b sgm < ahead b (r_last_ack (strm s))"
    using SEQ_at(1)[of b "sg_seq sgm" "r_last_ack (strm s)"] sgm(2) Cons.prems(2) by (simp add: near_def in_window_def from_seg_def)
  have self: "ack_after env b others (ys @ a # zs) s (ys @ a # zs) s" using Cons.prems(1) by (simp add: ack_after_def)
  show ?case
  proof (cases "from_seg b sgm < ahead b (r_last_ack (strm s))")
    case False
    then show ?thesis using sgm(1) lt self by (auto simp: ack_loop.simps[of e "Some a"])
  next
    case True
    obtain r where r: "ack_step e a s = Some r" "step_ok e env b others (ys @ a # zs) zs s r"
      using ack_step_ok[OF Cons.prems] True sgm(1) by auto
    have run: "ack_loop e (Some a) s = (case r of Inl s \<Rightarrow> Some (Inl s) | Inr (p, s) \<Rightarrow> ack_loop e p s)"
      using sgm(1) lt True r(1) by (subst ack_loop.simps) simp
    show ?thesis
    proof (cases r)
      case (Inl s')
      then show ?thesis using run r(2) by (auto simp: step_ok_def)
    next
      case (Inr ps)
      obtain p t where pt: "ps = (p, t)" by fastforce
      from r(2) obtain ys' where t: "p = None \<or> p = first_or zs None" "ack_after env b others (ys @ a # zs) s (ys' @ zs) t"
        "near b t" "done_detection e \<Longrightarrow> ys' = []" unfolding Inr pt step_ok_def by auto
      have t': "ack_ok env b others (ys' @ zs) t" using t(2) by (simp add: ack_after_def)
      show ?thesis
      proof (cases "p = None")
        case True
        then show ?thesis using run Inr pt t(2) by (auto simp: ack_loop.simps[of e None])
      next
        case False
        from Cons.IH[OF t' t(3,4)] obtain r' s' xs' where r': "ack_loop e (first_or zs None) t = Some r'"
          "r' = Inr s' \<or> r' = Inl s' \<and> ran_out (wrld t) (wrld s') \<and> smsg s' = None" "ack_after env b others (ys' @ zs) t xs' s'" by blast
        have "ack_after env b others (ys @ a # zs) s xs' s'" by (rule ack_after_trans[OF t(2) r'(3)])
        moreover have "ran_out (wrld s) (wrld s')" if "ran_out (wrld t) (wrld s')"
          using ran_out_trans[OF _ that] t(2) by (simp add: ack_after_def ack_kept_def)
        ultimately show ?thesis using run Inr pt t(1) False r'(1,2) by auto
      qed
    qed
  qed
qed

section \<open>The call\<close>

text \<open>
  What a call does to the stream and the world: the segments \<open>xs'\<close> are left, unchanged, and only messages are
  added to the queue.
\<close>

definition acked :: "seg_env \<Rightarrow> u32 \<Rightarrow> addr set \<Rightarrow> addr list \<Rightarrow> ra_stream \<Rightarrow> ra_world \<Rightarrow> addr list \<Rightarrow> ra_stream \<Rightarrow> ra_world \<Rightarrow> bool" where
  "acked env b others xs stream w xs' stream' w' \<longleftrightarrow>
     seg_inv env b others xs' (segs stream') (seg_st w') \<and> queue_ok w' \<and>
     subseq xs' xs \<and> (\<forall>c\<in>set xs'. same_seg (seg_st w) (seg_st w') c) \<and> same_on others (seg_st w) (seg_st w') \<and>
     grown w w' \<and> r_last_ack stream' = r_last_ack stream \<and> r_isn stream' = r_isn stream"

lemma acked_trivial:
  assumes "seg_inv env b others xs (segs stream) (seg_st w)" "queue_ok w"
    and "segs stream' = segs stream" "r_last_ack stream' = r_last_ack stream" "r_isn stream' = r_isn stream"
    and "seg_st w' = seg_st w" "queue_ok w'" "grown w w'"
  shows "acked env b others xs stream w xs stream' w'"
  using assms by (simp add: acked_def)

lemma acked_start:
  assumes "acked env b others xs stream' w1 xs' stream2 w2" "seg_st w1 = seg_st w" "grown w w1"
    and "r_last_ack stream' = r_last_ack stream" "r_isn stream' = r_isn stream"
  shows "acked env b others xs stream w xs' stream2 w2"
  using assms grown_trans[OF assms(3)] by (auto simp: acked_def)

lemma reassemble_acked_ok:
  assumes inv: "seg_inv env b others xs (segs stream) (seg_st w)" and q: "queue_ok w"
    and pos: "ahead b base \<le> 65535" "ahead b (r_last_ack stream) < 2 ^ 30"
  shows "\<exists>r stream' w' xs'. reassemble_acked e base stream w = Some (r, stream', w') \<and> (r = 0 \<or> r = - 1 \<and> ran_out w w') \<and>
    acked env b others xs stream w xs' stream' w'"
proof -
  let ?s = "\<lparr>strm = stream, wrld = w, smsg = None, smsg_offset = 0, exp_seq = base + 1, base_seq = base\<rparr>"
  have ok: "ack_ok env b others ([] @ xs) ?s" "near b ?s"
    using inv q pos ahead_next[OF pos(1)] by (simp_all add: ack_ok_def near_def msgs_ok_def)
  have head: "first_or xs None = seg_head (segs stream)" using inv by (simp add: seg_inv_def ends_ok_def)
  obtain r s' xs' where r: "ack_loop e (seg_head (segs stream)) ?s = Some r"
    "r = Inr s' \<or> r = Inl s' \<and> ran_out w (wrld s') \<and> smsg s' = None" "ack_after env b others xs ?s xs' s'"
    using ack_loop_ok[OF ok, of e] unfolding head by auto
  define t where "t = (case smsg s' of None \<Rightarrow> s' | Some m \<Rightarrow> queue_smsg e m s')"
  have m: "msgs_ok s'" using r(3) by (simp add: ack_after_def ack_ok_def)
  have t: "only_msgs s' t" "msgs_ok t" using m queue_smsg_ok[OF m] filling_ok queue_smsg_frame(7)
    by (auto simp: t_def msgs_ok_def split: option.splits)
  then have "acked env b others xs stream w xs' (strm t) (wrld t)" "acked env b others xs stream w xs' (strm s') (wrld s')"
    using r(3) m by (auto simp: acked_def ack_after_def ack_ok_def ack_kept_def only_msgs_def msgs_ok_def dest: grown_trans)
  moreover have "reassemble_acked e base stream w = (case r of Inl s \<Rightarrow> Some (- 1, strm s, wrld s)
      | Inr s \<Rightarrow> let s = (case smsg s of None \<Rightarrow> s | Some m \<Rightarrow> queue_smsg e m s) in Some (0, strm s, wrld s))"
    using r(1) by (simp add: reassemble_acked_def)
  ultimately show ?thesis using r(2) by (auto simp: t_def Let_def)
qed

lemma UpdateACK_ok:
  assumes inv: "seg_inv env b others xs (segs stream) (seg_st w)" and q: "queue_ok w"
    and pos: "ahead b (r_ra_base_seq stream) \<le> 65535" "ahead b (r_tmp_ra_base_seq stream) \<le> 65535" "ahead b (r_last_ack stream) < 2 ^ 30"
  shows "\<exists>r stream' w' xs'. StreamTcpReassembleHandleSegmentUpdateACK E ts flags p stream w = Some (r, stream', w') \<and>
    (r = 0 \<or> r = - 1 \<and> ran_out w w') \<and> acked env b others xs stream w xs' stream' w'"
proof -
  define good :: "ra_result \<Rightarrow> bool" where "good R \<longleftrightarrow> (\<exists>r stream' w' xs'. R = Some (r, stream', w') \<and> (r = 0 \<or> r = - 1 \<and> ran_out w w') \<and>
      acked env b others xs stream w xs' stream' w')" for R
  have if_good: "good (if c then R else R')" if "c \<Longrightarrow> good R" "\<not> c \<Longrightarrow> good R'" for c R R'
    using that by simp
  have run: "good (if StreamTcpReassembleCheckLimit ts stream1 p (chunks w1) then reassemble_acked e base stream1 w1 else Some (0, stream1, w1))"
    if 1: "segs stream1 = segs stream" "r_last_ack stream1 = r_last_ack stream" "r_isn stream1 = r_isn stream"
      "\<exists>f. w1 = w\<lparr>q_flags := f\<rparr>" "ahead b base \<le> 65535" for e base stream1 w1
  proof -
    have w1: "seg_st w1 = seg_st w" "grown w w1" "queue_ok w1" using 1(4) q by auto
    obtain r stream2 w2 xs' where r: "reassemble_acked e base stream1 w1 = Some (r, stream2, w2)" "r = 0 \<or> r = - 1 \<and> ran_out w1 w2"
      "acked env b others xs stream1 w1 xs' stream2 w2"
      using reassemble_acked_ok[of env b others xs stream1 w1 base e] inv w1 1 pos(3) by auto
    have "acked env b others xs stream w xs stream1 w1" using inv q 1 w1 by (intro acked_trivial) simp_all
    then show ?thesis using r acked_start[OF r(3) w1(1,2) 1(2,3)] ran_out_trans[OF w1(2)] by (auto simp: good_def)
  qed
  have same: "good (Some (0, stream, w))"
    using acked_trivial[OF inv q, of stream w] q by (auto simp: good_def)
  have "good (StreamTcpReassembleHandleSegmentUpdateACK E ts flags p stream w)"
  proof (cases "seg_head (segs stream) = None")
    case True
    obtain m w1 where t: "take_msg w = (m, w1)" by fastforce
    note T = take_msg_frame[OF t]
    have "good (case m of None \<Rightarrow> Some (- 1, stream, w1) | Some m \<Rightarrow> Some (0, stream, put_msg (StreamTcpSetupMsg ts stream p m) w1))"
    proof (cases m)
      case None
      have "acked env b others xs stream w xs stream w1" using inv q T by (intro acked_trivial) simp_all
      moreover have "ran_out w w1" using T(9) None by blast
      ultimately show ?thesis using None by (auto simp: good_def)
    next
      case (Some m')
      have "msg_ok (StreamTcpSetupMsg ts stream p m')" using filling_ok[OF filling_new[OF T(5)[OF q Some]]] .
      then have "acked env b others xs stream w xs stream (put_msg (StreamTcpSetupMsg ts stream p m') w1)"
        using inv q T(1,3,4,8) by (intro acked_trivial) simp_all
      then show ?thesis using Some by (auto simp: good_def)
    qed
    then show ?thesis using True t same
      by (simp add: StreamTcpReassembleHandleSegmentUpdateACK_def split: option.splits)
  next
    case False
    have [simp]: "\<exists>f. w = w\<lparr>q_flags := f\<rparr>"
      "\<exists>f. (if c then w\<lparr>q_flags := g\<rparr> else w) = w\<lparr>q_flags := f\<rparr>"
      "\<exists>f. w\<lparr>q_flags := g\<rparr> = w\<lparr>q_flags := f\<rparr>" for c g
      by (rule exI[of _ "q_flags w"], simp) (rule exI[of _ "if c then g else q_flags w"], simp, blast)
    show ?thesis
      unfolding StreamTcpReassembleHandleSegmentUpdateACK_def Let_def if_not_P[OF False]
      by (rule if_good, rule same, rule if_good, rule if_good, rule same, (rule run; (simp add: pos)?), rule if_good)
        (rule run; (simp add: pos)?)+
  qed
  then show ?thesis by (simp add: good_def)
qed

end
