(* ===== verification/StreamTcpSegmentSystem.thy ===== *)
theory StreamTcpSegmentSystem
  imports StreamTcpSegmentPolicy StreamTcpReassembleAck
begin

text \<open>
  The streams of the engine on the shared segment pools (\<open>src/stream-tcp-reassemble.c\<close>), from its start: every
  stream keeps its list, whatever the packets of the others. With the properties of the segment theories.
\<close>

section \<open>The start of the engine\<close>

lemma prealloc_segments:
  assumes "pool_prealloc mok k 0 n (p, m) = Some (p', m')" "i < 8"
    and "pools_ok env (Suc i) {} (st\<lparr>segment_pool := (segment_pool st)(i := p), mem := m\<rparr>)"
  shows "pools_ok env (Suc i) {} (st\<lparr>segment_pool := (segment_pool st)(i := p'), mem := m'\<rparr>)"
  using assms(1,3)
proof (induction n arbitrary: k p m)
  case 0
  then show ?case by simp
next
  case (Suc n)
  let ?st = "\<lambda>p m. st\<lparr>segment_pool := (segment_pool st)(i := p), mem := m\<rparr>"
  have conf: "pool_conf env i p" using pools_okD(1)[OF Suc.prems(2), of i] by simp
  obtain d m1 where al: "TcpSegmentPoolAlloc env (segment_pool_pktsizes ! i) m = (d, m1)" by fastforce
  let ?p = "p\<lparr>allocated := allocated p + 1, alloc_list := d # alloc_list p, alloc_list_size := alloc_list_size p + 1\<rparr>"
  have rest: "pool_prealloc mok (k + 1) 0 n (?p, m1) = Some (p', m')"
    using Suc.prems(1) conf al by (auto simp: pool_conf_def split: if_splits)
  have conf': "pool_conf env i ?p" using conf by (simp add: pool_conf_def)
  have "pools_ok env (Suc i) {} (?st ?p m1)"
    using al
  proof (cases rule: alloc_cases)
    case failed
    have "pools_ok env (Suc i) {} ((?st p m)\<lparr>segment_pool := (segment_pool (?st p m))(i := ?p), mem := m1\<rparr>)"
      by (rule pools_ok_same[OF Suc.prems(2)]) (use failed conf' in \<open>simp_all add: avail_def\<close>)
    then show ?thesis by simp
  next
    case (made a s)
    have "pools_ok env (Suc i) {} ((?st p m)\<lparr>segment_pool := (segment_pool (?st p m))(i := ?p), mem := m1\<rparr>)"
      by (rule pools_ok_new[OF Suc.prems(2) _ made(4)]) (use made conf' in simp_all)
    then show ?thesis by simp
  qed
  from Suc.IH[OF rest this] show ?case .
qed

lemma pools_ok_add:
  assumes "pools_ok env i {} st" "pool_conf env i p" "alloc_list p = []"
  shows "pools_ok env (Suc i) {} (st\<lparr>segment_pool := (segment_pool st)(i := p)\<rparr>)"
proof -
  note D = pools_okD[OF assms(1)]
  have av: "avail (st\<lparr>segment_pool := (segment_pool st)(i := p)\<rparr>) j = (if j = i then [] else avail st j)" for j
    using assms(3) by (simp add: avail_def)
  show ?thesis
  proof (rule pools_okI)
    show "a < n_mallocs (mem (st\<lparr>segment_pool := (segment_pool st)(i := p)\<rparr>)) \<and> l = unat q \<and>
        (\<exists>j<Suc i. q = segment_pool_pktsizes ! j \<and>
           (a \<in> {} \<or> a \<in> set (avail (st\<lparr>segment_pool := (segment_pool st)(i := p)\<rparr>) j)))"
      if "shape (mem (st\<lparr>segment_pool := (segment_pool st)(i := p)\<rparr>)) a = Some (q, l)" for a q l
      using that D(6-8)[of a q l] unfolding av by (auto intro: less_SucI)
  qed (use D(1-4) assms(2) in \<open>auto simp: av less_Suc_eq\<close>)
qed

lemma prealloc_returns:
  "(\<And>k. mok k) \<Longrightarrow> \<exists>r. pool_prealloc mok k 0 n (p, m) = Some r"
  by (induction n arbitrary: k p m) (auto split: prod.split)

lemma segment_pool_init_ok:
  assumes "pools_ok env n {} st" "n < 8" "segment_pool_init env mok st n = Some st'"
  shows "pools_ok env (Suc n) {} st'"
proof -
  define p0 where "p0 = \<lparr>max_buckets = 0, allocated = 0, alloc_list = [], alloc_list_size = 0,
      empty_list = [], empty_list_size = 0, Alloc = TcpSegmentPoolAlloc env, AllocData = segment_pool_pktsizes ! n,
      Free = Some (TcpSegmentPoolFree env), outstanding = 0, max_outstanding = (0 :: u32)\<rparr>"
  have "n \<in> {0, 1, 2, 3, 4, 5, 6, 7}" using assms(2) by auto
  then have "segment_pool_poolsizes ! n = 0" by (auto simp: segment_pool_poolsizes_def)
  then obtain p m where r: "pool_prealloc (mok n) 1 0 (unat (segment_pool_poolsizes_prealloc ! n)) (p0, mem st) = Some (p, m)"
    "st' = st\<lparr>segment_pool := (segment_pool st)(n := p), mem := m\<rparr>"
    using assms(3) by (auto simp: segment_pool_init_def PoolInit_def p0_def split: if_splits bind_splits)
  have "pools_ok env (Suc n) {} (st\<lparr>segment_pool := (segment_pool st)(n := p0), mem := mem st\<rparr>)"
    using pools_ok_add[OF assms(1), of p0] by (simp add: p0_def pool_conf_def)
  from prealloc_segments[OF r(1) assms(2) this] show ?thesis by (simp add: r(2))
qed

lemma segment_pool_init_returns:
  assumes "n < 8" "\<And>i k. mok i k"
  shows "\<exists>st'. segment_pool_init env mok st n = Some st'"
proof -
  have "n \<in> {0, 1, 2, 3, 4, 5, 6, 7}" using assms(1) by auto
  then have sz: "segment_pool_poolsizes ! n = 0" by (auto simp: segment_pool_poolsizes_def)
  define p0 where "p0 = \<lparr>max_buckets = 0, allocated = 0, alloc_list = [], alloc_list_size = 0,
      empty_list = [], empty_list_size = 0, Alloc = TcpSegmentPoolAlloc env, AllocData = segment_pool_pktsizes ! n,
      Free = Some (TcpSegmentPoolFree env), outstanding = 0, max_outstanding = (0 :: u32)\<rparr>"
  obtain p m where r: "pool_prealloc (mok n) 1 0 (unat (segment_pool_poolsizes_prealloc ! n)) (p0, mem st) = Some (p, m)"
    using prealloc_returns[of "mok n" 1 "unat (segment_pool_poolsizes_prealloc ! n)" p0 "mem st"] assms(2) by auto
  then have "PoolInit (mok n) (segment_pool_poolsizes ! n) (segment_pool_poolsizes_prealloc ! n)
      (Some (TcpSegmentPoolAlloc env)) (segment_pool_pktsizes ! n) (Some (TcpSegmentPoolFree env)) (mem st) = Some (p, m)"
    using sz assms(2) by (simp add: PoolInit_def p0_def)
  then show ?thesis by (simp add: segment_pool_init_def)
qed

lemma Init_ok:
  assumes "sg (mem st) = Map.empty" "StreamTcpReassembleInit env mok st = Some st'"
  shows "pools_ok env 8 {} st'"
proof -
  have "for_each (segment_pool_init env mok) st [0..<n] = Some st' \<Longrightarrow> pools_ok env n {} st'" if "n \<le> 8" for n st'
    using that
  proof (induction n arbitrary: st')
    case 0
    then show ?case using assms(1) by (auto simp: pools_ok_def shape_def)
  next
    case (Suc n)
    then show ?case using segment_pool_init_ok[of env n _ mok st'] by (auto simp: for_each_append split: bind_splits)
  qed
  then show ?thesis using assms(2) by (simp add: StreamTcpReassembleInit_def)
qed

lemma Init_returns:
  assumes "\<And>i k. mok i k"
  shows "\<exists>st'. StreamTcpReassembleInit env mok st = Some st'"
proof -
  have "\<exists>st'. for_each (segment_pool_init env mok) st [0..<n] = Some st'" if "n \<le> 8" for n
    using that
  proof (induction n)
    case (Suc n)
    then obtain st1 where "for_each (segment_pool_init env mok) st [0..<n] = Some st1" by auto
    moreover obtain st2 where "segment_pool_init env mok st1 n = Some st2"
      using segment_pool_init_returns[of n mok env st1, OF _ assms] Suc.prems by auto
    ultimately show ?case by (simp add: for_each_append)
  qed simp
  then show ?thesis by (simp add: StreamTcpReassembleInit_def)
qed

section \<open>The end of a stream\<close>

lemma return_segments_ok:
  assumes "dseg (sg_links (mem st)) q xs None" "distinct xs" "pools_ok env 8 (set xs \<union> others) st" "set xs \<inter> others = {}"
  shows "\<exists>st'. return_segments (first_or xs None) st = Some st' \<and> pools_ok env 8 others st' \<and> same_on others st st'"
  using assms
proof (induction xs arbitrary: q st)
  case Nil
  then show ?case by (simp add: return_segments.simps)
next
  case (Cons a xs)
  obtain st1 where st1: "StreamTcpSegmentReturntoPool a st = Some st1" "pools_ok env 8 (set (a # xs) \<union> others - {a}) st1"
    "same_on (- {a}) st st1"
    using ReturntoPool_ok[OF Cons.prems(3), of a] by auto
  have "set (a # xs) \<union> others - {a} = set xs \<union> others" using Cons.prems(2,4) by auto
  then have ok: "pools_ok env 8 (set xs \<union> others) st1" using st1(2) by simp
  have "sg_links (mem st1) x = sg_links (mem st) x" if "x \<in> set xs" for x
  proof -
    have "x \<noteq> a" using that Cons.prems(2) by auto
    then show ?thesis using st1(3) by (simp add: same_on_def)
  qed
  then have "dseg (sg_links (mem st1)) (Some a) xs None = dseg (sg_links (mem st)) (Some a) xs None"
    by (intro dseg_cong) simp
  then obtain st' where st': "return_segments (first_or xs None) st1 = Some st'" "pools_ok env 8 others st'" "same_on others st1 st'"
    using Cons.IH[of st1 "Some a"] Cons.prems ok by auto
  have "same_on others st st1" using same_on_mono[OF st1(3)] Cons.prems(4) by auto
  then have "same_on others st st'" using st'(3) same_on_trans by blast
  moreover have "next_of a st = first_or xs None" using Cons.prems(1) by (simp add: next_of_def)
  ultimately show ?case using st1(1) st'(1,2) by (subst return_segments.simps) (simp add: Let_def)
qed

lemma ReturnStreamSegments_ok:
  assumes "seg_inv env b others xs stream st"
  shows "\<exists>stream' st'. ReturnStreamSegments stream st = Some (stream', st') \<and> seg_inv env b others [] stream' st' \<and> same_on others st st'"
proof -
  have h: "seg_head stream = first_or xs None" "seg_tail stream = last_or None xs" using assms by (simp_all add: seg_inv_def ends_ok_def)
  obtain st' where st': "return_segments (first_or xs None) st = Some st'" "pools_ok env 8 others st'" "same_on others st st'"
    using return_segments_ok[of st None xs env others] assms by (auto simp: seg_inv_def list_ok_def)
  have nil: "list_ok b [] (mem st')" by (simp add: list_ok_def)
  show ?thesis
  proof (cases xs)
    case Nil
    then show ?thesis using h assms by (simp add: ReturnStreamSegments_def)
  next
    case (Cons a zs)
    then show ?thesis using h st' nil by (simp add: ReturnStreamSegments_def seg_inv_def ends_ok_def)
  qed
qed

section \<open>The streams of the engine\<close>

text \<open>The list of a stream, as a walk over its links; there are at most \<open>n_mallocs\<close> segments.\<close>

fun walk :: "nat \<Rightarrow> addr option \<Rightarrow> store \<Rightarrow> addr list" where
  "walk 0 p k = []"
| "walk (Suc n) p k = (case p of None \<Rightarrow> [] | Some a \<Rightarrow> a # walk n (n_next (k a)) k)"

definition seg_addrs :: "seg_stream \<Rightarrow> seg_state \<Rightarrow> addr list" where
  "seg_addrs stream st = walk (n_mallocs (mem st)) (seg_head stream) (sg_links (mem st))"

lemma walk_dseg: "dseg k q xs None \<Longrightarrow> length xs \<le> n \<Longrightarrow> walk n (first_or xs None) k = xs"
proof (induction xs arbitrary: q n)
  case Nil
  then show ?case by (cases n) simp_all
next
  case (Cons x xs)
  then show ?case by (cases n) auto
qed

lemma seg_addrs_eq:
  assumes "seg_inv env b others xs stream st"
  shows "seg_addrs stream st = xs"
proof -
  have xs: "distinct xs" "dseg (sg_links (mem st)) None xs None" "seg_head stream = first_or xs None"
    and ok: "pools_ok env 8 (set xs \<union> others) st"
    using assms by (simp_all add: seg_inv_def list_ok_def ends_ok_def)
  have "a < n_mallocs (mem st)" if a: "a \<in> set xs" for a
  proof -
    have "shape (mem st) a \<noteq> None" by (rule pools_okD(5)[OF ok]) (use a in simp)
    then show ?thesis using pools_okD(6)[OF ok, of a] by (cases "shape (mem st) a") auto
  qed
  then have "set xs \<subseteq> {0..<n_mallocs (mem st)}" by auto
  then have "length xs \<le> n_mallocs (mem st)"
    using card_mono[of "{0..<n_mallocs (mem st)}" "set xs"] distinct_card[OF xs(1)] by simp
  then show ?thesis using walk_dseg[OF xs(2)] xs(3) by (simp add: seg_addrs_def)
qed

text \<open>
  The streams of the engine share the pools. Every stream \<open>i\<close> has a window of its own, from \<open>base i\<close>, that can
  move forward to the first segment, and anywhere when the list is empty. \<open>ack_near\<close>: an acknowledgement of bytes near
  the window.
\<close>

definition other_segs :: "(nat \<Rightarrow> seg_stream) \<Rightarrow> seg_state \<Rightarrow> nat \<Rightarrow> addr set" where
  "other_segs streams st i = (\<Union>j\<in>- {i}. set (seg_addrs (streams j) st))"

definition engine_ok :: "seg_env \<Rightarrow> (nat \<Rightarrow> u32) \<Rightarrow> (nat \<Rightarrow> seg_stream) \<Rightarrow> seg_state \<Rightarrow> bool" where
  "engine_ok env base streams st \<longleftrightarrow>
     (\<forall>i. seg_inv env (base i) (other_segs streams st i) (seg_addrs (streams i) st) (streams i) st)"

definition ack_near :: "u32 \<Rightarrow> ra_stream \<Rightarrow> bool" where
  "ack_near b stream \<longleftrightarrow> ahead b (r_ra_base_seq stream) \<le> 65535 \<and> ahead b (r_tmp_ra_base_seq stream) \<le> 65535 \<and>
     ahead b (r_last_ack stream) < 2 ^ 30"

inductive engine_reach :: "'g engine \<Rightarrow> seg_env \<Rightarrow> (nat \<Rightarrow> u32) \<Rightarrow> (nat \<Rightarrow> seg_stream) \<Rightarrow> seg_state \<Rightarrow> bool"
  for E env where
  start: "sg (mem st0) = Map.empty \<Longrightarrow> StreamTcpReassembleInit env mok st0 = Some st \<Longrightarrow>
     (\<And>i. seg_head (streams i) = None \<and> seg_tail (streams i) = None) \<Longrightarrow> engine_reach E env base streams st"
| segment: "engine_reach E env base streams st \<Longrightarrow> packet_fits (base i) (p, d) \<Longrightarrow>
     no_overrun (base i) (mem st) (segment_of (p, d)) (seg_addrs (streams i) st) \<Longrightarrow>
     StreamTcpReassembleHandleSegmentHandleData E p d (streams i) st = Some (r, stream', st') \<Longrightarrow>
     engine_reach E env base (streams(i := stream')) st'"
| ack: "engine_reach E env base streams (seg_st w) \<Longrightarrow> segs stream = streams i \<Longrightarrow> queue_ok w \<Longrightarrow> ack_near (base i) stream \<Longrightarrow>
     StreamTcpReassembleHandleSegmentUpdateACK E ts flags p stream w = Some (r, stream', w') \<Longrightarrow>
     engine_reach E env base (streams(i := segs stream')) (seg_st w')"
| clear: "engine_reach E env base streams st \<Longrightarrow> ReturnStreamSegments (streams i) st = Some (stream', st') \<Longrightarrow>
     engine_reach E env base (streams(i := stream')) st'"
| slide: "engine_reach E env base streams st \<Longrightarrow> (\<forall>a\<in>set (seg_addrs (streams i) st). k \<le> pos_of (base i) (mem st) a) \<Longrightarrow>
     engine_reach E env (base(i := base i + of_nat k)) streams st"

lemma engine_update:
  assumes ok: "engine_ok env base streams st" and new: "seg_inv env (base i) (other_segs streams st i) xs' stream' st'"
    and same: "same_on (other_segs streams st i) st st'"
  shows "engine_ok env base (streams(i := stream')) st'"
    "j \<noteq> i \<Longrightarrow> seg_addrs (streams j) st' = seg_addrs (streams j) st"
    "j \<noteq> i \<Longrightarrow> stored (base j) (mem st') (seg_addrs (streams j) st') = stored (base j) (mem st) (seg_addrs (streams j) st)"
proof -
  note inv = ok[unfolded engine_ok_def, rule_format]
  let ?T = "other_segs streams st i"
  define L where "L k = (if k = i then xs' else seg_addrs (streams k) st)" for k
  have sub: "set (seg_addrs (streams j) st) \<subseteq> ?T" if "j \<noteq> i" for j
    using that by (auto simp: other_segs_def)
  have all: "seg_inv env (base j) (\<Union>k\<in>- {j}. set (L k)) (L j) ((streams(i := stream')) j) st'" for j
  proof (cases "j = i")
    case True
    have "(\<Union>k\<in>- {i}. set (L k)) = ?T" by (auto simp: other_segs_def L_def)
    then show ?thesis using new True by (simp add: L_def)
  next
    case False
    have us: "set (L j) \<union> (\<Union>k\<in>- {j}. set (L k)) = set xs' \<union> ?T"
      using False by (auto simp: other_segs_def L_def split: if_splits)
    have "set xs' \<inter> ?T = {}" using new by (simp add: seg_inv_def)
    moreover have "set (seg_addrs (streams j) st) \<inter> set (seg_addrs (streams k) st) = {}" if "k \<noteq> j" for k
      using inv[of j] that by (fastforce simp: seg_inv_def other_segs_def)
    ultimately have dis: "set (L j) \<inter> (\<Union>k\<in>- {j}. set (L k)) = {}"
      using False sub[OF False] by (fastforce simp: L_def split: if_splits)
    have "list_ok (base j) (seg_addrs (streams j) st) (mem st')"
      using inv[of j] list_ok_same[of "base j" "seg_addrs (streams j) st" "mem st" "mem st'"] same_on_mono[OF same sub[OF False]]
      by (simp add: seg_inv_def same_on_def)
    moreover have "pools_ok env 8 (set xs' \<union> ?T) st'" using new by (simp add: seg_inv_def)
    ultimately show ?thesis using us dis inv[of j] False by (simp add: seg_inv_def L_def)
  qed
  have eq: "seg_addrs ((streams(i := stream')) j) st' = L j" for j by (rule seg_addrs_eq[OF all])
  then show "engine_ok env base (streams(i := stream')) st'" using all by (simp add: engine_ok_def other_segs_def)
  show addrs: "seg_addrs (streams j) st' = seg_addrs (streams j) st" if "j \<noteq> i" using eq[of j] that by (simp add: L_def)
  show "stored (base j) (mem st') (seg_addrs (streams j) st') = stored (base j) (mem st) (seg_addrs (streams j) st)" if "j \<noteq> i"
    unfolding addrs[OF that] by (rule stored_cong) (use same sub[OF that] in \<open>auto simp: same_on_def\<close>)
qed

lemma engine_ok_inv: "engine_ok env base streams st \<Longrightarrow>
    seg_inv env (base i) (other_segs streams st i) (seg_addrs (streams i) st) (streams i) st"
  by (simp add: engine_ok_def)

text \<open>A window that starts later.\<close>

lemma ahead_slide:
  assumes "k \<le> ahead b x"
  shows "ahead (b + of_nat k) x = ahead b x - k"
proof -
  have "x - (b + of_nat k) = of_nat (ahead b x - k)" using assms by (simp add: ahead_def of_nat_diff algebra_simps)
  moreover have "ahead b x - k < 2 ^ 32" using unat_bound[of "x - b"] by (simp add: ahead_def)
  ultimately show ?thesis unfolding ahead_def[of "b + of_nat k"] by (simp add: unat_of_nat del: of_nat_diff)
qed

lemma chain_slide:
  "chain P Q lo xs hi \<Longrightarrow> (\<And>x. x \<in> set xs \<Longrightarrow> k \<le> P x \<and> P' x = P x - k \<and> Q' x = Q x - k) \<Longrightarrow> chain P' Q' (lo - k) xs hi"
proof (induction xs arbitrary: lo)
  case (Cons a xs)
  have a: "k \<le> P a" "P' a = P a - k" "Q' a = Q a - k" using Cons.prems(2)[of a] by simp_all
  have c: "lo \<le> P a" "P a < Q a" "chain P Q (Q a) xs hi" using Cons.prems(1) by simp_all
  have "chain P' Q' (Q a - k) xs hi" by (rule Cons.IH[OF c(3)]) (rule Cons.prems(2), simp)
  then show ?case using a c(1,2) by (simp add: diff_le_mono diff_less_mono)
qed simp

lemma seg_inv_slide:
  assumes inv: "seg_inv env b others xs stream st" and k: "\<And>a. a \<in> set xs \<Longrightarrow> k \<le> pos_of b (mem st) a"
  shows "seg_inv env (b + of_nat k) others xs stream st"
proof -
  let ?c = "b + of_nat k"
  have ok: "chain (pos_of b (mem st)) (end_of b (mem st)) 0 xs 65535" using inv by (simp add: seg_inv_def list_ok_def)
  have "k \<le> pos_of b (mem st) a \<and> pos_of ?c (mem st) a = pos_of b (mem st) a - k \<and> end_of ?c (mem st) a = end_of b (mem st) a - k"
    if "a \<in> set xs" for a
    using k[OF that] ahead_slide[of k b "sg_seq (the (sg (mem st) a))"] by (simp add: pos_of_def end_of_def from_seg_def to_seg_def)
  from chain_slide[OF ok this] have "chain (pos_of ?c (mem st)) (end_of ?c (mem st)) 0 xs 65535" by simp
  then show ?thesis using inv by (simp add: seg_inv_def list_ok_def)
qed

lemma engine_reach_ok: "engine_reach E env base streams st \<Longrightarrow> engine_ok env base streams st"
proof (induction rule: engine_reach.induct)
  case (start st0 mok st streams base)
  have "seg_addrs (streams i) st = []" for i
    using start(3)[of i] by (cases "n_mallocs (mem st)") (simp_all add: seg_addrs_def)
  then show ?case using Init_ok[OF start(1,2)] start(3)
    by (simp add: engine_ok_def seg_inv_def other_segs_def list_ok_def ends_ok_def)
next
  case (segment base streams st i p d r stream' st')
  have fits: "in_window (base i) (packet_segment p d)" "unat (pay_len p) \<le> length d"
    "no_overrun (base i) (mem st) (packet_segment p d) (seg_addrs (streams i) st)"
    using segment(2,3) by (simp_all add: packet_fits_def segment_of_def)
  obtain xs' where "inserted env (base i) (other_segs streams st i) (packet_segment p d) (seg_addrs (streams i) st) st xs' (stream', st')"
    using HandleData_ok[OF engine_ok_inv[OF segment(5)] fits, of E] segment(4) by auto
  then show ?case by (intro engine_update[OF segment(5), of i xs']) (simp_all add: inserted_def)
next
  case (clear base streams st i stream' st')
  show ?case
    using ReturnStreamSegments_ok[OF engine_ok_inv[OF clear(3), of i]] clear(2) by (intro engine_update[OF clear(3)]) auto
next
  case (ack base streams w stream i ts flags p r stream' w')
  have inv: "seg_inv env (base i) (other_segs streams (seg_st w) i) (seg_addrs (streams i) (seg_st w)) (segs stream) (seg_st w)"
    using engine_ok_inv[OF ack(6), of i] ack(2) by simp
  obtain xs' where "acked env (base i) (other_segs streams (seg_st w) i) (seg_addrs (streams i) (seg_st w)) stream w xs' stream' w'"
    using UpdateACK_ok[OF inv ack(3), of E ts flags p] ack(4,5) by (auto simp: ack_near_def)
  then show ?case by (intro engine_update[OF ack(6), of i xs']) (simp_all add: acked_def)
next
  case (slide base streams st i k)
  have "seg_inv env (base i + of_nat k) (other_segs streams st i) (seg_addrs (streams i) st) (streams i) st"
    by (rule seg_inv_slide[OF engine_ok_inv[OF slide(3)]]) (use slide(2) in simp)
  then show ?case using slide(3) by (simp add: engine_ok_def)
qed

text \<open>A packet apart from the bytes of its stream is refused only without memory, and is stored as a whole.\<close>

lemma HandleData_apart_covers:
  assumes inv: "seg_inv env b others xs stream st" and fits: "packet_fits b (p, d)"
    and dis: "covers (pos_of b (mem st)) (end_of b (mem st)) xs \<inter> range_of b (p, d) = {}"
    and h: "StreamTcpReassembleHandleSegmentHandleData E p d stream st = Some (r, stream', st')"
  shows "r = - 1 \<longleftrightarrow> fst (StreamTcpGetSegment (pay_len p) st) = None"
    "r = 0 \<Longrightarrow> covers (pos_of b (mem st')) (end_of b (mem st')) (seg_addrs stream' st') =
      covers (pos_of b (mem st)) (end_of b (mem st)) xs \<union> range_of b (p, d)"
proof -
  have w: "in_window b (packet_segment p d)" "unat (pay_len p) \<le> length d"
    using fits by (simp_all add: packet_fits_def segment_of_def)
  have dis': "covers (pos_of b (mem st)) (end_of b (mem st)) xs \<inter> {from_seg b (packet_segment p d)..<to_seg b (packet_segment p d)} = {}"
    using dis by (simp add: range_of_def segment_of_def)
  have "(r = - 1 \<longleftrightarrow> fst (StreamTcpGetSegment (pay_len p) st) = None) \<and>
    (r = 0 \<longrightarrow> covers (pos_of b (mem st')) (end_of b (mem st')) (seg_addrs stream' st') =
      covers (pos_of b (mem st)) (end_of b (mem st)) xs \<union> range_of b (p, d))"
  proof (cases "fst (StreamTcpGetSegment (pay_len p) st) = None")
    case True
    then show ?thesis using HandleData_no_memory[OF inv True, of E d] h by auto
  next
    case False
    obtain xs' where a: "r = 0" "seg_inv env b others xs' stream' st'"
      "stored b (mem st') xs' = stored b (mem st) xs ++ seg_bytes b (packet_segment p d)"
      using HandleData_apart[OF inv w dis' False, of E] h by auto
    then show ?thesis using False seg_addrs_eq[OF a(2)]
      by (simp add: dom_stored[symmetric] dom_seg_bytes range_of_def segment_of_def Un_commute)
  qed
  then show "r = - 1 \<longleftrightarrow> fst (StreamTcpGetSegment (pay_len p) st) = None"
    "r = 0 \<Longrightarrow> covers (pos_of b (mem st')) (end_of b (mem st')) (seg_addrs stream' st') =
      covers (pos_of b (mem st)) (end_of b (mem st)) xs \<union> range_of b (p, d)" by simp_all
qed

section \<open>An engine for the examples\<close>

text \<open>Memory for everything and pools without segments; packets that carry \<open>data\<close> at \<open>n\<close>.\<close>

definition demo_env :: seg_env where
  "demo_env = \<lparr>memcap = 1000000, malloc_ok = \<lambda>_. True, junk = \<lambda>_ _. 0, sizeof_seg = 64\<rparr>"

definition demo_state :: seg_state where
  "demo_state = \<lparr>segment_pool = \<lambda>i. \<lparr>max_buckets = 0, allocated = 0, alloc_list = [], alloc_list_size = 0, empty_list = [],
       empty_list_size = 0, Alloc = TcpSegmentPoolAlloc demo_env, AllocData = segment_pool_pktsizes ! i,
       Free = Some (TcpSegmentPoolFree demo_env), outstanding = 0, max_outstanding = 0\<rparr>,
     mem = \<lparr>sg = Map.empty, sg_links = \<lambda>_. \<lparr>n_next = None, n_prev = None\<rparr>, n_mallocs = 0, stream_memuse = 0, stream_memuse_max = 0\<rparr>\<rparr>"

definition demo_stream :: "u8 \<Rightarrow> seg_stream" where
  "demo_stream pol = \<lparr>seg_head = None, seg_tail = None, seg_policy = pol\<rparr>"

definition demo_packet :: "u32 \<Rightarrow> bytes \<Rightarrow> TcpPacket \<times> bytes" where
  "demo_packet n data = (\<lparr>th_flags = 16, th_seq = n, th_ack = 1, th_win = 1000, ts_opt = None, ws_opt = None,
     pay_len = of_nat (length data), flowflags = 0, pkt_flags = 0, tv_sec = 0\<rparr>, data)"

definition demo_engine :: "unit engine" where
  "demo_engine = \<lparr>to_server = \<lambda>_. True, to_client = \<lambda>_. False, midstream = False, async_oneside = False,
     host_os = \<lambda>_. None, reassemble = \<lambda>_ _ s. s, app_layer = \<lambda>s. (0, s)\<rparr>"

lemma demo_ok: "seg_inv demo_env b {} [] (demo_stream pol) demo_state"
  by (simp add: seg_inv_def list_ok_def ends_ok_def demo_stream_def demo_state_def pools_ok_def pool_conf_def avail_def shape_def)

text \<open>The segments of the list after some packets, and the results of the calls.\<close>

definition demo_run :: "u8 \<Rightarrow> (TcpPacket \<times> bytes) list \<Rightarrow> (int list \<times> bytes list) option" where
  "demo_run pol ps = do {
     (rs, stream, st) \<leftarrow> deliver demo_engine ps (demo_stream pol) demo_state;
     Some (rs, map (\<lambda>a. seg_text (mem st) [a]) (seg_addrs stream st))
   }"

section \<open>Properties\<close>

text \<open>Claim C3: The states are those that the engine reaches from its start with acknowledgements near the windows
  (\<open>ack_near\<close>), clearings, moved windows and data packets, on any number of streams, where every data packet lies in
  the window of 65535 bytes of its stream (\<open>packet_fits\<close>) and in no position \<open>overrun\<close> to two neighbours of the list.
  That position is excluded because the code does leave its buffer there (\<open>overrun_leaves_buffer\<close> below). For the next
  data packet under the same two conditions, \<open>HandleData\<close> ends without an access outside of a buffer and returns 0 or
  -1. Afterwards the segments of every stream are again a doubly linked list from head to tail in the order of their
  sequence numbers, without overlap, no segment is lost or in two places, the other streams have their bytes, the
  bytes that the stream covered are still covered and nothing but the packet's range is added. A packet apart from
  the covered bytes is refused only when its pool has no segment for it, and else its whole range is covered.\<close>

theorem tcp_segments_stay_ordered:
  assumes "engine_reach E env base streams st" "packet_fits (base i) (p, d)"
    and "no_overrun (base i) (mem st) (segment_of (p, d)) (seg_addrs (streams i) st)"
  shows "\<exists>r stream' st'. StreamTcpReassembleHandleSegmentHandleData E p d (streams i) st = Some (r, stream', st') \<and>
    (r = 0 \<or> r = - 1) \<and> engine_ok env base (streams(i := stream')) st' \<and>
    (\<forall>j. j \<noteq> i \<longrightarrow> stored (base j) (mem st') (seg_addrs (streams j) st') = stored (base j) (mem st) (seg_addrs (streams j) st)) \<and>
    covers (pos_of (base i) (mem st)) (end_of (base i) (mem st)) (seg_addrs (streams i) st) \<subseteq>
      covers (pos_of (base i) (mem st')) (end_of (base i) (mem st')) (seg_addrs stream' st') \<and>
    covers (pos_of (base i) (mem st')) (end_of (base i) (mem st')) (seg_addrs stream' st') \<subseteq>
      covers (pos_of (base i) (mem st)) (end_of (base i) (mem st)) (seg_addrs (streams i) st) \<union> range_of (base i) (p, d) \<and>
    (covers (pos_of (base i) (mem st)) (end_of (base i) (mem st)) (seg_addrs (streams i) st) \<inter> range_of (base i) (p, d) = {} \<longrightarrow>
      (r = - 1 \<longleftrightarrow> fst (StreamTcpGetSegment (pay_len p) st) = None) \<and>
      (r = 0 \<longrightarrow> covers (pos_of (base i) (mem st')) (end_of (base i) (mem st')) (seg_addrs stream' st') =
        covers (pos_of (base i) (mem st)) (end_of (base i) (mem st)) (seg_addrs (streams i) st) \<union> range_of (base i) (p, d)))"
proof -
  have ok: "engine_ok env base streams st" using engine_reach_ok[OF assms(1)] .
  have fits: "in_window (base i) (packet_segment p d)" "unat (pay_len p) \<le> length d"
    "no_overrun (base i) (mem st) (packet_segment p d) (seg_addrs (streams i) st)"
    using assms(2,3) by (simp_all add: packet_fits_def segment_of_def)
  obtain r stream' st' xs' where h: "StreamTcpReassembleHandleSegmentHandleData E p d (streams i) st = Some (r, stream', st')"
    "r = 0 \<or> r = - 1" "inserted env (base i) (other_segs streams st i) (packet_segment p d) (seg_addrs (streams i) st) st xs' (stream', st')"
    using HandleData_ok[OF engine_ok_inv[OF ok] fits, of E] by blast
  have new: "seg_inv env (base i) (other_segs streams st i) xs' stream' st'" and same: "same_on (other_segs streams st i) st st'"
    using h(3) by (simp_all add: inserted_def)
  have ok': "engine_ok env base (streams(i := stream')) st'" by (rule engine_update(1)[OF ok new same])
  have "seg_addrs stream' st' = xs'" by (rule seg_addrs_eq[OF new])
  moreover have "stored (base j) (mem st') (seg_addrs (streams j) st') = stored (base j) (mem st) (seg_addrs (streams j) st)"
    if "j \<noteq> i" for j
    using engine_update(3)[OF ok new same that] .
  moreover note HandleData_apart_covers[OF engine_ok_inv[OF ok] assms(2) _ h(1)]
  ultimately show ?thesis using h ok' by (auto simp: inserted_def range_of_def segment_of_def)
qed

lemma tcp_segments_stay_ordered_witness:
  "\<exists>st r stream' st'. StreamTcpReassembleInit demo_env (\<lambda>_ _. True) demo_state = Some st \<and>
     StreamTcpReassembleHandleSegmentHandleData demo_engine (fst (demo_packet 100 [1, 2, 3])) [1, 2, 3] (demo_stream 5) st = Some (r, stream', st') \<and>
     (r = 0 \<or> r = - 1) \<and> engine_ok demo_env (\<lambda>_. 90) ((\<lambda>_. demo_stream 5)(7 := stream')) st'"
proof -
  obtain st where st: "StreamTcpReassembleInit demo_env (\<lambda>_ _. True) demo_state = Some st"
    using Init_returns[of "\<lambda>_ _. True"] by auto
  have "engine_reach demo_engine demo_env (\<lambda>_. 90) (\<lambda>_. demo_stream 5) st"
    by (rule engine_reach.start[OF _ st]) (simp_all add: demo_state_def demo_stream_def)
  moreover have "seg_addrs (demo_stream 5) st = []"
    by (cases "n_mallocs (mem st)") (simp_all add: seg_addrs_def demo_stream_def)
  moreover have "packet_fits 90 (fst (demo_packet 100 [1, 2, 3]), [1, 2, 3])"
    by (simp add: packet_fits_def in_window_def from_seg_def to_seg_def segment_of_def packet_segment_def demo_packet_def ahead_def)
  ultimately show ?thesis
    using tcp_segments_stay_ordered[of demo_engine demo_env "\<lambda>_. 90" "\<lambda>_. demo_stream 5" st 7 "fst (demo_packet 100 [1, 2, 3])" "[1, 2, 3]"] st
    by auto
qed

text \<open>Claim C8: The packets of an empty stream carry the parts of a text (at most 65535 bytes from the start of the
  window), each byte in one of them, in any order. \<open>HandleData\<close> returns for all of them, 0 when it inserts the packet
  and -1 when the pool for its size has no segment for it (\<open>no_segment\<close>), and for no other reason; with memory for
  that many segments (\<open>room\<close>) all are inserted. When none was refused, the payloads of the segments in the order of
  the list are the text.\<close>

theorem tcp_out_of_order_text:
  assumes "seg_inv env b others [] stream st" "\<forall>pd\<in>set ps. carries b bs pd" "apart b ps"
    and "(\<Union>pd\<in>set ps. range_of b pd) = {0..<length bs}"
  shows "\<exists>rs stream' st'. deliver E ps stream st = Some (rs, stream', st') \<and> length rs = length ps \<and>
    rs = map (\<lambda>n. if n then - 1 else 0) (no_segment E ps stream st) \<and> (room env (length ps) st \<longrightarrow> - 1 \<notin> set rs) \<and>
    (- 1 \<notin> set rs \<longrightarrow> seg_text (mem st') (seg_addrs stream' st') = bs)"
proof -
  obtain rs stream' st' xs' where d: "deliver E ps stream st = Some (rs, stream', st')" "length rs = length ps"
    "seg_inv env b others xs' stream' st'" "- 1 \<notin> set rs \<longrightarrow> seg_text (mem st') xs' = bs"
    "rs = map (\<lambda>n. if n then - 1 else 0) (no_segment E ps stream st)" "room env (length ps) st \<longrightarrow> - 1 \<notin> set rs"
    using out_of_order_text[OF assms, of E] by blast
  have "- 1 \<notin> set rs \<longrightarrow> seg_text (mem st') (seg_addrs stream' st') = bs" using d(4) seg_addrs_eq[OF d(3)] by simp
  then show ?thesis using d(1,2,5,6) by blast
qed

lemma demo_room: "k \<le> 15 \<Longrightarrow> room demo_env k demo_state"
  by (simp add: room_def demo_env_def demo_state_def)

lemma demo_out_of_order:
  "map_option fst (deliver demo_engine [demo_packet 104 [5, 6, 7], demo_packet 100 [1, 2], demo_packet 102 [3, 4]] (demo_stream 5) demo_state)
     = Some [0, 0, 0]"
  by code_simp

lemma tcp_out_of_order_text_witness:
  "\<exists>stream' st'. deliver demo_engine [demo_packet 104 [5, 6, 7], demo_packet 100 [1, 2], demo_packet 102 [3, 4]] (demo_stream 5) demo_state
       = Some ([0, 0, 0], stream', st') \<and> seg_text (mem st') (seg_addrs stream' st') = [1, 2, 3, 4, 5, 6, 7]"
proof -
  let ?ps = "[demo_packet 104 [5, 6, 7], demo_packet 100 [1, 2], demo_packet 102 [3, 4]]" and ?bs = "[1, 2, 3, 4, 5, 6, 7] :: bytes"
  have r: "range_of 100 (demo_packet 104 [5, 6, 7]) = {4..<7}" "range_of 100 (demo_packet 100 [1, 2]) = {0..<Suc (Suc 0)}"
    "range_of 100 (demo_packet 102 [3, 4]) = {2..<4}"
    by (simp_all add: range_of_def from_seg_def to_seg_def segment_of_def packet_segment_def demo_packet_def ahead_def)
  have "\<forall>pd\<in>set ?ps. carries 100 ?bs pd"
    by (simp add: carries_def packet_fits_def in_window_def from_seg_def to_seg_def segment_of_def packet_segment_def demo_packet_def ahead_def)
  moreover have "apart 100 ?ps" by (simp add: apart_def r)
  moreover have "(\<Union>pd\<in>set ?ps. range_of 100 pd) = {0..<length ?bs}" by (auto simp: r)
  ultimately show ?thesis
    using tcp_out_of_order_text[OF demo_ok, of ?ps 100 ?bs demo_engine 5] demo_out_of_order demo_room[of "length ?ps"] by auto
qed




section \<open>Overlaps that lose or change bytes\<close>

text \<open>
  The gap behind \<open>[100, 103)\<close> gets the first bytes of the new segment instead of its last ones; behind the last
  segment nothing is filled at all when the new one starts after it; and with \<open>overrun\<close> a copy leaves its buffer.
\<close>

lemma gap_gets_first_bytes:
  "demo_run 5 [demo_packet 100 [1, 2, 3], demo_packet 100 [1, 2, 3, 4, 5]] = Some ([0, 0], [[1, 2, 3], [1, 2]])"
  by code_simp

lemma tail_is_lost:
  "demo_run 5 [demo_packet 100 [1, 2, 3], demo_packet 101 [2, 3, 4, 5]] = Some ([0, 0], [[1, 2, 3]])"
  by code_simp

lemma overrun_leaves_buffer:
  "demo_run 5 [demo_packet 101 [2, 3], demo_packet 105 [6, 7], demo_packet 100 [1, 2, 3, 4, 5, 6, 7]] = None"
  by code_simp

end
