(* ===== verification/StreamTcpReassembleText.thy ===== *)
theory StreamTcpReassembleText
  imports StreamTcpReassembleAck
begin

text \<open>
  What an acknowledgement gives to the application layer (\<open>src/stream-tcp-reassemble.c\<close>), when the protocol is
  known and the acknowledged segments were not delivered before: their bytes, with the missing ones announced.
\<close>

section \<open>The specification\<close>

text \<open>\<open>X\<close> is the position of the next byte; a segment is its position and its bytes.\<close>

fun acked_items :: "nat \<Rightarrow> (nat \<times> bytes) list \<Rightarrow> stream_item list" where
  "acked_items X [] = []"
| "acked_items X ((P, d) # ss) = gap_items X P @ map Byte d @ acked_items (P + length d) ss"

definition seg_data :: "TcpSegment \<Rightarrow> bytes" where
  "seg_data sgm = take (unat (payload_len sgm)) (payload sgm)"

definition pieces :: "u32 \<Rightarrow> seg_mem \<Rightarrow> addr list \<Rightarrow> (nat \<times> bytes) list" where
  "pieces b m xs = map (\<lambda>a. (pos_of b m a, seg_data (the (sg m a)))) xs"

lemma pieces_simps [simp]: "pieces b m [] = []"
  "sg m a = Some sgm \<Longrightarrow> pieces b m (a # xs) = (from_seg b sgm, seg_data sgm) # pieces b m xs"
  by (simp_all add: pieces_def)

lemma pieces_cong: "(\<And>c. c \<in> set xs \<Longrightarrow> sg m c = sg m' c) \<Longrightarrow> pieces b m xs = pieces b m' xs"
  by (simp add: pieces_def pos_of_def)

text \<open>Segments that no call has seen, and that are acknowledged as a whole.\<close>

definition unseen :: "seg_mem \<Rightarrow> addr \<Rightarrow> bool" where
  "unseen m a \<longleftrightarrow> (\<exists>s. sg m a = Some s \<and> sg_flags s AND SEGMENTTCP_FLAG_PROCESSED = 0)"

section \<open>One segment\<close>

lemma ack_new_step:
  assumes ok: "ack_ok env b others (a # zs) s" "near b s" and e: "done_detection e"
    and sgm: "sg (mem (seg_st (wrld s))) a = Some sgm" "sg_flags sgm AND SEGMENTTCP_FLAG_PROCESSED = 0"
    and B: "ahead b (base_seq s) < from_seg b sgm" "ahead b (exp_seq s) = ahead b (base_seq s) + 1"
    and A: "to_seg b sgm \<le> ahead b (r_last_ack (strm s))"
  shows "\<exists>r. ack_step e a s = Some r \<and> (case r of
      Inl s' \<Rightarrow> ack_after env b others (a # zs) s (a # zs) s' \<and> ran_out (wrld s) (wrld s') \<and> smsg s' = None \<and>
        prefix (emitted (wrld s')) (said s @ gap_items (ahead b (exp_seq s)) (from_seg b sgm) @ map Byte (seg_data sgm))
    | Inr (p, s') \<Rightarrow> p = first_or zs None \<and> ack_after env b others (a # zs) s zs s' \<and> near b s' \<and> settled e s' \<and>
        said s' = said s @ gap_items (ahead b (exp_seq s)) (from_seg b sgm) @ map Byte (seg_data sgm) \<and>
        ahead b (exp_seq s') = to_seg b sgm \<and> ahead b (base_seq s') + 1 = to_seg b sgm \<and>
        (\<forall>c. c \<noteq> a \<longrightarrow> sg (mem (seg_st (wrld s'))) c = sg (mem (seg_st (wrld s))) c))"
proof -
  have inv: "seg_inv env b others ([] @ a # zs) (segs (strm s)) (seg_st (wrld s))" and m: "msgs_ok s"
    using ok(1) by (simp_all add: ack_ok_def)
  have w: "in_window b sgm" "unat (payload_len sgm) \<le> length (payload sgm)" "next_of a (seg_st (wrld s)) = first_or zs None"
    using seg_inv_at[OF inv] sgm(1) by auto
  let ?P = "from_seg b sgm" and ?Q = "to_seg b sgm" and ?B = "ahead b (base_seq s)" and ?A = "ahead b (r_last_ack (strm s))"
  have P: "?P < ?Q" "?Q \<le> 65535" "?Q = ?P + unat (payload_len sgm)" "?P < ?A"
    using w(1) A by (simp_all add: in_window_def from_seg_def to_seg_def)
  have N: "?B \<le> 65535" "?A < 2 ^ 30" using ok(2) by (simp_all add: near_def)
  have old: "\<not> (SEQ_LEQ (seg_end sgm) (base_seq s + 1) \<or> SEQ_LEQ (r_last_ack (strm s)) (base_seq s + (base_seq s - sg_seq sgm)))"
    using before_guard[OF w(1) N(1)] overlap_guard(2)[OF w(1) N(1,2) P(4) B(1)] B(1) P(1) by simp
  have run: "ack_step e a s = do {
       r \<leftarrow> deliver_seg e sgm s;
       case r of Inl s \<Rightarrow> Some (Inl s) | Inr s \<Rightarrow> map_option Inr (finish_seg e a (first_or zs None) (s\<lparr>exp_seq := seg_end sgm\<rparr>))
     }"
    unfolding ack_step_def sgm(1) w(3) Let_def Option.bind.simps if_not_P[OF old] using sgm(2) by simp
  have F: "deliver_from ?B (ahead b (exp_seq s)) ?P = ?P - 1" using B by (auto simp: deliver_from_def)
  have pre: "?A < 2 ^ 31" "?B < ?Q" "ahead b (exp_seq s) < 2 ^ 31" "?P < ?B \<Longrightarrow> ?B < ?A" using N B P by simp_all
  obtain r k where r: "deliver_seg e sgm s = Some r" "min ?A ?Q \<le> k + max (?P - 1) ?P" "k + max (?P - 1) ?P \<le> ?Q"
    "adds s (gap_items (ahead b (exp_seq s)) ?P @ map Byte (take k (drop (?P - 1 - ?P) (payload sgm)))) r"
    "\<forall>s'. r = Inr s' \<longrightarrow> ahead b (base_seq s') = ?P - 1 + k \<and> settled e s'"
    using deliver_seg_ok[OF m w(1,2) pre(1) P(4) pre(2,4,3), of e] unfolding F by blast
  have k: "k = unat (payload_len sgm)" using r(2,3) A P by simp
  have ad: "adds s (gap_items (ahead b (exp_seq s)) ?P @ map Byte (seg_data sgm)) r" using r(4) by (simp add: k seg_data_def)
  show ?thesis
  proof (cases r)
    case (Inl s')
    then have "ack_after env b others (a # zs) s (a # zs) s'" using adds_after[OF ok(1) ad] by blast
    then show ?thesis using run r(1) Inl ad by (simp add: adds_def)
  next
    case (Inr t)
    have t: "ack_after env b others (a # zs) s (a # zs) t" "said t = said s @ gap_items (ahead b (exp_seq s)) ?P @ map Byte (seg_data sgm)"
      "ahead b (base_seq t) + 1 = ?Q" "settled e t" "seg_st (wrld t) = seg_st (wrld s)"
      using adds_after[OF ok(1) ad] ad r(5) Inr k P B by (auto simp: adds_def only_msgs_def)
    let ?t = "t\<lparr>exp_seq := seg_end sgm\<rparr>"
    have t': "ack_after env b others (a # zs) s (a # zs) ?t" "ack_ok env b others ([] @ a # zs) ?t" "said ?t = said t" "settled e ?t"
      using t by (simp_all add: ack_after_def ack_ok_def ack_kept_def msgs_ok_def said_def settled_def)
    obtain s' where d: "drop_seg unlink_head a ?t = Some s'" "ack_ok env b others zs s'" "ack_kept others ?t s'"
      "base_seq s' = base_seq ?t" "exp_seq s' = exp_seq ?t" "said s' = said ?t" "settled e s'"
      "\<forall>c. c \<noteq> a \<longrightarrow> sg (mem (seg_st (wrld s'))) c = sg (mem (seg_st (wrld ?t))) c"
      using drop_pass[OF t'(2), of unlink_head] t'(4) by auto
    have "a \<notin> set zs" using ok(1) by (auto simp: ack_ok_def seg_inv_def list_ok_def)
    then have "\<forall>c\<in>set zs. same_seg (seg_st (wrld ?t)) (seg_st (wrld s')) c" using d(8) by (auto intro: same_seg_eq)
    then have "ack_after env b others (a # zs) ?t zs s'" using d subseq_remove[of "[]" zs a] by (simp add: ack_after_def)
    from ack_after_trans[OF t'(1) this] have after: "ack_after env b others (a # zs) s zs s'" .
    then have "near b s'" using d(4,5) t(3) P ahead_seg_end[OF w(1)] N by (simp add: near_def ack_after_def ack_kept_def)
    moreover have "ack_step e a s = Some (Inr (first_or zs None, s'))" using run r(1) Inr d(1) e by (simp add: finish_seg_def)
    ultimately show ?thesis using after d t t'(3) ahead_seg_end[OF w(1)] by simp
  qed
qed

section \<open>All acknowledged segments\<close>

lemma ack_new_loop:
  assumes "ack_ok env b others (us @ zs) s" "near b s" "done_detection e" "settled e s"
    and "\<forall>a\<in>set us. ahead b (base_seq s) < pos_of b (mem (seg_st (wrld s))) a \<and>
      end_of b (mem (seg_st (wrld s))) a \<le> ahead b (r_last_ack (strm s)) \<and> unseen (mem (seg_st (wrld s))) a"
    and "\<forall>a\<in>set zs. ahead b (r_last_ack (strm s)) \<le> pos_of b (mem (seg_st (wrld s))) a"
    and "ahead b (exp_seq s) = ahead b (base_seq s) + 1"
  shows "\<exists>r. ack_loop e (first_or (us @ zs) None) s = Some r \<and> (case r of
      Inl s' \<Rightarrow> (\<exists>xs'. ack_after env b others (us @ zs) s xs' s') \<and> ran_out (wrld s) (wrld s') \<and>
        prefix (emitted (wrld s')) (said s @ acked_items (ahead b (exp_seq s)) (pieces b (mem (seg_st (wrld s))) us))
    | Inr s' \<Rightarrow> ack_after env b others (us @ zs) s zs s' \<and> settled e s' \<and>
        said s' = said s @ acked_items (ahead b (exp_seq s)) (pieces b (mem (seg_st (wrld s))) us) \<and>
        ahead b (base_seq s') + 1 = endp (end_of b (mem (seg_st (wrld s)))) (ahead b (base_seq s) + 1) us)"
  using assms
proof (induction us arbitrary: s)
  case Nil
  have self: "ack_after env b others zs s zs s" using Nil.prems(1) by (simp add: ack_after_def)
  show ?case
  proof (cases zs)
    case Nil
    then show ?thesis using self Nil.prems by (simp add: ack_loop.simps[of e None])
  next
    case (Cons a zs')
    have "seg_inv env b others ([] @ a # zs') (segs (strm s)) (seg_st (wrld s))" using Nil.prems(1) Cons by (simp add: ack_ok_def)
    then obtain sgm where sgm: "sg (mem (seg_st (wrld s))) a = Some sgm" "in_window b sgm" using seg_inv_at by metis
    have "\<not> SEQ_LT (sg_seq sgm) (r_last_ack (strm s))"
      using SEQ_at(1)[of b "sg_seq sgm" "r_last_ack (strm s)"] sgm Nil.prems(2,6) Cons by (simp add: near_def in_window_def from_seg_def to_seg_def)
    then have "ack_loop e (Some a) s = Some (Inr s)" using sgm(1) by (simp add: ack_loop.simps[of e "Some a"])
    then show ?thesis using self Cons Nil.prems by simp
  qed
next
  case (Cons a us)
  let ?m = "mem (seg_st (wrld s))"
  have inv: "seg_inv env b others ([] @ a # us @ zs) (segs (strm s)) (seg_st (wrld s))" using Cons.prems(1) by (simp add: ack_ok_def)
  obtain sgm where sgm: "sg ?m a = Some sgm" "in_window b sgm" "unat (payload_len sgm) \<le> length (payload sgm)" using seg_inv_at[OF inv] by metis
  have P: "ahead b (base_seq s) < from_seg b sgm" "to_seg b sgm \<le> ahead b (r_last_ack (strm s))" "sg_flags sgm AND SEGMENTTCP_FLAG_PROCESSED = 0"
    using Cons.prems(5) sgm(1) by (auto simp: unseen_def)
  have lt: "SEQ_LT (sg_seq sgm) (r_last_ack (strm s))"
    using SEQ_at(1)[of b "sg_seq sgm" "r_last_ack (strm s)"] sgm(2) P(2) Cons.prems(2) by (simp add: near_def in_window_def from_seg_def to_seg_def)
  obtain r where r: "ack_step e a s = Some r" "case r of
      Inl s' \<Rightarrow> ack_after env b others (a # us @ zs) s (a # us @ zs) s' \<and> ran_out (wrld s) (wrld s') \<and> smsg s' = None \<and>
        prefix (emitted (wrld s')) (said s @ gap_items (ahead b (exp_seq s)) (from_seg b sgm) @ map Byte (seg_data sgm))
    | Inr (p, s') \<Rightarrow> p = first_or (us @ zs) None \<and> ack_after env b others (a # us @ zs) s (us @ zs) s' \<and> near b s' \<and> settled e s' \<and>
        said s' = said s @ gap_items (ahead b (exp_seq s)) (from_seg b sgm) @ map Byte (seg_data sgm) \<and>
        ahead b (exp_seq s') = to_seg b sgm \<and> ahead b (base_seq s') + 1 = to_seg b sgm \<and>
        (\<forall>c. c \<noteq> a \<longrightarrow> sg (mem (seg_st (wrld s'))) c = sg ?m c)"
    using ack_new_step[OF _ Cons.prems(2,3) sgm(1) P(3,1) Cons.prems(7) P(2), of env others "us @ zs"] Cons.prems(1) by auto
  have run: "ack_loop e (Some a) s = (case r of Inl s \<Rightarrow> Some (Inl s) | Inr (p, s) \<Rightarrow> ack_loop e p s)"
    using sgm(1) lt r(1) by (subst ack_loop.simps) simp
  have items: "acked_items (ahead b (exp_seq s)) (pieces b ?m (a # us)) =
      gap_items (ahead b (exp_seq s)) (from_seg b sgm) @ map Byte (seg_data sgm) @ acked_items (to_seg b sgm) (pieces b ?m us)"
    using sgm by (simp add: seg_data_def to_seg_def from_seg_def)
  show ?case
  proof (cases r)
    case (Inl s')
    then show ?thesis using run r(2) items
      prefix_prefix[of "emitted (wrld s')" "said s @ gap_items (ahead b (exp_seq s)) (from_seg b sgm) @ map Byte (seg_data sgm)"
        "acked_items (to_seg b sgm) (pieces b ?m us)"] by auto
  next
    case (Inr ps)
    obtain p t where pt: "ps = (p, t)" by fastforce
    have t: "p = first_or (us @ zs) None" "ack_after env b others (a # us @ zs) s (us @ zs) t" "near b t" "settled e t"
        "said t = said s @ gap_items (ahead b (exp_seq s)) (from_seg b sgm) @ map Byte (seg_data sgm)"
        "ahead b (exp_seq t) = to_seg b sgm" "ahead b (base_seq t) + 1 = to_seg b sgm"
        "\<forall>c. c \<noteq> a \<longrightarrow> sg (mem (seg_st (wrld t))) c = sg ?m c"
      using r(2) unfolding Inr pt by simp_all
    let ?n = "mem (seg_st (wrld t))"
    have ack: "r_last_ack (strm t) = r_last_ack (strm s)" using t(2) by (simp add: ack_after_def ack_kept_def)
    have ch: "chain (pos_of b ?m) (end_of b ?m) 0 (a # us @ zs) 65535" "a \<notin> set (us @ zs)"
      using inv by (auto simp: seg_inv_def list_ok_def)
    have same: "sg ?n c = sg ?m c" if "c \<in> set (us @ zs)" for c using t(8) that ch(2) by auto
    have behind: "to_seg b sgm \<le> pos_of b ?m c" if "c \<in> set us" for c
      using ch(1) sgm(1) chain_mem[of "pos_of b ?m" "end_of b ?m" "to_seg b sgm" "us @ zs" 65535 c] that by simp
    have us: "\<forall>c\<in>set us. ahead b (base_seq t) < pos_of b ?n c \<and> end_of b ?n c \<le> ahead b (r_last_ack (strm t)) \<and> unseen ?n c"
      using Cons.prems(5) same behind t(7) by (fastforce simp: ack unseen_def pos_of_def end_of_def)
    have zs: "\<forall>c\<in>set zs. ahead b (r_last_ack (strm t)) \<le> pos_of b ?n c"
      using Cons.prems(6) same by (simp add: ack pos_of_def)
    have ok: "ack_ok env b others (us @ zs) t" using t(2) by (simp add: ack_after_def)
    have pc: "pieces b ?n us = pieces b ?m us" by (rule pieces_cong) (simp add: same)
    have en: "endp (end_of b ?n) x us = endp (end_of b ?m) x us" for x using same by (auto simp: endp_def end_of_def)
    have X: "ahead b (exp_seq t) = ahead b (base_seq t) + 1" using t(6,7) by simp
    from Cons.IH[OF ok t(3) Cons.prems(3) t(4) us zs X, unfolded t(6,7) pc en]
    obtain r' where r': "ack_loop e (first_or (us @ zs) None) t = Some r'" "case r' of
      Inl s' \<Rightarrow> (\<exists>xs'. ack_after env b others (us @ zs) t xs' s') \<and> ran_out (wrld t) (wrld s') \<and>
        prefix (emitted (wrld s')) (said t @ acked_items (to_seg b sgm) (pieces b ?m us))
    | Inr s' \<Rightarrow> ack_after env b others (us @ zs) t zs s' \<and> settled e s' \<and>
        said s' = said t @ acked_items (to_seg b sgm) (pieces b ?m us) \<and>
        ahead b (base_seq s') + 1 = endp (end_of b ?m) (to_seg b sgm) us"
      by blast
    have "ack_loop e (Some a) s = Some r'" using run Inr pt t(1) r'(1) by simp
    moreover have "endp (end_of b ?m) x (a # us) = endp (end_of b ?m) (to_seg b sgm) us" for x using sgm(1) by simp
    moreover have "ran_out (wrld s) (wrld s')" if "ran_out (wrld t) (wrld s')" for s'
      using ran_out_trans[OF _ that] t(2) by (simp add: ack_after_def ack_kept_def)
    ultimately show ?thesis using r'(2) items t(5) ack_after_trans[OF t(2)] by (auto split: sum.splits)
  qed
qed

section \<open>The call\<close>

lemma reassemble_new:
  assumes inv: "seg_inv env b others (us @ zs) (segs stream) (seg_st w)" and q: "queue_ok w"
    and e: "done_detection e" and base: "r_ra_base_seq stream = base"
    and pos: "ahead b base \<le> 65535" "ahead b (r_last_ack stream) < 2 ^ 30"
    and us: "\<forall>a\<in>set us. ahead b base < pos_of b (mem (seg_st w)) a \<and>
      end_of b (mem (seg_st w)) a \<le> ahead b (r_last_ack stream) \<and> unseen (mem (seg_st w)) a"
    and zs: "\<forall>a\<in>set zs. ahead b (r_last_ack stream) \<le> pos_of b (mem (seg_st w)) a"
  shows "\<exists>r stream' w'. reassemble_acked e base stream w = Some (r, stream', w') \<and>
    (r = 0 \<and> acked env b others (us @ zs) stream w zs stream' w' \<and>
       emitted w' = emitted w @ acked_items (ahead b base + 1) (pieces b (mem (seg_st w)) us) \<and>
       ahead b (r_ra_base_seq stream') + 1 = endp (end_of b (mem (seg_st w))) (ahead b base + 1) us \<or>
     r = - 1 \<and> ran_out w w' \<and> (\<exists>xs'. acked env b others (us @ zs) stream w xs' stream' w') \<and>
       prefix (emitted w') (emitted w @ acked_items (ahead b base + 1) (pieces b (mem (seg_st w)) us)))"
proof -
  let ?s = "\<lparr>strm = stream, wrld = w, smsg = None, smsg_offset = 0, exp_seq = base + 1, base_seq = base\<rparr>"
  have ok: "ack_ok env b others (us @ zs) ?s" "near b ?s" "settled e ?s" "ahead b (exp_seq ?s) = ahead b (base_seq ?s) + 1"
    using inv q pos base ahead_next[OF pos(1)] by (simp_all add: ack_ok_def near_def msgs_ok_def settled_def)
  have head: "seg_head (segs stream) = first_or (us @ zs) None" using inv by (simp add: seg_inv_def ends_ok_def)
  have say: "said ?s = emitted w" "wrld ?s = w" "base_seq ?s = base" by (simp_all add: said_def)
  have new: "\<exists>r. ack_loop e (first_or (us @ zs) None) ?s = Some r \<and> (case r of
      Inl s' \<Rightarrow> (\<exists>xs'. ack_after env b others (us @ zs) ?s xs' s') \<and> ran_out (wrld ?s) (wrld s') \<and>
        prefix (emitted (wrld s')) (said ?s @ acked_items (ahead b (exp_seq ?s)) (pieces b (mem (seg_st (wrld ?s))) us))
    | Inr s' \<Rightarrow> ack_after env b others (us @ zs) ?s zs s' \<and> settled e s' \<and>
        said s' = said ?s @ acked_items (ahead b (exp_seq ?s)) (pieces b (mem (seg_st (wrld ?s))) us) \<and>
        ahead b (base_seq s') + 1 = endp (end_of b (mem (seg_st (wrld ?s)))) (ahead b (base_seq ?s) + 1) us)"
    by (rule ack_new_loop[OF ok(1,2) e ok(3) _ _ ok(4)]) (use us zs in simp_all)
  from this[unfolded say ok(4)] obtain r where r: "ack_loop e (seg_head (segs stream)) ?s = Some r" "case r of
      Inl s' \<Rightarrow> (\<exists>xs'. ack_after env b others (us @ zs) ?s xs' s') \<and> ran_out w (wrld s') \<and>
        prefix (emitted (wrld s')) (emitted w @ acked_items (ahead b base + 1) (pieces b (mem (seg_st w)) us))
    | Inr s' \<Rightarrow> ack_after env b others (us @ zs) ?s zs s' \<and> settled e s' \<and>
        said s' = emitted w @ acked_items (ahead b base + 1) (pieces b (mem (seg_st w)) us) \<and>
        ahead b (base_seq s') + 1 = endp (end_of b (mem (seg_st w))) (ahead b base + 1) us"
    unfolding head by blast
  have run: "reassemble_acked e base stream w = (case r of Inl s \<Rightarrow> Some (- 1, strm s, wrld s)
      | Inr s \<Rightarrow> let s = (case smsg s of None \<Rightarrow> s | Some m \<Rightarrow> queue_smsg e m s) in Some (0, strm s, wrld s))"
    using r(1) by (simp add: reassemble_acked_def)
  have to_acked: "acked env b others (us @ zs) stream w xs' (strm t) (wrld t)"
    if "ack_after env b others (us @ zs) ?s xs' s'" "only_msgs s' t" "queue_ok (wrld t)" for xs' s' t
    using that by (auto simp: acked_def ack_after_def ack_ok_def ack_kept_def only_msgs_def dest: grown_trans)
  show ?thesis
  proof (cases r)
    case (Inl s')
    obtain xs' where "ack_after env b others (us @ zs) ?s xs' s'" using r(2) Inl by auto
    then have "acked env b others (us @ zs) stream w xs' (strm s') (wrld s')"
      by (rule to_acked) (use \<open>ack_after env b others (us @ zs) ?s xs' s'\<close> in \<open>simp_all add: ack_after_def ack_ok_def msgs_ok_def\<close>)
    then show ?thesis using run r(2) Inl by auto
  next
    case (Inr s')
    have s': "ack_after env b others (us @ zs) ?s zs s'" "settled e s'"
      "said s' = emitted w @ acked_items (ahead b base + 1) (pieces b (mem (seg_st w)) us)"
      "ahead b (base_seq s') + 1 = endp (end_of b (mem (seg_st w))) (ahead b base + 1) us"
      using r(2) unfolding Inr by simp_all
    have m: "msgs_ok s'" using s'(1) by (simp add: ack_after_def ack_ok_def)
    define t where "t = (case smsg s' of None \<Rightarrow> s' | Some m \<Rightarrow> queue_smsg e m s')"
    have t: "only_msgs s' t" "msgs_ok t" "smsg t = None" "said t = said s'" "base_seq t = base_seq s'" "settled e t"
      using m s'(2) queue_smsg_ok[OF m] filling_ok queue_smsg_frame
      by (auto simp: t_def msgs_ok_def said_def split: option.splits)
    have "acked env b others (us @ zs) stream w zs (strm t) (wrld t)"
      by (rule to_acked[OF s'(1) t(1)]) (use t(2) in \<open>simp add: msgs_ok_def\<close>)
    moreover have "emitted (wrld t) = said s'" using t(3,4) by (simp add: said_def)
    moreover have "r_ra_base_seq (strm t) = base_seq s'" using t(3,5,6) e by (simp add: settled_def)
    moreover have "reassemble_acked e base stream w = Some (0, strm t, wrld t)" using run Inr by (simp add: t_def Let_def)
    ultimately show ?thesis using s' by simp
  qed
qed

end
