(* ===== verification/StreamTcpReassembleSystem.thy ===== *)
theory StreamTcpReassembleSystem
  imports StreamTcpSegmentSystem StreamTcpReassembleText
begin

text \<open>
  The two sides of reassembly together (\<open>StreamTcpReassembleHandleSegment\<close> in
  \<open>src/stream-tcp-reassemble.c\<close>): data packets fill the segment list of a stream, acknowledgements empty it, and the
  application layer gets the text of the sender.
\<close>

section \<open>Windows\<close>

lemma ahead_shift:
  assumes "ahead (b + of_nat k) x + k < 2 ^ 32"
  shows "ahead b x = ahead (b + of_nat k) x + k"
proof -
  have "x - b = of_nat (ahead (b + of_nat k) x + k)" by (simp add: ahead_def)
  then show ?thesis using assms unfolding ahead_def[of b x] by (simp add: unat_of_nat del: of_nat_add)
qed

lemma chain_shift:
  "chain P Q lo xs hi \<Longrightarrow> (\<And>x. x \<in> set xs \<Longrightarrow> P' x = P x + k \<and> Q' x = Q x + k) \<Longrightarrow> chain P' Q' (lo + k) xs (hi + k)"
  by (induction xs arbitrary: lo) auto

text \<open>The same list in a window that starts \<open>k\<close> bytes earlier.\<close>

lemma seg_inv_shift:
  assumes inv: "seg_inv env (b + of_nat k) others xs stream st"
    and fits: "\<And>a. a \<in> set xs \<Longrightarrow> end_of (b + of_nat k) (mem st) a + k \<le> 65535"
  shows "seg_inv env b others xs stream st"
    "\<And>a. a \<in> set xs \<Longrightarrow> pos_of b (mem st) a = pos_of (b + of_nat k) (mem st) a + k"
    "\<And>a. a \<in> set xs \<Longrightarrow> end_of b (mem st) a = end_of (b + of_nat k) (mem st) a + k"
proof -
  let ?c = "b + of_nat k"
  have pq: "pos_of b (mem st) a = pos_of ?c (mem st) a + k \<and> end_of b (mem st) a = end_of ?c (mem st) a + k" if "a \<in> set xs" for a
  proof -
    have "pos_of ?c (mem st) a \<le> end_of ?c (mem st) a" by (simp add: pos_of_def end_of_def from_seg_def to_seg_def)
    then have "ahead ?c (sg_seq (the (sg (mem st) a))) + k < 2 ^ 32" using fits[OF that] by (simp add: pos_of_def from_seg_def)
    then show ?thesis by (simp add: pos_of_def end_of_def from_seg_def to_seg_def ahead_shift)
  qed
  show "\<And>a. a \<in> set xs \<Longrightarrow> pos_of b (mem st) a = pos_of ?c (mem st) a + k"
    "\<And>a. a \<in> set xs \<Longrightarrow> end_of b (mem st) a = end_of ?c (mem st) a + k" using pq by blast+
  have ok: "list_ok ?c xs (mem st)" using inv by (simp add: seg_inv_def)
  have "chain (pos_of b (mem st)) (end_of b (mem st)) 0 xs 65535"
  proof (cases "xs = []")
    case False
    have "chain (pos_of ?c (mem st)) (end_of ?c (mem st)) 0 (xs @ []) 65535" using ok by (simp add: list_ok_def)
    then have "chain (pos_of ?c (mem st)) (end_of ?c (mem st)) 0 xs (endp (end_of ?c (mem st)) 0 xs)" unfolding chain_append by blast
    from chain_shift[OF this pq] have "chain (pos_of b (mem st)) (end_of b (mem st)) k xs (endp (end_of ?c (mem st)) 0 xs + k)" by simp
    moreover have "endp (end_of ?c (mem st)) 0 xs + k \<le> 65535" using fits[of "last xs"] False by (simp add: endp_def)
    ultimately show ?thesis using chain_mono[of _ _ k xs _ 0 65535] by simp
  qed simp
  then have "list_ok b xs (mem st)" using ok by (simp add: list_ok_def)
  then show "seg_inv env b others xs stream st" using inv by (simp add: seg_inv_def)
qed

section \<open>A text without gaps\<close>

lemma acked_items_shift:
  "acked_items (X + k) (map (\<lambda>(P, d). (P + k, d)) ss) = acked_items X ss"
proof (induction X ss rule: acked_items.induct)
  case (2 X P d ss)
  have "gap_items (X + k) (P + k) = gap_items X P" by (simp add: gap_items_def)
  then show ?case using 2 by (simp add: add.commute add.left_commute)
qed simp

lemma acked_items_text:
  assumes "chain (pos_of b m) (end_of b m) X xs hi" "covers (pos_of b m) (end_of b m) xs = {X..<n}" "\<forall>a\<in>set xs. in_buffer m a"
  shows "acked_items X (pieces b m xs) = map Byte (seg_text m xs)"
  using assms
proof (induction xs arbitrary: X)
  case Nil
  then show ?case by (simp add: seg_text_def)
next
  case (Cons a xs)
  obtain s where s: "sg m a = Some s" "unat (payload_len s) \<le> length (payload s)" using Cons.prems(3) by (auto simp: in_buffer_def)
  have c: "X \<le> from_seg b s" "from_seg b s < to_seg b s" "chain (pos_of b m) (end_of b m) (to_seg b s) xs hi"
    using Cons.prems(1) s(1) by simp_all
  have above: "\<And>i. i \<in> covers (pos_of b m) (end_of b m) xs \<Longrightarrow> to_seg b s \<le> i"
    using chain_mem[OF c(3)] by (fastforce simp: covers_def)
  have U: "{from_seg b s..<to_seg b s} \<union> covers (pos_of b m) (end_of b m) xs = {X..<n}" using Cons.prems(2) s(1) by simp
  have "from_seg b s \<in> {X..<n}" unfolding U[symmetric] using c by simp
  then have "X \<in> {from_seg b s..<to_seg b s} \<union> covers (pos_of b m) (end_of b m) xs" unfolding U by simp
  then have X: "from_seg b s = X" using c above[of X] by auto
  have "covers (pos_of b m) (end_of b m) xs = {to_seg b s..<n}"
  proof (rule set_eqI)
    fix i
    show "i \<in> covers (pos_of b m) (end_of b m) xs \<longleftrightarrow> i \<in> {to_seg b s..<n}"
      using arg_cong[OF U, of "\<lambda>A. i \<in> A"] above[of i] c(1,2) X by auto
  qed
  then have "acked_items (to_seg b s) (pieces b m xs) = map Byte (seg_text m xs)" using Cons.IH[OF c(3)] Cons.prems(3) by simp
  moreover have "to_seg b s = from_seg b s + length (seg_data s)" using s(2) by (simp add: to_seg_def from_seg_def seg_data_def)
  ultimately show ?case using s X by (simp add: gap_items_def seg_text_def seg_data_def)
qed

section \<open>An acknowledgement of new segments\<close>

lemma UpdateACK_new:
  assumes inv: "seg_inv env b others (us @ zs) (segs stream) (seg_st w)" and us0: "us \<noteq> []" and q: "queue_ok w"
    and flags: "has flags STREAMTCP_FLAG_APPPROTO_DETECTION_COMPLETED" "\<not> has flags STREAMTCP_FLAG_PAUSE_TOSERVER_REASSEMBLY"
      "\<not> has flags STREAMTCP_FLAG_PAUSE_TOCLIENT_REASSEMBLY"
    and limit: "StreamTcpReassembleCheckLimit ts stream p (chunks w)" and tmp: "r_tmp_ra_base_seq stream \<le> r_ra_base_seq stream"
    and pos: "ahead b (r_ra_base_seq stream) \<le> 65535" "ahead b (r_last_ack stream) < 2 ^ 30"
    and us: "\<forall>a\<in>set us. ahead b (r_ra_base_seq stream) < pos_of b (mem (seg_st w)) a \<and>
      end_of b (mem (seg_st w)) a \<le> ahead b (r_last_ack stream) \<and> unseen (mem (seg_st w)) a"
    and zs: "\<forall>a\<in>set zs. ahead b (r_last_ack stream) \<le> pos_of b (mem (seg_st w)) a"
  shows "\<exists>r stream' w'. StreamTcpReassembleHandleSegmentUpdateACK E ts flags p stream w = Some (r, stream', w') \<and>
    (r = 0 \<and> acked env b others (us @ zs) stream w zs stream' w' \<and>
       emitted w' = emitted w @ acked_items (ahead b (r_ra_base_seq stream) + 1) (pieces b (mem (seg_st w)) us) \<and>
       ahead b (r_ra_base_seq stream') + 1 = end_of b (mem (seg_st w)) (last us) \<or>
     r = - 1 \<and> ran_out w w' \<and> (\<exists>xs'. acked env b others (us @ zs) stream w xs' stream' w') \<and>
       prefix (emitted w') (emitted w @ acked_items (ahead b (r_ra_base_seq stream) + 1) (pieces b (mem (seg_st w)) us)))"
proof -
  let ?e = "\<lparr>done_detection = True, sess_state = ts, ack_packet = p\<rparr>"
  have h: "seg_head (segs stream) = Some (hd us)" using inv us0 by (cases us) (auto simp: seg_inv_def ends_ok_def)
  have "\<not> r_tmp_ra_base_seq stream > r_ra_base_seq stream" using tmp by simp
  with h have "StreamTcpReassembleHandleSegmentUpdateACK E ts flags p stream w = reassemble_acked ?e (r_ra_base_seq stream) stream w"
    using flags limit by (simp add: StreamTcpReassembleHandleSegmentUpdateACK_def Let_def)
  moreover have "endp (end_of b (mem (seg_st w))) x us = end_of b (mem (seg_st w)) (last us)" for x using us0 by (simp add: endp_def)
  ultimately show ?thesis
    using reassemble_new[OF inv q, of ?e "r_ra_base_seq stream", OF _ refl pos us zs] by simp
qed

section \<open>A connection\<close>

text \<open>The data packets of the client, in the order in which they arrive.\<close>

fun client_packets :: "'g engine \<Rightarrow> (TcpPacket \<times> bytes) list \<Rightarrow> ra_session \<Rightarrow> ra_world \<Rightarrow> (int list \<times> ra_session \<times> ra_world) option" where
  "client_packets E [] ssn w = Some ([], ssn, w)"
| "client_packets E ((p, data) # ps) ssn w = do {
     (r, ssn, w, f) \<leftarrow> StreamTcpReassembleHandleSegment E True p data ssn w;
     (rs, ssn, w) \<leftarrow> client_packets E ps ssn w;
     Some (r # rs, ssn, w)
   }"

text \<open>When the server has sent nothing, they only go into the segment list of the client.\<close>

lemma client_packets_deliver:
  assumes "seg_head (segs (rs_server ssn)) = None" "rs_state ssn = TCP_ESTABLISHED" "\<not> has (rs_flags ssn) STREAMTCP_FLAG_NOCLIENT_REASSEMBLY"
    and "\<forall>pd\<in>set ps. pay_len (fst pd) \<noteq> 0" "deliver E ps (segs (rs_client ssn)) (seg_st w) = Some (rs, stream, st)" "set rs \<subseteq> {0, - 1}"
  shows "client_packets E ps ssn w = Some (rs, ssn\<lparr>rs_client := (rs_client ssn)\<lparr>segs := stream\<rparr>\<rparr>, w\<lparr>seg_st := st\<rparr>)"
  using assms
proof (induction ps arbitrary: ssn w rs)
  case (Cons pd ps)
  obtain p d where pd: "pd = (p, d)" by fastforce
  obtain r stream1 st1 rs' where h: "StreamTcpReassembleHandleSegmentHandleData E p d (segs (rs_client ssn)) (seg_st w) = Some (r, stream1, st1)"
    "deliver E ps stream1 st1 = Some (rs', stream, st)" "rs = r # rs'"
    using Cons.prems(5) pd by (auto split: bind_splits)
  let ?ssn = "ssn\<lparr>rs_client := (rs_client ssn)\<lparr>segs := stream1\<rparr>\<rparr>" and ?w = "w\<lparr>seg_st := st1\<rparr>"
  have "StreamTcpReassembleHandleSegmentUpdateACK E (rs_state ssn) (rs_flags ssn) p (rs_server ssn) w = Some (0, rs_server ssn, w)"
    using Cons.prems(1,2) by (simp add: StreamTcpReassembleHandleSegmentUpdateACK_def)
  then have "\<exists>f. StreamTcpReassembleHandleSegment E True p d ssn w = Some (r, ?ssn, ?w, f)"
    using Cons.prems(3,4,6) h(1,3) pd by (auto simp: StreamTcpReassembleHandleSegment_def word_gt_0)
  moreover have "client_packets E ps ?ssn ?w = Some (rs', ?ssn\<lparr>rs_client := (rs_client ?ssn)\<lparr>segs := stream\<rparr>\<rparr>, ?w\<lparr>seg_st := st\<rparr>)"
    by (rule Cons.IH) (use Cons.prems h in auto)
  ultimately show ?case using pd h(3) by auto
qed simp

text \<open>A client that has sent nothing yet: its stream is empty and reassembly stands at its initial sequence number.\<close>

definition fresh_client :: "seg_env \<Rightarrow> addr set \<Rightarrow> u32 \<Rightarrow> ra_session \<Rightarrow> ra_world \<Rightarrow> bool" where
  "fresh_client env others n0 ssn w \<longleftrightarrow>
     seg_inv env (n0 + 1) others [] (segs (rs_client ssn)) (seg_st w) \<and> queue_ok w \<and>
     all_flags (\<lambda>f. f AND SEGMENTTCP_FLAG_PROCESSED = 0) (seg_st w) \<and>
     r_isn (rs_client ssn) = n0 \<and> r_ra_base_seq (rs_client ssn) = n0 \<and> r_tmp_ra_base_seq (rs_client ssn) \<le> n0 \<and>
     seg_head (segs (rs_server ssn)) = None \<and> rs_state ssn = TCP_ESTABLISHED \<and>
     has (rs_flags ssn) STREAMTCP_FLAG_APPPROTO_DETECTION_COMPLETED \<and> \<not> has (rs_flags ssn) STREAMTCP_FLAG_NOCLIENT_REASSEMBLY \<and>
     \<not> has (rs_flags ssn) STREAMTCP_FLAG_PAUSE_TOSERVER_REASSEMBLY \<and> \<not> has (rs_flags ssn) STREAMTCP_FLAG_PAUSE_TOCLIENT_REASSEMBLY"

text \<open>The session when the server has acknowledged \<open>n\<close>.\<close>

definition acknowledged :: "u32 \<Rightarrow> ra_session \<Rightarrow> ra_session" where
  "acknowledged n ssn = ssn\<lparr>rs_client := (rs_client ssn)\<lparr>r_last_ack := n\<rparr>\<rparr>"

lemma text_list:
  assumes inv: "seg_inv env (n0 + 1) others xs stream st" and spell: "seg_text (mem st) xs = bs"
    and cov: "covers (pos_of (n0 + 1) (mem st)) (end_of (n0 + 1) (mem st)) xs = {0..<length bs}" and len: "bs \<noteq> []" "length bs < 65535"
  shows "seg_inv env n0 others xs stream st" "xs \<noteq> []" "acked_items 1 (pieces n0 (mem st) xs) = map Byte bs"
    "end_of n0 (mem st) (last xs) = length bs + 1"
    "\<And>a. a \<in> set xs \<Longrightarrow> 0 < pos_of n0 (mem st) a \<and> end_of n0 (mem st) a \<le> length bs + 1"
proof -
  let ?m = "mem st" and ?c = "n0 + 1"
  have ch: "chain (pos_of ?c ?m) (end_of ?c ?m) 0 xs 65535" "\<forall>a\<in>set xs. in_buffer ?m a" using inv by (auto simp: seg_inv_def list_ok_def)
  show ne: "xs \<noteq> []" using cov len(1) by (cases xs) auto
  have le: "end_of ?c ?m a \<le> length bs" if a: "a \<in> set xs" for a
  proof -
    have lt: "pos_of ?c ?m a < end_of ?c ?m a" using chain_mem[OF ch(1) a] by blast
    then have "end_of ?c ?m a - 1 \<in> covers (pos_of ?c ?m) (end_of ?c ?m) xs" using a by (auto simp: covers_def intro!: bexI[of _ a])
    then show ?thesis using lt unfolding cov by simp
  qed
  then have fits: "end_of (n0 + of_nat 1) ?m a + 1 \<le> 65535" if "a \<in> set xs" for a using that len(2) by fastforce
  have inv1: "seg_inv env (n0 + of_nat 1) others xs stream st" using inv by simp
  note sh = seg_inv_shift[OF inv1 fits, simplified]
  show "seg_inv env n0 others xs stream st" by (rule sh(1))
  show "0 < pos_of n0 ?m a \<and> end_of n0 ?m a \<le> length bs + 1" if "a \<in> set xs" for a using sh(2,3)[OF that] le[OF that] by simp
  have "pieces n0 ?m xs = map (\<lambda>(P, d). (P + 1, d)) (pieces ?c ?m xs)" using sh(2) by (simp add: pieces_def)
  then have "acked_items 1 (pieces n0 ?m xs) = acked_items 0 (pieces ?c ?m xs)" using acked_items_shift[of 0 1 "pieces ?c ?m xs"] by simp
  then show "acked_items 1 (pieces n0 ?m xs) = map Byte bs" using acked_items_text[OF ch(1) cov ch(2)] spell by simp
  have "length bs - 1 \<in> covers (pos_of ?c ?m) (end_of ?c ?m) xs" unfolding cov using len(1) by (cases bs) auto
  then obtain a where a: "a \<in> set xs" "length bs - 1 < end_of ?c ?m a" by (auto simp: covers_def)
  have xs: "xs = butlast xs @ [last xs]" using ne by simp
  then have "chain (pos_of ?c ?m) (end_of ?c ?m) 0 (butlast xs @ [last xs]) 65535" using ch(1) by simp
  then have bl: "end_of ?c ?m x \<le> end_of ?c ?m (last xs)" if "x \<in> set (butlast xs)" for x
    unfolding chain_append using chain_mem[of "pos_of ?c ?m" "end_of ?c ?m" 0 "butlast xs" "endp (end_of ?c ?m) 0 (butlast xs)" x] that by fastforce
  have "a = last xs \<or> a \<in> set (butlast xs)" using a(1) by (subst (asm) xs) auto
  then have "end_of ?c ?m a \<le> end_of ?c ?m (last xs)" using bl by auto
  then show "end_of n0 ?m (last xs) = length bs + 1" using a(2) le[of "last xs"] ne sh(3)[of "last xs"] by simp
qed

lemma text_to_messages:
  assumes fresh: "fresh_client env others n0 ssn w"
    and parts: "\<forall>pd\<in>set ps. carries (n0 + 1) bs pd" "apart (n0 + 1) ps" "(\<Union>pd\<in>set ps. range_of (n0 + 1) pd) = {0..<length bs}"
    and len: "bs \<noteq> []" "length bs < 65535" "unat (toclient_min_init_chunk_len (chunks w)) \<le> length bs + 1"
    and q: "pay_len q = 0"
  shows "\<exists>rs ssn1 w1. client_packets E ps ssn w = Some (rs, ssn1, w1) \<and> length rs = length ps \<and>
    rs = map (\<lambda>n. if n then - 1 else 0) (no_segment E ps (segs (rs_client ssn)) (seg_st w)) \<and>
    (room env (length ps) (seg_st w) \<longrightarrow> - 1 \<notin> set rs) \<and>
    (- 1 \<notin> set rs \<longrightarrow> (\<exists>r ssn2 w2 f.
       StreamTcpReassembleHandleSegment E False q [] (acknowledged (n0 + 1 + of_nat (length bs)) ssn1) w1 = Some (r, ssn2, w2, f) \<and>
       (r = 0 \<and> emitted w2 = emitted w @ map Byte bs \<and> seg_head (segs (rs_client ssn2)) = None \<and>
          r_ra_base_seq (rs_client ssn2) = n0 + of_nat (length bs) \<or>
        r = - 1 \<and> ran_out w w2 \<and> prefix (emitted w2) (emitted w @ map Byte bs))))"
proof -
  note F = fresh[unfolded fresh_client_def]
  have inv0: "seg_inv env (n0 + 1) others [] (segs (rs_client ssn)) (seg_st w)" using F by blast
  have ne: "\<forall>pd\<in>set ps. pay_len (fst pd) \<noteq> 0"
    using parts(1) by (auto simp: carries_def packet_fits_def in_window_def from_seg_def to_seg_def segment_of_def packet_segment_def)
  obtain rs stream st xs where d: "deliver E ps (segs (rs_client ssn)) (seg_st w) = Some (rs, stream, st)" "length rs = length ps"
    "set rs \<subseteq> {0, - 1}" "seg_inv env (n0 + 1) others xs stream st"
    "- 1 \<notin> set rs \<Longrightarrow> seg_text (mem st) xs = bs \<and> covers (pos_of (n0 + 1) (mem st)) (end_of (n0 + 1) (mem st)) xs = {0..<length bs}"
    "\<And>F. all_flags F (seg_st w) \<and> F 0 \<Longrightarrow> all_flags F st"
    "rs = map (\<lambda>n. if n then - 1 else 0) (no_segment E ps (segs (rs_client ssn)) (seg_st w))"
    "room env (length ps) (seg_st w) \<longrightarrow> - 1 \<notin> set rs"
    using out_of_order_text[OF inv0 parts, of E] by blast
  let ?ssn = "ssn\<lparr>rs_client := (rs_client ssn)\<lparr>segs := stream\<rparr>\<rparr>" and ?w = "w\<lparr>seg_st := st\<rparr>" and ?n = "n0 + 1 + of_nat (length bs)"
  have run: "client_packets E ps ssn w = Some (rs, ?ssn, ?w)"
    using client_packets_deliver[OF _ _ _ ne d(1,3)] F by simp
  have "\<exists>r ssn2 w2 f. StreamTcpReassembleHandleSegment E False q [] (acknowledged ?n ?ssn) ?w = Some (r, ssn2, w2, f) \<and>
       (r = 0 \<and> emitted w2 = emitted w @ map Byte bs \<and> seg_head (segs (rs_client ssn2)) = None \<and>
          r_ra_base_seq (rs_client ssn2) = n0 + of_nat (length bs) \<or>
        r = - 1 \<and> ran_out w w2 \<and> prefix (emitted w2) (emitted w @ map Byte bs))" if ok: "- 1 \<notin> set rs"
  proof -
    let ?stream = "(rs_client ssn)\<lparr>segs := stream, r_last_ack := ?n\<rparr>" and ?m = "mem st"
    note T = text_list[OF d(4) conjunct1[OF d(5)[OF ok]] conjunct2[OF d(5)[OF ok]] len(1,2)]
    have "?n - n0 = of_nat (length bs + 1)" by simp
    then have n: "ahead n0 ?n = length bs + 1" using len(2) unfolding ahead_def by (simp add: unat_of_nat del: of_nat_add of_nat_Suc)
    have z: "ahead n0 n0 = 0" by (simp add: ahead_def)
    have unseen: "unseen ?m a" if "a \<in> set xs" for a
      using d(6)[of "\<lambda>f. f AND SEGMENTTCP_FLAG_PROCESSED = 0"] F T(1) that by (auto simp: unseen_def all_flags_def in_buffer_def seg_inv_def list_ok_def)
    have "unat (?n - n0) = length bs + 1" using n by (simp add: ahead_def)
    then have limit: "StreamTcpReassembleCheckLimit (rs_state ssn) ?stream q (chunks ?w)"
      using F len(3) unat_ucast_up[of "toclient_min_init_chunk_len (chunks w)", where 'b = 32]
      by (simp add: StreamTcpReassembleCheckLimit_def Let_def StreamMsgQueueGetMinInitChunkLen_def STREAM_TOSERVER_def STREAM_TOCLIENT_def
          FLOW_PKT_TOSERVER_def word_less_nat_alt not_less)
    have inv: "seg_inv env n0 others (xs @ []) (segs ?stream) (seg_st ?w)" using T(1) by simp
    have q': "queue_ok ?w" using F by (simp add: queue_ok_def)
    from UpdateACK_new[OF inv T(2) q' _ _ _ limit, of "rs_flags ssn" E] F T(3-5) unseen n z len(2)
    obtain r stream' w' where u: "StreamTcpReassembleHandleSegmentUpdateACK E (rs_state ssn) (rs_flags ssn) q ?stream ?w = Some (r, stream', w')"
      "r = 0 \<and> acked env n0 others xs ?stream ?w [] stream' w' \<and> emitted w' = emitted w @ map Byte bs \<and>
         ahead n0 (r_ra_base_seq stream') = length bs \<or>
       r = - 1 \<and> ran_out w w' \<and> prefix (emitted w') (emitted w @ map Byte bs)"
      by (auto simp: emitted_def)
    let ?ssn' = "(acknowledged ?n ?ssn)\<lparr>rs_client := stream'\<rparr>"
    have "\<exists>f. StreamTcpReassembleHandleSegment E False q [] (acknowledged ?n ?ssn) ?w = Some (r, ?ssn', w', f)"
      using u q by (auto simp: StreamTcpReassembleHandleSegment_def acknowledged_def)
    moreover have "seg_head (segs stream') = None" if "acked env n0 others xs ?stream ?w [] stream' w'"
      using that by (simp add: acked_def seg_inv_def ends_ok_def)
    moreover have "x = n0 + of_nat (length bs)" if "ahead n0 x = length bs" for x
      using that[symmetric] by (simp add: ahead_def)
    ultimately show ?thesis using u(2) by auto
  qed
  then show ?thesis using run d(2,7,8) by blast
qed

section \<open>A pool that does not run out\<close>

text \<open>It has no limit, and memory for new messages.\<close>

definition steady :: "msg_pool \<times> msg_mem \<Rightarrow> bool" where
  "steady p \<longleftrightarrow> max_buckets (fst p) = 0 \<and> None \<notin> set (alloc_list (fst p)) \<and>
     (\<exists>ok sz. Alloc (fst p) = StreamMsgAlloc ok sz \<and> (\<forall>n. ok n))"

lemma steady_step:
  assumes "steady p" "StreamMsgGetFromPool p = (r, p')"
  shows "r \<noteq> None" "steady p'"
proof -
  obtain q m where p: "p = (q, m)" by fastforce
  obtain q' m' where p': "p' = (q', m')" by fastforce
  show "r \<noteq> None" "steady p'"
    using assms unfolding p p'
    by (cases "alloc_list q"; auto simp: steady_def StreamMsgGetFromPool_def PoolGet_def StreamMsgAlloc_def Let_def)+
qed

lemma steady_not_ran_out:
  assumes "steady (stream_msg_pool w, msg_st w)"
  shows "\<not> ran_out w w'"
proof
  assume "ran_out w w'"
  then obtain p where p: "pool_step\<^sup>*\<^sup>* (stream_msg_pool w, msg_st w) p" "StreamMsgGetFromPool p = (None, stream_msg_pool w', msg_st w')"
    unfolding ran_out_def by blast
  have "steady p" using p(1) assms by (induction rule: rtranclp_induct) (auto simp: pool_step_def dest: steady_step(2))
  then show False using steady_step(1)[OF _ p(2)] by blast
qed

section \<open>The application layer\<close>

text \<open>Every message is handled, in the order of the queue; one error makes the result -1.\<close>

lemma process_msgs_all:
  "process_msgs app q r x = (if \<exists>n<length q. fst (app (q ! n) (fold (\<lambda>m x. snd (app m x)) (take n q) x)) \<noteq> 0 then - 1 else r,
     fold (\<lambda>m x. snd (app m x)) q x)"
proof (induction q arbitrary: r x)
  case (Cons m q)
  obtain c y where a: "app m x = (c, y)" by fastforce
  have "(\<exists>n<length (m # q). fst (app ((m # q) ! n) (fold (\<lambda>m x. snd (app m x)) (take n (m # q)) x)) \<noteq> 0) \<longleftrightarrow>
      c \<noteq> 0 \<or> (\<exists>n<length q. fst (app (q ! n) (fold (\<lambda>m x. snd (app m x)) (take n q) y)) \<noteq> 0)"
    using a by (simp add: Ex_less_Suc2)
  then show ?case using Cons.IH a by auto
qed simp

section \<open>Examples\<close>

definition demo_world :: ra_world where
  "demo_world = \<lparr>seg_st = demo_state,
     stream_msg_pool = \<lparr>max_buckets = 0, allocated = 0, alloc_list = [], alloc_list_size = 0, empty_list = [], empty_list_size = 0,
       Alloc = StreamMsgAlloc (\<lambda>_. True) 2200, AllocData = (), Free = Some StreamMsgFree, outstanding = 0, max_outstanding = 0\<rparr>,
     msg_st = \<lparr>msg_mallocs = 0, stream_pool_memuse = 0, stream_pool_memcnt = 0\<rparr>,
     stale = \<lambda>a. \<lparr>smsg_at = a, smsg_flags = 0, smsg_data = replicate MSG_DATA_SIZE 0, data_len = 0, data_seq = 0, gap_size = 0\<rparr>,
     stream_q = [], q_flags = 0,
     chunks = \<lparr>toserver_min_init_chunk_len = 0, toserver_min_chunk_len = 0, toclient_min_init_chunk_len = 2, toclient_min_chunk_len = 2\<rparr>\<rparr>"

definition demo_ra_stream :: "u32 \<Rightarrow> u32 \<Rightarrow> ra_stream" where
  "demo_ra_stream base ack = \<lparr>segs = demo_stream 5, r_isn = 99, r_last_ack = ack, r_ra_base_seq = base, r_tmp_ra_base_seq = base\<rparr>"

definition demo_session :: ra_session where
  "demo_session = \<lparr>rs_state = TCP_ESTABLISHED, rs_flags = STREAMTCP_FLAG_APPPROTO_DETECTION_COMPLETED,
     rs_client = demo_ra_stream 99 99, rs_server = demo_ra_stream 7 7\<rparr>"

text \<open>The packets \<open>ps\<close>, then an acknowledgement: its result, the items in the queue and the texts of the segments that are left.\<close>

definition demo_ack :: "ra_stream \<Rightarrow> (TcpPacket \<times> bytes) list \<Rightarrow> (int \<times> stream_item list \<times> bytes list) option" where
  "demo_ack stream ps = do {
     (rs, sl, st) \<leftarrow> deliver demo_engine ps (segs stream) demo_state;
     (r, stream, w) \<leftarrow> StreamTcpReassembleHandleSegmentUpdateACK demo_engine TCP_ESTABLISHED STREAMTCP_FLAG_APPPROTO_DETECTION_COMPLETED
                        (fst (demo_packet 0 [])) (stream\<lparr>segs := sl\<rparr>) (demo_world\<lparr>seg_st := st\<rparr>);
     Some (r, emitted w, map (\<lambda>a. seg_text (mem (seg_st w)) [a]) (seg_addrs (segs stream) (seg_st w)))
   }"

section \<open>Properties\<close>

text \<open>Claim C7: The states are those of \<open>engine_reach\<close>: from the start of the engine, with data packets in the window of
  65535 bytes of their stream and in no position \<open>overrun\<close>, with clearings, moved windows and acknowledgements as the
  one below. An acknowledgement whose stream has \<open>ra_base_seq\<close> and \<open>tmp_ra_base_seq\<close> in its window and \<open>last_ack\<close> less
  than \<open>2 ^ 30\<close> bytes ahead of it (\<open>ack_near\<close>), with a message queue that holds only well-formed messages
  (\<open>queue_ok\<close>), is handled: the call returns, with -1 only when the pool of messages gave none, and touches no memory
  outside a payload or a message. Afterwards every stream has a doubly linked, ordered list without overlaps again,
  in which the segments that are left are the old ones in the old order, the removed ones are back in their pools, no
  other stream is changed, and the messages added to the end of the queue hold at most 2048 bytes. This holds before
  and after the detection of the protocol and whether reassembly is paused or not. Streams with larger windows (window
  scaling) are outside of the claim.\<close>

theorem tcp_acks_stay_ordered:
  assumes "engine_reach E env base streams (seg_st w)" "segs stream = streams i" "queue_ok w" "ack_near (base i) stream"
  shows "\<exists>r stream' w' new. StreamTcpReassembleHandleSegmentUpdateACK E ts flags p stream w = Some (r, stream', w') \<and>
    (r = 0 \<or> r = - 1 \<and> ran_out w w') \<and> engine_ok env base (streams(i := segs stream')) (seg_st w') \<and>
    subseq (seg_addrs (segs stream') (seg_st w')) (seg_addrs (streams i) (seg_st w)) \<and>
    (\<forall>c\<in>set (seg_addrs (segs stream') (seg_st w')). same_seg (seg_st w) (seg_st w') c) \<and>
    (\<forall>j. j \<noteq> i \<longrightarrow> stored (base j) (mem (seg_st w')) (seg_addrs (streams j) (seg_st w')) =
       stored (base j) (mem (seg_st w)) (seg_addrs (streams j) (seg_st w))) \<and>
    stream_q w' = stream_q w @ new \<and> queue_ok w' \<and> (\<forall>m\<in>set new. msg_ok m)"
proof -
  have ok: "engine_ok env base streams (seg_st w)" using engine_reach_ok[OF assms(1)] .
  have inv: "seg_inv env (base i) (other_segs streams (seg_st w) i) (seg_addrs (streams i) (seg_st w)) (segs stream) (seg_st w)"
    using engine_ok_inv[OF ok, of i] assms(2) by simp
  obtain r stream' w' xs' where u: "StreamTcpReassembleHandleSegmentUpdateACK E ts flags p stream w = Some (r, stream', w')"
    "r = 0 \<or> r = - 1 \<and> ran_out w w'"
    "acked env (base i) (other_segs streams (seg_st w) i) (seg_addrs (streams i) (seg_st w)) stream w xs' stream' w'"
    using UpdateACK_ok[OF inv assms(3), of E ts flags p] assms(4) by (auto simp: ack_near_def)
  have new: "seg_inv env (base i) (other_segs streams (seg_st w) i) xs' (segs stream') (seg_st w')"
    and same: "same_on (other_segs streams (seg_st w) i) (seg_st w) (seg_st w')"
    and rest: "subseq xs' (seg_addrs (streams i) (seg_st w))" "\<forall>c\<in>set xs'. same_seg (seg_st w) (seg_st w') c" "queue_ok w'"
      "prefix (stream_q w) (stream_q w')"
    using u(3) by (simp_all add: acked_def grown_def)
  obtain q where "stream_q w' = stream_q w @ q" using rest(4) by (auto simp: prefix_def)
  moreover from this have "\<forall>m\<in>set q. msg_ok m" using rest(3) by (simp add: queue_ok_def)
  ultimately show ?thesis
    using u(1,2) engine_update(1,3)[OF ok new same] seg_addrs_eq[OF new] rest(1-3) by auto
qed

text \<open>Claim C10: The protocol is known, reassembly is not paused, the limit check of the chunk lengths has passed,
  \<open>tmp_ra_base_seq\<close> is not above \<open>ra_base_seq\<close>, and the list starts with segments \<open>us\<close> behind \<open>ra_base_seq\<close>, not yet
  processed, that the acknowledgement covers as a whole, all others lying behind the acknowledgement; \<open>ra_base_seq\<close> is
  in the window of 65535 bytes and the acknowledgement less than \<open>2 ^ 30\<close> bytes ahead of its start. Then the
  acknowledgement turns \<open>us\<close> into messages that say exactly their bytes in order, with a gap message of the right length
  where bytes are missing; the segments are removed, the ones behind stay, and \<open>ra_base_seq\<close> is the number of the
  last byte delivered. When the pool runs out of messages the call returns -1 instead, and what was said is a prefix.\<close>

theorem tcp_ack_delivers_segments:
  assumes "seg_inv env b others (us @ zs) (segs stream) (seg_st w)" "us \<noteq> []" "queue_ok w"
    and "has flags STREAMTCP_FLAG_APPPROTO_DETECTION_COMPLETED" "\<not> has flags STREAMTCP_FLAG_PAUSE_TOSERVER_REASSEMBLY"
      "\<not> has flags STREAMTCP_FLAG_PAUSE_TOCLIENT_REASSEMBLY"
    and "StreamTcpReassembleCheckLimit ts stream p (chunks w)" "r_tmp_ra_base_seq stream \<le> r_ra_base_seq stream"
    and "ahead b (r_ra_base_seq stream) \<le> 65535" "ahead b (r_last_ack stream) < 2 ^ 30"
    and "\<forall>a\<in>set us. ahead b (r_ra_base_seq stream) < pos_of b (mem (seg_st w)) a \<and>
      end_of b (mem (seg_st w)) a \<le> ahead b (r_last_ack stream) \<and> unseen (mem (seg_st w)) a"
    and "\<forall>a\<in>set zs. ahead b (r_last_ack stream) \<le> pos_of b (mem (seg_st w)) a"
  shows "\<exists>r stream' w' new. StreamTcpReassembleHandleSegmentUpdateACK E ts flags p stream w = Some (r, stream', w') \<and>
    stream_q w' = stream_q w @ new \<and>
    (r = 0 \<and> concat (map msg_items new) = acked_items (ahead b (r_ra_base_seq stream) + 1) (pieces b (mem (seg_st w)) us) \<and>
       seg_addrs (segs stream') (seg_st w') = zs \<and> seg_inv env b others zs (segs stream') (seg_st w') \<and>
       ahead b (r_ra_base_seq stream') + 1 = end_of b (mem (seg_st w)) (last us) \<or>
     r = - 1 \<and> ran_out w w' \<and>
       prefix (concat (map msg_items new)) (acked_items (ahead b (r_ra_base_seq stream) + 1) (pieces b (mem (seg_st w)) us)))"
proof -
  let ?I = "acked_items (ahead b (r_ra_base_seq stream) + 1) (pieces b (mem (seg_st w)) us)"
  obtain r stream' w' where u: "StreamTcpReassembleHandleSegmentUpdateACK E ts flags p stream w = Some (r, stream', w')"
    "r = 0 \<and> acked env b others (us @ zs) stream w zs stream' w' \<and> emitted w' = emitted w @ ?I \<and>
       ahead b (r_ra_base_seq stream') + 1 = end_of b (mem (seg_st w)) (last us) \<or>
     r = - 1 \<and> ran_out w w' \<and> (\<exists>xs'. acked env b others (us @ zs) stream w xs' stream' w') \<and> prefix (emitted w') (emitted w @ ?I)"
    using UpdateACK_new[OF assms, of E] by blast
  then have "prefix (stream_q w) (stream_q w')" by (auto simp: acked_def grown_def)
  then obtain q where q: "stream_q w' = stream_q w @ q" by (auto simp: prefix_def)
  then have e: "emitted w' = emitted w @ concat (map msg_items q)" by (simp add: emitted_def)
  have "seg_inv env b others zs (segs stream') (seg_st w') \<Longrightarrow> seg_addrs (segs stream') (seg_st w') = zs" by (rule seg_addrs_eq)
  then show ?thesis using u q e
    by (intro exI[of _ r] exI[of _ stream'] exI[of _ w'] exI[of _ q]) (auto simp: acked_def)
qed

text \<open>Claim C4: An established connection whose protocol is detected and whose reassembly is neither off nor paused
  (\<open>fresh_client\<close>). The data packets of the client carry the parts of a text of less than 65535 bytes, each byte in one of
  them, in any order; then the server acknowledges the text, which reaches the minimal chunk length.
  \<open>HandleSegment\<close> returns for every data packet, 0 when it is inserted and -1 when the pool for its size has no segment for it
  (\<open>no_segment\<close>), and for no other reason; with memory for that many segments (\<open>room\<close>) all are inserted. When none was
  refused, the acknowledgement returns 0, the messages that it adds to the queue say the text from its first byte to
  its last, the segment list is empty, and reassembly stands at the last byte of the text; or the pool of messages was
  not \<open>steady\<close> (without limit and with memory), the call returns -1 and the messages say a prefix.\<close>

theorem tcp_text_reaches_application:
  assumes "fresh_client env others n0 ssn w"
    and "\<forall>pd\<in>set ps. carries (n0 + 1) bs pd" "apart (n0 + 1) ps" "(\<Union>pd\<in>set ps. range_of (n0 + 1) pd) = {0..<length bs}"
    and "bs \<noteq> []" "length bs < 65535" "unat (toclient_min_init_chunk_len (chunks w)) \<le> length bs + 1" "pay_len q = 0"
  shows "\<exists>rs ssn1 w1. client_packets E ps ssn w = Some (rs, ssn1, w1) \<and> length rs = length ps \<and>
    rs = map (\<lambda>n. if n then - 1 else 0) (no_segment E ps (segs (rs_client ssn)) (seg_st w)) \<and>
    (room env (length ps) (seg_st w) \<longrightarrow> - 1 \<notin> set rs) \<and>
    (- 1 \<notin> set rs \<longrightarrow> (\<exists>r ssn2 w2 f.
       StreamTcpReassembleHandleSegment E False q [] (acknowledged (n0 + 1 + of_nat (length bs)) ssn1) w1 = Some (r, ssn2, w2, f) \<and>
       (r = 0 \<and> emitted w2 = emitted w @ map Byte bs \<and> seg_head (segs (rs_client ssn2)) = None \<and>
          r_ra_base_seq (rs_client ssn2) = n0 + of_nat (length bs) \<or>
        r = - 1 \<and> \<not> steady (stream_msg_pool w, msg_st w) \<and> prefix (emitted w2) (emitted w @ map Byte bs))))"
proof -
  obtain rs ssn1 w1 where c: "client_packets E ps ssn w = Some (rs, ssn1, w1)" "length rs = length ps"
    "rs = map (\<lambda>n. if n then - 1 else 0) (no_segment E ps (segs (rs_client ssn)) (seg_st w))"
    "room env (length ps) (seg_st w) \<longrightarrow> - 1 \<notin> set rs"
    "- 1 \<notin> set rs \<longrightarrow> (\<exists>r ssn2 w2 f.
       StreamTcpReassembleHandleSegment E False q [] (acknowledged (n0 + 1 + of_nat (length bs)) ssn1) w1 = Some (r, ssn2, w2, f) \<and>
       (r = 0 \<and> emitted w2 = emitted w @ map Byte bs \<and> seg_head (segs (rs_client ssn2)) = None \<and>
          r_ra_base_seq (rs_client ssn2) = n0 + of_nat (length bs) \<or>
        r = - 1 \<and> ran_out w w2 \<and> prefix (emitted w2) (emitted w @ map Byte bs)))"
    using text_to_messages[OF assms, of E] by (elim exE conjE) (rule that)
  show ?thesis by (intro exI[of _ rs] exI[of _ ssn1] exI[of _ w1]) (use c steady_not_ran_out in blast)
qed

section \<open>Witnesses\<close>

lemma demo_fresh: "fresh_client demo_env {} 99 demo_session demo_world"
proof -
  have "queue_ok demo_world" by (simp add: queue_ok_def demo_world_def)
  then show ?thesis using demo_ok[of 100 5]
    by (simp add: fresh_client_def demo_session_def demo_world_def demo_ra_stream_def all_flags_def demo_state_def demo_stream_def has_def
        STREAMTCP_FLAG_APPPROTO_DETECTION_COMPLETED_def STREAMTCP_FLAG_NOCLIENT_REASSEMBLY_def
        STREAMTCP_FLAG_PAUSE_TOSERVER_REASSEMBLY_def STREAMTCP_FLAG_PAUSE_TOCLIENT_REASSEMBLY_def)
qed

lemma tcp_text_reaches_application_witness:
  "\<exists>ssn1 w1 ssn2 w2 f. client_packets demo_engine [demo_packet 104 [5, 6, 7], demo_packet 100 [1, 2], demo_packet 102 [3, 4]] demo_session demo_world =
       Some ([0, 0, 0], ssn1, w1) \<and>
     StreamTcpReassembleHandleSegment demo_engine False (fst (demo_packet 7 [])) [] (acknowledged 107 ssn1) w1 = Some (0, ssn2, w2, f) \<and>
     emitted w2 = map Byte [1, 2, 3, 4, 5, 6, 7] \<and> seg_head (segs (rs_client ssn2)) = None"
proof -
  let ?ps = "[demo_packet 104 [5, 6, 7], demo_packet 100 [1, 2], demo_packet 102 [3, 4]]" and ?bs = "[1, 2, 3, 4, 5, 6, 7] :: bytes"
  have n0: "99 + 1 = (100 :: u32)" by simp
  have r: "range_of 100 (demo_packet 104 [5, 6, 7]) = {4..<7}" "range_of 100 (demo_packet 100 [1, 2]) = {0..<Suc (Suc 0)}"
    "range_of 100 (demo_packet 102 [3, 4]) = {2..<4}"
    by (simp_all add: range_of_def from_seg_def to_seg_def segment_of_def packet_segment_def demo_packet_def ahead_def)
  have c: "\<forall>pd\<in>set ?ps. carries 100 ?bs pd"
    by (simp add: carries_def packet_fits_def in_window_def from_seg_def to_seg_def segment_of_def packet_segment_def demo_packet_def ahead_def)
  have a: "apart 100 ?ps" by (simp add: apart_def r)
  have u: "(\<Union>pd\<in>set ?ps. range_of 100 pd) = {0..<length ?bs}" by (auto simp: r)
  obtain stream st where "deliver demo_engine ?ps (demo_stream 5) demo_state = Some ([0, 0, 0], stream, st)"
    using demo_out_of_order by (cases "deliver demo_engine ?ps (demo_stream 5) demo_state") auto
  then have "\<exists>ssn1 w1. client_packets demo_engine ?ps demo_session demo_world = Some ([0, 0, 0], ssn1, w1)"
    using client_packets_deliver[of demo_session ?ps demo_engine demo_world "[0, 0, 0]" stream st] demo_fresh
    by (simp add: fresh_client_def demo_session_def demo_ra_stream_def demo_world_def demo_packet_def)
  moreover have "steady (stream_msg_pool demo_world, msg_st demo_world)" by (auto simp: steady_def demo_world_def)
  moreover have "emitted demo_world = []" "unat (toclient_min_init_chunk_len (chunks demo_world)) \<le> length ?bs + 1" "pay_len (fst (demo_packet 7 [])) = 0"
    by (simp_all add: emitted_def demo_world_def demo_packet_def)
  moreover have "room demo_env (length ?ps) (seg_st demo_world)" using demo_room by (simp add: demo_world_def)
  ultimately show ?thesis
    using tcp_text_reaches_application[OF demo_fresh c[folded n0] a[folded n0] u[folded n0], of "fst (demo_packet 7 [])" demo_engine] by auto
qed

lemma demo_segment:
  "\<exists>stream st. seg_inv demo_env 99 {} [0] stream st \<and> unseen (mem st) 0 \<and> pos_of 99 (mem st) 0 = 1 \<and> end_of 99 (mem st) 0 = 4 \<and>
     pieces 99 (mem st) [0] = [(1, [1, 2, 3])]"
proof -
  let ?p = "demo_packet 100 [1, 2, 3]"
  have ev: "(case deliver demo_engine [?p] (demo_stream 5) demo_state of Some (rs, stream, st) \<Rightarrow>
      seg_addrs stream st = [0] \<and> map_option (\<lambda>s. (sg_seq s, payload_len s, sg_flags s, take 3 (payload s))) (sg (mem st) 0) = Some (100, 3, 0, [1, 2, 3])
      | None \<Rightarrow> False)"
    by code_simp
  have "\<forall>pd\<in>set [?p]. packet_fits 99 pd"
    by (simp add: packet_fits_def in_window_def from_seg_def to_seg_def segment_of_def packet_segment_def demo_packet_def ahead_def)
  then obtain rs stream st xs where d: "deliver demo_engine [?p] (demo_stream 5) demo_state = Some (rs, stream, st)" "seg_inv demo_env 99 {} xs stream st"
    using deliver_apart[OF demo_ok[of 99 5], of "[?p]" demo_engine] by (auto simp: apart_def)
  then have xs: "xs = [0]" using ev seg_addrs_eq[OF d(2)] by simp
  obtain ls where ls: "sg (mem st) 0 = Some ls" "sg_seq ls = 100" "payload_len ls = 3" "sg_flags ls = 0" "take 3 (payload ls) = [1, 2, 3]"
    using ev d(1) by auto
  then have "unseen (mem st) 0" "pos_of 99 (mem st) 0 = 1" "end_of 99 (mem st) 0 = 4" "pieces 99 (mem st) [0] = [(1, [1, 2, 3])]"
    by (simp_all add: unseen_def pos_of_def end_of_def from_seg_def to_seg_def pieces_def seg_data_def ahead_def)
  then show ?thesis using d(2) xs by blast
qed

lemma tcp_acks_stay_ordered_witness:
  "\<exists>st stream' w'. StreamTcpReassembleInit demo_env (\<lambda>_ _. True) demo_state = Some st \<and>
     StreamTcpReassembleHandleSegmentUpdateACK demo_engine TCP_ESTABLISHED STREAMTCP_FLAG_APPPROTO_DETECTION_COMPLETED (fst (demo_packet 0 []))
       (demo_ra_stream 99 103) (demo_world\<lparr>seg_st := st\<rparr>) = Some (0, stream', w') \<and>
     engine_ok demo_env (\<lambda>_. 90) ((\<lambda>_. demo_stream 5)(7 := segs stream')) (seg_st w')"
proof -
  obtain st where st: "StreamTcpReassembleInit demo_env (\<lambda>_ _. True) demo_state = Some st"
    using Init_returns[of "\<lambda>_ _. True"] by auto
  let ?w = "demo_world\<lparr>seg_st := st\<rparr>"
  have "engine_reach demo_engine demo_env (\<lambda>_. 90) (\<lambda>_. demo_stream 5) st"
    by (rule engine_reach.start[OF _ st]) (simp_all add: demo_state_def demo_stream_def)
  then have "engine_reach demo_engine demo_env (\<lambda>_. 90) (\<lambda>_. demo_stream 5) (seg_st ?w)" by simp
  moreover have "segs (demo_ra_stream 99 103) = (\<lambda>_. demo_stream 5) 7" by (simp add: demo_ra_stream_def)
  moreover have "queue_ok ?w" by (simp add: queue_ok_def demo_world_def)
  moreover have "ack_near ((\<lambda>_. 90) 7) (demo_ra_stream 99 103)" by (simp add: ack_near_def demo_ra_stream_def ahead_def)
  moreover have "\<not> ran_out ?w w'" for w' by (rule steady_not_ran_out) (auto simp: steady_def demo_world_def)
  ultimately show ?thesis
    using tcp_acks_stay_ordered[of demo_engine demo_env "\<lambda>_. 90" "\<lambda>_. demo_stream 5" ?w "demo_ra_stream 99 103" 7 TCP_ESTABLISHED
        STREAMTCP_FLAG_APPPROTO_DETECTION_COMPLETED "fst (demo_packet 0 [])"] st
    by fastforce
qed

lemma tcp_ack_delivers_segments_witness:
  "\<exists>stream st stream' w'. seg_inv demo_env 99 {} [0] (segs stream) st \<and>
     StreamTcpReassembleHandleSegmentUpdateACK demo_engine TCP_ESTABLISHED STREAMTCP_FLAG_APPPROTO_DETECTION_COMPLETED (fst (demo_packet 0 []))
       stream (demo_world\<lparr>seg_st := st\<rparr>) = Some (0, stream', w') \<and>
     emitted w' = [Byte 1, Byte 2, Byte 3] \<and> seg_addrs (segs stream') (seg_st w') = []"
proof -
  obtain sl st where s: "seg_inv demo_env 99 {} [0] sl st" "unseen (mem st) 0" "pos_of 99 (mem st) 0 = 1" "end_of 99 (mem st) 0 = 4"
    "pieces 99 (mem st) [0] = [(1, [1, 2, 3])]"
    using demo_segment by blast
  let ?s = "demo_ra_stream 99 103\<lparr>segs := sl\<rparr>" and ?w = "demo_world\<lparr>seg_st := st\<rparr>"
  have 1: "seg_inv demo_env 99 {} ([0] @ []) (segs ?s) (seg_st ?w)" "[0 :: addr] \<noteq> []" "queue_ok ?w" using s(1) by (simp_all add: queue_ok_def demo_world_def)
  have 2: "has STREAMTCP_FLAG_APPPROTO_DETECTION_COMPLETED STREAMTCP_FLAG_APPPROTO_DETECTION_COMPLETED"
    "\<not> has STREAMTCP_FLAG_APPPROTO_DETECTION_COMPLETED STREAMTCP_FLAG_PAUSE_TOSERVER_REASSEMBLY"
    "\<not> has STREAMTCP_FLAG_APPPROTO_DETECTION_COMPLETED STREAMTCP_FLAG_PAUSE_TOCLIENT_REASSEMBLY"
    by (simp_all add: has_def STREAMTCP_FLAG_APPPROTO_DETECTION_COMPLETED_def STREAMTCP_FLAG_PAUSE_TOSERVER_REASSEMBLY_def
        STREAMTCP_FLAG_PAUSE_TOCLIENT_REASSEMBLY_def)
  have 3: "StreamTcpReassembleCheckLimit TCP_ESTABLISHED ?s (fst (demo_packet 0 [])) (chunks ?w)" by code_simp
  have 4: "r_tmp_ra_base_seq ?s \<le> r_ra_base_seq ?s" "ahead 99 (r_ra_base_seq ?s) = 0" "ahead 99 (r_last_ack ?s) = 4"
    by (simp_all add: demo_ra_stream_def ahead_def)
  have 5: "\<forall>a\<in>set [0]. ahead 99 (r_ra_base_seq ?s) < pos_of 99 (mem (seg_st ?w)) a \<and> end_of 99 (mem (seg_st ?w)) a \<le> ahead 99 (r_last_ack ?s) \<and>
      unseen (mem (seg_st ?w)) a" using s 4 by simp
  have n: "\<not> ran_out ?w w'" for w' by (rule steady_not_ran_out) (auto simp: steady_def demo_world_def)
  have e: "acked_items (ahead 99 (r_ra_base_seq ?s) + 1) (pieces 99 (mem (seg_st ?w)) [0]) = [Byte 1, Byte 2, Byte 3]"
    using s(5) 4 by (simp add: gap_items_def)
  have q: "stream_q ?w = []" by (simp add: demo_world_def)
  obtain r stream' w' new where
    "StreamTcpReassembleHandleSegmentUpdateACK demo_engine TCP_ESTABLISHED STREAMTCP_FLAG_APPPROTO_DETECTION_COMPLETED (fst (demo_packet 0 []))
       ?s ?w = Some (r, stream', w')" "stream_q w' = new" "r = 0" "concat (map msg_items new) = [Byte 1, Byte 2, Byte 3]"
    "seg_addrs (segs stream') (seg_st w') = []"
    using tcp_ack_delivers_segments[OF 1 2 3 4(1) _ _ 5, of demo_engine, unfolded e q] 4 n by auto
  then show ?thesis using s(1) by (intro exI[of _ ?s] exI[of _ st] exI[of _ stream'] exI[of _ w']) (simp add: emitted_def)
qed

section \<open>Acknowledgements that repeat or lose bytes\<close>

text \<open>
  A segment that starts in front of \<open>ra_base_seq\<close> is copied from its payload at \<open>ra_base_seq\<close>, a byte that was
  delivered before. When the acknowledgement is at most twice as far from the start of a segment as \<open>ra_base_seq\<close>,
  the segment is removed, with acknowledged bytes (105 to 107) that were never delivered. Of a segment that is
  acknowledged in part the acknowledged bytes are delivered, and the rest is removed with it.
\<close>

lemma byte_delivered_twice:
  "demo_ack (demo_ra_stream 102 105) [demo_packet 100 [1, 2, 3, 4, 5]] = Some (0, [Byte 3, Byte 4, Byte 5], [])"
  by code_simp

lemma acked_bytes_dropped:
  "demo_ack (demo_ra_stream 104 108) [demo_packet 100 [1, 2, 3, 4, 5, 6, 7, 8]] = Some (0, [], [])"
  by code_simp

lemma unacked_bytes_lost:
  "demo_ack (demo_ra_stream 99 103) [demo_packet 100 [1, 2, 3, 4, 5, 6, 7]] = Some (0, [Byte 1, Byte 2, Byte 3], [])"
  by code_simp

end
