(* ===== verification/SigGroup.thy ===== *)
theory SigGroup
  imports Prelude
begin

text \<open>
  The signatures of a group (\<open>src/detect-engine-siggroup.c\<close>): a bit array indexed by the internal number of a
  signature, and the lengths for the pattern matcher. \<open>None\<close> as a result is an access outside the array.
\<close>

section \<open>Memory\<close>

text \<open>
  \<open>mem_ok n\<close>: the \<open>n\<close>-th allocation succeeds. \<open>sgh_size\<close> is \<open>DetectEngineGetMaxSigId(de_ctx) / 8 + 1\<close>, or \<open>None\<close>
  when \<open>de_ctx\<close> is \<open>NULL\<close>. The counters of the signature groups, which are only printed, are left out.
\<close>

record det_env =
  mem_ok :: "nat \<Rightarrow> bool"
  sgh_size :: "nat option"
  sizeof_port :: u32

record det_mem =
  d_mallocs :: nat
  detect_port_memory :: u32
  detect_port_init_cnt :: u32
  detect_port_free_cnt :: u32

definition d_malloc :: "det_env \<Rightarrow> det_mem \<Rightarrow> bool \<times> det_mem" where
  "d_malloc e st = (mem_ok e (d_mallocs st), st\<lparr>d_mallocs := d_mallocs st + 1\<rparr>)"

section \<open>Groups\<close>

record SigGroupHead =
  sig_array :: bytes
  sgh_sig_cnt :: u32
  mpm_content_maxlen :: u16
  mpm_uricontent_maxlen :: u16

definition SigGroupHeadAlloc :: "det_env \<Rightarrow> nat \<Rightarrow> det_mem \<Rightarrow> SigGroupHead option \<times> det_mem" where
  "SigGroupHeadAlloc e z st =
     (let (k1, st) = d_malloc e st in
      if \<not> k1 then (None, st)
      else let (k2, st) = d_malloc e st in
      if \<not> k2 then (None, st)
      else let (k3, st) = d_malloc e st in
      if \<not> k3 then (None, st)
      else (Some \<lparr>sig_array = replicate z 0, sgh_sig_cnt = 0, mpm_content_maxlen = 0, mpm_uricontent_maxlen = 0\<rparr>, st))"

text \<open>The loop over \<open>src->init->sig_array\<close>.\<close>

definition or_sigs :: "bytes \<Rightarrow> bytes \<Rightarrow> bytes option" where
  "or_sigs src dst =
     (if length src \<le> length dst then Some (map2 (OR) (take (length src) dst) src @ drop (length src) dst) else None)"

text \<open>The smallest length that is not 0. The \<open>BUG_ON\<close> behind it cannot fail.\<close>

definition merge_maxlen :: "u16 \<Rightarrow> u16 \<Rightarrow> u16" where
  "merge_maxlen src dst =
     (if src \<noteq> 0 then let dst = (if dst = 0 then src else dst) in if dst > src then src else dst else dst)"

definition SigGroupHeadCopySigs :: "det_env \<Rightarrow> SigGroupHead option \<Rightarrow> SigGroupHead option \<Rightarrow> det_mem
    \<Rightarrow> (int \<times> SigGroupHead option \<times> det_mem) option" where
  "SigGroupHeadCopySigs e src dst st =
     (case src of None \<Rightarrow> Some (0, dst, st)
      | Some s \<Rightarrow>
     (case sgh_size e of None \<Rightarrow> Some (0, dst, st)
      | Some z \<Rightarrow>
     (case (case dst of Some d \<Rightarrow> (Some d, st) | None \<Rightarrow> SigGroupHeadAlloc e z st) of
        (None, st) \<Rightarrow> Some (- 1, None, st)
      | (Some d, st) \<Rightarrow> do {
          a \<leftarrow> or_sigs (sig_array s) (sig_array d);
          Some (0, Some (d\<lparr>sig_array := a,
                           mpm_content_maxlen := merge_maxlen (mpm_content_maxlen s) (mpm_content_maxlen d),
                           mpm_uricontent_maxlen := merge_maxlen (mpm_uricontent_maxlen s) (mpm_uricontent_maxlen d)\<rparr>), st)
        })))"

definition SigGroupHeadClearSigs :: "SigGroupHead option \<Rightarrow> SigGroupHead option" where
  "SigGroupHeadClearSigs sgh =
     map_option (\<lambda>s. s\<lparr>sig_array := replicate (length (sig_array s)) 0, sgh_sig_cnt := 0\<rparr>) sgh"

text \<open>The members of a signature that its group looks at.\<close>

record Signature =
  s_num :: u32
  s_mpm :: bool
  s_mpm_uri :: bool
  s_content_maxlen :: u16
  s_uricontent_maxlen :: u16

definition SigGroupHeadAppendSig :: "det_env \<Rightarrow> SigGroupHead option \<Rightarrow> Signature \<Rightarrow> det_mem
    \<Rightarrow> (int \<times> SigGroupHead option \<times> det_mem) option" where
  "SigGroupHeadAppendSig e sgh s st =
     (case sgh_size e of None \<Rightarrow> Some (0, sgh, st)
      | Some z \<Rightarrow>
     (case (case sgh of Some d \<Rightarrow> (Some d, st) | None \<Rightarrow> SigGroupHeadAlloc e z st) of
        (None, st) \<Rightarrow> Some (- 1, None, st)
      | (Some d, st) \<Rightarrow> do {
          let i = unat (s_num s div 8);
          let d = d\<lparr>sig_array := (sig_array d)[i := sig_array d ! i OR push_bit (unat (s_num s mod 8)) 1]\<rparr>;
          let d = (if s_mpm s then d\<lparr>mpm_content_maxlen := merge_maxlen (s_content_maxlen s) (mpm_content_maxlen d)\<rparr> else d);
          let d = (if s_mpm_uri s then d\<lparr>mpm_uricontent_maxlen := merge_maxlen (s_uricontent_maxlen s) (mpm_uricontent_maxlen d)\<rparr> else d);
          if i < length (sig_array d) then Some (0, Some d, st) else None
        }))"

section \<open>The set of signatures\<close>

definition sigs_of :: "SigGroupHead option \<Rightarrow> nat set" where
  "sigs_of sgh = (case sgh of None \<Rightarrow> {} | Some s \<Rightarrow> {n. n div 8 < length (sig_array s) \<and> bit (sig_array s ! (n div 8)) (n mod 8)})"

definition sized :: "det_env \<Rightarrow> SigGroupHead option \<Rightarrow> bool" where
  "sized e sgh \<longleftrightarrow> (\<forall>s. sgh = Some s \<longrightarrow> sgh_size e = Some (length (sig_array s)))"

text \<open>Memory does not run out.\<close>

definition plenty :: "det_env \<Rightarrow> bool" where
  "plenty e \<longleftrightarrow> (\<forall>n. mem_ok e n)"

lemma sigs_of_None [simp]: "sigs_of None = {}"
  by (simp add: sigs_of_def)

lemma sized_None [simp]: "sized e None"
  by (simp add: sized_def)

lemma SigGroupHeadAlloc_cases:
  "SigGroupHeadAlloc e z st = (r, st') \<Longrightarrow> r = None \<and> \<not> (\<forall>n. mem_ok e n) \<or>
     r = Some \<lparr>sig_array = replicate z 0, sgh_sig_cnt = 0, mpm_content_maxlen = 0, mpm_uricontent_maxlen = 0\<rparr>"
  by (auto simp: SigGroupHeadAlloc_def d_malloc_def Let_def split: if_splits)

lemma or_sigs_same: "length src = length dst \<Longrightarrow> or_sigs src dst = Some (map2 (OR) dst src)"
  by (simp add: or_sigs_def)

lemma sigs_of_or:
  assumes "length (sig_array s) = length (sig_array d)"
  shows "sigs_of (Some (g\<lparr>sig_array := map2 (OR) (sig_array d) (sig_array s), mpm_content_maxlen := x, mpm_uricontent_maxlen := y\<rparr>)) =
    sigs_of (Some s) \<union> sigs_of (Some d)"
  using assms by (auto simp: sigs_of_def bit_or_iff)

text \<open>A copy adds the signatures of the source; without memory for a new group it does nothing and the callers go on.\<close>

lemma CopySigs_ok:
  assumes "sized e src" "sized e dst"
  shows "\<exists>r dst' st'. SigGroupHeadCopySigs e src dst st = Some (r, dst', st') \<and> sized e dst' \<and>
    (plenty e \<longrightarrow> r = 0 \<and> sigs_of dst' = sigs_of src \<union> sigs_of dst)"
proof (cases src)
  case None
  then show ?thesis using assms by (simp add: SigGroupHeadCopySigs_def)
next
  case (Some s)
  then obtain z where z: "sgh_size e = Some z" "length (sig_array s) = z" using assms(1) by (simp add: sized_def)
  show ?thesis
  proof (cases dst)
    case None
    obtain r st' where a: "SigGroupHeadAlloc e z st = (r, st')" by fastforce
    from SigGroupHeadAlloc_cases[OF a] show ?thesis
    proof (elim disjE conjE)
      assume "r = None" "\<not> (\<forall>n. mem_ok e n)"
      then show ?thesis using a z Some None by (auto simp: SigGroupHeadCopySigs_def plenty_def)
    next
      assume r: "r = Some \<lparr>sig_array = replicate z 0, sgh_sig_cnt = 0, mpm_content_maxlen = 0, mpm_uricontent_maxlen = 0\<rparr>"
      have "map2 (OR) (replicate z 0) (sig_array s) = sig_array s" using z(2) by (intro nth_equalityI) auto
      then show ?thesis using r a z Some None
        by (simp add: SigGroupHeadCopySigs_def or_sigs_same sized_def) (simp add: sigs_of_def)
    qed
  next
    case (Some d)
    then have "length (sig_array d) = z" using assms(2) z by (simp add: sized_def)
    then show ?thesis using \<open>src = Some s\<close> Some z
      by (simp add: SigGroupHeadCopySigs_def or_sigs_same sized_def sigs_of_or)
  qed
qed

lemma ClearSigs_ok [simp]: "sized e sgh \<Longrightarrow> sized e (SigGroupHeadClearSigs sgh)" "sigs_of (SigGroupHeadClearSigs sgh) = {}"
  by (auto simp: sized_def SigGroupHeadClearSigs_def sigs_of_def split: option.split)

lemma AppendSig_ok:
  assumes "sized e sgh" "plenty e" "sgh_size e = Some z" "unat (s_num s) < 8 * z"
  shows "\<exists>sgh' st'. SigGroupHeadAppendSig e sgh s st = Some (0, sgh', st') \<and> sized e sgh' \<and> sigs_of sgh' = insert (unat (s_num s)) (sigs_of sgh)"
proof -
  have "\<exists>d st'. (case sgh of Some d \<Rightarrow> (Some d, st) | None \<Rightarrow> SigGroupHeadAlloc e z st) = (Some d, st') \<and> length (sig_array d) = z \<and>
      sigs_of (Some d) = sigs_of sgh"
  proof (cases sgh)
    case None
    obtain r st' where a: "SigGroupHeadAlloc e z st = (r, st')" by fastforce
    from SigGroupHeadAlloc_cases[OF a] show ?thesis using assms(2) None a by (auto simp: plenty_def sigs_of_def)
  next
    case (Some d)
    then show ?thesis using assms(1,3) by (simp add: sized_def)
  qed
  then obtain d st' where d: "(case sgh of Some d \<Rightarrow> (Some d, st) | None \<Rightarrow> SigGroupHeadAlloc e z st) = (Some d, st')" "length (sig_array d) = z"
    "sigs_of (Some d) = sigs_of sgh" by blast
  let ?n = "unat (s_num s)"
  have n: "unat (s_num s div 8) = ?n div 8" "unat (s_num s mod 8) = ?n mod 8" by (simp_all add: unat_div unat_mod)
  have b: "bit (2 ^ (?n mod 8) :: u8) i \<longleftrightarrow> i = ?n mod 8" if "i < 8" for i
    using that by (auto simp: bit_exp_iff)
  have eq: "m = ?n" if "?n div 8 = m div 8" "m mod 8 = ?n mod 8" for m :: nat using that by (metis div_mult_mod_eq)
  have "sigs_of (Some (d\<lparr>sig_array := (sig_array d)[?n div 8 := sig_array d ! (?n div 8) OR push_bit (?n mod 8) 1]\<rparr>)) = insert ?n (sigs_of (Some d))"
    using d(2) assms(4) b by (auto simp: sigs_of_def nth_list_update bit_or_iff dest: eq split: if_splits)
  moreover have "sigs_of (Some (g\<lparr>mpm_content_maxlen := x\<rparr>)) = sigs_of (Some g)" "sigs_of (Some (g\<lparr>mpm_uricontent_maxlen := x\<rparr>)) = sigs_of (Some g)" for g x
    by (simp_all add: sigs_of_def)
  ultimately show ?thesis using d assms(3,4)
    by (simp add: SigGroupHeadAppendSig_def n Let_def sized_def)
qed

text \<open>What a computation that returns yields; the rules take one step of a \<open>do\<close> block after the other.\<close>

definition returns :: "('a \<Rightarrow> bool) \<Rightarrow> 'a option \<Rightarrow> bool" where
  "returns P x \<longleftrightarrow> (\<exists>y. x = Some y \<and> P y)"

lemma returns_simps [simp]: "returns P (Some y) \<longleftrightarrow> P y" "\<not> returns P None"
  by (simp_all add: returns_def)

lemma returns_bind: "returns P (x \<bind> f) \<longleftrightarrow> returns (\<lambda>y. returns P (f y)) x"
  by (cases x) simp_all

lemma returns_mono: "returns P x \<Longrightarrow> (\<And>y. P y \<Longrightarrow> Q y) \<Longrightarrow> returns Q x"
  by (auto simp: returns_def)

lemma returns_map: "returns P (map_option f x) \<longleftrightarrow> returns (\<lambda>y. P (f y)) x"
  by (cases x) simp_all

end
