(* ===== verification/DetectPort.thy ===== *)
theory DetectPort
  imports SigGroup
begin

text \<open>
  Groups of ports (\<open>src/detect-engine-port.c\<close>): a list of ranges, each with the signatures that look at its
  ports. Inserting a range cuts the ranges that overlap with it, so that every port is in one group. A linked list
  is the list of its nodes. \<open>None\<close> is a failed \<open>BUG_ON\<close>, or an access outside an array of signatures.
\<close>

section \<open>Ranges\<close>

text \<open>The lists that hang below a group (\<open>dst_ph\<close>) are not kept; they are \<open>NULL\<close> while groups are built.\<close>

record DetectPort =
  dp_port :: u16
  dp_port2 :: u16
  dp_sh :: "SigGroupHead option"
  dp_cnt :: u32
  dp_flags :: u8

definition PORT_FLAG_ANY :: u8 where "PORT_FLAG_ANY = 0x01"
definition PORT_FLAG_NOT :: u8 where "PORT_FLAG_NOT = 0x02"

datatype port_order = PORT_ER | PORT_LT | PORT_LE | PORT_EQ | PORT_ES | PORT_EB | PORT_GE | PORT_GT

definition DetectPortInit :: "det_env \<Rightarrow> det_mem \<Rightarrow> DetectPort option \<times> det_mem" where
  "DetectPortInit e st =
     (let (k, st) = d_malloc e st in
      if \<not> k then (None, st)
      else (Some \<lparr>dp_port = 0, dp_port2 = 0, dp_sh = None, dp_cnt = 0, dp_flags = 0\<rparr>,
            st\<lparr>detect_port_memory := detect_port_memory st + sizeof_port e, detect_port_init_cnt := detect_port_init_cnt st + 1\<rparr>))"

definition DetectPortFree :: "det_env \<Rightarrow> det_mem \<Rightarrow> det_mem" where
  "DetectPortFree e st =
     st\<lparr>detect_port_memory := detect_port_memory st - sizeof_port e, detect_port_free_cnt := detect_port_free_cnt st + 1\<rparr>"

definition is_any :: "DetectPort \<Rightarrow> bool" where
  "is_any a \<longleftrightarrow> dp_flags a AND PORT_FLAG_ANY \<noteq> 0"

definition DetectPortCmp :: "DetectPort \<Rightarrow> DetectPort \<Rightarrow> port_order option" where
  "DetectPortCmp a b =
     (if is_any a \<and> is_any b then Some PORT_EQ
      else if is_any a \<and> \<not> is_any b then Some PORT_LT
      else if \<not> is_any a \<and> is_any b then Some PORT_GT
      else
        let a1 = dp_port a; a2 = dp_port2 a; b1 = dp_port b; b2 = dp_port2 b in
        if a1 = b1 \<and> a2 = b2 then Some PORT_EQ
        else if a1 \<ge> b1 \<and> a1 \<le> b2 \<and> a2 \<le> b2 then Some PORT_ES
        else if a1 \<le> b1 \<and> a2 \<ge> b2 then Some PORT_EB
        else if a1 < b1 \<and> a2 < b2 \<and> a2 \<ge> b1 then Some PORT_LE
        else if a1 < b1 \<and> a2 < b2 then Some PORT_LT
        else if a1 > b1 \<and> a1 \<le> b2 \<and> a2 > b2 then Some PORT_GE
        else if a1 > b2 then Some PORT_GT
        else None)"

section \<open>Cutting\<close>

text \<open>\<open>DetectPortCut\<close> does not look at the result of the copies.\<close>

definition copy_sigs :: "det_env \<Rightarrow> SigGroupHead option \<Rightarrow> SigGroupHead option \<Rightarrow> det_mem \<Rightarrow> (SigGroupHead option \<times> det_mem) option" where
  "copy_sigs e src dst st = map_option snd (SigGroupHeadCopySigs e src dst st)"

type_synonym cut_result = "(int \<times> DetectPort \<times> DetectPort \<times> DetectPort option \<times> det_mem) option"

text \<open>The third part, when there is one.\<close>

definition part_c :: "det_env \<Rightarrow> u16 \<Rightarrow> u16 \<Rightarrow> det_mem \<Rightarrow> DetectPort option \<times> det_mem" where
  "part_c e p1 p2 st = (case DetectPortInit e st of (c, st) \<Rightarrow> (map_option (\<lambda>c. c\<lparr>dp_port := p1, dp_port2 := p2\<rparr>) c, st))"

definition cut_LE :: "det_env \<Rightarrow> DetectPort \<Rightarrow> DetectPort \<Rightarrow> det_mem \<Rightarrow> cut_result" where
  "cut_LE e a0 b0 st =
     (let a = a0\<lparr>dp_port2 := dp_port b0 - 1\<rparr>; b = b0\<lparr>dp_port2 := dp_port2 a0\<rparr> in
      case part_c e (dp_port2 a0 + 1) (dp_port2 b0) st of
        (None, st) \<Rightarrow> Some (- 1, a, b, None, st)
      | (Some c, st) \<Rightarrow> do {
          (c_sh, st) \<leftarrow> copy_sigs e (dp_sh b) (dp_sh c) st;
          (b_sh, st) \<leftarrow> copy_sigs e (dp_sh a) (dp_sh b) st;
          let c = c\<lparr>dp_sh := c_sh, dp_cnt := dp_cnt c + dp_cnt b\<rparr>;
          let b = b\<lparr>dp_sh := b_sh, dp_cnt := dp_cnt b + dp_cnt a\<rparr>;
          Some (0, a, b, Some c, st)
        })"

definition cut_GE :: "det_env \<Rightarrow> DetectPort \<Rightarrow> DetectPort \<Rightarrow> det_mem \<Rightarrow> cut_result" where
  "cut_GE e a0 b0 st =
     (let a = a0\<lparr>dp_port := dp_port b0, dp_port2 := dp_port a0 - 1\<rparr>; b = b0\<lparr>dp_port := dp_port a0\<rparr> in
      case part_c e (dp_port2 b0 + 1) (dp_port2 a0) st of
        (None, st) \<Rightarrow> Some (- 1, a, b, None, st)
      | (Some c, st) \<Rightarrow> do {
          (tmp, st) \<leftarrow> copy_sigs e (dp_sh a) None st;
          let a_sh = SigGroupHeadClearSigs (dp_sh a);
          (c_sh, st) \<leftarrow> copy_sigs e tmp (dp_sh c) st;
          (a_sh, st) \<leftarrow> copy_sigs e (dp_sh b) a_sh st;
          (b_sh, st) \<leftarrow> copy_sigs e tmp (dp_sh b) st;
          let c = c\<lparr>dp_sh := c_sh, dp_cnt := dp_cnt c + dp_cnt a\<rparr>;
          let b' = b\<lparr>dp_sh := b_sh, dp_cnt := dp_cnt b + dp_cnt a\<rparr>;
          let a = a\<lparr>dp_sh := a_sh, dp_cnt := dp_cnt b\<rparr>;
          Some (0, a, b', Some c, st)
        })"

definition cut_ES :: "det_env \<Rightarrow> DetectPort \<Rightarrow> DetectPort \<Rightarrow> det_mem \<Rightarrow> cut_result" where
  "cut_ES e a0 b0 st =
     (if dp_port a0 = dp_port b0 then do {
        let b = b0\<lparr>dp_port := dp_port2 a0 + 1\<rparr>;
        (a_sh, st) \<leftarrow> copy_sigs e (dp_sh b) (dp_sh a0) st;
        Some (0, a0\<lparr>dp_sh := a_sh, dp_cnt := dp_cnt a0 + dp_cnt b\<rparr>, b, None, st)
      }
      else
        let a = a0\<lparr>dp_port := dp_port b0, dp_port2 := dp_port a0 - 1\<rparr>;
            b = b0\<lparr>dp_port := dp_port a0, dp_port2 := dp_port2 a0\<rparr> in
        if dp_port2 a0 = dp_port2 b0 then do {
          (b_sh, st) \<leftarrow> copy_sigs e (dp_sh a) (dp_sh b) st;
          Some (0, a, b\<lparr>dp_sh := b_sh, dp_cnt := dp_cnt b + dp_cnt a\<rparr>, None, st)
        }
        else
          case part_c e (dp_port2 a0 + 1) (dp_port2 b0) st of
            (None, st) \<Rightarrow> Some (- 1, a, b, None, st)
          | (Some c, st) \<Rightarrow> do {
              (tmp, st) \<leftarrow> copy_sigs e (dp_sh a) None st;
              let a_sh = SigGroupHeadClearSigs (dp_sh a);
              (c_sh, st) \<leftarrow> copy_sigs e (dp_sh b) (dp_sh c) st;
              (a_sh, st) \<leftarrow> copy_sigs e (dp_sh b) a_sh st;
              (b_sh, st) \<leftarrow> copy_sigs e tmp (dp_sh b) st;
              let c = c\<lparr>dp_sh := c_sh, dp_cnt := dp_cnt c + dp_cnt b\<rparr>;
              let b' = b\<lparr>dp_sh := b_sh, dp_cnt := dp_cnt b + dp_cnt a\<rparr>;
              let a = a\<lparr>dp_sh := a_sh, dp_cnt := dp_cnt b\<rparr>;
              Some (0, a, b', Some c, st)
            })"

definition cut_EB :: "det_env \<Rightarrow> DetectPort \<Rightarrow> DetectPort \<Rightarrow> det_mem \<Rightarrow> cut_result" where
  "cut_EB e a0 b0 st =
     (if dp_port a0 = dp_port b0 then do {
        let a = a0\<lparr>dp_port2 := dp_port2 b0\<rparr>;
        let b = b0\<lparr>dp_port := dp_port2 b0 + 1, dp_port2 := dp_port2 a0\<rparr>;
        (tmp, st) \<leftarrow> copy_sigs e (dp_sh b) None st;
        let b_sh = SigGroupHeadClearSigs (dp_sh b);
        (b_sh, st) \<leftarrow> copy_sigs e (dp_sh a) b_sh st;
        (a_sh, st) \<leftarrow> copy_sigs e tmp (dp_sh a) st;
        Some (0, a\<lparr>dp_sh := a_sh, dp_cnt := dp_cnt a + dp_cnt b\<rparr>, b\<lparr>dp_sh := b_sh, dp_cnt := dp_cnt a\<rparr>, None, st)
      }
      else
        let a = a0\<lparr>dp_port2 := dp_port b0 - 1\<rparr> in
        if dp_port2 a0 = dp_port2 b0 then do {
          (b_sh, st) \<leftarrow> copy_sigs e (dp_sh a) (dp_sh b0) st;
          Some (0, a, b0\<lparr>dp_sh := b_sh, dp_cnt := dp_cnt b0 + dp_cnt a\<rparr>, None, st)
        }
        else
          case part_c e (dp_port2 b0 + 1) (dp_port2 a0) st of
            (None, st) \<Rightarrow> Some (- 1, a, b0, None, st)
          | (Some c, st) \<Rightarrow> do {
              (b_sh, st) \<leftarrow> copy_sigs e (dp_sh a) (dp_sh b0) st;
              (c_sh, st) \<leftarrow> copy_sigs e (dp_sh a) (dp_sh c) st;
              let b = b0\<lparr>dp_sh := b_sh, dp_cnt := dp_cnt b0 + dp_cnt a\<rparr>;
              let c = c\<lparr>dp_sh := c_sh, dp_cnt := dp_cnt c + dp_cnt a\<rparr>;
              Some (0, a, b, Some c, st)
            })"

text \<open>\<open>a\<close> is in the list, \<open>b\<close> is the new range. \<open>tmp\<close> is allocated first and freed last.\<close>

definition DetectPortCut :: "det_env \<Rightarrow> DetectPort \<Rightarrow> DetectPort \<Rightarrow> det_mem \<Rightarrow> cut_result" where
  "DetectPortCut e a b st = do {
     r \<leftarrow> DetectPortCmp a b;
     cut \<leftarrow> (case r of PORT_LE \<Rightarrow> Some cut_LE | PORT_GE \<Rightarrow> Some cut_GE | PORT_ES \<Rightarrow> Some cut_ES | PORT_EB \<Rightarrow> Some cut_EB | _ \<Rightarrow> None);
     case DetectPortInit e st of
       (None, st) \<Rightarrow> Some (- 1, a, b, None, st)
     | (Some tmp, st) \<Rightarrow> do {
         (r, a, b, c, st) \<leftarrow> cut e a b st;
         Some (r, a, b, c, DetectPortFree e st)
       }
   }"

definition DetectPortCutNot :: "det_env \<Rightarrow> DetectPort \<Rightarrow> det_mem \<Rightarrow> int \<times> DetectPort \<times> DetectPort option \<times> det_mem" where
  "DetectPortCutNot e a st =
     (let a1 = dp_port a; a2 = dp_port2 a in
      if a1 \<noteq> 0 \<and> a2 \<noteq> 0xFFFF then
        let a = a\<lparr>dp_port := 0, dp_port2 := a1 - 1\<rparr> in
        (case part_c e (a2 + 1) 0xFFFF st of
           (None, st) \<Rightarrow> (- 1, a, None, st)
         | (Some b, st) \<Rightarrow> (0, a, Some b, st))
      else if a1 = 0 \<and> a2 \<noteq> 0xFFFF then (0, a\<lparr>dp_port := a2 + 1, dp_port2 := 0xFFFF\<rparr>, None, st)
      else if a1 \<noteq> 0 \<and> a2 = 0xFFFF then (0, a\<lparr>dp_port := 0, dp_port2 := a1 - 1\<rparr>, None, st)
      else (- 1, a, None, st))"

section \<open>Lists\<close>

text \<open>The groups in front of the place of \<open>new\<close>: all that are smaller, but the last one ends the walk.\<close>

fun insert_place :: "DetectPort \<Rightarrow> DetectPort list \<Rightarrow> DetectPort list \<times> DetectPort list" where
  "insert_place new [] = ([], [])"
| "insert_place new (cur # xs) =
     (if DetectPortCmp new cur = Some PORT_GT then (case insert_place new xs of (ys, zs) \<Rightarrow> (cur # ys, zs)) else ([], cur # xs))"

text \<open>
  \<open>news\<close> is the new node with the nodes that hang behind it, the empty list for \<open>NULL\<close>. When it is put behind
  the last group, or becomes the head, they come with it; in front of a group it loses them. The new node is
  not one of the list.
\<close>

partial_function (option) DetectPortInsert :: "det_env \<Rightarrow> DetectPort list \<Rightarrow> DetectPort list \<Rightarrow> det_mem
    \<Rightarrow> (int \<times> DetectPort list \<times> det_mem) option" where
  "DetectPortInsert e head news st =
     (case news of [] \<Rightarrow> Some (0, head, st)
      | new # rest \<Rightarrow>
     (case insert_place new head of
        (pre, []) \<Rightarrow> Some (1, pre @ new # rest, st)
      | (pre, cur # post) \<Rightarrow> do {
          r \<leftarrow> DetectPortCmp new cur;
          case r of
            PORT_ER \<Rightarrow> None
          | PORT_EQ \<Rightarrow> do {
              (sh, st) \<leftarrow> copy_sigs e (dp_sh new) (dp_sh cur) st;
              Some (0, pre @ cur\<lparr>dp_sh := sh, dp_cnt := dp_cnt cur + dp_cnt new\<rparr> # post, DetectPortFree e st)
            }
          | PORT_LT \<Rightarrow> Some (1, pre @ new # cur # post, st)
          | _ \<Rightarrow> do {
              (r, cur, new, c, st) \<leftarrow> DetectPortCut e cur new st;
              let head = pre @ cur # post;
              if r = - 1 then Some (- 1, head, st)
              else do {
                (r, head, st) \<leftarrow> DetectPortInsert e head (new # rest) st;
                if r = - 1 then Some (- 1, head, st)
                else (case c of
                        None \<Rightarrow> Some (1, head, st)
                      | Some c \<Rightarrow> do {
                          (r, head, st) \<leftarrow> DetectPortInsert e head [c] st;
                          Some (if r = - 1 then - 1 else 1, head, st)
                        })
              }
            }
        }))"

declare DetectPortInsert.simps [code]

definition DetectPortCopySingle :: "det_env \<Rightarrow> DetectPort \<Rightarrow> det_mem \<Rightarrow> (DetectPort option \<times> det_mem) option" where
  "DetectPortCopySingle e src st =
     (case part_c e (dp_port src) (dp_port2 src) st of
        (None, st) \<Rightarrow> Some (None, st)
      | (Some d, st) \<Rightarrow> do {
          (sh, st) \<leftarrow> copy_sigs e (dp_sh src) (dp_sh d) st;
          Some (Some (d\<lparr>dp_sh := sh\<rparr>), st)
        })"

definition DetectPortInsertCopy :: "det_env \<Rightarrow> DetectPort list \<Rightarrow> DetectPort \<Rightarrow> det_mem \<Rightarrow> (int \<times> DetectPort list \<times> det_mem) option" where
  "DetectPortInsertCopy e head new st = do {
     (copy, st) \<leftarrow> DetectPortCopySingle e new st;
     case copy of None \<Rightarrow> Some (- 1, head, st) | Some c \<Rightarrow> DetectPortInsert e head [c] st
   }"

text \<open>The copy of a list ends where the memory ends.\<close>

fun DetectPortCopy :: "det_env \<Rightarrow> DetectPort list \<Rightarrow> det_mem \<Rightarrow> DetectPort list \<times> det_mem" where
  "DetectPortCopy e [] st = ([], st)"
| "DetectPortCopy e (x # xs) st =
     (case part_c e (dp_port x) (dp_port2 x) st of
        (None, st) \<Rightarrow> ([], st)
      | (Some d, st) \<Rightarrow> (case DetectPortCopy e xs st of (ds, st) \<Rightarrow> (d # ds, st)))"

fun DetectPortAdd :: "DetectPort list \<Rightarrow> DetectPort \<Rightarrow> DetectPort list option" where
  "DetectPortAdd [] dp = Some [dp]"
| "DetectPortAdd (cur # xs) dp = do {
     r \<leftarrow> DetectPortCmp dp cur;
     if r = PORT_EB then Some (dp # cur # xs) else map_option ((#) cur) (DetectPortAdd xs dp)
   }"

fun DetectPortLookup :: "DetectPort list \<Rightarrow> DetectPort \<Rightarrow> DetectPort option option" where
  "DetectPortLookup [] dp = Some None"
| "DetectPortLookup (cur # xs) dp = do {
     r \<leftarrow> DetectPortCmp cur dp;
     if r = PORT_EQ then Some (Some cur) else DetectPortLookup xs dp
   }"

definition DetectPortMatch :: "DetectPort \<Rightarrow> u16 \<Rightarrow> bool" where
  "DetectPortMatch dp port \<longleftrightarrow> port \<ge> dp_port dp \<and> port \<le> dp_port2 dp"

fun DetectPortLookupGroup :: "DetectPort list \<Rightarrow> u16 \<Rightarrow> DetectPort option" where
  "DetectPortLookupGroup [] port = None"
| "DetectPortLookupGroup (p # ps) port = (if DetectPortMatch p port then Some p else DetectPortLookupGroup ps port)"

definition DetectPortJoin :: "det_env \<Rightarrow> DetectPort \<Rightarrow> DetectPort \<Rightarrow> det_mem \<Rightarrow> (DetectPort \<times> det_mem) option" where
  "DetectPortJoin e target source st = do {
     let target = target\<lparr>dp_cnt := dp_cnt target + dp_cnt source\<rparr>;
     (sh, st) \<leftarrow> copy_sigs e (dp_sh source) (dp_sh target) st;
     let target = target\<lparr>dp_sh := sh\<rparr>;
     let target = (if dp_port source < dp_port target then target\<lparr>dp_port := dp_port source\<rparr> else target);
     let target = (if dp_port2 source > dp_port2 target then target\<lparr>dp_port2 := dp_port2 source\<rparr> else target);
     Some (target, st)
   }"

text \<open>The loop over the groups behind the first; \<open>next_port\<close> is the port that has to come.\<close>

fun complete_from :: "u16 \<Rightarrow> DetectPort list \<Rightarrow> bool" where
  "complete_from next_port [] = False"
| "complete_from next_port (p # ps) =
     (if dp_port p \<noteq> next_port then False
      else if dp_port2 p = 0xFFFF then True
      else complete_from (dp_port2 p + 1) ps)"

definition DetectPortIsCompletePortSpace :: "DetectPort list \<Rightarrow> bool" where
  "DetectPortIsCompletePortSpace ps =
     (case ps of [] \<Rightarrow> False
      | p # ps \<Rightarrow>
          if dp_port p \<noteq> 0 then False
          else if dp_port2 p = 0xFFFF then True
          else complete_from (dp_port2 p + 1) ps)"

section \<open>Hashing\<close>

text \<open>The ports are promoted to \<open>int\<close> before the multiplication, which is undefined when it overflows.\<close>

definition DetectPortHashFunc :: "u32 \<Rightarrow> DetectPort \<Rightarrow> u32 option" where
  "DetectPortHashFunc array_size p =
     (if uint (dp_port p) * uint (dp_port2 p) < 2 ^ 31
      then Some (word_of_int (uint (dp_port p) * uint (dp_port2 p)) mod array_size) else None)"

definition DetectPortCompareFunc :: "DetectPort \<Rightarrow> DetectPort \<Rightarrow> bool" where
  "DetectPortCompareFunc p1 p2 \<longleftrightarrow> dp_port2 p1 = dp_port2 p2 \<and> dp_port p1 = dp_port p2 \<and> dp_flags p1 = dp_flags p2"

end
