(* ===== verification/DetectPortGroups.thy ===== *)
theory DetectPortGroups
  imports DetectPort
begin

text \<open>
  The groups of a list as sets of ports with sets of signatures: cutting and inserting keep the list ordered and
  without overlaps, and add the ports and the signatures of the new range.
\<close>

section \<open>Well-formed lists\<close>

definition ports :: "DetectPort \<Rightarrow> u16 set" where
  "ports a = {dp_port a..dp_port2 a}"

definition group_ok :: "det_env \<Rightarrow> DetectPort \<Rightarrow> bool" where
  "group_ok e a \<longleftrightarrow> \<not> is_any a \<and> dp_port a \<le> dp_port2 a \<and> sized e (dp_sh a)"

definition behind :: "DetectPort \<Rightarrow> DetectPort \<Rightarrow> bool" where
  "behind a b \<longleftrightarrow> dp_port2 a < dp_port b"

definition groups_ok :: "det_env \<Rightarrow> DetectPort list \<Rightarrow> bool" where
  "groups_ok e xs \<longleftrightarrow> sorted_wrt behind xs \<and> (\<forall>a\<in>set xs. group_ok e a)"

definition covered :: "DetectPort list \<Rightarrow> u16 set" where
  "covered xs = (\<Union>a\<in>set xs. ports a)"

definition sigs_at :: "DetectPort list \<Rightarrow> u16 \<Rightarrow> nat set" where
  "sigs_at xs p = (\<Union>a\<in>{a \<in> set xs. p \<in> ports a}. sigs_of (dp_sh a))"

lemma covered_simps [simp]:
  "covered [] = {}" "covered (a # xs) = ports a \<union> covered xs" "covered (xs @ ys) = covered xs \<union> covered ys"
  by (auto simp: covered_def)

lemma sigs_at_simps [simp]:
  "sigs_at [] p = {}" "sigs_at (a # xs) p = (if p \<in> ports a then sigs_of (dp_sh a) else {}) \<union> sigs_at xs p"
  "sigs_at (xs @ ys) p = sigs_at xs p \<union> sigs_at ys p"
  by (auto simp: sigs_at_def)

lemma le_pred: "(a :: u16) < b \<Longrightarrow> x \<le> b - 1 \<longleftrightarrow> x < b"
  by (subgoal_tac "b \<noteq> 0") (auto simp: word_le_nat_alt word_less_nat_alt unat_minus_one unat_gt_0)

lemma succ_le: "(a :: u16) < b \<Longrightarrow> a + 1 \<le> x \<longleftrightarrow> a < x"
proof -
  assume "a < b"
  then have "unat a + 1 < 2 ^ 16" using unat_bound[of b] by (simp add: word_less_nat_alt)
  then have "unat (a + 1) = unat a + 1" by (simp add: unat_word_ariths)
  then show ?thesis by (simp add: word_le_nat_alt word_less_nat_alt Suc_le_eq)
qed

lemma pred_le: "(a :: u16) < b \<Longrightarrow> b \<le> x \<Longrightarrow> b - 1 \<le> x"
  using le_pred[of a b "b - 1"] by (metis less_imp_le order_trans order_refl)

lemma step_less: "(a :: u16) < b \<Longrightarrow> b - 1 < b" "(a :: u16) < b \<Longrightarrow> a < a + 1"
  using le_pred[of a b "b - 1"] succ_le[of a b "a + 1"] by simp_all

lemma ports_nonempty: "group_ok e a \<Longrightarrow> dp_port a \<in> ports a \<and> dp_port2 a \<in> ports a"
  by (simp add: group_ok_def ports_def)

section \<open>Comparing\<close>

definition overlap :: "DetectPort \<Rightarrow> DetectPort \<Rightarrow> bool" where
  "overlap a b \<longleftrightarrow> dp_port a \<le> dp_port2 b \<and> dp_port b \<le> dp_port2 a"

lemma Cmp_nat:
  fixes a1 a2 b1 b2 :: nat
  assumes "a1 \<le> a2" "b1 \<le> b2"
  shows "(if a1 = b1 \<and> a2 = b2 then EQ else if a1 \<ge> b1 \<and> a1 \<le> b2 \<and> a2 \<le> b2 then ES else if a1 \<le> b1 \<and> a2 \<ge> b2 then EB
      else if a1 < b1 \<and> a2 < b2 \<and> a2 \<ge> b1 then LE else if a1 < b1 \<and> a2 < b2 then LT
      else if a1 > b1 \<and> a1 \<le> b2 \<and> a2 > b2 then GE else if a1 > b2 then GT else ER) =
    (if a2 < b1 then LT else if b2 < a1 then GT else if a1 = b1 \<and> a2 = b2 then EQ else if b1 \<le> a1 \<and> a2 \<le> b2 then ES
     else if a1 \<le> b1 \<and> b2 \<le> a2 then EB else if a1 < b1 then LE else GE)"
  using assms by simp

lemma Cmp_eq:
  assumes "group_ok e a" "group_ok e b"
  shows "DetectPortCmp a b =
    Some (if behind a b then PORT_LT else if behind b a then PORT_GT
     else if dp_port a = dp_port b \<and> dp_port2 a = dp_port2 b then PORT_EQ
     else if dp_port b \<le> dp_port a \<and> dp_port2 a \<le> dp_port2 b then PORT_ES
     else if dp_port a \<le> dp_port b \<and> dp_port2 b \<le> dp_port2 a then PORT_EB
     else if dp_port a < dp_port b then PORT_LE else PORT_GE)"
proof -
  have *: "\<not> is_any a" "\<not> is_any b" "unat (dp_port a) \<le> unat (dp_port2 a)" "unat (dp_port b) \<le> unat (dp_port2 b)"
    using assms by (simp_all add: group_ok_def word_le_nat_alt)
  show ?thesis
    unfolding DetectPortCmp_def Let_def behind_def word_le_nat_alt word_less_nat_alt word_unat_eq_iff
    using *(1,2) by (simp only: simp_thms if_True if_False Cmp_nat[OF *(3,4)] if_distrib[of Some])
qed

section \<open>Cutting\<close>

lemma copy_returns:
  assumes "sized e src" "sized e dst"
    "\<And>d st'. sized e d \<Longrightarrow> plenty e \<longrightarrow> sigs_of d = sigs_of src \<union> sigs_of dst \<Longrightarrow> returns P (f (d, st'))"
  shows "returns P (copy_sigs e src dst st \<bind> f)"
  using CopySigs_ok[OF assms(1,2), of st] assms(3) by (auto simp: copy_sigs_def)

lemma part_c_cases:
  obtains (failed) st' where "part_c e p1 p2 st = (None, st')" "\<not> plenty e"
  | (part) st' where "part_c e p1 p2 st = (Some \<lparr>dp_port = p1, dp_port2 = p2, dp_sh = None, dp_cnt = 0, dp_flags = 0\<rparr>, st')"
  by (cases "mem_ok e (d_mallocs st)") (auto simp: part_c_def DetectPortInit_def d_malloc_def plenty_def Let_def)

definition opt :: "'a option \<Rightarrow> 'a list" where
  "opt c = (case c of None \<Rightarrow> [] | Some x \<Rightarrow> [x])"

lemma opt_simps [simp]: "opt None = []" "opt (Some x) = [x]"
  by (simp_all add: opt_def)

text \<open>A group lies inside a set of ports or outside of it.\<close>

definition aligned :: "u16 set \<Rightarrow> u16 set \<Rightarrow> bool" where
  "aligned g n \<longleftrightarrow> g \<subseteq> n \<or> g \<inter> n = {}"

text \<open>
  The parts of two overlapping ranges: in order, without overlap, and together the same ports. The conditions
  on the last ports say how far they reach. Every part lies inside or outside of each range. The signatures are right unless
  the new range ends with the old one and starts before it.
\<close>

definition shared_end :: "DetectPort \<Rightarrow> DetectPort \<Rightarrow> bool" where
  "shared_end a b \<longleftrightarrow> dp_port b < dp_port a \<and> dp_port2 a = dp_port2 b"

definition parts_ok :: "det_env \<Rightarrow> DetectPort \<Rightarrow> DetectPort \<Rightarrow> DetectPort \<Rightarrow> DetectPort \<Rightarrow> DetectPort option \<Rightarrow> bool" where
  "parts_ok e a b a' b' c \<longleftrightarrow>
     group_ok e a' \<and> group_ok e b' \<and> behind a' b' \<and> dp_port2 a' \<le> dp_port2 a \<and> covered (a' # b' # opt c) = ports a \<union> ports b \<and>
     (dp_port2 b' \<le> dp_port2 a \<or> dp_port2 b' = dp_port2 b \<and> dp_port2 a < dp_port b') \<and>
     (\<forall>c'. c = Some c' \<longrightarrow> group_ok e c' \<and> behind b' c' \<and> dp_port2 b' \<le> dp_port2 a \<and>
        (dp_port2 c' \<le> dp_port2 a \<or> dp_port2 c' = dp_port2 b \<and> dp_port2 a < dp_port c')) \<and>
     (\<forall>g\<in>set (a' # b' # opt c). aligned (ports g) (ports a) \<and> aligned (ports g) (ports b)) \<and>
     (plenty e \<and> \<not> shared_end a b \<longrightarrow> (\<forall>p. sigs_at (a' # b' # opt c) p = sigs_at [a, b] p))"

definition cut_ok :: "det_env \<Rightarrow> DetectPort \<Rightarrow> DetectPort \<Rightarrow> int \<times> DetectPort \<times> DetectPort \<times> DetectPort option \<times> det_mem \<Rightarrow> bool" where
  "cut_ok e a b = (\<lambda>(r, a', b', c, st).
     r = 0 \<and> parts_ok e a b a' b' c \<or>
     r = - 1 \<and> \<not> plenty e \<and> group_ok e a' \<and> ports a' \<subseteq> ports a \<union> ports b \<and> dp_port2 a' \<le> dp_port2 a)"

lemma is_any_simps [simp]:
  "is_any (a\<lparr>dp_port := p\<rparr>) = is_any a" "is_any (a\<lparr>dp_port2 := p\<rparr>) = is_any a" "is_any (a\<lparr>dp_sh := s\<rparr>) = is_any a"
  "is_any (a\<lparr>dp_cnt := n\<rparr>) = is_any a" "\<not> is_any \<lparr>dp_port = p, dp_port2 = q, dp_sh = s, dp_cnt = n, dp_flags = 0\<rparr>"
  by (simp_all add: is_any_def)

lemma ports_simps [simp]:
  "ports (a\<lparr>dp_port := p\<rparr>) = {p..dp_port2 a}" "ports (a\<lparr>dp_port2 := q\<rparr>) = {dp_port a..q}" "ports (a\<lparr>dp_sh := s\<rparr>) = ports a"
  "ports (a\<lparr>dp_cnt := n\<rparr>) = ports a" "ports \<lparr>dp_port = p, dp_port2 = q, dp_sh = s, dp_cnt = n, dp_flags = f\<rparr> = {p..q}"
  by (simp_all add: ports_def)

text \<open>An interval of ports in two parts.\<close>

lemma split_pred: "(p :: u16) < q \<Longrightarrow> q \<le> r \<Longrightarrow> {p..r} = {p..q - 1} \<union> {q..r}"
  by (auto simp: le_pred)

lemma split_succ: "(p :: u16) \<le> q \<Longrightarrow> q < r \<Longrightarrow> {p..r} = {p..q} \<union> {q + 1..r}"
  by (auto simp: succ_le)

lemmas cut_simps = cut_ok_def parts_ok_def group_ok_def behind_def shared_end_def

lemma cut_LE_ok:
  assumes ok: "group_ok e a" "group_ok e b" and lt: "dp_port a < dp_port b" "dp_port b \<le> dp_port2 a" "dp_port2 a < dp_port2 b"
  shows "returns (cut_ok e a b) (cut_LE e a b st)"
proof -
  have A: "ports a = {dp_port a..dp_port b - 1} \<union> {dp_port b..dp_port2 a}" using split_pred[OF lt(1,2)] by (simp add: ports_def)
  have B: "ports b = {dp_port b..dp_port2 a} \<union> {dp_port2 a + 1..dp_port2 b}" using split_succ[OF lt(2,3)] by (simp add: ports_def)
  have le: "dp_port a \<le> dp_port b - 1" "dp_port2 a + 1 \<le> dp_port2 b" "dp_port b - 1 \<le> dp_port2 a"
    using lt by (simp_all add: le_pred succ_le pred_le)
  have al: "aligned {dp_port a..dp_port b - 1} (ports a)" "aligned {dp_port a..dp_port b - 1} (ports b)" "aligned {dp_port b..dp_port2 a} (ports a)"
    "aligned {dp_port b..dp_port2 a} (ports b)" "aligned {dp_port2 a + 1..dp_port2 b} (ports a)" "aligned {dp_port2 a + 1..dp_port2 b} (ports b)"
    using lt le step_less[OF lt(1)] step_less[OF lt(3)] unfolding aligned_def ports_def by (auto simp: le_pred succ_le)
  show ?thesis
  proof (cases rule: part_c_cases[of e "dp_port2 a + 1" "dp_port2 b" st])
    case (failed st')
    then show ?thesis using ok lt le A B by (auto simp: cut_LE_def cut_simps)
  next
    case (part st')
    then show ?thesis using ok lt le A B step_less[OF lt(1)] step_less[OF lt(3)] al unfolding cut_LE_def Let_def
      by (auto intro!: copy_returns simp: cut_simps)
  qed
qed

lemma cut_GE_ok:
  assumes ok: "group_ok e a" "group_ok e b" and lt: "dp_port b < dp_port a" "dp_port a \<le> dp_port2 b" "dp_port2 b < dp_port2 a"
  shows "returns (cut_ok e a b) (cut_GE e a b st)"
proof -
  have B: "ports b = {dp_port b..dp_port a - 1} \<union> {dp_port a..dp_port2 b}" using split_pred[OF lt(1,2)] by (simp add: ports_def)
  have A: "ports a = {dp_port a..dp_port2 b} \<union> {dp_port2 b + 1..dp_port2 a}" using split_succ[OF lt(2,3)] by (simp add: ports_def)
  have le: "dp_port b \<le> dp_port a - 1" "dp_port2 b + 1 \<le> dp_port2 a" "dp_port a - 1 \<le> dp_port2 a" "dp_port2 b \<le> dp_port2 a"
    using lt by (simp_all add: le_pred succ_le pred_le)
  have al: "aligned {dp_port b..dp_port a - 1} (ports a)" "aligned {dp_port b..dp_port a - 1} (ports b)" "aligned {dp_port a..dp_port2 b} (ports a)"
    "aligned {dp_port a..dp_port2 b} (ports b)" "aligned {dp_port2 b + 1..dp_port2 a} (ports a)" "aligned {dp_port2 b + 1..dp_port2 a} (ports b)"
    using lt le step_less[OF lt(1)] step_less[OF lt(3)] unfolding aligned_def ports_def by (auto simp: le_pred succ_le)
  show ?thesis
  proof (cases rule: part_c_cases[of e "dp_port2 b + 1" "dp_port2 a" st])
    case (failed st')
    then show ?thesis using ok lt le A B by (auto simp: cut_GE_def cut_simps)
  next
    case (part st')
    then show ?thesis using ok lt le A B step_less[OF lt(1)] step_less[OF lt(3)] al unfolding cut_GE_def Let_def
      by (auto intro!: copy_returns simp: cut_simps)
  qed
qed

lemma cut_ES_ok:
  assumes ok: "group_ok e a" "group_ok e b" and le: "dp_port b \<le> dp_port a" "dp_port2 a \<le> dp_port2 b"
    and ne: "(dp_port a, dp_port2 a) \<noteq> (dp_port b, dp_port2 b)"
  shows "returns (cut_ok e a b) (cut_ES e a b st)"
proof (cases "dp_port a = dp_port b")
  case True
  have v: "dp_port a \<le> dp_port2 a" using ok by (simp add: group_ok_def)
  have lt: "dp_port2 a < dp_port2 b" using True ne le by auto
  have B: "ports b = ports a \<union> {dp_port2 a + 1..dp_port2 b}" using split_succ[OF v lt] True by (simp add: ports_def)
  have al: "aligned (ports a) (ports a)" "aligned (ports a) (ports b)" "aligned {dp_port2 a + 1..dp_port2 b} (ports a)"
    "aligned {dp_port2 a + 1..dp_port2 b} (ports b)"
    using lt v True step_less[OF lt] unfolding aligned_def ports_def by (auto simp: succ_le)
  have "dp_port2 a + 1 \<le> dp_port2 b" using lt by (simp add: succ_le)
  then show ?thesis using ok True lt B al step_less[OF lt] unfolding cut_ES_def Let_def
    by (auto intro!: copy_returns simp: cut_simps)
next
  case False
  have v: "dp_port a \<le> dp_port2 a" using ok by (simp add: group_ok_def)
  have lt: "dp_port b < dp_port a" using False le by auto
  have B: "{dp_port b..dp_port2 a} = {dp_port b..dp_port a - 1} \<union> ports a" using split_pred[OF lt v] by (simp add: ports_def)
  have le1: "dp_port b \<le> dp_port a - 1" "dp_port a - 1 \<le> dp_port2 a" using lt v by (simp_all add: le_pred pred_le)
  have al: "aligned (ports a) (ports a)" "aligned (ports a) (ports b)" "aligned {dp_port b..dp_port a - 1} (ports a)"
    "aligned {dp_port b..dp_port a - 1} (ports b)"
    using lt v le le1 step_less[OF lt] unfolding aligned_def ports_def by (auto simp: le_pred)
  show ?thesis
  proof (cases "dp_port2 a = dp_port2 b")
    case True
    have "ports b = {dp_port b..dp_port a - 1} \<union> ports a" using B True by (simp add: ports_def)
    then show ?thesis using ok False True lt v le1 al step_less[OF lt] unfolding cut_ES_def Let_def
      by (auto intro!: copy_returns simp: cut_simps ports_def[of a])
  next
    case ends: False
    then have lt2: "dp_port2 a < dp_port2 b" using le by auto
    have "dp_port b \<le> dp_port2 a" using le(1) v by simp
    from split_succ[OF this lt2] have B2: "ports b = ({dp_port b..dp_port a - 1} \<union> ports a) \<union> {dp_port2 a + 1..dp_port2 b}"
      using B by (simp add: ports_def[of b])
    have le2: "dp_port2 a + 1 \<le> dp_port2 b" using lt2 by (simp add: succ_le)
    have al2: "aligned {dp_port2 a + 1..dp_port2 b} (ports a)" "aligned {dp_port2 a + 1..dp_port2 b} (ports b)"
      using lt lt2 v le step_less[OF lt2] unfolding aligned_def ports_def by (auto simp: succ_le)
    show ?thesis
    proof (cases rule: part_c_cases[of e "dp_port2 a + 1" "dp_port2 b" st])
      case (failed st')
      then show ?thesis using ok False ends le1 B2 by (auto simp: cut_ES_def cut_simps)
    next
      case (part st')
      have "{dp_port a..dp_port2 a} = ports a" by (simp add: ports_def)
      then show ?thesis using part ok False ends lt lt2 le1 le2 v B2 al al2 step_less[OF lt] step_less[OF lt2] unfolding cut_ES_def Let_def
        by (auto intro!: copy_returns simp: cut_simps)
    qed
  qed
qed

lemma cut_EB_ok:
  assumes ok: "group_ok e a" "group_ok e b" and le: "dp_port a \<le> dp_port b" "dp_port2 b \<le> dp_port2 a"
    and ne: "(dp_port a, dp_port2 a) \<noteq> (dp_port b, dp_port2 b)"
  shows "returns (cut_ok e a b) (cut_EB e a b st)"
proof (cases "dp_port a = dp_port b")
  case True
  have v: "dp_port b \<le> dp_port2 b" using ok by (simp add: group_ok_def)
  have lt: "dp_port2 b < dp_port2 a" using True ne le by auto
  have A: "ports a = ports b \<union> {dp_port2 b + 1..dp_port2 a}" "{dp_port b..dp_port2 b} = ports b"
    using split_succ[OF v lt] True by (simp_all add: ports_def)
  have al: "aligned (ports b) (ports a)" "aligned (ports b) (ports b)" "aligned {dp_port2 b + 1..dp_port2 a} (ports a)"
    "aligned {dp_port2 b + 1..dp_port2 a} (ports b)"
    using lt v True step_less[OF lt] unfolding aligned_def ports_def by (auto simp: succ_le)
  have "dp_port2 b + 1 \<le> dp_port2 a" using lt by (simp add: succ_le)
  then show ?thesis using ok True lt v A al step_less[OF lt] unfolding cut_EB_def Let_def
    by (auto intro!: copy_returns simp: cut_simps)
next
  case False
  have v: "dp_port b \<le> dp_port2 b" using ok by (simp add: group_ok_def)
  have lt: "dp_port a < dp_port b" using False le by auto
  have A: "{dp_port a..dp_port2 b} = {dp_port a..dp_port b - 1} \<union> ports b" using split_pred[OF lt v] by (simp add: ports_def)
  have le1: "dp_port a \<le> dp_port b - 1" "dp_port b - 1 \<le> dp_port2 b" "dp_port b - 1 \<le> dp_port2 a"
    using lt v le by (simp_all add: le_pred pred_le)
  have al: "aligned (ports b) (ports a)" "aligned (ports b) (ports b)" "aligned {dp_port a..dp_port b - 1} (ports a)"
    "aligned {dp_port a..dp_port b - 1} (ports b)"
    using lt v le le1 step_less[OF lt] unfolding aligned_def ports_def by (auto simp: le_pred)
  show ?thesis
  proof (cases "dp_port2 a = dp_port2 b")
    case True
    have "ports a = {dp_port a..dp_port b - 1} \<union> ports b" using A True by (simp add: ports_def)
    then show ?thesis using ok False True lt v le1 al step_less[OF lt] unfolding cut_EB_def Let_def
      by (auto intro!: copy_returns simp: cut_simps)
  next
    case ends: False
    then have lt2: "dp_port2 b < dp_port2 a" using le by auto
    have "dp_port a \<le> dp_port2 b" using le(1) v by simp
    from split_succ[OF this lt2] have A2: "ports a = ({dp_port a..dp_port b - 1} \<union> ports b) \<union> {dp_port2 b + 1..dp_port2 a}"
      using A by (simp add: ports_def[of a])
    have le2: "dp_port2 b + 1 \<le> dp_port2 a" using lt2 by (simp add: succ_le)
    have al2: "aligned {dp_port2 b + 1..dp_port2 a} (ports a)" "aligned {dp_port2 b + 1..dp_port2 a} (ports b)"
      using lt lt2 v le step_less[OF lt2] unfolding aligned_def ports_def by (auto simp: succ_le)
    show ?thesis
    proof (cases rule: part_c_cases[of e "dp_port2 b + 1" "dp_port2 a" st])
      case (failed st')
      then show ?thesis using ok False ends le1 A2 by (auto simp: cut_EB_def cut_simps)
    next
      case (part st')
      then show ?thesis using ok False ends lt lt2 le1 le2 v A2 al al2 step_less[OF lt] step_less[OF lt2] unfolding cut_EB_def Let_def
        by (auto intro!: copy_returns simp: cut_simps)
    qed
  qed
qed

lemma DetectPortInit_cases:
  obtains (failed) st' where "DetectPortInit e st = (None, st')" "\<not> plenty e"
  | (new) tmp st' where "DetectPortInit e st = (Some tmp, st')"
  by (cases "mem_ok e (d_mallocs st)") (auto simp: DetectPortInit_def d_malloc_def plenty_def Let_def)

lemma DetectPortCut_ok:
  assumes ok: "group_ok e a" "group_ok e b" and ov: "\<not> behind a b" "\<not> behind b a" and ne: "(dp_port a, dp_port2 a) \<noteq> (dp_port b, dp_port2 b)"
  shows "returns (cut_ok e a b) (DetectPortCut e a b st)"
proof (cases rule: DetectPortInit_cases[of e st])
  case (failed st')
  then show ?thesis using ok ov ne Cmp_eq[OF ok] by (auto simp: DetectPortCut_def cut_ok_def ports_def)
next
  case (new tmp st')
  have free: "returns (cut_ok e a b) (x \<bind> (\<lambda>(r, a, b, c, st). Some (r, a, b, c, DetectPortFree e st)))" if "returns (cut_ok e a b) x" for x
    using that by (auto simp: returns_def cut_ok_def)
  consider "dp_port b \<le> dp_port a" "dp_port2 a \<le> dp_port2 b"
    | "\<not> (dp_port b \<le> dp_port a \<and> dp_port2 a \<le> dp_port2 b)" "dp_port a \<le> dp_port b" "dp_port2 b \<le> dp_port2 a"
    | "dp_port a < dp_port b" "dp_port2 a < dp_port2 b" | "dp_port b < dp_port a" "dp_port2 b < dp_port2 a"
    by (meson linorder_not_le less_imp_le)
  then show ?thesis
  proof cases
    case 1
    then have "DetectPortCmp a b = Some PORT_ES" using ov ne Cmp_eq[OF ok] by auto
    then show ?thesis using new 1 ne by (simp add: DetectPortCut_def free cut_ES_ok[OF ok])
  next
    case 2
    then have "DetectPortCmp a b = Some PORT_EB" using ov ne Cmp_eq[OF ok] by auto
    then show ?thesis using new 2 ne by (simp add: DetectPortCut_def free cut_EB_ok[OF ok])
  next
    case 3
    then have "\<not> dp_port b \<le> dp_port a" "\<not> dp_port2 b \<le> dp_port2 a" "dp_port a \<noteq> dp_port b" by auto
    then have "DetectPortCmp a b = Some PORT_LE" using 3 ov Cmp_eq[OF ok] by simp
    then show ?thesis using new 3 ov by (simp add: DetectPortCut_def free cut_LE_ok[OF ok] behind_def not_less)
  next
    case 4
    then have "\<not> dp_port a \<le> dp_port b" "\<not> dp_port2 a \<le> dp_port2 b" "\<not> dp_port a < dp_port b" "dp_port a \<noteq> dp_port b" by auto
    then have "DetectPortCmp a b = Some PORT_GE" using 4 ov Cmp_eq[OF ok] by simp
    then show ?thesis using new 4 ov by (simp add: DetectPortCut_def free cut_GE_ok[OF ok] behind_def not_less)
  qed
qed

end
