(* ===== verification/DetectPortInsert.thy ===== *)
theory DetectPortInsert
  imports DetectPortGroups
begin

text \<open>
  Inserting a range into a list of groups (\<open>DetectPortInsert\<close> in \<open>src/detect-engine-port.c\<close>).
\<close>

section \<open>The place of a range\<close>

lemma behind_asym: "group_ok e a \<Longrightarrow> group_ok e b \<Longrightarrow> behind a b \<Longrightarrow> \<not> behind b a"
  by (auto simp: behind_def group_ok_def)

lemma Cmp_GT: "group_ok e a \<Longrightarrow> group_ok e b \<Longrightarrow> DetectPortCmp a b = Some PORT_GT \<longleftrightarrow> behind b a"
  using behind_asym[of e a b] by (auto simp: Cmp_eq)

lemma insert_place_eq:
  assumes "\<forall>g\<in>set pre. group_ok e g \<and> behind g new" "\<forall>g\<in>set post. group_ok e g" "group_ok e new" "post = [] \<or> \<not> behind (hd post) new"
  shows "insert_place new (pre @ post) = (pre, post)"
  using assms(1)
proof (induction pre)
  case Nil
  then show ?case using assms by (cases post) (auto simp: Cmp_GT)
next
  case (Cons g pre)
  then show ?case using Cmp_GT[OF assms(3)] by simp
qed

lemma insert_place_split:
  assumes "\<forall>g\<in>set xs. group_ok e g" "group_ok e new"
  obtains pre post where "xs = pre @ post" "insert_place new xs = (pre, post)" "\<forall>g\<in>set pre. behind g new" "post = [] \<or> \<not> behind (hd post) new"
proof -
  let ?pre = "takeWhile (\<lambda>g. behind g new) xs" and ?post = "dropWhile (\<lambda>g. behind g new) xs"
  have p: "\<forall>g\<in>set ?pre. behind g new" by (auto dest: set_takeWhileD)
  have q: "?post = [] \<or> \<not> behind (hd ?post) new" using hd_dropWhile[of "\<lambda>g. behind g new" xs] by blast
  have s: "set ?pre \<subseteq> set xs" "set ?post \<subseteq> set xs" by (auto dest: set_takeWhileD set_dropWhileD)
  have "insert_place new (?pre @ ?post) = (?pre, ?post)"
    by (rule insert_place_eq[OF _ _ assms(2) q]) (use assms(1) p s in blast)+
  with p q show ?thesis by (intro that[of ?pre ?post]) simp_all
qed

lemma behind_trans: "behind a b \<Longrightarrow> behind b c \<Longrightarrow> group_ok e b \<Longrightarrow> behind a c"
  by (auto simp: behind_def group_ok_def)

lemma groups_ok_append:
  "groups_ok e (xs @ ys) \<longleftrightarrow> groups_ok e xs \<and> groups_ok e ys \<and> (\<forall>x\<in>set xs. \<forall>y\<in>set ys. behind x y)"
  by (auto simp: groups_ok_def sorted_wrt_append)

lemma groups_ok_Cons: "groups_ok e (x # ys) \<longleftrightarrow> group_ok e x \<and> groups_ok e ys \<and> (\<forall>y\<in>set ys. behind x y)"
  by (auto simp: groups_ok_def)

lemmas groups_ok_simps = groups_ok_append groups_ok_Cons

lemma groups_ok_Nil [simp]: "groups_ok e []"
  by (simp add: groups_ok_def)

lemma groups_okD: "groups_ok e xs \<Longrightarrow> x \<in> set xs \<Longrightarrow> group_ok e x"
  by (simp add: groups_ok_def)

text \<open>A range between two groups is linked between them.\<close>

lemma insert_between:
  assumes "groups_ok e (pre @ new # post)"
  shows "DetectPortInsert e (pre @ post) [new] st = Some (1, pre @ new # post, st)"
proof -
  have ok: "group_ok e new" "\<forall>g\<in>set pre. group_ok e g \<and> behind g new" "\<forall>g\<in>set post. group_ok e g \<and> behind new g"
    using assms by (auto simp: groups_ok_simps dest: groups_okD)
  have "post = [] \<or> \<not> behind (hd post) new"
    using ok by (cases post) (auto simp: behind_def group_ok_def)
  then have "insert_place new (pre @ post) = (pre, post)" using insert_place_eq[of pre e new post] ok by blast
  then show ?thesis using ok by (subst DetectPortInsert.simps) (auto simp: Cmp_eq split: list.split)
qed

section \<open>Inserting\<close>

text \<open>A group ends where the new range ends, and the port in front of it is in no group.\<close>

definition ends_in :: "DetectPort \<Rightarrow> DetectPort list \<Rightarrow> bool" where
  "ends_in new xs \<longleftrightarrow> (\<exists>g\<in>set xs. shared_end g new \<and> dp_port g - 1 \<notin> covered xs)"

definition insert_post :: "det_env \<Rightarrow> DetectPort list \<Rightarrow> DetectPort \<Rightarrow> int \<times> DetectPort list \<times> det_mem \<Rightarrow> bool" where
  "insert_post e xs new = (\<lambda>(r, xs', st').
     groups_ok e xs' \<and> covered xs' \<subseteq> covered xs \<union> ports new \<and>
     (r = - 1 \<and> \<not> plenty e \<or>
      (r = 0 \<or> r = 1) \<and> covered xs' = covered xs \<union> ports new \<and>
      (\<forall>g\<in>set xs'. \<forall>h\<in>set (new # xs). aligned (ports g) (ports h)) \<and>
      (plenty e \<and> \<not> ends_in new xs \<longrightarrow> (\<forall>p. sigs_at xs' p = sigs_at xs p \<union> sigs_at [new] p))))"

lemma aligned_refl [simp]: "aligned g g"
  by (simp add: aligned_def)

lemma behind_aligned: "behind a b \<Longrightarrow> aligned (ports a) (ports b)" "behind a b \<Longrightarrow> aligned (ports b) (ports a)"
  by (auto simp: aligned_def behind_def ports_def)

lemma groups_aligned: "groups_ok e xs \<Longrightarrow> g \<in> set xs \<Longrightarrow> h \<in> set xs \<Longrightarrow> aligned (ports g) (ports h)"
  by (induction xs) (auto simp: groups_ok_simps behind_aligned)

lemma aligned_cover: "(\<And>P. P \<in> S \<Longrightarrow> aligned g P \<and> aligned P n) \<Longrightarrow> n \<subseteq> \<Union> S \<Longrightarrow> aligned g n"
  unfolding aligned_def by blast

lemma not_covered: "\<forall>g\<in>set xs. dp_port2 g < p \<Longrightarrow> p \<notin> covered xs"
  by (auto simp: covered_def ports_def)

text \<open>What is left to insert after a cut ends like the new range or with the group that was cut.\<close>

lemma ends_in_rest:
  assumes "ends_in x (mid @ post)" and ok: "groups_ok e (pre @ cur # post)" "\<forall>g\<in>set mid. group_ok e g \<and> behind g x"
    and ov: "\<not> behind cur new" and x: "dp_port2 x \<le> dp_port2 cur \<or> dp_port2 x = dp_port2 new \<and> dp_port2 cur < dp_port x"
  shows "ends_in new (pre @ cur # post)"
proof -
  obtain g where g: "g \<in> set (mid @ post)" "shared_end g x" "dp_port g - 1 \<notin> covered (mid @ post)" using assms(1) by (auto simp: ends_in_def)
  have "g \<notin> set mid" using g(2) ok(2) by (auto simp: shared_end_def behind_def group_ok_def)
  then have gp: "g \<in> set post" using g(1) by simp
  then have v: "dp_port g \<le> dp_port2 g" "dp_port2 cur < dp_port g"
    using ok(1) by (auto simp: groups_ok_simps behind_def group_ok_def dest: groups_okD)
  then have x2: "dp_port2 x = dp_port2 new" "dp_port2 cur < dp_port x" using x g(2) by (auto simp: shared_end_def)
  have lt: "dp_port x < dp_port g" using g(2) by (simp add: shared_end_def)
  then have "dp_port2 cur < dp_port g - 1" using x2(2) le_pred[OF lt, of "dp_port x"] by simp
  moreover have "\<forall>h\<in>set pre. dp_port2 h < dp_port cur" "dp_port cur \<le> dp_port2 cur"
    using ok(1) by (auto simp: groups_ok_simps behind_def group_ok_def)
  ultimately have "dp_port g - 1 \<notin> covered (pre @ [cur])"
    by (intro not_covered) auto
  moreover have "shared_end g new" using g(2) x2(1) ov v by (simp add: shared_end_def behind_def not_less)
  ultimately show ?thesis using g(3) gp by (auto simp: ends_in_def)
qed

lemma ends_in_cut:
  assumes "shared_end cur new" "groups_ok e (pre @ cur # post)" "\<forall>g\<in>set pre. behind g new"
  shows "ends_in new (pre @ cur # post)"
proof -
  have lt: "dp_port new < dp_port cur" using assms(1) by (simp add: shared_end_def)
  have "dp_port new \<le> dp_port cur - 1" "dp_port cur - 1 < dp_port cur" using le_pred[OF lt, of "dp_port new"] lt step_less(1)[OF lt] by simp_all
  then have "dp_port cur - 1 \<notin> covered pre" "dp_port cur - 1 \<notin> ports cur" "dp_port cur - 1 \<notin> covered post"
    using assms(2,3) by (auto simp: covered_def ports_def groups_ok_simps behind_def group_ok_def dest!: groups_okD)
  then show ?thesis using assms(1) by (auto simp: ends_in_def)
qed

text \<open>The groups that are not in front of the range: there are fewer of them for every part that is left after a cut.\<close>

definition to_pass :: "DetectPort \<Rightarrow> DetectPort list \<Rightarrow> nat" where
  "to_pass new xs = length (filter (\<lambda>g. \<not> behind g new) xs)"

lemma to_pass_less:
  assumes "groups_ok e (pre @ cur # post)" "\<not> behind cur new" "\<forall>g\<in>set mid. behind g x"
  shows "to_pass x (mid @ post) < to_pass new (pre @ cur # post)"
proof -
  have "\<forall>g\<in>set post. \<not> behind g new"
    using assms(1,2) behind_trans[of cur _ new e] by (auto simp: groups_ok_simps dest: groups_okD)
  then have "filter (\<lambda>g. \<not> behind g new) post = post" by simp
  moreover have "filter (\<lambda>g. \<not> behind g x) mid = []" using assms(3) by simp
  ultimately show ?thesis using assms(2) by (simp add: to_pass_def less_Suc_eq_le trans_le_add2)
qed

text \<open>The list after a cut, without the parts that are still to be inserted.\<close>

lemma groups_ok_cut:
  assumes "groups_ok e (pre @ cur # post)" "\<forall>g\<in>set pre. behind g new" "group_ok e new"
    and "group_ok e a" "ports a \<subseteq> ports cur \<union> ports new" "dp_port2 a \<le> dp_port2 cur"
  shows "groups_ok e (pre @ a # post)"
proof -
  have "dp_port a \<in> ports cur \<union> ports new" using assms(4,5) ports_nonempty by blast
  then have "behind g a" if "g \<in> set pre" for g
    using that assms(1,2) by (auto simp: groups_ok_simps behind_def ports_def)
  moreover have "behind a g" if "g \<in> set post" for g
    using that assms(1,6) by (auto simp: groups_ok_simps behind_def)
  ultimately show ?thesis using assms(1,4) by (auto simp: groups_ok_simps)
qed

lemma insert_post_parts:
  assumes post: "insert_post e (mid @ post) x y" and parts: "parts_ok e cur new a b c" and ok: "groups_ok e (pre @ cur # post)"
    and front: "\<forall>g\<in>set pre. behind g new" "\<not> behind cur new" and mid: "\<forall>g\<in>set mid. group_ok e g \<and> behind g x"
    and x: "dp_port2 x \<le> dp_port2 cur \<or> dp_port2 x = dp_port2 new \<and> dp_port2 cur < dp_port x"
    and eq: "set (mid @ [x]) = set (pre @ a # b # opt c)"
  shows "insert_post e (pre @ cur # post) new y"
proof -
  obtain r xs' st' where y: "y = (r, xs', st')" by (cases y)
  have cov: "covered (mid @ [x]) = covered (pre @ a # b # opt c)" unfolding covered_def eq ..
  have sig: "sigs_at (mid @ [x]) p = sigs_at (pre @ a # b # opt c) p" for p unfolding sigs_at_def eq ..
  have cn: "covered (a # b # opt c) = ports cur \<union> ports new" using parts by (simp add: parts_ok_def)
  then have c: "covered (mid @ post) \<union> ports x = covered (pre @ cur # post) \<union> ports new" using cov by auto
  have e: "ends_in x (mid @ post) \<Longrightarrow> ends_in new (pre @ cur # post)" using ends_in_rest[OF _ ok mid front(2) x] .
  have s: "sigs_at (mid @ post) p \<union> sigs_at [x] p = sigs_at (pre @ cur # post) p \<union> sigs_at [new] p"
    if "plenty e" "\<not> ends_in new (pre @ cur # post)" for p
  proof -
    have "\<not> shared_end cur new" using that(2) ends_in_cut[OF _ ok front(1)] by blast
    then have "sigs_at (a # b # opt c) p = sigs_at [cur, new] p" using parts that(1) unfolding parts_ok_def by blast
    then show ?thesis using sig[of p] by auto
  qed
  have al: "aligned (ports g) (ports h)" if g: "g \<in> set xs'" "r \<noteq> - 1" and h: "h \<in> set (new # pre @ cur # post)" for g h
  proof -
    have all: "aligned (ports g) (ports h)" if "h \<in> set (mid @ [x]) \<union> set post" for h
      using post g that unfolding y insert_post_def by auto
    have "aligned (ports g) n" if "n = ports cur \<or> n = ports new" for n
    proof (rule aligned_cover[of "ports ` set (a # b # opt c)"])
      show "n \<subseteq> \<Union> (ports ` set (a # b # opt c))" using cn that by (auto simp: covered_def)
      show "aligned (ports g) P \<and> aligned P n" if "P \<in> ports ` set (a # b # opt c)" for P
        using that \<open>n = ports cur \<or> n = ports new\<close> parts all unfolding parts_ok_def eq by auto
    qed
    then show ?thesis using h all unfolding eq by auto
  qed
  show ?thesis using post c e s al unfolding y insert_post_def by auto
qed

text \<open>One call when the walk stops at \<open>cur\<close>: what is left is inserted after a cut.\<close>

lemma insert_step_cut:
  assumes place: "insert_place new xs = (pre, cur # qs)" and ok: "group_ok e new" "group_ok e cur"
    and ov: "\<not> behind new cur" "\<not> behind cur new" "\<not> (dp_port new = dp_port cur \<and> dp_port2 new = dp_port2 cur)"
    and cut: "DetectPortCut e cur new st = Some (r, a, b, c, st')"
  shows "DetectPortInsert e xs [new] st =
    (if r = - 1 then Some (- 1, pre @ a # qs, st')
     else do {
       (r, head, st) \<leftarrow> DetectPortInsert e (pre @ a # qs) [b] st';
       if r = - 1 then Some (- 1, head, st)
       else (case c of None \<Rightarrow> Some (1, head, st)
             | Some c \<Rightarrow> do {
                 (r, head, st) \<leftarrow> DetectPortInsert e head [c] st;
                 Some (if r = - 1 then - 1 else 1, head, st)
               })
     })"
proof -
  have "DetectPortCmp new cur \<in> {Some PORT_ES, Some PORT_EB, Some PORT_LE, Some PORT_GE}"
    unfolding Cmp_eq[OF ok] using ov by (simp only: if_False split: if_split) blast
  then show ?thesis using place cut by (subst DetectPortInsert.simps) auto
qed

lemma insert_after_cut:
  assumes IH: "\<And>ys x st. to_pass x ys < to_pass new (pre @ cur # qs) \<Longrightarrow> groups_ok e ys \<Longrightarrow> group_ok e x \<Longrightarrow>
      returns (insert_post e ys x) (DetectPortInsert e ys [x] st)"
    and ok: "groups_ok e (pre @ cur # qs)" "group_ok e new" and front: "\<forall>g\<in>set pre. behind g new" "\<not> behind cur new"
    and parts: "parts_ok e cur new a b c"
  shows "returns (insert_post e (pre @ cur # qs) new) (do {
       (r, head, st) \<leftarrow> DetectPortInsert e (pre @ a # qs) [b] st';
       if r = - 1 then Some (- 1, head, st)
       else (case c of None \<Rightarrow> Some (1, head, st)
             | Some c \<Rightarrow> do {
                 (r, head, st) \<leftarrow> DetectPortInsert e head [c] st;
                 Some (if r = - 1 then - 1 else 1, head, st)
               })
     })" (is "returns _ ?run")
proof -
  have a: "group_ok e a" "group_ok e b" "behind a b" "ports a \<subseteq> ports cur \<union> ports new" "dp_port2 a \<le> dp_port2 cur"
    using parts by (auto simp: parts_ok_def)
  then have g: "groups_ok e (pre @ a # qs)" using groups_ok_cut[OF ok(1) front(1) ok(2)] by blast
  then have "\<forall>h\<in>set pre. group_ok e h \<and> behind h a" by (auto simp: groups_ok_simps dest: groups_okD)
  then have mid: "\<forall>h\<in>set (pre @ [a]). group_ok e h \<and> behind h b" using a behind_trans[of _ a b e] by auto
  show ?thesis
  proof (cases c)
    case None
    have "to_pass b (pre @ a # qs) < to_pass new (pre @ cur # qs)"
      using to_pass_less[OF ok(1) front(2), of "pre @ [a]" b] mid by simp
    from IH[OF this g a(2), of st'] obtain y where y: "DetectPortInsert e (pre @ a # qs) [b] st' = Some y"
      "insert_post e ((pre @ [a]) @ qs) b y" by (auto simp: returns_def)
    have "insert_post e (pre @ cur # qs) new y"
      using insert_post_parts[OF y(2) parts ok(1) front mid] parts None by (auto simp: parts_ok_def)
    then show ?thesis using None y(1) by (cases y) (auto simp: insert_post_def)
  next
    case (Some d)
    then have d: "group_ok e d" "behind b d" "dp_port2 b \<le> dp_port2 cur"
      "dp_port2 d \<le> dp_port2 cur \<or> dp_port2 d = dp_port2 new \<and> dp_port2 cur < dp_port d"
      using parts by (auto simp: parts_ok_def)
    have "behind b h" if "h \<in> set qs" for h using that d(3) ok(1) by (auto simp: groups_ok_simps behind_def)
    then have g': "groups_ok e (pre @ a # b # qs)" using g a mid by (auto simp: groups_ok_simps)
    then have ib: "DetectPortInsert e (pre @ a # qs) [b] st' = Some (1, pre @ a # b # qs, st')"
      using insert_between[of e "pre @ [a]" b qs] by simp
    have mid': "\<forall>h\<in>set (pre @ [a, b]). group_ok e h \<and> behind h d"
      using mid a(2) d(2) behind_trans[of _ b d e] by auto
    have "to_pass d (pre @ a # b # qs) < to_pass new (pre @ cur # qs)"
      using to_pass_less[OF ok(1) front(2), of "pre @ [a, b]" d] mid' by simp
    from IH[OF this g' d(1), of st'] obtain y where y: "DetectPortInsert e (pre @ a # b # qs) [d] st' = Some y"
      "insert_post e ((pre @ [a, b]) @ qs) d y" by (auto simp: returns_def)
    have "insert_post e (pre @ cur # qs) new y"
      using insert_post_parts[OF y(2) parts ok(1) front mid' d(4)] Some by simp
    then show ?thesis using Some ib y(1) by (cases y) (auto simp: insert_post_def)
  qed
qed

lemma insert_step_eq:
  assumes place: "insert_place new (pre @ cur # qs) = (pre, cur # qs)" and ok: "groups_ok e (pre @ cur # qs)" "group_ok e new"
    and eq: "dp_port new = dp_port cur" "dp_port2 new = dp_port2 cur"
  shows "returns (insert_post e (pre @ cur # qs) new) (DetectPortInsert e (pre @ cur # qs) [new] st)"
proof -
  have cur: "group_ok e cur" using ok(1) by (simp add: groups_ok_simps)
  then have same: "ports cur = ports new" "\<not> behind new cur" "\<not> behind cur new"
    using eq by (simp_all add: ports_def behind_def group_ok_def not_less)
  have "groups_ok e (pre @ cur\<lparr>dp_sh := sh, dp_cnt := n\<rparr> # qs)" if "sized e sh" for sh n
    using ok(1) that by (auto simp: groups_ok_simps group_ok_def behind_def)
  moreover have "\<forall>g\<in>set (pre @ cur # qs). \<forall>h\<in>set (pre @ cur # qs). aligned (ports g) (ports h)" using groups_aligned[OF ok(1)] by blast
  ultimately show ?thesis using place eq same cur ok(2)
    by (subst DetectPortInsert.simps) (auto simp: Cmp_eq insert_post_def group_ok_def intro!: copy_returns)
qed

lemma DetectPortInsert_ok:
  assumes "groups_ok e xs" "group_ok e new"
  shows "returns (insert_post e xs new) (DetectPortInsert e xs [new] st)"
  using assms
proof (induction "to_pass new xs" arbitrary: xs new st rule: less_induct)
  case less
  have oks: "\<forall>g\<in>set xs. group_ok e g" using less.prems(1) by (simp add: groups_ok_def)
  obtain pre post where p: "xs = pre @ post" "insert_place new xs = (pre, post)" "\<forall>g\<in>set pre. behind g new"
    "post = [] \<or> \<not> behind (hd post) new"
    using insert_place_split[OF oks less.prems(2)] by blast
  show ?case
  proof (cases post)
    case Nil
    have "groups_ok e (pre @ [new])" using Nil p less.prems by (simp add: groups_ok_simps)
    from groups_aligned[OF this] show ?thesis using Nil p less.prems
      by (subst DetectPortInsert.simps) (auto simp: insert_post_def groups_ok_simps)
  next
    case (Cons cur qs)
    have ok: "groups_ok e (pre @ cur # qs)" "group_ok e cur" and nb: "\<not> behind cur new"
      using less.prems p(1,4) Cons oks by simp_all
    consider (lt) "behind new cur" | (eq) "dp_port new = dp_port cur" "dp_port2 new = dp_port2 cur"
      | (cut) "\<not> behind new cur" "\<not> (dp_port new = dp_port cur \<and> dp_port2 new = dp_port2 cur)" by blast
    then show ?thesis
    proof cases
      case lt
      have "behind new g" if "g \<in> set qs" for g
        using behind_trans[OF lt _ ok(2)] that ok(1) by (simp add: groups_ok_simps)
      then have "groups_ok e (pre @ new # cur # qs)" using ok lt p(3) less.prems(2) by (auto simp: groups_ok_simps)
      from this groups_aligned[OF this] show ?thesis using insert_between p(1) Cons by (auto simp: insert_post_def)
    next
      case eq
      then show ?thesis using insert_step_eq[of new pre cur qs e st] p(1,2) Cons ok(1) less.prems(2) by simp
    next
      case cut
      have "(dp_port cur, dp_port2 cur) \<noteq> (dp_port new, dp_port2 new)" using cut(2) by auto
      from DetectPortCut_ok[OF ok(2) less.prems(2) nb cut(1) this, of st]
      obtain r a b c st' where r: "DetectPortCut e cur new st = Some (r, a, b, c, st')" "cut_ok e cur new (r, a, b, c, st')"
        by (auto simp: returns_def)
      note step = insert_step_cut[OF p(2)[unfolded Cons] less.prems(2) ok(2) cut(1) nb cut(2) r(1)]
      show ?thesis
      proof (cases "r = - 1")
        case True
        then have "groups_ok e (pre @ a # qs)" "\<not> plenty e" "ports a \<subseteq> ports cur \<union> ports new"
          using r(2) groups_ok_cut[OF ok(1) p(3) less.prems(2)] by (auto simp: cut_ok_def)
        then show ?thesis unfolding step using True p(1) Cons by (auto simp: insert_post_def)
      next
        case False
        then have "parts_ok e cur new a b c" using r(2) by (simp add: cut_ok_def)
        from insert_after_cut[OF _ ok(1) less.prems(2) p(3) nb this] show ?thesis
          unfolding step using False less.hyps p(1) Cons by simp
      qed
    qed
  qed
qed

end
