(* ===== verification/DetectPortLists.thy ===== *)
theory DetectPortLists
  imports DetectPortInsert
begin

text \<open>
  Lists of port groups as the detection engine uses them: the group of a port, lists made by insertions, and the
  list that covers all ports.
\<close>

section \<open>The group of a port\<close>

lemma DetectPortMatch_iff: "DetectPortMatch g p \<longleftrightarrow> p \<in> ports g"
  by (auto simp: DetectPortMatch_def ports_def)

lemma behind_disjoint: "behind a b \<Longrightarrow> p \<in> ports a \<Longrightarrow> p \<notin> ports b"
  by (auto simp: behind_def ports_def)

lemma sigs_at_outside: "p \<notin> covered xs \<Longrightarrow> sigs_at xs p = {}"
  by (auto simp: sigs_at_def covered_def)

lemma LookupGroup_cases:
  assumes "groups_ok e xs"
  shows "case DetectPortLookupGroup xs p of None \<Rightarrow> p \<notin> covered xs
     | Some g \<Rightarrow> g \<in> set xs \<and> p \<in> ports g \<and> sigs_of (dp_sh g) = sigs_at xs p"
  using assms
proof (induction xs)
  case (Cons x xs)
  have "sigs_at xs p = {}" if "p \<in> ports x"
    using that Cons.prems behind_disjoint by (intro sigs_at_outside) (auto simp: groups_ok_simps covered_def)
  then show ?case using Cons by (auto simp: groups_ok_simps DetectPortMatch_iff split: option.splits)
qed simp

text \<open>The signatures that look at a packet with a port.\<close>

definition sigs_for :: "DetectPort list \<Rightarrow> u16 \<Rightarrow> nat set" where
  "sigs_for xs p = (case DetectPortLookupGroup xs p of None \<Rightarrow> {} | Some g \<Rightarrow> sigs_of (dp_sh g))"

lemma sigs_for_eq: "groups_ok e xs \<Longrightarrow> sigs_for xs p = sigs_at xs p"
  using LookupGroup_cases[of e xs p] sigs_at_outside by (auto simp: sigs_for_def split: option.splits)

lemma LookupGroup_covered: "groups_ok e xs \<Longrightarrow> DetectPortLookupGroup xs p \<noteq> None \<longleftrightarrow> p \<in> covered xs"
  using LookupGroup_cases[of e xs p] by (auto simp: covered_def split: option.splits)

section \<open>Several insertions\<close>

fun insert_all :: "det_env \<Rightarrow> DetectPort list \<Rightarrow> DetectPort list \<Rightarrow> det_mem \<Rightarrow> (int list \<times> DetectPort list \<times> det_mem) option" where
  "insert_all e [] head st = Some ([], head, st)"
| "insert_all e (p # ps) head st = do {
     (r, head, st) \<leftarrow> DetectPortInsert e head [p] st;
     (rs, head, st) \<leftarrow> insert_all e ps head st;
     Some (r # rs, head, st)
   }"

lemma insert_all_ok:
  assumes "groups_ok e head" "\<forall>p\<in>set ps. group_ok e p"
  shows "\<exists>rs head' st'. insert_all e ps head st = Some (rs, head', st') \<and> length rs = length ps \<and> set rs \<subseteq> {0, 1, - 1} \<and>
    (- 1 \<in> set rs \<longrightarrow> \<not> plenty e) \<and> groups_ok e head' \<and> covered head' \<subseteq> covered head \<union> covered ps \<and>
    (- 1 \<notin> set rs \<longrightarrow> covered head' = covered head \<union> covered ps)"
  using assms
proof (induction ps arbitrary: head st)
  case (Cons p ps)
  obtain r head1 st1 where i: "DetectPortInsert e head [p] st = Some (r, head1, st1)" "insert_post e head p (r, head1, st1)"
    using DetectPortInsert_ok[of e head p st] Cons.prems by (auto simp: returns_def)
  then have ok: "groups_ok e head1" by (simp add: insert_post_def)
  obtain rs head2 st2 where r: "insert_all e ps head1 st1 = Some (rs, head2, st2)" "length rs = length ps" "set rs \<subseteq> {0, 1, - 1}"
    "- 1 \<in> set rs \<longrightarrow> \<not> plenty e" "groups_ok e head2" "covered head2 \<subseteq> covered head1 \<union> covered ps"
    "- 1 \<notin> set rs \<longrightarrow> covered head2 = covered head1 \<union> covered ps"
    using Cons.IH[OF ok, of st1] Cons.prems(2) by auto
  show ?case using i r by (auto simp: insert_post_def)
qed simp

section \<open>All ports\<close>

lemma u16_max: "(q :: u16) \<le> 0xFFFF"
  using unat_bound[of q] by (simp add: word_le_nat_alt)

lemma complete_from_iff:
  assumes "groups_ok e xs" "\<forall>g\<in>set xs. nx \<le> dp_port g"
  shows "complete_from nx xs \<longleftrightarrow> {nx..} \<subseteq> covered xs"
  using assms
proof (induction nx xs rule: complete_from.induct)
  case (1 nx)
  then show ?case by simp
next
  case (2 nx p ps)
  have ok: "group_ok e p" "groups_ok e ps" "\<forall>g\<in>set ps. behind p g" using 2(2) by (simp_all add: groups_ok_simps)
  show ?case
  proof (cases "dp_port p = nx")
    case False
    then have "\<forall>g\<in>set (p # ps). nx < dp_port g" using 2(3) ok by (auto simp: behind_def group_ok_def)
    then have "nx \<notin> covered (p # ps)" by (auto simp: covered_def ports_def)
    then show ?thesis using False by auto
  next
    case first: True
    show ?thesis
    proof (cases "dp_port2 p = 0xFFFF")
      case True
      then show ?thesis using first u16_max by (auto simp: ports_def)
    next
      case False
      then have lt: "dp_port2 p < 0xFFFF" using u16_max[of "dp_port2 p"] by (simp add: order.not_eq_order_implies_strict)
      have le: "\<forall>g\<in>set ps. dp_port2 p + 1 \<le> dp_port g" using ok(3) lt by (simp add: succ_le behind_def)
      have "q \<in> {nx..} \<longleftrightarrow> q \<in> ports p \<or> q \<in> {dp_port2 p + 1..}" for q
        using first ok(1) by (auto simp: ports_def succ_le[OF lt] group_ok_def)
      moreover have "ports p \<inter> {dp_port2 p + 1..} = {}" by (auto simp: ports_def succ_le[OF lt])
      ultimately have "{nx..} \<subseteq> covered (p # ps) \<longleftrightarrow> {dp_port2 p + 1..} \<subseteq> covered ps" by auto
      then show ?thesis using 2(1)[OF _ False ok(2) le] first False by simp
    qed
  qed
qed

section \<open>Properties\<close>

text \<open>Claim C13: Ranges of ports that are inserted one after the other into a list of groups leave groups with a first port that is
  not behind the last one, ordered and without overlaps; every call returns. When no call failed for lack of memory the
  list has a group for exactly the ports of the ranges and of the old list.\<close>

theorem port_groups_well_formed:
  assumes "groups_ok e head" "\<forall>p\<in>set ps. group_ok e p"
  shows "\<exists>rs head' st'. insert_all e ps head st = Some (rs, head', st') \<and> length rs = length ps \<and>
    groups_ok e head' \<and> (- 1 \<in> set rs \<longrightarrow> \<not> plenty e) \<and>
    (- 1 \<notin> set rs \<longrightarrow> (\<forall>p. DetectPortLookupGroup head' p \<noteq> None \<longleftrightarrow>
       DetectPortLookupGroup head p \<noteq> None \<or> (\<exists>g\<in>set ps. DetectPortMatch g p)))"
proof -
  obtain rs head' st' where i: "insert_all e ps head st = Some (rs, head', st')" "length rs = length ps" "- 1 \<in> set rs \<longrightarrow> \<not> plenty e"
    "groups_ok e head'" "- 1 \<notin> set rs \<longrightarrow> covered head' = covered head \<union> covered ps"
    using insert_all_ok[OF assms, of st] by blast
  then show ?thesis using LookupGroup_covered[OF assms(1)] LookupGroup_covered[OF i(4)]
    by (auto simp: DetectPortMatch_iff covered_def)
qed

text \<open>Claim C20: With enough memory a port has the signatures it had and, when it is in the new range, those of the new range; unless a
  group ends where the range ends, the range starts before it, and the port in front of the group is in no group.\<close>

theorem port_insert_adds_signatures:
  assumes "groups_ok e head" "group_ok e new" "plenty e" "\<not> ends_in new head"
  shows "\<exists>r head' st'. DetectPortInsert e head [new] st = Some (r, head', st') \<and> (r = 0 \<or> r = 1) \<and> groups_ok e head' \<and>
    (\<forall>p. sigs_for head' p = sigs_for head p \<union> (if DetectPortMatch new p then sigs_of (dp_sh new) else {}))"
proof -
  obtain r head' st' where i: "DetectPortInsert e head [new] st = Some (r, head', st')" "insert_post e head new (r, head', st')"
    using DetectPortInsert_ok[OF assms(1,2), of st] by (auto simp: returns_def)
  then have "groups_ok e head'" by (simp add: insert_post_def)
  then show ?thesis using i assms sigs_for_eq by (auto simp: insert_post_def DetectPortMatch_iff)
qed

text \<open>Claim C40: The test for the complete port space says whether every port is in a group of the list.\<close>

theorem complete_port_space:
  assumes "groups_ok e xs"
  shows "DetectPortIsCompletePortSpace xs \<longleftrightarrow> (\<forall>p. DetectPortLookupGroup xs p \<noteq> None)"
proof -
  have "DetectPortIsCompletePortSpace xs = complete_from 0 xs" by (cases xs) (auto simp: DetectPortIsCompletePortSpace_def)
  also have "\<dots> \<longleftrightarrow> {0..} \<subseteq> covered xs" by (rule complete_from_iff[OF assms]) simp
  also have "\<dots> \<longleftrightarrow> (\<forall>p. p \<in> covered xs)" by auto
  finally show ?thesis using LookupGroup_covered[OF assms] by simp
qed

section \<open>Examples\<close>

definition port_env :: det_env where
  "port_env = \<lparr>mem_ok = \<lambda>_. True, sgh_size = Some 1, sizeof_port = 48\<rparr>"

definition port_mem :: det_mem where
  "port_mem = \<lparr>d_mallocs = 0, detect_port_memory = 0, detect_port_init_cnt = 0, detect_port_free_cnt = 0\<rparr>"

text \<open>A range with the signatures of one byte of the bit array.\<close>

definition port_range :: "u16 \<Rightarrow> u16 \<Rightarrow> u8 \<Rightarrow> DetectPort" where
  "port_range p q s = \<lparr>dp_port = p, dp_port2 = q,
     dp_sh = Some \<lparr>sig_array = [s], sgh_sig_cnt = 0, mpm_content_maxlen = 0, mpm_uricontent_maxlen = 0\<rparr>, dp_cnt = 1, dp_flags = 0\<rparr>"

definition show_groups :: "DetectPort list \<Rightarrow> (u16 \<times> u16 \<times> bytes) list" where
  "show_groups = map (\<lambda>g. (dp_port g, dp_port2 g, case dp_sh g of None \<Rightarrow> [] | Some s \<Rightarrow> sig_array s))"

lemma port_range_ok: "p \<le> q \<Longrightarrow> group_ok port_env (port_range p q s)"
  by (simp add: group_ok_def port_range_def is_any_def sized_def port_env_def)

lemma sigs_of_range: "sigs_of (dp_sh (port_range p q s)) = {n. n < 8 \<and> bit s n}"
proof -
  have "n div 8 < length [s] \<longleftrightarrow> n < 8" for n :: nat by simp presburger
  moreover have "n < 8 \<Longrightarrow> n div 8 = 0 \<and> n mod 8 = n" for n :: nat by simp
  ultimately show ?thesis unfolding sigs_of_def port_range_def by fastforce
qed

lemma bit_2_iff_u8: "bit (2 :: u8) m \<longleftrightarrow> m = 1"
  using bit_exp_iff[where 'a="8 word", of 1 m] by auto

lemma port_groups_well_formed_witness:
  "\<exists>rs head' st'. insert_all port_env [port_range 10 20 1, port_range 15 30 2] [] port_mem = Some (rs, head', st') \<and>
     groups_ok port_env head' \<and> DetectPortLookupGroup head' 25 \<noteq> None \<and> DetectPortLookupGroup head' 31 = None"
proof -
  have "\<forall>p\<in>set [port_range 10 20 1, port_range 15 30 2]. group_ok port_env p" by (simp add: port_range_ok)
  moreover have "plenty port_env" by (simp add: plenty_def port_env_def)
  moreover have "DetectPortMatch (port_range 15 30 2) 25" "\<not> DetectPortMatch (port_range 10 20 1) 31" "\<not> DetectPortMatch (port_range 15 30 2) 31"
    by (simp_all add: DetectPortMatch_def port_range_def)
  ultimately show ?thesis
    using port_groups_well_formed[of port_env "[]" "[port_range 10 20 1, port_range 15 30 2]" port_mem] by auto
qed

lemma port_insert_adds_signatures_witness:
  "\<exists>r head' st'. DetectPortInsert port_env [port_range 10 20 1] [port_range 15 30 2] port_mem = Some (r, head', st') \<and>
     sigs_for head' 17 = {0, 1} \<and> sigs_for head' 25 = {1}"
proof -
  let ?a = "port_range 10 20 1" and ?b = "port_range 15 30 2"
  have s: "sigs_of (dp_sh ?a) = {0}" "sigs_of (dp_sh ?b) = {1}"
    unfolding sigs_of_range bit_2_iff_u8 bit_1_iff by auto
  have "groups_ok port_env [?a]" "group_ok port_env ?b" by (simp_all add: port_range_ok groups_ok_simps)
  moreover have "plenty port_env" by (simp add: plenty_def port_env_def)
  moreover have "\<not> ends_in ?b [?a]" by (simp add: ends_in_def shared_end_def port_range_def)
  moreover have "sigs_for [?a] 17 = {0}" "sigs_for [?a] 25 = {}" using s by (simp_all add: sigs_for_def DetectPortMatch_def port_range_def)
  moreover have "DetectPortMatch ?b 17" "DetectPortMatch ?b 25" by (simp_all add: DetectPortMatch_def port_range_def)
  ultimately show ?thesis
    using port_insert_adds_signatures[of port_env "[?a]" ?b port_mem] s by (fastforce simp: insert_commute)
qed

lemma complete_port_space_witness:
  "groups_ok port_env [port_range 0 79 0, port_range 80 65535 0] \<and> (\<forall>p. DetectPortLookupGroup [port_range 0 79 0, port_range 80 65535 0] p \<noteq> None)"
proof
  show ok: "groups_ok port_env [port_range 0 79 0, port_range 80 65535 0]"
    by (simp add: port_range_ok groups_ok_simps) (simp add: behind_def port_range_def)
  have "DetectPortIsCompletePortSpace [port_range 0 79 0, port_range 80 65535 0]"
    by (simp add: DetectPortIsCompletePortSpace_def port_range_def)
  then show "\<forall>p. DetectPortLookupGroup [port_range 0 79 0, port_range 80 65535 0] p \<noteq> None"
    using complete_port_space[OF ok] by blast
qed

section \<open>A range that ends with a group\<close>

text \<open>
  The ports 5 to 9 of the new range get the signatures of the old group and not those of the range (\<open>DetectPortCut\<close>
  copies the signatures of the old group to the common part, but leaves them at the part in front of it).
\<close>

lemma port_signature_lost:
  "map_option (\<lambda>(r, head, st). show_groups head) (DetectPortInsert port_env [port_range 10 20 1] [port_range 5 20 2] port_mem) =
     Some [(5, 9, [1]), (10, 20, [3])]"
  by code_simp

text \<open>The product of two ports is not an \<open>int\<close>.\<close>

lemma port_hash_overflows: "DetectPortHashFunc 1024 (port_range 0 65535 0) = Some 0" "DetectPortHashFunc 1024 (port_range 65535 65535 0) = None"
  by code_simp+

end
