(* ===== verification/DetectPortText.thy ===== *)
theory DetectPortText
  imports DetectPortLists ByteExtract
begin

text \<open>
  Reading ports from the text of a rule (\<open>src/detect-engine-port.c\<close>): ranges, lists in brackets, negation and variables.
  A C string is the list of its characters without the final zero. \<open>None\<close> is undefined behaviour as before, and a
  text that is read without end.
\<close>

section \<open>A range\<close>

text \<open>\<open>atoi\<close> is undefined for a number that is no \<open>int\<close>.\<close>

definition atoi :: "bytes \<Rightarrow> int option" where
  "atoi s =
     (case strto_parse 10 s of
        None \<Rightarrow> Some 0
      | Some (neg, m, _) \<Rightarrow> let v = (if neg then - int m else int m) in if - (2 ^ 31) \<le> v \<and> v < 2 ^ 31 then Some v else None)"

definition DetectPortIsValidRange :: "bytes \<Rightarrow> bool option" where
  "DetectPortIsValidRange port = map_option (\<lambda>v. v \<ge> 0 \<and> v \<le> 65535) (atoi port)"

text \<open>A number that is a port.\<close>

definition read_port :: "bytes \<Rightarrow> u16 option option" where
  "read_port s = do {
     ok \<leftarrow> DetectPortIsValidRange s;
     v \<leftarrow> atoi s;
     Some (if ok then Some (word_of_int v) else None)
   }"

definition tolower :: "u8 \<Rightarrow> u8" where
  "tolower c = (if 65 \<le> c \<and> c \<le> 90 then c + 32 else c)"

text \<open>What the text says, without the memory: flags and both ports, or an error.\<close>

definition port_text :: "bytes \<Rightarrow> (u8 \<times> u16 \<times> u16) option option" where
  "port_text s =
     (let neg = (case s of c # _ \<Rightarrow> c = 33 | [] \<Rightarrow> False);
          port = (if neg then tl s else s);
          flags = (if neg then PORT_FLAG_NOT else 0)
      in if 58 \<in> set port then do {
           let p1 = takeWhile (\<lambda>c. c \<noteq> 58) port;
           let p2 = tl (dropWhile (\<lambda>c. c \<noteq> 58) port);
           a \<leftarrow> read_port p1;
           case a of None \<Rightarrow> Some None
           | Some a \<Rightarrow> do {
               b \<leftarrow> (if p2 = [] then Some (Some 65535) else read_port p2);
               Some (case b of None \<Rightarrow> None | Some b \<Rightarrow> if a > b then None else Some (flags, a, b))
             }
         }
         else if map tolower port = [97, 110, 121] then Some (Some (flags, 0, 65535))
         else do {
           a \<leftarrow> read_port port;
           Some (map_option (\<lambda>a. (flags, a, a)) a)
         })"

definition PortParse :: "det_env \<Rightarrow> bytes \<Rightarrow> det_mem \<Rightarrow> (DetectPort option \<times> det_mem) option" where
  "PortParse e str st =
     (let (dup_ok, st) = d_malloc e st in
      case DetectPortInit e st of
        (None, st) \<Rightarrow> Some (None, st)
      | (Some dp, st) \<Rightarrow>
          if \<not> dup_ok then Some (None, DetectPortFree e st)
          else do {
            r \<leftarrow> port_text str;
            Some (case r of
                    None \<Rightarrow> (None, DetectPortFree e st)
                  | Some (flags, a, b) \<Rightarrow> (Some (dp\<lparr>dp_port := a, dp_port2 := b, dp_flags := flags\<rparr>), st))
          })"

section \<open>A range into a list\<close>

text \<open>There is no detection engine yet. What the error paths free, beside the range itself, is not counted.\<close>

definition DetectPortParseInsert :: "det_env \<Rightarrow> DetectPort list \<Rightarrow> DetectPort list \<Rightarrow> det_mem \<Rightarrow> (int \<times> DetectPort list \<times> det_mem) option" where
  "DetectPortParseInsert e head new st = DetectPortInsert (e\<lparr>sgh_size := None\<rparr>) head new st"

definition DetectPortParseInsertString :: "det_env \<Rightarrow> DetectPort list \<Rightarrow> bytes \<Rightarrow> det_mem \<Rightarrow> (int \<times> DetectPort list \<times> det_mem) option" where
  "DetectPortParseInsertString e head s st = do {
     (ad, st) \<leftarrow> PortParse e s st;
     case ad of None \<Rightarrow> Some (- 1, head, st)
     | Some ad \<Rightarrow> do {
         let port_any = is_any ad;
         let (r, ad, ad2, st) = (if dp_flags ad AND PORT_FLAG_NOT \<noteq> 0 then DetectPortCutNot e ad st else (0, ad, None, st));
         if r < 0 then Some (- 1, head, DetectPortFree e st)
         else do {
           (r, head, st) \<leftarrow> (case ad2 of None \<Rightarrow> Some (0, head, st) | Some a \<Rightarrow> DetectPortParseInsert e head [a] st);
           if r < 0 then Some (- 1, head, DetectPortFree e st)
           else do {
             (r, head, st) \<leftarrow> DetectPortParseInsert e head [ad] st;
             if r < 0 then Some (- 1, head, DetectPortFree e st)
             else if r = 1 \<and> port_any then do {
               (any, st) \<leftarrow> PortParse e [48, 58, 54, 53, 53, 51, 53] st;
               case any of None \<Rightarrow> Some (- 1, head, DetectPortFree e st)
               | Some a \<Rightarrow> do {
                   (r, head, st) \<leftarrow> DetectPortParseInsert e head [a] st;
                   Some (if r < 0 then - 1 else 0, head, st)
                 }
             }
             else Some (0, head, st)
           }
         }
       }
   }"

section \<open>The scanner\<close>

text \<open>
  The variables of the loop: \<open>address\<close> is what was written to the buffer up to \<open>x\<close>. \<open>scan\<close> treats one character and
  says what is to be done: go on, stop with an error, read a text in brackets, insert a range into one of the
  two lists (\<open>True\<close>: the negated one), or read the value of a variable.
\<close>

record scan =
  address :: bytes
  o_set :: bool
  n_set :: bool
  d_set :: bool
  in_range :: bool
  depth :: int

datatype port_act = Go scan | Fail | Nested bytes bool scan | Insert bytes bool scan | Var bytes bool bool scan

definition scan_char :: "bool \<Rightarrow> bool \<Rightarrow> u8 \<Rightarrow> scan \<Rightarrow> port_act" where
  "scan_char negate last_one c s0 =
     (let s = s0\<lparr>address := address s0 @ [c], in_range := in_range s0 \<or> c = 58\<rparr> in
      if in_range s \<and> c = 33 then Fail
      else if \<not> o_set s \<and> c = 33 then Go (s\<lparr>n_set := True, address := address s0\<rparr>)
      else if c = 91 then
        Go ((if o_set s then s else s\<lparr>o_set := True, address := []\<rparr>)\<lparr>depth := depth s + 1\<rparr>)
      else if c = 93 then
        (if depth s = 1
         then Nested (address s0) (negate \<or> n_set s) (s\<lparr>address := [], n_set := False, depth := depth s - 1, in_range := False\<rparr>)
         else Go (s\<lparr>depth := depth s - 1, in_range := False\<rparr>))
      else if depth s = 0 \<and> c = 44 then
        (let done = s\<lparr>address := [], in_range := False\<rparr> in
         if o_set s then Go (done\<lparr>o_set := False\<rparr>)
         else if d_set s then Var (address s0) (negate \<or> n_set s) (negate \<noteq> n_set s) (done\<lparr>d_set := False, n_set := False\<rparr>)
         else Insert (address s0) (negate \<or> n_set s) (done\<lparr>n_set := False\<rparr>))
      else if depth s = 0 \<and> c = 36 then Go (s\<lparr>d_set := True\<rparr>)
      else if depth s = 0 \<and> last_one then
        (let str = (if length (address s) = 1024 then address s0 else address s);
             done = s\<lparr>address := [], in_range := False, n_set := False\<rparr>
         in if d_set s then Var str (negate \<noteq> n_set s) (negate \<noteq> n_set s) (done\<lparr>d_set := False\<rparr>)
            else Insert str (negate \<noteq> n_set s) done)
      else Go s)"

definition scan_start :: scan where
  "scan_start = \<lparr>address = [], o_set = False, n_set = False, d_set = False, in_range = False, depth = 0\<rparr>"

text \<open>Both lists and the memory. \<open>conf\<close> is \<open>SCRuleVarsGetConfVar\<close> for port groups.\<close>

type_synonym port_lists = "DetectPort list \<times> DetectPort list \<times> det_mem"

definition insert_text :: "det_env \<Rightarrow> bytes \<Rightarrow> bool \<Rightarrow> port_lists \<Rightarrow> (int \<times> port_lists) option" where
  "insert_text e str neg l =
     (case l of (head, nhead, st) \<Rightarrow>
        if neg then do { (r, nhead, st) \<leftarrow> DetectPortParseInsertString e nhead str st; Some (r, head, nhead, st) }
        else do { (r, head, st) \<leftarrow> DetectPortParseInsertString e head str st; Some (r, head, nhead, st) })"

text \<open>A variable is read in brackets when it is negated, which needs memory.\<close>

definition var_text :: "det_env \<Rightarrow> (bytes \<Rightarrow> bytes option) \<Rightarrow> bytes \<Rightarrow> bool \<Rightarrow> port_lists \<Rightarrow> bytes option \<times> port_lists" where
  "var_text e conf name wrap l =
     (case l of (head, nhead, st) \<Rightarrow>
        case conf name of None \<Rightarrow> (None, l)
        | Some v \<Rightarrow>
            if wrap then (case d_malloc e st of (k, st) \<Rightarrow> (if k then Some (91 # v @ [93]) else None, head, nhead, st))
            else (Some v, l))"

text \<open>The loop of \<open>DetectPortParseDo\<close> from a character on; it also ends when the buffer is full.\<close>

partial_function (option) parse_loop :: "det_env \<Rightarrow> (bytes \<Rightarrow> bytes option) \<Rightarrow> bool \<Rightarrow> bytes \<Rightarrow> scan \<Rightarrow> port_lists \<Rightarrow> (int \<times> port_lists) option" where
  "parse_loop e conf negate cs s l =
     (case cs of [] \<Rightarrow> Some (0, l)
      | c # cs \<Rightarrow>
        if length (address s) \<ge> 1024 then Some (0, l)
        else
          (case scan_char negate (cs = []) c s of
             Go s \<Rightarrow> parse_loop e conf negate cs s l
           | Fail \<Rightarrow> Some (- 1, l)
           | Insert str neg s \<Rightarrow> do {
               (r, l) \<leftarrow> insert_text e str neg l;
               if r = - 1 then Some (- 1, l) else parse_loop e conf negate cs s l
             }
           | Nested str neg s \<Rightarrow> do {
               (r, l) \<leftarrow> parse_loop e conf neg str scan_start l;
               if r = - 1 then Some (- 1, l) else parse_loop e conf negate cs s l
             }
           | Var name wrap neg s \<Rightarrow>
               (case var_text e conf name wrap l of
                  (None, l) \<Rightarrow> Some (- 1, l)
                | (Some v, l) \<Rightarrow> do {
                    (r, l) \<leftarrow> parse_loop e conf neg v scan_start l;
                    if r = - 1 then Some (- 1, l) else parse_loop e conf negate cs s l
                  })))"

declare parse_loop.simps [code]

definition DetectPortParseDo :: "det_env \<Rightarrow> (bytes \<Rightarrow> bytes option) \<Rightarrow> bytes \<Rightarrow> bool \<Rightarrow> port_lists \<Rightarrow> (int \<times> port_lists) option" where
  "DetectPortParseDo e conf s negate l = parse_loop e conf negate s scan_start l"

section \<open>Taking the negated ports away\<close>

text \<open>Step 1: a copy of every negated group, with what hangs behind it, is inserted.\<close>

fun insert_nots :: "det_env \<Rightarrow> DetectPort list \<Rightarrow> DetectPort list \<Rightarrow> det_mem \<Rightarrow> (int \<times> DetectPort list \<times> det_mem) option" where
  "insert_nots e [] head st = Some (0, head, st)"
| "insert_nots e (ag # ags) head st =
     (case DetectPortCopy e (ag # ags) st of
        ([], st) \<Rightarrow> Some (- 1, head, st)
      | (ad, st) \<Rightarrow> do {
          (r, head, st) \<leftarrow> DetectPortParseInsert e head ad st;
          if r < 0 then Some (- 1, head, st) else insert_nots e ags head st
        })"

text \<open>Step 2: the groups inside a negated one are removed.\<close>

fun remove_inside :: "det_env \<Rightarrow> DetectPort \<Rightarrow> DetectPort list \<Rightarrow> det_mem \<Rightarrow> (DetectPort list \<times> det_mem) option" where
  "remove_inside e ag [] st = Some ([], st)"
| "remove_inside e ag (ag2 # xs) st = do {
     r \<leftarrow> DetectPortCmp ag ag2;
     if r = PORT_EQ \<or> r = PORT_EB then remove_inside e ag xs (DetectPortFree e st)
     else do { (ys, st) \<leftarrow> remove_inside e ag xs st; Some (ag2 # ys, st) }
   }"

fun remove_nots :: "det_env \<Rightarrow> DetectPort list \<Rightarrow> DetectPort list \<Rightarrow> det_mem \<Rightarrow> (DetectPort list \<times> det_mem) option" where
  "remove_nots e [] head st = Some (head, st)"
| "remove_nots e (ag # ags) head st = do {
     (head, st) \<leftarrow> remove_inside e ag head st;
     remove_nots e ags head st
   }"

definition DetectPortParseMergeNotPorts :: "det_env \<Rightarrow> DetectPort list \<Rightarrow> DetectPort list \<Rightarrow> det_mem \<Rightarrow> (int \<times> DetectPort list \<times> det_mem) option" where
  "DetectPortParseMergeNotPorts e head nhead st =
     (if DetectPortIsCompletePortSpace nhead then Some (- 1, head, st)
      else do {
        (r, head, st) \<leftarrow> (if head = [] \<and> nhead \<noteq> [] then DetectPortParseInsertString e head [48, 58, 54, 53, 53, 51, 53] st
                          else Some (0, head, st));
        if r < 0 then Some (- 1, head, st)
        else do {
          (r, head, st) \<leftarrow> insert_nots e nhead head st;
          if r < 0 then Some (- 1, head, st)
          else do {
            (head, st) \<leftarrow> remove_nots e nhead head st;
            Some (if head = [] then - 1 else 0, head, st)
          }
        }
      })"

text \<open>At the end the negated groups are freed.\<close>

definition DetectPortParse :: "det_env \<Rightarrow> (bytes \<Rightarrow> bytes option) \<Rightarrow> DetectPort list \<Rightarrow> bytes \<Rightarrow> det_mem \<Rightarrow> (int \<times> DetectPort list \<times> det_mem) option" where
  "DetectPortParse e conf head str st = do {
     (r, head, nhead, st) \<leftarrow> DetectPortParseDo e conf str False (head, [], st);
     let cleanup = (\<lambda>st. fold (\<lambda>_ st. DetectPortFree e st) nhead st);
     if r < 0 then Some (- 1, head, cleanup st)
     else do {
       (r, head, st) \<leftarrow> DetectPortParseMergeNotPorts e head nhead st;
       Some (if r < 0 then - 1 else 0, head, cleanup st)
     }
   }"

end
