(* ===== verification/DetectPortRules.thy ===== *)
theory DetectPortRules
  imports DetectPortText
begin

text \<open>
  What a text about ports means: a range is read as it was printed, a list is the union of its ranges, and a negated
  range is taken away.
\<close>

section \<open>A range\<close>

definition num :: "u16 \<Rightarrow> bytes" where
  "num p = render 10 (unat p)"

lemma read_num: "read_port (num p) = Some (Some p)"
proof -
  have "unat p < 65536" using unat_bound[of p] by simp
  then have "atoi (num p) = Some (int (unat p))" using strto_render(1)[of 10 "unat p"] by (simp add: atoi_def num_def)
  moreover have "uint p \<le> 65535" using uint_bounded[of p] by simp
  ultimately show ?thesis by (simp add: read_port_def DetectPortIsValidRange_def)
qed

text \<open>The digits of a number are no separators.\<close>

lemma num_chars: "c \<in> set (num p) \<Longrightarrow> 48 \<le> c \<and> c \<le> 57"
  using render_digits[of 10 c "unat p"] by (auto simp: num_def is_digit_of_def digit_val_unat word_le_nat_alt split: if_splits)

lemma num_not: "c \<notin> {48..57} \<Longrightarrow> c \<notin> set (num p)"
  using num_chars[of c p] by auto

lemma num_Cons: "num p \<noteq> []"
  by (simp add: num_def render_Cons)

lemma num_first: "num p = c # cs \<Longrightarrow> c \<noteq> 33"
  using num_not[of 33 p] by auto

definition range_text :: "u16 \<Rightarrow> u16 \<Rightarrow> bytes" where
  "range_text p q = num p @ 58 # num q"

lemma port_text_range:
  "port_text (range_text p q) = Some (if p \<le> q then Some (0, p, q) else None)"
  "port_text (num p @ [58]) = Some (Some (0, p, 65535))"
  "port_text (num p) = Some (Some (0, p, p))"
proof -
  have t: "takeWhile (\<lambda>c. c \<noteq> 58) (num p @ 58 # xs) = num p" "dropWhile (\<lambda>c. c \<noteq> 58) (num p @ 58 # xs) = 58 # xs" for xs
    using num_not[of 58 p] by (subst takeWhile_append2 dropWhile_append2; force)+
  obtain c cs where c: "num p = c # cs" "c \<noteq> 33" using num_Cons num_first by (metis neq_Nil_conv)
  then have neg: "(case num p @ xs of c # _ \<Rightarrow> c = 33 | [] \<Rightarrow> False) = False" for xs by simp
  have any: "map tolower (num p) \<noteq> [97, 110, 121]"
  proof
    assume "map tolower (num p) = [97, 110, 121]"
    then have "tolower c = 97" using c by simp
    moreover have "48 \<le> c \<and> c \<le> 57" using num_chars[of c p] c by simp
    ultimately show False by (auto simp: tolower_def split: if_splits)
  qed
  show "port_text (range_text p q) = Some (if p \<le> q then Some (0, p, q) else None)"
    using neg[of "58 # num q"] by (simp add: port_text_def range_text_def t read_num num_Cons not_le Let_def)
  show "port_text (num p @ [58]) = Some (Some (0, p, 65535))"
    using neg[of "[58]"] u16_max[of p] by (simp add: port_text_def t read_num not_le[symmetric] Let_def)
  show "port_text (num p) = Some (Some (0, p, p))"
    using neg[of "[]"] num_not[of 58 p] any by (simp add: port_text_def read_num Let_def)
qed

section \<open>Items of a list\<close>

datatype port_spec = One u16 | Range u16 u16 | From u16 | Any

fun spec_text :: "port_spec \<Rightarrow> bytes" where
  "spec_text (One p) = num p"
| "spec_text (Range p q) = range_text p q"
| "spec_text (From p) = num p @ [58]"
| "spec_text Any = [97, 110, 121]"

fun spec_ports :: "port_spec \<Rightarrow> u16 set" where
  "spec_ports (One p) = {p}"
| "spec_ports (Range p q) = {p..q}"
| "spec_ports (From p) = {p..}"
| "spec_ports Any = UNIV"

lemma spec_cases:
  obtains (range) a b where "a \<le> b" "spec_ports s = {a..b}" "port_text (spec_text s) = Some (Some (0, a, b))"
  | (none) "spec_ports s = {}" "port_text (spec_text s) = Some None"
proof (cases s)
  case (One p)
  show ?thesis by (rule range[of p p]) (simp_all add: One port_text_range)
next
  case (Range p q)
  then show ?thesis using range[of p q] none by (cases "p \<le> q") (simp_all add: port_text_range)
next
  case (From p)
  have "{p..} = {p..65535}" using u16_max by auto
  then show ?thesis using range[of p 65535] From u16_max[of p] by (simp add: port_text_range)
next
  case Any
  have "UNIV = {0..65535 :: u16}" using u16_max by auto
  moreover have "port_text [97, 110, 121] = Some (Some (0, 0, 65535))" by (simp add: port_text_def tolower_def)
  ultimately show ?thesis using range[of 0 65535] Any by simp
qed

lemma render_length: "2 \<le> b \<Longrightarrow> n < b ^ Suc k \<Longrightarrow> length (render b n) \<le> Suc k"
proof (induction k arbitrary: n)
  case 0
  then show ?case by (subst render.simps) simp
next
  case (Suc k)
  then have "n div b < b ^ Suc k" by (simp add: div_less_iff_less_mult ac_simps)
  then show ?case using Suc by (subst render.simps) simp
qed

lemma num_length: "length (num p) \<le> 5"
  using render_length[of 10 "unat p" 4] unat_bound[of p] by (simp add: num_def)

text \<open>The characters that mean nothing to the scanner.\<close>

definition plain :: "u8 \<Rightarrow> bool" where
  "plain c \<longleftrightarrow> c \<notin> {33, 36, 44, 91, 93}"

lemma num_plain: "c \<in> set (num p) \<Longrightarrow> plain c"
  using num_chars[of c p] by (auto simp: plain_def)

lemma spec_plain: "\<forall>c\<in>set (spec_text s). plain c" "spec_text s \<noteq> []" "length (spec_text s) \<le> 11"
proof -
  have "plain 58" "plain 97" "plain 110" "plain 121" by (simp_all add: plain_def)
  then show "\<forall>c\<in>set (spec_text s). plain c" using num_plain by (cases s) (auto simp: range_text_def)
  show "spec_text s \<noteq> []" by (cases s) (simp_all add: range_text_def num_Cons)
  show "length (spec_text s) \<le> 11"
  proof (cases s)
    case (Range p q)
    then show ?thesis using num_length[of p] num_length[of q] by (simp add: range_text_def)
  next
    case (One p)
    then show ?thesis using num_length[of p] by simp
  next
    case (From p)
    then show ?thesis using num_length[of p] by simp
  qed simp
qed

section \<open>Inserting a range\<close>

text \<open>While a rule is read there is no detection engine.\<close>

abbreviation no_engine :: "det_env \<Rightarrow> det_env" where
  "no_engine e \<equiv> e\<lparr>sgh_size := None\<rparr>"

lemma plenty_no_engine: "plenty (no_engine e) = plenty e"
  by (simp add: plenty_def)

lemma Init_plenty: "plenty e \<Longrightarrow> \<exists>st'. DetectPortInit e st = (Some \<lparr>dp_port = 0, dp_port2 = 0, dp_sh = None, dp_cnt = 0, dp_flags = 0\<rparr>, st')"
  by (simp add: DetectPortInit_def d_malloc_def plenty_def Let_def)

lemma PortParse_ok:
  assumes "plenty e" "port_text s = Some r"
  shows "\<exists>st'. PortParse e s st =
    Some (map_option (\<lambda>(f, a, b). \<lparr>dp_port = a, dp_port2 = b, dp_sh = None, dp_cnt = 0, dp_flags = f\<rparr>) r, st')"
proof -
  obtain st1 where m: "d_malloc e st = (True, st1)" using assms(1) by (simp add: d_malloc_def plenty_def)
  obtain st2 where i: "DetectPortInit e st1 = (Some \<lparr>dp_port = 0, dp_port2 = 0, dp_sh = None, dp_cnt = 0, dp_flags = 0\<rparr>, st2)"
    using Init_plenty[OF assms(1)] by blast
  show ?thesis using m i assms(2) by (cases r) (auto simp: PortParse_def)
qed

lemma Insert_empty: "DetectPortInsert e [] [g] st = Some (1, [g], st)"
  by (subst DetectPortInsert.simps) simp

definition string_post :: "det_env \<Rightarrow> DetectPort list \<Rightarrow> u16 set \<Rightarrow> int \<times> DetectPort list \<times> det_mem \<Rightarrow> bool" where
  "string_post e head P = (\<lambda>(r, head', st').
     if P = {} then r = - 1
     else r = 0 \<and> groups_ok (no_engine e) head' \<and> covered head' = covered head \<union> P \<and> (head = [] \<longrightarrow> length head' = 1))"

lemma InsertString_ok:
  assumes "plenty e" "groups_ok (no_engine e) head"
  shows "returns (string_post e head (spec_ports s)) (DetectPortParseInsertString e head (spec_text s) st)"
proof (cases s rule: spec_cases)
  case none
  obtain st' where "PortParse e (spec_text s) st = Some (None, st')" using PortParse_ok[OF assms(1) none(2)] by auto
  then show ?thesis using none by (simp add: DetectPortParseInsertString_def string_post_def)
next
  case (range a b)
  let ?g = "\<lparr>dp_port = a, dp_port2 = b, dp_sh = None, dp_cnt = 0, dp_flags = 0\<rparr> :: DetectPort"
  obtain st' where p: "PortParse e (spec_text s) st = Some (Some ?g, st')" using PortParse_ok[OF assms(1) range(3)] by auto
  have "group_ok (no_engine e) ?g" using range(1) by (simp add: group_ok_def)
  then obtain y where y: "DetectPortInsert (no_engine e) head [?g] st' = Some y" "insert_post (no_engine e) head ?g y"
    using DetectPortInsert_ok[OF assms(2), of ?g st'] unfolding returns_def by blast
  obtain r head' st'' where y': "y = (r, head', st'')" by (metis prod.exhaust)
  have "r = 0 \<or> r = 1" "groups_ok (no_engine e) head'" "covered head' = covered head \<union> {a..b}"
    using y(2) y' assms(1) by (auto simp: insert_post_def plenty_no_engine)
  moreover have "head = [] \<longrightarrow> length head' = 1" using y y' by (auto simp: Insert_empty)
  ultimately show ?thesis using p y(1) y' range(1,2)
    by (auto simp: DetectPortParseInsertString_def DetectPortParseInsert_def string_post_def)
qed

section \<open>The scanner\<close>

lemma scan_plain:
  assumes "plain c" "depth s = 0" "\<not> d_set s"
  shows "scan_char negate False c s = Go (s\<lparr>address := address s @ [c], in_range := in_range s \<or> c = 58\<rparr>)"
    "length (address s) < 1023 \<Longrightarrow> scan_char negate True c s =
       Insert (address s @ [c]) (negate \<noteq> n_set s) (s\<lparr>address := [], in_range := False, n_set := False\<rparr>)"
  using assms by (auto simp: scan_char_def plain_def Let_def)

text \<open>Plain characters are collected.\<close>

lemma loop_plain:
  assumes "\<forall>c\<in>set cs. plain c" "depth s = 0" "\<not> d_set s" "length (address s) + length cs < 1024" "rest \<noteq> []"
  shows "parse_loop e conf negate (cs @ rest) s l =
    parse_loop e conf negate rest (s\<lparr>address := address s @ cs, in_range := in_range s \<or> 58 \<in> set cs\<rparr>) l"
  using assms
proof (induction cs arbitrary: s)
  case Nil
  then show ?case by simp
next
  case (Cons c cs)
  have "parse_loop e conf negate ((c # cs) @ rest) s l =
      parse_loop e conf negate (cs @ rest) (s\<lparr>address := address s @ [c], in_range := in_range s \<or> c = 58\<rparr>) l"
    using Cons.prems scan_plain(1)[of c s negate] by (subst parse_loop.simps) simp
  also have "\<dots> = parse_loop e conf negate rest (s\<lparr>address := address s @ c # cs, in_range := in_range s \<or> 58 \<in> set (c # cs)\<rparr>) l"
    using Cons.prems by (subst Cons.IH) (auto simp: disj_assoc)
  finally show ?case .
qed

text \<open>The end of an item: a comma, or the end of the text.\<close>

lemma loop_comma:
  assumes "depth s = 0" "\<not> d_set s" "\<not> o_set s" "length (address s) < 1024"
  shows "parse_loop e conf negate (44 # rest) s l = do {
    (r, l) \<leftarrow> insert_text e (address s) (negate \<or> n_set s) l;
    if r = - 1 then Some (- 1, l) else parse_loop e conf negate rest (s\<lparr>address := [], in_range := False, n_set := False\<rparr>) l }"
  using assms by (subst parse_loop.simps) (simp add: scan_char_def Let_def)

lemma loop_last:
  assumes "plain c" "depth s = 0" "\<not> d_set s" "length (address s) < 1023"
  shows "parse_loop e conf negate [c] s l = do {
    (r, l) \<leftarrow> insert_text e (address s @ [c]) (negate \<noteq> n_set s) l;
    Some (if r = - 1 then - 1 else 0, l) }"
  using assms scan_plain(2)[of c s negate]
  by (subst parse_loop.simps) (simp add: parse_loop.simps[of _ _ _ "[]"] if_distrib[of Some] if_distrib[of "\<lambda>r. (r, _)"] cong: if_cong)

section \<open>A list of items\<close>

text \<open>An item is a range and whether it is negated.\<close>

fun item_text :: "bool \<times> port_spec \<Rightarrow> bytes" where
  "item_text (neg, s) = (if neg then 33 # spec_text s else spec_text s)"

fun list_text :: "(bool \<times> port_spec) list \<Rightarrow> bytes" where
  "list_text [] = []"
| "list_text [i] = item_text i"
| "list_text (i # is) = item_text i @ 44 # list_text is"

definition listed :: "bool \<Rightarrow> (bool \<times> port_spec) list \<Rightarrow> u16 set" where
  "listed neg is = (\<Union>i\<in>{i \<in> set is. fst i = neg}. spec_ports (snd i))"

lemma listed_simps [simp]: "listed neg [] = {}" "listed neg (i # is) = (if fst i = neg then spec_ports (snd i) else {}) \<union> listed neg is"
  by (auto simp: listed_def)

lemma listed_empty: "\<forall>i\<in>set is. spec_ports (snd i) \<noteq> {} \<Longrightarrow> listed neg is = {} \<longleftrightarrow> (\<forall>i\<in>set is. fst i \<noteq> neg)"
  by (induction "is") auto

lemma loop_bang: "rest \<noteq> [] \<Longrightarrow> parse_loop e conf negate (33 # rest) scan_start l = parse_loop e conf negate rest (scan_start\<lparr>n_set := True\<rparr>) l"
  by (subst parse_loop.simps) (simp add: scan_char_def scan_start_def)

lemma loop_item:
  "parse_loop e conf False (item_text (neg, s) @ 44 # rest) scan_start l = do {
     (r, l) \<leftarrow> insert_text e (spec_text s) neg l;
     if r = - 1 then Some (- 1, l) else parse_loop e conf False rest scan_start l }"
  "parse_loop e conf False (item_text (neg, s)) scan_start l = do {
     (r, l) \<leftarrow> insert_text e (spec_text s) neg l;
     Some (if r = - 1 then - 1 else 0, l) }"
proof -
  note len = spec_plain(3)[of s]
  have bang: "parse_loop e conf False (item_text (neg, s) @ r) scan_start l = parse_loop e conf False (spec_text s @ r) (scan_start\<lparr>n_set := neg\<rparr>) l" for r
    using loop_bang spec_plain(2)[of s] by (cases neg) (simp_all add: scan_start_def)
  show "parse_loop e conf False (item_text (neg, s) @ 44 # rest) scan_start l = do {
     (r, l) \<leftarrow> insert_text e (spec_text s) neg l;
     if r = - 1 then Some (- 1, l) else parse_loop e conf False rest scan_start l }"
    unfolding bang using spec_plain(1) len by (subst loop_plain) (simp_all add: scan_start_def loop_comma cong: if_cong)
  obtain cs c where c: "spec_text s = cs @ [c]" using spec_plain(2)[of s] by (metis rev_exhaust)
  then have "\<forall>c\<in>set cs. plain c" "plain c" using spec_plain(1)[of s] by auto
  then show "parse_loop e conf False (item_text (neg, s)) scan_start l = do {
     (r, l) \<leftarrow> insert_text e (spec_text s) neg l;
     Some (if r = - 1 then - 1 else 0, l) }"
    using bang[of "[]"] len c by (simp add: loop_plain loop_last scan_start_def)
qed

text \<open>What is in both lists after a text was read.\<close>

definition lists_post :: "det_env \<Rightarrow> (bool \<times> port_spec) list \<Rightarrow> DetectPort list \<Rightarrow> DetectPort list \<Rightarrow> int \<times> port_lists \<Rightarrow> bool" where
  "lists_post e is head nhead = (\<lambda>(r, head', nhead', st').
     if \<exists>i\<in>set is. spec_ports (snd i) = {} then r = - 1
     else r = 0 \<and> groups_ok (no_engine e) head' \<and> groups_ok (no_engine e) nhead' \<and>
       covered head' = covered head \<union> listed False is \<and> covered nhead' = covered nhead \<union> listed True is \<and>
       (filter fst is = [] \<longrightarrow> nhead' = nhead) \<and> (nhead = [] \<and> length (filter fst is) \<le> 1 \<longrightarrow> length nhead' \<le> 1))"

lemma insert_text_ok:
  assumes "plenty e" "groups_ok (no_engine e) head" "groups_ok (no_engine e) nhead"
  shows "returns (lists_post e [(neg, s)] head nhead) (insert_text e (spec_text s) neg (head, nhead, st))"
proof (cases neg)
  case True
  show ?thesis using InsertString_ok[OF assms(1,3), of s st] assms True
    by (auto simp: insert_text_def returns_bind lists_post_def string_post_def elim!: returns_mono split: if_splits)
next
  case False
  show ?thesis using InsertString_ok[OF assms(1,2), of s st] assms False
    by (auto simp: insert_text_def returns_bind lists_post_def string_post_def elim!: returns_mono split: if_splits)
qed

lemma lists_post_Cons:
  assumes "lists_post e [i] head nhead (r1, head1, nhead1, st1)" "r1 \<noteq> - 1" "lists_post e is head1 nhead1 y"
  shows "lists_post e (i # is) head nhead y"
  using assms by (cases y) (auto simp: lists_post_def split: if_splits)

lemma parse_list_ok:
  assumes "plenty e" "is \<noteq> []" "groups_ok (no_engine e) head" "groups_ok (no_engine e) nhead"
  shows "returns (lists_post e is head nhead) (parse_loop e conf False (list_text is) scan_start (head, nhead, st))"
  using assms(2-4)
proof (induction "is" arbitrary: head nhead st rule: list_text.induct)
  case 1
  then show ?case by simp
next
  case (2 i)
  obtain neg s where i: "i = (neg, s)" by fastforce
  show ?case unfolding i list_text.simps loop_item returns_bind
    by (rule returns_mono[OF insert_text_ok[OF assms(1) 2(2,3), of neg s st]]) (auto simp: lists_post_def split: if_splits)
next
  case (3 i i2 "is")
  obtain neg s where i: "i = (neg, s)" by fastforce
  show ?case unfolding i list_text.simps loop_item returns_bind
  proof (rule returns_mono[OF insert_text_ok[OF assms(1) 3(3,4), of neg s st]], goal_cases)
    case (1 y)
    obtain r head1 nhead1 st1 where y: "y = (r, head1, nhead1, st1)" by (metis prod.exhaust)
    show ?case
    proof (cases "r = - 1")
      case True
      then show ?thesis using 1 y by (auto simp: lists_post_def split: if_splits)
    next
      case False
      then have "groups_ok (no_engine e) head1" "groups_ok (no_engine e) nhead1"
        using 1 y by (auto simp: lists_post_def split: if_splits)
      then have "returns (lists_post e (i2 # is) head1 nhead1) (parse_loop e conf False (list_text (i2 # is)) scan_start (head1, nhead1, st1))"
        by (rule 3(1)[rotated]) simp
      then show ?thesis using lists_post_Cons[of e "(neg, s)" head nhead r head1 nhead1 st1 "i2 # is"] 1 y False
        by (auto elim!: returns_mono)
    qed
  qed
qed

section \<open>Negated ports\<close>

lemma ports_subset:
  assumes "group_ok e g"
  shows "ports g \<subseteq> ports n \<longleftrightarrow> dp_port n \<le> dp_port g \<and> dp_port2 g \<le> dp_port2 n"
  using ports_nonempty[OF assms] by (auto simp: ports_def)

lemma Cmp_inside:
  assumes "group_ok e n" "group_ok e g"
  shows "\<exists>r. DetectPortCmp n g = Some r \<and> ((r = PORT_EQ \<or> r = PORT_EB) \<longleftrightarrow> ports g \<subseteq> ports n)"
  using assms(1) ports_subset[OF assms(2), of n] assms(2) unfolding Cmp_eq[OF assms] behind_def group_ok_def by auto

lemma remove_inside_ok:
  assumes "group_ok e n" "\<forall>g\<in>set xs. group_ok e g"
  shows "\<exists>st'. remove_inside d n xs st = Some (filter (\<lambda>g. \<not> ports g \<subseteq> ports n) xs, st')"
  using assms(2)
proof (induction xs arbitrary: st)
  case (Cons g xs)
  obtain r where "DetectPortCmp n g = Some r" "(r = PORT_EQ \<or> r = PORT_EB) \<longleftrightarrow> ports g \<subseteq> ports n"
    using Cmp_inside[OF assms(1), of g] Cons.prems by auto
  then show ?case using Cons.IH[of st] Cons.IH[of "DetectPortFree d st"] Cons.prems by auto
qed simp

lemma groups_ok_filter: "groups_ok e xs \<Longrightarrow> groups_ok e (filter P xs)"
  by (simp add: groups_ok_def sorted_wrt_filter)

text \<open>The groups that stay cover the ports outside of the negated range.\<close>

lemma covered_filter:
  assumes "\<forall>g\<in>set xs. aligned (ports g) N"
  shows "covered (filter (\<lambda>g. \<not> ports g \<subseteq> N) xs) = covered xs - N"
  using assms by (force simp: covered_def aligned_def)

lemma covered_empty: "groups_ok e xs \<Longrightarrow> covered xs = {} \<longleftrightarrow> xs = []"
  using ports_nonempty by (cases xs) (auto simp: groups_ok_simps)

lemma IsComplete_covered: "groups_ok e xs \<Longrightarrow> DetectPortIsCompletePortSpace xs \<longleftrightarrow> covered xs = UNIV"
  using complete_from_iff[of e xs 0] by (cases xs) (auto simp: DetectPortIsCompletePortSpace_def)

lemma Copy_single:
  assumes "plenty e"
  shows "\<exists>st'. DetectPortCopy e [n] st =
    ([\<lparr>dp_port = dp_port n, dp_port2 = dp_port2 n, dp_sh = None, dp_cnt = 0, dp_flags = 0\<rparr>], st')"
  using Init_plenty[OF assms, of st] by (auto simp: part_c_def)

definition merge_post :: "det_env \<Rightarrow> u16 set \<Rightarrow> u16 set \<Rightarrow> int \<times> DetectPort list \<times> det_mem \<Rightarrow> bool" where
  "merge_post e P N = (\<lambda>(r, head, st).
     if P - N = {} then r = - 1 else r = 0 \<and> groups_ok (no_engine e) head \<and> covered head = P - N)"

lemma remove_not_ok:
  assumes "plenty e" "groups_ok (no_engine e) head" "group_ok (no_engine e) n"
  shows "returns (merge_post e (covered head) (ports n)) (do {
    (r, head, st) \<leftarrow> insert_nots e [n] head st;
    if r < 0 then Some (- 1, head, st)
    else do { (head, st) \<leftarrow> remove_nots e [n] head st; Some (if head = [] then - 1 else 0, head, st) } })"
proof -
  let ?c = "\<lparr>dp_port = dp_port n, dp_port2 = dp_port2 n, dp_sh = None, dp_cnt = 0, dp_flags = 0\<rparr> :: DetectPort"
  obtain st1 where c: "DetectPortCopy e [n] st = ([?c], st1)" using Copy_single[OF assms(1)] by blast
  have ok: "group_ok (no_engine e) ?c" "ports ?c = ports n" using assms(3) by (simp_all add: group_ok_def ports_def)
  obtain y where y: "DetectPortInsert (no_engine e) head [?c] st1 = Some y" "insert_post (no_engine e) head ?c y"
    using DetectPortInsert_ok[OF assms(2) ok(1), of st1] unfolding returns_def by blast
  obtain r xs st2 where y': "y = (r, xs, st2)" by (metis prod.exhaust)
  have i: "r = 0 \<or> r = 1" "groups_ok (no_engine e) xs" "covered xs = covered head \<union> ports n" "\<forall>g\<in>set xs. aligned (ports g) (ports n)"
    using y(2) y' ok(2) assms(1) by (auto simp: insert_post_def plenty_no_engine)
  let ?ys = "filter (\<lambda>g. \<not> ports g \<subseteq> ports n) xs"
  have "\<forall>g\<in>set xs. group_ok (no_engine e) g" using i(2) by (simp add: groups_ok_def)
  then obtain st3 where r: "remove_inside e n xs st2 = Some (?ys, st3)"
    using remove_inside_ok[OF assms(3), of xs e st2] by blast
  have "insert_nots e [n] head st = Some (0, xs, st2)" using c y(1) y' i(1) by (auto simp: DetectPortParseInsert_def)
  moreover have "remove_nots e [n] xs st2 = Some (?ys, st3)" using r by simp
  moreover have "covered ?ys = covered head - ports n" using covered_filter[OF i(4)] i(3) by auto
  moreover have "groups_ok (no_engine e) ?ys" by (rule groups_ok_filter[OF i(2)])
  ultimately show ?thesis using covered_empty[of "no_engine e" ?ys]
    by (simp add: merge_post_def del: insert_nots.simps remove_nots.simps)
qed

lemma MergeNot_ok:
  assumes "plenty e" "groups_ok (no_engine e) head" "groups_ok (no_engine e) nhead" "length nhead \<le> 1"
  shows "returns (merge_post e (if head = [] \<and> nhead \<noteq> [] then UNIV else covered head) (covered nhead))
    (DetectPortParseMergeNotPorts e head nhead st)"
proof (cases nhead)
  case Nil
  then show ?thesis using assms(2) covered_empty[OF assms(2)]
    by (auto simp: DetectPortParseMergeNotPorts_def DetectPortIsCompletePortSpace_def merge_post_def)
next
  case (Cons n ns)
  then have n: "nhead = [n]" "group_ok (no_engine e) n" using assms(3,4) by (auto simp: groups_ok_simps)
  show ?thesis
  proof (cases "DetectPortIsCompletePortSpace nhead")
    case True
    then show ?thesis using IsComplete_covered[OF assms(3)] by (auto simp: DetectPortParseMergeNotPorts_def merge_post_def)
  next
    case False
    have zero: "[48, 58, 54, 53, 53, 51, 53] = spec_text (Range 0 65535)"
      by (simp add: range_text_def num_def render.simps digit_char_def)
    have all: "spec_ports (Range 0 65535) = UNIV" using u16_max by auto
    show ?thesis
    proof (cases "head = []")
      case True
      have "returns (string_post e [] UNIV) (DetectPortParseInsertString e [] [48, 58, 54, 53, 53, 51, 53] st)"
        using InsertString_ok[OF assms(1), of "[]" "Range 0 65535" st] zero all by simp
      then obtain xs st1 where s: "DetectPortParseInsertString e [] [48, 58, 54, 53, 53, 51, 53] st = Some (0, xs, st1)"
        "groups_ok (no_engine e) xs" "covered xs = UNIV"
        by (auto simp: returns_def string_post_def)
      show ?thesis using False remove_not_ok[OF assms(1) s(2) n(2), of st1] s True n(1)
        by (simp add: DetectPortParseMergeNotPorts_def del: insert_nots.simps remove_nots.simps)
    next
      case False
      then show ?thesis using \<open>\<not> DetectPortIsCompletePortSpace nhead\<close> remove_not_ok[OF assms(1,2) n(2), of st] n(1)
        by (simp add: DetectPortParseMergeNotPorts_def del: insert_nots.simps remove_nots.simps)
    qed
  qed
qed

section \<open>Brackets\<close>

text \<open>Every bracket that opens closes again, and none closes before it opened; \<open>d\<close> are open.\<close>

fun balanced :: "nat \<Rightarrow> bytes \<Rightarrow> bool" where
  "balanced d [] \<longleftrightarrow> d = 0"
| "balanced d (c # cs) \<longleftrightarrow>
     (if c = 91 then balanced (Suc d) cs else if c = 93 then d \<noteq> 0 \<and> balanced (d - 1) cs else balanced d cs)"

text \<open>A \<open>!\<close> somewhere behind a \<open>:\<close>, with no bracket closed in between.\<close>

fun late_bang :: "bool \<Rightarrow> bytes \<Rightarrow> bool" where
  "late_bang colon [] = False"
| "late_bang colon (c # cs) = (colon \<and> c = 33 \<or> late_bang (c \<noteq> 93 \<and> (colon \<or> c = 58)) cs)"

lemma loop_bracket:
  assumes "balanced d cs" "o_set s" "depth s = int d + 1" "length (address s) + length cs < 1024"
  shows "parse_loop e conf negate (cs @ 93 # rest) s l =
    (if late_bang (in_range s) cs then Some (- 1, l)
     else do {
       (r, l) \<leftarrow> parse_loop e conf (negate \<or> n_set s) (address s @ cs) scan_start l;
       if r = - 1 then Some (- 1, l)
       else parse_loop e conf negate rest (s\<lparr>address := [], in_range := False, n_set := False, depth := 0\<rparr>) l })"
  using assms
proof (induction cs arbitrary: s d)
  case Nil
  have "scan_char negate last_one 93 s =
      Nested (address s) (negate \<or> n_set s) (s\<lparr>address := [], in_range := False, n_set := False, depth := 0\<rparr>)" for last_one
    using Nil by (simp add: scan_char_def Let_def)
  then show ?case using Nil by (subst parse_loop.simps) (simp cong: if_cong)
next
  case (Cons c cs)
  define d' where "d' = (if c = 91 then Suc d else if c = 93 then d - 1 else d)"
  let ?s = "s\<lparr>address := address s @ [c], in_range := c \<noteq> 93 \<and> (in_range s \<or> c = 58), depth := int d' + 1\<rparr>"
  have bal: "balanced d' cs" using Cons.prems(1) by (auto simp: d'_def split: if_splits)
  have "c = 93 \<Longrightarrow> d \<noteq> 0" using Cons.prems(1) by (auto split: if_splits)
  then have "scan_char negate False c s = (if in_range s \<and> c = 33 then Fail else Go ?s)"
    using Cons.prems by (auto simp: scan_char_def Let_def d'_def)
  moreover have "parse_loop e conf negate (cs @ 93 # rest) ?s l =
    (if late_bang (c \<noteq> 93 \<and> (in_range s \<or> c = 58)) cs then Some (- 1, l)
     else do {
       (r, l) \<leftarrow> parse_loop e conf (negate \<or> n_set s) (address s @ c # cs) scan_start l;
       if r = - 1 then Some (- 1, l)
       else parse_loop e conf negate rest (s\<lparr>address := [], in_range := False, n_set := False, depth := 0\<rparr>) l })"
    using Cons.prems bal by (subst Cons.IH[of d']) (simp_all cong: if_cong)
  ultimately show ?case using Cons.prems by (subst parse_loop.simps) simp
qed

lemma loop_open:
  assumes "cs \<noteq> []"
  shows "parse_loop e conf negate (91 # cs) (scan_start\<lparr>n_set := neg\<rparr>) l =
    parse_loop e conf negate cs (scan_start\<lparr>n_set := neg, o_set := True, depth := 1\<rparr>) l"
  using assms by (subst parse_loop.simps) (simp add: scan_char_def scan_start_def Let_def)

text \<open>Behind the brackets the text ends, or goes on after a comma.\<close>

lemma loop_behind:
  assumes "rest = [] \<or> hd rest = 44"
  shows "parse_loop e conf negate rest (scan_start\<lparr>o_set := True\<rparr>) l = parse_loop e conf negate (drop 1 rest) scan_start l"
proof (cases rest)
  case Nil
  then show ?thesis by (simp add: parse_loop.simps[of _ _ _ "[]"])
next
  case (Cons c cs)
  then have "parse_loop e conf negate (c # cs) (scan_start\<lparr>o_set := True\<rparr>) l = parse_loop e conf negate cs scan_start l"
    using assms by (subst parse_loop.simps) (simp add: scan_char_def scan_start_def Let_def)
  then show ?thesis using Cons by simp
qed

section \<open>Properties\<close>

text \<open>Claim C39: A text of fewer than 1024 characters in brackets, with balanced brackets nested in it to any depth,
  negated by a \<open>!\<close> in front or not, and at the end of the text or before a comma, is read like the text
  without the outer brackets, and then the text behind the comma is read. It is refused when in it an
  exclamation mark comes behind a colon with no bracket closed in between.\<close>

theorem port_brackets:
  assumes "balanced 0 cs" "length cs < 1024" "rest = [] \<or> hd rest = 44"
  shows "DetectPortParseDo e conf ((if neg then [33] else []) @ 91 # cs @ 93 # rest) negate l =
    (if late_bang False cs then Some (- 1, l)
     else do {
       (r, l) \<leftarrow> DetectPortParseDo e conf cs (negate \<or> neg) l;
       if r = - 1 then Some (- 1, l) else DetectPortParseDo e conf (drop 1 rest) negate l })"
proof -
  have "parse_loop e conf negate ((if neg then [33] else []) @ 91 # cs @ 93 # rest) scan_start l =
      parse_loop e conf negate (cs @ 93 # rest) (scan_start\<lparr>n_set := neg, o_set := True, depth := 1\<rparr>) l"
    using loop_open[of "cs @ 93 # rest" e conf negate neg l] loop_bang[of "91 # cs @ 93 # rest"]
    by (cases neg) (simp_all add: scan_start_def)
  then show ?thesis
    using assms(1,2) loop_behind[OF assms(3)]
      loop_bracket[of 0 cs "scan_start\<lparr>n_set := neg, o_set := True, depth := 1\<rparr>" e conf negate rest l]
    by (simp add: DetectPortParseDo_def scan_start_def cong: if_cong)
qed

text \<open>The ports that a list of items means: the items that are not negated, or all ports when there are none, without
  the negated items.\<close>

definition wanted :: "(bool \<times> port_spec) list \<Rightarrow> u16 set" where
  "wanted is = (if \<forall>i\<in>set is. fst i then UNIV else listed False is) - listed True is"

text \<open>Claim C12: When no allocation fails (\<open>plenty\<close>; otherwise a list can be refused for lack of memory), reading a list of
  ports and ranges that are separated by commas, one of them negated at most, yields an error when a range ends before
  it starts or when no port is left; otherwise well-formed groups, and a port is in a group exactly when the text
  means it.\<close>

theorem port_list_text:
  assumes "plenty e" "is \<noteq> []" "length (filter fst is) \<le> 1"
  shows "\<exists>r head st'. DetectPortParse e conf [] (list_text is) st = Some (r, head, st') \<and>
    (if (\<exists>i\<in>set is. spec_ports (snd i) = {}) \<or> wanted is = {} then r = - 1
     else r = 0 \<and> groups_ok (no_engine e) head \<and> (\<forall>p. DetectPortLookupGroup head p \<noteq> None \<longleftrightarrow> p \<in> wanted is))"
proof -
  obtain r head nhead st1 where l: "parse_loop e conf False (list_text is) scan_start ([], [], st) = Some (r, head, nhead, st1)"
    "lists_post e is [] [] (r, head, nhead, st1)"
    using parse_list_ok[OF assms(1,2), of "[]" "[]" conf st] by (auto simp: returns_def)
  show ?thesis
  proof (cases "\<exists>i\<in>set is. spec_ports (snd i) = {}")
    case True
    then show ?thesis using l by (auto simp: DetectPortParse_def DetectPortParseDo_def lists_post_def)
  next
    case False
    then have p: "r = 0" "groups_ok (no_engine e) head" "groups_ok (no_engine e) nhead" "covered head = listed False is"
      "covered nhead = listed True is" "length nhead \<le> 1" using l(2) assms(3) by (auto simp: lists_post_def)
    have "head = [] \<longleftrightarrow> (\<forall>i\<in>set is. fst i)" using covered_empty[OF p(2)] p(4) False by (simp add: listed_empty)
    moreover have "nhead \<noteq> [] \<longleftrightarrow> (\<exists>i\<in>set is. fst i)" using covered_empty[OF p(3)] p(5) False by (auto simp: listed_empty)
    ultimately have w: "(if head = [] \<and> nhead \<noteq> [] then UNIV else covered head) - covered nhead = wanted is"
      using p(4,5) assms(2) by (cases "is") (auto simp: wanted_def)
    obtain r2 head2 st2 where m: "DetectPortParseMergeNotPorts e head nhead st1 = Some (r2, head2, st2)"
      "if wanted is = {} then r2 = - 1 else r2 = 0 \<and> groups_ok (no_engine e) head2 \<and> covered head2 = wanted is"
      using MergeNot_ok[OF assms(1) p(2,3,6), of st1] unfolding merge_post_def w by (auto simp: returns_def)
    then show ?thesis using l(1) p(1) False LookupGroup_covered[of "no_engine e" head2]
      by (auto simp: DetectPortParse_def DetectPortParseDo_def)
  qed
qed

section \<open>Examples\<close>

text \<open>\<open>[80:90,!85]\<close> is refused, as the comma in brackets does not end the range; without brackets the same list is read.\<close>

lemma port_brackets_witness:
  "DetectPortParseDo port_env (\<lambda>_. None) [91, 56, 48, 58, 57, 48, 44, 33, 56, 53, 93] False ([], [], port_mem) = Some (- 1, [], [], port_mem) \<and>
   DetectPortParseDo port_env (\<lambda>_. None) [91, 91, 56, 48, 93, 44, 57, 48, 93, 44, 50, 50] False ([], [], port_mem) = do {
     (r, l) \<leftarrow> DetectPortParseDo port_env (\<lambda>_. None) [91, 56, 48, 93, 44, 57, 48] False ([], [], port_mem);
     if r = - 1 then Some (- 1, l) else DetectPortParseDo port_env (\<lambda>_. None) [50, 50] False l }"
  using port_brackets[of "[56, 48, 58, 57, 48, 44, 33, 56, 53]" "[]" port_env "\<lambda>_. None" False False "([], [], port_mem)"]
    port_brackets[of "[91, 56, 48, 93, 44, 57, 48]" "[44, 50, 50]" port_env "\<lambda>_. None" False False "([], [], port_mem)"]
  by (simp cong: if_cong)

lemma port_list_text_witness:
  "\<exists>head st'. DetectPortParse port_env (\<lambda>_. None) [] (list_text [(False, Range 1 1023), (True, One 22)]) port_mem = Some (0, head, st') \<and>
     DetectPortLookupGroup head 22 = None \<and> DetectPortLookupGroup head 21 \<noteq> None"
proof -
  let ?is = "[(False, Range 1 1023), (True, One 22)]"
  have w: "plenty port_env" "21 \<in> wanted ?is" "22 \<notin> wanted ?is" "\<forall>i\<in>set ?is. spec_ports (snd i) \<noteq> {}"
    by (simp_all add: plenty_def port_env_def wanted_def)
  then have "\<not> ((\<exists>i\<in>set ?is. spec_ports (snd i) = {}) \<or> wanted ?is = {})" by blast
  moreover have "?is \<noteq> []" "length (filter fst ?is) \<le> 1" by simp_all
  ultimately show ?thesis using port_list_text[OF w(1), of ?is "\<lambda>_. None" port_mem] w(2,3)
    by (metis (lifting) if_not_P)
qed

end
