(* ===== verification/Spec2Isabelle.thy ===== *)
theory Spec2Isabelle
  imports RingBufferConc LinkedQueues Pool HashListTable BloomFilter DecodeTransport DecodeLorawan Checksum ByteExtract SpmBoyerMoore StreamTcpChecks StreamTcpReassembleSystem DetectPortRules
begin

text \<open>
  A model of LoraIPS, a network intrusion prevention system in C (a Suricata of 2010 with decoders for
  LoRaWAN frames), and proofs about it. Paths are relative to \<open>src/\<close> of the repository; the C files are in
  \<open>src/src/\<close>.

  The program. Capture threads take packets from netfilter or from a capture and put them on queues. A
  decoder thread reads the headers (LoRaWAN, Ethernet, IPv4, IPv6, TCP, UDP), records anomalies as events of the
  packet, and finds the flow of the packet in a hash of flows; flows wait on queues that follow the state of the
  connection. The stream engine keeps a TCP session per flow, decides which segments belong to it and
  reassembles them for the parsers of the application layer. The detection engine compares packets with rules,
  using pattern searches, Bloom filters and hash tables; packets, sessions and segments come from pools.
  The development follows the data: containers first, then decoders, checksums and extraction of
  numbers, the single pattern searches, the TCP session state machine, the lists of TCP segments, the
  messages for the application layer, and the ports of rules.

  Theories and sources.
  \<^item> \<open>Prelude\<close>: names of the machine types, bounded reads of buffers, words as natural numbers.
  \<^item> \<open>RingBuffer\<close> (\<open>util-ringbuffer.c\<close>): each operation of the 8-bit and 16-bit buffers run alone; the
    locale \<open>bounded_fifo\<close> is the contract of a queue of capacity 255 or 65535, interpreted for the seven
    reader/writer variants. \<open>RingBufferConc\<close> (same file): the multi-reader multi-writer operations as a step
    relation over any number of threads, one atomic access per step.
  \<^item> \<open>LinkedQueues\<close> (\<open>packet-queue.c\<close>, \<open>flow-queue.c\<close>, \<open>data-queue.c\<close>): doubly linked queues in a store of nodes; the
    locale \<open>linked_fifo\<close> is interpreted for the three of them.
  \<^item> \<open>Pool\<close> (\<open>util-pool.c\<close>): buckets and callbacks of the client; the runs of a pool count the calls that got nothing
    from a failed allocation.
  \<^item> \<open>HashTable\<close> (\<open>util-hash.c\<close>) and \<open>HashListTable\<close> (\<open>util-hashlist.c\<close>): both interpret the locale
    \<open>keyed_multimap\<close>, the second on a heap of buckets whose list pointers are those of \<open>LinkedQueues\<close>.
  \<^item> \<open>BloomFilter\<close> (\<open>util-bloomfilter.c\<close>, \<open>util-bloomfilter-counting.c\<close>).
  \<^item> \<open>PacketEvents\<close> (\<open>decode-events.h\<close>, \<open>decode.h\<close>), \<open>DecodeIPV4\<close> (\<open>decode-ipv4.c\<close>), \<open>DecodeTransport\<close>
    (\<open>decode-tcp.c\<close>, \<open>decode-udp.c\<close>), \<open>DecodeLorawan\<close> (\<open>decode-lorawan-Mac.c\<close>): the decoders on lists of bytes;
    the event array has 16 entries and an access outside is an error.
  \<^item> \<open>Checksum\<close> (\<open>decode-ipv4.h\<close>, \<open>decode-tcp.h\<close>, \<open>decode-udp.h\<close>) and \<open>ByteExtract\<close> (\<open>util-byte.c\<close>).
  \<^item> \<open>SpmBasic\<close> (\<open>util-spm-bs.c\<close>, \<open>util-spm-bs2bm.c\<close>, \<open>util-spm.c\<close>) and \<open>SpmBoyerMoore\<close> (\<open>util-spm-bm.c\<close>).
  \<^item> \<open>SequenceNumbers\<close> (the \<open>SEQ_\<close> macros of \<open>stream-tcp-private.h\<close>): comparison of sequence numbers modulo \<open>2 ^ 32\<close>.
  \<^item> \<open>StreamTcpSession\<close> (\<open>stream-tcp-private.h\<close> and the checks of \<open>stream-tcp.c\<close>), \<open>StreamTcp\<close> (the handlers and
    the dispatcher of \<open>stream-tcp.c\<close>); their properties in \<open>StreamTcpTransitions\<close>, \<open>StreamTcpHandshake\<close> and
    \<open>StreamTcpChecks\<close>.
  \<^item> \<open>StreamTcpSegments\<close> (\<open>stream-tcp-reassemble.c\<close>, memory accounting of \<open>stream-tcp.c\<close>): the segments of the streams,
    their pools, the copying of payloads and the insertion of a segment by overlap policy. Segments live in a
    memory of nodes with the list pointers of \<open>LinkedQueues\<close> and the pools of \<open>Pool\<close>. Lemmas about it, from the
    bottom: \<open>StreamTcpSegmentPools\<close> (a segment is in one pool or in use, a request gets a large enough buffer),
    \<open>StreamTcpSegmentCopy\<close> (what the copying loops write), \<open>StreamTcpSegmentList\<close> (the list as a chain of intervals
    in a window of 64K), \<open>StreamTcpSegmentOps\<close> (exchange of a segment, filling of a gap), \<open>StreamTcpSegmentSteps\<close> and
    \<open>StreamTcpSegmentHandlers\<close> (one step of the insertion loop, one handler per kind of overlap),
    \<open>StreamTcpSegmentInsert\<close> (the loop), \<open>StreamTcpSegmentDelivery\<close> (the bytes of a list),
    \<open>StreamTcpSegmentPolicy\<close> (retransmissions), \<open>StreamTcpSegmentSystem\<close> (all streams on the shared pools; properties).
  \<^item> \<open>StreamMsgQueue\<close> (\<open>stream.c\<close>): the pool of messages and their queue, a further \<open>linked_fifo\<close>. \<open>StreamTcpReassemble\<close>
    (\<open>stream-tcp-reassemble.c\<close>): an acknowledgement walks over the segments of the other side, copies their bytes
    into messages, announces gaps and gives the segments back. Lemmas about it: \<open>StreamTcpReassembleMsgs\<close> (messages as
    items, bytes or gaps; what the copying adds to the queue), \<open>StreamTcpReassembleList\<close> (removal of segments),
    \<open>StreamTcpReassembleAck\<close> (the loop keeps the invariant), \<open>StreamTcpReassembleText\<close> (the items that new segments
    give), \<open>StreamTcpReassembleSystem\<close> (packets and acknowledgements together; properties).
  \<^item> \<open>SigGroup\<close> (\<open>detect-engine-siggroup.c\<close>): the signatures of a group as a bit array. \<open>DetectPort\<close> and \<open>DetectPortText\<close>
    (\<open>detect-engine-port.c\<close>): groups of ports, cutting and inserting, and the parser of the lists in rules. Lemmas
    about them: \<open>DetectPortGroups\<close> (every kind of cut keeps ports and signatures), \<open>DetectPortInsert\<close> (the insertion
    ends and keeps the list ordered), \<open>DetectPortLists\<close> (lookup in lists; properties), \<open>DetectPortRules\<close> (what a
    text means; properties).

  Conventions. A struct is a record with the names of the C members, a pointer into a buffer is an offset or
  the list of the bytes from there to the end of the buffer, an object that several pointers share lives in a
  store. The value \<open>None\<close> of a definition that reads a buffer is undefined behaviour (a read or write outside
  the buffer, a null pointer, a freed bucket), \<open>None\<close> of the stream engine is a \<open>BUG_ON\<close>. Integers have
  the width of the C type, except for indices of loops whose bounds a lemma shows (the lengths of Boyer-Moore are
  converted from \<open>uint32_t\<close> to \<open>int32_t\<close> as in its wrappers, and its theorem has the bounds). Loops are recursions with a
  measure; the search loop of Boyer-Moore, whose end depends on its tables, and the walks over segment lists, whose end
  depends on the links, are \<open>partial_function\<close>s and their properties prove that they return. Only \<open>walk\<close>, which
  reads a segment list for the statements, has fuel: the number of allocations, and a list has no more members.

  What the lemmas show. For the containers: refinement of an abstract queue, multimap or set, and
  invariants of their links and counters. For the ring buffers also the invariant of every interleaving, and
  the interleaving that breaks the 8-bit variant when a reader sleeps through a whole lap. For
  decoders: nothing is read or written outside a buffer if one byte follows the IP options (without it the code
  does read outside), exactly the well-formed headers are accepted, and the options recorded are those of a
  reference reading. For checksums: equality with the sum of RFC 1071 for the lengths that fit with the protocol
  number in 16 bits, and the exact inputs on which the code differs. For searches: termination and the first
  occurrence. For
  TCP sessions: the graph of states, progress along it for every sequence of packets, what a session needs to be
  established, and what the windows, resets and timestamps let through. For segment lists: the invariant of
  every reachable state of the engine (links, order, no overlap, no leak, no access outside a buffer, under the
  conditions that the packets lie in a window of 65535 bytes and \<open>no_overrun\<close>, which the code needs and does not
  check), the text that packets in any order spell, with the packets refused exactly when a pool has no segment,
  and which bytes a retransmission keeps; also three runs in which overlapping bytes are lost, wrong, or
  written outside a buffer. For acknowledgements near the window: the same invariant, the messages as a function of the
  segments once the protocol is detected and reassembly is not paused, and both sides composed: a text that is sent in parts in any order and then acknowledged is what the
  application layer gets; also runs in which a byte is delivered twice, or acknowledged bytes are dropped.
  For ports: insertions keep groups ordered and apart, the union of their ports and the signatures of each port, but
  for one kind of cut; and the parser gives groups for exactly the ports that the text means, shown for lists with at
  most one negated range (with several, the copy of a negated group brings the groups behind it along).

  Arguments of the model. Results of \<open>malloc\<close>, hash, compare and free callbacks, the thread schedule
  (by the step relation), the event numbers and port macros of the transport decoders that no file defines,
  \<open>PKT_IS_TOSERVER\<close> and \<open>PKT_IS_TOCLIENT\<close> (the first names members that a packet does not have, the second is
  not defined), for the TCP sessions the reassembly of segments, the application layer and the table of
  operating systems of hosts, for the segments the memory limit and the content of fresh memory, and for the messages
  the content of an object that comes back from the pool and the handler of a message (\<open>AppLayerHandleMsg\<close>). Properties that need something of them say so as hypotheses:
  \<open>keeps_state\<close> and \<open>keeps_view\<close> say that reassembly and application layer leave alone the state of the session
  and the numbers of the handshake.

  For the ports of rules the arguments are the results of \<open>malloc\<close>, the size of a bit array, and the values of variables.

  Not modelled. Configuration and threads of the stream engine, locks of the pools of segments and messages (one
  thread at a time holds each), and the checks that are made only with debug output; the hash tables
  of port groups and the lists of destination ports below a group; IP
  defragmentation, the flow hash and its time-outs, the radix tree, IPv6 and link layer decoders;
  the rule language, multi pattern matchers and detection engine, the application layer parsers;
  and what only performs input and output, allocates, or calls system interfaces (capture, logs,
  configuration files, threads). The LoRaWAN frame decoder uses macros that are not defined, so it has no
  meaning to model.
\<close>


end
